(* ===== verification/Byte_Prelude.thy ===== *)
theory Byte_Prelude
  imports Main "HOL-Library.Word"
begin

text \<open>
  Shared vocabulary of the development: the C integer types as words, \<open>size_t\<close> as a natural
  number with its 64-bit wrap-around written out, a state monad with failure that keeps the state
  of a failed call (a C function that returns 0 may already have advanced its argument), big-endian
  and little-endian byte strings, and the interface of a self-delimiting byte codec, which the wire
  formats of nanopb and of the byte-string parsers implement.
\<close>

unbundle bit_operations_syntax

section \<open>Machine integers\<close>

type_synonym u8 = "8 word"
type_synonym u16 = "16 word"
type_synonym u32 = "32 word"
type_synonym u64 = "64 word"

text \<open>\<open>size_t\<close> of a 64-bit target: natural numbers below \<open>2 ^ 64\<close>; \<open>szw\<close> is the reduction that
  every C addition, multiplication or shift of \<open>size_t\<close> performs.\<close>

definition szw :: "nat \<Rightarrow> nat" where
  "szw n = n mod 2 ^ 64"

lemma szw_small [simp]: "n < 2 ^ 64 \<Longrightarrow> szw n = n"
  by (simp add: szw_def)

lemma szw_le: "szw n \<le> n"
  by (simp add: szw_def)

lemma szw_lt [simp]: "szw n < 2 ^ 64"
  by (simp add: szw_def)

named_theorems wire_simps \<open>facts that run an encoder or a decoder one step\<close>

section \<open>State passing with failure\<close>

type_synonym ('s, 'a) st = "'s \<Rightarrow> 'a option \<times> 's"

definition st_return :: "'a \<Rightarrow> ('s, 'a) st" where
  "st_return x s = (Some x, s)"

definition st_fail :: "('s, 'a) st" where
  "st_fail s = (None, s)"

definition st_bind :: "('s, 'a) st \<Rightarrow> ('a \<Rightarrow> ('s, 'b) st) \<Rightarrow> ('s, 'b) st" where
  "st_bind m f s = (case m s of (None, t) \<Rightarrow> (None, t) | (Some x, t) \<Rightarrow> f x t)"

definition st_guard :: "bool \<Rightarrow> ('s, unit) st" where
  "st_guard b s = (if b then (Some (), s) else (None, s))"

lemma st_bind_Some [simp]: "m s = (Some x, t) \<Longrightarrow> st_bind m f s = f x t"
  by (simp add: st_bind_def)

lemma st_bind_None [simp]: "m s = (None, t) \<Longrightarrow> st_bind m f s = (None, t)"
  by (simp add: st_bind_def)

lemma st_return_apply [simp]: "st_return x s = (Some x, s)"
  by (simp add: st_return_def)

lemma st_fail_apply [simp]: "st_fail s = (None, s)"
  by (simp add: st_fail_def)

lemma st_guard_apply [simp]: "st_guard b s = (if b then Some () else None, s)"
  by (simp add: st_guard_def)

lemma st_bind_cong [fundef_cong]:
  assumes "m s = m' s'"
    and "\<And>x t. m' s' = (Some x, t) \<Longrightarrow> f x t = f' x t"
  shows "st_bind m f s = st_bind m' f' s'"
  using assms by (auto simp: st_bind_def split: option.splits prod.splits)

lemma st_bind_SomeE:
  assumes "st_bind m f s = (Some y, u)"
  obtains x t where "m s = (Some x, t)" "f x t = (Some y, u)"
  using assms by (auto simp: st_bind_def split: option.splits prod.splits)

lemma st_bind_assoc: "st_bind (st_bind m f) g = st_bind m (\<lambda>x. st_bind (f x) g)"
  by (rule ext) (simp add: st_bind_def split: option.splits prod.splits)

lemma st_bind_eq_Some:
  "st_bind m f s = (Some y, u) \<longleftrightarrow> (\<exists>x t. m s = (Some x, t) \<and> f x t = (Some y, u))"
  by (auto simp: st_bind_def split: option.splits prod.splits)

section \<open>Byte strings as numbers\<close>

text \<open>Big-endian value and fixed-width big-endian encoding, the reference semantics of the
  \<open>u8\<close>, \<open>u16\<close>, \<open>u24\<close>, \<open>u32\<close> reads and writes.\<close>

fun be_val :: "u8 list \<Rightarrow> nat" where
  "be_val [] = 0"
| "be_val (b # bs) = unat b * 256 ^ length bs + be_val bs"

primrec be_enc :: "nat \<Rightarrow> nat \<Rightarrow> u8 list" where
  "be_enc 0 v = []"
| "be_enc (Suc n) v = be_enc n (v div 256) @ [word_of_nat v]"

fun le_val :: "u8 list \<Rightarrow> nat" where
  "le_val [] = 0"
| "le_val (b # bs) = unat b + 256 * le_val bs"

lemma length_be_enc [simp]: "length (be_enc n v) = n"
  by (induction n arbitrary: v) auto

lemma be_val_snoc [simp]: "be_val (bs @ [b]) = be_val bs * 256 + unat b"
  by (induction bs) (auto simp: algebra_simps)

lemma unat_word_of_nat_u8 [simp]: "unat (word_of_nat v :: u8) = v mod 256"
  by (simp add: unat_of_nat)

lemma be_val_be_enc: "be_val (be_enc n v) = v mod 256 ^ n"
proof (induction n arbitrary: v)
  case 0
  then show ?case by simp
next
  case (Suc n)
  have "(v div 256) mod 256 ^ n * 256 + v mod 256 = v mod (256 * 256 ^ n)"
    by (simp add: mod_mult2_eq mult.commute)
  then show ?case using Suc.IH by simp
qed

lemma unat_u8_lt [simp]: "unat (b :: u8) < 256"
  by (rule unsigned_less [of b, simplified])

lemma unat_ucast_u8_u32 [simp]: "unat (ucast (b :: u8) :: u32) = unat b"
  using unat_u8_lt [of b] by (simp add: unsigned_ucast_eq take_bit_nat_eq_self del: unat_u8_lt)

lemma unat_ucast_u8_u64 [simp]: "unat (ucast (b :: u8) :: u64) = unat b"
  using unat_u8_lt [of b] by (simp add: unsigned_ucast_eq take_bit_nat_eq_self del: unat_u8_lt)

lemma be_val_bound: "be_val bs < 256 ^ length bs"
proof (induction bs)
  case (Cons b bs)
  have "unat b * 256 ^ length bs + be_val bs < (unat b + 1) * 256 ^ length bs"
    using Cons.IH by simp
  also have "\<dots> \<le> 256 * 256 ^ length bs"
    using unat_u8_lt [of b] by (intro mult_right_mono) (auto simp: Suc_le_eq simp del: unat_u8_lt)
  finally show ?case by simp
qed simp

lemma be_enc_be_val: "be_enc (length bs) (be_val bs) = bs"
proof (induction bs rule: rev_induct)
  case (snoc b bs)
  have "(word_of_nat (be_val bs * 256 + unat b) :: u8) = word_of_nat ((be_val bs * 256 + unat b) mod 256)"
    by (rule word_unat_eq_iff [THEN iffD2]) (simp del: of_nat_add)
  also have "\<dots> = b"
    by (simp del: of_nat_add)
  finally have "(word_of_nat (be_val bs * 256 + unat b) :: u8) = b" .
  then show ?case using snoc.IH by simp
qed simp

lemma le_val_bound: "le_val bs < 256 ^ length bs"
proof (induction bs)
  case (Cons b bs)
  have "unat b + 256 * le_val bs < 256 * Suc (le_val bs)" using unat_u8_lt [of b] by (simp del: unat_u8_lt)
  also have "\<dots> \<le> 256 * 256 ^ length bs" using Cons.IH by (intro mult_le_mono2) simp
  finally show ?case by simp
qed simp

lemma be_enc_add: "be_enc (m + k) v = be_enc m (v div 256 ^ k) @ be_enc k v"
  by (induction k arbitrary: v) (simp_all add: div_mult2_eq)

lemma be_enc_mod: "be_enc n (v mod 256 ^ n) = be_enc n v"
  using be_enc_be_val [of "be_enc n v"] by (simp add: be_val_be_enc)

section \<open>Shifts and ors as arithmetic\<close>

lemma unat_shift_or:
  fixes x y :: "'a::len word"
  assumes "unat x * 2 ^ k + unat y < 2 ^ LENGTH('a)" "unat y < 2 ^ k"
  shows "unat (push_bit k x OR y) = unat x * 2 ^ k + unat y"
proof -
  have "push_bit k x AND y = 0"
  proof (rule bit_eqI)
    fix n
    have "take_bit k (unat y) = unat y"
      using assms(2) by (simp add: take_bit_nat_eq_self)
    then have "bit (unat y) n \<Longrightarrow> n < k"
      by (metis bit_take_bit_iff)
    then have "bit y n \<Longrightarrow> n < k"
      by (simp add: bit_unsigned_iff)
    then show "bit (push_bit k x AND y) n = bit 0 n"
      by (auto simp: bit_simps)
  qed
  then have "push_bit k x OR y = push_bit k x + y"
    by (simp add: disjunctive_add_eq_or)
  moreover have "unat (push_bit k x) = unat x * 2 ^ k"
    using assms(1) unfolding unsigned_push_bit_eq by (simp add: push_bit_eq_mult take_bit_nat_eq_self)
  ultimately show ?thesis
    using assms(1) unat_add_lem [of "push_bit k x" y] by simp
qed

lemma unat_take_bit: "unat (take_bit k w) = unat w mod 2 ^ k"
  by (subst unsigned_take_bit_eq) (rule take_bit_eq_mod)

text \<open>The continuation bit and the payload of a base-128 digit.\<close>

definition cont :: "u8 \<Rightarrow> bool" where
  "cont b \<longleftrightarrow> 128 \<le> unat b"

lemma and_7f: "unat (b AND 0x7f :: u8) = unat b mod 128"
proof -
  have "b AND 0x7f = take_bit 7 b"
    by (simp add: take_bit_eq_mask mask_eq_exp_minus_1 flip: take_bit_eq_mod)
  then show ?thesis using unat_take_bit [of 7 b] by simp
qed

lemma cont_iff: "b AND 0x80 \<noteq> 0 \<longleftrightarrow> cont b"
proof -
  have "b AND 0x80 \<noteq> 0 \<longleftrightarrow> bit b 7"
    using and_exp_eq_0_iff_not_bit [of b 7] by simp
  also have "\<dots> \<longleftrightarrow> odd (unat b div 128)"
    using bit_unsigned_iff [of b 7, where 'a = nat] by (simp add: bit_iff_odd [of "unat b"])
  also have "\<dots> \<longleftrightarrow> cont b"
  proof (cases "128 \<le> unat b")
    case True
    then have "unat b div 128 = 1" using unat_u8_lt [of b] by (intro div_nat_eqI) auto
    then show ?thesis using True by (simp add: cont_def)
  next
    case False
    then show ?thesis by (simp add: cont_def)
  qed
  finally show ?thesis .
qed

lemma cont_mod: "cont b \<Longrightarrow> unat b = 128 + unat b mod 128"
  using unat_u8_lt [of b] unfolding cont_def by (subst le_mod_geq) (auto simp del: unat_u8_lt)

section \<open>Arrays in memory\<close>

text \<open>\<open>memcpy_at dst off src\<close> is the array \<open>dst\<close> after \<open>memcpy (dst + off, src, length src)\<close>.\<close>

definition memcpy_at :: "'a list \<Rightarrow> nat \<Rightarrow> 'a list \<Rightarrow> 'a list" where
  "memcpy_at dst off src = take off dst @ src @ drop (off + length src) dst"

lemma length_memcpy_at [simp]:
  "off + length src \<le> length dst \<Longrightarrow> length (memcpy_at dst off src) = length dst"
  by (simp add: memcpy_at_def)

lemma take_memcpy_at:
  "off + length src \<le> length dst \<Longrightarrow> take (off + length src) (memcpy_at dst off src) = take off dst @ src"
  by (simp add: memcpy_at_def)

lemma memcpy_at_0: "memcpy_at dst 0 src = src @ drop (length src) dst"
  by (simp add: memcpy_at_def)

section \<open>Self-delimiting codecs\<close>

primrec dec_list :: "('s, 'a) st \<Rightarrow> nat \<Rightarrow> ('s, 'a list) st" where
  "dec_list dec 0 = st_return []"
| "dec_list dec (Suc n) = st_bind dec (\<lambda>x. st_bind (dec_list dec n) (\<lambda>xs. st_return (x # xs)))"

text \<open>An encoder and a decoder that reads exactly what the encoder wrote, whatever follows.  The
  clients' facts are proved once here: the code is prefix-free and injective, and a sequence of
  encodings is decoded back element by element.\<close>

locale byte_codec =
  fixes enc :: "'a \<Rightarrow> u8 list"
    and dec :: "(u8 list, 'a) st"
    and valid :: "'a \<Rightarrow> bool"
  assumes dec_enc: "valid x \<Longrightarrow> dec (enc x @ rest) = (Some x, rest)"
begin

lemma enc_prefix_free:
  assumes "valid x" "valid y" "enc x @ r = enc y @ s"
  shows "x = y \<and> r = s"
proof -
  have "(Some x, r) = (Some y, s)"
    using dec_enc [OF assms(1), of r] dec_enc [OF assms(2), of s] assms(3) by metis
  then show ?thesis by simp
qed

lemma enc_inj: "inj_on enc {x. valid x}"
proof (rule inj_onI)
  fix x y
  assume "x \<in> {x. valid x}" "y \<in> {x. valid x}" "enc x = enc y"
  then show "x = y" using enc_prefix_free [of x y "[]" "[]"] by simp
qed

lemma enc_concat_inj:
  assumes "list_all valid xs" "list_all valid ys" "length xs = length ys"
    and "concat (map enc xs) = concat (map enc ys)"
  shows "xs = ys"
  using assms(3,1,2,4)
proof (induction xs ys rule: list_induct2)
  case (Cons x xs y ys)
  then have "x = y \<and> concat (map enc xs) = concat (map enc ys)"
    by (intro enc_prefix_free) auto
  with Cons show ?case by auto
qed simp

lemma dec_list_enc:
  "list_all valid xs \<Longrightarrow> dec_list dec (length xs) (concat (map enc xs) @ rest) = (Some xs, rest)"
  by (induction xs) (auto simp: dec_enc)

end

text \<open>A canonical codec also accepts nothing but encodings, so that no two byte strings decode to the
  same value.\<close>

locale canonical_codec = byte_codec +
  assumes dec_sound: "dec bs = (Some x, rest) \<Longrightarrow> valid x \<and> bs = enc x @ rest"
begin

lemma dec_iff: "dec bs = (Some x, rest) \<longleftrightarrow> valid x \<and> bs = enc x @ rest"
  using dec_enc dec_sound by blast

lemma non_malleable: "dec bs = (Some x, rest) \<Longrightarrow> dec cs = (Some x, rest) \<Longrightarrow> bs = cs"
  using dec_sound by blast

lemma dec_consumes: "dec bs = (Some x, rest) \<Longrightarrow> length bs = length (enc x) + length rest"
  using dec_sound by force

end

end
