(* ===== verification/Const_Time.thy ===== *)
theory Const_Time
  imports Byte_Prelude
begin

text \<open>
  The constant-time word primitives of \<open>crypto/internal.h\<close> on a 64-bit target
  (\<open>crypto_word_t\<close> is \<open>uint64_t\<close>), and the facts that each branch-free formula computes the
  comparison it stands for.
\<close>

section \<open>The primitives\<close>

definition CONSTTIME_TRUE_W :: u64 where
  "CONSTTIME_TRUE_W = NOT 0"

definition CONSTTIME_FALSE_W :: u64 where
  "CONSTTIME_FALSE_W = 0"

definition CONSTTIME_TRUE_8 :: u8 where
  "CONSTTIME_TRUE_8 = 0xff"

definition CONSTTIME_FALSE_8 :: u8 where
  "CONSTTIME_FALSE_8 = 0"

definition constant_time_msb_w :: "u64 \<Rightarrow> u64" where
  "constant_time_msb_w a = 0 - drop_bit 63 a"

definition constant_time_lt_w :: "u64 \<Rightarrow> u64 \<Rightarrow> u64" where
  "constant_time_lt_w a b = constant_time_msb_w (a XOR ((a XOR b) OR ((a - b) XOR a)))"

definition constant_time_lt_8 :: "u64 \<Rightarrow> u64 \<Rightarrow> u8" where
  "constant_time_lt_8 a b = ucast (constant_time_lt_w a b)"

definition constant_time_ge_w :: "u64 \<Rightarrow> u64 \<Rightarrow> u64" where
  "constant_time_ge_w a b = NOT (constant_time_lt_w a b)"

definition constant_time_ge_8 :: "u64 \<Rightarrow> u64 \<Rightarrow> u8" where
  "constant_time_ge_8 a b = ucast (constant_time_ge_w a b)"

definition constant_time_is_zero_w :: "u64 \<Rightarrow> u64" where
  "constant_time_is_zero_w a = constant_time_msb_w (NOT a AND (a - 1))"

definition constant_time_is_zero_8 :: "u64 \<Rightarrow> u8" where
  "constant_time_is_zero_8 a = ucast (constant_time_is_zero_w a)"

definition constant_time_eq_w :: "u64 \<Rightarrow> u64 \<Rightarrow> u64" where
  "constant_time_eq_w a b = constant_time_is_zero_w (a XOR b)"

definition constant_time_eq_8 :: "u64 \<Rightarrow> u64 \<Rightarrow> u8" where
  "constant_time_eq_8 a b = ucast (constant_time_eq_w a b)"

text \<open>The \<open>int\<close> variants convert their arguments with sign extension.\<close>

definition constant_time_eq_int :: "32 word \<Rightarrow> 32 word \<Rightarrow> u64" where
  "constant_time_eq_int a b = constant_time_eq_w (scast a) (scast b)"

definition constant_time_eq_int_8 :: "32 word \<Rightarrow> 32 word \<Rightarrow> u8" where
  "constant_time_eq_int_8 a b = constant_time_eq_8 (scast a) (scast b)"

definition constant_time_select_w :: "u64 \<Rightarrow> u64 \<Rightarrow> u64 \<Rightarrow> u64" where
  "constant_time_select_w m a b = (m AND a) OR (NOT m AND b)"

definition constant_time_select_8 :: "u8 \<Rightarrow> u8 \<Rightarrow> u8 \<Rightarrow> u8" where
  "constant_time_select_8 m a b = ucast (constant_time_select_w (ucast m) (ucast a) (ucast b))"

definition constant_time_select_int :: "u64 \<Rightarrow> 32 word \<Rightarrow> 32 word \<Rightarrow> 32 word" where
  "constant_time_select_int m a b = ucast (constant_time_select_w m (scast a) (scast b))"

section \<open>What the formulas compute\<close>

lemma drop_bit_63: "drop_bit 63 (a :: u64) = (if bit a 63 then 1 else 0)"
proof (rule bit_word_eqI)
  fix n
  assume "n < LENGTH(64)"
  show "bit (drop_bit 63 a) n = bit (if bit a 63 then 1 else 0 :: u64) n"
    by (cases n) (auto simp: bit_simps dest: bit_imp_le_length)
qed

lemma bit_63_iff: "bit (a :: u64) 63 \<longleftrightarrow> 2 ^ 63 \<le> uint a"
proof -
  have b: "0 \<le> uint a" "uint a < 2 ^ 64" using uint_lt2p [of a] by auto
  have "bit a 63 \<longleftrightarrow> bit (uint a) 63"
    by (simp add: bit_uint_iff)
  then have "bit a 63 \<longleftrightarrow> odd (uint a div 2 ^ 63)"
    by (simp add: bit_iff_odd)
  also have "\<dots> \<longleftrightarrow> 2 ^ 63 \<le> uint a"
  proof (cases "2 ^ 63 \<le> uint a")
    case True
    with b have "uint a div 2 ^ 63 = 1"
      by (intro int_div_pos_eq [of _ _ 1 "uint a - 2 ^ 63"]) auto
    with True show ?thesis by simp
  next
    case False
    with b have "uint a div 2 ^ 63 = 0" by simp
    with False show ?thesis by simp
  qed
  finally show ?thesis .
qed

lemma constant_time_msb_w_eq:
  "constant_time_msb_w a = (if bit a 63 then CONSTTIME_TRUE_W else CONSTTIME_FALSE_W)"
  by (simp add: constant_time_msb_w_def drop_bit_63 CONSTTIME_TRUE_W_def CONSTTIME_FALSE_W_def)

lemma uint_sub_u64:
  "uint (a - b :: u64) = (if uint b \<le> uint a then uint a - uint b else uint a - uint b + 2 ^ 64)"
  using uint_sub_if' [of a b] by simp

lemma bit_lt_formula:
  "bit (a XOR ((a XOR b) OR ((a - b) XOR a)) :: u64) 63 \<longleftrightarrow> a < b"
proof -
  have "bit (a XOR ((a XOR b) OR ((a - b) XOR a))) 63
      \<longleftrightarrow> (if bit a 63 = bit b 63 then bit (a - b) 63 else bit b 63)"
    by (auto simp: bit_simps)
  also have "\<dots> \<longleftrightarrow> uint a < uint b"
    using uint_lt2p [of a] uint_lt2p [of b] 
    by (auto simp: bit_63_iff uint_sub_u64)
      (use uint_ge_0 [of a] uint_ge_0 [of b] in linarith)+
  also have "\<dots> \<longleftrightarrow> a < b" by (simp add: word_less_def)
  finally show ?thesis .
qed

lemma constant_time_lt_w_eq [simp]:
  "constant_time_lt_w a b = (if a < b then CONSTTIME_TRUE_W else CONSTTIME_FALSE_W)"
  by (simp add: constant_time_lt_w_def constant_time_msb_w_eq bit_lt_formula)

lemma constant_time_ge_w_eq [simp]:
  "constant_time_ge_w a b = (if b \<le> a then CONSTTIME_TRUE_W else CONSTTIME_FALSE_W)"
  by (auto simp: constant_time_ge_w_def CONSTTIME_TRUE_W_def CONSTTIME_FALSE_W_def)

lemma bit_is_zero_formula: "bit (NOT a AND (a - 1) :: u64) 63 \<longleftrightarrow> a = 0"
proof -
  have "uint (a - 1) = (if a = 0 then 2 ^ 64 - 1 else uint a - 1)"
    by (auto simp: uint_sub_u64) (use uint_ge_0 [of a] uint_0_iff [of a] in linarith)
  moreover have "bit (NOT a AND (a - 1)) 63 \<longleftrightarrow> \<not> bit a 63 \<and> bit (a - 1) 63"
    by (auto simp: bit_simps)
  ultimately show ?thesis
    using uint_lt2p [of a] by (auto simp: bit_63_iff)
qed

lemma constant_time_is_zero_w_eq [simp]:
  "constant_time_is_zero_w a = (if a = 0 then CONSTTIME_TRUE_W else CONSTTIME_FALSE_W)"
  by (simp add: constant_time_is_zero_w_def constant_time_msb_w_eq bit_is_zero_formula)

lemma xor_eq_0_word: "(a XOR b = 0) \<longleftrightarrow> (a = (b :: 'a::len word))"
proof
  assume "a XOR b = 0"
  then have "\<And>n. bit a n = bit b n" by (metis bit_xor_iff bit_0_eq bot_apply bot_bool_def)
  then show "a = b" by (simp add: bit_eq_iff)
qed simp

lemma constant_time_eq_w_eq [simp]:
  "constant_time_eq_w a b = (if a = b then CONSTTIME_TRUE_W else CONSTTIME_FALSE_W)"
  by (simp add: constant_time_eq_w_def xor_eq_0_word)

lemma CONSTTIME_TRUE_8_minus_1: "CONSTTIME_TRUE_8 = - 1"
  by (simp add: CONSTTIME_TRUE_8_def)

lemma ucast_consttime [simp]:
  "ucast CONSTTIME_TRUE_W = CONSTTIME_TRUE_8" "ucast CONSTTIME_FALSE_W = CONSTTIME_FALSE_8"
  by (rule bit_word_eqI; simp add: CONSTTIME_TRUE_W_def CONSTTIME_TRUE_8_minus_1 bit_simps)
    (simp add: CONSTTIME_FALSE_W_def CONSTTIME_FALSE_8_def)

lemma constant_time_eq_8_eq [simp]:
  "constant_time_eq_8 a b = (if a = b then CONSTTIME_TRUE_8 else CONSTTIME_FALSE_8)"
  by (simp add: constant_time_eq_8_def)

lemma constant_time_select_8_True [simp]: "constant_time_select_8 CONSTTIME_TRUE_8 a b = a"
  by (rule bit_word_eqI)
    (auto simp: constant_time_select_8_def constant_time_select_w_def CONSTTIME_TRUE_8_minus_1 bit_simps)

lemma constant_time_select_8_False [simp]: "constant_time_select_8 CONSTTIME_FALSE_8 a b = b"
  by (rule bit_word_eqI)
    (auto simp: constant_time_select_8_def constant_time_select_w_def CONSTTIME_FALSE_8_def bit_simps)

lemma constant_time_select_8_if [simp]:
  "constant_time_select_8 (if c then CONSTTIME_TRUE_8 else CONSTTIME_FALSE_8) a b = (if c then a else b)"
  by simp

lemma constant_time_select_w_if [simp]:
  "constant_time_select_w (if c then CONSTTIME_TRUE_W else CONSTTIME_FALSE_W) a b = (if c then a else b)"
  by (simp add: constant_time_select_w_def CONSTTIME_TRUE_W_def CONSTTIME_FALSE_W_def)

end
