(* ===== verification/Base64.thy ===== *)
theory Base64
  imports Const_Time
begin

text \<open>
  \<open>crypto/base64/base64.c\<close>: constant-time character conversion, block encoding and decoding, and
  the streaming encoder and decoder with their \<open>EVP_ENCODE_CTX\<close>.  A function that writes to an
  output pointer returns the bytes it writes there.
\<close>

section \<open>Characters\<close>

definition constant_time_lt_args_8 :: "u8 \<Rightarrow> u8 \<Rightarrow> u8" where
  "constant_time_lt_args_8 a b =
     (let aw = ucast a :: u64; bw = ucast b :: u64 in ucast (constant_time_msb_w (aw - bw)))"

definition constant_time_in_range_8 :: "u8 \<Rightarrow> u8 \<Rightarrow> u8 \<Rightarrow> u8" where
  "constant_time_in_range_8 a lo hi = constant_time_lt_args_8 (a - lo) (hi - lo + 1)"

definition conv_bin2ascii :: "u8 \<Rightarrow> u8" where
  "conv_bin2ascii a0 =
     (let a = a0 AND 0x3f;
          ret = constant_time_select_8 (constant_time_eq_8 (ucast a) 62) 43 47;
          ret = constant_time_select_8 (constant_time_lt_args_8 a 62) (a - 52 + 48) ret;
          ret = constant_time_select_8 (constant_time_lt_args_8 a 52) (a - 26 + 97) ret;
          ret = constant_time_select_8 (constant_time_lt_args_8 a 26) (a + 65) ret
      in ret)"

definition base64_ascii_to_bin :: "u8 \<Rightarrow> u8" where
  "base64_ascii_to_bin a =
     (let is_upper = constant_time_in_range_8 a 65 90;
          is_lower = constant_time_in_range_8 a 97 122;
          is_digit = constant_time_in_range_8 a 48 57;
          is_plus = constant_time_eq_8 (ucast a) 43;
          is_slash = constant_time_eq_8 (ucast a) 47;
          is_equals = constant_time_eq_8 (ucast a) 61;
          ret = 0xff;
          ret = constant_time_select_8 is_upper (a - 65) ret;
          ret = constant_time_select_8 is_lower (a - 97 + 26) ret;
          ret = constant_time_select_8 is_digit (a - 48 + 52) ret;
          ret = constant_time_select_8 is_plus 62 ret;
          ret = constant_time_select_8 is_slash 63 ret;
          ret = constant_time_select_8 is_equals 0 ret
      in ret)"

section \<open>Block encoding\<close>

definition EVP_EncodedLength :: "nat \<Rightarrow> nat option" where
  "EVP_EncodedLength len =
     (if szw (len + 2) < len then None
      else let len = szw (len + 2) div 3
           in if szw (len * 4) div 4 \<noteq> len then None
              else let len = szw (len * 4)
                   in if szw (len + 1) < len then None else Some (szw (len + 1)))"

text \<open>The loop of \<open>EVP_EncodeBlock\<close>: the bytes written at \<open>dst\<close> (the final NUL included) and the
  count \<open>ret\<close>.\<close>

fun EVP_EncodeBlock_loop :: "u8 list \<Rightarrow> nat \<Rightarrow> u8 list \<times> nat" where
  "EVP_EncodeBlock_loop [] ret = ([0], ret)"
| "EVP_EncodeBlock_loop [x] ret =
     (let l = push_bit 16 (ucast x :: u32);
          q = [conv_bin2ascii (ucast (drop_bit 18 l)), conv_bin2ascii (ucast (drop_bit 12 l)), 61, 61];
          (dst, r) = EVP_EncodeBlock_loop [] (ret + 4)
      in (q @ dst, r))"
| "EVP_EncodeBlock_loop [x, y] ret =
     (let l = push_bit 16 (ucast x :: u32) OR push_bit 8 (ucast y);
          q = [conv_bin2ascii (ucast (drop_bit 18 l)), conv_bin2ascii (ucast (drop_bit 12 l)),
               conv_bin2ascii (ucast (drop_bit 6 l)), 61];
          (dst, r) = EVP_EncodeBlock_loop [] (ret + 4)
      in (q @ dst, r))"
| "EVP_EncodeBlock_loop (x # y # z # src) ret =
     (let l = push_bit 16 (ucast x :: u32) OR push_bit 8 (ucast y) OR ucast z;
          q = [conv_bin2ascii (ucast (drop_bit 18 l)), conv_bin2ascii (ucast (drop_bit 12 l)),
               conv_bin2ascii (ucast (drop_bit 6 l)), conv_bin2ascii (ucast l)];
          (dst, r) = EVP_EncodeBlock_loop src (ret + 4)
      in (q @ dst, r))"

definition EVP_EncodeBlock :: "u8 list \<Rightarrow> u8 list \<times> nat" where
  "EVP_EncodeBlock src = EVP_EncodeBlock_loop src 0"

section \<open>Block decoding\<close>

definition EVP_DecodedLength :: "nat \<Rightarrow> nat option" where
  "EVP_DecodedLength len = (if len mod 4 \<noteq> 0 then None else Some (len div 4 * 3))"

definition padding_bit :: "u8 \<Rightarrow> nat \<Rightarrow> u32" where
  "padding_bit c n = push_bit n (if c = 61 then 1 else 0)"

definition base64_decode_quad :: "u8 \<Rightarrow> u8 \<Rightarrow> u8 \<Rightarrow> u8 \<Rightarrow> u8 list option" where
  "base64_decode_quad i0 i1 i2 i3 =
     (let a = base64_ascii_to_bin i0; b = base64_ascii_to_bin i1;
          c = base64_ascii_to_bin i2; d = base64_ascii_to_bin i3
      in if a = 0xff \<or> b = 0xff \<or> c = 0xff \<or> d = 0xff then None
         else
           let v = push_bit 18 (ucast a :: u32) OR push_bit 12 (ucast b) OR push_bit 6 (ucast c) OR ucast d;
               padding_pattern = padding_bit i0 3 OR padding_bit i1 2 OR padding_bit i2 1 OR padding_bit i3 0
           in if padding_pattern = 0
                then Some [ucast (drop_bit 16 v), ucast (drop_bit 8 v), ucast v]
              else if padding_pattern = 1
                then Some [ucast (drop_bit 16 v), ucast (drop_bit 8 v)]
              else if padding_pattern = 3
                then Some [ucast (drop_bit 16 v)]
              else None)"

text \<open>The quad loop of \<open>EVP_DecodeBase64\<close>; \<open>in\<close> is the rest of the input from \<open>i\<close> on, so
  \<open>i \<noteq> in_len - 4\<close> says that more than this quad is left.\<close>

fun EVP_DecodeBase64_loop :: "u8 list \<Rightarrow> u8 list option" where
  "EVP_DecodeBase64_loop (i0 # i1 # i2 # i3 # rest) =
     (case base64_decode_quad i0 i1 i2 i3 of
        None \<Rightarrow> None
      | Some bytes \<Rightarrow>
          if length bytes \<noteq> 3 \<and> rest \<noteq> [] then None
          else (case EVP_DecodeBase64_loop rest of None \<Rightarrow> None | Some out \<Rightarrow> Some (bytes @ out)))"
| "EVP_DecodeBase64_loop _ = Some []"

definition EVP_DecodeBase64 :: "nat \<Rightarrow> u8 list \<Rightarrow> u8 list option" where
  "EVP_DecodeBase64 max_out inp =
     (if length inp mod 4 \<noteq> 0 then None
      else case EVP_DecodedLength (length inp) of
             None \<Rightarrow> None
           | Some max_len \<Rightarrow> if max_out < max_len then None else EVP_DecodeBase64_loop inp)"

text \<open>\<open>EVP_DecodeBlock\<close>: trims blanks in front, blanks and newlines at the end, decodes, and pads
  the output with NULs to a multiple of three; \<open>None\<close> is the result \<open>-1\<close>.\<close>

definition INT_MAX :: nat where
  "INT_MAX = 2 ^ 31 - 1"

fun trim_leading :: "u8 list \<Rightarrow> u8 list" where
  "trim_leading [] = []"
| "trim_leading (c # src) = (if c \<noteq> 32 \<and> c \<noteq> 9 then c # src else trim_leading src)"

definition is_b64_space :: "u8 \<Rightarrow> bool" where
  "is_b64_space c \<longleftrightarrow> c = 32 \<or> c = 9 \<or> c = 13 \<or> c = 10"

definition trim_trailing :: "u8 list \<Rightarrow> u8 list" where
  "trim_trailing src = rev (dropWhile is_b64_space (rev src))"

definition pad_to_three :: "u8 list \<Rightarrow> u8 list" where
  "pad_to_three dst = dst @ replicate ((3 - length dst mod 3) mod 3) 0"

definition EVP_DecodeBlock :: "u8 list \<Rightarrow> u8 list option" where
  "EVP_DecodeBlock src0 =
     (let src = trim_trailing (trim_leading src0)
      in case EVP_DecodedLength (length src) of
           None \<Rightarrow> None
         | Some dst_len \<Rightarrow>
             if dst_len > INT_MAX then None
             else case EVP_DecodeBase64 dst_len src of
                    None \<Rightarrow> None
                  | Some dst \<Rightarrow> Some (pad_to_three dst))"

section \<open>Streaming\<close>

record EVP_ENCODE_CTX =
  data_used :: nat
  data :: "u8 list"
  eof_seen :: bool
  error_encountered :: bool

definition EVP_EncodeInit :: EVP_ENCODE_CTX where
  "EVP_EncodeInit = \<lparr>data_used = 0, data = replicate 48 0, eof_seen = False, error_encountered = False\<rparr>"

definition EVP_DecodeInit :: EVP_ENCODE_CTX where
  "EVP_DecodeInit = \<lparr>data_used = 0, data = replicate 48 0, eof_seen = False, error_encountered = False\<rparr>"

text \<open>The \<open>while (in_len >= sizeof(ctx->data))\<close> loop.  \<open>out\<close> collects what is written in front of
  the trailing NUL; the flag says whether the size check returned early.\<close>

function EVP_EncodeUpdate_loop :: "u8 list \<Rightarrow> u8 list \<Rightarrow> nat \<Rightarrow> u8 list \<times> u8 list \<times> nat \<times> bool" where
  "EVP_EncodeUpdate_loop inp out tot =
     (if length inp < 48 then (inp, out, tot, False)
      else let (dst, encoded) = EVP_EncodeBlock (take 48 inp);
               out' = out @ butlast dst @ [10]
           in if szw (tot + encoded + 1) < tot then (drop 48 inp, out', tot, True)
              else EVP_EncodeUpdate_loop (drop 48 inp) out' (szw (tot + encoded + 1)))"
  by pat_completeness auto
termination
  by (relation "measure (\<lambda>(inp, out, tot). length inp)") auto

declare EVP_EncodeUpdate_loop.simps [simp del]

text \<open>Result: the context, the bytes written before the terminating NUL (which is written whenever
  there is any output) and \<open>*out_len\<close>.\<close>

definition EVP_EncodeUpdate :: "EVP_ENCODE_CTX \<Rightarrow> u8 list \<Rightarrow> EVP_ENCODE_CTX \<times> u8 list \<times> nat" where
  "EVP_EncodeUpdate ctx inp =
     (if inp = [] then (ctx, [], 0)
      else if 48 - data_used ctx > length inp then
        (ctx\<lparr>data := memcpy_at (data ctx) (data_used ctx) inp,
             data_used := data_used ctx + length inp\<rparr>, [], 0)
      else
        let (ctx1, inp1, out1, total1) =
              (if data_used ctx \<noteq> 0 then
                 let todo = 48 - data_used ctx;
                     ctx1 = ctx\<lparr>data := memcpy_at (data ctx) (data_used ctx) (take todo inp)\<rparr>;
                     (dst, encoded) = EVP_EncodeBlock (data ctx1)
                 in (ctx1\<lparr>data_used := 0\<rparr>, drop todo inp, butlast dst @ [10], encoded + 1)
               else (ctx, inp, [], 0));
            (inp2, out2, total2, stopped) = EVP_EncodeUpdate_loop inp1 out1 total1
        in if stopped then (ctx1, out2, 0)
           else
             let ctx2 = (if inp2 \<noteq> [] then ctx1\<lparr>data := memcpy_at (data ctx1) 0 inp2\<rparr> else ctx1);
                 total3 = (if total2 > INT_MAX then 0 else total2)
             in (ctx2\<lparr>data_used := length inp2\<rparr>, out2, total3))"

definition EVP_EncodeFinal :: "EVP_ENCODE_CTX \<Rightarrow> EVP_ENCODE_CTX \<times> u8 list \<times> nat" where
  "EVP_EncodeFinal ctx =
     (if data_used ctx = 0 then (ctx, [], 0)
      else let (dst, encoded) = EVP_EncodeBlock (take (data_used ctx) (data ctx))
           in (ctx\<lparr>data_used := 0\<rparr>, butlast dst @ [10], encoded + 1))"

text \<open>The byte loop of \<open>EVP_DecodeUpdate\<close>: \<open>None\<close> in the last component is the early \<open>return -1\<close>.\<close>

fun EVP_DecodeUpdate_loop ::
  "EVP_ENCODE_CTX \<Rightarrow> u8 list \<Rightarrow> u8 list \<Rightarrow> EVP_ENCODE_CTX \<times> u8 list \<times> bool" where
  "EVP_DecodeUpdate_loop ctx out [] = (ctx, out, True)"
| "EVP_DecodeUpdate_loop ctx out (c # inp) =
     (if is_b64_space c then EVP_DecodeUpdate_loop ctx out inp
      else if eof_seen ctx then (ctx\<lparr>error_encountered := True\<rparr>, out, False)
      else
        let ctx1 = ctx\<lparr>data := (data ctx)[data_used ctx := c], data_used := data_used ctx + 1\<rparr>
        in if data_used ctx1 = 4 then
             (case base64_decode_quad (data ctx1 ! 0) (data ctx1 ! 1) (data ctx1 ! 2) (data ctx1 ! 3) of
                None \<Rightarrow> (ctx1\<lparr>error_encountered := True\<rparr>, out, False)
              | Some bytes \<Rightarrow>
                  EVP_DecodeUpdate_loop
                    (ctx1\<lparr>data_used := 0, eof_seen := (if length bytes < 3 then True else eof_seen ctx1)\<rparr>)
                    (out @ bytes) inp)
           else EVP_DecodeUpdate_loop ctx1 out inp)"

text \<open>Result: the context, the bytes written at \<open>out\<close>, \<open>*out_len\<close> and the return value.\<close>

definition EVP_DecodeUpdate :: "EVP_ENCODE_CTX \<Rightarrow> u8 list \<Rightarrow> EVP_ENCODE_CTX \<times> u8 list \<times> nat \<times> int" where
  "EVP_DecodeUpdate ctx inp =
     (if error_encountered ctx then (ctx, [], 0, -1)
      else case EVP_DecodeUpdate_loop ctx [] inp of
             (ctx1, out, ok) \<Rightarrow>
               if \<not> ok then (ctx1, out, 0, -1)
               else if length out > INT_MAX then (ctx1\<lparr>error_encountered := True\<rparr>, out, 0, -1)
               else (ctx1, out, length out, if eof_seen ctx1 then 0 else 1))"

definition EVP_DecodeFinal :: "EVP_ENCODE_CTX \<Rightarrow> nat \<times> int" where
  "EVP_DecodeFinal ctx = (if error_encountered ctx \<or> data_used ctx \<noteq> 0 then (0, -1) else (0, 1))"

section \<open>Character tables\<close>

lemma constant_time_lt_args_8_eq [simp]:
  "constant_time_lt_args_8 a b = (if a < b then CONSTTIME_TRUE_8 else CONSTTIME_FALSE_8)"
proof -
  have ua: "uint (ucast a :: u64) = uint a" and ub: "uint (ucast b :: u64) = uint b"
    by (simp_all add: uint_up_ucast is_up)
  have "bit (ucast a - ucast b :: u64) 63 \<longleftrightarrow> uint a < uint b"
    using uint_lt2p [of a] uint_lt2p [of b] unfolding bit_63_iff uint_sub_u64 ua ub
    by auto (use uint_ge_0 [of a] uint_ge_0 [of b] in linarith)+
  then show ?thesis
    by (simp add: constant_time_lt_args_8_def Let_def constant_time_msb_w_eq word_less_def)
qed

lemma ucast_u8_u64_eq: "(ucast (a :: u8) = (ucast b :: u64)) = (a = b)"
  by (simp add: word_uint_eq_iff uint_up_ucast is_up)

lemma ucast_eq_numeral_u64:
  "(numeral k :: u64) = ucast (numeral k :: u8) \<Longrightarrow> (ucast (a :: u8) = (numeral k :: u64)) = (a = numeral k)"
  by (simp only: ucast_u8_u64_eq)

lemma conv_bin2ascii_eq:
  "conv_bin2ascii a0 =
     (let a = a0 AND 0x3f
      in if a < 26 then a + 65 else if a < 52 then a - 26 + 97
         else if a < 62 then a - 52 + 48 else if a = 62 then 43 else 47)"
  by (simp add: conv_bin2ascii_def Let_def ucast_eq_numeral_u64)

lemma base64_ascii_to_bin_eq:
  "base64_ascii_to_bin a =
     (if a = 61 then 0 else if a = 47 then 63 else if a = 43 then 62
      else if a - 48 < 10 then a - 48 + 52 else if a - 97 < 26 then a - 97 + 26
      else if a - 65 < 26 then a - 65 else 0xff)"
  by (simp add: base64_ascii_to_bin_def constant_time_in_range_8_def Let_def ucast_eq_numeral_u64)

lemma sextets: "list_all (\<lambda>n. base64_ascii_to_bin (conv_bin2ascii (word_of_nat n)) = word_of_nat n
    \<and> conv_bin2ascii (word_of_nat n) \<noteq> 61) [0..<64]"
  unfolding base64_ascii_to_bin_eq conv_bin2ascii_eq Let_def by code_simp

lemma sextet_roundtrip:
  "base64_ascii_to_bin (conv_bin2ascii a) = a AND 0x3f" "conv_bin2ascii a \<noteq> 61"
proof -
  let ?b = "a AND 0x3f"
  have "?b \<le> 0x3f" by (rule word_and_le1)
  then have lt: "unat ?b < 64" by (simp add: word_le_nat_alt)
  have idem: "conv_bin2ascii a = conv_bin2ascii ?b"
    by (simp only: conv_bin2ascii_eq and.right_idem)
  from sextets have all: "\<forall>n\<in>{0..<64}. base64_ascii_to_bin (conv_bin2ascii (word_of_nat n)) = word_of_nat n
    \<and> conv_bin2ascii (word_of_nat n) \<noteq> 61"
    by (simp only: list_all_iff set_upt)
  have "base64_ascii_to_bin (conv_bin2ascii (word_of_nat (unat ?b))) = word_of_nat (unat ?b)
    \<and> conv_bin2ascii (word_of_nat (unat ?b)) \<noteq> 61"
    by (rule bspec [OF all]) (use lt in simp)
  then show "base64_ascii_to_bin (conv_bin2ascii a) = ?b" "conv_bin2ascii a \<noteq> 61"
    unfolding idem by simp_all
qed

lemma sextet_ne_ff [simp]: "a AND 0x3f \<noteq> (0xff :: u8)"
proof -
  have "a AND 0x3f \<le> (0x3f :: u8)" by (rule word_and_le1)
  then show ?thesis by (auto simp: word_le_nat_alt)
qed

lemma sextet_valid: "base64_ascii_to_bin (conv_bin2ascii a) \<noteq> 0xff"
  by (simp add: sextet_roundtrip)

section \<open>Quads\<close>

text \<open>Regrouping 24 bits as four sextets and back.\<close>

definition join24 :: "u8 \<Rightarrow> u8 \<Rightarrow> u8 \<Rightarrow> u32" where
  "join24 x y z = push_bit 16 (ucast x) OR push_bit 8 (ucast y) OR ucast z"

definition regroup :: "u32 \<Rightarrow> u32" where
  "regroup l = push_bit 18 (ucast (ucast (drop_bit 18 l) AND 0x3f :: u8)) OR
     push_bit 12 (ucast (ucast (drop_bit 12 l) AND 0x3f :: u8)) OR
     push_bit 6 (ucast (ucast (drop_bit 6 l) AND 0x3f :: u8)) OR ucast (ucast l AND 0x3f :: u8)"

lemma sextet_mask: "(0x3f :: u8) = mask 6"
  by (simp add: mask_eq_exp_minus_1)

lemma regroup_eq: "regroup l = take_bit 24 l"
proof (rule bit_word_eqI)
  fix n
  assume "n < LENGTH(32)"
  then have n: "n < 32" by simp
  have "n < 6 \<or> n \<in> {6..<12} \<or> n \<in> {12..<18} \<or> n \<in> {18..<24} \<or> 24 \<le> n" by auto
  then show "bit (regroup l) n = bit (take_bit 24 l) n"
    using n by (elim disjE) (simp_all add: regroup_def sextet_mask bit_simps, auto)
qed

lemma take_bit_join24: "take_bit 24 (join24 x y z) = join24 x y z"
proof (rule bit_word_eqI)
  fix n
  show "bit (take_bit 24 (join24 x y z)) n = bit (join24 x y z) n"
    by (auto simp: join24_def bit_simps dest: bit_imp_le_length)
qed

lemma bytes_join24:
  "ucast (drop_bit 16 (join24 x y z)) = x" "ucast (drop_bit 8 (join24 x y z)) = y"
  "ucast (join24 x y z) = z"
  by (rule bit_word_eqI; auto simp: join24_def bit_simps dest: bit_imp_le_length)+

definition sextet_char :: "u32 \<Rightarrow> nat \<Rightarrow> u8" where
  "sextet_char l n = conv_bin2ascii (ucast (drop_bit n l))"

lemma sextet_char_simps [simp]:
  "base64_ascii_to_bin (sextet_char l n) = ucast (drop_bit n l) AND 0x3f"
  "base64_ascii_to_bin (sextet_char l n) \<noteq> 0xff" "sextet_char l n \<noteq> 61"
  unfolding sextet_char_def by (simp_all add: sextet_roundtrip)

lemma ascii_to_bin_equals: "base64_ascii_to_bin 61 = 0"
  by (simp add: base64_ascii_to_bin_eq)

lemma padding_bit_simps:
  "padding_bit 61 n = push_bit n 1" "c \<noteq> 61 \<Longrightarrow> padding_bit c n = 0"
  by (simp_all add: padding_bit_def)

text \<open>The reference encoding: one quad per three bytes, the last one padded.\<close>

fun b64 :: "u8 list \<Rightarrow> u8 list" where
  "b64 [] = []"
| "b64 [x] = (let l = join24 x 0 0 in [sextet_char l 18, sextet_char l 12, 61, 61])"
| "b64 [x, y] = (let l = join24 x y 0 in [sextet_char l 18, sextet_char l 12, sextet_char l 6, 61])"
| "b64 (x # y # z # src) = (let l = join24 x y z in
     [sextet_char l 18, sextet_char l 12, sextet_char l 6, sextet_char l 0] @ b64 src)"

lemma EVP_EncodeBlock_loop_eq: "EVP_EncodeBlock_loop src ret = (b64 src @ [0], ret + length (b64 src))"
  by (induction src ret rule: EVP_EncodeBlock_loop.induct)
    (simp_all add: join24_def sextet_char_def Let_def)

lemma EVP_EncodeBlock_eq: "EVP_EncodeBlock src = (b64 src @ [0], length (b64 src))"
  by (simp add: EVP_EncodeBlock_def EVP_EncodeBlock_loop_eq)

lemma length_b64: "length (b64 src) = (length src + 2) div 3 * 4"
  by (induction src rule: b64.induct) (auto simp: Let_def, presburger)

lemma low_sextet_0: "ucast (join24 x y 0) AND (0x3f :: u8) = 0"
  by (simp add: bytes_join24)

lemma third_sextet_0: "ucast (drop_bit 6 (join24 x 0 0)) AND (0x3f :: u8) = 0"
  by (rule bit_word_eqI) (auto simp: join24_def sextet_mask bit_simps)

lemma regroup_join24: "regroup (join24 x y z) = join24 x y z"
  by (simp add: regroup_eq take_bit_join24)

lemma decode_quad_3:
  "base64_decode_quad (sextet_char (join24 x y z) 18) (sextet_char (join24 x y z) 12)
     (sextet_char (join24 x y z) 6) (sextet_char (join24 x y z) 0) = Some [x, y, z]"
  using regroup_join24 [of x y z]
  by (simp add: base64_decode_quad_def Let_def padding_bit_simps regroup_def bytes_join24)

lemma decode_quad_2:
  "base64_decode_quad (sextet_char (join24 x y 0) 18) (sextet_char (join24 x y 0) 12)
     (sextet_char (join24 x y 0) 6) 61 = Some [x, y]"
  using regroup_join24 [of x y 0]
  by (simp add: base64_decode_quad_def Let_def padding_bit_simps regroup_def bytes_join24
      ascii_to_bin_equals low_sextet_0)

lemma decode_quad_1:
  "base64_decode_quad (sextet_char (join24 x 0 0) 18) (sextet_char (join24 x 0 0) 12) 61 61 = Some [x]"
  using regroup_join24 [of x 0 0]
  by (simp add: base64_decode_quad_def Let_def padding_bit_simps regroup_def bytes_join24
      ascii_to_bin_equals low_sextet_0 third_sextet_0)

lemmas decode_quads = decode_quad_1 decode_quad_2 decode_quad_3

lemma b64_Nil_iff [simp]: "b64 src = [] \<longleftrightarrow> src = []"
  by (cases src rule: b64.cases) (auto simp: Let_def)

lemma DecodeBase64_loop_b64: "EVP_DecodeBase64_loop (b64 src) = Some src"
  by (induction src rule: b64.induct) (simp_all add: Let_def decode_quads)

section \<open>Properties\<close>

text \<open>C1. Block round trip: decoding the text that \<open>EVP_EncodeBlock\<close> produced gives the input back,
  with an output buffer of exactly \<open>EVP_DecodedLength\<close> bytes.\<close>

theorem base64_block_roundtrip:
  "EVP_DecodeBase64 (the (EVP_DecodedLength (snd (EVP_EncodeBlock src))))
     (take (snd (EVP_EncodeBlock src)) (fst (EVP_EncodeBlock src))) = Some src"
  by (simp add: EVP_EncodeBlock_eq EVP_DecodeBase64_def EVP_DecodedLength_def length_b64
      DecodeBase64_loop_b64)

text \<open>C2. \<open>EVP_EncodedLength\<close> is exact: where it succeeds it is the number of bytes
  \<open>EVP_EncodeBlock\<close> writes, the NUL included, and it fails only if that number does not fit
  \<open>size_t\<close>.\<close>

theorem base64_encoded_length:
  assumes "length src < 2 ^ 64"
  shows "EVP_EncodedLength (length src) =
    (if length (fst (EVP_EncodeBlock src)) < 2 ^ 64 then Some (length (fst (EVP_EncodeBlock src))) else None)"
proof -
  define n where "n = length src"
  have n: "n < 2 ^ 64" using assms by (simp add: n_def)
  have l: "length (fst (EVP_EncodeBlock src)) = (n + 2) div 3 * 4 + 1"
    by (simp add: EVP_EncodeBlock_eq length_b64 n_def)
  show ?thesis
  proof (cases "n + 2 < 2 ^ 64")
    case False
    then have "szw (n + 2) < n" using n by (simp add: szw_def mod_if)
    moreover have "\<not> (n + 2) div 3 * 4 + 1 < 2 ^ 64" using False by simp
    ultimately show ?thesis unfolding l n_def [symmetric] by (simp add: EVP_EncodedLength_def)
  next
    case True
    define k where "k = (n + 2) div 3"
    have k: "k < 2 ^ 64" using True by (simp add: k_def)
    have w: "szw (n + 2) = n + 2" and nl: "\<not> n + 2 < n" using True by simp_all
    have e: "EVP_EncodedLength n = (if szw (k * 4) div 4 \<noteq> k then None
        else if szw (szw (k * 4) + 1) < szw (k * 4) then None else Some (szw (szw (k * 4) + 1)))"
      by (simp only: EVP_EncodedLength_def w nl Let_def k_def [symmetric] if_False)
    have l: "length (fst (EVP_EncodeBlock src)) = k * 4 + 1" by (simp only: l k_def)
    show ?thesis
    proof (cases "k < 2 ^ 62")
      case True
      then show ?thesis unfolding l n_def [symmetric] e by simp
    next
      case False
      then have "szw (k * 4) div 4 \<noteq> k" using k by (simp add: szw_def)
      then show ?thesis using False unfolding l n_def [symmetric] e by simp
    qed
  qed
qed

lemma base64_encoded_length_witness:
  "EVP_EncodedLength 4 = Some (length (fst (EVP_EncodeBlock [1, 2, 3, 4])))"
proof -
  have l: "length [1, 2, 3, 4 :: u8] = 4" by simp
  show ?thesis
    using base64_encoded_length [of "[1, 2, 3, 4]"] unfolding l
    by (simp add: EVP_EncodeBlock_eq Let_def)
qed

end
