(* ===== verification/Base64_Stream.thy ===== *)
theory Base64_Stream
  imports Base64
begin

text \<open>
  The streaming half of \<open>crypto/base64/base64.c\<close>: every way of cutting an input into
  \<open>EVP_EncodeUpdate\<close> calls produces the same text, and the streaming decoder reads it back.
\<close>

section \<open>Streaming encoder\<close>

text \<open>The reference: 48 input bytes make one line of 64 characters and a newline; what is left is
  pending.\<close>

function line_split :: "u8 list \<Rightarrow> u8 list \<times> u8 list" where
  "line_split xs =
     (if length xs < 48 then ([], xs)
      else case line_split (drop 48 xs) of (out, rest) \<Rightarrow> (b64 (take 48 xs) @ 10 # out, rest))"
  by pat_completeness auto
termination
  by (relation "measure length") auto

declare line_split.simps [simp del]

definition mime :: "u8 list \<Rightarrow> u8 list" where
  "mime xs = (case line_split xs of (out, rest) \<Rightarrow> out @ (if rest = [] then [] else b64 rest @ [10]))"

lemma line_split_short [simp]: "length xs < 48 \<Longrightarrow> line_split xs = ([], xs)"
  by (subst line_split.simps) simp

lemma line_split_line:
  "length xs = 48 \<Longrightarrow> line_split (xs @ ys) = (b64 xs @ 10 # fst (line_split ys), snd (line_split ys))"
  by (subst line_split.simps) (simp add: case_prod_unfold)

lemma line_split_long:
  "48 \<le> length xs \<Longrightarrow> line_split xs = (b64 (take 48 xs) @ 10 # fst (line_split (drop 48 xs)), snd (line_split (drop 48 xs)))"
  by (subst line_split.simps) (simp add: case_prod_unfold)

lemma line_split_rest_short: "length (snd (line_split xs)) < 48"
proof (induction xs rule: line_split.induct)
  case (1 xs)
  then show ?case by (cases "length xs < 48") (simp_all add: line_split_long not_less)
qed

lemma line_split_append:
  "line_split (xs @ ys) =
     (fst (line_split xs) @ fst (line_split (snd (line_split xs) @ ys)),
      snd (line_split (snd (line_split xs) @ ys)))"
proof (induction xs rule: line_split.induct)
  case (1 xs)
  show ?case
  proof (cases "length xs < 48")
    case False
    then have l: "length (take 48 xs) = 48" by simp
    have "line_split (xs @ ys) = line_split (take 48 xs @ (drop 48 xs @ ys))"
      by (metis append_assoc append_take_drop_id)
    also have "\<dots> = (b64 (take 48 xs) @ 10 # fst (line_split (drop 48 xs @ ys)), snd (line_split (drop 48 xs @ ys)))"
      by (rule line_split_line [OF l])
    finally show ?thesis using False 1 by (simp add: line_split_long [of xs])
  qed simp
qed

lemma length_line_split: "length (fst (line_split xs)) = 65 * (length xs div 48)"
proof (induction xs rule: line_split.induct)
  case (1 xs)
  show ?case
  proof (cases "length xs < 48")
    case False
    then have "length xs div 48 = Suc ((length xs - 48) div 48)" by (simp add: le_div_geq)
    with False 1 show ?thesis by (simp add: line_split_long length_b64)
  qed simp
qed

lemma EVP_EncodeUpdate_loop_eq:
  "tot + length (fst (line_split inp)) < 2 ^ 64 \<Longrightarrow>
   EVP_EncodeUpdate_loop inp out tot =
     (snd (line_split inp), out @ fst (line_split inp), tot + length (fst (line_split inp)), False)"
proof (induction inp out tot rule: EVP_EncodeUpdate_loop.induct)
  case (1 inp out tot)
  show ?case
  proof (cases "length inp < 48")
    case True
    then show ?thesis by (subst EVP_EncodeUpdate_loop.simps) simp
  next
    case False
    define n where "n = length (b64 (take 48 inp))"
    have lt: "tot + n + 1 + length (fst (line_split (drop 48 inp))) < 2 ^ 64"
      using "1.prems" False by (simp add: line_split_long n_def)
    have e: "EVP_EncodeBlock (take 48 inp) = (b64 (take 48 inp) @ [0], n)"
      by (simp add: EVP_EncodeBlock_eq n_def)
    from lt have w: "szw (tot + n + 1) = tot + n + 1" by simp
    have "EVP_EncodeUpdate_loop inp out tot =
        EVP_EncodeUpdate_loop (drop 48 inp) (out @ b64 (take 48 inp) @ [10]) (tot + n + 1)"
      using False by (subst EVP_EncodeUpdate_loop.simps) (simp only: e w Let_def prod.case, simp)
    also have "\<dots> = (snd (line_split (drop 48 inp)), (out @ b64 (take 48 inp) @ [10]) @ fst (line_split (drop 48 inp)),
        tot + n + 1 + length (fst (line_split (drop 48 inp))), False)"
      using "1.IH" [OF False e [symmetric] refl _] lt w
      by (simp del: append_assoc)
    finally show ?thesis using False by (simp add: line_split_long [of inp] n_def)
  qed
qed

definition enc_inv :: "EVP_ENCODE_CTX \<Rightarrow> bool" where
  "enc_inv ctx \<longleftrightarrow> data_used ctx < 48 \<and> length (data ctx) = 48"

definition enc_pending :: "EVP_ENCODE_CTX \<Rightarrow> u8 list" where
  "enc_pending ctx = take (data_used ctx) (data ctx)"

lemma length_enc_pending [simp]: "enc_inv ctx \<Longrightarrow> length (enc_pending ctx) = data_used ctx"
  by (simp add: enc_inv_def enc_pending_def)

lemma EVP_EncodeUpdate_full:
  assumes inv: "enc_inv ctx" and long: "48 \<le> data_used ctx + length inp" and small: "length inp < 2 ^ 30"
  defines "r \<equiv> line_split (enc_pending ctx @ inp)"
  shows "\<exists>ctx'. EVP_EncodeUpdate ctx inp = (ctx', fst r, length (fst r)) \<and> enc_inv ctx' \<and> enc_pending ctx' = snd r"
proof -
  define todo where "todo = 48 - data_used ctx"
  define ctx1 where "ctx1 = (if data_used ctx \<noteq> 0
      then ctx\<lparr>data := memcpy_at (data ctx) (data_used ctx) (take todo inp), data_used := 0\<rparr> else ctx)"
  define inp1 where "inp1 = (if data_used ctx \<noteq> 0 then drop todo inp else inp)"
  define out1 where "out1 = (if data_used ctx \<noteq> 0 then b64 (enc_pending ctx @ take todo inp) @ [10] else [])"
  have used: "data_used ctx < 48" "length (data ctx) = 48" using inv by (auto simp: enc_inv_def)
  have ne: "inp \<noteq> []" and nl: "\<not> 48 - data_used ctx > length inp" using used long by auto
  have lt: "length (take todo inp) = todo" using long by (simp add: todo_def)
  have full: "memcpy_at (data ctx) (data_used ctx) (take todo inp) = enc_pending ctx @ take todo inp"
    using used lt by (simp add: memcpy_at_def enc_pending_def todo_def)
  have len48: "length (enc_pending ctx @ take todo inp) = 48" using inv lt used by (simp add: todo_def)
  have r1: "r = (out1 @ fst (line_split inp1), snd (line_split inp1))"
  proof (cases "data_used ctx = 0")
    case True
    then show ?thesis by (simp add: r_def out1_def inp1_def enc_pending_def)
  next
    case False
    have "r = line_split ((enc_pending ctx @ take todo inp) @ drop todo inp)" by (simp add: r_def)
    also have "\<dots> = (b64 (enc_pending ctx @ take todo inp) @ 10 # fst (line_split (drop todo inp)),
        snd (line_split (drop todo inp)))"
      by (rule line_split_line [OF len48])
    finally show ?thesis using False by (simp add: out1_def inp1_def)
  qed
  have lr: "length (fst r) < 2 ^ 31 - 1"
    using small used inv by (simp add: r_def length_line_split)
  have loop: "EVP_EncodeUpdate_loop inp1 out1 (length out1) = (snd r, fst r, length (fst r), False)"
    using lr by (simp add: EVP_EncodeUpdate_loop_eq r1)
  have rest: "length (snd r) < 48" by (simp add: r_def line_split_rest_short)
  have step: "(if data_used ctx \<noteq> 0 then
      let todo = 48 - data_used ctx;
          ctx1 = ctx\<lparr>data := memcpy_at (data ctx) (data_used ctx) (take todo inp)\<rparr>;
          (dst, encoded) = EVP_EncodeBlock (data ctx1)
      in (ctx1\<lparr>data_used := 0\<rparr>, drop todo inp, butlast dst @ [10], encoded + 1)
      else (ctx, inp, [], 0)) = (ctx1, inp1, out1, length out1)"
    by (simp add: Let_def EVP_EncodeBlock_eq full ctx1_def inp1_def out1_def flip: todo_def)
  define ctx2 where "ctx2 = (if snd r \<noteq> [] then ctx1\<lparr>data := memcpy_at (data ctx1) 0 (snd r)\<rparr> else ctx1)"
  have "EVP_EncodeUpdate ctx inp = (ctx2\<lparr>data_used := length (snd r)\<rparr>, fst r, length (fst r))"
    unfolding EVP_EncodeUpdate_def step using ne nl lr
    by (simp add: loop ctx2_def Let_def INT_MAX_def)
  moreover have d1: "length (data ctx1) = 48"
    using used len48 by (simp add: ctx1_def full)
  then have "enc_inv (ctx2\<lparr>data_used := length (snd r)\<rparr>)"
    and "enc_pending (ctx2\<lparr>data_used := length (snd r)\<rparr>) = snd r"
    using rest by (auto simp: enc_inv_def ctx2_def enc_pending_def memcpy_at_0)
  ultimately show ?thesis by blast
qed

lemma EVP_EncodeUpdate_refines:
  assumes inv: "enc_inv ctx" and small: "length inp < 2 ^ 30"
  defines "r \<equiv> line_split (enc_pending ctx @ inp)"
  shows "\<exists>ctx'. EVP_EncodeUpdate ctx inp = (ctx', fst r, length (fst r)) \<and> enc_inv ctx' \<and> enc_pending ctx' = snd r"
proof (cases "48 \<le> data_used ctx + length inp")
  case True
  then show ?thesis using EVP_EncodeUpdate_full [OF inv _ small] by (simp add: r_def)
next
  case False
  then have "length (enc_pending ctx @ inp) < 48" using inv by simp
  then have r: "r = ([], enc_pending ctx @ inp)" by (simp only: r_def line_split_short)
  show ?thesis
  proof (cases "inp = []")
    case True
    then show ?thesis using inv by (simp add: EVP_EncodeUpdate_def r)
  next
    case ne: False
    have "enc_pending (ctx\<lparr>data := memcpy_at (data ctx) (data_used ctx) inp, data_used := data_used ctx + length inp\<rparr>)
        = enc_pending ctx @ inp"
      using inv False by (simp add: enc_pending_def take_memcpy_at enc_inv_def)
    with False ne inv show ?thesis
      by (auto simp: EVP_EncodeUpdate_def r enc_inv_def)
  qed
qed

text \<open>A whole run of the encoder: any number of updates, then the final call.\<close>

fun encode_stream :: "EVP_ENCODE_CTX \<Rightarrow> u8 list list \<Rightarrow> u8 list" where
  "encode_stream ctx [] = (case EVP_EncodeFinal ctx of (_, out, n) \<Rightarrow> take n out)"
| "encode_stream ctx (c # cs) =
     (case EVP_EncodeUpdate ctx c of (ctx', out, n) \<Rightarrow> take n out @ encode_stream ctx' cs)"

lemma encode_stream_from:
  assumes "enc_inv ctx" "list_all (\<lambda>c. length c < 2 ^ 30) cs"
  shows "encode_stream ctx cs = mime (enc_pending ctx @ concat cs)"
  using assms
proof (induction cs arbitrary: ctx)
  case Nil
  then have "length (enc_pending ctx) < 48" by (simp add: enc_inv_def)
  then show ?case using Nil
    by (auto simp: EVP_EncodeFinal_def EVP_EncodeBlock_eq mime_def enc_inv_def enc_pending_def)
next
  case (Cons c cs)
  define r where "r = line_split (enc_pending ctx @ c)"
  from Cons.prems have ok: "list_all (\<lambda>c. length c < 2 ^ 30) cs" and lc: "length c < 2 ^ 30" by auto
  obtain ctx' where u: "EVP_EncodeUpdate ctx c = (ctx', fst r, length (fst r))"
    and inv': "enc_inv ctx'" and p: "enc_pending ctx' = snd r"
    using EVP_EncodeUpdate_refines [OF Cons.prems(1) lc] unfolding r_def by blast
  have "encode_stream ctx (c # cs) = fst r @ mime (snd r @ concat cs)"
    using Cons.IH [OF inv' ok] by (simp add: u p)
  also have "\<dots> = mime ((enc_pending ctx @ c) @ concat cs)"
    by (simp only: mime_def line_split_append [of "enc_pending ctx @ c"] r_def) (simp add: case_prod_unfold)
  finally show ?case by simp
qed

section \<open>Streaming decoder\<close>

definition dec_ready :: "EVP_ENCODE_CTX \<Rightarrow> bool" where
  "dec_ready ctx \<longleftrightarrow> data_used ctx = 0 \<and> length (data ctx) = 48 \<and> \<not> eof_seen ctx \<and> \<not> error_encountered ctx"

definition dec_at :: "EVP_ENCODE_CTX \<Rightarrow> bool \<Rightarrow> bool" where
  "dec_at ctx e \<longleftrightarrow> data_used ctx = 0 \<and> length (data ctx) = 48 \<and> eof_seen ctx = e \<and> \<not> error_encountered ctx"

lemma dec_ready_iff: "dec_ready ctx \<longleftrightarrow> dec_at ctx False"
  by (simp add: dec_ready_def dec_at_def)


lemma DecodeUpdate_loop_newline [simp]:
  "EVP_DecodeUpdate_loop ctx out (10 # inp) = EVP_DecodeUpdate_loop ctx out inp"
  by (simp add: is_b64_space_def)

declare EVP_DecodeUpdate_loop.simps(2) [simp del]

lemma b64_char_not_space [simp]: "\<not> is_b64_space (sextet_char l n)"
proof
  assume "is_b64_space (sextet_char l n)"
  then have "base64_ascii_to_bin (sextet_char l n) = 0xff"
    by (auto simp: is_b64_space_def base64_ascii_to_bin_eq simp del: sextet_char_simps)
  then show False by simp
qed

lemma equals_not_space [simp]: "\<not> is_b64_space 61"
  by (simp add: is_b64_space_def)








lemma DecodeUpdate_loop_fails:
  "EVP_DecodeUpdate_loop ctx out xs = (ctx', o', False) \<Longrightarrow> error_encountered ctx'"
  by (induction ctx out xs rule: EVP_DecodeUpdate_loop.induct)
    (auto simp: EVP_DecodeUpdate_loop.simps(2) Let_def split: option.splits if_splits)



lemma enc_inv_init: "enc_inv EVP_EncodeInit" "enc_pending EVP_EncodeInit = []"
  by (simp_all add: enc_inv_def EVP_EncodeInit_def enc_pending_def)


section \<open>Properties\<close>

text \<open>C3. The streaming encoder does not depend on how the input is cut into updates: any sequence of
  \<open>EVP_EncodeUpdate\<close> calls followed by \<open>EVP_EncodeFinal\<close> writes the concatenated input as 64-character
  lines, each closed by a newline.\<close>

theorem base64_stream_chunking:
  assumes "list_all (\<lambda>c. length c < 2 ^ 30) cs"
  shows "encode_stream EVP_EncodeInit cs = mime (concat cs)"
  using encode_stream_from [OF enc_inv_init(1) assms] by (simp add: enc_inv_init)

lemma base64_stream_chunking_witness:
  "encode_stream EVP_EncodeInit [[1, 2], [3], [4, 5]] = mime [1, 2, 3, 4, 5]"
  using base64_stream_chunking [of "[[1, 2], [3], [4, 5]]"] by simp



text \<open>Errors are sticky: once an update reported an error, every later update reports it and writes
  nothing, and so does the final call.\<close>

theorem base64_decode_error_sticky:
  assumes "EVP_DecodeUpdate ctx inp = (ctx', out, n, r)" "r = -1"
  shows "EVP_DecodeUpdate ctx' inp' = (ctx', [], 0, -1) \<and> EVP_DecodeFinal ctx' = (0, -1)"
proof -
  have "error_encountered ctx'"
    using assms by (auto simp: EVP_DecodeUpdate_def dest: DecodeUpdate_loop_fails split: prod.splits if_splits)
  then show ?thesis by (simp add: EVP_DecodeUpdate_def EVP_DecodeFinal_def)
qed

lemma base64_decode_error_sticky_witness:
  "\<exists>ctx' out. EVP_DecodeUpdate EVP_DecodeInit [33, 33, 33, 33] = (ctx', out, 0, -1)
     \<and> EVP_DecodeUpdate ctx' [81] = (ctx', [], 0, -1)"
proof -
  let ?ctx = "\<lparr>data_used = 4, data = [33, 33, 33, 33] @ replicate 44 0, eof_seen = False, error_encountered = True\<rparr>"
  have "EVP_DecodeUpdate EVP_DecodeInit [33, 33, 33, 33] = (?ctx, [], 0, -1)" by code_simp
  from base64_decode_error_sticky [OF this refl, of "[81]"] this show ?thesis by blast
qed

end
