(* ===== verification/Mem.thy ===== *)
theory Mem
  imports Byte_Prelude
begin

text \<open>
  The allocator wrappers and byte-string helpers of \<open>crypto/mem.c\<close>.  A block is the byte string
  that \<open>malloc\<close> returned, with the 8-byte size prefix that \<open>OPENSSL_malloc\<close> stores in front of the
  caller's bytes; the C allocator itself is a heap state that says which calls succeed, what
  uninitialised memory holds, and which blocks, with which contents, were given back to \<open>free\<close>.
  The other components see only the caller's bytes (\<open>mem_malloc\<close>, \<open>mem_realloc\<close>, \<open>mem_free\<close>),
  which the block-level operations refine.
\<close>

section \<open>The C allocator\<close>

record heap =
  hp_ok :: "nat \<Rightarrow> nat \<Rightarrow> bool"
  hp_junk :: "nat \<Rightarrow> nat \<Rightarrow> u8"
  hp_calls :: nat
  hp_freed :: "u8 list list"

definition c_malloc :: "nat \<Rightarrow> (heap, u8 list) st" where
  "c_malloc n h = (let t = hp_calls h; h' = h\<lparr>hp_calls := Suc t\<rparr> in
     if hp_ok h t n then (Some (map (hp_junk h t) [0..<n]), h') else (None, h'))"

definition c_free :: "u8 list \<Rightarrow> heap \<Rightarrow> heap" where
  "c_free blk h = h\<lparr>hp_freed := blk # hp_freed h\<rparr>"

primrec le_enc :: "nat \<Rightarrow> nat \<Rightarrow> u8 list" where
  "le_enc 0 v = []"
| "le_enc (Suc n) v = word_of_nat v # le_enc n (v div 256)"

section \<open>Allocation wrappers\<close>

definition OPENSSL_MALLOC_PREFIX :: nat where
  "OPENSSL_MALLOC_PREFIX = 8"

definition OPENSSL_malloc :: "nat \<Rightarrow> (heap, u8 list) st" where
  "OPENSSL_malloc sz h =
     (case c_malloc (szw (sz + OPENSSL_MALLOC_PREFIX)) h of
        (None, h') \<Rightarrow> (None, h')
      | (Some p, h') \<Rightarrow> (Some (memcpy_at p 0 (le_enc OPENSSL_MALLOC_PREFIX sz)), h'))"

definition OPENSSL_cleanse :: "u8 list \<Rightarrow> nat \<Rightarrow> u8 list" where
  "OPENSSL_cleanse p len = memcpy_at p 0 (replicate len 0)"

definition block_size :: "u8 list \<Rightarrow> nat" where
  "block_size p = le_val (take OPENSSL_MALLOC_PREFIX p)"

definition OPENSSL_free :: "u8 list option \<Rightarrow> heap \<Rightarrow> heap" where
  "OPENSSL_free orig h =
     (case orig of
        None \<Rightarrow> h
      | Some p \<Rightarrow> c_free (OPENSSL_cleanse p (szw (block_size p + OPENSSL_MALLOC_PREFIX))) h)"

definition OPENSSL_realloc :: "u8 list option \<Rightarrow> nat \<Rightarrow> (heap, u8 list) st" where
  "OPENSSL_realloc orig new_size h =
     (case orig of
        None \<Rightarrow> OPENSSL_malloc new_size h
      | Some p \<Rightarrow>
          let old_size = block_size p in
          (case OPENSSL_malloc new_size h of
             (None, h') \<Rightarrow> (None, h')
           | (Some ret, h') \<Rightarrow>
               let to_copy = (if old_size < new_size then old_size else new_size) in
               (Some (memcpy_at ret OPENSSL_MALLOC_PREFIX
                        (take to_copy (drop OPENSSL_MALLOC_PREFIX p))),
                OPENSSL_free (Some p) h')))"

section \<open>Byte strings and C strings\<close>

definition CRYPTO_memcmp :: "u8 list \<Rightarrow> u8 list \<Rightarrow> nat \<Rightarrow> int" where
  "CRYPTO_memcmp a b len =
     uint (foldl (\<lambda>x i. x OR (a ! i XOR b ! i)) 0 [0..<len])"

definition OPENSSL_hash32 :: "u8 list \<Rightarrow> u32" where
  "OPENSSL_hash32 bs = foldl (\<lambda>h b. (h XOR ucast b) * 16777619) 2166136261 bs"

text \<open>A C string is a byte list that holds its terminator; a read past the end of the list has no
  meaning in C, and the functions below return the value of a loop that stops there.\<close>

fun OPENSSL_strnlen :: "u8 list \<Rightarrow> nat \<Rightarrow> nat" where
  "OPENSSL_strnlen s 0 = 0"
| "OPENSSL_strnlen [] (Suc len) = 0"
| "OPENSSL_strnlen (c # s) (Suc len) = (if c = 0 then 0 else Suc (OPENSSL_strnlen s len))"

fun c_strlen :: "u8 list \<Rightarrow> nat" where
  "c_strlen [] = 0"
| "c_strlen (c # s) = (if c = 0 then 0 else Suc (c_strlen s))"

definition OPENSSL_strdup :: "u8 list \<Rightarrow> (heap, u8 list) st" where
  "OPENSSL_strdup s h =
     (let len = szw (c_strlen s + 1) in
      case OPENSSL_malloc len h of
        (None, h') \<Rightarrow> (None, h')
      | (Some p, h') \<Rightarrow> (Some (memcpy_at p OPENSSL_MALLOC_PREFIX (take len s)), h'))"

definition OPENSSL_tolower :: "int \<Rightarrow> int" where
  "OPENSSL_tolower c = (if 65 \<le> c \<and> c \<le> 90 then c + (97 - 65) else c)"

fun OPENSSL_strcasecmp :: "u8 list \<Rightarrow> u8 list \<Rightarrow> int" where
  "OPENSSL_strcasecmp (a # as) (b # bs) =
     (let aa = OPENSSL_tolower (sint a); bb = OPENSSL_tolower (sint b) in
      if aa < bb then -1 else if aa > bb then 1 else if aa = 0 then 0
      else OPENSSL_strcasecmp as bs)"
| "OPENSSL_strcasecmp as bs = 0"

fun OPENSSL_strncasecmp :: "u8 list \<Rightarrow> u8 list \<Rightarrow> nat \<Rightarrow> int" where
  "OPENSSL_strncasecmp (a # as) (b # bs) (Suc n) =
     (let aa = OPENSSL_tolower (sint a); bb = OPENSSL_tolower (sint b) in
      if aa < bb then -1 else if aa > bb then 1 else if aa = 0 then 0
      else OPENSSL_strncasecmp as bs n)"
| "OPENSSL_strncasecmp as bs n = 0"

section \<open>The caller's view of memory\<close>

text \<open>\<open>user p\<close> is what the caller may use of a block; \<open>mem_malloc\<close>, \<open>mem_realloc\<close> and \<open>mem_free\<close> are
  the abstract allocator on such contents.\<close>

definition user :: "u8 list \<Rightarrow> u8 list" where
  "user p = drop OPENSSL_MALLOC_PREFIX p"

definition mem_malloc :: "nat \<Rightarrow> (heap, u8 list) st" where
  "mem_malloc n h =
     (case c_malloc (szw (n + OPENSSL_MALLOC_PREFIX)) h of
        (None, h') \<Rightarrow> (None, h') | (Some p, h') \<Rightarrow> (Some (user p), h'))"

definition mem_free :: "u8 list option \<Rightarrow> heap \<Rightarrow> heap" where
  "mem_free orig h =
     (case orig of None \<Rightarrow> h
      | Some c \<Rightarrow> c_free (replicate (length c + OPENSSL_MALLOC_PREFIX) 0) h)"

definition mem_realloc :: "u8 list option \<Rightarrow> nat \<Rightarrow> (heap, u8 list) st" where
  "mem_realloc orig n h =
     (case orig of
        None \<Rightarrow> mem_malloc n h
      | Some c \<Rightarrow>
          (case mem_malloc n h of
             (None, h') \<Rightarrow> (None, h')
           | (Some new, h') \<Rightarrow> (Some (memcpy_at new 0 (take n c)), mem_free (Some c) h')))"

definition block_ok :: "u8 list \<Rightarrow> bool" where
  "block_ok p \<longleftrightarrow> length p = block_size p + OPENSSL_MALLOC_PREFIX \<and> length p < 2 ^ 64"

lemma length_le_enc [simp]: "length (le_enc n v) = n"
  by (induction n arbitrary: v) auto

lemma le_val_le_enc: "le_val (le_enc n v) = v mod 256 ^ n"
proof (induction n arbitrary: v)
  case (Suc n)
  have "v mod 256 + 256 * (v div 256 mod 256 ^ n) = v mod (256 * 256 ^ n)"
    by (simp add: mod_mult2_eq)
  then show ?case using Suc.IH by simp
qed simp

lemma c_malloc_length:
  "c_malloc n h = (Some p, h') \<Longrightarrow> length p = n"
  by (auto simp: c_malloc_def Let_def split: if_splits)

lemma malloc_refines:
  assumes "n + 8 < 2 ^ 64"
  shows "mem_malloc n h = (map_option user (fst (OPENSSL_malloc n h)), snd (OPENSSL_malloc n h))"
    and "OPENSSL_malloc n h = (Some p, h') \<Longrightarrow> block_ok p \<and> block_size p = n"
  using assms
  by (auto simp: mem_malloc_def OPENSSL_malloc_def user_def memcpy_at_def block_ok_def block_size_def
      OPENSSL_MALLOC_PREFIX_def le_val_le_enc dest: c_malloc_length split: prod.splits option.splits)

lemma length_user: "block_ok p \<Longrightarrow> length (user p) = block_size p"
  by (simp add: user_def block_ok_def)

lemma free_refines:
  assumes "block_ok p"
  shows "OPENSSL_free (Some p) h = mem_free (Some (user p)) h"
proof -
  have "szw (block_size p + OPENSSL_MALLOC_PREFIX) = length p"
    using assms by (simp add: block_ok_def)
  moreover have "length (user p) + OPENSSL_MALLOC_PREFIX = length p"
    using assms by (simp add: block_ok_def user_def)
  ultimately show ?thesis
    by (simp add: OPENSSL_free_def mem_free_def OPENSSL_cleanse_def memcpy_at_def)
qed

lemma mem_malloc_length:
  assumes "mem_malloc n h = (Some c, h')" "n + 8 < 2 ^ 64"
  shows "length c = n"
  using assms by (auto simp: mem_malloc_def user_def OPENSSL_MALLOC_PREFIX_def dest: c_malloc_length
      split: prod.splits option.splits)

lemma mem_realloc_length:
  assumes "mem_realloc p n h = (Some c, h')" "n + 8 < 2 ^ 64"
  shows "length c = n"
  using assms by (auto simp: mem_realloc_def split: option.splits prod.splits dest!: mem_malloc_length)

lemma mem_realloc_contents:
  assumes "mem_realloc p n h = (Some c, h')" "n + 8 < 2 ^ 64" "p = Some old" "k \<le> n" "k \<le> length old"
  shows "take k c = take k old"
  using assms by (auto simp: mem_realloc_def memcpy_at_0 min_def split: prod.splits option.splits
      dest!: mem_malloc_length)

text \<open>The size computation of \<open>OPENSSL_malloc\<close> wraps: for a request in the last 8 values of \<open>size_t\<close>
  the block has no room for the caller at all.\<close>

theorem OPENSSL_malloc_wraps:
  assumes "2 ^ 64 \<le> n + 8" "n < 2 ^ 64" "hp_ok h (hp_calls h) (n + 8 - 2 ^ 64)"
  shows "\<exists>h'. mem_malloc n h = (Some [], h')"
proof -
  define k where "k = n + 8 - 2 ^ 64"
  have k: "szw (n + 8) = k" and l: "k < 8"
  proof -
    show "k < 8" using assms(1,2) unfolding k_def by linarith
    then show "szw (n + 8) = k"
      using assms(1) by (simp add: szw_def le_mod_geq k_def)
  qed
  have "hp_ok h (hp_calls h) k"
    using assms(3) by (simp only: k_def)
  then show ?thesis
    using l by (simp add: mem_malloc_def c_malloc_def user_def OPENSSL_MALLOC_PREFIX_def Let_def k)
qed

text \<open>An allocator that never hands out more than \<open>PTRDIFF_MAX\<close> bytes, as every C library documents.\<close>

definition heap_sane :: "heap \<Rightarrow> bool" where
  "heap_sane h \<longleftrightarrow> (\<forall>t n. hp_ok h t n \<longrightarrow> n < 2 ^ 63)"

lemma mem_malloc_hp_ok: "mem_malloc n h = (r, h') \<Longrightarrow> hp_ok h' = hp_ok h"
  by (auto simp: mem_malloc_def c_malloc_def Let_def split: if_splits)

lemma mem_free_hp_ok [simp]: "hp_ok (mem_free p h) = hp_ok h"
  by (simp add: mem_free_def c_free_def split: option.splits)

lemma mem_realloc_hp_ok: "mem_realloc p n h = (r, h') \<Longrightarrow> hp_ok h' = hp_ok h"
  by (auto simp: mem_realloc_def split: option.splits prod.splits dest: mem_malloc_hp_ok)

lemma mem_malloc_sane:
  assumes "mem_malloc n h = (Some c, h')" "heap_sane h" "n + 8 < 2 ^ 64"
  shows "n + 8 < 2 ^ 63"
proof -
  have "szw (n + 8) = n + 8" using assms(3) by simp
  then have "hp_ok h (hp_calls h) (n + 8)"
    using assms(1) by (auto simp: mem_malloc_def c_malloc_def Let_def OPENSSL_MALLOC_PREFIX_def split: if_splits)
  then show ?thesis using assms(2) by (auto simp: heap_sane_def)
qed

lemma mem_realloc_sane:
  assumes "mem_realloc p n h = (Some c, h')" "heap_sane h" "n + 8 < 2 ^ 64"
  shows "n + 8 < 2 ^ 63"
  using assms mem_malloc_sane [of n h] by (auto simp: mem_realloc_def split: option.splits prod.splits)

section \<open>Comparisons\<close>

lemma memcmp_fold_zero:
  "foldl (\<lambda>x i. x OR (a ! i XOR b ! i)) x xs = (0 :: u8) \<longleftrightarrow> x = 0 \<and> (\<forall>i \<in> set xs. a ! i = b ! i)"
proof (induction xs arbitrary: x)
  case (Cons i xs)
  have "a ! i XOR b ! i = 0 \<longleftrightarrow> a ! i = b ! i"
    by (auto simp: bit_eq_iff bit_xor_iff)
  then show ?case by (simp add: Cons.IH or_eq_0_iff conj_assoc)
qed simp

text \<open>\<open>CRYPTO_memcmp\<close> returns zero exactly when the two buffers agree on all \<open>len\<close> bytes.\<close>

theorem CRYPTO_memcmp_zero_iff:
  assumes "len \<le> length a" "len \<le> length b"
  shows "CRYPTO_memcmp a b len = 0 \<longleftrightarrow> take len a = take len b"
proof -
  have "CRYPTO_memcmp a b len = 0 \<longleftrightarrow> (\<forall>i < len. a ! i = b ! i)"
    by (simp add: CRYPTO_memcmp_def uint_0_iff memcmp_fold_zero Ball_def)
  also have "\<dots> \<longleftrightarrow> take len a = take len b"
    using assms by (auto simp: list_eq_iff_nth_eq)
  finally show ?thesis .
qed

theorem CRYPTO_memcmp_zero_iff_witness:
  "CRYPTO_memcmp [1, 2, 9] [1, 2, 7] 2 = 0 \<and> CRYPTO_memcmp [1, 2, 9] [1, 2, 7] 3 \<noteq> 0"
  using CRYPTO_memcmp_zero_iff [of 2 "[1, 2, 9]" "[1, 2, 7]"]
    CRYPTO_memcmp_zero_iff [of 3 "[1, 2, 9]" "[1, 2, 7]"] by simp

definition fold_case :: "u8 list \<Rightarrow> int list" where
  "fold_case s = map (\<lambda>c. OPENSSL_tolower (sint c)) s"

lemma tolower_zero [simp]: "OPENSSL_tolower (sint (c :: u8)) = 0 \<longleftrightarrow> c = 0"
  using signed_eq_0_iff [of c] by (auto simp: OPENSSL_tolower_def)

lemma tolower_0 [simp]: "OPENSSL_tolower 0 = 0"
  by (simp add: OPENSSL_tolower_def)

lemma strcasecmp_step:
  "OPENSSL_strcasecmp (a # as) (b # bs) =
     (if OPENSSL_tolower (sint a) < OPENSSL_tolower (sint b) then -1
      else if OPENSSL_tolower (sint a) > OPENSSL_tolower (sint b) then 1
      else if a = 0 then 0 else OPENSSL_strcasecmp as bs)"
  using tolower_zero [of a] by (simp add: Let_def del: tolower_zero)

declare OPENSSL_strcasecmp.simps(1) [simp del]

text \<open>On C strings \<open>OPENSSL_strcasecmp\<close> is the sign of the lexicographic comparison of the
  case-folded strings: zero on equal ones, and a swap of the arguments negates it.\<close>

theorem OPENSSL_strcasecmp_order:
  assumes "0 \<notin> set a" "0 \<notin> set b"
  shows "(OPENSSL_strcasecmp (a @ [0]) (b @ [0]) = 0 \<longleftrightarrow> fold_case a = fold_case b)
    \<and> OPENSSL_strcasecmp (b @ [0]) (a @ [0]) = - OPENSSL_strcasecmp (a @ [0]) (b @ [0])
    \<and> (OPENSSL_strcasecmp (a @ [0]) (b @ [0]) = -1
         \<longleftrightarrow> (fold_case (a @ [0]), fold_case (b @ [0])) \<in> lexord {(x, y). x < y})"
  using assms
proof (induction a b rule: list_induct2')
  case 1
  then show ?case by (simp add: fold_case_def strcasecmp_step)
next
  case (2 x xs)
  then show ?case using tolower_zero [of x] by (auto simp: fold_case_def strcasecmp_step)
next
  case (3 y ys)
  then show ?case using tolower_zero [of y] by (auto simp: fold_case_def strcasecmp_step)
next
  case (4 x xs y ys)
  then show ?case using tolower_zero [of x] by (auto simp: fold_case_def strcasecmp_step)
qed

theorem OPENSSL_strcasecmp_order_witness:
  "OPENSSL_strcasecmp ([0x41, 0x62] @ [0]) ([0x61, 0x42] @ [0]) = 0"
proof -
  have "fold_case [0x41, 0x62] = fold_case [0x61, 0x42]"
    by (simp add: fold_case_def OPENSSL_tolower_def)
  then show ?thesis
    using OPENSSL_strcasecmp_order [of "[0x41, 0x62]" "[0x61, 0x42]"] by simp
qed

section \<open>Reallocation\<close>

text \<open>C27. The block-level reallocation refines the caller's view: on a well-formed block it returns a
  well-formed block of the new size whose contents are those of the abstract reallocation, the old
  contents up to the smaller size are kept, and what \<open>free\<close> receives of the old block is all zero.\<close>

theorem OPENSSL_realloc_refines:
  assumes "block_ok p" "n + 8 < 2 ^ 64"
    and "OPENSSL_realloc (Some p) n h = (Some q, h')"
  shows "block_ok q \<and> block_size q = n
    \<and> mem_realloc (Some (user p)) n h = (Some (user q), h')
    \<and> take (min n (block_size p)) (user q) = take n (user p)
    \<and> hp_freed h' = replicate (length p) 0 # hp_freed h"
proof -
  obtain r h1 where r: "OPENSSL_malloc n h = (Some r, h1)"
    using assms(3) by (auto simp: OPENSSL_realloc_def Let_def split: prod.splits option.splits)
  note rk = malloc_refines(2) [OF assms(2) r]
  have mm: "mem_malloc n h = (Some (user r), h1)"
    using malloc_refines(1) [OF assms(2), of h] r by simp
  have lr: "length r = n + 8" and bn: "block_size r = n"
    using rk by (auto simp: block_ok_def OPENSSL_MALLOC_PREFIX_def)
  define c where "c = take n (user p)"
  have tc: "(if block_size p < n then block_size p else n) = min n (block_size p)"
    by simp
  have c: "take (min n (block_size p)) (drop OPENSSL_MALLOC_PREFIX p) = c"
    using length_user [OF assms(1)] by (simp add: c_def user_def min_def)
  have lc: "length c = min n (block_size p)" "length c \<le> n"
    using length_user [OF assms(1)] by (auto simp: c_def)
  have q: "q = memcpy_at r 8 c" and h': "h' = OPENSSL_free (Some p) h1"
    using assms(3) r by (auto simp: OPENSSL_realloc_def Let_def tc c [unfolded OPENSSL_MALLOC_PREFIX_def] OPENSSL_MALLOC_PREFIX_def)
  have uq: "user q = memcpy_at (user r) 0 c"
    using lr by (simp add: q user_def memcpy_at_def OPENSSL_MALLOC_PREFIX_def add.commute)
  have "take 8 q = take 8 r"
    using lr by (simp add: q memcpy_at_def)
  then have bq: "block_size q = n"
    using bn by (simp add: block_size_def OPENSSL_MALLOC_PREFIX_def)
  moreover have "length q = n + 8"
    using lr lc by (simp add: q)
  then have "block_ok q"
    using assms(2) by (simp add: bq block_ok_def OPENSSL_MALLOC_PREFIX_def)
  moreover have "mem_realloc (Some (user p)) n h = (Some (user q), h')"
    using mm by (simp add: mem_realloc_def uq h' free_refines [OF assms(1)] c_def)
  moreover have "take (min n (block_size p)) (user q) = c"
    by (simp add: uq memcpy_at_0 lc(1) [symmetric])
  moreover have "hp_freed h' = replicate (length p) 0 # hp_freed h"
    using r assms(1) unfolding h' OPENSSL_free_def OPENSSL_malloc_def c_malloc_def
    by (auto simp: c_free_def Let_def OPENSSL_cleanse_def memcpy_at_0 block_ok_def split: if_splits)
  ultimately show ?thesis by (simp add: c_def)
qed

definition demo_heap :: heap where
  "demo_heap = \<lparr>hp_ok = \<lambda>t n. n < 2 ^ 32, hp_junk = \<lambda>t i. 170, hp_calls = 0, hp_freed = []\<rparr>"

theorem OPENSSL_realloc_refines_witness:
  "take (min 2 (block_size (le_enc 8 3 @ [1, 2, 3])))
     (user (the (fst (OPENSSL_realloc (Some (le_enc 8 3 @ [1, 2, 3])) 2 demo_heap)))) = [1, 2]"
proof -
  have e: "le_enc 8 3 = [3, 0, 0, 0, 0, 0, 0, 0]" "le_enc 8 2 = [2, 0, 0, 0, 0, 0, 0, 0]"
    by code_simp+
  have b: "block_size (le_enc 8 3 @ [1, 2, 3]) = 3"
    by (simp add: block_size_def OPENSSL_MALLOC_PREFIX_def e)
  have 1: "block_ok (le_enc 8 3 @ [1, 2, 3])"
    using b by (simp add: block_ok_def OPENSSL_MALLOC_PREFIX_def)
  have j: "map (\<lambda>i. 170 :: u8) [0..<10] = replicate 8 170 @ [170, 170]"
    by code_simp
  have m: "OPENSSL_malloc 2 demo_heap = (Some (le_enc 8 2 @ [170, 170]), demo_heap\<lparr>hp_calls := 1\<rparr>)"
    by (simp add: OPENSSL_malloc_def c_malloc_def demo_heap_def memcpy_at_def e j
        OPENSSL_MALLOC_PREFIX_def)
  have 2: "\<exists>h'. OPENSSL_realloc (Some (le_enc 8 3 @ [1, 2, 3])) 2 demo_heap = (Some (le_enc 8 2 @ [1, 2]), h')"
    using b m by (simp add: OPENSSL_realloc_def OPENSSL_MALLOC_PREFIX_def memcpy_at_def)
  then obtain h' where h: "OPENSSL_realloc (Some (le_enc 8 3 @ [1, 2, 3])) 2 demo_heap
     = (Some (le_enc 8 2 @ [1, 2]), h')" by blast
  show ?thesis
    using OPENSSL_realloc_refines [OF 1 _ h] by (simp add: h b user_def OPENSSL_MALLOC_PREFIX_def)
qed

end
