(* ===== verification/Buf.thy ===== *)
theory Buf
  imports Mem
begin

text \<open>
  \<open>crypto/buf/buf.c\<close>: the growable buffer \<open>BUF_MEM\<close> and the bounded string copies.  The abstract
  view of a buffer is the byte string of its first \<open>length\<close> bytes; a data pointer is the caller's
  view of its block, with \<open>None\<close> for NULL.
\<close>

section \<open>Growable buffers\<close>

record BUF_MEM =
  bm_length :: nat
  bm_data :: "u8 list option"
  bm_max :: nat

definition BUF_MEM_new :: "(heap, BUF_MEM) st" where
  "BUF_MEM_new h =
     (case mem_malloc 24 h of
        (None, h') \<Rightarrow> (None, h')
      | (Some _, h') \<Rightarrow> (Some \<lparr>bm_length = 0, bm_data = None, bm_max = 0\<rparr>, h'))"

definition BUF_MEM_free :: "BUF_MEM option \<Rightarrow> heap \<Rightarrow> heap" where
  "BUF_MEM_free buf h =
     (case buf of None \<Rightarrow> h
      | Some b \<Rightarrow> mem_free (Some (replicate 24 0)) (mem_free (bm_data b) h))"

definition BUF_MEM_reserve :: "nat \<Rightarrow> BUF_MEM \<times> heap \<Rightarrow> bool \<times> BUF_MEM \<times> heap" where
  "BUF_MEM_reserve cap = (\<lambda>(buf, h).
     if bm_max buf \<ge> cap then (True, buf, h)
     else let n = szw (cap + 3) in
       if n < cap then (False, buf, h)
       else let n = n div 3; alloc_size = szw (n * 4) in
         if alloc_size div 4 \<noteq> n then (False, buf, h)
         else (case mem_realloc (bm_data buf) alloc_size h of
                 (None, h') \<Rightarrow> (False, buf, h')
               | (Some new_buf, h') \<Rightarrow>
                   (True, buf\<lparr>bm_data := Some new_buf, bm_max := alloc_size\<rparr>, h')))"

definition bm_bytes :: "BUF_MEM \<Rightarrow> u8 list" where
  "bm_bytes b = (case bm_data b of None \<Rightarrow> [] | Some d \<Rightarrow> d)"

definition BUF_MEM_grow :: "nat \<Rightarrow> BUF_MEM \<times> heap \<Rightarrow> nat \<times> BUF_MEM \<times> heap" where
  "BUF_MEM_grow len s =
     (case BUF_MEM_reserve len s of
        (False, buf, h) \<Rightarrow> (0, buf, h)
      | (True, buf, h) \<Rightarrow>
          let buf = (if bm_length buf < len
                     then buf\<lparr>bm_data := map_option (\<lambda>d. memcpy_at d (bm_length buf)
                                           (replicate (len - bm_length buf) 0)) (bm_data buf)\<rparr>
                     else buf)
          in (len, buf\<lparr>bm_length := len\<rparr>, h))"

definition BUF_MEM_grow_clean :: "nat \<Rightarrow> BUF_MEM \<times> heap \<Rightarrow> nat \<times> BUF_MEM \<times> heap" where
  "BUF_MEM_grow_clean len s = BUF_MEM_grow len s"

definition BUF_MEM_append :: "u8 list \<Rightarrow> BUF_MEM \<times> heap \<Rightarrow> bool \<times> BUF_MEM \<times> heap" where
  "BUF_MEM_append src s =
     (let len = length src; new_len = szw (bm_length (fst s) + len) in
      if new_len < len then (False, s)
      else (case BUF_MEM_reserve new_len s of
              (False, buf, h) \<Rightarrow> (False, buf, h)
            | (True, buf, h) \<Rightarrow>
                (True, buf\<lparr>bm_data := map_option (\<lambda>d. memcpy_at d (bm_length buf) src) (bm_data buf),
                           bm_length := new_len\<rparr>, h)))"

section \<open>Strings\<close>

fun BUF_strnlen :: "u8 list \<Rightarrow> nat \<Rightarrow> nat" where
  "BUF_strnlen s 0 = 0"
| "BUF_strnlen [] (Suc n) = 0"
| "BUF_strnlen (c # s) (Suc n) = (if c = 0 then 0 else Suc (BUF_strnlen s n))"

definition BUF_strndup :: "u8 list option \<Rightarrow> nat \<Rightarrow> (heap, u8 list) st" where
  "BUF_strndup str sz h =
     (case str of
        None \<Rightarrow> (None, h)
      | Some s \<Rightarrow>
          let sz = BUF_strnlen s sz; alloc_size = szw (sz + 1) in
          if alloc_size < sz then (None, h)
          else (case mem_malloc alloc_size h of
                  (None, h') \<Rightarrow> (None, h')
                | (Some ret, h') \<Rightarrow> (Some ((memcpy_at ret 0 (take sz s))[sz := 0]), h')))"

definition BUF_strdup :: "u8 list option \<Rightarrow> (heap, u8 list) st" where
  "BUF_strdup str h =
     (case str of None \<Rightarrow> (None, h) | Some s \<Rightarrow> BUF_strndup (Some s) (c_strlen s) h)"

definition BUF_memdup :: "u8 list \<Rightarrow> (heap, u8 list) st" where
  "BUF_memdup data h =
     (if length data = 0 then (None, h)
      else (case mem_malloc (length data) h of
              (None, h') \<Rightarrow> (None, h')
            | (Some ret, h') \<Rightarrow> (Some (memcpy_at ret 0 data), h')))"

text \<open>The copy loop of \<open>BUF_strlcpy\<close> with its index, the remaining size and the count as
  arguments; the result is the source left, the index, the size left and the count.\<close>

fun strlcpy_loop :: "u8 list \<Rightarrow> u8 list \<Rightarrow> nat \<Rightarrow> nat \<Rightarrow> nat \<Rightarrow> u8 list \<times> u8 list \<times> nat \<times> nat \<times> nat" where
  "strlcpy_loop dst (c # src) i dst_size l =
     (if dst_size > 1 \<and> c \<noteq> 0 then strlcpy_loop (dst[i := c]) src (i + 1) (dst_size - 1) (l + 1)
      else (dst, c # src, i, dst_size, l))"
| "strlcpy_loop dst [] i dst_size l = (dst, [], i, dst_size, l)"

definition BUF_strlcpy_at :: "u8 list \<Rightarrow> nat \<Rightarrow> u8 list \<Rightarrow> nat \<Rightarrow> nat \<times> u8 list" where
  "BUF_strlcpy_at dst off src dst_size =
     (case strlcpy_loop dst src off dst_size 0 of
        (dst, src, i, dst_size, l) \<Rightarrow>
          (l + c_strlen src, if dst_size \<noteq> 0 then dst[i := 0] else dst))"

definition BUF_strlcpy :: "u8 list \<Rightarrow> u8 list \<Rightarrow> nat \<Rightarrow> nat \<times> u8 list" where
  "BUF_strlcpy dst src dst_size = BUF_strlcpy_at dst 0 src dst_size"

fun strlcat_skip :: "u8 list \<Rightarrow> nat \<Rightarrow> nat \<Rightarrow> nat \<times> nat" where
  "strlcat_skip (c # dst) dst_size l =
     (if dst_size > 0 \<and> c \<noteq> 0 then strlcat_skip dst (dst_size - 1) (l + 1) else (dst_size, l))"
| "strlcat_skip [] dst_size l = (dst_size, l)"

definition BUF_strlcat :: "u8 list \<Rightarrow> u8 list \<Rightarrow> nat \<Rightarrow> nat \<times> u8 list" where
  "BUF_strlcat dst src dst_size =
     (case strlcat_skip dst dst_size 0 of
        (dst_size, l) \<Rightarrow> (case BUF_strlcpy_at dst l src dst_size of (n, dst') \<Rightarrow> (l + n, dst')))"

section \<open>The buffer as a byte string\<close>

definition bm_inv :: "BUF_MEM \<Rightarrow> bool" where
  "bm_inv b \<longleftrightarrow> length (bm_bytes b) = bm_max b \<and> bm_length b \<le> bm_max b \<and> bm_max b + 8 < 2 ^ 64
     \<and> (bm_data b = None \<longrightarrow> bm_max b = 0)"

definition bm_abs :: "BUF_MEM \<Rightarrow> u8 list" where
  "bm_abs b = take (bm_length b) (bm_bytes b)"

lemma bm_abs_length [simp]: "bm_inv b \<Longrightarrow> length (bm_abs b) = bm_length b"
  by (simp add: bm_abs_def bm_inv_def)

lemma BUF_MEM_reserve_ok:
  assumes inv: "bm_inv b" and cap: "cap < 2 ^ 63"
    and r: "BUF_MEM_reserve cap (b, h) = (ok, b', h')"
  shows "bm_inv b' \<and> bm_abs b' = bm_abs b \<and> bm_length b' = bm_length b \<and> (ok \<longrightarrow> cap \<le> bm_max b')
    \<and> (\<not> ok \<longrightarrow> b' = b)"
proof (cases "bm_max b \<ge> cap")
  case True
  then show ?thesis using r inv by (auto simp: BUF_MEM_reserve_def)
next
  case False
  define n where "n = (cap + 3) div 3 * 4"
  have n: "cap < n" "n + 8 < 2 ^ 64"
    using cap by (auto simp: n_def)
  have s: "szw (cap + 3) = cap + 3" "szw ((cap + 3) div 3 * 4) = n"
    using cap n by (auto simp: n_def)
  have e: "n div 4 = (cap + 3) div 3" by (simp add: n_def)
  show ?thesis
  proof (cases "mem_realloc (bm_data b) n h")
    case (Pair res h1)
    show ?thesis
    proof (cases res)
      case None
      then show ?thesis using r False Pair inv by (auto simp: BUF_MEM_reserve_def s e)
    next
      case (Some d)
      have b': "b' = b\<lparr>bm_data := Some d, bm_max := n\<rparr>" and ok: ok
        using r False Pair Some by (auto simp: BUF_MEM_reserve_def s e)
      have len: "length d = n"
        using Pair Some mem_realloc_length n(2) by blast
      have "take (bm_length b) d = take (bm_length b) (bm_bytes b)"
      proof (cases "bm_data b")
        case None
        then show ?thesis using inv by (simp add: bm_inv_def bm_bytes_def)
      next
        case (Some old)
        then show ?thesis
          using mem_realloc_contents [OF Pair [unfolded \<open>res = Some d\<close>] n(2) Some, of "bm_length b"] inv n(1) False
          by (simp add: bm_inv_def bm_bytes_def)
      qed
      then show ?thesis
        using inv len n False ok by (auto simp: b' bm_inv_def bm_bytes_def bm_abs_def)
    qed
  qed
qed

text \<open>The buffer implements a byte string: a successful \<open>BUF_MEM_append\<close> appends its input, a
  failed one changes nothing, and both keep the invariant that the block holds \<open>max\<close> bytes.\<close>

theorem BUF_MEM_append_refines:
  assumes "bm_inv b" "bm_length b + length src < 2 ^ 63"
    and "BUF_MEM_append src (b, h) = (ok, b', h')"
  shows "bm_inv b' \<and> bm_abs b' = (if ok then bm_abs b @ src else bm_abs b)"
proof -
  obtain ok1 b1 h1 where r: "BUF_MEM_reserve (bm_length b + length src) (b, h) = (ok1, b1, h1)"
    by (metis prod_cases3)
  note k = BUF_MEM_reserve_ok [OF assms(1,2) r]
  have w: "szw (bm_length b + length src) = bm_length b + length src"
    using assms(2) by simp
  show ?thesis
  proof (cases ok1)
    case False
    then show ?thesis using assms(3) r k by (auto simp: BUF_MEM_append_def w)
  next
    case True
    have b': "ok" "b' = b1\<lparr>bm_data := map_option (\<lambda>d. memcpy_at d (bm_length b) src) (bm_data b1),
        bm_length := bm_length b + length src\<rparr>"
      using assms(3) r k True by (auto simp: BUF_MEM_append_def w)
    show ?thesis
    proof (cases "bm_data b1")
      case None
      then show ?thesis using k True b' by (auto simp: bm_inv_def bm_abs_def bm_bytes_def)
    next
      case (Some d)
      have "bm_length b + length src \<le> length d"
        using k True Some by (simp add: bm_inv_def bm_bytes_def)
      then show ?thesis
        using k True b' Some by (auto simp: bm_inv_def bm_abs_def bm_bytes_def take_memcpy_at)
    qed
  qed
qed

definition demo_buf :: BUF_MEM where
  "demo_buf = \<lparr>bm_length = 1, bm_data = Some [5, 6], bm_max = 2\<rparr>"

lemma demo_buf: "bm_inv demo_buf" "bm_abs demo_buf = [5]" "bm_length demo_buf = 1"
  by (simp_all add: bm_inv_def bm_bytes_def bm_abs_def demo_buf_def)

theorem BUF_MEM_append_refines_witness:
  "\<exists>b' h'. BUF_MEM_append [7, 8] (demo_buf, demo_heap) = (True, b', h')
     \<and> bm_abs b' = [5, 7, 8]"
proof -
  have j: "map (\<lambda>i. 170 :: u8) [0..<16] = replicate 8 170 @ replicate 8 170"
    by code_simp
  have e: "\<exists>b' h'. BUF_MEM_append [7, 8] (demo_buf, demo_heap) = (True, b', h')"
    by (simp add: BUF_MEM_append_def BUF_MEM_reserve_def mem_realloc_def mem_malloc_def c_malloc_def
        demo_heap_def demo_buf_def OPENSSL_MALLOC_PREFIX_def user_def j Let_def)
  from e obtain b' h' where r: "BUF_MEM_append [7, 8]
      (demo_buf, demo_heap) = (True, b', h')" by blast
  have "bm_abs b' = [5, 7, 8]"
    using BUF_MEM_append_refines [OF demo_buf(1) _ r] by (simp add: demo_buf)
  then show ?thesis using r by blast
qed

text \<open>\<open>BUF_MEM_grow\<close> truncates the byte string or extends it with zeros.\<close>

theorem BUF_MEM_grow_refines:
  assumes "bm_inv b" "len < 2 ^ 63" "BUF_MEM_grow len (b, h) = (r, b', h')"
  shows "bm_inv b' \<and> (bm_abs b' = take len (bm_abs b) @ replicate (len - length (bm_abs b)) 0 \<and> r = len
      \<or> b' = b \<and> r = 0)"
proof -
  obtain ok1 b1 h1 where r: "BUF_MEM_reserve len (b, h) = (ok1, b1, h1)"
    by (metis prod_cases3)
  note k = BUF_MEM_reserve_ok [OF assms(1,2) r]
  show ?thesis
  proof (cases ok1)
    case False
    then show ?thesis using assms(1,3) r k by (auto simp: BUF_MEM_grow_def)
  next
    case True
    then have b': "b' = (if bm_length b < len
        then b1\<lparr>bm_data := map_option (\<lambda>d. memcpy_at d (bm_length b) (replicate (len - bm_length b) 0)) (bm_data b1)\<rparr>
        else b1)\<lparr>bm_length := len\<rparr>" and re: "r = len"
      using assms(3) r k by (auto simp: BUF_MEM_grow_def Let_def)
    have l: "len \<le> bm_max b1" and a: "bm_abs b = take (bm_length b) (bm_bytes b1)"
      using k True by (auto simp: bm_abs_def)
    show ?thesis
    proof (cases "bm_length b < len")
      case True
      then obtain d where d: "bm_data b1 = Some d" "len \<le> length d"
        using k l by (cases "bm_data b1") (auto simp: bm_inv_def bm_bytes_def)
      then show ?thesis
        using True k a assms(1) re b' take_memcpy_at [of "bm_length b" "replicate (len - bm_length b) 0" d]
        by (auto simp: bm_inv_def bm_bytes_def bm_abs_def)
    next
      case False
      then show ?thesis
        using k a assms(1) re b' l by (auto simp: bm_inv_def bm_abs_def bm_bytes_def min_def)
    qed
  qed
qed

theorem BUF_MEM_grow_refines_witness:
  "bm_abs (fst (snd (BUF_MEM_grow 2 (demo_buf, demo_heap)))) = [5, 0]"
proof -
  have e: "\<exists>b'. BUF_MEM_grow 2 (demo_buf, demo_heap) = (2, b', demo_heap)"
    by (simp add: BUF_MEM_grow_def BUF_MEM_reserve_def demo_buf_def)
  from e obtain b' where r: "BUF_MEM_grow 2
      (demo_buf, demo_heap) = (2, b', demo_heap)" by blast
  show ?thesis
    using BUF_MEM_grow_refines [OF demo_buf(1) _ r] by (simp add: demo_buf r)
qed

section \<open>Bounded copies\<close>

lemma strlcpy_loop_correct:
  assumes "0 \<notin> set s" "0 < dst_size" "i + dst_size \<le> length dst"
  shows "strlcpy_loop dst (s @ 0 # r) i dst_size l =
    (memcpy_at dst i (take (dst_size - 1) s), drop (dst_size - 1) s @ 0 # r,
     i + min (dst_size - 1) (length s), dst_size - min (dst_size - 1) (length s),
     l + min (dst_size - 1) (length s))"
  using assms
proof (induction s arbitrary: dst i dst_size l)
  case Nil
  then show ?case by (simp add: memcpy_at_def)
next
  case (Cons c s)
  show ?case
  proof (cases "dst_size > 1")
    case True
    have "memcpy_at (dst[i := c]) (Suc i) xs = memcpy_at dst i (c # xs)" for xs
      using Cons.prems by (simp add: memcpy_at_def take_Suc_conv_app_nth)
    moreover have "take (dst_size - 1) (c # s) = c # take (dst_size - 1 - 1) s"
      "drop (dst_size - 1) (c # s) = drop (dst_size - 1 - 1) s"
      using True by (simp_all add: take_Cons' drop_Cons')
    ultimately show ?thesis
      using Cons True by (simp add: min_def) linarith
  next
    case False
    then have "dst_size = 1" using Cons.prems by simp
    then show ?thesis by (simp add: memcpy_at_def)
  qed
qed

lemma c_strlen_append [simp]: "0 \<notin> set s \<Longrightarrow> c_strlen (s @ 0 # r) = length s"
  by (induction s) auto

text \<open>\<open>BUF_strlcpy\<close> never writes outside \<open>dst_size\<close> bytes, terminates what it wrote, copies as much
  of the source as fits and returns the length of the source.\<close>

theorem BUF_strlcpy_correct:
  assumes "0 \<notin> set s" "0 < dst_size" "dst_size \<le> length dst"
  shows "BUF_strlcpy dst (s @ 0 # r) dst_size
    = (length s, memcpy_at dst 0 (take (dst_size - 1) s @ [0]))"
proof -
  let ?k = "min (dst_size - 1) (length s)"
  have z: "0 \<notin> set (drop (dst_size - 1) s)"
    using assms(1) in_set_dropD by metis
  have d: "?k < dst_size" using assms(2) by arith
  define t where "t = take (dst_size - 1) s"
  have k: "?k = length t" and lt: "length t < length dst"
    using assms(2,3) by (auto simp: t_def)
  have "(memcpy_at dst 0 t)[length t := 0] = memcpy_at dst 0 (t @ [0])"
    using Cons_nth_drop_Suc [OF lt, symmetric] by (simp add: memcpy_at_0 list_update_append)
  then have w: "(memcpy_at dst 0 (take (dst_size - 1) s))[?k := 0] = memcpy_at dst 0 (take (dst_size - 1) s @ [0])"
    by (simp only: k t_def)
  have "?k + length (drop (dst_size - 1) s) = length s" by simp
  then show ?thesis
    unfolding BUF_strlcpy_def BUF_strlcpy_at_def strlcpy_loop_correct [OF assms(1,2), of 0 dst, simplified, OF assms(3)]
    using d w by (simp add: c_strlen_append [OF z [simplified]])
qed

theorem BUF_strlcpy_correct_witness:
  "BUF_strlcpy [9, 9, 9, 9] [0x61, 0x62, 0x63, 0] 3 = (3, [0x61, 0x62, 0, 9])"
  using BUF_strlcpy_correct [of "[0x61, 0x62, 0x63]" 3 "[9, 9, 9, 9]" "[]"] by (simp add: memcpy_at_0)

end
