(* ===== verification/Cbs.thy ===== *)
theory Cbs
  imports Buf
begin

text \<open>
  \<open>crypto/bytestring/cbs.c\<close>: parsing of byte strings and DER.  A \<open>CBS\<close> is a pointer and a length into
  memory that the parser only reads, so its model is the byte string it points to; every getter is
  a state transformer on that byte string which returns \<open>None\<close> where the C function returns 0 and
  keeps what a failed call had already consumed.  Out-parameters are results; what a failed call
  left in them is not part of the result.  The \<open>ber_ok\<close> flag of the element parser is a boolean.
\<close>

section \<open>Reading bytes\<close>

type_synonym CBS = "u8 list"

definition CBS_init :: "u8 list \<Rightarrow> CBS" where
  "CBS_init d = d"

definition cbs_get :: "nat \<Rightarrow> (CBS, u8 list) st" where
  "cbs_get n cbs = (if length cbs < n then (None, cbs) else (Some (take n cbs), drop n cbs))"

definition CBS_skip :: "nat \<Rightarrow> (CBS, unit) st" where
  "CBS_skip len = st_bind (cbs_get len) (\<lambda>_. st_return ())"

definition CBS_len :: "CBS \<Rightarrow> nat" where
  "CBS_len cbs = length cbs"

definition CBS_stow :: "CBS \<Rightarrow> u8 list option \<Rightarrow> heap \<Rightarrow> bool \<times> u8 list option \<times> heap" where
  "CBS_stow cbs out_ptr h =
     (let h1 = mem_free out_ptr h in
      if length cbs = 0 then (True, None, h1)
      else (case BUF_memdup cbs h1 of
              (None, h2) \<Rightarrow> (False, None, h2) | (Some p, h2) \<Rightarrow> (True, Some p, h2)))"

definition CBS_strdup :: "CBS \<Rightarrow> u8 list option \<Rightarrow> heap \<Rightarrow> bool \<times> u8 list option \<times> heap" where
  "CBS_strdup cbs out_ptr h =
     (let h1 = mem_free out_ptr h in
      case BUF_strndup (Some cbs) (length cbs) h1 of
        (None, h2) \<Rightarrow> (False, None, h2) | (Some p, h2) \<Rightarrow> (True, Some p, h2))"

definition CBS_contains_zero_byte :: "CBS \<Rightarrow> bool" where
  "CBS_contains_zero_byte cbs = list_ex (\<lambda>b. b = 0) cbs"

definition CBS_mem_equal :: "CBS \<Rightarrow> u8 list \<Rightarrow> bool" where
  "CBS_mem_equal cbs d = (if length d \<noteq> length cbs then False else CRYPTO_memcmp cbs d (length d) = 0)"

definition be_fold :: "u8 list \<Rightarrow> u32" where
  "be_fold d = foldl (\<lambda>result b. push_bit 8 result OR ucast b) 0 d"

definition cbs_get_u :: "nat \<Rightarrow> (CBS, u32) st" where
  "cbs_get_u len = st_bind (cbs_get len) (\<lambda>d. st_return (be_fold d))"

definition CBS_get_u8 :: "(CBS, u8) st" where
  "CBS_get_u8 = st_bind (cbs_get 1) (\<lambda>v. st_return (hd v))"

definition CBS_get_u16 :: "(CBS, u16) st" where
  "CBS_get_u16 = st_bind (cbs_get_u 2) (\<lambda>v. st_return (ucast v))"

definition CBS_get_u24 :: "(CBS, u32) st" where
  "CBS_get_u24 = cbs_get_u 3"

definition CBS_get_u32 :: "(CBS, u32) st" where
  "CBS_get_u32 = cbs_get_u 4"

definition CBS_get_last_u8 :: "(CBS, u8) st" where
  "CBS_get_last_u8 cbs = (if length cbs = 0 then (None, cbs) else (Some (last cbs), butlast cbs))"

definition CBS_get_bytes :: "nat \<Rightarrow> (CBS, CBS) st" where
  "CBS_get_bytes len = st_bind (cbs_get len) (\<lambda>v. st_return (CBS_init v))"

definition CBS_copy_bytes :: "u8 list \<Rightarrow> nat \<Rightarrow> (CBS, u8 list) st" where
  "CBS_copy_bytes out len = st_bind (cbs_get len) (\<lambda>v. st_return (memcpy_at out 0 v))"

definition cbs_get_length_prefixed :: "nat \<Rightarrow> (CBS, CBS) st" where
  "cbs_get_length_prefixed len_len = st_bind (cbs_get_u len_len) (\<lambda>len. CBS_get_bytes (unat len))"

definition CBS_get_u8_length_prefixed :: "(CBS, CBS) st" where
  "CBS_get_u8_length_prefixed = cbs_get_length_prefixed 1"

definition CBS_get_u16_length_prefixed :: "(CBS, CBS) st" where
  "CBS_get_u16_length_prefixed = cbs_get_length_prefixed 2"

definition CBS_get_u24_length_prefixed :: "(CBS, CBS) st" where
  "CBS_get_u24_length_prefixed = cbs_get_length_prefixed 3"

section \<open>ASN.1 tags and elements\<close>

definition CBS_ASN1_TAG_SHIFT :: nat where
  "CBS_ASN1_TAG_SHIFT = 24"

definition CBS_ASN1_CONSTRUCTED :: u32 where
  "CBS_ASN1_CONSTRUCTED = push_bit CBS_ASN1_TAG_SHIFT 0x20"

definition CBS_ASN1_TAG_NUMBER_MASK :: u32 where
  "CBS_ASN1_TAG_NUMBER_MASK = push_bit (5 + CBS_ASN1_TAG_SHIFT) 1 - 1"

definition CBS_ASN1_BOOLEAN :: u32 where
  "CBS_ASN1_BOOLEAN = 0x1"

definition CBS_ASN1_INTEGER :: u32 where
  "CBS_ASN1_INTEGER = 0x2"

definition CBS_ASN1_OCTETSTRING :: u32 where
  "CBS_ASN1_OCTETSTRING = 0x4"

fun parse_base128_loop :: "u64 \<Rightarrow> (CBS, u64) st" where
  "parse_base128_loop v [] = (None, [])"
| "parse_base128_loop v (b # cbs) =
     (if drop_bit (64 - 7) v \<noteq> 0 then (None, cbs)
      else if v = 0 \<and> b = 0x80 then (None, cbs)
      else let v' = push_bit 7 v OR ucast (b AND 0x7f) in
        if b AND 0x80 \<noteq> 0 then parse_base128_loop v' cbs else (Some v', cbs))"

definition parse_base128_integer :: "(CBS, u64) st" where
  "parse_base128_integer = parse_base128_loop 0"

definition parse_asn1_tag :: "(CBS, u32) st" where
  "parse_asn1_tag =
     st_bind CBS_get_u8 (\<lambda>tag_byte.
       let tag = push_bit CBS_ASN1_TAG_SHIFT (ucast tag_byte AND 0xe0);
           tag_number = ucast (tag_byte AND 0x1f) in
       if tag_number = 0x1f then
         st_bind parse_base128_integer (\<lambda>v.
           st_bind (st_guard (\<not> (v > ucast CBS_ASN1_TAG_NUMBER_MASK \<or> v < 0x1f)))
             (\<lambda>_. st_return (tag OR ucast v)))
       else st_return (tag OR tag_number))"

text \<open>The result of the element parser is the element, its tag and the length of its header.\<close>

definition cbs_get_any_asn1_element :: "bool \<Rightarrow> (CBS, CBS \<times> u32 \<times> nat) st" where
  "cbs_get_any_asn1_element ber_ok cbs =
     (case parse_asn1_tag cbs of
        (None, _) \<Rightarrow> (None, cbs)
      | (Some tag, header) \<Rightarrow>
          (case CBS_get_u8 header of
             (None, _) \<Rightarrow> (None, cbs)
           | (Some length_byte, header) \<Rightarrow>
               let header_len = CBS_len cbs - CBS_len header in
               if length_byte AND 0x80 = 0 then
                 st_bind (CBS_get_bytes (szw (unat length_byte + header_len)))
                   (\<lambda>out. st_return (out, tag, header_len)) cbs
               else let num_bytes = unat (length_byte AND 0x7f) in
                 if ber_ok \<and> tag AND CBS_ASN1_CONSTRUCTED \<noteq> 0 \<and> num_bytes = 0 then
                   st_bind (CBS_get_bytes header_len) (\<lambda>out. st_return (out, tag, header_len)) cbs
                 else if num_bytes = 0 \<or> num_bytes > 4 then (None, cbs)
                 else (case cbs_get_u num_bytes header of
                         (None, _) \<Rightarrow> (None, cbs)
                       | (Some len32, _) \<Rightarrow>
                           if len32 < 128 then (None, cbs)
                           else if drop_bit ((num_bytes - 1) * 8) len32 = 0 then (None, cbs)
                           else let len = unat len32 in
                             if szw (len + header_len + num_bytes) < len then (None, cbs)
                             else st_bind (CBS_get_bytes (szw (len + header_len + num_bytes)))
                               (\<lambda>out. st_return (out, tag, header_len + num_bytes)) cbs)))"

definition CBS_get_any_asn1_element :: "(CBS, CBS \<times> u32 \<times> nat) st" where
  "CBS_get_any_asn1_element = cbs_get_any_asn1_element False"

definition CBS_get_any_ber_asn1_element :: "(CBS, CBS \<times> u32 \<times> nat) st" where
  "CBS_get_any_ber_asn1_element = cbs_get_any_asn1_element True"

text \<open>\<open>on_child\<close> runs a getter on a byte string other than the parser's own, as the C code does when
  it passes \<open>out\<close> or \<open>child\<close> to a getter; it returns the result and what is left of the child.\<close>

definition on_child :: "(CBS, 'a) st \<Rightarrow> CBS \<Rightarrow> ('s, 'a \<times> CBS) st" where
  "on_child m child s = (case m child of (None, _) \<Rightarrow> (None, s) | (Some x, rest) \<Rightarrow> (Some (x, rest), s))"

definition CBS_get_any_asn1 :: "(CBS, CBS \<times> u32) st" where
  "CBS_get_any_asn1 =
     st_bind CBS_get_any_asn1_element (\<lambda>(out, tag, header_len).
       st_bind (on_child (CBS_skip header_len) out) (\<lambda>(_, out). st_return (out, tag)))"

definition cbs_get_asn1 :: "u32 \<Rightarrow> bool \<Rightarrow> (CBS, CBS) st" where
  "cbs_get_asn1 tag_value skip_header =
     st_bind CBS_get_any_asn1_element (\<lambda>(out, tag, header_len).
       if tag \<noteq> tag_value then st_fail
       else if skip_header then
         st_bind (on_child (CBS_skip header_len) out) (\<lambda>(_, out). st_return out)
       else st_return out)"

definition CBS_get_asn1 :: "u32 \<Rightarrow> (CBS, CBS) st" where
  "CBS_get_asn1 tag_value = cbs_get_asn1 tag_value True"

definition CBS_get_asn1_element :: "u32 \<Rightarrow> (CBS, CBS) st" where
  "CBS_get_asn1_element tag_value = cbs_get_asn1 tag_value False"

definition CBS_peek_asn1_tag :: "CBS \<Rightarrow> u32 \<Rightarrow> bool" where
  "CBS_peek_asn1_tag cbs tag_value =
     (if CBS_len cbs < 1 then False
      else (case parse_asn1_tag cbs of (None, _) \<Rightarrow> False | (Some actual, _) \<Rightarrow> tag_value = actual))"

section \<open>ASN.1 values\<close>

fun asn1_uint64_loop :: "u64 \<Rightarrow> u8 list \<Rightarrow> u64 option" where
  "asn1_uint64_loop out [] = Some out"
| "asn1_uint64_loop out (b # d) =
     (if drop_bit 56 out \<noteq> 0 then None else asn1_uint64_loop (push_bit 8 out OR ucast b) d)"

definition CBS_get_asn1_uint64 :: "(CBS, u64) st" where
  "CBS_get_asn1_uint64 =
     st_bind (CBS_get_asn1 CBS_ASN1_INTEGER) (\<lambda>bytes.
       if length bytes = 0 then st_fail
       else if bytes ! 0 AND 0x80 \<noteq> 0 then st_fail
       else if bytes ! 0 = 0 \<and> length bytes > 1 \<and> bytes ! 1 AND 0x80 = 0 then st_fail
       else (case asn1_uint64_loop 0 bytes of None \<Rightarrow> st_fail | Some v \<Rightarrow> st_return v))"

definition CBS_get_asn1_bool :: "(CBS, bool) st" where
  "CBS_get_asn1_bool =
     st_bind (CBS_get_asn1 CBS_ASN1_BOOLEAN) (\<lambda>bytes.
       if CBS_len bytes \<noteq> 1 then st_fail
       else if hd bytes \<noteq> 0 \<and> hd bytes \<noteq> 0xff then st_fail
       else st_return (hd bytes \<noteq> 0))"

text \<open>\<open>None\<close> is an absent field (\<open>*out_present = 0\<close>).\<close>

definition CBS_get_optional_asn1 :: "u32 \<Rightarrow> (CBS, CBS option) st" where
  "CBS_get_optional_asn1 tag cbs =
     (if CBS_peek_asn1_tag cbs tag
      then st_bind (CBS_get_asn1 tag) (\<lambda>out. st_return (Some out)) cbs
      else (Some None, cbs))"

definition CBS_get_optional_asn1_octet_string :: "u32 \<Rightarrow> (CBS, bool \<times> CBS) st" where
  "CBS_get_optional_asn1_octet_string tag =
     st_bind (CBS_get_optional_asn1 tag) (\<lambda>present.
       case present of
         Some child \<Rightarrow>
           st_bind (on_child (CBS_get_asn1 CBS_ASN1_OCTETSTRING) child) (\<lambda>(out, child).
             if CBS_len child \<noteq> 0 then st_fail else st_return (True, out))
       | None \<Rightarrow> st_return (False, []))"

definition CBS_get_optional_asn1_uint64 :: "u32 \<Rightarrow> u64 \<Rightarrow> (CBS, u64) st" where
  "CBS_get_optional_asn1_uint64 tag default_value =
     st_bind (CBS_get_optional_asn1 tag) (\<lambda>present.
       case present of
         Some child \<Rightarrow>
           st_bind (on_child CBS_get_asn1_uint64 child) (\<lambda>(out, child).
             if CBS_len child \<noteq> 0 then st_fail else st_return out)
       | None \<Rightarrow> st_return default_value)"

definition CBS_get_optional_asn1_bool :: "u32 \<Rightarrow> int \<Rightarrow> (CBS, int) st" where
  "CBS_get_optional_asn1_bool tag default_value =
     st_bind (CBS_get_optional_asn1 tag) (\<lambda>present.
       case present of
         Some child \<Rightarrow>
           st_bind (on_child (CBS_get_asn1 CBS_ASN1_BOOLEAN) child) (\<lambda>(child2, child).
             if CBS_len child2 \<noteq> 1 \<or> CBS_len child \<noteq> 0 then st_fail
             else if hd child2 = 0 then st_return 0
             else if hd child2 = 0xff then st_return 1 else st_fail)
       | None \<Rightarrow> st_return default_value)"

definition CBS_is_valid_asn1_bitstring :: "CBS \<Rightarrow> bool" where
  "CBS_is_valid_asn1_bitstring cbs =
     (case CBS_get_u8 cbs of
        (None, _) \<Rightarrow> False
      | (Some num_unused_bits, inp) \<Rightarrow>
          if num_unused_bits > 7 then False
          else if num_unused_bits = 0 then True
          else (case CBS_get_last_u8 inp of
                  (None, _) \<Rightarrow> False
                | (Some lst, _) \<Rightarrow> lst AND (push_bit (unat num_unused_bits) 1 - 1) = 0))"

definition CBS_asn1_bitstring_has_bit :: "CBS \<Rightarrow> u32 \<Rightarrow> bool" where
  "CBS_asn1_bitstring_has_bit cbs bit_index =
     (if \<not> CBS_is_valid_asn1_bitstring cbs then False
      else let byte_num = drop_bit 3 bit_index + 1; bit_num = 7 - (bit_index AND 7) in
        unat byte_num < CBS_len cbs
        \<and> cbs ! unat byte_num AND push_bit (unat bit_num) 1 \<noteq> 0)"

end
