(* ===== verification/Der.thy ===== *)
theory Der
  imports Cbs
begin

text \<open>
  The reference grammar of DER (base-128 numbers, identifier octets, length octets, elements) as
  encoders on numbers and byte strings, and the proof that the parsers of \<open>cbs.c\<close> accept exactly
  these encodings: every accepted input is the unique canonical encoding of what is returned.
\<close>

section \<open>Base-128 numbers\<close>

text \<open>The digits of a number in base 128, most significant first, all but the last with the
  continuation bit.\<close>

function b128_hi :: "nat \<Rightarrow> u8 list" where
  "b128_hi n = (if n = 0 then [] else b128_hi (n div 128) @ [word_of_nat (128 + n mod 128)])"
  by auto
termination by (relation "measure id") auto

declare b128_hi.simps [simp del]

definition b128 :: "nat \<Rightarrow> u8 list" where
  "b128 n = b128_hi (n div 128) @ [word_of_nat (n mod 128)]"

definition b128_val :: "nat \<Rightarrow> u8 list \<Rightarrow> nat" where
  "b128_val v ds = foldl (\<lambda>v b. v * 128 + unat b mod 128) v ds"

lemma b128_val_simps [simp]:
  "b128_val v [] = v" "b128_val v (b # ds) = b128_val (v * 128 + unat b mod 128) ds"
  "b128_val v (ds @ [b]) = b128_val v ds * 128 + unat b mod 128"
  by (simp_all add: b128_val_def)

lemma b128_val_ge: "v \<le> b128_val v ds"
proof (induction ds arbitrary: v)
  case (Cons b ds)
  have "v \<le> v * 128 + unat b mod 128" by simp
  also have "\<dots> \<le> b128_val (v * 128 + unat b mod 128) ds" by (rule Cons.IH)
  finally show ?case by simp
qed simp

lemma unat_u64_shift7:
  assumes "unat v < 2 ^ 57"
  shows "unat (push_bit 7 v OR ucast (b AND 0x7f :: u8) :: u64) = unat v * 128 + unat b mod 128"
  using unat_shift_or [of v 7 "ucast (b AND 0x7f)"] assms
  by (simp add: and_7f unsigned_ucast_eq take_bit_nat_eq_self)

lemma drop_57: "drop_bit 57 (v :: u64) = 0 \<longleftrightarrow> unat v < 2 ^ 57"
proof -
  have "drop_bit 57 v = 0 \<longleftrightarrow> unat (drop_bit 57 v) = 0"
    by (simp add: unat_eq_0)
  also have "\<dots> \<longleftrightarrow> unat v < 2 ^ 57"
    unfolding unat_drop_bit_eq by (simp add: drop_bit_eq_div div_eq_0_iff)
  finally show ?thesis .
qed

lemma parse_base128_step:
  "parse_base128_loop v (b # cbs) =
     (if 2 ^ 57 \<le> unat v \<or> v = 0 \<and> b = 0x80 then (None, cbs)
      else let v' = push_bit 7 v OR ucast (b AND 0x7f) in
        if cont b then parse_base128_loop v' cbs else (Some v', cbs))"
  using drop_57 [of v] by (simp add: cont_iff not_le)

declare parse_base128_loop.simps(2) [simp del]

definition digits_ok :: "u64 \<Rightarrow> u8 list \<Rightarrow> bool" where
  "digits_ok v cs \<longleftrightarrow> list_all cont cs \<and> (v = 0 \<longrightarrow> cs = [] \<or> hd cs \<noteq> 0x80)"

lemma digits_ok_Cons:
  assumes "unat v < 2 ^ 57" "cont b" "\<not> (v = 0 \<and> b = 0x80)"
  shows "digits_ok (push_bit 7 v OR ucast (b AND 0x7f)) cs \<longleftrightarrow> digits_ok v (b # cs)"
proof -
  have "unat (push_bit 7 v OR ucast (b AND 0x7f) :: u64) \<noteq> 0"
  proof -
    have "unat v = 0 \<Longrightarrow> unat b \<noteq> 128"
      using assms(3) by (auto simp: unat_0_iff word_unat_eq_iff [of b])
    moreover note cont_mod [OF assms(2)]
    ultimately have "unat v * 128 + unat b mod 128 \<noteq> 0" by arith
    then show ?thesis using unat_u64_shift7 [OF assms(1)] by simp
  qed
  then have "push_bit 7 v OR ucast (b AND 0x7f) \<noteq> (0 :: u64)" by (metis unat_0)
  then show ?thesis using assms by (auto simp: digits_ok_def)
qed

lemma ex_snoc_Cons:
  "(\<exists>cs d. b # xs = cs @ d # rest \<and> P cs d)
     \<longleftrightarrow> xs = rest \<and> P [] b \<or> (\<exists>cs d. xs = cs @ d # rest \<and> P (b # cs) d)"
  by (auto simp: Cons_eq_append_conv)

lemma parse_base128_loop_iff:
  "parse_base128_loop v cbs = (Some w, rest) \<longleftrightarrow>
     (\<exists>cs b. cbs = cs @ b # rest \<and> digits_ok v cs \<and> \<not> cont b \<and> unat w = b128_val (unat v) (cs @ [b]))"
proof (induction cbs arbitrary: v)
  case Nil
  then show ?case by simp
next
  case (Cons b cbs)
  let ?v = "push_bit 7 v OR ucast (b AND 0x7f) :: u64"
  consider "2 ^ 57 \<le> unat v" | "v = 0" "b = 0x80" | "unat v < 2 ^ 57" "\<not> (v = 0 \<and> b = 0x80)" "cont b"
    | "unat v < 2 ^ 57" "\<not> (v = 0 \<and> b = 0x80)" "\<not> cont b" by linarith
  then show ?case
  proof cases
    case 1
    have "unat w \<noteq> b128_val (unat v) (cs @ [d])" for cs d
    proof -
      have "2 ^ 57 \<le> b128_val (unat v) cs" using 1 b128_val_ge le_trans by blast
      then have "2 ^ 64 \<le> b128_val (unat v) (cs @ [d])" by simp
      then show ?thesis using unsigned_less [of w, where 'a = nat] by auto
    qed
    then show ?thesis using 1 by (simp add: parse_base128_step)
  next
    case 2
    then show ?thesis by (auto simp: parse_base128_step digits_ok_def cont_def Cons_eq_append_conv)
  next
    case 3
    have "parse_base128_loop v (b # cbs) = parse_base128_loop ?v cbs"
      using 3 by (auto simp: parse_base128_step)
    then show ?thesis
      using 3(3) by (simp only: ex_snoc_Cons Cons.IH [of ?v] digits_ok_Cons [OF 3(1,3,2)]
          unat_u64_shift7 [OF 3(1)] append_Cons b128_val_simps simp_thms)
  next
    case 4
    have "digits_ok v (b # cs) = False" for cs using 4 by (simp add: digits_ok_def)
    moreover have "w = ?v \<longleftrightarrow> unat w = unat v * 128 + unat b mod 128"
      using unat_u64_shift7 [OF 4(1), of b] by (simp add: word_unat_eq_iff)
    ultimately show ?thesis
      using 4 unfolding ex_snoc_Cons by (auto simp: parse_base128_step digits_ok_def Let_def)
  qed
qed

lemma unat_cont_digit: "unat (word_of_nat (128 + n mod 128) :: u8) = 128 + n mod 128"
proof -
  have "128 + n mod 128 < 256" by simp
  then show ?thesis by (simp only: unat_word_of_nat_u8 mod_less)
qed

lemma cont_word_of_nat [simp]: "cont (word_of_nat (128 + n mod 128))"
  by (simp only: cont_def unat_cont_digit le_add1)

lemma not_cont_word_of_nat [simp]: "\<not> cont (word_of_nat (n mod 128))"
  by (simp add: cont_def)

lemma b128_hi_Suc: "0 < n \<Longrightarrow> b128_hi n = b128_hi (n div 128) @ [word_of_nat (128 + n mod 128)]"
  by (simp add: b128_hi.simps [of n])

lemma b128_hi_0 [simp]: "b128_hi 0 = []"
  by (simp add: b128_hi.simps)

lemma b128_hi_eq_Nil [simp]: "b128_hi n = [] \<longleftrightarrow> n = 0"
  by (cases "n = 0") (simp_all add: b128_hi_Suc)

lemma b128_hi_digits: "digits_ok 0 (b128_hi n) \<and> b128_val 0 (b128_hi n) = n"
proof (induction n rule: b128_hi.induct)
  case (1 n)
  show ?case
  proof (cases "n = 0")
    case True
    then show ?thesis by (simp add: digits_ok_def)
  next
    case False
    define d hi where "d = (word_of_nat (128 + n mod 128) :: u8)" and "hi = b128_hi (n div 128)"
    have u: "unat d = 128 + n mod 128" by (simp only: d_def unat_cont_digit)
    have e: "b128_hi n = hi @ [d]" using False by (simp only: b128_hi_Suc d_def hi_def)
    have ih: "digits_ok 0 hi" "b128_val 0 hi = n div 128" using 1 [OF False] by (simp_all only: hi_def)
    have "hi = [] \<Longrightarrow> d \<noteq> 0x80"
    proof
      assume "hi = []" "d = 0x80"
      then have "n div 128 = 0" "n mod 128 = 0" using ih(2) u by simp_all
      then show False using False by (metis div_mult_mod_eq mult_0 add_0)
    qed
    moreover have "cont d" by (simp only: cont_def u le_add1)
    moreover have "unat d mod 128 = n mod 128" by (simp only: u mod_add_self1 mod_mod_trivial)
    ultimately show ?thesis
      using ih unfolding e by (auto simp: digits_ok_def hd_append)
  qed
qed

lemma digits_ok_unique: "digits_ok 0 cs \<Longrightarrow> cs = b128_hi (b128_val 0 cs)"
proof (induction cs rule: rev_induct)
  case Nil
  then show ?case by simp
next
  case (snoc d cs)
  have d: "cont d" and "digits_ok 0 cs"
    using snoc.prems by (cases cs; auto simp: digits_ok_def)+
  then have ih: "cs = b128_hi (b128_val 0 cs)" using snoc.IH by blast
  have du: "128 + unat d mod 128 = unat d"
    using cont_mod [OF d] by simp
  have pos: "0 < b128_val 0 (cs @ [d])"
  proof (cases "cs = []")
    case True
    then have "unat d \<noteq> 128"
      using snoc.prems by (auto simp: digits_ok_def word_unat_eq_iff)
    then show ?thesis using du True by simp
  next
    case False
    then have "b128_val 0 cs \<noteq> 0" using ih by (metis b128_hi_0)
    then show ?thesis by simp
  qed
  have "(b128_val 0 cs * 128 + unat d mod 128) div 128 = b128_val 0 cs"
    "(b128_val 0 cs * 128 + unat d mod 128) mod 128 = unat d mod 128" by simp_all
  then show ?case
    using pos ih du by (simp add: b128_hi_Suc del: of_nat_add)
qed

text \<open>\<open>parse_base128_integer\<close> accepts exactly the minimal base-128 encodings of the 64-bit numbers:
  it succeeds with \<open>w\<close> and leaves \<open>rest\<close> if and only if the input is the encoding of \<open>w\<close> followed by \<open>rest\<close>.\<close>

lemma parse_base128_canonical:
  "parse_base128_integer cbs = (Some w, rest) \<longleftrightarrow> cbs = b128 (unat w) @ rest"
proof
  assume "parse_base128_integer cbs = (Some w, rest)"
  then obtain cs b where c: "cbs = cs @ b # rest" "digits_ok 0 cs" "\<not> cont b"
    "unat w = b128_val 0 cs * 128 + unat b mod 128"
    by (auto simp: parse_base128_integer_def parse_base128_loop_iff)
  have "unat b mod 128 = unat b" using c(3) by (simp add: cont_def)
  then have "b128 (unat w) = cs @ [b]"
    using digits_ok_unique [OF c(2)] c(4) by (simp add: b128_def)
  then show "cbs = b128 (unat w) @ rest" using c(1) by simp
next
  assume "cbs = b128 (unat w) @ rest"
  then have "cbs = b128_hi (unat w div 128) @ word_of_nat (unat w mod 128) # rest"
    by (simp add: b128_def)
  moreover have "unat w = b128_val 0 (b128_hi (unat w div 128) @ [word_of_nat (unat w mod 128)])"
    using b128_hi_digits [of "unat w div 128"] by simp
  ultimately show "parse_base128_integer cbs = (Some w, rest)"
    using b128_hi_digits [of "unat w div 128"] not_cont_word_of_nat [of "unat w"]
    unfolding parse_base128_integer_def parse_base128_loop_iff by (metis unat_0)
qed

section \<open>Identifier octets\<close>

text \<open>A tag in memory is the class and the constructed bit in the top three bits and the tag number
  in the other 29; numbers from 31 on use the high-tag-number form.\<close>

definition tag_class :: "u32 \<Rightarrow> u8" where
  "tag_class tag = ucast (drop_bit 24 tag) AND 0xe0"

definition tag_number :: "u32 \<Rightarrow> nat" where
  "tag_number tag = unat tag mod 2 ^ 29"

definition der_tag :: "u32 \<Rightarrow> u8 list" where
  "der_tag tag = (if tag_number tag < 31 then [tag_class tag OR word_of_nat (tag_number tag)]
     else (tag_class tag OR 0x1f) # b128 (tag_number tag))"

definition mk_tag :: "u8 \<Rightarrow> u32 \<Rightarrow> u32" where
  "mk_tag b n = push_bit 24 (ucast b AND 0xe0) OR n"

lemma mask_e0: "(0xe0 :: u8) = push_bit 5 (mask 3)" "(0xe0 :: u32) = push_bit 5 (mask 3)"
  by (simp_all add: mask_eq_exp_minus_1 push_bit_eq_mult)

lemma mask_1f: "(0x1f :: u8) = mask 5"
  by (simp add: mask_eq_exp_minus_1)

lemma tag_class_mk_tag:
  assumes "take_bit 29 n = n"
  shows "tag_class (mk_tag b n) = b AND 0xe0"
proof (rule bit_word_eqI)
  fix i assume "i < LENGTH(8)"
  then have "i < 8" by simp
  have "bit n (24 + i) \<Longrightarrow> 24 + i < 29"
    using assms bit_take_bit_iff [of 29 n "24 + i"] by simp
  then show "bit (tag_class (mk_tag b n)) i = bit (b AND 0xe0) i"
    using \<open>i < 8\<close> unfolding tag_class_def mk_tag_def mask_e0
    by (auto simp: bit_simps)
qed

lemma tag_number_mk_tag:
  assumes "take_bit 29 n = n"
  shows "tag_number (mk_tag b n) = unat n"
proof -
  have "take_bit 29 (mk_tag b n) = n"
  proof (rule bit_word_eqI)
    fix i assume "i < LENGTH(32)"
    have "bit n i \<Longrightarrow> i < 29"
      using assms bit_take_bit_iff [of 29 n i] by simp
    then show "bit (take_bit 29 (mk_tag b n)) i = bit n i"
      unfolding mk_tag_def mask_e0 by (auto simp: bit_simps)
  qed
  then show ?thesis
    using unat_take_bit [of 29 "mk_tag b n"] by (simp only: tag_number_def)
qed

lemma mk_tag_eq:
  assumes "tag_class tag = b AND 0xe0" "tag_number tag = unat n"
  shows "tag = mk_tag b n"
proof (rule bit_word_eqI)
  fix i assume i: "i < LENGTH(32)"
  have n: "n = take_bit 29 tag"
    using assms(2) by (simp only: tag_number_def word_unat_eq_iff unat_take_bit)
  have "bit (b AND 0xe0) (i - 24) = bit (tag_class tag) (i - 24)" using assms(1) by simp
  then show "bit tag i = bit (mk_tag b n) i"
    using i unfolding n mk_tag_def tag_class_def mask_e0 by (auto simp: bit_simps)
qed

lemma CBS_get_u8_simps [simp]:
  "CBS_get_u8 [] = (None, [])" "CBS_get_u8 (b # r) = (Some b, r)"
  by (simp_all add: CBS_get_u8_def cbs_get_def st_bind_def)

lemma byte_split: "(b AND 0xe0) OR (b AND 0x1f) = (b :: u8)"
  unfolding mask_e0 mask_1f by (rule bit_word_eqI) (auto simp: bit_simps)

lemma byte_split_parts:
  fixes c n :: u8
  assumes "c AND 0xe0 = c" "n AND 0x1f = n"
  shows "(c OR n) AND 0xe0 = c" "(c OR n) AND 0x1f = n"
proof -
  have c: "bit c i \<Longrightarrow> 5 \<le> i" for i
    using assms(1) unfolding mask_e0 by (metis bit_and_iff bit_push_bit_iff)
  have n: "bit n i \<Longrightarrow> i < 5" for i
    using assms(2) unfolding mask_1f by (metis bit_and_iff bit_mask_iff)
  show "(c OR n) AND 0xe0 = c" unfolding mask_e0
    by (rule bit_word_eqI) (use c n in \<open>fastforce simp: bit_simps\<close>)
  show "(c OR n) AND 0x1f = n" unfolding mask_1f
    by (rule bit_word_eqI) (use c n in \<open>fastforce simp: bit_simps\<close>)
qed

lemma and_1f: "unat (b AND 0x1f :: u8) = unat b mod 32"
  using unat_take_bit [of 5 b] by (simp add: mask_1f take_bit_eq_mask del: mask_numeral)

lemma tag_class_and [simp]: "tag_class tag AND 0xe0 = tag_class tag"
  by (simp add: tag_class_def and.assoc)

lemma take_bit_29: "unat (n :: u32) < 2 ^ 29 \<Longrightarrow> take_bit 29 n = n"
  by (simp only: word_unat_eq_iff unat_take_bit mod_less)

lemma tag_mask: "ucast CBS_ASN1_TAG_NUMBER_MASK = (2 ^ 29 - 1 :: u64)"
  by (simp add: CBS_ASN1_TAG_NUMBER_MASK_def CBS_ASN1_TAG_SHIFT_def push_bit_eq_mult)

lemma tag_guard: "\<not> (v > ucast CBS_ASN1_TAG_NUMBER_MASK \<or> v < (0x1f :: u64)) \<longleftrightarrow> 31 \<le> unat v \<and> unat v < 2 ^ 29"
  unfolding tag_mask word_less_nat_alt by auto

lemma parse_asn1_tag_Cons:
  "parse_asn1_tag (b # r) =
     (if b AND 0x1f = 0x1f then
        st_bind parse_base128_integer (\<lambda>v. st_bind (st_guard (31 \<le> unat v \<and> unat v < 2 ^ 29))
           (\<lambda>_. st_return (mk_tag b (ucast v)))) r
      else (Some (mk_tag b (ucast (b AND 0x1f))), r))"
proof -
  have "ucast (b AND 0x1f) = (0x1f :: u32) \<longleftrightarrow> b AND 0x1f = 0x1f"
    by (simp add: word_unat_eq_iff unsigned_ucast_eq and_1f take_bit_nat_eq_self)
  then show ?thesis
    by (simp only: parse_asn1_tag_def st_bind_Some [where m = CBS_get_u8, OF CBS_get_u8_simps(2)] Let_def tag_guard mk_tag_def
        CBS_ASN1_TAG_SHIFT_def st_return_apply split: if_split) simp
qed

lemma unat_ucast_u32: "unat v < 2 ^ 32 \<Longrightarrow> unat (ucast (v :: u64) :: u32) = unat v"
  by (simp add: unsigned_ucast_eq take_bit_nat_eq_self)

lemma parse_asn1_tag_sound:
  assumes "parse_asn1_tag cbs = (Some tag, rest)"
  shows "cbs = der_tag tag @ rest"
proof -
  obtain b r where cbs: "cbs = b # r"
    using assms by (cases cbs) (auto simp: parse_asn1_tag_def st_bind_def)
  show ?thesis
  proof (cases "b AND 0x1f = 0x1f")
    case True
    with assms cbs obtain v where v: "parse_base128_integer r = (Some v, rest)" "31 \<le> unat v" "unat v < 2 ^ 29"
      "tag = mk_tag b (ucast v)"
      by (auto simp: parse_asn1_tag_Cons st_bind_eq_Some split: if_splits)
    have u: "unat (ucast v :: u32) = unat v" using v(3) by (intro unat_ucast_u32) simp
    have t: "take_bit 29 (ucast v) = (ucast v :: u32)" using v(3) u by (intro take_bit_29) simp
    have "r = b128 (unat v) @ rest" using v(1) parse_base128_canonical by blast
    then show ?thesis
      using v(2) byte_split [of b] tag_class_mk_tag [OF t, of b] tag_number_mk_tag [OF t, of b] cbs u
      by (simp add: der_tag_def v(4) True)
  next
    case False
    let ?n = "b AND 0x1f"
    have r: "rest = r" "tag = mk_tag b (ucast ?n)"
      using assms cbs False by (auto simp: parse_asn1_tag_Cons)
    have u: "unat (ucast ?n :: u32) = unat ?n"
      by (simp add: unsigned_ucast_eq and_1f take_bit_nat_eq_self)
    have l: "unat ?n < 32" by (simp add: and_1f)
    have "unat ?n \<noteq> 31" using False by (simp add: word_unat_eq_iff)
    then have l: "unat ?n < 31" using l by linarith
    have t: "take_bit 29 (ucast ?n) = (ucast ?n :: u32)" using u l by (intro take_bit_29) simp
    show ?thesis
      using l byte_split [of b] tag_class_mk_tag [OF t, of b] tag_number_mk_tag [OF t, of b] cbs u r
      by (simp add: der_tag_def)
  qed
qed

lemma parse_asn1_tag_complete: "parse_asn1_tag (der_tag tag @ rest) = (Some tag, rest)"
proof (cases "tag_number tag < 31")
  case True
  let ?n = "word_of_nat (tag_number tag) :: u8"
  let ?b = "tag_class tag OR ?n"
  have u: "unat ?n = tag_number tag" using True by simp
  have "?n AND 0x1f = ?n" using True by (simp add: word_unat_eq_iff and_1f)
  note p = byte_split_parts [OF tag_class_and this]
  have "?n \<noteq> 0x1f" using u True by (auto simp: word_unat_eq_iff)
  moreover have "tag = mk_tag ?b (ucast ?n)"
    by (rule mk_tag_eq) (use u True in \<open>simp_all add: p unsigned_ucast_eq take_bit_nat_eq_self\<close>)
  ultimately show ?thesis
    using True p by (simp add: der_tag_def parse_asn1_tag_Cons)
next
  case False
  let ?b = "tag_class tag OR 0x1f"
  let ?v = "word_of_nat (tag_number tag) :: u64"
  have l: "tag_number tag < 2 ^ 29" by (simp add: tag_number_def)
  then have u: "unat ?v = tag_number tag" by (simp add: unat_of_nat)
  note p = byte_split_parts [where c = "tag_class tag" and n = "0x1f", OF tag_class_and, simplified]
  have v: "parse_base128_integer (b128 (tag_number tag) @ rest) = (Some ?v, rest)"
    using parse_base128_canonical [of _ ?v rest] u by simp
  have "tag = mk_tag ?b (ucast ?v)"
    by (rule mk_tag_eq) (use u l in \<open>simp_all add: p unat_ucast_u32\<close>)
  then show ?thesis
    using False p v u l by (simp add: der_tag_def parse_asn1_tag_Cons)
qed

lemma parse_asn1_tag_canonical:
  "parse_asn1_tag cbs = (Some tag, rest) \<longleftrightarrow> cbs = der_tag tag @ rest"
  using parse_asn1_tag_sound parse_asn1_tag_complete by blast

section \<open>Length octets\<close>

definition len_bytes :: "nat \<Rightarrow> nat" where
  "len_bytes n = (if n < 2 ^ 8 then 1 else if n < 2 ^ 16 then 2 else if n < 2 ^ 24 then 3 else 4)"

definition der_len :: "nat \<Rightarrow> u8 list" where
  "der_len n = (if n < 128 then [word_of_nat n]
     else word_of_nat (128 + len_bytes n) # be_enc (len_bytes n) n)"

definition der_len_dec :: "(CBS, nat) st" where
  "der_len_dec = st_bind CBS_get_u8 (\<lambda>b.
     if \<not> cont b then st_return (unat b)
     else let k = unat b mod 128 in
       if k = 0 \<or> 4 < k then st_fail
       else st_bind (cbs_get k) (\<lambda>d. if be_val d < 128 \<or> be_val d < 256 ^ (k - 1) then st_fail
              else st_return (be_val d)))"

lemma der_len_dec_Cons:
  "der_len_dec (b # r) =
     (if \<not> cont b then (Some (unat b), r)
      else let k = unat b mod 128; d = take k r in
        if k = 0 \<or> 4 < k \<or> length r < k then (None, r)
        else if be_val d < 128 \<or> be_val d < 256 ^ (k - 1) then (None, drop k r)
        else (Some (be_val d), drop k r))"
  by (simp add: der_len_dec_def Let_def cbs_get_def st_bind_def)

lemma unat_be_fold: "length d \<le> 4 \<Longrightarrow> unat (be_fold d) = be_val d"
proof (induction d rule: rev_induct)
  case Nil
  then show ?case by (simp add: be_fold_def)
next
  case (snoc b d)
  then have ih: "unat (be_fold d) = be_val d" by simp
  have "be_val d < 256 ^ 3"
    using be_val_bound [of d] snoc.prems power_increasing [of "length d" 3 "256 :: nat"] by simp
  moreover have "unat (ucast b :: u32) = unat b"
    by (rule unat_ucast_u8_u32)
  ultimately have "unat (push_bit 8 (be_fold d) OR ucast b) = be_val d * 2 ^ 8 + unat b"
    using unat_shift_or [of "be_fold d" 8 "ucast b"] ih unat_u8_lt [of b] by (simp del: unat_u8_lt)
  then show ?case by (simp add: be_fold_def)
qed

lemma len_bytes_unique:
  assumes "128 \<le> n" "256 ^ (k - 1) \<le> n" "n < 256 ^ k" "k \<le> 4"
  shows "len_bytes n = k"
proof -
  have "k \<in> {0, 1, 2, 3, 4}" using assms(4) by auto
  then show ?thesis using assms by (auto simp: len_bytes_def)
qed

lemma len_bytes_bounds:
  assumes "128 \<le> n" "n < 2 ^ 32"
  shows "1 \<le> len_bytes n" "len_bytes n \<le> 4" "256 ^ (len_bytes n - 1) \<le> n" "n < 256 ^ len_bytes n"
  using assms by (auto simp: len_bytes_def)

lemma word_of_nat_unat_u8: "word_of_nat (unat b) = (b :: u8)"
  by simp

lemma der_len_dec_canonical:
  "der_len_dec cbs = (Some n, rest) \<longleftrightarrow> cbs = der_len n @ rest \<and> n < 2 ^ 32"
proof
  assume l: "der_len_dec cbs = (Some n, rest)"
  then obtain b r where cbs: "cbs = b # r"
    by (cases cbs) (auto simp: der_len_dec_def st_bind_def)
  show "cbs = der_len n @ rest \<and> n < 2 ^ 32"
  proof (cases "cont b")
    case False
    then have "n = unat b" "rest = r"
      using l by (auto simp: der_len_dec_def cbs)
    then show ?thesis using False unat_u8_lt [of b] by (auto simp: cbs der_len_def cont_def simp del: unat_u8_lt)
  next
    case True
    define k where "k = unat b mod 128"
    define d where "d = take k r"
    have k: "0 < k" "k \<le> 4" and kr: "k \<le> length r" and n: "n = be_val d" "128 \<le> n" "256 ^ (k - 1) \<le> n"
      and r: "r = d @ rest"
      using l True by (auto simp: der_len_dec_def cbs Let_def st_bind_eq_Some cbs_get_def
          k_def d_def split: if_splits)
    have ld: "length d = k" using kr by (simp add: d_def)
    have "n < 256 ^ k" using be_val_bound [of d] by (simp add: n(1) ld)
    moreover have "256 ^ k \<le> (256 :: nat) ^ 4" using k by (intro power_increasing) auto
    ultimately have lb: "len_bytes n = k" "n < 2 ^ 32"
      using len_bytes_unique [OF n(2,3) _ k(2)] by auto
    have "b = word_of_nat (128 + k)"
      using cont_mod [OF True] by (metis k_def word_of_nat_unat_u8)
    moreover have "be_enc k n = d" using be_enc_be_val [of d] by (simp add: ld n(1))
    ultimately show ?thesis using lb n(2) r by (simp add: cbs der_len_def)
  qed
next
  assume a: "cbs = der_len n @ rest \<and> n < 2 ^ 32"
  show "der_len_dec cbs = (Some n, rest)"
  proof (cases "n < 128")
    case True
    then have "\<not> cont (word_of_nat n)" by (simp add: cont_def)
    then show ?thesis using a True by (simp add: der_len_def der_len_dec_def)
  next
    case False
    define k where "k = len_bytes n"
    have k: "1 \<le> k" "k \<le> 4" "256 ^ (k - 1) \<le> n" "n < 256 ^ k"
      using len_bytes_bounds [of n] a False by (auto simp: k_def)
    have u: "unat (word_of_nat (128 + k) :: u8) = 128 + k"
      using k(2) by (simp only: unat_word_of_nat_u8) simp
    have c: "cont (word_of_nat (128 + k))" and m: "unat (word_of_nat (128 + k) :: u8) mod 128 = k"
      using k(2) by (simp_all add: cont_def u del: of_nat_add)
    have v: "be_val (be_enc k n) = n" using k(4) by (simp add: be_val_be_enc)
    have "cbs_get k (be_enc k n @ rest) = (Some (be_enc k n), rest)"
      by (simp add: cbs_get_def)
    then show ?thesis
      using a False k c m v by (simp add: der_len_def der_len_dec_def k_def [symmetric] Let_def not_less)
  qed
qed

section \<open>Elements\<close>

definition der_header :: "u32 \<Rightarrow> nat \<Rightarrow> u8 list" where
  "der_header tag n = der_tag tag @ der_len n"

definition der_elem :: "u32 \<Rightarrow> u8 list \<Rightarrow> u8 list" where
  "der_elem tag c = der_header tag (length c) @ c"

lemma length_b128_hi: "n < 128 ^ k \<Longrightarrow> length (b128_hi n) \<le> k"
proof (induction k arbitrary: n)
  case (Suc k)
  have "n div 128 < 128 ^ k" using Suc.prems by (simp add: less_mult_imp_div_less mult.commute)
  then show ?case using Suc.IH [of "n div 128"] by (cases "n = 0") (auto simp: b128_hi_Suc)
qed simp

lemma length_der_tag: "1 \<le> length (der_tag tag)" "length (der_tag tag) \<le> 6"
proof -
  have "tag_number tag div 128 < 128 ^ 4" by (simp add: tag_number_def less_mult_imp_div_less)
  then have "length (b128 (tag_number tag)) \<le> 5"
    using length_b128_hi [of "tag_number tag div 128" 4] by (simp add: b128_def)
  then show "1 \<le> length (der_tag tag)" "length (der_tag tag) \<le> 6" by (auto simp: der_tag_def)
qed

lemma drop_bit_len32:
  assumes "length d = k" "1 \<le> k" "k \<le> 4"
  shows "drop_bit ((k - 1) * 8) (be_fold d) = 0 \<longleftrightarrow> be_val d < 256 ^ (k - 1)"
proof -
  have "unat (drop_bit ((k - 1) * 8) (be_fold d)) = be_val d div 2 ^ ((k - 1) * 8)"
    using assms by (subst unat_drop_bit_eq) (simp add: drop_bit_eq_div unat_be_fold)
  moreover have "(2 :: nat) ^ ((k - 1) * 8) = 256 ^ (k - 1)"
    by (subst mult.commute) (simp add: power_mult)
  ultimately show ?thesis by (simp add: unat_0_iff [symmetric] div_eq_0_iff)
qed

lemma cbs_get_u_eq:
  "k \<le> 4 \<Longrightarrow> cbs_get_u k cbs = (if length cbs < k then (None, cbs) else (Some (be_fold (take k cbs)), drop k cbs))"
  by (simp add: cbs_get_u_def st_bind_def cbs_get_def)

definition elem_spec :: "(CBS, CBS \<times> u32 \<times> nat) st" where
  "elem_spec cbs =
     (case st_bind parse_asn1_tag (\<lambda>tag. st_bind der_len_dec (\<lambda>len. st_return (tag, len))) cbs of
        (None, _) \<Rightarrow> (None, cbs)
      | (Some (tag, len), h) \<Rightarrow>
          let hl = length cbs - length h in
          st_bind (CBS_get_bytes (len + hl)) (\<lambda>out. st_return (out, tag, hl)) cbs)"

lemma cbs_get_any_asn1_element_der: "cbs_get_any_asn1_element False cbs = elem_spec cbs"
proof (cases "parse_asn1_tag cbs")
  case (Pair t h)
  show ?thesis
  proof (cases t)
    case None
    then show ?thesis using Pair by (simp add: cbs_get_any_asn1_element_def elem_spec_def)
  next
    case (Some tag)
    have cbs: "cbs = der_tag tag @ h"
      using Pair Some parse_asn1_tag_sound by blast
    show ?thesis
    proof (cases h)
      case Nil
      then show ?thesis using Pair Some by (simp add: cbs_get_any_asn1_element_def elem_spec_def der_len_dec_def st_bind_def)
    next
      case (Cons b r)
      define T where "T = length (der_tag tag)"
      have T: "T \<le> 6" "1 \<le> T" using length_der_tag [of tag] by (auto simp: T_def)
      have lc: "length cbs = T + 1 + length r" by (simp add: cbs Cons T_def)
      note run = Pair [unfolded Some Cons]
      have hl0: "length cbs - length r = Suc T" by (simp add: lc)
      have E: "cbs_get_any_asn1_element False cbs = (if b AND 0x80 = 0 then
                 st_bind (CBS_get_bytes (szw (unat b + (Suc T))))
                   (\<lambda>out. st_return (out, tag, Suc T)) cbs
               else let num_bytes = unat (b AND 0x7f) in
                 if num_bytes = 0 \<or> num_bytes > 4 then (None, cbs)
                 else (case cbs_get_u num_bytes r of
                         (None, _) \<Rightarrow> (None, cbs)
                       | (Some len32, _) \<Rightarrow>
                           if len32 < 128 then (None, cbs)
                           else if drop_bit ((num_bytes - 1) * 8) len32 = 0 then (None, cbs)
                           else let len = unat len32 in
                             if szw (len + Suc T + num_bytes) < len then (None, cbs)
                             else st_bind (CBS_get_bytes (szw (len + Suc T + num_bytes)))
                               (\<lambda>out. st_return (out, tag, Suc T + num_bytes)) cbs))"
        unfolding cbs_get_any_asn1_element_def run prod.case option.case CBS_get_u8_simps CBS_len_def Let_def hl0
        by simp
      have S: "elem_spec cbs = (case der_len_dec (b # r) of (None, _) \<Rightarrow> (None, cbs)
          | (Some len, h) \<Rightarrow> st_bind (CBS_get_bytes (len + (length cbs - length h)))
              (\<lambda>out. st_return (out, tag, length cbs - length h)) cbs)"
        by (simp add: elem_spec_def run st_bind_def Let_def split: option.splits prod.splits)
      show ?thesis
      proof (cases "cont b")
        case False
        have "szw (unat b + Suc T) = unat b + Suc T"
          using T unat_u8_lt [of b] by (simp del: unat_u8_lt)
        then show ?thesis
          using False lc cont_iff [of b] by (simp add: E S der_len_dec_Cons)
      next
        case True
        define k where "k = unat b mod 128"
        have nb: "unat (b AND 0x7f) = k" by (simp add: and_7f k_def)
        have c0: "b AND 0x80 \<noteq> 0" using True cont_iff by blast
        show ?thesis
        proof (cases "1 \<le> k \<and> k \<le> 4 \<and> k \<le> length r")
          case False
          then show ?thesis
            using True c0 unfolding E S der_len_dec_Cons nb
            by (auto simp: cbs_get_u_eq Let_def simp flip: k_def)
        next
          case k: True
          define d where "d = take k r"
          have ld: "length d = k" using k by (simp add: d_def)
          have u: "unat (be_fold d) = be_val d" using ld k by (intro unat_be_fold) simp
          have "be_val d < 2 ^ 32"
            using u unsigned_less [of "be_fold d", where 'a = nat] by simp
          then have w: "szw (be_val d + Suc T + k) = be_val d + Suc T + k" using T k by simp
          have s: "be_fold d < 128 \<longleftrightarrow> be_val d < 128" by (simp add: word_less_nat_alt u)
          have hl: "length cbs - length (drop k r) = Suc T + k" using k by (simp add: lc)
          have g: "cbs_get_u k r = (Some (be_fold d), drop k r)" using k by (simp add: cbs_get_u_eq d_def)
          have dl: "drop_bit ((k - 1) * 8) (be_fold d) = 0 \<longleftrightarrow> be_val d < 256 ^ (k - 1)"
            using drop_bit_len32 [OF ld] k by blast
          let ?get = "st_bind (CBS_get_bytes (be_val d + Suc T + k)) (\<lambda>out. st_return (out, tag, Suc T + k)) cbs"
          have "cbs_get_any_asn1_element False cbs
              = (if be_val d < 128 \<or> be_val d < 256 ^ (k - 1) then (None, cbs) else ?get)"
            unfolding E nb Let_def g prod.case option.case dl s u w using c0 k by auto
          moreover have "der_len_dec (b # r)
              = (if be_val d < 128 \<or> be_val d < 256 ^ (k - 1) then (None, drop k r) else (Some (be_val d), drop k r))"
            unfolding der_len_dec_Cons Let_def using True k by (auto simp flip: k_def d_def)
          then have "elem_spec cbs
              = (if be_val d < 128 \<or> be_val d < 256 ^ (k - 1) then (None, cbs) else ?get)"
            unfolding S by (simp only: prod.case option.case hl add.assoc split: if_splits) simp_all
          ultimately show ?thesis by (simp only:)
        qed
      qed
    qed
  qed
qed

lemma elem_spec_iff:
  "elem_spec cbs = (Some (el, tag, hl), rest) \<longleftrightarrow>
     (\<exists>c. cbs = el @ rest \<and> el = der_elem tag c \<and> hl = length (der_header tag (length c)) \<and> length c < 2 ^ 32)"
proof
  assume e: "elem_spec cbs = (Some (el, tag, hl), rest)"
  then obtain len h where 1: "st_bind parse_asn1_tag (\<lambda>tag. st_bind der_len_dec (\<lambda>len. st_return (tag, len))) cbs = (Some (tag, len), h)"
    and 2: "st_bind (CBS_get_bytes (len + (length cbs - length h))) (\<lambda>out. st_return (out, tag, length cbs - length h)) cbs
      = (Some (el, tag, hl), rest)"
    by (auto simp: elem_spec_def Let_def st_bind_eq_Some split: prod.splits option.splits)
  from 1 have cbs: "cbs = der_header tag len @ h" and len: "len < 2 ^ 32"
    by (auto simp: st_bind_eq_Some parse_asn1_tag_canonical der_len_dec_canonical der_header_def)
  from 2 have g: "len \<le> length h" "el = der_header tag len @ take len h" "rest = drop len h"
    "hl = length (der_header tag len)"
    by (auto simp: st_bind_eq_Some CBS_get_bytes_def CBS_init_def cbs_get_def cbs split: if_splits)
  then show "\<exists>c. cbs = el @ rest \<and> el = der_elem tag c \<and> hl = length (der_header tag (length c)) \<and> length c < 2 ^ 32"
    using cbs len by (intro exI [of _ "take len h"]) (simp add: der_elem_def)
next
  assume "\<exists>c. cbs = el @ rest \<and> el = der_elem tag c \<and> hl = length (der_header tag (length c)) \<and> length c < 2 ^ 32"
  then obtain c where c: "cbs = der_header tag (length c) @ c @ rest" "el = der_elem tag c"
    "hl = length (der_header tag (length c))" "length c < 2 ^ 32"
    by (auto simp: der_elem_def)
  have "st_bind parse_asn1_tag (\<lambda>tag. st_bind der_len_dec (\<lambda>len. st_return (tag, len))) cbs
    = (Some (tag, length c), c @ rest)"
    using c(4) by (auto simp: st_bind_eq_Some parse_asn1_tag_canonical der_len_dec_canonical c(1) der_header_def)
  then show "elem_spec cbs = (Some (el, tag, hl), rest)"
    using c by (simp add: elem_spec_def CBS_get_bytes_def CBS_init_def cbs_get_def st_bind_def der_elem_def)
qed

lemma any_asn1_element_iff:
  "CBS_get_any_asn1_element cbs = (Some (el, tag, hl), rest) \<longleftrightarrow>
     (\<exists>c. cbs = el @ rest \<and> el = der_elem tag c \<and> hl = length (der_header tag (length c)) \<and> length c < 2 ^ 32)"
  by (simp only: CBS_get_any_asn1_element_def cbs_get_any_asn1_element_der elem_spec_iff)

lemma on_child_skip:
  "on_child (CBS_skip n) out s = (if length out < n then (None, s) else (Some ((), drop n out), s))"
  by (simp add: on_child_def CBS_skip_def cbs_get_def st_bind_def)

lemma any_asn1_element_run:
  "length c < 2 ^ 32 \<Longrightarrow> CBS_get_any_asn1_element (der_elem tag c @ rest)
     = (Some (der_elem tag c, tag, length (der_header tag (length c))), rest)"
  by (auto simp: any_asn1_element_iff)

lemma get_asn1_run: "length c < 2 ^ 32 \<Longrightarrow> CBS_get_asn1 tag (der_elem tag c @ rest) = (Some c, rest)"
  unfolding CBS_get_asn1_def cbs_get_asn1_def
  using any_asn1_element_run [of c tag rest] by (simp add: on_child_skip st_bind_def der_elem_def)

lemma get_asn1_iff:
  "CBS_get_asn1 tag cbs = (Some c, rest) \<longleftrightarrow> cbs = der_elem tag c @ rest \<and> length c < 2 ^ 32"
proof
  show "CBS_get_asn1 tag cbs = (Some c, rest) \<Longrightarrow> cbs = der_elem tag c @ rest \<and> length c < 2 ^ 32"
    unfolding CBS_get_asn1_def cbs_get_asn1_def
    by (auto simp: st_bind_eq_Some any_asn1_element_iff on_child_skip der_elem_def split: if_splits)
qed (use get_asn1_run in auto)

text \<open>C5. DER is parsed canonically: \<open>CBS_get_any_asn1\<close> returns contents \<open>c\<close> and tag and leaves \<open>rest\<close> if
  and only if the input is the one DER encoding of that element (minimal tag, minimal length,
  contents shorter than \<open>2 ^ 32\<close>) followed by \<open>rest\<close>.\<close>

theorem CBS_get_any_asn1_canonical:
  "CBS_get_any_asn1 cbs = (Some (c, tag), rest) \<longleftrightarrow> cbs = der_elem tag c @ rest \<and> length c < 2 ^ 32"
proof
  show "CBS_get_any_asn1 cbs = (Some (c, tag), rest) \<Longrightarrow> cbs = der_elem tag c @ rest \<and> length c < 2 ^ 32"
    unfolding CBS_get_any_asn1_def
    by (auto simp: st_bind_eq_Some any_asn1_element_iff on_child_skip der_elem_def split: if_splits)
  show "cbs = der_elem tag c @ rest \<and> length c < 2 ^ 32 \<Longrightarrow> CBS_get_any_asn1 cbs = (Some (c, tag), rest)"
    unfolding CBS_get_any_asn1_def
    using any_asn1_element_run [of c tag rest] by (auto simp: on_child_skip st_bind_def der_elem_def)
qed

section \<open>INTEGER and BOOLEAN\<close>

function nat_be :: "nat \<Rightarrow> u8 list" where
  "nat_be n = (if n = 0 then [] else nat_be (n div 256) @ [word_of_nat n])"
  by auto
termination by (relation "measure id") auto

declare nat_be.simps [simp del]

definition int_enc :: "nat \<Rightarrow> u8 list" where
  "int_enc n = (if nat_be n = [] \<or> cont (hd (nat_be n)) then 0 # nat_be n else nat_be n)"

lemma nat_be_0 [simp]: "nat_be 0 = []"
  by (simp add: nat_be.simps)

lemma nat_be_pos: "0 < n \<Longrightarrow> nat_be n = nat_be (n div 256) @ [word_of_nat n]"
  by (simp add: nat_be.simps [of n])

lemma nat_be_props: "be_val (nat_be n) = n \<and> (nat_be n = [] \<or> hd (nat_be n) \<noteq> 0)"
proof (induction n rule: nat_be.induct)
  case (1 n)
  show ?case
  proof (cases "n = 0")
    case False
    define d where "d = (word_of_nat n :: u8)"
    define hi where "hi = nat_be (n div 256)"
    have e: "nat_be n = hi @ [d]" using False by (simp only: nat_be_pos hi_def d_def neq0_conv)
    have u: "unat d = n mod 256" by (simp add: d_def)
    have ih: "be_val hi = n div 256" "hi = [] \<or> hd hi \<noteq> 0" using 1 [OF False] by (simp_all add: hi_def)
    have "hi = [] \<Longrightarrow> d \<noteq> 0"
    proof
      assume "hi = []" "d = 0"
      then have "n div 256 = 0" "n mod 256 = 0" using ih(1) u by simp_all
      then show False using False by (metis div_mult_mod_eq mult_0 add_0)
    qed
    then show ?thesis using ih u unfolding e by (auto simp: hd_append)
  qed simp
qed

lemma nat_be_unique: "bs = [] \<or> hd bs \<noteq> 0 \<Longrightarrow> nat_be (be_val bs) = bs"
proof (induction bs rule: rev_induct)
  case (snoc b bs)
  have ih: "nat_be (be_val bs) = bs" using snoc by (cases bs) auto
  have pos: "0 < be_val bs * 256 + unat b"
  proof (cases bs)
    case Nil
    then show ?thesis using snoc.prems by (simp add: unat_gt_0)
  next
    case (Cons c cs)
    then have "be_val bs \<noteq> 0" using ih by (metis list.distinct(1) nat_be_0)
    then show ?thesis by simp
  qed
  have d: "(be_val bs * 256 + unat b) div 256 = be_val bs"
    by simp
  have w: "word_of_nat (be_val bs * 256 + unat b) = b"
    by (simp add: word_unat_eq_iff del: of_nat_add)
  show ?case
    using nat_be_pos [OF pos] ih unfolding d w by simp
qed simp

lemma int_enc_iff:
  "bs \<noteq> [] \<and> \<not> cont (hd bs) \<and> \<not> (hd bs = 0 \<and> 1 < length bs \<and> \<not> cont (bs ! 1)) \<and> be_val bs = n
     \<longleftrightarrow> bs = int_enc n"
proof
  assume a: "bs \<noteq> [] \<and> \<not> cont (hd bs) \<and> \<not> (hd bs = 0 \<and> 1 < length bs \<and> \<not> cont (bs ! 1)) \<and> be_val bs = n"
  then obtain b cs where bs: "bs = b # cs" by (cases bs) auto
  show "bs = int_enc n"
  proof (cases "b = 0")
    case False
    then have "nat_be n = bs" using nat_be_unique [of bs] a bs by simp
    then show ?thesis using a by (simp add: int_enc_def)
  next
    case True
    then have c: "cs = [] \<or> cont (hd cs)" and n: "n = be_val cs" using a bs by (cases cs; simp)+
    then have "cs = [] \<or> hd cs \<noteq> 0" by (auto simp: cont_def)
    then have "nat_be n = cs" using nat_be_unique n by simp
    then show ?thesis using c True bs by (auto simp: int_enc_def)
  qed
next
  assume bs: "bs = int_enc n"
  note p = nat_be_props [of n]
  show "bs \<noteq> [] \<and> \<not> cont (hd bs) \<and> \<not> (hd bs = 0 \<and> 1 < length bs \<and> \<not> cont (bs ! 1)) \<and> be_val bs = n"
  proof (cases "nat_be n")
    case Nil
    then show ?thesis using p by (simp add: bs int_enc_def cont_def)
  next
    case (Cons b cs)
    then show ?thesis using p by (auto simp: bs int_enc_def cont_def)
  qed
qed

lemma asn1_uint64_loop_iff:
  "asn1_uint64_loop out d = Some v \<longleftrightarrow> unat v = unat out * 256 ^ length d + be_val d"
proof (induction d arbitrary: out)
  case Nil
  then show ?case by (auto simp: word_unat_eq_iff)
next
  case (Cons b d)
  have e: "drop_bit 56 out = 0 \<longleftrightarrow> unat out < 2 ^ 56"
    using unat_drop_bit_eq [of 56 out] by (simp add: unat_0_iff [symmetric] drop_bit_eq_div div_eq_0_iff)
  show ?case
  proof (cases "unat out < 2 ^ 56")
    case True
    have "unat (push_bit 8 out OR ucast b) = unat out * 256 + unat b"
      using unat_shift_or [of out 8 "ucast b"] True unat_u8_lt [of b] by (simp del: unat_u8_lt)
    then show ?thesis using Cons.IH True e by (simp add: algebra_simps)
  next
    case False
    have "unat v < 2 ^ 64" using unsigned_less [of v, where 'a = nat] by simp
    moreover have "2 ^ 56 * 256 \<le> unat out * 256 ^ length (b # d)"
      using False by (intro mult_le_mono) (auto simp: not_less)
    ultimately show ?thesis using False e by auto
  qed
qed

lemma length_nat_be: "n < 256 ^ k \<Longrightarrow> length (nat_be n) \<le> k"
proof (induction k arbitrary: n)
  case (Suc k)
  have "n div 256 < 256 ^ k" using Suc.prems by (simp add: less_mult_imp_div_less mult.commute)
  then show ?case using Suc.IH [of "n div 256"] by (cases "n = 0") (auto simp: nat_be_pos)
qed simp

lemma length_int_enc: "length (int_enc (unat (v :: u64))) \<le> 9"
  using length_nat_be [of "unat v" 8] unsigned_less [of v, where 'a = nat] by (auto simp: int_enc_def)

lemma uint64_iff:
  "CBS_get_asn1_uint64 cbs = (Some v, rest)
     \<longleftrightarrow> cbs = der_elem CBS_ASN1_INTEGER (int_enc (unat v)) @ rest"
proof -
  have loop: "asn1_uint64_loop 0 bs = Some v \<longleftrightarrow> be_val bs = unat v" for bs
    by (auto simp: asn1_uint64_loop_iff)
  have "CBS_get_asn1_uint64 cbs = (Some v, rest) \<longleftrightarrow>
     (\<exists>bs. CBS_get_asn1 CBS_ASN1_INTEGER cbs = (Some bs, rest)
        \<and> bs \<noteq> [] \<and> \<not> cont (hd bs) \<and> \<not> (hd bs = 0 \<and> 1 < length bs \<and> \<not> cont (bs ! 1)) \<and> be_val bs = unat v)"
    unfolding CBS_get_asn1_uint64_def st_bind_eq_Some cont_iff [symmetric] loop [symmetric]
    by (intro ex_cong1) (auto simp: hd_conv_nth split: if_splits option.splits)
  then show ?thesis
    using length_int_enc [of v] by (simp only: int_enc_iff get_asn1_iff) auto
qed

text \<open>\<open>CBS_get_asn1_uint64\<close> accepts exactly the DER encodings of the unsigned 64-bit integers: minimal
  two's complement, non-negative, in range.\<close>

theorem CBS_get_asn1_uint64_canonical:
  "CBS_get_asn1_uint64 cbs = (Some v, rest)
     \<longleftrightarrow> cbs = der_elem CBS_ASN1_INTEGER (int_enc (unat v)) @ rest"
  by (rule uint64_iff)

section \<open>The parsers as canonical codecs\<close>

interpretation b128_codec: canonical_codec "\<lambda>v. b128 (unat v)" parse_base128_integer "\<lambda>_. True"
  by unfold_locales (simp_all add: parse_base128_canonical)

interpretation uint64_codec: canonical_codec
  "\<lambda>v. der_elem CBS_ASN1_INTEGER (int_enc (unat v))" CBS_get_asn1_uint64 "\<lambda>_. True"
  by unfold_locales (simp_all add: uint64_iff)

interpretation tag_codec: canonical_codec der_tag parse_asn1_tag "\<lambda>_. True"
  by unfold_locales (simp_all add: parse_asn1_tag_canonical)

lemma CBS_get_asn1_fixed_tag_codec:
  "canonical_codec (der_elem tag) (CBS_get_asn1 tag) (\<lambda>c. length c < 2 ^ 32)"
  by unfold_locales (simp_all add: get_asn1_iff)

interpretation octets_codec: canonical_codec
  "der_elem CBS_ASN1_OCTETSTRING" "CBS_get_asn1 CBS_ASN1_OCTETSTRING" "\<lambda>c. length c < 2 ^ 32"
  by (rule CBS_get_asn1_fixed_tag_codec)

lemma unat_be_fold_enc: "k \<le> 4 \<Longrightarrow> n < 256 ^ k \<Longrightarrow> unat (be_fold (be_enc k n)) = n"
  by (simp add: unat_be_fold be_val_be_enc)

lemma length_prefixed_iff:
  assumes "k \<le> 4"
  shows "cbs_get_length_prefixed k cbs = (Some c, rest)
    \<longleftrightarrow> length c < 256 ^ k \<and> cbs = (be_enc k (length c) @ c) @ rest"
proof
  assume "cbs_get_length_prefixed k cbs = (Some c, rest)"
  then have g: "k \<le> length cbs" "be_val (take k cbs) \<le> length (drop k cbs)"
    "c = take (be_val (take k cbs)) (drop k cbs)" "rest = drop (be_val (take k cbs)) (drop k cbs)"
    using assms unat_be_fold [of "take k cbs"]
    by (auto simp: cbs_get_length_prefixed_def cbs_get_u_eq CBS_get_bytes_def CBS_init_def cbs_get_def
        st_bind_eq_Some split: if_splits)
  then have c: "length c = be_val (take k cbs)" by simp
  moreover have "be_enc k (length c) = take k cbs"
    using be_enc_be_val [of "take k cbs"] g(1) by (simp add: c)
  ultimately show "length c < 256 ^ k \<and> cbs = (be_enc k (length c) @ c) @ rest"
    using be_val_bound [of "take k cbs"] g append_take_drop_id [of k cbs]
      append_take_drop_id [of "be_val (take k cbs)" "drop k cbs"] by (simp del: drop_drop)
next
  assume "length c < 256 ^ k \<and> cbs = (be_enc k (length c) @ c) @ rest"
  then show "cbs_get_length_prefixed k cbs = (Some c, rest)"
    using unat_be_fold_enc [OF assms]
    by (simp add: cbs_get_length_prefixed_def cbs_get_u_eq assms CBS_get_bytes_def CBS_init_def cbs_get_def st_bind_def)
qed

lemma length_prefixed_codec:
  "k \<le> 4 \<Longrightarrow> canonical_codec (\<lambda>c. be_enc k (length c) @ c) (cbs_get_length_prefixed k) (\<lambda>c. length c < 256 ^ k)"
  by unfold_locales (simp_all add: length_prefixed_iff)

interpretation u8_prefixed: canonical_codec
  "\<lambda>c. be_enc 1 (length c) @ c" CBS_get_u8_length_prefixed "\<lambda>c. length c < 256 ^ 1"
  unfolding CBS_get_u8_length_prefixed_def by (rule length_prefixed_codec) simp

interpretation u16_prefixed: canonical_codec
  "\<lambda>c. be_enc 2 (length c) @ c" CBS_get_u16_length_prefixed "\<lambda>c. length c < 256 ^ 2"
  unfolding CBS_get_u16_length_prefixed_def by (rule length_prefixed_codec) simp

interpretation u24_prefixed: canonical_codec
  "\<lambda>c. be_enc 3 (length c) @ c" CBS_get_u24_length_prefixed "\<lambda>c. length c < 256 ^ 3"
  unfolding CBS_get_u24_length_prefixed_def by (rule length_prefixed_codec) simp

section \<open>Optional fields and bit strings\<close>

lemma CBS_peek_asn1_tag_iff: "CBS_peek_asn1_tag cbs tag \<longleftrightarrow> (\<exists>r. cbs = der_tag tag @ r)"
proof
  assume "CBS_peek_asn1_tag cbs tag"
  then obtain r where "parse_asn1_tag cbs = (Some tag, r)"
    by (auto simp: CBS_peek_asn1_tag_def split: if_splits prod.splits option.splits)
  then show "\<exists>r. cbs = der_tag tag @ r" using parse_asn1_tag_canonical by blast
next
  assume "\<exists>r. cbs = der_tag tag @ r"
  then obtain r where "parse_asn1_tag cbs = (Some tag, r)" "cbs = der_tag tag @ r"
    using parse_asn1_tag_canonical by blast
  then show "CBS_peek_asn1_tag cbs tag"
    using length_der_tag [of tag] by (cases "der_tag tag") (auto simp: CBS_peek_asn1_tag_def CBS_len_def)
qed

lemma der_elem_peek: "CBS_peek_asn1_tag (der_elem tag c @ r) tag"
  by (auto simp: CBS_peek_asn1_tag_iff der_elem_def der_header_def)

lemma on_child_eq_Some:
  "on_child m child s = (Some y, t) \<longleftrightarrow> m child = (Some (fst y), snd y) \<and> t = s"
  by (cases y) (auto simp: on_child_def split: prod.splits option.splits)

lemma CBS_get_optional_asn1_iff:
  "CBS_get_optional_asn1 tag cbs = (Some (Some c), rest)
     \<longleftrightarrow> CBS_peek_asn1_tag cbs tag \<and> CBS_get_asn1 tag cbs = (Some c, rest)"
  "CBS_get_optional_asn1 tag cbs = (Some None, rest) \<longleftrightarrow> \<not> CBS_peek_asn1_tag cbs tag \<and> rest = cbs"
  by (auto simp: CBS_get_optional_asn1_def st_bind_eq_Some)

text \<open>An optional field is absent exactly when the next identifier is another one; then the default
  is returned and nothing is consumed.  Otherwise the field must be the tag wrapped around the
  canonical INTEGER and nothing else.\<close>

theorem CBS_get_optional_asn1_uint64_correct:
  "CBS_get_optional_asn1_uint64 tag def cbs = (Some v, rest) \<longleftrightarrow>
     (if \<exists>r. cbs = der_tag tag @ r
      then cbs = der_elem tag (der_elem CBS_ASN1_INTEGER (int_enc (unat v))) @ rest
      else v = def \<and> rest = cbs)"
proof (cases "\<exists>r. cbs = der_tag tag @ r")
  case False
  then have "\<not> CBS_peek_asn1_tag cbs tag" by (simp add: CBS_peek_asn1_tag_iff)
  then show ?thesis
    using False by (auto simp: CBS_get_optional_asn1_uint64_def CBS_get_optional_asn1_def st_bind_def)
next
  case True
  then have p: "CBS_peek_asn1_tag cbs tag" by (simp add: CBS_peek_asn1_tag_iff)
  let ?i = "der_elem CBS_ASN1_INTEGER (int_enc (unat v))"
  have len: "length ?i < 2 ^ 32"
    using length_int_enc [of v] length_der_tag [of CBS_ASN1_INTEGER]
    by (simp add: der_elem_def der_header_def der_len_def)
  have "CBS_get_optional_asn1_uint64 tag def cbs = (Some v, rest) \<longleftrightarrow>
      (\<exists>child. CBS_get_asn1 tag cbs = (Some child, rest) \<and> CBS_get_asn1_uint64 child = (Some v, []))"
    using p unfolding CBS_get_optional_asn1_uint64_def st_bind_eq_Some split_option_ex CBS_get_optional_asn1_iff
    by (simp add: st_bind_eq_Some on_child_eq_Some CBS_len_def)
  then show ?thesis
    using len True by (auto simp: uint64_iff get_asn1_iff)
qed

text \<open>The same for an optional BOOLEAN, whose only encodings are 0 and 0xff.\<close>

lemma CBS_get_asn1_bool_iff:
  "CBS_get_asn1_bool cbs = (Some v, rest)
     \<longleftrightarrow> cbs = der_elem CBS_ASN1_BOOLEAN [if v then 0xff else 0] @ rest"
proof -
  have "CBS_get_asn1_bool cbs = (Some v, rest) \<longleftrightarrow>
      (\<exists>bs. CBS_get_asn1 CBS_ASN1_BOOLEAN cbs = (Some bs, rest) \<and> bs = [if v then 0xff else 0])"
    by (auto simp: CBS_get_asn1_bool_def st_bind_eq_Some CBS_len_def length_Suc_conv split: if_splits)
  then show ?thesis by (auto simp: get_asn1_iff)
qed

interpretation bool_codec: canonical_codec
  "\<lambda>v. der_elem CBS_ASN1_BOOLEAN [if v then 0xff else 0]" CBS_get_asn1_bool "\<lambda>_. True"
  by unfold_locales (simp_all only: CBS_get_asn1_bool_iff simp_thms)

text \<open>In a valid BIT STRING with \<open>u\<close> unused bits over the bytes \<open>d\<close>, bit \<open>i\<close> is reported set exactly
  when it lies before the unused bits and is set in its byte, counted from the most significant bit.\<close>

theorem CBS_asn1_bitstring_has_bit_correct:
  assumes "CBS_is_valid_asn1_bitstring (u # d)"
  shows "CBS_asn1_bitstring_has_bit (u # d) i \<longleftrightarrow>
    unat i < 8 * length d - unat u \<and> bit (d ! (unat i div 8)) (7 - unat i mod 8)"
proof -
  have u: "unat u \<le> 7" using assms
    by (auto simp: CBS_is_valid_asn1_bitstring_def word_less_nat_alt split: if_splits)
  have i3: "unat (drop_bit 3 i) = unat i div 8"
    by (subst unat_drop_bit_eq) (simp add: drop_bit_eq_div)
  have "unat i < 2 ^ 32" using unsigned_less [of i, where 'a = nat] by simp
  then have "unat i div 8 < 2 ^ 32 - 1" by (intro less_mult_imp_div_less) simp
  then have bn: "unat (drop_bit 3 i + 1) = Suc (unat i div 8)"
    using unat_add_lem [of "drop_bit 3 i" 1] i3 by simp
  have i7: "unat (i AND 7) = unat i mod 8"
  proof -
    have "i AND 7 = take_bit 3 i" by (simp add: take_bit_eq_mask mask_eq_exp_minus_1 flip: take_bit_eq_mod)
    then show ?thesis using unat_take_bit [of 3 i] by simp
  qed
  have bb: "unat (7 - (i AND 7)) = 7 - unat i mod 8"
    by (subst unat_sub) (simp_all add: word_le_nat_alt i7 less_Suc_eq_le [symmetric])
  have sh: "x AND 2 ^ k \<noteq> 0 \<longleftrightarrow> bit x k" for x :: u8 and k
    using and_exp_eq_0_iff_not_bit [of x k] by simp
  have has: "CBS_asn1_bitstring_has_bit (u # d) i \<longleftrightarrow>
      unat i div 8 < length d \<and> bit (d ! (unat i div 8)) (7 - unat i mod 8)"
    using assms by (simp add: CBS_asn1_bitstring_has_bit_def bn bb sh CBS_len_def)
  show ?thesis
  proof (cases "unat i < 8 * length d - unat u")
    case True
    then have "unat i div 8 < length d" by (intro less_mult_imp_div_less) simp
    then show ?thesis using True has by simp
  next
    case False
    have "\<not> bit (d ! (unat i div 8)) (7 - unat i mod 8)" if "unat i div 8 < length d"
    proof -
      have e: "unat i = unat i div 8 * 8 + unat i mod 8" by simp
      have "unat i mod 8 < 8" by simp
      then have l: "unat i div 8 = length d - 1" and r: "7 - unat i mod 8 < unat u"
        using False that e u by linarith+
      have dn: "d \<noteq> []" and un: "u \<noteq> 0" using that r by auto
      then have "last d AND (push_bit (unat u) 1 - 1) = 0"
        using assms u by (auto simp: CBS_is_valid_asn1_bitstring_def CBS_get_last_u8_def split: if_splits)
      then have "take_bit (unat u) (last d) = 0"
        by (simp add: take_bit_eq_mask mask_eq_exp_minus_1 push_bit_eq_mult)
      then have "\<not> bit (last d) (7 - unat i mod 8)"
        using r by (metis bit_0_eq bit_take_bit_iff bot_apply bot_bool_def)
      then show ?thesis using l dn by (simp add: last_conv_nth)
    qed
    then show ?thesis using False has by blast
  qed
qed

theorem CBS_asn1_bitstring_has_bit_correct_witness:
  "CBS_asn1_bitstring_has_bit [3, 0xa8] 2 \<longleftrightarrow> unat (2 :: u32) < 8 * length [0xa8 :: u8] - unat (3 :: u8)
     \<and> bit ([0xa8 :: u8] ! (unat (2 :: u32) div 8)) (7 - unat (2 :: u32) mod 8)"
  by (rule CBS_asn1_bitstring_has_bit_correct) code_simp

end
