(* ===== verification/Cbb.thy ===== *)
theory Cbb
  imports Der
begin

text \<open>
  \<open>crypto/bytestring/cbb.c\<close>: the byte builder.  The shared buffer is \<open>cbb_buffer\<close>; the \<open>CBB\<close> objects
  that point at it form a chain, from the top-level one to the current one, through their \<open>child\<close>
  pointers.  The model keeps that chain as a list of frames, so a handle is a position in it
  (0 is the top-level object) and \<open>child\<close> of handle \<open>d\<close> is frame \<open>d + 1\<close>.  A child is dropped from the
  list where the C code sets its \<open>base\<close> and its parent's \<open>child\<close> to NULL; such a stale object is not
  used again by a correct client, and the C code itself would only fail its calls.  Functions that
  return 0 are failing state transformers; their failures keep the state.
\<close>

section \<open>State\<close>

record cbb_buffer =
  bb_buf :: "u8 list option"
  bb_len :: nat
  bb_cap :: nat
  bb_can_resize :: bool
  bb_error :: bool

record cbb_frame =
  fr_offset :: nat
  fr_pending_len_len :: nat
  fr_pending_is_asn1 :: bool
  fr_is_top_level :: bool

record CBB =
  cb_base :: "cbb_buffer option"
  cb_chain :: "cbb_frame list"
  cb_heap :: heap

type_synonym buf_state = "cbb_buffer \<times> heap"

definition bb_bytes :: "cbb_buffer \<Rightarrow> u8 list" where
  "bb_bytes b = (case bb_buf b of None \<Rightarrow> [] | Some d \<Rightarrow> d)"

definition bb_write :: "(u8 list \<Rightarrow> u8 list) \<Rightarrow> cbb_buffer \<Rightarrow> cbb_buffer" where
  "bb_write f b = b\<lparr>bb_buf := map_option f (bb_buf b)\<rparr>"

definition top_frame :: cbb_frame where
  "top_frame = \<lparr>fr_offset = 0, fr_pending_len_len = 0, fr_pending_is_asn1 = False, fr_is_top_level = True\<rparr>"

definition CBB_zero :: "heap \<Rightarrow> CBB" where
  "CBB_zero h = \<lparr>cb_base = None, cb_chain = [], cb_heap = h\<rparr>"

section \<open>Creation and the buffer\<close>

definition cbb_init :: "u8 list option \<Rightarrow> nat \<Rightarrow> (CBB, unit) st" where
  "cbb_init buf cap s =
     (case mem_malloc 32 (cb_heap s) of
        (None, h) \<Rightarrow> (None, s\<lparr>cb_heap := h\<rparr>)
      | (Some _, h) \<Rightarrow>
          (Some (), s\<lparr>cb_base := Some \<lparr>bb_buf = buf, bb_len = 0, bb_cap = cap, bb_can_resize = True, bb_error = False\<rparr>,
                      cb_chain := [top_frame], cb_heap := h\<rparr>))"

definition CBB_init :: "nat \<Rightarrow> heap \<Rightarrow> unit option \<times> CBB" where
  "CBB_init initial_capacity h =
     (case mem_malloc initial_capacity h of
        (buf, h1) \<Rightarrow>
          if initial_capacity > 0 \<and> buf = None then (None, CBB_zero h1)
          else (case cbb_init buf initial_capacity (CBB_zero h1) of
                  (None, s) \<Rightarrow> (None, s\<lparr>cb_heap := mem_free buf (cb_heap s)\<rparr>)
                | (Some _, s) \<Rightarrow> (Some (), s)))"

definition CBB_init_fixed :: "u8 list \<Rightarrow> heap \<Rightarrow> unit option \<times> CBB" where
  "CBB_init_fixed buf h =
     (case cbb_init (Some buf) (length buf) (CBB_zero h) of
        (None, s) \<Rightarrow> (None, s)
      | (Some _, s) \<Rightarrow> (Some (), s\<lparr>cb_base := map_option (\<lambda>b. b\<lparr>bb_can_resize := False\<rparr>) (cb_base s)\<rparr>))"

definition CBB_cleanup :: "CBB \<Rightarrow> CBB" where
  "CBB_cleanup s =
     (case cb_base s of
        None \<Rightarrow> s
      | Some b \<Rightarrow>
          let h = (if bb_can_resize b then mem_free (bb_buf b) (cb_heap s) else cb_heap s) in
          s\<lparr>cb_base := None, cb_heap := mem_free (Some (replicate 32 0)) h\<rparr>)"

definition cbb_buffer_reserve :: "nat \<Rightarrow> (buf_state, unit) st" where
  "cbb_buffer_reserve len = (\<lambda>(b, h).
     let newlen = szw (bb_len b + len) in
     if newlen < bb_len b then (None, b\<lparr>bb_error := True\<rparr>, h)
     else if newlen > bb_cap b then
       if \<not> bb_can_resize b then (None, b\<lparr>bb_error := True\<rparr>, h)
       else let newcap = szw (bb_cap b * 2);
                newcap = (if newcap < bb_cap b \<or> newcap < newlen then newlen else newcap) in
         (case mem_realloc (bb_buf b) newcap h of
            (None, h') \<Rightarrow> (None, b\<lparr>bb_error := True\<rparr>, h')
          | (Some newbuf, h') \<Rightarrow> (Some (), b\<lparr>bb_buf := Some newbuf, bb_cap := newcap\<rparr>, h'))
     else (Some (), b, h))"

text \<open>The result of \<open>cbb_buffer_add\<close> is the offset of the new bytes, the C function's \<open>*out\<close>.\<close>

definition cbb_buffer_add :: "nat \<Rightarrow> (buf_state, nat) st" where
  "cbb_buffer_add len =
     st_bind (cbb_buffer_reserve len)
       (\<lambda>_ (b, h). (Some (bb_len b), b\<lparr>bb_len := szw (bb_len b + len)\<rparr>, h))"

text \<open>The loop that stores a number big-endian, last byte first; it returns what is left of it.\<close>

primrec write_be :: "u8 list \<Rightarrow> nat \<Rightarrow> nat \<Rightarrow> nat \<Rightarrow> u8 list \<times> nat" where
  "write_be buf off 0 v = (buf, v)"
| "write_be buf off (Suc i) v = write_be (buf[off + i := word_of_nat v]) off i (v div 256)"

definition cbb_buffer_add_u :: "u32 \<Rightarrow> nat \<Rightarrow> (buf_state, unit) st" where
  "cbb_buffer_add_u v len_len =
     (if len_len = 0 then st_return ()
      else st_bind (cbb_buffer_add len_len) (\<lambda>off (b, h).
        let left = snd (write_be [] off len_len (unat v));
            b' = bb_write (\<lambda>buf. fst (write_be buf off len_len (unat v))) b in
        if left \<noteq> 0 then (None, b'\<lparr>bb_error := True\<rparr>, h) else (Some (), b', h)))"

section \<open>Flushing pending length prefixes\<close>

text \<open>The length octets chosen for an ASN.1 child: their number, the first one, and the value left
  to store in the others; \<open>None\<close> for a length that is too large.\<close>

definition asn1_len_form :: "nat \<Rightarrow> (nat \<times> u8 \<times> nat) option" where
  "asn1_len_form len =
     (if len > 0xfffffffe then None
      else if len > 0xffffff then Some (5, 0x80 OR 4, len)
      else if len > 0xffff then Some (4, 0x80 OR 3, len)
      else if len > 0xff then Some (3, 0x80 OR 2, len)
      else if len > 0x7f then Some (2, 0x80 OR 1, len)
      else Some (1, word_of_nat len, 0))"

definition bb_fail :: "buf_state \<Rightarrow> unit option \<times> buf_state" where
  "bb_fail s = (None, (fst s)\<lparr>bb_error := True\<rparr>, snd s)"

definition flush_prefix :: "nat \<Rightarrow> nat \<Rightarrow> nat \<Rightarrow> (buf_state, unit) st" where
  "flush_prefix off pll len = (\<lambda>(b, h).
     let left = snd (write_be [] off pll len);
         b' = bb_write (\<lambda>buf. fst (write_be buf off pll len)) b in
     if left \<noteq> 0 then bb_fail (b', h) else (Some (), b', h))"

definition flush_child :: "cbb_frame \<Rightarrow> (buf_state, unit) st" where
  "flush_child c s =
     (let b = fst s; child_start = szw (fr_offset c + fr_pending_len_len c) in
      if child_start < fr_offset c \<or> bb_len b < child_start then bb_fail s
      else let len = bb_len b - child_start in
        if fr_pending_is_asn1 c then
          (case asn1_len_form len of
             None \<Rightarrow> bb_fail s
           | Some (len_len, initial_length_byte, left) \<Rightarrow>
               if len_len \<noteq> 1 then
                 (case cbb_buffer_add (len_len - 1) s of
                    (None, s') \<Rightarrow> bb_fail s'
                  | (Some _, (b, h)) \<Rightarrow>
                      flush_prefix (fr_offset c + 1) (len_len - 1) left
                        (bb_write (\<lambda>buf. (memcpy_at buf (child_start + (len_len - 1))
                                           (take len (drop child_start buf)))
                                         [fr_offset c := initial_length_byte]) b, h))
               else flush_prefix (fr_offset c + 1) (len_len - 1) left
                      (bb_write (\<lambda>buf. buf[fr_offset c := initial_length_byte]) b, snd s))
        else flush_prefix (fr_offset c) (fr_pending_len_len c) len s)"

text \<open>\<open>flush_chain\<close> is \<open>CBB_flush\<close> on an object whose descendants are the given frames; the third
  component is what is left of them.\<close>

fun flush_chain :: "cbb_frame list \<Rightarrow> buf_state \<Rightarrow> unit option \<times> cbb_frame list \<times> buf_state" where
  "flush_chain [] s = (if bb_error (fst s) then (None, [], s) else (Some (), [], s))"
| "flush_chain (c # cs) s =
     (if bb_error (fst s) then (None, c # cs, s)
      else if fr_pending_len_len c = 0 then (Some (), c # cs, s)
      else (case flush_chain cs s of
              (None, cs', s') \<Rightarrow> (None, c # cs', snd (bb_fail s'))
            | (Some _, cs', s') \<Rightarrow>
                (case flush_child c s' of
                   (None, s'') \<Rightarrow> (None, c # cs', s'')
                 | (Some _, s'') \<Rightarrow> (Some (), [], s''))))"

definition CBB_flush :: "nat \<Rightarrow> (CBB, unit) st" where
  "CBB_flush d s =
     (case cb_base s of
        None \<Rightarrow> (None, s)
      | Some b \<Rightarrow>
          (case flush_chain (drop (Suc d) (cb_chain s)) (b, cb_heap s) of
             (r, cs, (b', h)) \<Rightarrow>
               (r, s\<lparr>cb_base := Some b', cb_chain := take (Suc d) (cb_chain s) @ cs, cb_heap := h\<rparr>)))"

text \<open>\<open>on_base\<close> runs a buffer operation on \<open>cbb->base\<close>.\<close>

definition on_base :: "(buf_state, 'a) st \<Rightarrow> (CBB, 'a) st" where
  "on_base m s =
     (case cb_base s of
        None \<Rightarrow> (None, s)
      | Some b \<Rightarrow> (case m (b, cb_heap s) of (r, (b', h)) \<Rightarrow> (r, s\<lparr>cb_base := Some b', cb_heap := h\<rparr>)))"

definition CBB_finish :: "nat \<Rightarrow> bool \<Rightarrow> (CBB, u8 list option \<times> nat) st" where
  "CBB_finish d out_null s =
     (if d \<noteq> 0 then (None, s)
      else (case CBB_flush d s of
              (None, s') \<Rightarrow> (None, s')
            | (Some _, s') \<Rightarrow>
                (case cb_base s' of
                   None \<Rightarrow> (None, s')
                 | Some b \<Rightarrow>
                     if bb_can_resize b \<and> out_null then (None, s')
                     else (Some (bb_buf b, bb_len b),
                           CBB_cleanup (s'\<lparr>cb_base := Some (b\<lparr>bb_buf := None\<rparr>)\<rparr>)))))"

definition frame_at :: "nat \<Rightarrow> CBB \<Rightarrow> cbb_frame" where
  "frame_at d s = (if d < length (cb_chain s) then cb_chain s ! d else top_frame)"

definition CBB_data :: "nat \<Rightarrow> CBB \<Rightarrow> u8 list" where
  "CBB_data d s = (case cb_base s of None \<Rightarrow> []
     | Some b \<Rightarrow> drop (fr_offset (frame_at d s) + fr_pending_len_len (frame_at d s)) (take (bb_len b) (bb_bytes b)))"

definition CBB_len :: "nat \<Rightarrow> CBB \<Rightarrow> nat" where
  "CBB_len d s = (case cb_base s of None \<Rightarrow> 0
     | Some b \<Rightarrow> bb_len b - fr_offset (frame_at d s) - fr_pending_len_len (frame_at d s))"

section \<open>Adding contents\<close>

text \<open>A new child of handle \<open>d\<close>, whose own handle is \<open>d + 1\<close>.\<close>

definition push_child :: "nat \<Rightarrow> nat \<Rightarrow> nat \<Rightarrow> bool \<Rightarrow> (CBB, unit) st" where
  "push_child d off len_len is_asn1 s =
     (Some (), s\<lparr>cb_chain := take (Suc d) (cb_chain s)
        @ [\<lparr>fr_offset = off, fr_pending_len_len = len_len, fr_pending_is_asn1 = is_asn1, fr_is_top_level = False\<rparr>]\<rparr>)"

definition base_len :: "(CBB, nat) st" where
  "base_len s = (case cb_base s of None \<Rightarrow> (None, s) | Some b \<Rightarrow> (Some (bb_len b), s))"

definition cbb_add_length_prefixed :: "nat \<Rightarrow> nat \<Rightarrow> (CBB, unit) st" where
  "cbb_add_length_prefixed d len_len =
     st_bind (CBB_flush d) (\<lambda>_.
     st_bind base_len (\<lambda>off.
     st_bind (on_base (cbb_buffer_add len_len)) (\<lambda>p.
     st_bind (on_base (\<lambda>(b, h). (Some (), bb_write (\<lambda>buf. memcpy_at buf p (replicate len_len 0)) b, h))) (\<lambda>_.
     push_child d off len_len False))))"

definition CBB_add_u8_length_prefixed :: "nat \<Rightarrow> (CBB, unit) st" where
  "CBB_add_u8_length_prefixed d = cbb_add_length_prefixed d 1"

definition CBB_add_u16_length_prefixed :: "nat \<Rightarrow> (CBB, unit) st" where
  "CBB_add_u16_length_prefixed d = cbb_add_length_prefixed d 2"

definition CBB_add_u24_length_prefixed :: "nat \<Rightarrow> (CBB, unit) st" where
  "CBB_add_u24_length_prefixed d = cbb_add_length_prefixed d 3"

definition CBB_add_bytes :: "nat \<Rightarrow> u8 list \<Rightarrow> (CBB, unit) st" where
  "CBB_add_bytes d data =
     st_bind (CBB_flush d) (\<lambda>_.
     st_bind (on_base (cbb_buffer_add (length data))) (\<lambda>p.
     on_base (\<lambda>(b, h). (Some (), bb_write (\<lambda>buf. memcpy_at buf p data) b, h))))"

definition CBB_add_space :: "nat \<Rightarrow> nat \<Rightarrow> (CBB, nat) st" where
  "CBB_add_space d len = st_bind (CBB_flush d) (\<lambda>_. on_base (cbb_buffer_add len))"

definition CBB_reserve :: "nat \<Rightarrow> nat \<Rightarrow> (CBB, nat) st" where
  "CBB_reserve d len =
     st_bind (CBB_flush d) (\<lambda>_. st_bind (on_base (cbb_buffer_reserve len)) (\<lambda>_. base_len))"

definition CBB_did_write :: "nat \<Rightarrow> nat \<Rightarrow> (CBB, unit) st" where
  "CBB_did_write d len s =
     (case cb_base s of
        None \<Rightarrow> (None, s)
      | Some b \<Rightarrow>
          let newlen = szw (bb_len b + len) in
          if Suc d < length (cb_chain s) \<or> newlen < bb_len b \<or> newlen > bb_cap b then (None, s)
          else (Some (), s\<lparr>cb_base := Some (b\<lparr>bb_len := newlen\<rparr>)\<rparr>))"

definition CBB_add_u8 :: "nat \<Rightarrow> u8 \<Rightarrow> (CBB, unit) st" where
  "CBB_add_u8 d value = st_bind (CBB_flush d) (\<lambda>_. on_base (cbb_buffer_add_u (ucast value) 1))"

definition CBB_add_u16 :: "nat \<Rightarrow> u16 \<Rightarrow> (CBB, unit) st" where
  "CBB_add_u16 d value = st_bind (CBB_flush d) (\<lambda>_. on_base (cbb_buffer_add_u (ucast value) 2))"

definition CBB_add_u24 :: "nat \<Rightarrow> u32 \<Rightarrow> (CBB, unit) st" where
  "CBB_add_u24 d value = st_bind (CBB_flush d) (\<lambda>_. on_base (cbb_buffer_add_u value 3))"

definition CBB_add_u32 :: "nat \<Rightarrow> u32 \<Rightarrow> (CBB, unit) st" where
  "CBB_add_u32 d value = st_bind (CBB_flush d) (\<lambda>_. on_base (cbb_buffer_add_u value 4))"

definition CBB_discard_child :: "nat \<Rightarrow> CBB \<Rightarrow> CBB" where
  "CBB_discard_child d s =
     (if \<not> Suc d < length (cb_chain s) then s
      else s\<lparr>cb_base := map_option (\<lambda>b. b\<lparr>bb_len := fr_offset (cb_chain s ! Suc d)\<rparr>) (cb_base s),
             cb_chain := take (Suc d) (cb_chain s)\<rparr>)"

function b128_len_len :: "u64 \<Rightarrow> nat" where
  "b128_len_len copy = (if copy > 0 then Suc (b128_len_len (drop_bit 7 copy)) else 0)"
  by auto
termination
proof (relation "measure unat")
  fix copy :: u64
  assume "copy > 0"
  then have "unat copy div 2 ^ 7 < unat copy"
    by (simp add: word_less_nat_alt div_less_dividend)
  moreover have "unat (drop_bit 7 copy) = unat copy div 2 ^ 7"
    by (subst unat_drop_bit_eq) (rule drop_bit_eq_div)
  ultimately show "(drop_bit 7 copy, copy) \<in> measure unat"
    by (simp only: in_measure)
qed simp

declare b128_len_len.simps [simp del]

primrec add_base128_loop :: "nat \<Rightarrow> u64 \<Rightarrow> nat \<Rightarrow> (CBB, unit) st" where
  "add_base128_loop d v 0 = st_return ()"
| "add_base128_loop d v (Suc i) =
     (let byte = ucast (drop_bit (7 * i) v AND 0x7f);
          byte = (if i \<noteq> 0 then byte OR 0x80 else byte) in
      st_bind (CBB_add_u8 d byte) (\<lambda>_. add_base128_loop d v i))"

definition add_base128_integer :: "nat \<Rightarrow> u64 \<Rightarrow> (CBB, unit) st" where
  "add_base128_integer d v =
     (let len_len = b128_len_len v; len_len = (if len_len = 0 then 1 else len_len) in
      add_base128_loop d v len_len)"

definition CBB_add_asn1 :: "nat \<Rightarrow> u32 \<Rightarrow> (CBB, unit) st" where
  "CBB_add_asn1 d tag =
     st_bind (CBB_flush d) (\<lambda>_.
       let tag_bits = (ucast (drop_bit CBS_ASN1_TAG_SHIFT tag AND 0xe0) :: u8);
           tag_number = tag AND CBS_ASN1_TAG_NUMBER_MASK in
       st_bind (if tag_number \<ge> 0x1f
                then st_bind (CBB_add_u8 d (tag_bits OR 0x1f)) (\<lambda>_. add_base128_integer d (ucast tag_number))
                else CBB_add_u8 d (tag_bits OR ucast tag_number)) (\<lambda>_.
       st_bind base_len (\<lambda>off.
       st_bind (CBB_add_u8 d 0) (\<lambda>_.
       push_child d off 1 True))))"

section \<open>ASN.1 values\<close>

primrec add_uint64_loop :: "nat \<Rightarrow> u64 \<Rightarrow> nat \<Rightarrow> bool \<Rightarrow> (CBB, bool) st" where
  "add_uint64_loop d value 0 started = st_return started"
| "add_uint64_loop d value (Suc j) started =
     (let byte = ucast (drop_bit (8 * j) value AND 0xff) in
      if \<not> started then
        if byte = 0 then add_uint64_loop d value j started
        else st_bind (if byte AND 0x80 \<noteq> 0 then CBB_add_u8 d 0 else st_return ()) (\<lambda>_.
             st_bind (CBB_add_u8 d byte) (\<lambda>_. add_uint64_loop d value j True))
      else st_bind (CBB_add_u8 d byte) (\<lambda>_. add_uint64_loop d value j started))"

definition CBB_add_asn1_uint64 :: "nat \<Rightarrow> u64 \<Rightarrow> (CBB, unit) st" where
  "CBB_add_asn1_uint64 d value =
     st_bind (CBB_add_asn1 d CBS_ASN1_INTEGER) (\<lambda>_.
     st_bind (add_uint64_loop (Suc d) value 8 False) (\<lambda>started.
     st_bind (if \<not> started then CBB_add_u8 (Suc d) 0 else st_return ()) (\<lambda>_.
     CBB_flush d)))"

definition CBB_add_asn1_octet_string :: "nat \<Rightarrow> u8 list \<Rightarrow> (CBB, unit) st" where
  "CBB_add_asn1_octet_string d data =
     st_bind (CBB_add_asn1 d CBS_ASN1_OCTETSTRING) (\<lambda>_.
     st_bind (CBB_add_bytes (Suc d) data) (\<lambda>_. CBB_flush d))"

definition CBB_add_asn1_bool :: "nat \<Rightarrow> int \<Rightarrow> (CBB, unit) st" where
  "CBB_add_asn1_bool d value =
     st_bind (CBB_add_asn1 d CBS_ASN1_BOOLEAN) (\<lambda>_.
     st_bind (CBB_add_u8 (Suc d) (if value \<noteq> 0 then 0xff else 0)) (\<lambda>_. CBB_flush d))"

end
