(* ===== verification/Cbb_Correct.thy ===== *)
theory Cbb_Correct
  imports Cbb
begin

text \<open>
  Correctness of the byte builder.  The abstract state of a chain of builders is a stack of byte
  strings with the kind of the length prefix each one will get; flushing folds the stack.  The
  buffer operations keep the memory invariant, the builder operations refine the stack, and so what
  \<open>CBB_finish\<close> returns is the byte string the calls describe.
\<close>

section \<open>Buffer invariant\<close>

definition bb_inv :: "cbb_buffer \<Rightarrow> bool" where
  "bb_inv b \<longleftrightarrow> length (bb_bytes b) = bb_cap b \<and> bb_len b \<le> bb_cap b \<and> bb_cap b + 8 < 2 ^ 63
     \<and> (bb_buf b = None \<longrightarrow> bb_cap b = 0)"

definition bs_inv :: "buf_state \<Rightarrow> bool" where
  "bs_inv s \<longleftrightarrow> bb_inv (fst s) \<and> heap_sane (snd s)"

definition bb_valid :: "cbb_buffer \<Rightarrow> u8 list" where
  "bb_valid b = take (bb_len b) (bb_bytes b)"

lemma length_bb_valid: "bb_inv b \<Longrightarrow> length (bb_valid b) = bb_len b"
  by (simp add: bb_valid_def bb_inv_def)

lemma cbb_buffer_reserve_ok:
  assumes inv: "bs_inv (b, h)" and len: "len < 2 ^ 63"
    and r: "cbb_buffer_reserve len (b, h) = (res, b', h')"
  shows "bs_inv (b', h') \<and> bb_valid b' = bb_valid b \<and> bb_len b' = bb_len b \<and> hp_ok h' = hp_ok h
    \<and> bb_can_resize b' = bb_can_resize b
    \<and> (res \<noteq> None \<longrightarrow> bb_len b + len \<le> bb_cap b' \<and> bb_error b' = bb_error b)
    \<and> (res = None \<longrightarrow> bb_error b')"
proof -
  have i: "bb_inv b" "heap_sane h" using inv by (auto simp: bs_inv_def)
  have w: "szw (bb_len b + len) = bb_len b + len"
    using i len by (simp add: bb_inv_def)
  show ?thesis
  proof (cases "bb_len b + len > bb_cap b \<and> bb_can_resize b")
    case False
    then show ?thesis
      using r inv by (auto simp: cbb_buffer_reserve_def w Let_def bs_inv_def bb_inv_def bb_valid_def bb_bytes_def
          split: if_splits)
  next
    case True
    define nc where "nc = (if bb_cap b * 2 < bb_len b + len then bb_len b + len else bb_cap b * 2)"
    have c2: "szw (bb_cap b * 2) = bb_cap b * 2" using i(1) by (simp add: bb_inv_def)
    have nc: "bb_len b + len \<le> nc" "nc + 8 < 2 ^ 64" "bb_cap b \<le> nc"
      using i len by (auto simp: nc_def bb_inv_def)
    obtain p h1 where p: "mem_realloc (bb_buf b) nc h = (p, h1)" by fastforce
    have ok: "hp_ok h1 = hp_ok h" using p by (rule mem_realloc_hp_ok)
    have nc': "(if bb_cap b * 2 < bb_cap b \<or> bb_cap b * 2 < bb_len b + len then bb_len b + len
        else bb_cap b * 2) = nc" by (simp add: nc_def)
    have run: "cbb_buffer_reserve len (b, h) = (case p of
        None \<Rightarrow> (None, b\<lparr>bb_error := True\<rparr>, h1)
      | Some nb \<Rightarrow> (Some (), b\<lparr>bb_buf := Some nb, bb_cap := nc\<rparr>, h1))"
      unfolding cbb_buffer_reserve_def prod.case Let_def w c2 nc' p using True by simp
    show ?thesis
    proof (cases p)
      case None
      then have "b' = b\<lparr>bb_error := True\<rparr>" "h' = h1" "res = None"
        using r by (auto simp: run)
      then show ?thesis
        using i ok by (auto simp: bs_inv_def bb_inv_def bb_valid_def bb_bytes_def heap_sane_def)
    next
      case (Some nb)
      then have b': "b' = b\<lparr>bb_buf := Some nb, bb_cap := nc\<rparr>" "h' = h1" "res = Some ()"
        using r by (auto simp: run)
      have l: "length nb = nc" using p Some mem_realloc_length nc(2) by blast
      have s: "nc + 8 < 2 ^ 63" using p Some mem_realloc_sane nc(2) i(2) by blast
      have "take (bb_len b) nb = take (bb_len b) (bb_bytes b)"
      proof (cases "bb_buf b")
        case None
        then show ?thesis using i(1) by (simp add: bb_inv_def bb_bytes_def)
      next
        case old: (Some old)
        then show ?thesis
          using mem_realloc_contents [OF p [unfolded Some] nc(2) old, of "bb_len b"] i(1) nc(3)
          by (simp add: bb_inv_def bb_bytes_def)
      qed
      then show ?thesis
        using i ok l s nc b' by (auto simp: bs_inv_def bb_inv_def bb_valid_def bb_bytes_def heap_sane_def)
    qed
  qed
qed

lemma cbb_buffer_add_ok:
  assumes inv: "bs_inv (b, h)" and len: "len < 2 ^ 63"
    and r: "cbb_buffer_add len (b, h) = (res, b', h')"
  shows "bs_inv (b', h') \<and> hp_ok h' = hp_ok h \<and> bb_can_resize b' = bb_can_resize b
    \<and> (case res of None \<Rightarrow> bb_error b' \<and> bb_valid b' = bb_valid b
       | Some off \<Rightarrow> off = bb_len b \<and> bb_len b' = bb_len b + len \<and> bb_error b' = bb_error b
           \<and> (\<exists>j. length j = len \<and> bb_valid b' = bb_valid b @ j))"
proof -
  obtain r1 b1 h1 where 1: "cbb_buffer_reserve len (b, h) = (r1, b1, h1)" by (metis prod_cases3)
  note k = cbb_buffer_reserve_ok [OF inv len 1]
  show ?thesis
  proof (cases r1)
    case None
    then show ?thesis using k r 1 by (auto simp: cbb_buffer_add_def)
  next
    case (Some u)
    have b': "res = Some (bb_len b1)" "b' = b1\<lparr>bb_len := szw (bb_len b1 + len)\<rparr>" "h' = h1"
      using r 1 Some by (auto simp: cbb_buffer_add_def)
    have w: "szw (bb_len b1 + len) = bb_len b + len" using k Some by (simp add: bs_inv_def bb_inv_def)
    have "bb_valid b' = bb_valid b @ take len (drop (bb_len b) (bb_bytes b1))"
    proof -
      have v: "take (bb_len b) (bb_bytes b1) = bb_valid b" using k by (metis bb_valid_def)
      have "bb_valid b' = take (bb_len b + len) (bb_bytes b1)"
        using w by (simp add: b' bb_valid_def bb_bytes_def)
      then show ?thesis by (simp only: take_add v)
    qed
    moreover have "length (take len (drop (bb_len b) (bb_bytes b1))) = len"
      using k Some by (auto simp: bs_inv_def bb_inv_def min_def)
    moreover have "bs_inv (b', h')"
      using k Some by (simp add: b' w bs_inv_def bb_inv_def bb_bytes_def)
    ultimately show ?thesis using k Some b' w by auto
  qed
qed

text \<open>A buffer that may grow on a heap that serves every request up to \<open>2 ^ 63\<close> bytes; while the contents
  stay below \<open>2 ^ 61\<close> bytes no allocation of the builder fails.\<close>

definition roomy :: "buf_state \<Rightarrow> bool" where
  "roomy s \<longleftrightarrow> bb_can_resize (fst s) \<and> bb_cap (fst s) < 2 ^ 62 \<and> (\<forall>t n. n < 2 ^ 63 \<longrightarrow> hp_ok (snd s) t n)"

lemma mem_malloc_roomy: "(\<forall>t n. n < 2 ^ 63 \<longrightarrow> hp_ok h t n) \<Longrightarrow> n + 8 < 2 ^ 63 \<Longrightarrow> \<exists>c h'. mem_malloc n h = (Some c, h')"
  by (simp add: mem_malloc_def c_malloc_def Let_def OPENSSL_MALLOC_PREFIX_def)

lemma mem_realloc_roomy:
  assumes "\<forall>t n. n < 2 ^ 63 \<longrightarrow> hp_ok h t n" "n + 8 < 2 ^ 63"
  shows "\<exists>c h'. mem_realloc p n h = (Some c, h')"
  using mem_malloc_roomy [OF assms] by (auto simp: mem_realloc_def split: option.splits)

lemma cbb_buffer_reserve_roomy:
  assumes "bs_inv (b, h)" "roomy (b, h)" "bb_len b + len < 2 ^ 61"
  shows "\<exists>b' h'. cbb_buffer_reserve len (b, h) = (Some (), b', h') \<and> roomy (b', h')"
proof (cases "bb_len b + len > bb_cap b")
  case False
  then show ?thesis using assms by (auto simp: cbb_buffer_reserve_def Let_def)
next
  case True
  let ?nc = "if bb_cap b * 2 < bb_len b + len then bb_len b + len else bb_cap b * 2"
  have nc: "?nc < 2 ^ 62" using True assms(3) by auto
  then obtain nb h1 where m: "mem_realloc (bb_buf b) ?nc h = (Some nb, h1)"
    using mem_realloc_roomy [of h ?nc] assms(2) by (fastforce simp: roomy_def)
  have w: "szw (bb_len b + len) = bb_len b + len" "szw (bb_cap b * 2) = bb_cap b * 2"
    using assms by (auto simp: roomy_def)
  have nc': "(if bb_cap b * 2 < bb_cap b \<or> bb_cap b * 2 < bb_len b + len then bb_len b + len
      else bb_cap b * 2) = ?nc" by simp
  have "cbb_buffer_reserve len (b, h) = (Some (), b\<lparr>bb_buf := Some nb, bb_cap := ?nc\<rparr>, h1)"
    unfolding cbb_buffer_reserve_def prod.case Let_def w nc' m using True assms(2) by (simp add: roomy_def)
  then show ?thesis
    using assms(2) nc mem_realloc_hp_ok [OF m] by (simp add: roomy_def)
qed

lemma cbb_buffer_add_roomy:
  assumes "bs_inv (b, h)" "roomy (b, h)" "bb_len b + len < 2 ^ 61"
  shows "\<exists>p b' h'. cbb_buffer_add len (b, h) = (Some p, b', h') \<and> roomy (b', h')"
  using cbb_buffer_reserve_roomy [OF assms] by (auto simp: cbb_buffer_add_def roomy_def)

section \<open>Writing into the buffer\<close>

lemma write_be_eq:
  "off + n \<le> length buf \<Longrightarrow> fst (write_be buf off n v) = memcpy_at buf off (be_enc n v)"
proof (induction n arbitrary: buf v)
  case 0
  then show ?case by (simp add: memcpy_at_def)
next
  case (Suc i)
  have "memcpy_at (buf[off + i := x]) off (be_enc i y) = memcpy_at buf off (be_enc i y @ [x])" for x y
    using Suc.prems by (simp add: memcpy_at_def drop_update_cancel Cons_nth_drop_Suc [symmetric] del: drop_drop)
  then show ?case using Suc by simp
qed

lemma write_be_left: "snd (write_be buf off n v) = v div 256 ^ n"
  by (induction n arbitrary: buf v) (simp_all add: div_mult2_eq)

lemma bb_write_simps [simp]:
  "bb_len (bb_write f b) = bb_len b" "bb_cap (bb_write f b) = bb_cap b"
  "bb_error (bb_write f b) = bb_error b" "bb_can_resize (bb_write f b) = bb_can_resize b"
  by (simp_all add: bb_write_def)

lemma bb_bytes_write: "bb_inv b \<Longrightarrow> 0 < bb_cap b \<Longrightarrow> bb_bytes (bb_write f b) = f (bb_bytes b)"
  by (cases "bb_buf b") (simp_all add: bb_inv_def bb_bytes_def bb_write_def)

lemma bb_write_inv:
  assumes "bs_inv (b, h)" "length (f (bb_bytes b)) = length (bb_bytes b)"
  shows "bs_inv (bb_write f b, h)"
  using assms by (cases "bb_buf b") (auto simp: bs_inv_def bb_inv_def bb_bytes_def bb_write_def)

text \<open>Storing \<open>d\<close> at an offset replaces that part of the valid bytes.\<close>

lemma take_memcpy_at_mid:
  assumes "take n B = u @ x @ v" "length x = length d" "n \<le> length B"
  shows "take n (memcpy_at B (length u) d) = u @ d @ v"
proof -
  have B: "B = (u @ x @ v) @ drop n B" using assms(1) append_take_drop_id [of n B] by simp
  have n: "n = length u + length x + length v"
    using assms(1,3) by (metis add.assoc length_append length_take min_absorb2)
  have "memcpy_at B (length u) d = u @ d @ v @ drop n B"
    by (subst B) (simp add: memcpy_at_def assms(2))
  then show ?thesis using n assms(2) by simp
qed

lemma bb_valid_write:
  assumes "bs_inv (b, h)" "bb_valid b = u @ x @ v" "length x = length d" "off = length u"
    and "f (bb_bytes b) = memcpy_at (bb_bytes b) off d"
  shows "bb_valid (bb_write f b) = u @ d @ v" "bs_inv (bb_write f b, h)"
proof -
  have i: "bb_inv b" using assms(1) by (simp add: bs_inv_def)
  have l: "bb_len b = length u + length d + length v"
    using length_bb_valid [OF i] assms(2,3) by simp
  have c: "bb_len b \<le> length (bb_bytes b)" using i by (simp add: bb_inv_def)
  show "bs_inv (bb_write f b, h)"
    using assms(1,4,5) c l by (intro bb_write_inv) simp_all
  show "bb_valid (bb_write f b) = u @ d @ v"
  proof (cases "bb_cap b = 0")
    case True
    then have "bb_len b = 0" using i by (simp add: bb_inv_def)
    then show ?thesis using l by (simp add: bb_valid_def)
  next
    case False
    then show ?thesis
      using take_memcpy_at_mid [of "bb_len b" "bb_bytes b" u x v d] assms(2-5) c bb_bytes_write [OF i]
      by (simp add: bb_valid_def)
  qed
qed

section \<open>The abstract stack\<close>

text \<open>The kind of a builder's pending prefix, and what flushing it makes of its contents.\<close>

datatype prefix = Plain nat | Asn1

primrec prefix_len :: "prefix \<Rightarrow> nat" where
  "prefix_len (Plain k) = k"
| "prefix_len Asn1 = 1"

primrec prefix_enc :: "prefix \<Rightarrow> u8 list \<Rightarrow> u8 list" where
  "prefix_enc (Plain k) c = be_enc k (length c) @ c"
| "prefix_enc Asn1 c = der_len (length c) @ c"

primrec prefix_fits :: "prefix \<Rightarrow> nat \<Rightarrow> bool" where
  "prefix_fits (Plain k) n \<longleftrightarrow> n < 256 ^ k"
| "prefix_fits Asn1 n \<longleftrightarrow> n < 0xffffffff"

definition frame_kind :: "cbb_frame \<Rightarrow> prefix" where
  "frame_kind f = (if fr_pending_is_asn1 f then Asn1 else Plain (fr_pending_len_len f))"

definition frame_ok :: "cbb_frame \<Rightarrow> bool" where
  "frame_ok f \<longleftrightarrow> 0 < fr_pending_len_len f \<and> fr_pending_len_len f \<le> 4
     \<and> (fr_pending_is_asn1 f \<longrightarrow> fr_pending_len_len f = 1)"

lemma flush_prefix_ok:
  assumes inv: "bs_inv (b, h)" and v: "bb_valid b = u @ x @ w" and x: "length x = pll"
    and r: "flush_prefix (length u) pll len (b, h) = (res, b', h')"
  shows "bs_inv (b', h') \<and> h' = h \<and> bb_can_resize b' = bb_can_resize b
    \<and> bb_cap b' = bb_cap b
    \<and> (if len < 256 ^ pll then res = Some () \<and> bb_error b' = bb_error b \<and> bb_valid b' = u @ be_enc pll len @ w
       else res = None \<and> bb_error b')"
proof -
  have i: "bb_inv b" using inv by (simp add: bs_inv_def)
  have "length u + pll \<le> length (bb_bytes b)"
    using length_bb_valid [OF i] v x i by (simp add: bb_inv_def)
  then have f: "fst (write_be (bb_bytes b) (length u) pll len) = memcpy_at (bb_bytes b) (length u) (be_enc pll len)"
    by (rule write_be_eq)
  note k = bb_valid_write [OF inv v, of "be_enc pll len" "length u"
      "\<lambda>buf. fst (write_be buf (length u) pll len)", simplified, OF x f]
  show ?thesis
    using r k by (auto simp: flush_prefix_def write_be_left bb_fail_def Let_def div_eq_0_iff bs_inv_def bb_inv_def
        bb_bytes_def split: if_splits)
qed

lemma asn1_len_form_der:
  "asn1_len_form n = (if n < 0xffffffff then
      Some (length (der_len n), hd (der_len n), if n < 128 then 0 else n) else None)"
  "n < 0xffffffff \<Longrightarrow> der_len n = hd (der_len n) # be_enc (length (der_len n) - 1) (if n < 128 then 0 else n)"
  "n < 0xffffffff \<Longrightarrow> (if n < 128 then 0 else n) < 256 ^ (length (der_len n) - 1)"
  by (auto simp: asn1_len_form_def der_len_def len_bytes_def)

lemma bb_fail_ok: "bs_inv s \<Longrightarrow> bs_inv (snd (bb_fail s)) \<and> fst (bb_fail s) = None
    \<and> bb_error (fst (snd (bb_fail s))) \<and> snd (snd (bb_fail s)) = snd s
    \<and> bb_can_resize (fst (snd (bb_fail s))) = bb_can_resize (fst s)"
  by (simp add: bb_fail_def bs_inv_def bb_inv_def bb_bytes_def)

definition flushed :: "buf_state \<Rightarrow> u8 list \<Rightarrow> bool \<Rightarrow> unit option \<times> buf_state \<Rightarrow> bool" where
  "flushed s v fits r \<longleftrightarrow> bs_inv (snd r) \<and> hp_ok (snd (snd r)) = hp_ok (snd s)
     \<and> bb_can_resize (fst (snd r)) = bb_can_resize (fst s)
     \<and> (fst r \<noteq> None \<longrightarrow> fits \<and> \<not> bb_error (fst (snd r)) \<and> bb_valid (fst (snd r)) = v)
     \<and> (fst r = None \<longrightarrow> bb_error (fst (snd r)))
     \<and> (roomy s \<and> fits \<and> length v < 2 ^ 61 \<longrightarrow> fst r \<noteq> None \<and> roomy (snd r))"

lemma flushed_fail: "\<not> (roomy s \<and> fits \<and> length v < 2 ^ 61) \<Longrightarrow> bs_inv s' \<Longrightarrow> hp_ok (snd s') = hp_ok (snd s) \<Longrightarrow> bb_can_resize (fst s') = bb_can_resize (fst s)
    \<Longrightarrow> flushed s v fits (bb_fail s')"
  using bb_fail_ok [of s'] by (auto simp: flushed_def)

lemma list_update_memcpy: "i < length B \<Longrightarrow> B[i := y] = memcpy_at B i [y]"
  by (simp add: memcpy_at_def upd_conv_take_nth_drop)

lemma step_prefix:
  assumes "bs_inv (b, h)" "bb_valid b = u @ x @ w" "left < 256 ^ length x" "\<not> bb_error b" "n = length u"
    "hp_ok h = hp_ok (snd s)" "bb_can_resize b = bb_can_resize (fst s)"
    "roomy s \<Longrightarrow> length (u @ x @ w) < 2 ^ 61 \<Longrightarrow> roomy (b, h)"
  shows "flushed s (u @ be_enc (length x) left @ w) True (flush_prefix n (length x) left (b, h))"
proof -
  obtain r b' h' where r: "flush_prefix (length u) (length x) left (b, h) = (r, b', h')" by (metis prod_cases3)
  then show ?thesis using flush_prefix_ok [OF assms(1,2) refl r] assms by (auto simp: flushed_def roomy_def)
qed

lemma memmove_header:
  assumes inv: "bs_inv (b, h)" and v: "bb_valid b = u @ x @ body @ j" and x: "length x = 1" and j: "length j = e"
  shows "\<exists>y. length y = e
    \<and> bb_valid (bb_write (\<lambda>buf. (memcpy_at buf (length u + length x + e)
          (take (length body) (drop (length u + length x) buf)))[length u := l0]) b) = (u @ [l0]) @ y @ body
    \<and> bs_inv (bb_write (\<lambda>buf. (memcpy_at buf (length u + length x + e)
          (take (length body) (drop (length u + length x) buf)))[length u := l0]) b, h)"
proof -
  let ?g = "\<lambda>buf. memcpy_at buf (length u + length x + e) (take (length body) (drop (length u + length x) buf))"
  define y where "y = take e (body @ j)"
  define z where "z = drop e (body @ j)"
  have i: "bb_inv b" using inv by (simp add: bs_inv_def)
  have len: "bb_len b = length u + 1 + length body + e" using length_bb_valid [OF i] v x j by simp
  have bd: "take (length body) (drop (length u + length x) (bb_bytes b)) = body"
  proof -
    have "drop (length u + length x) (bb_valid b) = body @ j" using v by simp
    then have "take (length body) (drop (length u + length x) (bb_valid b)) = body" by simp
    then show ?thesis using len x by (simp add: bb_valid_def drop_take min_def split: if_splits)
  qed
  have v1: "bb_valid b = (u @ x @ y) @ z @ []" using v append_take_drop_id [of e "body @ j"]
    by (simp add: y_def z_def del: take_append drop_append append_take_drop_id)
  have lz: "length z = length body" and ly: "length y = e" using j by (simp_all add: y_def z_def)
  have "?g (bb_bytes b) = memcpy_at (bb_bytes b) (length (u @ x @ y)) body" using bd ly by (simp add: add.assoc)
  note s1 = bb_valid_write [where f = ?g, OF inv v1 lz refl this]
  have lt: "length u < length (bb_bytes (bb_write ?g b))"
    using s1(2) len by (simp add: bs_inv_def bb_inv_def)
  have v2: "bb_valid (bb_write ?g b) = u @ x @ (y @ body)" using s1(1) by simp
  have x': "length x = length [l0]" using x by simp
  note s2 = bb_valid_write [where f = "\<lambda>buf. buf[length u := l0]", OF s1(2) v2 x' refl list_update_memcpy [OF lt]]
  have c: "bb_write (\<lambda>buf. (?g buf)[length u := l0]) b = bb_write (\<lambda>buf. buf[length u := l0]) (bb_write ?g b)"
    by (cases "bb_buf b") (simp_all add: bb_write_def)
  show ?thesis unfolding c using s2 ly by (intro exI [of _ y]) simp
qed

lemma flush_child_ok:
  assumes inv: "bs_inv (b, h)" and ne: "\<not> bb_error b" and ok: "frame_ok c" and off: "fr_offset c = length u"
    and v: "bb_valid b = u @ x @ body" and x: "length x = fr_pending_len_len c"
  shows "flushed (b, h) (u @ prefix_enc (frame_kind c) body) (prefix_fits (frame_kind c) (length body))
    (flush_child c (b, h))"
proof -
  have i: "bb_inv b" using inv by (simp add: bs_inv_def)
  have len: "bb_len b = length u + length x + length body" using length_bb_valid [OF i] v by simp
  have cs: "szw (length u + fr_pending_len_len c) = length u + length x"
    using len i x by (simp add: bb_inv_def)
  have nf: "\<not> (length u + length x < length u \<or> bb_len b < length u + length x)" and bl: "bb_len b - (length u + length x) = length body"
    using len by auto
  show ?thesis
  proof (cases "fr_pending_is_asn1 c")
    case False
    obtain r b' h' where r: "flush_prefix (length u) (length x) (length body) (b, h) = (r, b', h')" by (metis prod_cases3)
    have "flush_child c (b, h) = (r, b', h')"
      using False nf bl r unfolding flush_child_def Let_def fst_conv off cs by (simp add: x)
    then show ?thesis
      using flush_prefix_ok [OF inv v refl r] False ne x
      by (auto simp: flushed_def frame_kind_def roomy_def split: if_splits)
  next
    case True
    then have x1: "length x = 1" and k: "frame_kind c = Asn1" using ok x by (auto simp: frame_ok_def frame_kind_def)
    let ?n = "length body"
    show ?thesis
    proof (cases "?n < 0xffffffff")
      case False
      then have "flush_child c (b, h) = bb_fail (b, h)"
        using True nf bl unfolding flush_child_def Let_def fst_conv off cs by (simp add: asn1_len_form_der(1))
      then show ?thesis using flushed_fail [OF _ inv] False k by simp
    next
      case fits: True
      define L where "L = length (der_len ?n)"
      define l0 where "l0 = hd (der_len ?n)"
      define left where "left = (if ?n < 128 then 0 else ?n)"
      have form: "asn1_len_form ?n = Some (L, l0, left)"
        using fits by (simp add: asn1_len_form_der(1) L_def l0_def left_def)
      have enc: "der_len ?n = l0 # be_enc (L - 1) left" and lt: "left < 256 ^ (L - 1)"
        using asn1_len_form_der(2,3) [OF fits] by (simp_all add: L_def l0_def left_def)
      have step: "flush_child c (b, h) = (if L \<noteq> 1 then
                 (case cbb_buffer_add (L - 1) (b, h) of
                    (None, s') \<Rightarrow> bb_fail s'
                  | (Some _, (b, h)) \<Rightarrow> flush_prefix (length u + 1) (L - 1) left
                        (bb_write (\<lambda>buf. (memcpy_at buf (length u + length x + (L - 1))
                                  (take ?n (drop (length u + length x) buf)))[length u := l0]) b, h))
               else flush_prefix (length u + 1) (L - 1) left (bb_write (\<lambda>buf. buf[length u := l0]) b, h))"
        using True nf bl unfolding flush_child_def Let_def fst_conv snd_conv off cs bl form option.case prod.case by simp
      show ?thesis
      proof (cases "L = 1")
        case True
        have f: "(bb_bytes b)[length u := l0] = memcpy_at (bb_bytes b) (length u) [l0]"
          using i len x1 by (intro list_update_memcpy) (simp add: bb_inv_def)
        have x': "length x = length [l0]" using x1 by simp
        note w = bb_valid_write [where f = "\<lambda>buf. buf[length u := l0]", OF inv v x' refl f]
        have vw: "bb_valid (bb_write (\<lambda>buf. buf[length u := l0]) b) = (u @ [l0]) @ [] @ body" using w(1) by simp
        have "flushed (b, h) ((u @ [l0]) @ be_enc (length []) left @ body) True (flush_child c (b, h))"
          using step_prefix [OF w(2) vw, of left "length u + 1" "(b, h)"] lt True ne by (simp add: step roomy_def)
        then show ?thesis using fits True by (simp add: k enc)
      next
        case False
        obtain r b1 h1 where r: "cbb_buffer_add (L - 1) (b, h) = (r, b1, h1)" by (metis prod_cases3)
        have L1: "1 \<le> L" by (simp add: L_def der_len_def)
        have "L - 1 < 2 ^ 63" by (simp add: L_def der_len_def len_bytes_def)
        note a = cbb_buffer_add_ok [OF inv this r]
        show ?thesis
        proof (cases r)
          case None
          have "\<not> (roomy (b, h) \<and> length (u @ prefix_enc (frame_kind c) body) < 2 ^ 61)"
            using cbb_buffer_add_roomy [OF inv, of "L - 1"] r None len x1 L1 by (auto simp: k simp flip: L_def)
          then show ?thesis using a r False None by (simp add: step flushed_fail)
        next
          case (Some p)
          then obtain j where j: "length j = L - 1" "bb_valid b1 = u @ x @ body @ j" and e1: "\<not> bb_error b1"
            using a v ne by auto
          have j': "bb_valid b1 = u @ x @ body @ j" using j by simp
          have i1: "bs_inv (b1, h1)" using a by simp
          obtain y where y: "length y = L - 1"
            and vy: "bb_valid (bb_write (\<lambda>buf. (memcpy_at buf (length u + length x + (L - 1))
                (take ?n (drop (length u + length x) buf)))[length u := l0]) b1) = (u @ [l0]) @ y @ body"
            and iy: "bs_inv (bb_write (\<lambda>buf. (memcpy_at buf (length u + length x + (L - 1))
                (take ?n (drop (length u + length x) buf)))[length u := l0]) b1, h1)"
            using memmove_header [OF i1 j' x1 j(1)] by blast
          have rm: "roomy (b, h) \<Longrightarrow> length ((u @ [l0]) @ y @ body) < 2 ^ 61 \<Longrightarrow> roomy (b1, h1)"
            using cbb_buffer_add_roomy [OF inv, of "L - 1"] r len x1 y by auto
          have "flushed (b, h) ((u @ [l0]) @ be_enc (length y) left @ body) True (flush_child c (b, h))"
            using rm step_prefix [OF iy vy, of left "length u + 1" "(b, h)"] y lt e1 a r Some False
            by (simp add: step roomy_def)
          then show ?thesis using fits y by (simp add: k enc)
        qed
      qed
    qed
  qed
qed

text \<open>\<open>chain_rep pos fs cs bs\<close>: the frames \<open>fs\<close> lie one inside the other from position \<open>pos\<close> of the buffer
  on, with the contents \<open>cs\<close> written so far between their (still blank) prefixes.\<close>

fun chain_rep :: "nat \<Rightarrow> cbb_frame list \<Rightarrow> u8 list list \<Rightarrow> u8 list \<Rightarrow> bool" where
  "chain_rep pos [] cs bs \<longleftrightarrow> cs = [] \<and> bs = []"
| "chain_rep pos (f # fs) [] bs \<longleftrightarrow> False"
| "chain_rep pos (f # fs) (c # cs) bs \<longleftrightarrow> frame_ok f \<and> fr_offset f = pos
     \<and> (\<exists>x rest. bs = x @ c @ rest \<and> length x = fr_pending_len_len f
          \<and> chain_rep (pos + length x + length c) fs cs rest)"

fun chain_enc :: "cbb_frame list \<Rightarrow> u8 list list \<Rightarrow> u8 list" where
  "chain_enc (f # fs) (c # cs) = prefix_enc (frame_kind f) (c @ chain_enc fs cs)"
| "chain_enc fs cs = []"

fun chain_fits :: "cbb_frame list \<Rightarrow> u8 list list \<Rightarrow> bool" where
  "chain_fits (f # fs) (c # cs) \<longleftrightarrow> prefix_fits (frame_kind f) (length (c @ chain_enc fs cs)) \<and> chain_fits fs cs"
| "chain_fits fs cs \<longleftrightarrow> True"

lemma length_prefix_enc: "length c + fr_pending_len_len f \<le> length (prefix_enc (frame_kind f) c)" if "frame_ok f"
  using that by (auto simp: frame_kind_def frame_ok_def der_len_def)

lemma flush_chain_ok:
  assumes "bs_inv (b, h)" "\<not> bb_error b" "bb_valid b = u @ bs" "chain_rep (length u) fs cs bs"
    and "flush_chain fs (b, h) = (r, fs', s')"
  shows "flushed (b, h) (u @ chain_enc fs cs) (chain_fits fs cs) (r, s') \<and> (r \<noteq> None \<longrightarrow> fs' = [])"
  using assms(3-5)
proof (induction fs arbitrary: u cs bs r fs' s')
  case Nil
  then show ?case using assms(1,2) by (auto simp: flushed_def)
next
  case (Cons f fs)
  then obtain c cs0 where cs: "cs = c # cs0" by (cases cs) auto
  obtain x rest where f: "frame_ok f" "fr_offset f = length u" and bs: "bs = x @ c @ rest"
    and x: "length x = fr_pending_len_len f" and rep: "chain_rep (length u + length x + length c) fs cs0 rest"
    using Cons.prems(2) by (auto simp: cs)
  obtain r1 fs1 b1 h1 where 1: "flush_chain fs (b, h) = (r1, fs1, b1, h1)" by (metis prod_cases4)
  have v: "bb_valid b = (u @ x @ c) @ rest" using Cons.prems(1) bs by simp
  have ih: "flushed (b, h) ((u @ x @ c) @ chain_enc fs cs0) (chain_fits fs cs0) (r1, b1, h1)"
    using Cons.IH [OF v _ 1, of cs0] rep by (simp add: add.assoc)
  have pos: "fr_pending_len_len f \<noteq> 0" using f by (simp add: frame_ok_def)
  have le: "length (u @ x @ c @ chain_enc fs cs0) \<le> length (u @ prefix_enc (frame_kind f) (c @ chain_enc fs cs0))"
    using length_prefix_enc [OF f(1), of "c @ chain_enc fs cs0"] x by simp
  show ?case
  proof (cases r1)
    case None
    have "(r, s') = bb_fail (b1, h1)"
      using Cons.prems(3) 1 None pos assms(2) by (auto simp: bb_fail_def)
    moreover have "flushed (b, h) (u @ chain_enc (f # fs) cs) (chain_fits (f # fs) cs) (bb_fail (b1, h1))"
      by (rule flushed_fail) (use ih None le in \<open>auto simp: flushed_def cs\<close>)
    moreover have "r = None" using calculation(1) by (simp add: bb_fail_def)
    ultimately show ?thesis by simp
  next
    case (Some t)
    have b1: "bs_inv (b1, h1)" "\<not> bb_error b1" "bb_valid b1 = u @ x @ (c @ chain_enc fs cs0)"
      using ih Some by (auto simp: flushed_def)
    note fc = flush_child_ok [OF b1(1,2) f b1(3) x]
    have "(r, s') = flush_child f (b1, h1) \<and> (r \<noteq> None \<longrightarrow> fs' = [])"
      using Cons.prems(3) 1 Some pos assms(2) by (auto split: prod.splits option.splits)
    moreover have "flushed (b, h) (u @ chain_enc (f # fs) cs) (chain_fits (f # fs) cs) (flush_child f (b1, h1))"
      using fc ih le Some by (auto simp: flushed_def cs)
    ultimately show ?thesis by simp
  qed
qed

end
