(* ===== verification/Cbb_Refine.thy ===== *)
theory Cbb_Refine
  imports Cbb_Correct
begin

text \<open>
  The builder operations refine a stack of byte strings.  A stack \<open>(ks, cs)\<close> has the contents \<open>cs\<close> of
  the open builders, outermost first, and the kinds \<open>ks\<close> of the prefixes of all but the outermost;
  \<open>full ks cs\<close> is the byte string that closing all of them yields.
\<close>

section \<open>Stacks\<close>

type_synonym stack = "prefix list \<times> u8 list list"

fun full :: "prefix list \<Rightarrow> u8 list list \<Rightarrow> u8 list" where
  "full ks [] = []"
| "full [] (c # cs) = c"
| "full (k # ks) (c # cs) = c @ prefix_enc k (full ks cs)"

fun full_fits :: "prefix list \<Rightarrow> u8 list list \<Rightarrow> bool" where
  "full_fits (k # ks) (c # cs) \<longleftrightarrow> prefix_fits k (length (full ks cs)) \<and> full_fits ks cs"
| "full_fits ks cs \<longleftrightarrow> True"

definition append_last :: "u8 list list \<Rightarrow> u8 list \<Rightarrow> u8 list list" where
  "append_last cs d = butlast cs @ [last cs @ d]"

definition sk_flush :: "nat \<Rightarrow> stack \<Rightarrow> stack" where
  "sk_flush d A = (take d (fst A), take d (snd A) @ [full (drop d (fst A)) (drop d (snd A))])"

definition sk_add :: "nat \<Rightarrow> u8 list \<Rightarrow> stack \<Rightarrow> stack" where
  "sk_add d bs A = (fst (sk_flush d A), append_last (snd (sk_flush d A)) bs)"

definition sk_push :: "nat \<Rightarrow> prefix \<Rightarrow> stack \<Rightarrow> stack" where
  "sk_push d k A = (fst (sk_flush d A) @ [k], snd (sk_flush d A) @ [[]])"

definition sk_fits :: "nat \<Rightarrow> stack \<Rightarrow> bool" where
  "sk_fits d A = full_fits (drop d (fst A)) (drop d (snd A))"

definition sk_size :: "stack \<Rightarrow> nat" where
  "sk_size A = length (full (fst A) (snd A))"

lemma full_append:
  "length cs = length ks \<Longrightarrow> ds \<noteq> [] \<Longrightarrow> full (ks @ js) (cs @ ds) = full ks (cs @ [full js ds])"
  by (induction ks cs rule: full.induct) (auto simp: neq_Nil_conv)

lemma length_prefix_enc_mono: "length a \<le> length b \<Longrightarrow> length (prefix_enc k a) \<le> length (prefix_enc k b)"
  by (cases k) (auto simp: der_len_def len_bytes_def)

lemma length_full_mono:
  "length cs = length ks \<Longrightarrow> length a \<le> length b \<Longrightarrow> length (full ks (cs @ [a])) \<le> length (full ks (cs @ [b]))"
  by (induction ks cs rule: full.induct) (auto intro: length_prefix_enc_mono)

lemma append_last_snoc [simp]: "append_last (cs @ [c]) d = cs @ [c @ d]"
  by (simp add: append_last_def)

lemma chain_enc_full: "c0 @ chain_enc fs cs = full (map frame_kind fs) (c0 # cs)" if "length cs = length fs"
  using that by (induction fs cs arbitrary: c0 rule: chain_enc.induct) auto

lemma chain_fits_full: "chain_fits fs cs = full_fits (map frame_kind fs) (c0 # cs)" if "length cs = length fs"
  using that
proof (induction fs cs arbitrary: c0 rule: chain_enc.induct)
  case (1 f fs c cs)
  then show ?case using chain_enc_full [of cs fs c] by (simp del: length_append)
qed auto

section \<open>Layout of the buffer\<close>

lemma chain_rep_length: "chain_rep pos fs cs bs \<Longrightarrow> length cs = length fs"
  by (induction pos fs cs bs rule: chain_rep.induct) auto

lemma chain_rep_ConsI:
  "frame_ok f \<Longrightarrow> fr_offset f = pos \<Longrightarrow> length x = fr_pending_len_len f
     \<Longrightarrow> chain_rep (pos + length x + length c) fs cs rest \<Longrightarrow> chain_rep pos (f # fs) (c # cs) (x @ c @ rest)"
  unfolding chain_rep.simps by blast

lemma chain_rep_append:
  "chain_rep pos (fs @ gs) cs bs \<Longrightarrow>
     \<exists>b1 b2. bs = b1 @ b2 \<and> chain_rep pos fs (take (length fs) cs) b1
        \<and> chain_rep (pos + length b1) gs (drop (length fs) cs) b2"
proof (induction fs arbitrary: pos cs bs)
  case Nil
  then show ?case by auto
next
  case (Cons f fs)
  then obtain c cs0 x rest where c: "cs = c # cs0" "bs = x @ c @ rest" "length x = fr_pending_len_len f"
    "frame_ok f" "fr_offset f = pos" "chain_rep (pos + length x + length c) (fs @ gs) cs0 rest"
    by (cases cs) auto
  from Cons.IH [OF c(6)] obtain b1 b2 where b: "rest = b1 @ b2"
    "chain_rep (pos + length x + length c) fs (take (length fs) cs0) b1"
    "chain_rep (pos + length x + length c + length b1) gs (drop (length fs) cs0) b2" by blast
  have "chain_rep pos (f # fs) (c # take (length fs) cs0) (x @ c @ b1)"
    using c b(2) by (intro chain_rep_ConsI)
  moreover have "chain_rep (pos + length (x @ c @ b1)) gs (drop (length fs) cs0) b2"
    using b(3) by (simp add: add.assoc)
  moreover have "bs = (x @ c @ b1) @ b2" using c(2) b(1) by simp
  ultimately show ?case unfolding c(1) length_Cons take_Suc_Cons drop_Suc_Cons by blast
qed

lemma chain_rep_snoc:
  "chain_rep pos fs cs bs \<Longrightarrow> frame_ok f \<Longrightarrow> fr_offset f = pos + length bs \<Longrightarrow> length x = fr_pending_len_len f
     \<Longrightarrow> chain_rep pos (fs @ [f]) (cs @ [[]]) (bs @ x)"
proof (induction pos fs cs bs rule: chain_rep.induct)
  case (3 pos g fs c cs bs)
  then obtain y rest where y: "bs = y @ c @ rest" "length y = fr_pending_len_len g"
    "chain_rep (pos + length y + length c) fs cs rest" by auto
  have "chain_rep (pos + length y + length c) (fs @ [f]) (cs @ [[]]) (rest @ x)"
    using "3.IH" [of y rest, OF y(3) "3.prems"(2)] "3.prems" y by simp
  then have "chain_rep pos (g # fs @ [f]) (c # cs @ [[]]) (y @ c @ (rest @ x))"
    using 3 y(2) by (intro chain_rep_ConsI) auto
  then show ?case by (simp add: y(1) del: chain_rep.simps)
qed auto

lemma chain_rep_append_last:
  "chain_rep pos fs cs bs \<Longrightarrow> fs \<noteq> [] \<Longrightarrow> chain_rep pos fs (append_last cs d) (bs @ d)"
proof (induction pos fs cs bs rule: chain_rep.induct)
  case (3 pos g fs c cs bs)
  then obtain y rest where y: "bs = y @ c @ rest" "length y = fr_pending_len_len g"
    "chain_rep (pos + length y + length c) fs cs rest" by auto
  show ?case
  proof (cases fs)
    case Nil
    then show ?thesis using 3 y by (auto simp: append_last_def)
  next
    case (Cons f' fs')
    then have "cs \<noteq> []" using chain_rep_length [OF y(3)] by auto
    then have "append_last (c # cs) d = c # append_last cs d" by (simp add: append_last_def)
    moreover have "chain_rep (pos + length y + length c) fs (append_last cs d) (rest @ d)"
      using "3.IH" [of y rest, OF y(3)] Cons by simp
    then have "chain_rep pos (g # fs) (c # append_last cs d) (y @ c @ (rest @ d))"
      using 3 y(2) by (intro chain_rep_ConsI) auto
    ultimately show ?thesis by (simp add: y(1) del: chain_rep.simps)
  qed
qed auto

definition bufrep :: "cbb_frame list \<Rightarrow> u8 list list \<Rightarrow> u8 list \<Rightarrow> bool" where
  "bufrep fs cs v \<longleftrightarrow> (\<exists>c0 cs' bs. cs = c0 # cs' \<and> v = c0 @ bs \<and> chain_rep (length c0) fs cs' bs)"

lemma bufrep_length: "bufrep fs cs v \<Longrightarrow> length cs = Suc (length fs)"
  by (auto simp: bufrep_def dest: chain_rep_length)

lemma bufrep_append:
  assumes "bufrep fs cs v"
  shows "bufrep fs (append_last cs d) (v @ d)"
proof -
  obtain c0 cs' bs where c: "cs = c0 # cs'" "v = c0 @ bs" "chain_rep (length c0) fs cs' bs"
    using assms by (auto simp: bufrep_def)
  show ?thesis
  proof (cases "fs = []")
    case True
    then show ?thesis using c by (auto simp: bufrep_def append_last_def)
  next
    case False
    then have "cs' \<noteq> []" using chain_rep_length [OF c(3)] by auto
    then have "append_last cs d = c0 # append_last cs' d" by (simp add: append_last_def c(1))
    then show ?thesis using chain_rep_append_last [OF c(3) False, of d] c(2) by (auto simp: bufrep_def)
  qed
qed

lemma chain_rep_unappend:
  "chain_rep pos fs (append_last cs d) bs \<Longrightarrow> fs \<noteq> [] \<Longrightarrow> length cs = length fs
     \<Longrightarrow> \<exists>bs0. bs = bs0 @ d \<and> chain_rep pos fs cs bs0"
proof (induction fs arbitrary: pos cs bs)
  case (Cons g fs)
  then obtain c cs' where cs: "cs = c # cs'" "length cs' = length fs" by (cases cs) auto
  show ?case
  proof (cases "fs = []")
    case True
    then have "chain_rep pos [g] [c @ d] bs" using Cons.prems(1) cs by (simp add: append_last_def)
    then obtain x where x: "bs = x @ c @ d" "length x = fr_pending_len_len g" "frame_ok g" "fr_offset g = pos" by auto
    have "chain_rep pos [g] [c] (x @ c @ [])" by (rule chain_rep_ConsI) (use x in auto)
    then show ?thesis using x(1) True cs by auto
  next
    case False
    then have "append_last cs d = c # append_last cs' d" using cs by (auto simp: append_last_def)
    then obtain x rest where x: "bs = x @ c @ rest" "length x = fr_pending_len_len g" "frame_ok g" "fr_offset g = pos"
      "chain_rep (pos + length x + length c) fs (append_last cs' d) rest"
      using Cons.prems(1) by auto
    from Cons.IH [OF x(5) False cs(2)] obtain r0 where r: "rest = r0 @ d"
      "chain_rep (pos + length x + length c) fs cs' r0" by blast
    have "chain_rep pos (g # fs) (c # cs') (x @ c @ r0)" by (rule chain_rep_ConsI) (use x r in auto)
    then show ?thesis using x(1) r(1) cs(1) by (metis append.assoc)
  qed
qed simp

lemma bufrep_unappend:
  assumes "bufrep fs (append_last cs d) v" "length cs = Suc (length fs)"
  shows "\<exists>v0. v = v0 @ d \<and> bufrep fs cs v0"
proof -
  obtain c cs' where cs: "cs = c # cs'" "length cs' = length fs" using assms(2) by (cases cs) auto
  show ?thesis
  proof (cases "fs = []")
    case True
    then show ?thesis using assms(1) cs by (auto simp: bufrep_def append_last_def)
  next
    case False
    then have e: "append_last cs d = c # append_last cs' d" using cs by (auto simp: append_last_def)
    then obtain bs where b: "v = c @ bs" "chain_rep (length c) fs (append_last cs' d) bs"
      using assms(1) by (auto simp: bufrep_def)
    from chain_rep_unappend [OF b(2) False cs(2)] obtain b0 where b0: "bs = b0 @ d" "chain_rep (length c) fs cs' b0"
      by blast
    then have "v = (c @ b0) @ d" "bufrep fs cs (c @ b0)" using b(1) cs(1) by (auto simp: bufrep_def)
    then show ?thesis by blast
  qed
qed

lemma bufrep_push:
  "bufrep fs cs v \<Longrightarrow> frame_ok f \<Longrightarrow> fr_offset f = length v \<Longrightarrow> length x = fr_pending_len_len f
     \<Longrightarrow> bufrep (fs @ [f]) (cs @ [[]]) (v @ x)"
  using chain_rep_snoc by (fastforce simp: bufrep_def)

lemma bufrep_split:
  assumes "bufrep fs cs v" "d \<le> length fs"
  shows "\<exists>u bs. v = u @ bs \<and> bufrep (take d fs) (take (Suc d) cs) u
    \<and> chain_rep (length u) (drop d fs) (drop (Suc d) cs) bs"
proof -
  obtain c0 cs' bs where c: "cs = c0 # cs'" "v = c0 @ bs" "chain_rep (length c0) fs cs' bs"
    using assms by (auto simp: bufrep_def)
  have "chain_rep (length c0) (take d fs @ drop d fs) cs' bs" using c(3) by simp
  from chain_rep_append [OF this] obtain b1 b2 where b: "bs = b1 @ b2"
    "chain_rep (length c0) (take d fs) (take d cs') b1" "chain_rep (length c0 + length b1) (drop d fs) (drop d cs') b2"
    using assms(2) by (auto simp: min_absorb2)
  then have "bufrep (take d fs) (take (Suc d) cs) (c0 @ b1)"
    "chain_rep (length (c0 @ b1)) (drop d fs) (drop (Suc d) cs) b2" "v = (c0 @ b1) @ b2"
    using c by (auto simp: bufrep_def)
  then show ?thesis by blast
qed

lemma length_bufrep: "bufrep fs cs v \<Longrightarrow> length v \<le> length (full (map frame_kind fs) cs)"
proof -
  have "chain_rep pos fs cs bs \<Longrightarrow> length bs \<le> length (chain_enc fs cs)" for pos fs cs bs
  proof (induction pos fs cs bs rule: chain_rep.induct)
    case (3 pos g fs c cs bs)
    then obtain y rest where y: "bs = y @ c @ rest" "length y = fr_pending_len_len g"
      "chain_rep (pos + length y + length c) fs cs rest" "frame_ok g" by auto
    then have "length rest \<le> length (chain_enc fs cs)" using "3.IH" [of y rest, OF y(3)] by simp
    then show ?case using length_prefix_enc [OF y(4), of "c @ chain_enc fs cs"] y by simp
  qed auto
  then show "bufrep fs cs v \<Longrightarrow> length v \<le> length (full (map frame_kind fs) cs)"
    by (auto simp: bufrep_def chain_enc_full [symmetric] chain_rep_length)
qed

section \<open>Representation and outcome of a call\<close>

definition cbb_rep :: "CBB \<Rightarrow> stack \<Rightarrow> bool" where
  "cbb_rep s A \<longleftrightarrow> (\<exists>b fs. cb_base s = Some b \<and> cb_chain s = top_frame # fs \<and> bs_inv (b, cb_heap s)
     \<and> \<not> bb_error b \<and> fst A = map frame_kind fs \<and> bufrep fs (snd A) (bb_valid b))"

definition cbb_failed :: "CBB \<Rightarrow> bool" where
  "cbb_failed s \<longleftrightarrow> (case cb_base s of None \<Rightarrow> True | Some b \<Rightarrow> bb_error b)"

definition cbb_roomy :: "CBB \<Rightarrow> bool" where
  "cbb_roomy s \<longleftrightarrow> (case cb_base s of None \<Rightarrow> False | Some b \<Rightarrow> roomy (b, cb_heap s))"

text \<open>\<open>outcome s fits A r\<close>: the call whose result is \<open>r\<close>, started in \<open>s\<close>, either succeeds, and then everything
  it had to store did fit and the new state represents \<open>A\<close>, or marks the builder as failed; and it
  does succeed on a roomy heap when everything fits.\<close>

definition outcome :: "CBB \<Rightarrow> bool \<Rightarrow> stack \<Rightarrow> 'a option \<times> CBB \<Rightarrow> bool" where
  "outcome s fits A r \<longleftrightarrow> (fst r \<noteq> None \<longrightarrow> fits \<and> cbb_rep (snd r) A)
     \<and> (fst r = None \<longrightarrow> cbb_failed (snd r))
     \<and> (cbb_roomy s \<and> fits \<and> sk_size A < 2 ^ 61 \<longrightarrow> fst r \<noteq> None \<and> cbb_roomy (snd r))"

lemma outcome_bind:
  assumes "outcome s f1 A (m s)" "sk_size A \<le> sk_size B"
    and "\<And>x t. m s = (Some x, t) \<Longrightarrow> cbb_rep t A \<Longrightarrow> outcome t f2 B (g x t)"
  shows "outcome s (f1 \<and> f2) B (st_bind m g s)"
proof (cases "m s")
  case (Pair r t)
  then show ?thesis
    using assms by (cases r) (fastforce simp: outcome_def)+
qed

lemma outcome_return [simp]: "cbb_rep s A \<Longrightarrow> outcome s True A (Some x, s)"
  by (auto simp: outcome_def)

lemma outcome_Some: "outcome s f A (m s) \<Longrightarrow> m s = (Some x, t) \<Longrightarrow> f \<and> cbb_rep t A"
  by (simp add: outcome_def)

lemma cbb_rep_length: "cbb_rep s A \<Longrightarrow> length (snd A) = Suc (length (fst A)) \<and> length (cb_chain s) = length (snd A)"
  by (auto simp: cbb_rep_def dest: bufrep_length)

lemma sk_size_flush:
  assumes "length (snd A) = Suc (length (fst A))" "d \<le> length (fst A)"
  shows "sk_size (sk_flush d A) = sk_size A"
proof -
  have "full (take d (fst A) @ drop d (fst A)) (take d (snd A) @ drop d (snd A))
      = full (take d (fst A)) (take d (snd A) @ [full (drop d (fst A)) (drop d (snd A))])"
    using assms by (intro full_append) auto
  then show ?thesis by (simp add: sk_size_def sk_flush_def)
qed

lemma CBB_flush_outcome:
  assumes rep: "cbb_rep s A" and d: "d \<le> length (fst A)"
  shows "outcome s (sk_fits d A) (sk_flush d A) (CBB_flush d s)"
proof -
  obtain b fs where b: "cb_base s = Some b" "cb_chain s = top_frame # fs" "bs_inv (b, cb_heap s)" "\<not> bb_error b"
    "fst A = map frame_kind fs" "bufrep fs (snd A) (bb_valid b)"
    using rep by (auto simp: cbb_rep_def)
  have df: "d \<le> length fs" using d b(5) by simp
  note len = bufrep_length [OF b(6)]
  from bufrep_split [OF b(6) df] obtain u bs where u: "bb_valid b = u @ bs"
    "bufrep (take d fs) (take (Suc d) (snd A)) u" "chain_rep (length u) (drop d fs) (drop (Suc d) (snd A)) bs" by blast
  obtain r fs' b' h' where r: "flush_chain (drop d fs) (b, cb_heap s) = (r, fs', b', h')" by (metis prod_cases4)
  note k = flush_chain_ok [OF b(3,4) u(1,3) r]
  let ?cs = "snd A"
  have hd: "drop d ?cs = ?cs ! d # drop (Suc d) ?cs" using len df by (simp add: Cons_nth_drop_Suc)
  have ce: "?cs ! d @ chain_enc (drop d fs) (drop (Suc d) ?cs) = full (drop d (fst A)) (drop d ?cs)"
    using chain_enc_full [of "drop (Suc d) ?cs" "drop d fs" "?cs ! d"] len b(5) by (simp add: hd drop_map)
  have cf: "chain_fits (drop d fs) (drop (Suc d) ?cs) = sk_fits d A"
    using chain_fits_full [of "drop (Suc d) ?cs" "drop d fs" "?cs ! d"] len b(5) by (simp add: sk_fits_def hd drop_map)
  have ts: "take (Suc d) ?cs = take d ?cs @ [?cs ! d]" using len df by (simp add: take_Suc_conv_app_nth)
  have nb: "bufrep (take d fs) (snd (sk_flush d A)) (u @ chain_enc (drop d fs) (drop (Suc d) ?cs))"
    using bufrep_append [OF u(2), of "chain_enc (drop d fs) (drop (Suc d) ?cs)"] ce by (simp add: sk_flush_def ts)
  have sz: "length (u @ chain_enc (drop d fs) (drop (Suc d) ?cs)) \<le> sk_size A"
    using length_bufrep [OF nb] sk_size_flush [of A d] len d b(5) by (simp add: sk_size_def sk_flush_def take_map)
  have F: "CBB_flush d s = (r, s\<lparr>cb_base := Some b', cb_chain := top_frame # take d fs @ fs', cb_heap := h'\<rparr>)"
    using b(1,2) r by (simp add: CBB_flush_def)
  show ?thesis
  proof (cases r)
    case None
    then show ?thesis
      using k sz sk_size_flush [of A d] len d b(1,5) cf by (auto simp: F outcome_def cbb_failed_def flushed_def cbb_roomy_def)
  next
    case (Some t)
    have "cbb_rep (snd (CBB_flush d s)) (sk_flush d A)"
      using k Some nb b(5) by (auto simp: F cbb_rep_def flushed_def sk_flush_def take_map)
    then show ?thesis
      using k Some sz sk_size_flush [of A d] len d b(1,5) cf by (auto simp: F outcome_def flushed_def cbb_roomy_def)
  qed
qed

section \<open>Appending\<close>

definition sk_append :: "u8 list \<Rightarrow> stack \<Rightarrow> stack" where
  "sk_append d A = (fst A, append_last (snd A) d)"

lemma sk_size_append:
  assumes "length (snd A) = Suc (length (fst A))"
  shows "sk_size A \<le> sk_size (sk_append d A)"
proof -
  have e: "snd A = butlast (snd A) @ [last (snd A)]"
    using assms by (metis append_butlast_last_id length_0_conv nat.distinct(1))
  show ?thesis
    using length_full_mono [of "butlast (snd A)" "fst A" "last (snd A)" "last (snd A) @ d"] assms e
    by (simp add: sk_size_def sk_append_def append_last_def)
qed

lemma base_add_outcome:
  assumes rep: "cbb_rep s A" and len: "n < 2 ^ 63" and ld: "length d = n"
    and w: "\<And>b h. bs_inv (b, h) \<Longrightarrow> length (bb_valid b) \<ge> n \<Longrightarrow>
      w (bb_len b - n) (b, h) = (if fits then Some () else None,
         (if fits then bb_write (\<lambda>buf. memcpy_at buf (bb_len b - n) d) b
          else (bb_write (\<lambda>buf. memcpy_at buf (bb_len b - n) d) b)\<lparr>bb_error := True\<rparr>), h)"
  shows "outcome s fits (sk_append d A) (on_base (st_bind (cbb_buffer_add n) w) s)"
proof -
  obtain b fs where b: "cb_base s = Some b" "cb_chain s = top_frame # fs" "bs_inv (b, cb_heap s)" "\<not> bb_error b"
    "fst A = map frame_kind fs" "bufrep fs (snd A) (bb_valid b)"
    using rep by (auto simp: cbb_rep_def)
  obtain r b1 h1 where r: "cbb_buffer_add n (b, cb_heap s) = (r, b1, h1)" by (metis prod_cases3)
  note k = cbb_buffer_add_ok [OF b(3) len r]
  have bl: "length (bb_valid b) = bb_len b" using b(3) by (simp add: bs_inv_def length_bb_valid)
  show ?thesis
  proof (cases r)
    case None
    have "\<not> (roomy (b, cb_heap s) \<and> sk_size (sk_append d A) < 2 ^ 61)"
    proof
      assume a: "roomy (b, cb_heap s) \<and> sk_size (sk_append d A) < 2 ^ 61"
      have "bb_len b + n \<le> sk_size (sk_append d A)"
        using length_bufrep [OF bufrep_append [OF b(6), of d]] b(5) bl ld by (simp add: sk_size_def sk_append_def)
      then show False using cbb_buffer_add_roomy [OF b(3), of n] a r None by simp
    qed
    then show ?thesis
      using None r k b(1) by (auto simp: outcome_def on_base_def cbb_failed_def cbb_roomy_def)
  next
    case (Some p)
    then obtain j where j: "length j = n" "bb_valid b1 = bb_valid b @ j @ []" and p: "p = bb_len b"
      and l1: "bb_len b1 = bb_len b + n" and e1: "\<not> bb_error b1" and i1: "bs_inv (b1, h1)"
      using k b(4) by auto
    have jd: "length j = length d" and pl: "p = length (bb_valid b)" using ld j(1) bl p by simp_all
    note v = bb_valid_write [where f = "\<lambda>buf. memcpy_at buf p d", OF i1 j(2) jd pl refl]
    have v1: "bb_valid (bb_write (\<lambda>buf. memcpy_at buf p d) b1) = bb_valid b @ d"
      and v2: "bs_inv (bb_write (\<lambda>buf. memcpy_at buf p d) b1, h1)"
      using v ld j(1) bl p by auto
    have run: "st_bind (cbb_buffer_add n) w (b, cb_heap s) = (if fits then Some () else None,
         (if fits then bb_write (\<lambda>buf. memcpy_at buf p d) b1
          else (bb_write (\<lambda>buf. memcpy_at buf p d) b1)\<lparr>bb_error := True\<rparr>), h1)"
      using w [OF i1] r Some l1 p j bl by simp
    have rm: "roomy (b, cb_heap s) \<Longrightarrow> sk_size (sk_append d A) < 2 ^ 61 \<Longrightarrow> roomy (b1, h1)"
    proof -
      assume a: "roomy (b, cb_heap s)" "sk_size (sk_append d A) < 2 ^ 61"
      have "bb_len b + n \<le> sk_size (sk_append d A)"
        using length_bufrep [OF bufrep_append [OF b(6), of d]] b(5) bl ld by (simp add: sk_size_def sk_append_def)
      then show "roomy (b1, h1)" using cbb_buffer_add_roomy [OF b(3) a(1), of n] a(2) r by auto
    qed
    have "fits \<Longrightarrow> cbb_rep (s\<lparr>cb_base := Some (bb_write (\<lambda>buf. memcpy_at buf p d) b1), cb_heap := h1\<rparr>) (sk_append d A)"
      using b v1 v2 e1 bufrep_append [OF b(6), of d] by (auto simp: cbb_rep_def sk_append_def)
    then show ?thesis
      using b(1) rm by (auto simp: outcome_def on_base_def run cbb_failed_def cbb_roomy_def roomy_def)
  qed
qed

lemma on_base_bind:
  "st_bind (on_base m) (\<lambda>x. on_base (f x)) = on_base (st_bind m f)"
  by (rule ext) (auto simp: st_bind_def on_base_def split: option.splits prod.splits)

lemma sk_add_append: "sk_add d bs A = sk_append bs (sk_flush d A)"
  by (simp add: sk_add_def sk_append_def)

lemma sk_flush_length [simp]:
  assumes "length (snd A) = Suc (length (fst A))" "d \<le> length (fst A)"
  shows "length (snd (sk_flush d A)) = Suc d" "length (fst (sk_flush d A)) = d"
  using assms by (simp_all add: sk_flush_def)

lemma flush_then_append:
  assumes "cbb_rep s A" "d \<le> length (fst A)"
    and "\<And>t. cbb_rep t (sk_flush d A) \<Longrightarrow> outcome t fits (sk_append bs (sk_flush d A)) (m t)"
  shows "outcome s (sk_fits d A \<and> fits) (sk_add d bs A) (st_bind (CBB_flush d) (\<lambda>_. m) s)"
  unfolding sk_add_append
  by (rule outcome_bind [where m = "CBB_flush d", OF CBB_flush_outcome [OF assms(1,2)]])
    (use assms cbb_rep_length [OF assms(1)] in \<open>auto intro!: sk_size_append\<close>)

text \<open>\<open>CBB_add_bytes\<close> closes the pending children of its builder and appends the bytes to its
  contents, or leaves the builder in its failed state.\<close>

lemma CBB_add_bytes_outcome:
  assumes "cbb_rep s A" "d \<le> length (fst A)" "length bs < 2 ^ 63"
  shows "outcome s (sk_fits d A) (sk_add d bs A) (CBB_add_bytes d bs s)"
proof -
  have "outcome t True (sk_append bs (sk_flush d A)) (on_base (st_bind (cbb_buffer_add (length bs))
      (\<lambda>p (b, h). (Some (), bb_write (\<lambda>buf. memcpy_at buf p bs) b, h))) t)"
    if "cbb_rep t (sk_flush d A)" for t
    by (rule base_add_outcome [OF that assms(3) refl]) simp
  from flush_then_append [OF assms(1,2) this] show ?thesis
    by (simp add: CBB_add_bytes_def on_base_bind)
qed

lemma buffer_add_u_outcome:
  assumes "cbb_rep t A" "0 < n" "n \<le> 4"
  shows "outcome t (unat v < 256 ^ n) (sk_append (be_enc n (unat v)) A) (on_base (cbb_buffer_add_u v n) t)"
proof -
  let ?w = "\<lambda>off (b, h).
        let left = snd (write_be [] off n (unat v));
            b' = bb_write (\<lambda>buf. fst (write_be buf off n (unat v))) b in
        if left \<noteq> 0 then (None, b'\<lparr>bb_error := True\<rparr>, h) else (Some (), b', h)"
  have "outcome t (unat v < 256 ^ n) (sk_append (be_enc n (unat v)) A) (on_base (st_bind (cbb_buffer_add n) ?w) t)"
  proof (rule base_add_outcome [OF assms(1)])
    show "n < 2 ^ 63" using assms by simp
    fix b h
    assume i: "bs_inv (b, h)" and l: "length (bb_valid b) \<ge> n"
    have "bb_len b - n + n \<le> length (bb_bytes b)" using i l by (simp add: bs_inv_def bb_inv_def length_bb_valid)
    then have "bb_write (\<lambda>buf. fst (write_be buf (bb_len b - n) n (unat v))) b
        = bb_write (\<lambda>buf. memcpy_at buf (bb_len b - n) (be_enc n (unat v))) b"
      using write_be_eq [of "bb_len b - n" n "bb_bytes b" "unat v"]
      by (cases "bb_buf b") (auto simp: bb_write_def bb_bytes_def)
    then show "?w (bb_len b - n) (b, h)
      = (if unat v < 256 ^ n then Some () else None,
         (if unat v < 256 ^ n then bb_write (\<lambda>buf. memcpy_at buf (bb_len b - n) (be_enc n (unat v))) b
          else (bb_write (\<lambda>buf. memcpy_at buf (bb_len b - n) (be_enc n (unat v))) b)\<lparr>bb_error := True\<rparr>), h)"
      by (simp add: write_be_left div_eq_0_iff Let_def)
  qed simp
  then show ?thesis using assms by (simp add: cbb_buffer_add_u_def)
qed

end
