(* ===== verification/Cbb_Ops.thy ===== *)
theory Cbb_Ops
  imports Cbb_Refine
begin

text \<open>
  The builder's public operations: what each one adds to the stack, the bytes that \<open>CBB_finish\<close>
  returns, and the round trips through the parsers of \<open>cbs.c\<close>.
\<close>

section \<open>Fixed-width integers\<close>

lemma CBB_add_u_outcome:
  assumes "cbb_rep s A" "d \<le> length (fst A)" "0 < n" "n \<le> 4"
  shows "outcome s (sk_fits d A \<and> unat v < 256 ^ n) (sk_add d (be_enc n (unat v)) A)
    (st_bind (CBB_flush d) (\<lambda>_. on_base (cbb_buffer_add_u v n)) s)"
  by (rule flush_then_append [OF assms(1,2)]) (use buffer_add_u_outcome assms in blast)

lemma CBB_add_u8_outcome:
  assumes "cbb_rep s A" "d \<le> length (fst A)"
  shows "outcome s (sk_fits d A) (sk_add d [v] A) (CBB_add_u8 d v s)"
  using CBB_add_u_outcome [OF assms, of 1 "ucast v"] by (simp add: CBB_add_u8_def)

lemma CBB_add_u16_outcome:
  assumes "cbb_rep s A" "d \<le> length (fst A)"
  shows "outcome s (sk_fits d A) (sk_add d (be_enc 2 (unat v)) A) (CBB_add_u16 d v s)"
proof -
  have "unat v < 2 ^ 16" using unsigned_less [of v, where 'a = nat] by simp
  then have "unat (ucast v :: u32) = unat v" "unat v < 256 ^ 2"
    by (simp_all add: unsigned_ucast_eq take_bit_nat_eq_self)
  then show ?thesis using CBB_add_u_outcome [OF assms, of 2 "ucast v"] by (simp add: CBB_add_u16_def)
qed

lemma CBB_add_u24_outcome:
  assumes "cbb_rep s A" "d \<le> length (fst A)"
  shows "outcome s (sk_fits d A \<and> unat v < 2 ^ 24) (sk_add d (be_enc 3 (unat v)) A) (CBB_add_u24 d v s)"
  using CBB_add_u_outcome [OF assms, of 3 v] by (simp add: CBB_add_u24_def)

lemma CBB_add_u32_outcome:
  assumes "cbb_rep s A" "d \<le> length (fst A)"
  shows "outcome s (sk_fits d A) (sk_add d (be_enc 4 (unat v)) A) (CBB_add_u32 d v s)"
  using CBB_add_u_outcome [OF assms, of 4 v] unsigned_less [of v, where 'a = nat] by (simp add: CBB_add_u32_def)

section \<open>Sequences of additions\<close>

lemma sk_fits_flushed [simp]:
  assumes "length (snd A) = Suc (length (fst A))" "length (fst A) = d"
  shows "sk_fits d A" "sk_flush d A = A"
proof -
  have "length (drop d (snd A)) = Suc 0" using assms by simp
  then obtain c where c: "drop d (snd A) = [c]" by (cases "drop d (snd A)") auto
  show "sk_fits d A" by (simp add: sk_fits_def c assms)
  show "sk_flush d A = A"
  proof -
    have "take d (snd A) @ [c] = snd A" using append_take_drop_id [of d "snd A"] c by simp
    then show ?thesis using assms c by (simp add: sk_flush_def prod_eq_iff)
  qed
qed

lemma sk_add_length [simp]:
  assumes "length (snd A) = Suc (length (fst A))" "d \<le> length (fst A)"
  shows "length (snd (sk_add d bs A)) = Suc d" "length (fst (sk_add d bs A)) = d"
  using assms by (simp_all add: sk_add_def append_last_def)

lemma append_last_append_last: "append_last (append_last cs a) b = append_last cs (a @ b)"
  by (simp add: append_last_def)

lemma sk_add_add:
  assumes "length (snd A) = Suc (length (fst A))" "d \<le> length (fst A)"
  shows "sk_add d b (sk_add d a A) = sk_add d (a @ b) A"
proof -
  have "sk_flush d (sk_add d a A) = sk_add d a A" using assms by simp
  then show ?thesis by (simp add: sk_add_def append_last_append_last)
qed

lemma sk_size_add:
  assumes "length (snd A) = Suc (length (fst A))" "d \<le> length (fst A)"
  shows "sk_size (sk_add d a A) \<le> sk_size (sk_add d (a @ b) A)"
proof -
  have "sk_add d (a @ b) A = sk_append b (sk_add d a A)"
    by (simp add: sk_append_def sk_add_def append_last_append_last)
  then show ?thesis using sk_size_append [of "sk_add d a A" b] assms by simp
qed

text \<open>Two calls on the same builder append one after the other.\<close>

lemma outcome_add_add:
  assumes len: "length (snd A) = Suc (length (fst A))" "d \<le> length (fst A)"
    and 1: "outcome s f (sk_add d a A) (m s)"
    and 2: "\<And>x t. cbb_rep t (sk_add d a A) \<Longrightarrow> outcome t True (sk_add d b (sk_add d a A)) (g x t)"
  shows "outcome s f (sk_add d (a @ b) A) (st_bind m g s)"
proof -
  have "outcome s (f \<and> True) (sk_add d (a @ b) A) (st_bind m g s)"
    by (rule outcome_bind [where m = m, OF 1]) (use 2 sk_size_add [OF len, of a b] sk_add_add [OF len, of b a] in auto)
  then show ?thesis by simp
qed

lemma CBB_add_u8_again:
  assumes "cbb_rep t (sk_add d a A)" "length (snd A) = Suc (length (fst A))" "d \<le> length (fst A)"
  shows "outcome t True (sk_add d [v] (sk_add d a A)) (CBB_add_u8 d v t)"
  using CBB_add_u8_outcome [OF assms(1), of d v] assms(2,3) by simp

section \<open>Base-128 integers\<close>

definition b128_part :: "u64 \<Rightarrow> nat \<Rightarrow> u8 list" where
  "b128_part v n = map (\<lambda>i. let byte = ucast (drop_bit (7 * i) v AND 0x7f) in
      if i \<noteq> 0 then byte OR 0x80 else byte) (rev [0..<n])"

lemma b128_part_Suc: "b128_part v (Suc i) =
  (let byte = ucast (drop_bit (7 * i) v AND 0x7f) in if i \<noteq> 0 then byte OR 0x80 else byte) # b128_part v i"
  by (simp add: b128_part_def)

lemma add_base128_loop_outcome:
  assumes "length (snd A) = Suc (length (fst A))" "d \<le> length (fst A)"
  shows "cbb_rep s (sk_add d a A) \<Longrightarrow>
    outcome s True (sk_add d (a @ b128_part v n) A) (add_base128_loop d v n s)"
proof (induction n arbitrary: s a)
  case 0
  then show ?case by (simp add: b128_part_def)
next
  case (Suc i)
  define by1 where "by1 = (let byte = (ucast (drop_bit (7 * i) v AND 0x7f) :: u8) in if i \<noteq> 0 then byte OR 0x80 else byte)"
  have run: "add_base128_loop d v (Suc i) s = st_bind (CBB_add_u8 d by1) (\<lambda>_. add_base128_loop d v i) s"
    by (simp add: by1_def Let_def)
  have 1: "outcome s True (sk_add d (a @ [by1]) A) (CBB_add_u8 d by1 s)"
    using CBB_add_u8_again [OF Suc.prems assms, of by1] assms by (simp add: sk_add_add)
  have "outcome s (True \<and> True) (sk_add d ((a @ [by1]) @ b128_part v i) A) (st_bind (CBB_add_u8 d by1) (\<lambda>_. add_base128_loop d v i) s)"
    by (rule outcome_bind [where m = "CBB_add_u8 d by1", OF 1])
      (use sk_size_add [OF assms, of "a @ [by1]" "b128_part v i"] Suc.IH [of _ "a @ [by1]"] in simp_all)
  then have "outcome s True (sk_add d (a @ b128_part v (Suc i)) A) (st_bind (CBB_add_u8 d by1) (\<lambda>_. add_base128_loop d v i) s)"
    by (simp only: b128_part_Suc by1_def [symmetric] append_assoc append_Cons append_Nil simp_thms)
  then show ?case by (simp only: run)
qed

lemma unat_drop_bit: "unat (drop_bit k w) = unat w div 2 ^ k"
  by (subst unat_drop_bit_eq) (rule drop_bit_eq_div)

lemma b128_len_len_eq: "b128_len_len v = length (b128_hi (unat v))"
proof (induction v rule: b128_len_len.induct)
  case (1 v)
  show ?case
  proof (cases "v = 0")
    case True
    then show ?thesis by (simp add: b128_len_len.simps)
  next
    case False
    then have p: "0 < unat v" "v > 0" by (simp_all add: unat_gt_0 word_gt_0)
    have "b128_len_len v = Suc (b128_len_len (drop_bit 7 v))"
      using p(2) by (subst b128_len_len.simps) (simp only: if_True)
    also have "b128_len_len (drop_bit 7 v) = length (b128_hi (unat v div 128))"
      using 1 [OF p(2)] unat_drop_bit [of 7 v] by (simp only: power_numeral) simp
    finally show ?thesis using b128_hi_Suc [OF p(1)] by simp
  qed
qed

text \<open>The bytes of the loop are the reference encoding: byte \<open>i\<close> is digit \<open>i\<close> in base 128.\<close>

lemma or_80: "unat b < 128 \<Longrightarrow> b OR 0x80 = word_of_nat (128 + unat (b :: u8))"
proof -
  assume a: "unat b < 128"
  have "b AND 0x80 = 0" using a cont_iff [of b] by (auto simp: cont_def)
  then have "b OR 0x80 = b + 0x80" by (simp add: disjunctive_add_eq_or)
  then show ?thesis by (simp add: add.commute)
qed

lemma b128_digit:
  "(ucast (drop_bit k (v :: u64) AND 0x7f) :: u8) = word_of_nat (unat v div 2 ^ k mod 128)"
  "unat (ucast (drop_bit k (v :: u64) AND 0x7f) :: u8) = unat v div 2 ^ k mod 128"
proof -
  have "drop_bit k v AND 0x7f = take_bit 7 (drop_bit k v)"
    by (simp add: take_bit_eq_mask mask_eq_exp_minus_1 flip: take_bit_eq_mod)
  then have u: "unat (drop_bit k v AND 0x7f) = unat v div 2 ^ k mod 128"
    using unat_take_bit [of 7 "drop_bit k v"] unat_drop_bit [of k v] by simp
  show 2: "unat (ucast (drop_bit k v AND 0x7f) :: u8) = unat v div 2 ^ k mod 128"
    by (simp only: unsigned_ucast_eq u) (simp add: take_bit_nat_eq_self)
  show "(ucast (drop_bit k v AND 0x7f) :: u8) = word_of_nat (unat v div 2 ^ k mod 128)"
    using 2 by (metis word_of_nat_unat_u8)
qed

lemma b128_part_hi:
  "i < n \<Longrightarrow> n = length (b128_hi m) \<Longrightarrow> rev (b128_hi m) ! i = word_of_nat (128 + m div 128 ^ i mod 128)"
proof (induction i arbitrary: m n)
  case 0
  then have "0 < m" by (cases "m = 0") auto
  then show ?case by (simp add: b128_hi_Suc del: of_nat_add)
next
  case (Suc i)
  then have m: "0 < m" by (cases "m = 0") auto
  have "i < length (b128_hi (m div 128))" using Suc.prems m by (simp add: b128_hi_Suc)
  from Suc.IH [OF this refl] show ?case
    using m by (simp add: b128_hi_Suc div_mult2_eq del: of_nat_add)
qed

lemma b128_part_eq:
  "b128_part v (if b128_len_len v = 0 then 1 else b128_len_len v) = b128 (unat v)"
proof -
  define n where "n = (if b128_len_len v = 0 then 1 else b128_len_len v)"
  have n: "n = Suc (length (b128_hi (unat v div 128)))"
    by (cases "unat v = 0") (simp_all add: n_def b128_len_len_eq b128_hi_Suc)
  have "rev (b128_part v n) = rev (b128 (unat v))"
  proof (rule nth_equalityI)
    show "length (rev (b128_part v n)) = length (rev (b128 (unat v)))" by (simp add: b128_part_def b128_def n)
    fix i assume "i < length (rev (b128_part v n))"
    then have i: "i < n" by (simp add: b128_part_def)
    then have l: "rev (b128_part v n) ! i = (let byte = ucast (drop_bit (7 * i) v AND 0x7f) in
      if i \<noteq> 0 then byte OR 0x80 else byte)" by (simp add: b128_part_def rev_map)
    show "rev (b128_part v n) ! i = rev (b128 (unat v)) ! i"
    proof (cases i)
      case 0
      then have "rev (b128_part v n) ! i = ucast (drop_bit 0 v AND 0x7f)" using l by (simp add: Let_def)
      then show ?thesis unfolding b128_digit(1) by (simp add: b128_def 0)
    next
      case (Suc j)
      have p: "(2 :: nat) ^ (7 * i) = 128 * 128 ^ j" by (simp add: Suc power_add power_mult)
      have "rev (b128 (unat v)) ! i = rev (b128_hi (unat v div 128)) ! j" by (simp add: b128_def Suc)
      also have "\<dots> = word_of_nat (128 + unat v div 128 div 128 ^ j mod 128)"
        using i n Suc by (intro b128_part_hi) auto
      also have "unat v div 128 div 128 ^ j = unat v div 2 ^ (7 * i)" by (simp only: p div_mult2_eq)
      also have "word_of_nat (128 + unat v div 2 ^ (7 * i) mod 128) = (ucast (drop_bit (7 * i) v AND 0x7f) :: u8) OR 0x80"
        using or_80 [of "ucast (drop_bit (7 * i) v AND 0x7f)"] b128_digit(2) [of "7 * i" v] by simp
      finally show ?thesis unfolding l Let_def using Suc by (simp only: nat.distinct not_False_eq_True if_True)
    qed
  qed
  then show ?thesis unfolding n_def [symmetric] by simp
qed

lemma add_base128_integer_outcome:
  assumes "length (snd A) = Suc (length (fst A))" "d \<le> length (fst A)" "cbb_rep s (sk_add d a A)"
  shows "outcome s True (sk_add d (a @ b128 (unat v)) A) (add_base128_integer d v s)"
  using add_base128_loop_outcome [OF assms, of v "if b128_len_len v = 0 then 1 else b128_len_len v"]
  unfolding b128_part_eq add_base128_integer_def Let_def .

section \<open>Opening children\<close>

lemma sk_push_length [simp]:
  assumes "length (snd A) = Suc (length (fst A))" "d \<le> length (fst A)"
  shows "length (snd (sk_push d k A)) = Suc (Suc d)" "length (fst (sk_push d k A)) = Suc d"
  using assms by (simp_all add: sk_push_def)

lemma sk_size_push:
  assumes "length (snd A) = Suc (length (fst A))" "length (fst A) = d"
  shows "sk_size (sk_append (replicate (prefix_len k) 0) A) \<le> sk_size (sk_push d k A)"
proof -
  obtain cs c where c: "snd A = cs @ [c]" "length cs = d"
    using assms by (metis append_butlast_last_id diff_Suc_1 length_butlast length_0_conv nat.distinct(1))
  have "sk_push d k A = (fst A @ [k], cs @ [c, []])" using assms by (simp add: sk_push_def c)
  moreover have "full (fst A @ [k]) (cs @ [c, []]) = full (fst A) (cs @ [c @ prefix_enc k []])"
    using full_append [of cs "fst A" "[c, []]" "[k]"] c assms by simp
  moreover have "length (prefix_enc k []) = prefix_len k"
    by (cases k) (simp_all add: der_len_def)
  ultimately show ?thesis
    using length_full_mono [of cs "fst A" "c @ replicate (prefix_len k) 0" "c @ prefix_enc k []"] c assms
    by (simp add: sk_size_def sk_append_def)
qed

lemma push_child_rep:
  assumes "cbb_rep t (sk_append x A)" "length (snd A) = Suc (length (fst A))" "length (fst A) = d"
    and "length x = prefix_len k" "k = Asn1 \<or> (\<exists>n. k = Plain n \<and> 0 < n \<and> n \<le> 4)"
    and "off + length x = bb_len (the (cb_base t))"
  shows "cbb_rep (snd (push_child d off (prefix_len k) (k = Asn1) t)) (sk_push d k A)"
proof -
  obtain b fs where b: "cb_base t = Some b" "cb_chain t = top_frame # fs" "bs_inv (b, cb_heap t)" "\<not> bb_error b"
    "fst A = map frame_kind fs" "bufrep fs (append_last (snd A) x) (bb_valid b)"
    using assms(1) by (auto simp: cbb_rep_def sk_append_def)
  have lf: "length fs = d" using assms(3) b(5) by simp
  have "length (snd A) = Suc (length fs)" using assms(2) b(5) by simp
  from bufrep_unappend [OF b(6) this] obtain v0 where v0: "bb_valid b = v0 @ x" "bufrep fs (snd A) v0" by blast
  have off: "off = length v0"
    using assms(6) b(1,3) v0(1) length_bb_valid [of b] by (simp add: bs_inv_def)
  define f where "f = \<lparr>fr_offset = off, fr_pending_len_len = prefix_len k, fr_pending_is_asn1 = (k = Asn1),
      fr_is_top_level = False\<rparr>"
  have ok: "frame_ok f" and kd: "frame_kind f = k"
    using assms(5) by (auto simp: f_def frame_ok_def frame_kind_def)
  have "bufrep (fs @ [f]) (snd A @ [[]]) (v0 @ x)"
    by (rule bufrep_push [OF v0(2) ok]) (use off assms(4) in \<open>simp_all add: f_def\<close>)
  moreover have "sk_push d k A = (fst A @ [k], snd A @ [[]])" using assms(2,3) by (simp add: sk_push_def)
  moreover have "cb_chain (snd (push_child d off (prefix_len k) (k = Asn1) t)) = top_frame # fs @ [f]"
    using b(2) lf by (simp add: push_child_def f_def)
  ultimately show ?thesis
    using b v0(1) kd by (simp add: cbb_rep_def push_child_def)
qed

definition sk_len :: "stack \<Rightarrow> nat" where
  "sk_len A = sum_list (map prefix_len (fst A)) + sum_list (map length (snd A))"

lemma cbb_rep_len:
  assumes "cbb_rep s A"
  shows "base_len s = (Some (sk_len A), s)" "bb_len (the (cb_base s)) = sk_len A"
proof -
  have c: "chain_rep pos fs cs bs \<Longrightarrow> length bs = sum_list (map (prefix_len \<circ> frame_kind) fs) + sum_list (map length cs)"
    for pos fs cs bs
  proof (induction pos fs cs bs rule: chain_rep.induct)
    case (3 pos f fs c cs bs)
    obtain x rest where x: "bs = x @ c @ rest" "length x = fr_pending_len_len f" "frame_ok f"
      "chain_rep (pos + length x + length c) fs cs rest"
      using "3.prems" unfolding chain_rep.simps by blast
    have "prefix_len (frame_kind f) = length x" using x by (auto simp: frame_ok_def frame_kind_def)
    then show ?case using "3.IH" [OF x(4)] by (simp add: x(1))
  qed simp_all
  obtain b fs where b: "cb_base s = Some b" "bs_inv (b, cb_heap s)" "fst A = map frame_kind fs" "bufrep fs (snd A) (bb_valid b)"
    using assms by (auto simp: cbb_rep_def)
  have "length (bb_valid b) = sk_len A"
    using b(3,4) by (auto simp: bufrep_def sk_len_def c)
  then have "bb_len b = sk_len A" using b(2) length_bb_valid [of b] by (simp add: bs_inv_def)
  then show "base_len s = (Some (sk_len A), s)" "bb_len (the (cb_base s)) = sk_len A"
    using b(1) by (simp_all add: base_len_def)
qed

lemma sk_len_append: "snd A \<noteq> [] \<Longrightarrow> sk_len (sk_append x A) = sk_len A + length x"
  by (cases "snd A" rule: rev_cases) (simp_all add: sk_len_def sk_append_def)

lemma push_child_outcome:
  assumes "cbb_rep t (sk_append x A)" "length (snd A) = Suc (length (fst A))" "length (fst A) = d"
    and "length x = prefix_len k" "k = Asn1 \<or> (\<exists>n. k = Plain n \<and> 0 < n \<and> n \<le> 4)"
  shows "outcome t True (sk_push d k A) (push_child d (sk_len A) (prefix_len k) (k = Asn1) t)"
proof -
  have "snd A \<noteq> []" using assms(2) by auto
  then have "sk_len A + length x = bb_len (the (cb_base t))"
    using cbb_rep_len(2) [OF assms(1)] sk_len_append by simp
  note r = push_child_rep [OF assms this]
  have "cbb_roomy t \<Longrightarrow> cbb_roomy (snd (push_child d (sk_len A) (prefix_len k) (k = Asn1) t))"
    by (simp add: cbb_roomy_def push_child_def split: option.splits)
  then show ?thesis using r by (simp add: outcome_def) (simp add: push_child_def)
qed

lemma sk_add_nil: "sk_add d [] A = sk_flush d A"
  by (simp add: sk_add_def sk_flush_def)

lemma length_prefixed_outcome:
  assumes rep: "cbb_rep s A" and d: "d \<le> length (fst A)" and n: "0 < n" "n \<le> 4"
  shows "outcome s (sk_fits d A) (sk_push d (Plain n) A) (cbb_add_length_prefixed d n s)"
proof -
  note len = cbb_rep_length [OF rep, THEN conjunct1]
  let ?A = "sk_flush d A"
  let ?z = "replicate n 0 :: u8 list"
  have la: "length (snd ?A) = Suc (length (fst ?A))" "length (fst ?A) = d" using len d by simp_all
  have push: "sk_push d (Plain n) ?A = sk_push d (Plain n) A" using la by (simp add: sk_push_def)
  have sz: "sk_size (sk_append ?z ?A) \<le> sk_size (sk_push d (Plain n) A)" "sk_size ?A \<le> sk_size (sk_push d (Plain n) A)"
    using sk_size_push [OF la, of "Plain n"] sk_size_append [OF la(1), of ?z] by (simp_all add: push)
  have "outcome t True (sk_push d (Plain n) A)
      (st_bind base_len (\<lambda>off. st_bind (on_base (cbb_buffer_add n)) (\<lambda>p.
         st_bind (on_base (\<lambda>(b, h). (Some (), bb_write (\<lambda>buf. memcpy_at buf p ?z) b, h))) (\<lambda>_.
           push_child d off n False))) t)" if t: "cbb_rep t ?A" for t
  proof -
    have "outcome t True (sk_append ?z ?A) (on_base (st_bind (cbb_buffer_add n)
        (\<lambda>p (b, h). (Some (), bb_write (\<lambda>buf. memcpy_at buf p ?z) b, h))) t)"
      by (rule base_add_outcome [OF t]) (use n in auto)
    then have "outcome t (True \<and> True) (sk_push d (Plain n) A) (st_bind (on_base (st_bind (cbb_buffer_add n)
        (\<lambda>p (b, h). (Some (), bb_write (\<lambda>buf. memcpy_at buf p ?z) b, h)))) (\<lambda>_. push_child d (sk_len ?A) n False) t)"
      by (rule outcome_bind [OF _ sz(1)])
        (use push_child_outcome [OF _ la, of _ ?z "Plain n"] n in \<open>auto simp: push\<close>)
    moreover have "st_bind (on_base (cbb_buffer_add n)) (\<lambda>p.
         st_bind (on_base (\<lambda>(b, h). (Some (), bb_write (\<lambda>buf. memcpy_at buf p ?z) b, h))) g) =
       st_bind (on_base (st_bind (cbb_buffer_add n)
        (\<lambda>p (b, h). (Some (), bb_write (\<lambda>buf. memcpy_at buf p ?z) b, h)))) g" for g :: "unit \<Rightarrow> (CBB, unit) st"
      unfolding on_base_bind [symmetric] by (rule ext) (simp add: st_bind_def split: prod.splits option.splits)
    ultimately show ?thesis using cbb_rep_len(1) [OF t] by simp
  qed
  then have "outcome s (sk_fits d A \<and> True) (sk_push d (Plain n) A) (cbb_add_length_prefixed d n s)"
    unfolding cbb_add_length_prefixed_def
    by (intro outcome_bind [where m = "CBB_flush d", OF CBB_flush_outcome [OF rep d] sz(2)]) auto
  then show ?thesis by simp
qed

lemma sk_push_add:
  assumes "length (snd A) = Suc (length (fst A))" "d \<le> length (fst A)"
  shows "sk_size (sk_append [0] (sk_add d a A)) \<le> sk_size (sk_push d Asn1 (sk_add d a A))"
    "sk_size (sk_add d a A) \<le> sk_size (sk_push d Asn1 (sk_add d a A))"
  using sk_size_push [of "sk_add d a A" d Asn1] sk_size_append [of "sk_add d a A" "[0]"] assms by simp_all

lemma tag_bits_eq: "(ucast (drop_bit CBS_ASN1_TAG_SHIFT tag AND 0xe0) :: u8) = tag_class tag"
  unfolding tag_class_def CBS_ASN1_TAG_SHIFT_def mask_e0
  by (rule bit_word_eqI) (auto simp: bit_simps)

lemma tag_number_eq: "unat (tag AND CBS_ASN1_TAG_NUMBER_MASK) = tag_number tag"
proof -
  have "CBS_ASN1_TAG_NUMBER_MASK = mask 29"
    by (simp add: CBS_ASN1_TAG_NUMBER_MASK_def CBS_ASN1_TAG_SHIFT_def mask_eq_exp_minus_1 push_bit_eq_mult)
  then have "tag AND CBS_ASN1_TAG_NUMBER_MASK = take_bit 29 tag" by (simp only: take_bit_eq_mask)
  then show ?thesis using unat_take_bit [of 29 tag] by (simp only: tag_number_def)
qed

lemma der_tag_eq:
  "der_tag tag = (if tag_number tag < 31 then [tag_class tag OR word_of_nat (tag_number tag)]
     else [tag_class tag OR 0x1f] @ b128 (tag_number tag))"
  by (simp add: der_tag_def)

lemma CBB_add_asn1_outcome:
  assumes rep: "cbb_rep s A" and d: "d \<le> length (fst A)"
  shows "outcome s (sk_fits d A) (sk_push d Asn1 (sk_add d (der_tag tag) A)) (CBB_add_asn1 d tag s)"
proof -
  note len = cbb_rep_length [OF rep, THEN conjunct1]
  let ?B = "sk_add d (der_tag tag) A" and ?C = "sk_push d Asn1 (sk_add d (der_tag tag) A)"
  let ?n = "tag AND CBS_ASN1_TAG_NUMBER_MASK"
  have lb: "length (snd ?B) = Suc (length (fst ?B))" "length (fst ?B) = d" using len d by simp_all
  let ?tagw = "if ?n \<ge> 0x1f
                then st_bind (CBB_add_u8 d (tag_class tag OR 0x1f)) (\<lambda>_. add_base128_integer d (ucast ?n))
                else CBB_add_u8 d (tag_class tag OR ucast ?n)"
  have sz: "sk_size (sk_flush d A) \<le> sk_size ?B"
    using sk_size_append [of "sk_flush d A" "der_tag tag"] len d by (simp add: sk_add_append)
  have w: "outcome t True ?B (?tagw t)" if t: "cbb_rep t (sk_add d [] A)" for t
  proof (cases "tag_number tag < 31")
    case True
    then have "\<not> ?n \<ge> 0x1f" by (simp add: word_le_nat_alt tag_number_eq)
    moreover have "(ucast ?n :: u8) = word_of_nat (tag_number tag)"
      using tag_number_eq [of tag] by (metis of_nat_unat)
    ultimately show ?thesis
      using CBB_add_u8_again [OF t len d] len d True by (simp add: sk_add_add der_tag_eq)
  next
    case False
    then have g: "?n \<ge> 0x1f" by (simp add: word_le_nat_alt tag_number_eq)
    have u: "unat (ucast ?n :: u64) = tag_number tag"
      using tag_number_eq [of tag] unsigned_less [of ?n, where 'a = nat]
      by (simp add: unsigned_ucast_eq take_bit_nat_eq_self)
    have 1: "outcome t True (sk_add d [tag_class tag OR 0x1f] A) (CBB_add_u8 d (tag_class tag OR 0x1f) t)"
      using CBB_add_u8_again [OF t len d, of "tag_class tag OR 0x1f"] len d by (simp add: sk_add_add)
    have "outcome t True (sk_add d ([tag_class tag OR 0x1f] @ b128 (tag_number tag)) A)
        (st_bind (CBB_add_u8 d (tag_class tag OR 0x1f)) (\<lambda>_. add_base128_integer d (ucast ?n)) t)"
      by (rule outcome_add_add [OF len d, where m = "CBB_add_u8 d (tag_class tag OR 0x1f)", OF 1])
        (use add_base128_integer_outcome [OF len d, of _ "[tag_class tag OR 0x1f]" "ucast ?n"] u len d
          in \<open>simp add: sk_add_add\<close>)
    then show ?thesis using g False by (simp add: der_tag_eq)
  qed
  have fin: "outcome t True ?C (st_bind base_len (\<lambda>off. st_bind (CBB_add_u8 d 0) (\<lambda>_. push_child d off 1 True)) t)"
    if t: "cbb_rep t ?B" for t
  proof -
    have "outcome t True (sk_append [0] ?B) (CBB_add_u8 d 0 t)"
      using CBB_add_u8_again [OF t len d, of 0] lb by (simp add: sk_add_append [of d "[0]"])
    then have "outcome t (True \<and> True) ?C (st_bind (CBB_add_u8 d 0) (\<lambda>_. push_child d (sk_len ?B) 1 True) t)"
      by (rule outcome_bind [where m = "CBB_add_u8 d 0"])
        (use sk_push_add [OF len d] push_child_outcome [OF _ lb, of _ "[0]" Asn1] in auto)
    then show ?thesis using cbb_rep_len(1) [OF t] by simp
  qed
  have body: "outcome t True ?C (st_bind ?tagw (\<lambda>_. st_bind base_len (\<lambda>off.
       st_bind (CBB_add_u8 d 0) (\<lambda>_. push_child d off 1 True))) t)" if t: "cbb_rep t (sk_flush d A)" for t
  proof -
    have "outcome t (True \<and> True) ?C (st_bind ?tagw (\<lambda>_. st_bind base_len (\<lambda>off.
       st_bind (CBB_add_u8 d 0) (\<lambda>_. push_child d off 1 True))) t)"
      by (rule outcome_bind [where m = ?tagw and A = ?B])
        (use w t fin sk_push_add(2) [OF len d] in \<open>auto simp: sk_add_nil\<close>)
    then show ?thesis by simp
  qed
  have "outcome s (sk_fits d A \<and> True) ?C (CBB_add_asn1 d tag s)"
    unfolding CBB_add_asn1_def Let_def tag_bits_eq
    by (rule outcome_bind [where m = "CBB_flush d", OF CBB_flush_outcome [OF rep d]])
      (use body sz sk_push_add(2) [OF len d, of "der_tag tag"] in auto)
  then show ?thesis by simp
qed

section \<open>Closing an element\<close>

text \<open>Contents written into a freshly opened ASN.1 child and closed by a flush of the parent are the
  DER element.\<close>

lemma sk_flush_elem:
  assumes "length (snd A) = Suc (length (fst A))" "d \<le> length (fst A)"
  shows "sk_flush d (sk_add (Suc d) c (sk_push d Asn1 (sk_add d (der_tag tag) A))) = sk_add d (der_elem tag c) A"
    and "sk_fits d (sk_add (Suc d) c (sk_push d Asn1 (sk_add d (der_tag tag) A))) \<longleftrightarrow> length c < 0xffffffff"
    and "sk_fits (Suc d) (sk_push d Asn1 (sk_add d (der_tag tag) A))"
proof -
  let ?B = "sk_add d (der_tag tag) A"
  obtain ks cs e where B: "?B = (ks, cs @ [e])" "length ks = d" "length cs = d"
    using sk_add_length [OF assms, of "der_tag tag"] by (cases ?B; cases "snd ?B" rule: rev_cases) auto
  have p: "sk_push d Asn1 ?B = (ks @ [Asn1], cs @ [e, []])"
    using B by (simp add: sk_push_def sk_flush_def)
  have a: "sk_add (Suc d) c (sk_push d Asn1 ?B) = (ks @ [Asn1], cs @ [e, c])"
    using B unfolding p by (simp add: sk_add_def sk_flush_def append_last_def butlast_append)
  have "sk_add d (der_elem tag c) A = sk_add d (der_len (length c) @ c) ?B"
    using assms by (simp add: sk_add_add der_elem_def der_header_def)
  also have "\<dots> = (ks, cs @ [e @ der_len (length c) @ c])"
    using B by (simp add: sk_add_def sk_flush_def)
  finally show "sk_flush d (sk_add (Suc d) c (sk_push d Asn1 ?B)) = sk_add d (der_elem tag c) A"
    using B unfolding a by (simp add: sk_flush_def)
  show "sk_fits d (sk_add (Suc d) c (sk_push d Asn1 ?B)) \<longleftrightarrow> length c < 0xffffffff"
    using B unfolding a by (simp add: sk_fits_def)
  show "sk_fits (Suc d) (sk_push d Asn1 ?B)"
    using B unfolding p by (simp add: sk_fits_def)
qed

lemma element_outcome_if:
  assumes rep: "cbb_rep s A" and d: "d \<le> length (fst A)"
    and body: "\<And>t. cbb_rep t (sk_push d Asn1 (sk_add d (der_tag tag) A)) \<Longrightarrow>
      outcome t f (sk_add (Suc d) c (sk_push d Asn1 (sk_add d (der_tag tag) A))) (m t)"
  shows "outcome s (sk_fits d A \<and> f \<and> length c < 0xffffffff) (sk_add d (der_elem tag c) A)
    (st_bind (CBB_add_asn1 d tag) (\<lambda>_. st_bind m (\<lambda>_. CBB_flush d)) s)"
proof -
  note len = cbb_rep_length [OF rep, THEN conjunct1]
  let ?C = "sk_push d Asn1 (sk_add d (der_tag tag) A)"
  have lc: "length (snd ?C) = Suc (length (fst ?C))" "length (fst ?C) = Suc d" using len d by simp_all
  let ?D = "sk_add (Suc d) c ?C"
  have ld: "length (snd ?D) = Suc (length (fst ?D))" "d \<le> length (fst ?D)" using lc by simp_all
  have e: "sk_flush d ?D = sk_add d (der_elem tag c) A" and fd: "sk_fits d ?D \<longleftrightarrow> length c < 0xffffffff"
    using sk_flush_elem [OF len d] by simp_all
  have sz: "sk_size ?D = sk_size (sk_add d (der_elem tag c) A)" using sk_size_flush [OF ld] by (simp add: e)
  have sz1: "sk_size ?C \<le> sk_size ?D"
    using sk_size_append [OF lc(1), of c] lc by (simp add: sk_add_append)
  have "outcome t (f \<and> length c < 0xffffffff) (sk_add d (der_elem tag c) A) (st_bind m (\<lambda>_. CBB_flush d) t)"
    if t: "cbb_rep t ?C" for t
    by (rule outcome_bind [where m = m, OF body [OF t]]) (use CBB_flush_outcome [OF _ ld(2)] sz in \<open>auto simp: e fd\<close>)
  then show ?thesis
    by (intro outcome_bind [where m = "CBB_add_asn1 d tag", OF CBB_add_asn1_outcome [OF rep d]]) (use sz sz1 in auto)
qed

lemma element_outcome:
  assumes "cbb_rep s A" "d \<le> length (fst A)"
    and "\<And>t. cbb_rep t (sk_push d Asn1 (sk_add d (der_tag tag) A)) \<Longrightarrow>
      outcome t True (sk_add (Suc d) c (sk_push d Asn1 (sk_add d (der_tag tag) A))) (m t)"
  shows "outcome s (sk_fits d A \<and> length c < 0xffffffff) (sk_add d (der_elem tag c) A)
    (st_bind (CBB_add_asn1 d tag) (\<lambda>_. st_bind m (\<lambda>_. CBB_flush d)) s)"
  using element_outcome_if [OF assms] by simp

section \<open>ASN.1 values\<close>

lemma CBB_add_bytes_fresh:
  assumes "cbb_rep t C" "length (snd C) = Suc (length (fst C))" "length (fst C) = d" "length bs < 2 ^ 63"
  shows "outcome t True (sk_add d bs C) (CBB_add_bytes d bs t)"
  using CBB_add_bytes_outcome [OF assms(1) _ assms(4), of d] assms(2,3) by simp

lemma CBB_add_u8_fresh:
  assumes "cbb_rep t C" "length (snd C) = Suc (length (fst C))" "length (fst C) = d"
  shows "outcome t True (sk_add d [v] C) (CBB_add_u8 d v t)"
  using CBB_add_u8_outcome [OF assms(1), of d v] assms(2,3) by simp

lemma CBB_add_asn1_octet_string_outcome:
  assumes rep: "cbb_rep s A" and d: "d \<le> length (fst A)" and l: "length bs < 2 ^ 63"
  shows "outcome s (sk_fits d A \<and> length bs < 0xffffffff) (sk_add d (der_elem CBS_ASN1_OCTETSTRING bs) A)
    (CBB_add_asn1_octet_string d bs s)"
  unfolding CBB_add_asn1_octet_string_def
  by (rule element_outcome [OF rep d], rule CBB_add_bytes_fresh)
    (use cbb_rep_length [OF rep] d l in auto)

lemma CBB_add_asn1_bool_outcome:
  assumes rep: "cbb_rep s A" and d: "d \<le> length (fst A)"
  shows "outcome s (sk_fits d A) (sk_add d (der_elem CBS_ASN1_BOOLEAN [if v \<noteq> 0 then 0xff else 0]) A)
    (CBB_add_asn1_bool d v s)"
proof -
  have "outcome s (sk_fits d A \<and> length [if v \<noteq> 0 then 0xff else 0 :: u8] < 0xffffffff)
     (sk_add d (der_elem CBS_ASN1_BOOLEAN [if v \<noteq> 0 then 0xff else 0]) A) (CBB_add_asn1_bool d v s)"
    unfolding CBB_add_asn1_bool_def
    by (rule element_outcome [OF rep d], rule CBB_add_u8_fresh) (use cbb_rep_length [OF rep] d in auto)
  then show ?thesis by simp
qed

lemma be_enc_Cons: "be_enc (Suc j) v = word_of_nat (v div 256 ^ j) # be_enc j v"
  by (induction j arbitrary: v) (auto simp: div_mult2_eq)

definition pad0 :: "u8 list \<Rightarrow> u8 list" where
  "pad0 bs = (if bs \<noteq> [] \<and> cont (hd bs) then 0 # bs else bs)"

lemma uint64_byte: "(ucast (drop_bit (8 * j) (v :: u64) AND 0xff) :: u8) = word_of_nat (unat v div 256 ^ j)"
proof -
  have "drop_bit (8 * j) v AND 0xff = take_bit 8 (drop_bit (8 * j) v)"
    by (simp add: take_bit_eq_mask mask_eq_exp_minus_1 flip: take_bit_eq_mod)
  moreover have "(2 :: nat) ^ (8 * j) = 256 ^ j" by (simp add: power_mult)
  ultimately have "unat (drop_bit (8 * j) v AND 0xff) = unat v div 256 ^ j mod 256"
    using unat_take_bit [of 8 "drop_bit (8 * j) v"] unat_drop_bit [of "8 * j" v] by simp
  then show ?thesis
    by (simp only: word_unat_eq_iff unsigned_ucast_eq unat_word_of_nat_u8) (simp add: take_bit_eq_mod)
qed

lemma add_uint64_loop_outcome:
  assumes len: "length (snd A) = Suc (length (fst A))" "d \<le> length (fst A)"
  shows "cbb_rep s (sk_add d a A) \<Longrightarrow>
    (let bs = (if started then be_enc n (unat v) else dropWhile (\<lambda>b. b = 0) (be_enc n (unat v))) in
     outcome s True (sk_add d (a @ (if started then bs else pad0 bs)) A) (add_uint64_loop d v n started s)
     \<and> (\<forall>r t. add_uint64_loop d v n started s = (Some r, t) \<longrightarrow> r = (started \<or> bs \<noteq> [])))"
proof (induction n arbitrary: s a started)
  case 0
  then show ?case by (simp add: pad0_def)
next
  case (Suc j)
  define b where "b = (word_of_nat (unat v div 256 ^ j) :: u8)"
  have e: "be_enc (Suc j) (unat v) = b # be_enc j (unat v)" by (simp only: be_enc_Cons b_def)
  have byte: "ucast (drop_bit (8 * j) v AND 0xff) = b" by (simp only: uint64_byte b_def)
  have again: "outcome t True (sk_add d (a' @ [x]) A) (CBB_add_u8 d x t)" if "cbb_rep t (sk_add d a' A)" for t a' x
    using CBB_add_u8_again [OF that len, of x] len by (simp add: sk_add_add)
  have one: "outcome t True (sk_add d (a' @ b # be_enc j (unat v)) A) (st_bind (CBB_add_u8 d b) (\<lambda>_. add_uint64_loop d v j True) t)
    \<and> (\<forall>r u. st_bind (CBB_add_u8 d b) (\<lambda>_. add_uint64_loop d v j True) t = (Some r, u) \<longrightarrow> r)"
    if t: "cbb_rep t (sk_add d a' A)" for t a'
  proof -
    have "outcome t (True \<and> True) (sk_add d ((a' @ [b]) @ be_enc j (unat v)) A)
       (st_bind (CBB_add_u8 d b) (\<lambda>_. add_uint64_loop d v j True) t)"
      by (rule outcome_bind [where m = "CBB_add_u8 d b", OF again [OF t]])
        (use Suc.IH [of _ "a' @ [b]" True] sk_size_add [OF len, of "a' @ [b]"] in auto)
    moreover have "r" if q: "st_bind (CBB_add_u8 d b) (\<lambda>_. add_uint64_loop d v j True) t = (Some r, u)" for r u
    proof -
      obtain x t1 where 1: "CBB_add_u8 d b t = (Some x, t1)" and 2: "add_uint64_loop d v j True t1 = (Some r, u)"
        using q by (auto simp: st_bind_eq_Some)
      from outcome_Some [where m = "CBB_add_u8 d b", OF again [OF t] 1] 2 show ?thesis
        using Suc.IH [of t1 "a' @ [b]" True] by (auto simp: Let_def)
    qed
    ultimately show ?thesis by auto
  qed
  show ?case
  proof (cases started)
    case True
    then show ?thesis using one [OF Suc.prems] by (auto simp: e byte Let_def simp del: be_enc.simps)
  next
    case ns: False
    show ?thesis
    proof (cases "b = 0")
      case True
      then show ?thesis using Suc.IH [OF Suc.prems, of False] ns by (simp add: e byte Let_def del: be_enc.simps)
    next
      case False
      show ?thesis
      proof (cases "cont b")
        case True
        let ?k = "st_bind (CBB_add_u8 d b) (\<lambda>_. add_uint64_loop d v j True)"
        have run: "add_uint64_loop d v (Suc j) started s = st_bind (CBB_add_u8 d 0) (\<lambda>_. ?k) s"
          using True False ns cont_iff [of b] by (simp add: byte Let_def)
        have "outcome s (True \<and> True) (sk_add d ((a @ [0]) @ b # be_enc j (unat v)) A) (st_bind (CBB_add_u8 d 0) (\<lambda>_. ?k) s)"
          by (rule outcome_bind [where m = "CBB_add_u8 d 0", OF again [OF Suc.prems]])
            (use one [of _ "a @ [0]"] sk_size_add [OF len, of "a @ [0]"] in auto)
        moreover have "r" if q: "st_bind (CBB_add_u8 d 0) (\<lambda>_. ?k) s = (Some r, u)" for r u
        proof -
          obtain x t1 where 1: "CBB_add_u8 d 0 s = (Some x, t1)" and 2: "?k t1 = (Some r, u)"
            using q by (auto simp: st_bind_eq_Some)
          from outcome_Some [where m = "CBB_add_u8 d 0", OF again [OF Suc.prems] 1] 2 show ?thesis
            using one [of t1 "a @ [0]"] by blast
        qed
        ultimately show ?thesis
          unfolding run using True False ns by (auto simp: e Let_def pad0_def simp del: be_enc.simps)
      next
        case c: False
        then show ?thesis using one [OF Suc.prems] False ns cont_iff [of b] by (auto simp: e byte Let_def pad0_def simp del: be_enc.simps)
      qed
    qed
  qed
qed

lemma dropWhile_be_enc: "v < 256 ^ n \<Longrightarrow> dropWhile (\<lambda>b. b = 0) (be_enc n v) = nat_be v"
proof -
  assume "v < 256 ^ n"
  then have v: "be_val (be_enc n v) = v" by (simp add: be_val_be_enc)
  have "be_val (dropWhile (\<lambda>b. b = 0) bs) = be_val bs" for bs by (induction bs) auto
  moreover have "dropWhile (\<lambda>b. b = 0) bs = [] \<or> hd (dropWhile (\<lambda>b. b = 0) bs) \<noteq> 0" for bs :: "u8 list"
    using hd_dropWhile [of "\<lambda>b. b = 0" bs] by auto
  ultimately show ?thesis using nat_be_unique v by metis
qed

lemma CBB_add_asn1_uint64_outcome:
  assumes rep: "cbb_rep s A" and d: "d \<le> length (fst A)"
  shows "outcome s (sk_fits d A) (sk_add d (der_elem CBS_ASN1_INTEGER (int_enc (unat v))) A)
    (CBB_add_asn1_uint64 d v s)"
proof -
  note len = cbb_rep_length [OF rep, THEN conjunct1]
  let ?C = "sk_push d Asn1 (sk_add d (der_tag CBS_ASN1_INTEGER) A)"
  let ?m = "st_bind (add_uint64_loop (Suc d) v 8 False)
      (\<lambda>started. if \<not> started then CBB_add_u8 (Suc d) 0 else st_return ())"
  have lc: "length (snd ?C) = Suc (length (fst ?C))" "length (fst ?C) = Suc d" using len d by simp_all
  have "unat v < 256 ^ 8" using unsigned_less [of v, where 'a = nat] by simp
  note nb = dropWhile_be_enc [OF this]
  have body: "outcome t True (sk_add (Suc d) (int_enc (unat v)) ?C) (?m t)" if t: "cbb_rep t ?C" for t
  proof -
    have t': "cbb_rep t (sk_add (Suc d) [] ?C)" using t lc by (simp add: sk_add_nil)
    have l: "outcome t True (sk_add (Suc d) (pad0 (nat_be (unat v))) ?C) (add_uint64_loop (Suc d) v 8 False t)"
      and st: "\<And>r u. add_uint64_loop (Suc d) v 8 False t = (Some r, u) \<Longrightarrow> r = (nat_be (unat v) \<noteq> [])"
      using add_uint64_loop_outcome [OF lc(1) _ t', of False 8 v] lc(2) nb by (simp_all add: Let_def)
    have sz: "sk_size (sk_add (Suc d) (pad0 (nat_be (unat v))) ?C) \<le> sk_size (sk_add (Suc d) (int_enc (unat v)) ?C)"
      using sk_size_add [OF lc(1), of "Suc d" "[]" "[0]"] lc(2)
      by (cases "nat_be (unat v) = []") (auto simp: pad0_def int_enc_def)
    have "outcome t (True \<and> True) (sk_add (Suc d) (int_enc (unat v)) ?C) (?m t)"
    proof (rule outcome_bind [where m = "add_uint64_loop (Suc d) v 8 False", OF l sz])
      fix r u
      assume r: "add_uint64_loop (Suc d) v 8 False t = (Some r, u)" and u: "cbb_rep u (sk_add (Suc d) (pad0 (nat_be (unat v))) ?C)"
      show "outcome u True (sk_add (Suc d) (int_enc (unat v)) ?C)
          ((if \<not> r then CBB_add_u8 (Suc d) 0 else st_return ()) u)"
      proof (cases "nat_be (unat v) = []")
        case True
        then show ?thesis
          using st [OF r] CBB_add_u8_again [OF u lc(1), of 0] lc by (simp add: sk_add_add int_enc_def pad0_def)
      next
        case False
        then show ?thesis using st [OF r] u by (auto simp: int_enc_def pad0_def)
      qed
    qed
    then show ?thesis by simp
  qed
  have "length (int_enc (unat v)) < 0xffffffff" using length_int_enc [of v] by simp
  then show ?thesis
    using element_outcome [OF rep d body] by (simp add: CBB_add_asn1_uint64_def st_bind_assoc)
qed

section \<open>Creation and completion\<close>

lemma bufrep_Nil: "bufrep [] [c] c"
  by (simp add: bufrep_def)

lemma cbb_init_rep:
  assumes "cbb_init buf cap (CBB_zero h) = (Some u, s)" "heap_sane h" "cap + 8 < 2 ^ 63"
    and "length (case buf of None \<Rightarrow> [] | Some d \<Rightarrow> d) = cap"
  shows "cbb_rep s ([], [[]])"
proof -
  obtain c h1 where m: "mem_malloc 32 h = (Some c, h1)" and s: "s = \<lparr>cb_base = Some \<lparr>bb_buf = buf, bb_len = 0,
      bb_cap = cap, bb_can_resize = True, bb_error = False\<rparr>, cb_chain = [top_frame], cb_heap = h1\<rparr>"
    using assms(1) by (auto simp: cbb_init_def CBB_zero_def split: prod.splits option.splits)
  have "heap_sane h1" using assms(2) mem_malloc_hp_ok [OF m] by (simp add: heap_sane_def)
  then show ?thesis
    using assms(3,4) bufrep_Nil [of "[]"]
    by (auto simp: s cbb_rep_def bs_inv_def bb_inv_def bb_bytes_def bb_valid_def split: option.splits)
qed

lemma CBB_init_rep:
  assumes "CBB_init cap h = (Some u, s)" "heap_sane h" "cap + 8 < 2 ^ 64"
  shows "cbb_rep s ([], [[]])"
proof -
  obtain buf h1 where m: "mem_malloc cap h = (buf, h1)" by fastforce
  have i: "cbb_init buf cap (CBB_zero h1) = (Some (), s)" and nn: "\<not> (cap > 0 \<and> buf = None)"
    using assms(1) m by (auto simp: CBB_init_def split: prod.splits option.splits if_splits)
  have hs: "heap_sane h1" using assms(2) mem_malloc_hp_ok [OF m] by (simp add: heap_sane_def)
  show ?thesis
  proof (cases buf)
    case None
    then show ?thesis using cbb_init_rep [OF i hs] nn by simp
  next
    case (Some b)
    then show ?thesis
      using cbb_init_rep [OF i hs] m mem_malloc_length [of cap h b h1] mem_malloc_sane [of cap h b h1] assms(2,3) by simp
  qed
qed

lemma CBB_init_fixed_rep:
  assumes "CBB_init_fixed buf h = (Some u, s)" "heap_sane h" "length buf + 8 < 2 ^ 63"
  shows "cbb_rep s ([], [[]])"
proof -
  obtain v t where t: "cbb_init (Some buf) (length buf) (CBB_zero h) = (Some v, t)"
    and s: "s = t\<lparr>cb_base := map_option (\<lambda>b. b\<lparr>bb_can_resize := False\<rparr>) (cb_base t)\<rparr>"
    using assms(1) by (auto simp: CBB_init_fixed_def split: prod.splits option.splits)
  have "cbb_rep t ([], [[]])" using cbb_init_rep [OF t assms(2,3)] by simp
  then show ?thesis
    by (auto simp: s cbb_rep_def bs_inv_def bb_inv_def bb_bytes_def bb_valid_def)
qed

definition heap_total :: "heap \<Rightarrow> bool" where
  "heap_total h \<longleftrightarrow> (\<forall>t n. hp_ok h t n \<longleftrightarrow> n < 2 ^ 63)"

lemma CBB_init_total:
  assumes "heap_total h" "cap < 2 ^ 62"
  shows "\<exists>s. CBB_init cap h = (Some (), s) \<and> cbb_roomy s \<and> cbb_rep s ([], [[]])"
proof -
  have ht: "\<forall>t n. n < 2 ^ 63 \<longrightarrow> hp_ok h t n" and hs: "heap_sane h"
    using assms(1) by (auto simp: heap_total_def heap_sane_def)
  obtain c h1 where m: "mem_malloc cap h = (Some c, h1)" using mem_malloc_roomy [OF ht, of cap] assms(2) by auto
  have ht1: "\<forall>t n. n < 2 ^ 63 \<longrightarrow> hp_ok h1 t n" using ht mem_malloc_hp_ok [OF m] by simp
  obtain c2 h2 where m2: "mem_malloc 32 h1 = (Some c2, h2)" using mem_malloc_roomy [OF ht1, of 32] by auto
  have ht2: "\<forall>t n. n < 2 ^ 63 \<longrightarrow> hp_ok h2 t n" using ht1 mem_malloc_hp_ok [OF m2] by simp
  obtain s where s: "CBB_init cap h = (Some (), s)" "cbb_roomy s"
    using m m2 ht2 assms(2) by (auto simp: CBB_init_def cbb_init_def CBB_zero_def cbb_roomy_def roomy_def)
  moreover have "cbb_rep s ([], [[]])" using CBB_init_rep [OF s(1) hs] assms(2) by simp
  ultimately show ?thesis by blast
qed

lemma CBB_finish_ok:
  assumes rep: "cbb_rep s A" and r: "CBB_finish 0 False s = (Some (buf, len), s')"
  shows "take len (case buf of None \<Rightarrow> [] | Some b \<Rightarrow> b) = full (fst A) (snd A)" "full_fits (fst A) (snd A)"
    and "len = length (full (fst A) (snd A))"
proof -
  obtain t b where t: "CBB_flush 0 s = (Some (), t)" "cb_base t = Some b" "buf = bb_buf b" "len = bb_len b"
    using r by (auto simp: CBB_finish_def split: prod.splits option.splits if_splits)
  have o: "cbb_rep t (sk_flush 0 A)" "sk_fits 0 A"
    using CBB_flush_outcome [OF rep, of 0] t(1) by (auto simp: outcome_def)
  then have "bufrep [] [full (fst A) (snd A)] (bb_valid b)" and i: "bb_inv b"
    using t(2) by (auto simp: cbb_rep_def sk_flush_def bs_inv_def)
  then have v: "bb_valid b = full (fst A) (snd A)" by (auto simp: bufrep_def)
  show "take len (case buf of None \<Rightarrow> [] | Some b \<Rightarrow> b) = full (fst A) (snd A)"
    using v t by (simp add: bb_valid_def bb_bytes_def)
  show "full_fits (fst A) (snd A)" using o(2) by (simp add: sk_fits_def)
  show "len = length (full (fst A) (snd A))" using length_bb_valid [OF i] v t by simp
qed

lemma CBB_finish_total:
  assumes "cbb_rep s A" "cbb_roomy s" "full_fits (fst A) (snd A)" "sk_size A < 2 ^ 61"
  shows "\<exists>buf s'. CBB_finish 0 False s = (Some (buf, sk_size A), s')
    \<and> take (sk_size A) (case buf of None \<Rightarrow> [] | Some b \<Rightarrow> b) = full (fst A) (snd A)"
proof -
  have len: "length (snd A) = Suc (length (fst A))" using cbb_rep_length [OF assms(1)] by simp
  have o: "outcome s (sk_fits 0 A) (sk_flush 0 A) (CBB_flush 0 s)" using CBB_flush_outcome [OF assms(1)] by simp
  obtain t where t: "CBB_flush 0 s = (Some (), t)" "cbb_rep t (sk_flush 0 A)"
    using o assms sk_size_flush [OF len, of 0] by (cases "CBB_flush 0 s") (auto simp: outcome_def sk_fits_def)
  then obtain b where b: "cb_base t = Some b" by (auto simp: cbb_rep_def)
  then obtain s' where "CBB_finish 0 False s = (Some (bb_buf b, bb_len b), s')"
    using t(1) by (simp add: CBB_finish_def)
  from this CBB_finish_ok [OF assms(1) this] show ?thesis unfolding sk_size_def by auto
qed

end
