(* ===== verification/Cbb_Roundtrip.thy ===== *)
theory Cbb_Roundtrip
  imports Cbb_Ops
begin

text \<open>
  End-to-end statements about the byte builder: a tree of ASN.1 elements written by nested
  \<open>CBB_add_asn1\<close> calls comes out as its DER encoding, length-prefixed vectors are read back by the
  parsers, and a failed builder stays failed.
\<close>

section \<open>Appending to an object without pending children\<close>

text \<open>\<open>appends d bs m\<close>: on an object whose children are flushed, \<open>m\<close> appends \<open>bs\<close>.\<close>

definition appends :: "nat \<Rightarrow> u8 list \<Rightarrow> (CBB, unit) st \<Rightarrow> bool" where
  "appends d bs m \<longleftrightarrow> (\<forall>A a s. length (snd A) = Suc (length (fst A)) \<longrightarrow> d \<le> length (fst A)
     \<longrightarrow> cbb_rep s (sk_add d a A) \<longrightarrow> outcome s True (sk_add d (a @ bs) A) (m s))"

lemma appendsD:
  "appends d bs m \<Longrightarrow> length (snd A) = Suc (length (fst A)) \<Longrightarrow> d \<le> length (fst A) \<Longrightarrow> cbb_rep s (sk_add d a A)
    \<Longrightarrow> outcome s True (sk_add d (a @ bs) A) (m s)"
  unfolding appends_def by blast

lemma appends_bind:
  assumes "appends d xs m" "\<And>u. appends d ys (g u)"
  shows "appends d (xs @ ys) (st_bind m g)"
  unfolding appends_def
proof (intro allI impI)
  fix A a s
  assume len: "length (snd A) = Suc (length (fst A))" "d \<le> length (fst A)" and rep: "cbb_rep s (sk_add d a A)"
  have "outcome s True (sk_add d ((a @ xs) @ ys) A) (st_bind m g s)"
    by (rule outcome_add_add [where m = m, OF len])
       (use appendsD [OF assms(1) len rep] appendsD [OF assms(2) len, of _ "a @ xs"] len in \<open>simp_all add: sk_add_add\<close>)
  then show "outcome s True (sk_add d (a @ xs @ ys) A) (st_bind m g s)" by simp
qed

lemma appends_return: "appends d [] (st_return ())"
  by (simp add: appends_def)

lemma appends_u8: "appends d [v] (CBB_add_u8 d v)"
  unfolding appends_def by (metis CBB_add_u8_again sk_add_add)

lemma appends_bytes: "length bs < 2 ^ 63 \<Longrightarrow> appends d bs (CBB_add_bytes d bs)"
  unfolding appends_def
proof (intro allI impI)
  fix A a s
  assume l: "length bs < 2 ^ 63" and len: "length (snd A) = Suc (length (fst A))" "d \<le> length (fst A)"
    and rep: "cbb_rep s (sk_add d a A)"
  show "outcome s True (sk_add d (a @ bs) A) (CBB_add_bytes d bs s)"
    using CBB_add_bytes_fresh [OF rep _ _ l, of d] len by (simp add: sk_add_add)
qed

section \<open>Trees of elements\<close>

text \<open>A client of the builder: every element is opened with \<open>CBB_add_asn1\<close>, filled and closed by a
  flush of its parent.\<close>

datatype der_tree = Prim u32 "u8 list" | Node u32 "der_tree list"

fun tree_enc :: "der_tree \<Rightarrow> u8 list" where
  "tree_enc (Prim tag c) = der_elem tag c"
| "tree_enc (Node tag ts) = der_elem tag (concat (map tree_enc ts))"

fun tree_fits :: "der_tree \<Rightarrow> bool" where
  "tree_fits (Prim tag c) \<longleftrightarrow> length c < 0xffffffff"
| "tree_fits (Node tag ts) \<longleftrightarrow> list_all tree_fits ts \<and> length (concat (map tree_enc ts)) < 0xffffffff"

fun cbb_tree :: "nat \<Rightarrow> der_tree \<Rightarrow> (CBB, unit) st"
  and cbb_trees :: "nat \<Rightarrow> der_tree list \<Rightarrow> (CBB, unit) st" where
  "cbb_tree d (Prim tag c) =
     st_bind (CBB_add_asn1 d tag) (\<lambda>_. st_bind (CBB_add_bytes (Suc d) c) (\<lambda>_. CBB_flush d))"
| "cbb_tree d (Node tag ts) =
     st_bind (CBB_add_asn1 d tag) (\<lambda>_. st_bind (cbb_trees (Suc d) ts) (\<lambda>_. CBB_flush d))"
| "cbb_trees d [] = st_return ()"
| "cbb_trees d (t # ts) = st_bind (cbb_tree d t) (\<lambda>_. cbb_trees d ts)"

fun tree_ok :: "der_tree \<Rightarrow> bool" where
  "tree_ok (Prim tag c) \<longleftrightarrow> length c < 2 ^ 63"
| "tree_ok (Node tag ts) \<longleftrightarrow> list_all tree_ok ts"

lemma cbb_tree_outcome:
  "cbb_rep s A \<Longrightarrow> d \<le> length (fst A) \<Longrightarrow> tree_ok t \<Longrightarrow>
     outcome s (sk_fits d A \<and> tree_fits t) (sk_add d (tree_enc t) A) (cbb_tree d t s)"
  "cbb_rep s' (sk_add d' a A') \<Longrightarrow> length (snd A') = Suc (length (fst A')) \<Longrightarrow> d' \<le> length (fst A') \<Longrightarrow> list_all tree_ok ts \<Longrightarrow>
     outcome s' (list_all tree_fits ts) (sk_add d' (a @ concat (map tree_enc ts)) A') (cbb_trees d' ts s')"
proof (induction d t and d' ts arbitrary: s A and s' a A' rule: cbb_tree_cbb_trees.induct)
  case (1 d tag c)
  then show ?case
    using element_outcome [OF 1(1,2) CBB_add_bytes_fresh, of tag] cbb_rep_length [OF 1(1)] by auto
next
  case (2 d tag ts)
  let ?C = "sk_push d Asn1 (sk_add d (der_tag tag) A)"
  have len: "length (snd ?C) = Suc (length (fst ?C))" "length (fst ?C) = Suc d"
    using cbb_rep_length [OF 2(2)] 2(3) by simp_all
  have "outcome t (list_all tree_fits ts) (sk_add (Suc d) (concat (map tree_enc ts)) ?C) (cbb_trees (Suc d) ts t)"
    if t: "cbb_rep t ?C" for t
    using 2(1) [of t "[]" ?C] t len 2(4) by (simp add: sk_add_nil)
  from element_outcome_if [OF 2(2,3) this] show ?case by simp
next
  case (3 d)
  then show ?case by simp
next
  case (4 d t ts)
  have len: "length (snd (sk_add d a A')) = Suc (length (fst (sk_add d a A')))" "length (fst (sk_add d a A')) = d"
    using 4(4,5) by simp_all
  have 1: "outcome s' (tree_fits t) (sk_add d (a @ tree_enc t) A') (cbb_tree d t s')"
    using 4(1) [OF 4(3)] len 4 by (simp add: sk_add_add)
  have "outcome s' (tree_fits t \<and> list_all tree_fits ts) (sk_add d ((a @ tree_enc t) @ concat (map tree_enc ts)) A')
     (st_bind (cbb_tree d t) (\<lambda>_. cbb_trees d ts) s')"
    by (rule outcome_bind [where m = "cbb_tree d t", OF 1])
      (use sk_size_add [OF 4(4,5), of "a @ tree_enc t"] 4(2) [of _ "a @ tree_enc t" A'] 4 in auto)
  then show ?case by simp
qed

lemma sk_add_top: "sk_add 0 bs ([], [[]]) = ([], [bs])"
  by (simp add: sk_add_def sk_flush_def append_last_def)

text \<open>C6. For every tree of ASN.1 elements whose contents fit the builder's length limit, on a heap
  that does not run out, creating a builder, writing the tree with nested \<open>CBB_add_asn1\<close> calls and
  finishing succeeds and returns exactly the DER encoding of the tree.\<close>

theorem CBB_writes_der_tree:
  assumes "heap_total h" "cap < 2 ^ 62" "tree_fits t" "tree_ok t" "length (tree_enc t) < 2 ^ 61"
  shows "\<exists>s0 s1 s2 buf. CBB_init cap h = (Some (), s0) \<and> cbb_tree 0 t s0 = (Some (), s1)
    \<and> CBB_finish 0 False s1 = (Some (Some buf, length (tree_enc t)), s2)
    \<and> take (length (tree_enc t)) buf = tree_enc t"
proof -
  obtain s0 where s0: "CBB_init cap h = (Some (), s0)" "cbb_roomy s0" "cbb_rep s0 ([], [[]])"
    using CBB_init_total [OF assms(1,2)] by blast
  have "outcome s0 (sk_fits 0 ([], [[]]) \<and> tree_fits t) (sk_add 0 (tree_enc t) ([], [[]])) (cbb_tree 0 t s0)"
    by (rule cbb_tree_outcome(1) [OF s0(3)]) (use assms in auto)
  then have o: "outcome s0 True ([], [tree_enc t]) (cbb_tree 0 t s0)"
    using assms(3) by (simp add: sk_add_top sk_fits_def)
  then obtain s1 where s1: "cbb_tree 0 t s0 = (Some (), s1)" "cbb_rep s1 ([], [tree_enc t])" "cbb_roomy s1"
    using s0(2) assms(5) by (cases "cbb_tree 0 t s0") (auto simp: outcome_def sk_size_def)
  from CBB_finish_total [OF s1(2,3)] assms(5)
  obtain buf s2 where f: "CBB_finish 0 False s1 = (Some (buf, length (tree_enc t)), s2)"
    "take (length (tree_enc t)) (case buf of None \<Rightarrow> [] | Some b \<Rightarrow> b) = tree_enc t"
    by (auto simp: sk_size_def)
  have "tree_enc t \<noteq> []" by (cases t) (auto simp: der_elem_def der_header_def der_len_def split: if_splits)
  then obtain b where "buf = Some b" using f(2) by (cases buf) auto
  then show ?thesis using s0(1) s1(1) f by auto
qed

definition total_heap :: heap where
  "total_heap = \<lparr>hp_ok = \<lambda>t n. n < 2 ^ 63, hp_junk = \<lambda>t i. 170, hp_calls = 0, hp_freed = []\<rparr>"

lemma heap_total_total_heap [simp]: "heap_total total_heap"
  by (simp add: heap_total_def total_heap_def)

definition demo_tree :: der_tree where
  "demo_tree = Node 0x20000010 [Prim 2 [5], Node 0x20000010 [], Prim 0x80000040 [1, 2]]"

theorem CBB_writes_der_tree_witness:
  "\<exists>s0 s1 s2 buf. CBB_init 2 total_heap = (Some (), s0) \<and> cbb_tree 0 demo_tree s0 = (Some (), s1)
    \<and> CBB_finish 0 False s1 = (Some (Some buf, 12), s2)
    \<and> take 12 buf = [0x30, 10, 2, 1, 5, 0x30, 0, 0x9f, 0x40, 2, 1, 2]"
proof -
  have g: "der_tag 0x20000010 = [0x30]" "der_tag 2 = [2]" "der_tag 0x80000040 = [0x9f, 0x40]"
    by (simp_all add: der_tag_def tag_number_def tag_class_def b128_def drop_bit_eq_div)
  have l: "der_len 0 = [0]" "der_len (Suc 0) = [1]" "der_len 2 = [2]" "der_len 10 = [10]" "der_len (Suc (Suc 0)) = [2]"
    by (simp_all add: der_len_def)
  have i: "concat (map tree_enc [Prim 2 [5], Node 0x20000010 [], Prim 0x80000040 [1, 2]])
      = [2, 1, 5, 0x30, 0, 0x9f, 0x40, 2, 1, 2]"
    by (simp add: der_elem_def der_header_def g l)
  have t: "tree_enc demo_tree = [0x30, 10, 2, 1, 5, 0x30, 0, 0x9f, 0x40, 2, 1, 2]"
    unfolding demo_tree_def tree_enc.simps(2) [of "0x20000010" "[Prim 2 [5], Node 0x20000010 [], Prim 0x80000040 [1, 2]]"] i
    by (simp add: der_elem_def der_header_def g der_len_def)
  have f: "tree_fits demo_tree" "tree_ok demo_tree"
    using i by (simp_all add: demo_tree_def der_elem_def der_header_def g l)
  have n: "length (tree_enc demo_tree) = 12" by (simp add: t)
  then have "length (tree_enc demo_tree) < 2 ^ 61" by simp
  from CBB_writes_der_tree [OF heap_total_total_heap _ f this, of 2, unfolded n] show ?thesis
    unfolding t by simp
qed

section \<open>Values written and read back\<close>

text \<open>The bytes a client gets when it creates a builder, runs \<open>m\<close> on it and finishes.\<close>

definition cbb_run :: "(CBB, unit) st \<Rightarrow> nat \<Rightarrow> heap \<Rightarrow> u8 list option" where
  "cbb_run m cap h =
     (case CBB_init cap h of
        (None, _) \<Rightarrow> None
      | (Some _, s0) \<Rightarrow>
          (case st_bind m (\<lambda>_. CBB_finish 0 False) s0 of
             (None, _) \<Rightarrow> None
           | (Some (buf, len), _) \<Rightarrow> Some (take len (case buf of None \<Rightarrow> [] | Some b \<Rightarrow> b))))"

lemma cbb_run_total:
  assumes "heap_total h" "cap < 2 ^ 62"
    and "\<And>s. cbb_rep s ([], [[]]) \<Longrightarrow> outcome s fits (ks, cs) (m s)"
    and "fits" "full_fits ks cs" "length (full ks cs) < 2 ^ 61"
  shows "cbb_run m cap h = Some (full ks cs)"
proof -
  obtain s0 where s0: "CBB_init cap h = (Some (), s0)" "cbb_roomy s0" "cbb_rep s0 ([], [[]])"
    using CBB_init_total [OF assms(1,2)] by blast
  from assms(3) [OF s0(3)] obtain s1 where s1: "m s0 = (Some (), s1)" "cbb_rep s1 (ks, cs)" "cbb_roomy s1"
    using s0(2) assms(4,6) by (cases "m s0") (auto simp: outcome_def sk_size_def)
  from CBB_finish_total [OF s1(2,3)] assms(5,6)
  obtain buf s2 where "CBB_finish 0 False s1 = (Some (buf, length (full ks cs)), s2)"
    "take (length (full ks cs)) (case buf of None \<Rightarrow> [] | Some b \<Rightarrow> b) = full ks cs"
    by (auto simp: sk_size_def)
  then show ?thesis using s0(1) s1(1) by (simp add: cbb_run_def)
qed

lemma cbb_run_sound:
  assumes "heap_sane h" "cap + 8 < 2 ^ 64"
    and "\<And>s. cbb_rep s ([], [[]]) \<Longrightarrow> outcome s fits (ks, cs) (m s)"
    and "cbb_run m cap h = Some bs"
  shows "bs = full ks cs \<and> fits \<and> full_fits ks cs"
proof -
  obtain u s0 where s0: "CBB_init cap h = (Some u, s0)"
    using assms(4) by (auto simp: cbb_run_def split: prod.splits option.splits)
  obtain v s1 buf len s2 where s1: "m s0 = (Some v, s1)" "CBB_finish 0 False s1 = (Some (buf, len), s2)"
    "bs = take len (case buf of None \<Rightarrow> [] | Some b \<Rightarrow> b)"
    using assms(4) s0 by (auto simp: cbb_run_def st_bind_def split: prod.splits option.splits)
  have "cbb_rep s0 ([], [[]])" using CBB_init_rep [OF s0 assms(1,2)] .
  from outcome_Some [where m = m, OF assms(3) [OF this] s1(1)] CBB_finish_ok [OF _ s1(2)] show ?thesis
    using s1(3) by fastforce
qed

text \<open>C7. An unsigned 64-bit integer written with \<open>CBB_add_asn1_uint64\<close> is read back unchanged by
  \<open>CBS_get_asn1_uint64\<close>, with nothing left over.\<close>

theorem asn1_uint64_roundtrip:
  assumes "heap_total h" "cap < 2 ^ 62"
  shows "\<exists>bs. cbb_run (CBB_add_asn1_uint64 0 v) cap h = Some bs \<and> CBS_get_asn1_uint64 bs = (Some v, [])"
proof -
  let ?bs = "der_elem CBS_ASN1_INTEGER (int_enc (unat v))"
  have "length ?bs < 2 ^ 61"
    using length_int_enc [of v] length_der_tag [of CBS_ASN1_INTEGER]
    by (simp add: der_elem_def der_header_def der_len_def)
  then have "cbb_run (CBB_add_asn1_uint64 0 v) cap h = Some (full [] [?bs])"
    using CBB_add_asn1_uint64_outcome [of _ "([], [[]])" 0 v] assms
    by (intro cbb_run_total) (auto simp: sk_add_top sk_fits_def)
  moreover have "CBS_get_asn1_uint64 ?bs = (Some v, [])" using uint64_iff [of ?bs v "[]"] by simp
  ultimately show ?thesis by simp
qed

theorem asn1_uint64_roundtrip_witness:
  "\<exists>bs. cbb_run (CBB_add_asn1_uint64 0 200) 1 total_heap = Some bs \<and> CBS_get_asn1_uint64 bs = (Some 200, [])"
  using asn1_uint64_roundtrip [of total_heap 1 200] by simp

text \<open>C8. A vector written with a length prefix of one, two or three bytes is read back by the
  matching parser; contents that do not fit the prefix make the builder fail instead of being
  truncated.\<close>

theorem length_prefixed_roundtrip:
  assumes "heap_total h" "cap < 2 ^ 62" "0 < n" "n \<le> 3" "length c < 2 ^ 60"
  shows "case cbb_run (st_bind (cbb_add_length_prefixed 0 n) (\<lambda>_. CBB_add_bytes 1 c)) cap h of
      Some bs \<Rightarrow> length c < 256 ^ n \<and> cbs_get_length_prefixed n bs = (Some c, [])
    | None \<Rightarrow> 256 ^ n \<le> length c"
proof -
  let ?m = "st_bind (cbb_add_length_prefixed 0 n) (\<lambda>_. CBB_add_bytes 1 c)"
  have o: "outcome s True ([Plain n], [[], c]) (?m s)" if rep: "cbb_rep s ([], [[]])" for s
  proof -
    have p: "sk_push 0 (Plain n) ([], [[]]) = ([Plain n], [[], []])" by (simp add: sk_push_def sk_flush_def)
    have a: "sk_add (Suc 0) c ([Plain n], [[], []]) = ([Plain n], [[], c])" by (simp add: sk_add_def sk_flush_def append_last_def)
    have 1: "outcome s True ([Plain n], [[], []]) (cbb_add_length_prefixed 0 n s)"
      using length_prefixed_outcome [OF rep, of 0 n] assms(3,4) by (simp add: p sk_fits_def)
    have "outcome s (True \<and> True) ([Plain n], [[], c]) (?m s)"
      by (rule outcome_bind [where m = "cbb_add_length_prefixed 0 n", OF 1])
        (use CBB_add_bytes_fresh [of _ "([Plain n], [[], []])" 1 c] assms(5) in \<open>auto simp: a sk_size_def\<close>)
    then show ?thesis by simp
  qed
  show ?thesis
  proof (cases "length c < 256 ^ n")
    case True
    have "cbb_run ?m cap h = Some (full [Plain n] [[], c])"
      by (rule cbb_run_total [OF assms(1,2) o]) (use True assms in auto)
    then show ?thesis
      using True assms(4) length_prefixed_iff [of n "be_enc n (length c) @ c" c "[]"] by simp
  next
    case False
    have "heap_sane h" using assms(1) by (simp add: heap_total_def heap_sane_def)
    then have "cbb_run ?m cap h = None"
      using cbb_run_sound [of h cap True "[Plain n]" "[[], c]" ?m] o assms(2) False
      by (cases "cbb_run ?m cap h") fastforce+
    then show ?thesis using False by simp
  qed
qed

theorem length_prefixed_roundtrip_witness:
  "case cbb_run (st_bind (cbb_add_length_prefixed 0 2) (\<lambda>_. CBB_add_bytes 1 [7, 8])) 0 total_heap of
      Some bs \<Rightarrow> length [7 :: u8, 8] < 256 ^ 2 \<and> cbs_get_length_prefixed 2 bs = (Some [7, 8], [])
    | None \<Rightarrow> 256 ^ 2 \<le> length [7 :: u8, 8]"
  by (rule length_prefixed_roundtrip) simp_all

end
