(* ===== verification/Ber.thy ===== *)
theory Ber
  imports Cbb_Roundtrip
begin

text \<open>
  The conversion from BER to DER, \<open>ber.c\<close>.  \<open>cbs_find_ber\<close> looks for indefinite lengths and constructed
  strings, \<open>cbs_convert_ber\<close> rewrites the elements into a builder, \<open>CBS_asn1_ber_to_der\<close> combines the two and
  \<open>CBS_get_asn1_implicit_string\<close> reads a string that may be constructed.  The converter is compared with trees
  of BER elements: it accepts exactly their encodings and writes their DER form.
\<close>

section \<open>String types\<close>

definition kMaxDepth :: nat where
  "kMaxDepth = 2048"

definition CBS_ASN1_BITSTRING :: u32 where
  "CBS_ASN1_BITSTRING = 0x3"

definition CBS_ASN1_UTF8STRING :: u32 where
  "CBS_ASN1_UTF8STRING = 0xc"

definition CBS_ASN1_NUMERICSTRING :: u32 where
  "CBS_ASN1_NUMERICSTRING = 0x12"

definition CBS_ASN1_PRINTABLESTRING :: u32 where
  "CBS_ASN1_PRINTABLESTRING = 0x13"

definition CBS_ASN1_T61STRING :: u32 where
  "CBS_ASN1_T61STRING = 0x14"

definition CBS_ASN1_VIDEOTEXSTRING :: u32 where
  "CBS_ASN1_VIDEOTEXSTRING = 0x15"

definition CBS_ASN1_IA5STRING :: u32 where
  "CBS_ASN1_IA5STRING = 0x16"

definition CBS_ASN1_GRAPHICSTRING :: u32 where
  "CBS_ASN1_GRAPHICSTRING = 0x19"

definition CBS_ASN1_VISIBLESTRING :: u32 where
  "CBS_ASN1_VISIBLESTRING = 0x1a"

definition CBS_ASN1_GENERALSTRING :: u32 where
  "CBS_ASN1_GENERALSTRING = 0x1b"

definition CBS_ASN1_UNIVERSALSTRING :: u32 where
  "CBS_ASN1_UNIVERSALSTRING = 0x1c"

definition CBS_ASN1_BMPSTRING :: u32 where
  "CBS_ASN1_BMPSTRING = 0x1e"

definition is_string_type :: "u32 \<Rightarrow> bool" where
  "is_string_type tag \<longleftrightarrow> tag AND NOT CBS_ASN1_CONSTRUCTED \<in>
     {CBS_ASN1_BITSTRING, CBS_ASN1_OCTETSTRING, CBS_ASN1_UTF8STRING, CBS_ASN1_NUMERICSTRING,
      CBS_ASN1_PRINTABLESTRING, CBS_ASN1_T61STRING, CBS_ASN1_VIDEOTEXSTRING, CBS_ASN1_IA5STRING,
      CBS_ASN1_GRAPHICSTRING, CBS_ASN1_VISIBLESTRING, CBS_ASN1_GENERALSTRING, CBS_ASN1_UNIVERSALSTRING,
      CBS_ASN1_BMPSTRING}"

lemmas string_tag_defs = CBS_ASN1_BITSTRING_def CBS_ASN1_OCTETSTRING_def CBS_ASN1_UTF8STRING_def
  CBS_ASN1_NUMERICSTRING_def CBS_ASN1_PRINTABLESTRING_def CBS_ASN1_T61STRING_def CBS_ASN1_VIDEOTEXSTRING_def
  CBS_ASN1_IA5STRING_def CBS_ASN1_GRAPHICSTRING_def CBS_ASN1_VISIBLESTRING_def CBS_ASN1_GENERALSTRING_def
  CBS_ASN1_UNIVERSALSTRING_def CBS_ASN1_BMPSTRING_def

section \<open>Elements\<close>

text \<open>The header of an indefinite-length element.\<close>

definition indef :: "u32 \<Rightarrow> u8 list" where
  "indef tag = der_tag tag @ [0x80]"

definition constructed :: "u32 \<Rightarrow> bool" where
  "constructed tag \<longleftrightarrow> tag AND CBS_ASN1_CONSTRUCTED \<noteq> 0"

lemma ber_element_cases:
  "cbs_get_any_asn1_element True cbs =
     (case parse_asn1_tag cbs of
        (Some tag, b # r) \<Rightarrow>
          if b = 0x80 \<and> constructed tag
          then st_bind (CBS_get_bytes (CBS_len cbs - CBS_len r)) (\<lambda>out. st_return (out, tag, CBS_len cbs - CBS_len r)) cbs
          else cbs_get_any_asn1_element False cbs
      | _ \<Rightarrow> cbs_get_any_asn1_element False cbs)"
proof -
  have "b AND 0x80 \<noteq> 0 \<and> unat (b AND 0x7f) = 0 \<longleftrightarrow> b = 0x80" for b :: u8
  proof -
    have n: "m < 256 \<Longrightarrow> 128 \<le> m \<and> m mod 128 = 0 \<longleftrightarrow> m = 128" for m :: nat by presburger
    have "unat b = 128 \<longleftrightarrow> b = 0x80" using word_unat_eq_iff [of b "0x80"] by simp
    then show ?thesis using cont_iff [of b] n [OF unat_u8_lt [of b]] by (simp add: and_7f cont_def)
  qed
  then show ?thesis
    by (auto simp: cbs_get_any_asn1_element_def constructed_def CBS_get_u8_simps Let_def split: prod.splits option.splits list.splits)
qed

lemma ber_element_iff:
  "CBS_get_any_ber_asn1_element cbs = (Some (el, tag, hl), rest) \<longleftrightarrow>
     cbs = el @ rest \<and>
     (constructed tag \<and> el = indef tag \<and> hl = length el
      \<or> (\<exists>c. el = der_elem tag c \<and> hl = length (der_header tag (length c)) \<and> length c < 2 ^ 32))"
  (is "?L \<longleftrightarrow> ?R")
proof (cases "\<exists>tag b r. parse_asn1_tag cbs = (Some tag, b # r) \<and> b = 0x80 \<and> constructed tag")
  case True
  then obtain tag' r where p: "parse_asn1_tag cbs = (Some tag', 0x80 # r)" "constructed tag'" by auto
  have cbs: "cbs = indef tag' @ r" using parse_asn1_tag_sound [OF p(1)] by (simp add: indef_def)
  have run: "CBS_get_any_ber_asn1_element cbs = (Some (indef tag', tag', length (indef tag')), r)"
    unfolding CBS_get_any_ber_asn1_element_def ber_element_cases p(1)
    using p(2) by (simp add: cbs CBS_get_bytes_def CBS_init_def cbs_get_def CBS_len_def st_bind_def)
  have ne: "cbs \<noteq> der_elem tag c @ rest" for c
  proof
    assume "cbs = der_elem tag c @ rest"
    then have "parse_asn1_tag cbs = (Some tag, der_len (length c) @ c @ rest)"
      by (simp add: parse_asn1_tag_canonical der_elem_def der_header_def)
    then have "der_len (length c) @ c @ rest = 0x80 # r" using p(1) by simp
    then have "hd (der_len (length c)) = 0x80" by (auto simp: der_len_def split: if_splits)
    then have "unat (hd (der_len (length c))) = 128" by simp
    moreover have "unat (hd (der_len n)) \<noteq> 128" for n
    proof (cases "n < 128")
      case True
      then show ?thesis by (simp add: der_len_def)
    next
      case False
      have "len_bytes n \<in> {1, 2, 3, 4}" by (simp add: len_bytes_def)
      then have "unat (word_of_nat (128 + len_bytes n) :: u8) = 128 + len_bytes n" "0 < len_bytes n"
        by (auto simp: unat_word_of_nat_u8 simp del: of_nat_add)
      then show ?thesis using False by (simp add: der_len_def del: of_nat_add)
    qed
    ultimately show False by blast
  qed
  have eq: "tag = tag' \<and> rest = r" if "cbs = indef tag @ rest"
    using p(1) parse_asn1_tag_complete [of tag "0x80 # rest"] that by (simp add: indef_def)
  show ?thesis
  proof
    assume ?L
    then have "el = indef tag'" "tag = tag'" "hl = length el" "rest = r" using run by auto
    then show ?R using p(2) cbs by blast
  next
    assume ?R
    then have el: "constructed tag" "el = indef tag" "hl = length el" "cbs = indef tag @ rest" using ne by blast+
    then show ?L using run eq [OF el(4)] by simp
  qed
next
  case False
  then have "CBS_get_any_ber_asn1_element cbs = CBS_get_any_asn1_element cbs"
    unfolding CBS_get_any_ber_asn1_element_def CBS_get_any_asn1_element_def ber_element_cases
    by (simp split: prod.split option.split list.split) blast
  moreover have "\<not> (cbs = indef tag @ rest \<and> constructed tag)"
    using False parse_asn1_tag_complete [of tag "0x80 # rest"] by (auto simp: indef_def)
  ultimately show ?thesis by (auto simp: any_asn1_element_iff)
qed

lemma ber_element_shorter:
  assumes "CBS_get_any_ber_asn1_element cbs = (Some (el, tag, hl), rest)"
  shows "length rest < length cbs \<and> length (drop hl el) < length cbs \<and> 0 < hl \<and> hl \<le> length el"
  using assms length_der_tag [of tag] by (auto simp: ber_element_iff indef_def der_elem_def der_header_def)

lemma der_tag_not_Nil [simp]: "der_tag tag \<noteq> []"
  using length_der_tag [of tag] by auto

section \<open>Looking for BER\<close>

text \<open>The test of the C code for the header of an indefinite-length element.\<close>

definition is_indefinite :: "nat \<Rightarrow> CBS \<Rightarrow> bool" where
  "is_indefinite header_len contents \<longleftrightarrow>
     CBS_len contents = header_len \<and> header_len > 0 \<and> contents ! (header_len - 1) = 0x80"

text \<open>\<open>found\<close> is the value of \<open>*ber_found\<close>; a nested call resets it.\<close>

function find_ber_loop :: "nat \<Rightarrow> bool \<Rightarrow> CBS \<Rightarrow> bool option" where
  "find_ber_loop depth found inp =
     (if CBS_len inp > 0 then
        case CBS_get_any_ber_asn1_element inp of
          (None, _) \<Rightarrow> None
        | (Some (contents, tag, header_len), inp') \<Rightarrow>
            if is_indefinite header_len contents then Some True
            else if tag AND CBS_ASN1_CONSTRUCTED \<noteq> 0 then
              if is_string_type tag then Some True
              else (case CBS_skip header_len contents of
                      (None, _) \<Rightarrow> None
                    | (Some _, contents') \<Rightarrow>
                        (case (if depth + 1 > kMaxDepth then None else find_ber_loop (depth + 1) False contents') of
                           None \<Rightarrow> None
                         | Some found' \<Rightarrow> find_ber_loop depth found' inp'))
            else find_ber_loop depth found inp'
      else Some found)"
  by auto
termination
  by (relation "measure (\<lambda>(_, _, inp). length inp)")
    (auto simp: CBS_skip_def cbs_get_def st_bind_def dest!: ber_element_shorter [OF sym] split: if_splits)

declare find_ber_loop.simps [simp del]

definition cbs_find_ber :: "CBS \<Rightarrow> nat \<Rightarrow> bool option" where
  "cbs_find_ber orig_in depth = (if depth > kMaxDepth then None else find_ber_loop depth False orig_in)"

section \<open>Conversion\<close>

definition is_eoc :: "nat \<Rightarrow> CBS \<Rightarrow> bool" where
  "is_eoc header_len contents \<longleftrightarrow> header_len = 2 \<and> CBS_len contents = 2 \<and> contents = [0, 0]"

text \<open>The converter returns what is left of its input.  \<open>d\<close> is the builder \<open>out\<close>; the first argument bounds
  the number of iterations and nested calls on one path, for which one more than the input bytes is enough.\<close>

fun cbs_convert_ber :: "nat \<Rightarrow> nat \<Rightarrow> u32 \<Rightarrow> bool \<Rightarrow> nat \<Rightarrow> CBS \<Rightarrow> (CBB, CBS) st"
  and convert_loop :: "nat \<Rightarrow> nat \<Rightarrow> u32 \<Rightarrow> bool \<Rightarrow> nat \<Rightarrow> CBS \<Rightarrow> (CBB, CBS) st" where
  "cbs_convert_ber n d string_tag looking_for_eoc depth inp =
     (if depth > kMaxDepth then st_fail else convert_loop n d string_tag looking_for_eoc depth inp)"
| "convert_loop 0 d string_tag looking_for_eoc depth inp = st_fail"
| "convert_loop (Suc n) d string_tag looking_for_eoc depth inp =
     (if CBS_len inp > 0 then
        case CBS_get_any_ber_asn1_element inp of
          (None, _) \<Rightarrow> st_fail
        | (Some (contents, tag, header_len), inp') \<Rightarrow>
            if is_eoc header_len contents then (if looking_for_eoc then st_return inp' else st_fail)
            else if string_tag \<noteq> 0 \<and> tag AND NOT CBS_ASN1_CONSTRUCTED \<noteq> string_tag then st_fail
            else
              let to_string = string_tag = 0 \<and> tag AND CBS_ASN1_CONSTRUCTED \<noteq> 0 \<and> is_string_type tag;
                  out_tag = (if to_string then tag AND NOT CBS_ASN1_CONSTRUCTED else tag);
                  child_string_tag = (if to_string then out_tag else string_tag);
                  out_contents = (if string_tag \<noteq> 0 then d else Suc d) in
              st_bind (if string_tag \<noteq> 0 then st_return () else CBB_add_asn1 d out_tag) (\<lambda>_.
                if is_indefinite header_len contents then
                  st_bind (cbs_convert_ber n out_contents child_string_tag True (depth + 1) inp') (\<lambda>inp''.
                    st_bind (CBB_flush d) (\<lambda>_.
                      convert_loop n d string_tag looking_for_eoc depth inp''))
                else
                  (case CBS_skip header_len contents of
                     (None, _) \<Rightarrow> st_fail
                   | (Some _, contents') \<Rightarrow>
                       st_bind
                         (if tag AND CBS_ASN1_CONSTRUCTED \<noteq> 0 then
                            st_bind (cbs_convert_ber n out_contents child_string_tag False (depth + 1) contents')
                              (\<lambda>_. st_return ())
                          else CBB_add_bytes out_contents contents') (\<lambda>_.
                         st_bind (CBB_flush d) (\<lambda>_.
                           convert_loop n d string_tag looking_for_eoc depth inp'))))
      else if looking_for_eoc then st_fail else st_return inp)"

text \<open>\<open>Some (out, out_len, in)\<close> is a successful call; a null \<open>*out\<close> means that no conversion was needed.\<close>

definition CBS_asn1_ber_to_der :: "CBS \<Rightarrow> heap \<Rightarrow> (u8 list option \<times> nat \<times> CBS) option \<times> heap" where
  "CBS_asn1_ber_to_der inp h =
     (case cbs_find_ber inp 0 of
        None \<Rightarrow> (None, h)
      | Some conversion_needed \<Rightarrow>
          if \<not> conversion_needed then (Some (None, 0, inp), h)
          else (case CBB_init (CBS_len inp) h of
                  (None, s) \<Rightarrow> (None, cb_heap (CBB_cleanup s))
                | (Some _, s) \<Rightarrow>
                    (case st_bind (cbs_convert_ber (Suc (CBS_len inp)) 0 0 False 0 inp) (\<lambda>inp'.
                            st_bind (CBB_finish 0 False) (\<lambda>(out, out_len). st_return (out, out_len, inp'))) s of
                       (None, s') \<Rightarrow> (None, cb_heap (CBB_cleanup s'))
                     | (Some r, s') \<Rightarrow> (Some r, cb_heap s'))))"

section \<open>Implicitly tagged strings\<close>

function implicit_loop :: "u32 \<Rightarrow> CBS \<Rightarrow> (CBB, unit) st" where
  "implicit_loop inner_tag child =
     (if CBS_len child > 0 then
        case CBS_get_asn1 inner_tag child of
          (None, _) \<Rightarrow> st_fail
        | (Some chunk, child') \<Rightarrow> st_bind (CBB_add_bytes 0 chunk) (\<lambda>_. implicit_loop inner_tag child')
      else st_return ())"
  by auto
termination
  by (relation "measure (\<lambda>(_, child). length child)")
    (auto simp: get_asn1_iff der_elem_def der_header_def dest!: sym [of "(Some _, _)"])

declare implicit_loop.simps [simp del]

text \<open>The result is \<open>out\<close>, \<open>out_storage\<close> and what is left of the input.\<close>

definition CBS_get_asn1_implicit_string ::
    "u32 \<Rightarrow> u32 \<Rightarrow> CBS \<Rightarrow> heap \<Rightarrow> (CBS \<times> u8 list option \<times> CBS) option \<times> heap" where
  "CBS_get_asn1_implicit_string outer_tag inner_tag inp h =
     (if CBS_peek_asn1_tag inp outer_tag then
        (case CBS_get_asn1 outer_tag inp of
           (None, _) \<Rightarrow> (None, h)
         | (Some out, inp') \<Rightarrow> (Some (out, None, inp'), h))
      else (case CBB_init (CBS_len inp) h of
              (None, s) \<Rightarrow> (None, cb_heap (CBB_cleanup s))
            | (Some _, s) \<Rightarrow>
                (case CBS_get_asn1 (outer_tag OR CBS_ASN1_CONSTRUCTED) inp of
                   (None, _) \<Rightarrow> (None, cb_heap (CBB_cleanup s))
                 | (Some child, inp') \<Rightarrow>
                     (case st_bind (implicit_loop inner_tag child) (\<lambda>_. CBB_finish 0 False) s of
                        (None, s') \<Rightarrow> (None, cb_heap (CBB_cleanup s'))
                      | (Some (data, len), s') \<Rightarrow>
                          (Some (CBS_init (take len (case data of None \<Rightarrow> [] | Some b \<Rightarrow> b)), data, inp'), cb_heap s')))))"

section \<open>Trees of BER elements\<close>

text \<open>A constructed element carries whether its length is indefinite.\<close>

datatype ber = BPrim u32 "u8 list" | BCons u32 bool "ber list"

fun ber_enc :: "ber \<Rightarrow> u8 list" where
  "ber_enc (BPrim tag c) = der_elem tag c"
| "ber_enc (BCons tag i ts) =
     (if i then indef tag @ concat (map ber_enc ts) @ [0, 0] else der_elem tag (concat (map ber_enc ts)))"

abbreviation ber_encs :: "ber list \<Rightarrow> u8 list" where
  "ber_encs ts \<equiv> concat (map ber_enc ts)"

text \<open>The tag of the string an element is a fragment of, or zero, below an element with tag \<open>tag\<close>.\<close>

definition child_tag :: "u32 \<Rightarrow> u32 \<Rightarrow> u32" where
  "child_tag st tag = (if st = 0 \<and> is_string_type tag then tag AND NOT CBS_ASN1_CONSTRUCTED else st)"

text \<open>The elements the converter accepts: primitive ones other than the end of contents, constructed ones up to
  the depth limit, and inside a constructed string only fragments of the same type.\<close>

fun ber_ok :: "nat \<Rightarrow> u32 \<Rightarrow> ber \<Rightarrow> bool" where
  "ber_ok n st (BPrim tag c) \<longleftrightarrow> \<not> constructed tag \<and> (tag = 0 \<longrightarrow> c \<noteq> []) \<and> length c < 2 ^ 32 \<and> (st \<noteq> 0 \<longrightarrow> tag = st)"
| "ber_ok n st (BCons tag i ts) \<longleftrightarrow> constructed tag \<and> n < kMaxDepth \<and> (i \<or> length (ber_encs ts) < 2 ^ 32)
     \<and> (st \<noteq> 0 \<longrightarrow> tag AND NOT CBS_ASN1_CONSTRUCTED = st) \<and> list_all (ber_ok (Suc n) (child_tag st tag)) ts"

text \<open>The DER form: definite lengths, and the fragments of a string joined in one primitive element.\<close>

fun to_der :: "u32 \<Rightarrow> ber \<Rightarrow> u8 list" where
  "to_der st (BPrim tag c) = (if st \<noteq> 0 then c else der_elem tag c)"
| "to_der st (BCons tag i ts) =
     (let c = concat (map (to_der (child_tag st tag)) ts) in
      if st \<noteq> 0 then c else der_elem (if is_string_type tag then tag AND NOT CBS_ASN1_CONSTRUCTED else tag) c)"

abbreviation to_ders :: "u32 \<Rightarrow> ber list \<Rightarrow> u8 list" where
  "to_ders st ts \<equiv> concat (map (to_der st) ts)"

text \<open>What the converter does on the builder for given elements.\<close>

fun write_ber :: "nat \<Rightarrow> u32 \<Rightarrow> ber \<Rightarrow> (CBB, unit) st"
  and write_bers :: "nat \<Rightarrow> u32 \<Rightarrow> ber list \<Rightarrow> (CBB, unit) st" where
  "write_ber d st (BPrim tag c) =
     (if st \<noteq> 0 then st_bind (CBB_add_bytes d c) (\<lambda>_. CBB_flush d)
      else st_bind (CBB_add_asn1 d tag) (\<lambda>_. st_bind (CBB_add_bytes (Suc d) c) (\<lambda>_. CBB_flush d)))"
| "write_ber d st (BCons tag i ts) =
     (if st \<noteq> 0 then st_bind (write_bers d st ts) (\<lambda>_. CBB_flush d)
      else st_bind (CBB_add_asn1 d (if is_string_type tag then tag AND NOT CBS_ASN1_CONSTRUCTED else tag)) (\<lambda>_.
        st_bind (write_bers (Suc d) (child_tag st tag) ts) (\<lambda>_. CBB_flush d)))"
| "write_bers d st [] = st_return ()"
| "write_bers d st (t # ts) = st_bind (write_ber d st t) (\<lambda>_. write_bers d st ts)"

lemma not_cons_id: "\<not> constructed tag \<Longrightarrow> tag AND NOT CBS_ASN1_CONSTRUCTED = tag"
proof -
  assume "\<not> constructed tag"
  moreover have "(tag AND CBS_ASN1_CONSTRUCTED) OR (tag AND NOT CBS_ASN1_CONSTRUCTED) = tag"
    by (rule bit_word_eqI) (auto simp: bit_simps)
  ultimately show ?thesis by (simp add: constructed_def)
qed

subsection \<open>One element of the input\<close>

lemma is_eoc_elem:
  assumes "CBS_get_any_ber_asn1_element inp = (Some (el, tag, hl), inp')"
  shows "is_eoc hl el \<longleftrightarrow> el = [0, 0]"
proof -
  have "hl = 2" if el: "el = [0, 0]"
  proof -
    have "parse_asn1_tag inp = (Some 0, 0 # inp')"
      using assms by (simp add: parse_asn1_tag_canonical ber_element_iff el der_tag_def tag_number_def tag_class_def)
    moreover obtain r where "parse_asn1_tag inp = (Some tag, r)"
      using assms by (auto simp: ber_element_iff parse_asn1_tag_canonical indef_def der_elem_def der_header_def)
    ultimately have "tag = 0" by simp
    then have "der_tag tag = [0]" by (simp add: der_tag_def tag_number_def tag_class_def)
    then show ?thesis using assms el
      by (auto simp: ber_element_iff indef_def der_elem_def der_header_def der_len_def split: if_splits)
  qed
  then show ?thesis by (auto simp: is_eoc_def CBS_len_def)
qed

lemma is_indefinite_indef [simp]: "is_indefinite (length (indef tag)) (indef tag)"
  by (simp add: is_indefinite_def indef_def CBS_len_def nth_append)

lemma not_is_indefinite_elem [simp]: "\<not> is_indefinite (length (der_header tag (length c))) (der_elem tag c)"
  by (auto simp: is_indefinite_def der_elem_def CBS_len_def der_header_def der_len_def nth_append)

lemma skip_header [simp]: "CBS_skip (length (der_header tag (length c))) (der_elem tag c) = (Some (), c)"
  by (simp add: CBS_skip_def cbs_get_def st_bind_def der_elem_def)

lemma get_indef: "constructed tag \<Longrightarrow>
    CBS_get_any_ber_asn1_element (indef tag @ rest) = (Some (indef tag, tag, length (indef tag)), rest)"
  by (simp add: ber_element_iff)

lemma get_elem: "length c < 2 ^ 32 \<Longrightarrow>
    CBS_get_any_ber_asn1_element (der_elem tag c @ rest) = (Some (der_elem tag c, tag, length (der_header tag (length c))), rest)"
  by (auto simp: ber_element_iff)

lemma elem_eoc_iff: "der_elem tag c = [0, 0] \<longleftrightarrow> tag = 0 \<and> c = []" and indef_eoc: "indef tag \<noteq> [0, 0]"
proof -
  have t0: "der_tag 0 = [0]" by (simp add: der_tag_def tag_number_def tag_class_def)
  show "der_elem tag c = [0, 0] \<longleftrightarrow> tag = 0 \<and> c = []"
  proof
    assume e: "der_elem tag c = [0, 0]"
    then have "parse_asn1_tag [0, 0] = (Some tag, der_len (length c) @ c)"
      using parse_asn1_tag_complete [of tag "der_len (length c) @ c"] by (simp add: der_elem_def der_header_def)
    moreover have "parse_asn1_tag [0, 0] = (Some 0, [0])" using parse_asn1_tag_complete [of 0 "[0]"] by (simp add: t0)
    ultimately have "tag = 0" "der_len (length c) @ c = [0]" by simp_all
    then show "tag = 0 \<and> c = []" by (auto simp: der_len_def split: if_splits)
  next
    assume "tag = 0 \<and> c = []"
    then show "der_elem tag c = [0, 0]" by (simp add: der_elem_def der_header_def t0 der_len_def)
  qed
  show "indef tag \<noteq> [0, 0]" by (auto simp: indef_def)
qed

lemma get_eoc: "CBS_get_any_ber_asn1_element (0 # 0 # rest) = (Some ([0, 0], 0, 2), rest)"
  using get_elem [of "[]" 0 rest] elem_eoc_iff [of 0 "[]"]
  by (auto simp: der_header_def der_tag_def tag_number_def tag_class_def der_len_def)

subsection \<open>The converter writes the elements of its input\<close>

lemma st_bind_return_left [simp]: "st_bind (st_return x) f = f x"
  by (rule ext) (simp add: st_bind_def)

lemma st_bind_return_unit [simp]: "st_bind m (\<lambda>_. st_return ()) = m"
proof
  fix s
  show "st_bind m (\<lambda>_. st_return ()) s = m s"
    by (cases "m s") (simp add: st_bind_def split: option.split)
qed

abbreviation eoc_tail :: "bool \<Rightarrow> CBS \<Rightarrow> CBS" where
  "eoc_tail eoc rest \<equiv> (if eoc then [0, 0] @ rest else [])"

lemma length_ber_enc: "2 \<le> length (ber_enc t)"
  by (cases t) (auto simp: indef_def der_elem_def der_header_def der_len_def Suc_le_eq)

lemma convert_loop_run:
  "list_all (ber_ok depth st) ts \<Longrightarrow> length (ber_encs ts) < n \<Longrightarrow>
     convert_loop n d st eoc depth (ber_encs ts @ eoc_tail eoc rest)
       = st_bind (write_bers d st ts) (\<lambda>_. st_return (if eoc then rest else []))"
proof (induction n arbitrary: d st eoc depth ts rest)
  case (Suc n)
  show ?case
  proof (cases ts)
    case Nil
    then show ?thesis using get_eoc by (simp add: CBS_len_def is_eoc_def fun_eq_iff)
  next
    case (Cons t us)
    have us: "list_all (ber_ok depth st) us" "length (ber_encs us) < n" and ok: "ber_ok depth st t"
      using Suc.prems Cons length_ber_enc [of t] by simp_all
    define T R where "T = ber_encs us @ eoc_tail eoc rest" and "R = (if eoc then rest else [])"
    have next_run: "convert_loop n d st eoc depth T = st_bind (write_bers d st us) (\<lambda>_. st_return R)"
      using Suc.IH [OF us, of d eoc rest] by (simp only: T_def R_def)
    have inp: "ber_encs ts @ eoc_tail eoc rest = ber_enc t @ T" by (simp add: Cons T_def)
    have pos: "CBS_len (ber_enc t @ T) > 0" using length_ber_enc [of t] by (auto simp: CBS_len_def)
    have "convert_loop (Suc n) d st eoc depth (ber_enc t @ T) = st_bind (write_bers d st ts) (\<lambda>_. st_return R)"
    proof (cases t)
      case (BPrim tag c)
      have k: "length c < 2 ^ 32" "\<not> constructed tag" "st \<noteq> 0 \<longrightarrow> tag AND NOT CBS_ASN1_CONSTRUCTED = st"
        "\<not> is_eoc (length (der_header tag (length c))) (der_elem tag c)"
        using ok BPrim by (auto simp: not_cons_id is_eoc_def elem_eoc_iff)
      then have nc: "tag AND CBS_ASN1_CONSTRUCTED = 0" by (simp add: constructed_def)
      show ?thesis
        using k nc get_elem [OF k(1), of tag T] pos by (simp add: next_run st_bind_assoc Cons BPrim Let_def)
    next
      case (BCons tag i vs)
      have k: "constructed tag" "depth < kMaxDepth" "st \<noteq> 0 \<longrightarrow> tag AND NOT CBS_ASN1_CONSTRUCTED = st"
        "list_all (ber_ok (Suc depth) (child_tag st tag)) vs"
        using ok BCons by simp_all
      then have nc: "tag AND CBS_ASN1_CONSTRUCTED \<noteq> 0" by (simp add: constructed_def)
      have l: "length (ber_encs vs) < n"
        using Suc.prems(2) Cons BCons length_der_tag [of tag]
        by (auto simp: indef_def der_elem_def der_header_def split: if_splits)
      show ?thesis
      proof (cases i)
        case True
        have inner: "convert_loop n d' (child_tag st tag) True (Suc depth) (ber_encs vs @ 0 # 0 # T)
            = st_bind (write_bers d' (child_tag st tag) vs) (\<lambda>_. st_return T)" for d'
          using Suc.IH [OF k(4) l, of d' True T] by (simp only: if_True append_Cons append_Nil)
        have ne: "\<not> is_eoc (length (indef tag)) (indef tag)" using indef_eoc by (simp add: is_eoc_def)
        show ?thesis
          using k nc ne inner next_run get_indef [OF k(1), of "ber_encs vs @ 0 # 0 # T"] pos
          by (cases "st = 0"; cases "is_string_type tag")
            (simp_all add: st_bind_assoc Cons BCons True Let_def child_tag_def)
      next
        case False
        have k': "length (ber_encs vs) < 2 ^ 32" using ok BCons False by simp
        have inner: "convert_loop n d' (child_tag st tag) False (Suc depth) (ber_encs vs)
            = st_bind (write_bers d' (child_tag st tag) vs) (\<lambda>_. st_return [])" for d'
          using Suc.IH [OF k(4) l, of d' False] by (simp only: if_False append_Nil2)
        have ne: "\<not> is_eoc (length (der_header tag (length (ber_encs vs)))) (der_elem tag (ber_encs vs))"
          using elem_eoc_iff [of tag "ber_encs vs"] k(1) by (auto simp: is_eoc_def constructed_def)
        show ?thesis
          using k nc ne inner next_run get_elem [OF k', of tag T] pos
          by (cases "st = 0"; cases "is_string_type tag")
            (simp_all add: st_bind_assoc Cons BCons False Let_def child_tag_def)
      qed
    qed
    then show ?thesis by (simp only: inp R_def)
  qed
qed simp

text \<open>Whatever the converter accepts is a sequence of such elements.\<close>

lemma convert_loop_Suc_Some:
  assumes "convert_loop (Suc n) d st eoc depth inp s = (Some rest, t)" "inp \<noteq> []"
  obtains (eoc) "eoc" "inp = [0, 0] @ rest"
  | (prim) tag c inp' s' where "inp = der_elem tag c @ inp'" "length c < 2 ^ 32" "tag = 0 \<longrightarrow> c \<noteq> []" "\<not> constructed tag"
      "st \<noteq> 0 \<longrightarrow> tag = st" "convert_loop n d st eoc depth inp' s' = (Some rest, t)"
  | (def) tag c inp' d' s1 s2 r s' where "inp = der_elem tag c @ inp'" "length c < 2 ^ 32" "constructed tag" "depth < kMaxDepth"
      "st \<noteq> 0 \<longrightarrow> tag AND NOT CBS_ASN1_CONSTRUCTED = st"
      "convert_loop n d' (child_tag st tag) False (Suc depth) c s1 = (Some r, s2)"
      "convert_loop n d st eoc depth inp' s' = (Some rest, t)"
  | (ind) tag inp' d' s1 s2 r s' where "inp = indef tag @ inp'" "constructed tag" "depth < kMaxDepth"
      "st \<noteq> 0 \<longrightarrow> tag AND NOT CBS_ASN1_CONSTRUCTED = st"
      "convert_loop n d' (child_tag st tag) True (Suc depth) inp' s1 = (Some r, s2)"
      "convert_loop n d st eoc depth r s' = (Some rest, t)"
proof -
  obtain el tag hl inp' where g: "CBS_get_any_ber_asn1_element inp = (Some (el, tag, hl), inp')"
    using assms by (auto simp: CBS_len_def split: prod.splits option.splits)
  then have inp: "inp = el @ inp'" by (simp add: ber_element_iff)
  show thesis
  proof (cases "is_eoc hl el")
    case True
    then show thesis using eoc assms g is_eoc_elem [OF g] inp by (auto simp: CBS_len_def split: if_splits)
  next
    case ne: False
    have st: "st \<noteq> 0 \<longrightarrow> tag AND NOT CBS_ASN1_CONSTRUCTED = st"
      using assms g ne by (auto simp: CBS_len_def split: if_splits)
    from g consider "constructed tag" "el = indef tag" "hl = length el"
      | c where "el = der_elem tag c" "hl = length (der_header tag (length c))" "length c < 2 ^ 32"
      by (auto simp: ber_element_iff)
    then show thesis
    proof cases
      case 1
      then have "tag AND CBS_ASN1_CONSTRUCTED \<noteq> 0" by (simp add: constructed_def)
      with 1 ind [of tag inp'] assms g ne st inp show thesis
        by (auto simp: CBS_len_def Let_def st_bind_eq_Some child_tag_def split: if_splits)
    next
      case (2 c)
      show thesis
      proof (cases "constructed tag")
        case True
        then have "tag AND CBS_ASN1_CONSTRUCTED \<noteq> 0" by (simp add: constructed_def)
        with 2 True def [of tag c inp'] assms g ne st inp show thesis
          by (auto simp: CBS_len_def Let_def st_bind_eq_Some child_tag_def split: if_splits)
      next
        case False
        then have "tag AND CBS_ASN1_CONSTRUCTED = 0" by (simp add: constructed_def)
        moreover have "tag = 0 \<longrightarrow> c \<noteq> []" using ne 2 is_eoc_elem [OF g] elem_eoc_iff [of tag c] by auto
        ultimately show thesis using 2 False prim [of tag c inp'] assms g ne st inp not_cons_id [OF False]
          by (auto simp: CBS_len_def Let_def st_bind_eq_Some split: if_splits)
      qed
    qed
  qed
qed

lemma convert_loop_sound:
  "convert_loop n d st eoc depth inp s = (Some rest, t) \<Longrightarrow>
     \<exists>ts. list_all (ber_ok depth st) ts \<and> inp = ber_encs ts @ eoc_tail eoc rest \<and> (\<not> eoc \<longrightarrow> rest = [])"
proof (induction n arbitrary: d st eoc depth inp s rest t)
  case (Suc n)
  show ?case
  proof (cases "inp = []")
    case True
    then show ?thesis using Suc.prems by (intro exI [of _ "[]"]) (auto simp: CBS_len_def split: if_splits)
  next
    case False
    have push: ?thesis if v: "ber_ok depth st v" "inp = ber_enc v @ inp'" "convert_loop n d st eoc depth inp' s' = (Some rest, t)" for v inp' s'
    proof -
      obtain ts where "list_all (ber_ok depth st) ts" "inp' = ber_encs ts @ eoc_tail eoc rest" "\<not> eoc \<longrightarrow> rest = []"
        using Suc.IH [OF v(3)] by blast
      then show ?thesis using v(1,2) by (intro exI [of _ "v # ts"]) simp
    qed
    show ?thesis using Suc.prems False
    proof (cases rule: convert_loop_Suc_Some)
      case eoc
      then show ?thesis by (intro exI [of _ "[]"]) simp
    next
      case (prim tag c inp' s')
      then show ?thesis by (intro push [of "BPrim tag c" inp' s']) simp_all
    next
      case (def tag c inp' d' s1 s2 r s')
      obtain vs where "list_all (ber_ok (Suc depth) (child_tag st tag)) vs" "c = ber_encs vs"
        using Suc.IH [OF def(6)] by auto
      then show ?thesis using def by (intro push [of "BCons tag False vs" inp' s']) simp_all
    next
      case (ind tag inp' d' s1 s2 r s')
      obtain vs where "list_all (ber_ok (Suc depth) (child_tag st tag)) vs" "inp' = ber_encs vs @ [0, 0] @ r"
        using Suc.IH [OF ind(5)] by auto
      then show ?thesis using ind by (intro push [of "BCons tag True vs" r s']) simp_all
    qed
  qed
qed simp

subsection \<open>What the builder holds afterwards\<close>

text \<open>Every element that is written must fit the builder's limit on lengths.\<close>

fun ber_fits :: "u32 \<Rightarrow> ber \<Rightarrow> bool" where
  "ber_fits st (BPrim tag c) \<longleftrightarrow> st \<noteq> 0 \<or> length c < 0xffffffff"
| "ber_fits st (BCons tag i ts) \<longleftrightarrow> list_all (ber_fits (child_tag st tag)) ts
     \<and> (st \<noteq> 0 \<or> length (to_ders (child_tag st tag) ts) < 0xffffffff)"

lemma flush_again:
  assumes "length (snd A) = Suc (length (fst A))" "d \<le> length (fst A)" "outcome s f (sk_add d x A) (m s)"
  shows "outcome s f (sk_add d x A) (st_bind m (\<lambda>_. CBB_flush d) s)"
proof -
  have "outcome t True (sk_add d x A) (CBB_flush d t)" if "cbb_rep t (sk_add d x A)" for t
    using CBB_flush_outcome [OF that, of d] assms(1,2) by simp
  then show ?thesis using outcome_bind [where m = m and g = "\<lambda>_. CBB_flush d", OF assms(3), of "sk_add d x A" True] by simp
qed

lemma element_again:
  assumes len: "length (snd A) = Suc (length (fst A))" "d \<le> length (fst A)" and rep: "cbb_rep s (sk_add d a A)"
    and body: "\<And>t C. cbb_rep t C \<Longrightarrow> length (snd C) = Suc (length (fst C)) \<Longrightarrow> length (fst C) = Suc d \<Longrightarrow>
      outcome t f (sk_add (Suc d) c C) (m t)"
  shows "outcome s (f \<and> length c < 0xffffffff) (sk_add d (a @ der_elem tag c) A)
    (st_bind (CBB_add_asn1 d tag) (\<lambda>_. st_bind m (\<lambda>_. CBB_flush d)) s)"
proof -
  let ?B = "sk_add d a A"
  have B: "length (snd ?B) = Suc (length (fst ?B))" "length (fst ?B) = d" using len by simp_all
  let ?C = "sk_push d Asn1 (sk_add d (der_tag tag) ?B)"
  have "outcome t f (sk_add (Suc d) c ?C) (m t)" if "cbb_rep t ?C" for t
    using that by (rule body) (use B in simp_all)
  then have "outcome s (sk_fits d ?B \<and> f \<and> length c < 0xffffffff) (sk_add d (der_elem tag c) ?B)
    (st_bind (CBB_add_asn1 d tag) (\<lambda>_. st_bind m (\<lambda>_. CBB_flush d)) s)"
    using B(2) by (intro element_outcome_if [OF rep]) simp_all
  then show ?thesis using B len by (simp add: sk_add_add)
qed

lemma write_ber_outcome:
  "length (snd A) = Suc (length (fst A)) \<Longrightarrow> d \<le> length (fst A) \<Longrightarrow> cbb_rep s (sk_add d a A) \<Longrightarrow> ber_ok n st t \<Longrightarrow>
     outcome s (ber_fits st t) (sk_add d (a @ to_der st t) A) (write_ber d st t s)"
  "length (snd A') = Suc (length (fst A')) \<Longrightarrow> d' \<le> length (fst A') \<Longrightarrow> cbb_rep s' (sk_add d' a' A') \<Longrightarrow> list_all (ber_ok n' st') ts \<Longrightarrow>
     outcome s' (list_all (ber_fits st') ts) (sk_add d' (a' @ to_ders st' ts) A') (write_bers d' st' ts s')"
proof (induction d st t and d' st' ts arbitrary: s A a n and s' A' a' n' rule: write_ber_write_bers.induct)
  case (1 d st tag c)
  have c: "length c < 2 ^ 63" using 1(4) by simp
  have bytes: "outcome t True (sk_add d' c C) (CBB_add_bytes d' c t)"
    if "cbb_rep t C" "length (snd C) = Suc (length (fst C))" "length (fst C) = d'" for t C d'
    using CBB_add_bytes_fresh [OF that c] .
  show ?case
  proof (cases "st = 0")
    case True
    then show ?thesis using element_again [OF 1(1-3) bytes, where tag = tag] by simp
  next
    case False
    have "outcome s True (sk_add d (a @ c) A) (CBB_add_bytes d c s)"
      using bytes [OF 1(3), of d] 1(1,2) by (simp add: sk_add_add)
    then show ?thesis using False flush_again [OF 1(1,2), where m = "CBB_add_bytes d c"] by simp
  qed
next
  case (2 d st tag i ts)
  have ok: "list_all (ber_ok (Suc n) (child_tag st tag)) ts" using 2(6) by simp
  show ?case
  proof (cases "st = 0")
    case True
    have "outcome t (list_all (ber_fits (child_tag st tag)) ts) (sk_add (Suc d) (to_ders (child_tag st tag) ts) C)
        (write_bers (Suc d) (child_tag st tag) ts t)"
      if "cbb_rep t C" "length (snd C) = Suc (length (fst C))" "length (fst C) = Suc d" for t C
      using 2(2) [of C t "[]" "Suc n"] that True ok by (simp add: sk_add_nil)
    from element_again [OF 2(3-5) this, where tag = "if is_string_type tag then tag AND NOT CBS_ASN1_CONSTRUCTED else tag"]
    show ?thesis using True by (simp add: Let_def)
  next
    case False
    then have "child_tag st tag = st" by (simp add: child_tag_def)
    then show ?thesis
      using False flush_again [where m = "write_bers d st ts", OF 2(3,4) 2(1) [OF _ 2(3-5), of "Suc n"]] ok by (simp add: Let_def)
  qed
next
  case (3 d st)
  then show ?case by simp
next
  case (4 d st t ts)
  have 1: "outcome s' (ber_fits st t) (sk_add d (a' @ to_der st t) A') (write_ber d st t s')"
    using 4(1) [OF 4(3-5), of n'] 4(6) by simp
  have "outcome s' (ber_fits st t \<and> list_all (ber_fits st) ts) (sk_add d ((a' @ to_der st t) @ to_ders st ts) A')
     (st_bind (write_ber d st t) (\<lambda>_. write_bers d st ts) s')"
    by (rule outcome_bind [where m = "write_ber d st t", OF 1])
      (use sk_size_add [OF 4(3,4), of "a' @ to_der st t"] 4(2) [OF 4(3,4), of _ "a' @ to_der st t" n'] 4(6) in auto)
  then show ?case by simp
qed

lemma length_der_len_pos: "1 \<le> length (der_len n)"
  by (simp add: der_len_def)

lemma length_to_der: "length (to_der st t) \<le> 8 * length (ber_enc t)"
proof (induction st t rule: to_der.induct)
  case (2 st tag i ts)
  have s: "length (to_ders (child_tag st tag) us) \<le> 8 * length (ber_encs us)" if "set us \<subseteq> set ts" for us
    using that 2 by (induction us) fastforce+
  have d: "length (der_len n) \<le> 5" for n by (auto simp: der_len_def len_bytes_def)
  show ?case
    using s [of ts] d [of "length (to_ders (child_tag st tag) ts)"] length_ber_enc [of "BCons tag i ts"]
      length_der_tag [of "tag AND NOT CBS_ASN1_CONSTRUCTED"] length_der_tag [of tag] length_der_len_pos [of "length (ber_encs ts)"]
    by (auto simp: Let_def der_elem_def der_header_def indef_def)
qed (simp add: der_elem_def)

lemma length_to_ders: "length (to_ders st ts) \<le> 8 * length (ber_encs ts)"
proof (induction ts)
  case (Cons t ts)
  then show ?case using length_to_der [of st t] by simp
qed simp

subsection \<open>The result is DER\<close>

lemma find_ber_prim:
  "\<not> constructed tag \<Longrightarrow> length c < 2 ^ 32 \<Longrightarrow> find_ber_loop n f (der_elem tag c @ rest) = find_ber_loop n f rest"
  using get_elem [of c tag rest] length_ber_enc [of "BPrim tag c"]
  by (subst find_ber_loop.simps) (auto simp: CBS_len_def constructed_def)

lemma find_ber_cons:
  "constructed tag \<Longrightarrow> \<not> is_string_type tag \<Longrightarrow> length c < 2 ^ 32 \<Longrightarrow> n < kMaxDepth \<Longrightarrow> find_ber_loop (Suc n) False c = Some b
     \<Longrightarrow> find_ber_loop n f (der_elem tag c @ rest) = find_ber_loop n b rest"
  using get_elem [of c tag rest] length_ber_enc [of "BPrim tag c"]
  by (subst find_ber_loop.simps) (auto simp: CBS_len_def constructed_def)

lemma not_constructed_clear: "\<not> constructed (tag AND NOT CBS_ASN1_CONSTRUCTED)"
  by (simp add: constructed_def bit.conj_cancel_left and.assoc)

lemma find_ber_to_der:
  "ber_ok n st t \<Longrightarrow> ber_fits st t \<Longrightarrow> st = 0 \<Longrightarrow> find_ber_loop n False (to_der st t @ rest) = find_ber_loop n False rest"
proof (induction n st t arbitrary: rest rule: ber_ok.induct)
  case (1 n st tag c)
  then show ?case by (simp add: find_ber_prim)
next
  case (2 n st tag i ts)
  let ?c = "to_ders (child_tag st tag) ts"
  have l: "length ?c < 2 ^ 32" using 2 by simp
  show ?case
  proof (cases "is_string_type tag")
    case True
    then show ?thesis using 2(4) l by (simp add: Let_def find_ber_prim not_constructed_clear)
  next
    case False
    then have st: "child_tag st tag = 0" using 2(4) by (simp add: child_tag_def)
    have "find_ber_loop (Suc n) False (to_ders 0 us @ []) = Some False" if "set us \<subseteq> set ts" for us
      using that
    proof (induction us)
      case Nil
      then show ?case by (simp add: find_ber_loop.simps CBS_len_def)
    next
      case (Cons u us)
      then show ?case using 2(1) [of u "to_ders 0 us"] 2(2,3) st by (auto simp: list_all_iff)
    qed
    then have "find_ber_loop (Suc n) False ?c = Some False" using st by simp
    then show ?thesis using False 2 l find_ber_cons [OF _ False l] by (simp add: Let_def)
  qed
qed

lemma find_ber_to_ders:
  "list_all (ber_ok n 0) ts \<Longrightarrow> list_all (ber_fits 0) ts \<Longrightarrow> find_ber_loop n False (to_ders 0 ts) = Some False"
proof (induction ts)
  case Nil
  then show ?case by (simp add: find_ber_loop.simps CBS_len_def)
qed (simp add: find_ber_to_der)

section \<open>The whole conversion\<close>

text \<open>The bytes and the rest of the input a successful call returns.\<close>

definition ber_result :: "u8 list option \<times> nat \<times> CBS \<Rightarrow> u8 list \<times> CBS" where
  "ber_result = (\<lambda>(out, out_len, inp). (take out_len (case out of None \<Rightarrow> [] | Some b \<Rightarrow> b), inp))"

lemma convert_top_outcome:
  assumes "cbb_rep s ([], [[]])" "list_all (ber_ok 0 0) ts"
  shows "outcome s (list_all (ber_fits 0) ts) ([], [to_ders 0 ts]) (write_bers 0 0 ts s)"
  using write_ber_outcome(2) [of "([], [[]])" 0 s "[]" 0 0 ts] assms by (simp add: sk_add_top)

lemma convert_top_run:
  assumes "list_all (ber_ok 0 0) ts"
  shows "cbs_convert_ber (Suc (CBS_len (ber_encs ts))) 0 0 False 0 (ber_encs ts)
    = st_bind (write_bers 0 0 ts) (\<lambda>_. st_return [])"
  using convert_loop_run [OF assms, of "Suc (length (ber_encs ts))" 0 False] by (simp add: CBS_len_def)

lemma ber_to_der_sound:
  assumes "heap_total h" "length inp < 2 ^ 58" "cbs_find_ber inp 0 = Some True"
    and "map_option ber_result (fst (CBS_asn1_ber_to_der inp h)) = Some (der, rest)"
  shows "\<exists>ts. list_all (ber_ok 0 0) ts \<and> list_all (ber_fits 0) ts \<and> inp = ber_encs ts \<and> der = to_ders 0 ts \<and> rest = []"
proof -
  obtain s where s: "CBB_init (CBS_len inp) h = (Some (), s)" "cbb_rep s ([], [[]])"
    using CBB_init_total [OF assms(1), of "CBS_len inp"] assms(2) by (auto simp: CBS_len_def)
  obtain out len t u where c: "cbs_convert_ber (Suc (CBS_len inp)) 0 0 False 0 inp s = (Some rest, t)"
    and f: "CBB_finish 0 False t = (Some (out, len), u)" and der: "der = take len (case out of None \<Rightarrow> [] | Some b \<Rightarrow> b)"
    using assms(3,4) s(1)
    by (auto simp: CBS_asn1_ber_to_der_def ber_result_def simp del: cbs_convert_ber.simps
        split: prod.splits option.splits elim!: st_bind_SomeE)
  from c have "convert_loop (Suc (CBS_len inp)) 0 0 False 0 inp s = (Some rest, t)" by (simp split: if_splits)
  from convert_loop_sound [OF this] obtain ts where ts: "list_all (ber_ok 0 0) ts" "inp = ber_encs ts" "rest = []"
    by auto
  have "\<exists>x. write_bers 0 0 ts s = (Some x, t)"
    using c unfolding ts(2) convert_top_run [OF ts(1)] by (auto simp: st_bind_eq_Some)
  then have "list_all (ber_fits 0) ts \<and> cbb_rep t ([], [to_ders 0 ts])"
    using outcome_Some [where m = "write_bers 0 0 ts"] convert_top_outcome [OF s(2) ts(1)] by blast
  then show ?thesis using ts CBB_finish_ok(1) [OF _ f, of "([], [to_ders 0 ts])"] der by auto
qed

lemma ber_to_der_complete:
  assumes "heap_total h" "length (ber_encs ts) < 2 ^ 58" "cbs_find_ber (ber_encs ts) 0 = Some True"
    and ts: "list_all (ber_ok 0 0) ts" "list_all (ber_fits 0) ts"
  shows "map_option ber_result (fst (CBS_asn1_ber_to_der (ber_encs ts) h)) = Some (to_ders 0 ts, [])"
proof -
  let ?A = "([], [to_ders 0 ts])"
  obtain s where s: "CBB_init (CBS_len (ber_encs ts)) h = (Some (), s)" "cbb_roomy s" "cbb_rep s ([], [[]])"
    using CBB_init_total [OF assms(1), of "CBS_len (ber_encs ts)"] assms(2) by (auto simp: CBS_len_def)
  have sz: "sk_size ?A < 2 ^ 61" using length_to_ders [of 0 ts] assms(2) by (simp add: sk_size_def)
  obtain t where t: "write_bers 0 0 ts s = (Some (), t)" "cbb_rep t ?A" "cbb_roomy t"
    using convert_top_outcome [OF s(3) ts(1)] s(2) sz ts(2) by (cases "write_bers 0 0 ts s") (auto simp: outcome_def)
  obtain buf u where f: "CBB_finish 0 False t = (Some (buf, sk_size ?A), u)"
    "take (sk_size ?A) (case buf of None \<Rightarrow> [] | Some b \<Rightarrow> b) = to_ders 0 ts"
    using CBB_finish_total [OF t(2,3) _ sz] by auto
  have c: "cbs_convert_ber (Suc (CBS_len (ber_encs ts))) 0 0 False 0 (ber_encs ts) s = (Some [], t)"
    unfolding convert_top_run [OF ts(1)] using t(1) by simp
  show ?thesis
    using assms(3) s(1) c f by (simp add: CBS_asn1_ber_to_der_def ber_result_def del: cbs_convert_ber.simps)
qed

text \<open>C10. Conversion to DER.  When the quick walk fails, \<open>CBS_asn1_ber_to_der\<close> fails; when it finds nothing to
  convert, the input is left as it is (\<open>find_ber_forgets\<close> shows that it can be BER all the same).  Otherwise the conversion succeeds with \<open>der\<close> if and only if the input is
  a sequence of well-formed BER elements (nested at most \<open>kMaxDepth\<close> deep, constructed strings made of fragments
  of their own type, every indefinite length closed) whose definite-length form with joined strings is
  \<open>der\<close>; the whole input is consumed, and a second conversion finds nothing left to do.\<close>

theorem ber_to_der_correct:
  assumes "heap_total h" "length inp < 2 ^ 58"
  shows "case cbs_find_ber inp 0 of
      None \<Rightarrow> CBS_asn1_ber_to_der inp h = (None, h)
    | Some False \<Rightarrow> CBS_asn1_ber_to_der inp h = (Some (None, 0, inp), h)
    | Some True \<Rightarrow>
        (map_option ber_result (fst (CBS_asn1_ber_to_der inp h)) = Some (der, rest) \<longleftrightarrow>
          (\<exists>ts. list_all (ber_ok 0 0) ts \<and> list_all (ber_fits 0) ts \<and> inp = ber_encs ts \<and> der = to_ders 0 ts \<and> rest = []))
        \<and> (map_option ber_result (fst (CBS_asn1_ber_to_der inp h)) = Some (der, rest) \<longrightarrow>
          CBS_asn1_ber_to_der der h = (Some (None, 0, der), h))"
proof -
  have der: "CBS_asn1_ber_to_der (to_ders 0 ts) h = (Some (None, 0, to_ders 0 ts), h)"
    if "list_all (ber_ok 0 0) ts" "list_all (ber_fits 0) ts" for ts
    using find_ber_to_ders [OF that] by (simp add: CBS_asn1_ber_to_der_def cbs_find_ber_def)
  show ?thesis
  proof (cases "cbs_find_ber inp 0 = Some True")
    case True
    then show ?thesis
      using ber_to_der_sound [OF assms True, of der rest] ber_to_der_complete [OF assms(1)] assms(2) der by auto
  next
    case False
    then show ?thesis by (auto simp: CBS_asn1_ber_to_der_def split: option.splits bool.splits)
  qed
qed

lemma demo_tags:
  "der_tag 0x20000010 = [0x30]" "der_tag 0x20000004 = [0x24]" "der_tag 4 = [4]"
  "constructed 0x20000010" "constructed 0x20000004" "\<not> constructed 4"
  "is_string_type 0x20000004" "\<not> is_string_type 0x20000010"
  "0x20000004 AND NOT CBS_ASN1_CONSTRUCTED = 4"
  by (simp_all add: der_tag_def tag_number_def tag_class_def drop_bit_eq_div constructed_def CBS_ASN1_CONSTRUCTED_def
      CBS_ASN1_TAG_SHIFT_def push_bit_eq_mult is_string_type_def string_tag_defs)

lemma child_tag_demo: "child_tag 0 0x20000004 = 4" "child_tag 0 0x20000010 = 0" "child_tag 4 tag = 4"
  using demo_tags by (simp_all add: child_tag_def)

lemma der_elem_short: "length c < 128 \<Longrightarrow> der_elem tag c = der_tag tag @ word_of_nat (length c) # c"
  by (simp add: der_elem_def der_header_def der_len_def)

definition demo_ber :: "ber list" where
  "demo_ber = [BCons 0x20000010 True [BCons 0x20000004 True [BPrim 4 [7], BPrim 4 [8]]]]"

theorem ber_to_der_correct_witness:
  "map_option ber_result (fst (CBS_asn1_ber_to_der [0x30, 0x80, 0x24, 0x80, 4, 1, 7, 4, 1, 8, 0, 0, 0, 0] total_heap))
     = Some ([0x30, 4, 4, 2, 7, 8], [])
   \<and> CBS_asn1_ber_to_der [0x30, 4, 4, 2, 7, 8] total_heap = (Some (None, 0, [0x30, 4, 4, 2, 7, 8]), total_heap)"
proof -
  let ?in = "[0x30, 0x80, 0x24, 0x80, 4, 1, 7, 4, 1, 8, 0, 0, 0, 0] :: u8 list"
  have e: "ber_encs demo_ber = ?in" "to_ders 0 demo_ber = [0x30, 4, 4, 2, 7, 8]"
    by (simp_all add: demo_ber_def indef_def demo_tags child_tag_demo der_elem_short)
  have ok: "list_all (ber_ok 0 0) demo_ber" "list_all (ber_fits 0) demo_ber"
    by (simp_all add: demo_ber_def demo_tags child_tag_demo kMaxDepth_def der_elem_short)
  have "CBS_get_any_ber_asn1_element ?in = (Some ([0x30, 0x80], 0x20000010, 2), drop 2 ?in)"
    using get_indef [of "0x20000010" "drop 2 ?in"] demo_tags by (simp add: indef_def)
  then have "cbs_find_ber ?in 0 = Some True"
    unfolding cbs_find_ber_def by (subst find_ber_loop.simps) (simp add: is_indefinite_def CBS_len_def kMaxDepth_def)
  moreover have "\<exists>ts. list_all (ber_ok 0 0) ts \<and> list_all (ber_fits 0) ts \<and> ?in = ber_encs ts
      \<and> [0x30, 4, 4, 2, 7, 8] = to_ders 0 ts \<and> [] = []"
    using e ok by metis
  ultimately show ?thesis
    using ber_to_der_correct [of total_heap ?in "[0x30, 4, 4, 2, 7, 8]" "[]"] by simp
qed

text \<open>The walk forgets what a nested call found when a later sibling is constructed: here a sequence holds a
  sequence with a constructed string, followed by an empty sequence.  The input is BER and needs conversion, and
  the walk answers that it does not.\<close>

lemma find_ber_forgets:
  "cbs_find_ber [0x30, 6, 0x30, 2, 0x24, 0, 0x30, 0] 0 = Some False"
  "[0x30, 6, 0x30, 2, 0x24, 0, 0x30, 0] = ber_encs [BCons 0x20000010 False
     [BCons 0x20000010 False [BCons 0x20000004 False []], BCons 0x20000010 False []]]"
  "list_all (ber_ok 0 0) [BCons 0x20000010 False
     [BCons 0x20000010 False [BCons 0x20000004 False []], BCons 0x20000010 False []]]"
proof -
  let ?s = "0x20000010 :: u32"
  have s0: "der_elem ?s [] = [0x30, 0]" "der_elem 0x20000004 [] = [0x24, 0]"
    "der_elem ?s [0x24, 0] = [0x30, 2, 0x24, 0]" "der_elem ?s [0x30, 2, 0x24, 0, 0x30, 0] = [0x30, 6, 0x30, 2, 0x24, 0, 0x30, 0]"
    by (simp_all add: der_elem_short demo_tags)
  have 0: "find_ber_loop n f [] = Some f" for n f by (simp add: find_ber_loop.simps CBS_len_def)
  have 1: "find_ber_loop n f [0x24, 0] = Some True" for n f
    using get_elem [of "[]" "0x20000004" "[]"] demo_tags not_is_indefinite_elem [of "0x20000004" "[]"]
    by (subst find_ber_loop.simps) (auto simp: s0 CBS_len_def constructed_def)
  have 2: "find_ber_loop 1 False [0x30, 0] = Some False"
    using find_ber_cons [of ?s "[]" 1 False False "[]"] demo_tags 0 by (simp add: s0 kMaxDepth_def)
  have "find_ber_loop 1 False [0x30, 2, 0x24, 0, 0x30, 0] = find_ber_loop 1 True [0x30, 0]"
    using find_ber_cons [of ?s "[0x24, 0]" 1 True False "[0x30, 0]"] demo_tags 1 by (simp add: s0 kMaxDepth_def)
  also have "\<dots> = Some False"
    using find_ber_cons [of ?s "[]" 1 False True "[]"] demo_tags 0 by (simp add: s0 kMaxDepth_def)
  finally show "cbs_find_ber [0x30, 6, 0x30, 2, 0x24, 0, 0x30, 0] 0 = Some False"
    using find_ber_cons [of ?s "[0x30, 2, 0x24, 0, 0x30, 0]" 0 False False "[]"] demo_tags 0
    by (simp add: s0 kMaxDepth_def cbs_find_ber_def)
  show "[0x30, 6, 0x30, 2, 0x24, 0, 0x30, 0] = ber_encs [BCons 0x20000010 False
     [BCons 0x20000010 False [BCons 0x20000004 False []], BCons 0x20000010 False []]]"
    by (simp add: s0)
  show "list_all (ber_ok 0 0) [BCons 0x20000010 False
     [BCons 0x20000010 False [BCons 0x20000004 False []], BCons 0x20000010 False []]]"
    by (simp add: s0 demo_tags child_tag_demo kMaxDepth_def)
qed

section \<open>Implicitly tagged strings read back\<close>

abbreviation chunks :: "u32 \<Rightarrow> u8 list list \<Rightarrow> u8 list" where
  "chunks inner_tag cs \<equiv> concat (map (der_elem inner_tag) cs)"

lemma implicit_loop_outcome:
  assumes "list_all (\<lambda>c. length c < 2 ^ 32) cs"
  shows "cbb_rep s ([], [a]) \<Longrightarrow> outcome s True ([], [a @ concat cs]) (implicit_loop inner_tag (chunks inner_tag cs) s)"
  using assms
proof (induction cs arbitrary: s a)
  case Nil
  then show ?case by (simp add: implicit_loop.simps CBS_len_def)
next
  case (Cons c cs)
  have l: "implicit_loop inner_tag (chunks inner_tag (c # cs))
      = st_bind (CBB_add_bytes 0 c) (\<lambda>_. implicit_loop inner_tag (chunks inner_tag cs))"
    using Cons(3) length_ber_enc [of "BPrim inner_tag c"]
    by (subst implicit_loop.simps) (auto simp: get_asn1_run CBS_len_def)
  have a: "sk_add 0 c ([], [a]) = ([], [a @ c])" by (simp add: sk_add_def sk_flush_def append_last_def)
  have "outcome s True ([], [a @ c]) (CBB_add_bytes 0 c s)"
    using CBB_add_bytes_fresh [OF Cons(2), of 0 c] Cons(3) a by simp
  from outcome_bind [where m = "CBB_add_bytes 0 c" and g = "\<lambda>_. implicit_loop inner_tag (chunks inner_tag cs)", OF this,
      of "([], [a @ concat (c # cs)])" True] Cons.IH [of _ "a @ c"] Cons(3)
  show ?case unfolding l by (simp add: sk_size_def)
qed

lemma implicit_loop_sound:
  "implicit_loop inner_tag child s = (Some u, t) \<Longrightarrow> \<exists>cs. child = chunks inner_tag cs \<and> list_all (\<lambda>c. length c < 2 ^ 32) cs"
proof (induction inner_tag child arbitrary: s t rule: implicit_loop.induct)
  case (1 inner_tag child)
  show ?case
  proof (cases "child = []")
    case False
    then obtain c child' where c: "CBS_get_asn1 inner_tag child = (Some c, child')"
      using 1(2) by (subst (asm) implicit_loop.simps) (auto simp: CBS_len_def split: prod.splits option.splits)
    then obtain s' where "implicit_loop inner_tag child' s' = (Some u, t)"
      using 1(2) False by (subst (asm) implicit_loop.simps) (auto simp: CBS_len_def st_bind_eq_Some)
    from 1(1) [OF _ c [symmetric] refl this] obtain cs where "child' = chunks inner_tag cs" "list_all (\<lambda>c. length c < 2 ^ 32) cs"
      using False by (auto simp: CBS_len_def)
    then show ?thesis using c by (intro exI [of _ "c # cs"]) (simp add: get_asn1_iff)
  qed (auto intro: exI [of _ "[]"])
qed

lemma constructed_neq: "\<not> constructed tag \<Longrightarrow> tag OR CBS_ASN1_CONSTRUCTED \<noteq> tag"
proof
  assume n: "\<not> constructed tag" and e: "tag OR CBS_ASN1_CONSTRUCTED = tag"
  have "(tag OR CBS_ASN1_CONSTRUCTED) AND CBS_ASN1_CONSTRUCTED = CBS_ASN1_CONSTRUCTED"
    by (rule bit_word_eqI) (auto simp: bit_simps)
  then have "CBS_ASN1_CONSTRUCTED = 0" unfolding e using n by (simp add: constructed_def)
  then show False by (simp add: CBS_ASN1_CONSTRUCTED_def CBS_ASN1_TAG_SHIFT_def push_bit_eq_mult)
qed

lemma peek_elem: "CBS_peek_asn1_tag (der_elem tag c @ r) tag' \<longleftrightarrow> tag = tag'"
proof -
  have "parse_asn1_tag (der_elem tag c @ r) = (Some tag, der_len (length c) @ c @ r)"
    by (simp add: parse_asn1_tag_canonical der_elem_def der_header_def)
  then show ?thesis using length_ber_enc [of "BPrim tag c"] by (auto simp: CBS_peek_asn1_tag_def CBS_len_def)
qed

lemma length_chunks: "length (concat cs) \<le> length (chunks tag cs)" "length (chunks tag cs) < n \<Longrightarrow> list_all (\<lambda>c. length c < n) cs"
  by (induction cs) (auto simp: der_elem_def)

lemma implicit_constructed_iff:
  assumes "heap_total h" "length child < 2 ^ 60" "CBB_init cap h = (Some (), s)" "cbb_roomy s" "cbb_rep s ([], [[]])"
  shows "(\<exists>data len s'. st_bind (implicit_loop inner_tag child) (\<lambda>_. CBB_finish 0 False) s = (Some (data, len), s')
      \<and> take len (case data of None \<Rightarrow> [] | Some b \<Rightarrow> b) = c)
    \<longleftrightarrow> (\<exists>cs. child = chunks inner_tag cs \<and> list_all (\<lambda>c. length c < 2 ^ 32) cs \<and> c = concat cs)"
    (is "?L \<longleftrightarrow> ?R")
proof
  assume ?L
  then obtain u t data len s' where r: "implicit_loop inner_tag child s = (Some u, t)" "CBB_finish 0 False t = (Some (data, len), s')"
    "take len (case data of None \<Rightarrow> [] | Some b \<Rightarrow> b) = c"
    by (auto simp: st_bind_eq_Some)
  obtain cs where cs: "child = chunks inner_tag cs" "list_all (\<lambda>c. length c < 2 ^ 32) cs"
    using implicit_loop_sound [OF r(1)] by blast
  have "cbb_rep t ([], [concat cs])"
    using outcome_Some [where m = "implicit_loop inner_tag child", OF _ r(1)] implicit_loop_outcome [OF cs(2) assms(5)] cs(1)
    by auto
  from CBB_finish_ok(1) [OF this r(2)] show ?R using cs r(3) by auto
next
  assume ?R
  then obtain cs where cs: "child = chunks inner_tag cs" "list_all (\<lambda>c. length c < 2 ^ 32) cs" "c = concat cs" by blast
  let ?A = "([], [concat cs])"
  have sz: "sk_size ?A < 2 ^ 61" using length_chunks(1) [of cs inner_tag] assms(2) cs(1) by (simp add: sk_size_def)
  obtain t where t: "implicit_loop inner_tag child s = (Some (), t)" "cbb_rep t ?A" "cbb_roomy t"
    using implicit_loop_outcome [OF cs(2) assms(5), of inner_tag] assms(4) sz cs(1)
    by (cases "implicit_loop inner_tag child s") (auto simp: outcome_def)
  obtain buf t' where "CBB_finish 0 False t = (Some (buf, sk_size ?A), t')"
    "take (sk_size ?A) (case buf of None \<Rightarrow> [] | Some b \<Rightarrow> b) = concat cs"
    using CBB_finish_total [OF t(2,3) _ sz] by auto
  then show ?L using t(1) cs(3) by auto
qed

text \<open>C11. \<open>CBS_get_asn1_implicit_string\<close> returns \<open>c\<close> and leaves \<open>rest\<close> if and only if the input starts with the
  primitive string element with contents \<open>c\<close>, or with the constructed one whose contents are primitive elements with
  the inner tag that together hold \<open>c\<close>.\<close>

theorem implicit_string_correct:
  assumes "heap_total h" "length inp < 2 ^ 60" "\<not> constructed outer_tag"
  shows "map_option (\<lambda>(out, _, inp'). (out, inp')) (fst (CBS_get_asn1_implicit_string outer_tag inner_tag inp h)) = Some (c, rest)
    \<longleftrightarrow> inp = der_elem outer_tag c @ rest \<and> length c < 2 ^ 32
      \<or> (\<exists>cs. inp = der_elem (outer_tag OR CBS_ASN1_CONSTRUCTED) (chunks inner_tag cs) @ rest
           \<and> length (chunks inner_tag cs) < 2 ^ 32 \<and> c = concat cs)"
proof (cases "CBS_peek_asn1_tag inp outer_tag")
  case True
  then have "inp \<noteq> der_elem (outer_tag OR CBS_ASN1_CONSTRUCTED) x @ r" for x r
    using peek_elem [of "outer_tag OR CBS_ASN1_CONSTRUCTED" x r outer_tag] constructed_neq [OF assms(3)] by auto
  moreover have "map_option (\<lambda>(out, _, inp'). (out, inp')) (fst (CBS_get_asn1_implicit_string outer_tag inner_tag inp h)) = Some (c, rest)
      \<longleftrightarrow> CBS_get_asn1 outer_tag inp = (Some c, rest)"
    using True by (auto simp: CBS_get_asn1_implicit_string_def split: prod.splits option.splits)
  ultimately show ?thesis by (simp add: get_asn1_iff)
next
  case False
  then have ne: "inp \<noteq> der_elem outer_tag c @ rest" using peek_elem by auto
  obtain s where s: "CBB_init (CBS_len inp) h = (Some (), s)" "cbb_roomy s" "cbb_rep s ([], [[]])"
    using CBB_init_total [OF assms(1), of "CBS_len inp"] assms(2) by (auto simp: CBS_len_def)
  show ?thesis
  proof (cases "\<exists>child r. CBS_get_asn1 (outer_tag OR CBS_ASN1_CONSTRUCTED) inp = (Some child, r)")
    case True
    then obtain child r where g: "CBS_get_asn1 (outer_tag OR CBS_ASN1_CONSTRUCTED) inp = (Some child, r)" by blast
    then have inp: "inp = der_elem (outer_tag OR CBS_ASN1_CONSTRUCTED) child @ r" "length child < 2 ^ 32" by (auto simp: get_asn1_iff)
    have i: "inp = der_elem (outer_tag OR CBS_ASN1_CONSTRUCTED) x @ r' \<and> length x < 2 ^ 32 \<longleftrightarrow> x = child \<and> r' = r" for x r'
      using get_asn1_iff [of "outer_tag OR CBS_ASN1_CONSTRUCTED" inp x r'] g by auto
    have lc: "length child < 2 ^ 60" using inp(2) by simp
    have la: "list_all (\<lambda>c. length c < 2 ^ 32) cs" if "child = chunks inner_tag cs" for cs
      using length_chunks(2) inp(2) unfolding that by blast
    note c = implicit_constructed_iff [OF assms(1) lc s, of inner_tag c]
    have "map_option (\<lambda>(out, _, inp'). (out, inp')) (fst (CBS_get_asn1_implicit_string outer_tag inner_tag inp h)) = Some (c, rest)
      \<longleftrightarrow> rest = r \<and> (\<exists>data len s'. st_bind (implicit_loop inner_tag child) (\<lambda>_. CBB_finish 0 False) s = (Some (data, len), s')
        \<and> take len (case data of None \<Rightarrow> [] | Some b \<Rightarrow> b) = c)"
    proof (cases "st_bind (implicit_loop inner_tag child) (\<lambda>_. CBB_finish 0 False) s")
      case (Pair x s')
      have "fst (CBS_get_asn1_implicit_string outer_tag inner_tag inp h)
        = (case x of None \<Rightarrow> None | Some (data, len) \<Rightarrow> Some (take len (case data of None \<Rightarrow> [] | Some b \<Rightarrow> b), data, r))"
        using False Pair by (simp add: CBS_get_asn1_implicit_string_def s(1) g CBS_init_def split: option.split prod.split)
      then show ?thesis unfolding Pair by (cases x) (auto split: prod.splits)
    qed
    also have "\<dots> \<longleftrightarrow> (\<exists>cs. (chunks inner_tag cs = child \<and> rest = r) \<and> c = concat cs)"
      by (simp only: c) (metis la)
    finally show ?thesis using ne by (simp only: i [symmetric]) simp
  next
    case no: False
    then obtain r where "CBS_get_asn1 (outer_tag OR CBS_ASN1_CONSTRUCTED) inp = (None, r)"
      by (metis option.exhaust prod.collapse)
    then have "fst (CBS_get_asn1_implicit_string outer_tag inner_tag inp h) = None"
      using False s(1) by (simp add: CBS_get_asn1_implicit_string_def)
    then show ?thesis using ne no get_asn1_iff [of "outer_tag OR CBS_ASN1_CONSTRUCTED" inp] by auto
  qed
qed

theorem implicit_string_correct_witness:
  "map_option (\<lambda>(out, _, inp'). (out, inp'))
     (fst (CBS_get_asn1_implicit_string 0x80000000 4 [0xa0, 6, 4, 1, 7, 4, 1, 8, 5] total_heap)) = Some ([7, 8], [5])"
proof -
  have t: "der_tag 0xa0000000 = [0xa0]" "der_tag 4 = [4]" "\<not> constructed 0x80000000"
    "0x80000000 OR CBS_ASN1_CONSTRUCTED = 0xa0000000"
    by (simp_all add: der_tag_def tag_number_def tag_class_def drop_bit_eq_div constructed_def CBS_ASN1_CONSTRUCTED_def
        CBS_ASN1_TAG_SHIFT_def push_bit_eq_mult)
  have "\<exists>cs. [0xa0, 6, 4, 1, 7, 4, 1, 8, 5] = der_elem 0xa0000000 (chunks 4 cs) @ [5]
      \<and> length (chunks 4 cs) < 2 ^ 32 \<and> [7, 8] = concat cs"
    by (rule exI [of _ "[[7], [8]]"]) (simp add: der_elem_short t)
  then show ?thesis
    using implicit_string_correct [of total_heap "[0xa0, 6, 4, 1, 7, 4, 1, 8, 5]" "0x80000000" 4 "[7, 8]" "[5]"] t(3)
    unfolding t(4) by simp
qed

end
