(* ===== verification/Cbb_Set_Of.thy ===== *)
theory Cbb_Set_Of
  imports Cbb_Roundtrip Buf "HOL-Library.Multiset" "HOL-Library.List_Lexorder"
begin

text \<open>
  Sets in DER and the legacy output convention: \<open>compare_set_of_element\<close> and \<open>CBB_flush_asn1_set_of\<close> of \<open>cbb.c\<close>,
  which rewrite the contents of a builder with the elements in ascending order, and \<open>CBB_finish_i2d\<close> of
  \<open>asn1_compat.c\<close>.  The comparison function is shown to be the lexicographic order of byte strings, so that the
  result is the sorted list of the elements.
\<close>

section \<open>Comparing encodings\<close>

text \<open>\<open>memcmp\<close> on two byte strings of the same length: the difference of the first bytes that differ.\<close>

fun c_memcmp :: "u8 list \<Rightarrow> u8 list \<Rightarrow> int" where
  "c_memcmp (a # as) (b # bs) = (if a = b then c_memcmp as bs else uint a - uint b)"
| "c_memcmp _ _ = 0"

definition OPENSSL_memcmp :: "u8 list \<Rightarrow> u8 list \<Rightarrow> nat \<Rightarrow> int" where
  "OPENSSL_memcmp s1 s2 n = (if n = 0 then 0 else c_memcmp (take n s1) (take n s2))"

definition compare_set_of_element :: "CBS \<Rightarrow> CBS \<Rightarrow> int" where
  "compare_set_of_element a b =
     (let a_len = CBS_len a; b_len = CBS_len b; min_len = (if a_len < b_len then a_len else b_len);
          ret = OPENSSL_memcmp a b min_len in
      if ret \<noteq> 0 then ret
      else if a_len = b_len then 0
      else if a_len < b_len then - 1 else 1)"

section \<open>Sorting the elements of a set\<close>

lemma asn1_element_shorter:
  "CBS_get_any_asn1_element cbs = (Some x, rest) \<Longrightarrow> length rest < length cbs"
  using length_der_tag by (cases x) (auto simp: any_asn1_element_iff der_elem_def der_header_def Suc_le_eq)

function count_children :: "nat \<Rightarrow> CBS \<Rightarrow> nat option" where
  "count_children num_children cbs =
     (if CBS_len cbs \<noteq> 0 then
        case CBS_get_any_asn1_element cbs of
          (None, _) \<Rightarrow> None
        | (Some _, cbs') \<Rightarrow> count_children (num_children + 1) cbs'
      else Some num_children)"
  by auto
termination
  by (relation "measure (\<lambda>(_, cbs). length cbs)") (auto dest: asn1_element_shorter [OF sym])

declare count_children.simps [simp del]

primrec parse_children :: "nat \<Rightarrow> CBS \<Rightarrow> CBS list option" where
  "parse_children 0 cbs = Some []"
| "parse_children (Suc i) cbs =
     (case CBS_get_any_asn1_element cbs of
        (None, _) \<Rightarrow> None
      | (Some (child, _, _), cbs') \<Rightarrow> map_option ((#) child) (parse_children i cbs'))"

text \<open>Setting the length of the buffer back to the start of the contents of handle \<open>d\<close>.\<close>

definition cbb_rewind :: "nat \<Rightarrow> CBB \<Rightarrow> CBB" where
  "cbb_rewind d s =
     s\<lparr>cb_base := map_option (\<lambda>b. b\<lparr>bb_len := fr_offset (frame_at d s) + fr_pending_len_len (frame_at d s)\<rparr>) (cb_base s)\<rparr>"

primrec write_children :: "nat \<Rightarrow> CBS list \<Rightarrow> (CBB, unit) st" where
  "write_children d [] = st_return ()"
| "write_children d (c # cs) = st_bind (CBB_add_bytes d c) (\<lambda>_. write_children d cs)"

text \<open>\<open>qsort\<close> is the function of the C library; 16 is the size of a \<open>CBS\<close>.  The children alias the copy \<open>buf\<close>, which
  is freed with their array on every path.\<close>

type_synonym cbs_qsort = "(CBS \<Rightarrow> CBS \<Rightarrow> int) \<Rightarrow> CBS list \<Rightarrow> CBS list"

definition set_of_body :: "cbs_qsort \<Rightarrow> nat \<Rightarrow> nat \<Rightarrow> u8 list option \<Rightarrow> u8 list option \<Rightarrow> (CBB, unit) st" where
  "set_of_body qsort d num_children buf children s =
     (case buf of
        None \<Rightarrow> (None, s)
      | Some copy \<Rightarrow>
          if children = None then (None, s)
          else (case parse_children num_children (CBS_init copy) of
                  None \<Rightarrow> (None, s)
                | Some cs \<Rightarrow> write_children d (qsort compare_set_of_element cs) (cbb_rewind d s)))"

definition CBB_flush_asn1_set_of :: "cbs_qsort \<Rightarrow> nat \<Rightarrow> (CBB, unit) st" where
  "CBB_flush_asn1_set_of qsort d =
     st_bind (CBB_flush d) (\<lambda>_ s.
       case count_children 0 (CBS_init (CBB_data d s)) of
         None \<Rightarrow> (None, s)
       | Some num_children \<Rightarrow>
           if num_children < 2 then (Some (), s)
           else if num_children > (2 ^ 64 - 1) div 16 then (None, s)
           else (case BUF_memdup (CBB_data d s) (cb_heap s) of
                   (buf, h1) \<Rightarrow>
                     (case mem_malloc (num_children * 16) h1 of
                        (children, h2) \<Rightarrow>
                          (case set_of_body qsort d num_children buf children (s\<lparr>cb_heap := h2\<rparr>) of
                             (ret, s') \<Rightarrow> (ret, s'\<lparr>cb_heap := mem_free children (mem_free buf (cb_heap s'))\<rparr>)))))"

section \<open>Output for the old encoding functions\<close>

text \<open>The argument \<open>outp\<close>: null, a pointer to a null pointer, or a pointer to a caller's buffer.\<close>

datatype i2d_outp = Outp_null | Outp_alloc | Outp_buffer "u8 list"

text \<open>What the call leaves there: nothing, the new allocation, or the buffer with the bytes copied to it and the
  distance \<open>*outp\<close> was advanced by.\<close>

datatype i2d_result = I2d_none | I2d_alloc "u8 list option" | I2d_buffer "u8 list" nat

definition CBB_finish_i2d :: "i2d_outp \<Rightarrow> CBB \<Rightarrow> int \<times> i2d_result \<times> heap" where
  "CBB_finish_i2d outp s =
     (case CBB_finish 0 False s of
        (None, s') \<Rightarrow> (- 1, I2d_none, cb_heap (CBB_cleanup s'))
      | (Some (der, len), s') \<Rightarrow>
          if int len > 2 ^ 31 - 1 then (- 1, I2d_none, mem_free der (cb_heap s'))
          else (case outp of
                  Outp_null \<Rightarrow> (int len, I2d_none, mem_free der (cb_heap s'))
                | Outp_alloc \<Rightarrow> (int len, I2d_alloc der, cb_heap s')
                | Outp_buffer buf \<Rightarrow>
                    (int len, I2d_buffer (memcpy_at buf 0 (take len (case der of None \<Rightarrow> [] | Some b \<Rightarrow> b))) len,
                     mem_free der (cb_heap s'))))"

section \<open>The order of encodings\<close>

lemma compare_Cons:
  "compare_set_of_element (x # a) (y # b) = (if x = y then compare_set_of_element a b else uint x - uint y)"
  by (auto simp: compare_set_of_element_def OPENSSL_memcmp_def CBS_len_def Let_def word_uint_eq_iff)

lemma compare_Nil:
  "compare_set_of_element [] b = (if b = [] then 0 else - 1)" "compare_set_of_element (x # a) [] = 1"
  by (auto simp: compare_set_of_element_def OPENSSL_memcmp_def CBS_len_def)

lemma compare_le: "compare_set_of_element a b \<le> 0 \<longleftrightarrow> a \<le> b"
proof (induction a arbitrary: b)
  case Nil
  then show ?case by (simp add: compare_Nil)
next
  case (Cons x a)
  show ?case
  proof (cases b)
    case Nil
    then show ?thesis by (simp add: compare_Nil)
  next
    case (Cons y b')
    then show ?thesis using Cons.IH [of b'] by (auto simp: compare_Cons word_le_def word_less_def word_uint_eq_iff)
  qed
qed

text \<open>The contract of \<open>qsort\<close> for this comparison.\<close>

definition qsort_sorts :: "cbs_qsort \<Rightarrow> bool" where
  "qsort_sorts qsort \<longleftrightarrow> (\<forall>xs. mset (qsort compare_set_of_element xs) = mset xs
     \<and> sorted_wrt (\<lambda>a b. compare_set_of_element a b \<le> 0) (qsort compare_set_of_element xs))"

lemma qsort_sorts_sort: "qsort_sorts qsort \<Longrightarrow> qsort compare_set_of_element xs = sort xs"
  by (rule properties_for_sort [symmetric]) (auto simp: qsort_sorts_def compare_le)

section \<open>The children\<close>

definition der_element :: "u8 list \<Rightarrow> bool" where
  "der_element el \<longleftrightarrow> (\<exists>tag c. el = der_elem tag c \<and> length c < 2 ^ 32)"

lemma get_der_element:
  "(\<exists>tag hl. CBS_get_any_asn1_element cbs = (Some (el, tag, hl), rest)) \<longleftrightarrow> cbs = el @ rest \<and> der_element el"
  by (auto simp: any_asn1_element_iff der_element_def)

lemma der_element_nonempty: "der_element el \<Longrightarrow> el \<noteq> []"
  by (auto simp: der_element_def der_elem_def der_header_def der_len_def split: if_splits)

lemma length_der_elements: "list_all der_element els \<Longrightarrow> length els \<le> length (concat els)"
proof (induction els)
  case (Cons el els)
  then have "1 \<le> length el" using der_element_nonempty [of el] by (cases el) auto
  then show ?case using Cons by simp
qed simp

lemma count_children_run:
  "list_all der_element els \<Longrightarrow> count_children n (concat els) = Some (n + length els)"
proof (induction els arbitrary: n)
  case Nil
  then show ?case by (simp add: count_children.simps CBS_len_def)
next
  case (Cons el els)
  then obtain tag hl where "CBS_get_any_asn1_element (el @ concat els) = (Some (el, tag, hl), concat els)"
    using get_der_element [of "el @ concat els" el "concat els"] by auto
  then show ?case using Cons der_element_nonempty [of el]
    by (subst count_children.simps) (auto simp: CBS_len_def)
qed

lemma count_children_sound: "count_children n cbs = Some m \<Longrightarrow> \<exists>els. list_all der_element els \<and> cbs = concat els"
proof (induction n cbs rule: count_children.induct)
  case (1 n cbs)
  show ?case
  proof (cases "cbs = []")
    case False
    then obtain el tag hl cbs' where g: "CBS_get_any_asn1_element cbs = (Some (el, tag, hl), cbs')"
      "count_children (n + 1) cbs' = Some m"
      using 1(2) by (subst (asm) count_children.simps) (auto simp: CBS_len_def split: prod.splits option.splits)
    then obtain els where "list_all der_element els" "cbs' = concat els"
      using 1(1) [OF _ g(1) [symmetric] refl g(2)] False by (auto simp: CBS_len_def)
    then show ?thesis using g(1) get_der_element [of cbs el cbs'] by (intro exI [of _ "el # els"]) auto
  qed (auto intro: exI [of _ "[]"])
qed

lemma parse_children_run: "list_all der_element els \<Longrightarrow> parse_children (length els) (concat els) = Some els"
proof (induction els)
  case (Cons el els)
  then obtain tag hl where "CBS_get_any_asn1_element (el @ concat els) = (Some (el, tag, hl), concat els)"
    using get_der_element [of "el @ concat els" el "concat els"] by auto
  then show ?case using Cons by simp
qed simp

lemma der_elements_unique:
  assumes "list_all der_element xs" "list_all der_element ys" "concat xs = concat ys"
  shows "xs = ys"
proof -
  have "Some (0 + length xs) = Some (0 + length ys)"
    unfolding count_children_run [OF assms(1), symmetric] count_children_run [OF assms(2), symmetric] assms(3) ..
  then have "Some xs = Some ys"
    using parse_children_run [OF assms(1)] parse_children_run [OF assms(2)] assms(3) by (metis add_0 option.inject)
  then show ?thesis by simp
qed

section \<open>The builder\<close>

lemma chain_rep_last:
  "chain_rep pos fs cs bs \<Longrightarrow> fs \<noteq> [] \<Longrightarrow>
     fr_offset (last fs) + fr_pending_len_len (last fs) + length (last cs) = pos + length bs"
proof (induction pos fs cs bs rule: chain_rep.induct)
  case (3 pos f fs c cs bs)
  then obtain x rest where x: "fr_offset f = pos" "bs = x @ c @ rest" "length x = fr_pending_len_len f"
    "chain_rep (pos + length x + length c) fs cs rest" by auto
  show ?case
  proof (cases "fs = []")
    case True
    then show ?thesis using x by (cases cs) auto
  next
    case False
    then have "cs \<noteq> []" using chain_rep_length [OF x(4)] by auto
    then show ?thesis using 3(1) [OF x(4) False] x(1-3) False by simp
  qed
qed auto

text \<open>An object without pending children holds the last contents of the stack; rewinding empties it.\<close>

lemma cbb_data_last:
  assumes rep: "cbb_rep s (ks, cs @ [c])" and d: "length ks = d"
  shows "CBB_data d s = c" "cbb_rep (cbb_rewind d s) (ks, cs @ [[]])" "cbb_roomy (cbb_rewind d s) = cbb_roomy s"
proof -
  obtain b fs where b: "cb_base s = Some b" "cb_chain s = top_frame # fs" "bs_inv (b, cb_heap s)" "\<not> bb_error b"
    "ks = map frame_kind fs" "bufrep fs (cs @ [c]) (bb_valid b)"
    using rep by (auto simp: cbb_rep_def)
  have lc: "length (cs @ [[]]) = Suc (length fs)" using bufrep_length [OF b(6)] by simp
  obtain v where v: "bb_valid b = v @ c" "bufrep fs (cs @ [[]]) v"
    using bufrep_unappend [of fs "cs @ [[]]" c "bb_valid b"] b(6) lc by auto
  have lf: "length fs = d" using b(5) d by simp
  have f: "frame_at d s = last (top_frame # fs)"
    using b(2) lf by (cases fs) (auto simp: frame_at_def last_conv_nth)
  have start: "fr_offset (frame_at d s) + fr_pending_len_len (frame_at d s) = length v"
  proof (cases "fs = []")
    case True
    then have "v = []" using v(2) lc by (auto simp: bufrep_def)
    then show ?thesis using f True by (simp add: top_frame_def)
  next
    case False
    obtain c0 cs' bs where u: "cs @ [[]] = c0 # cs'" "v = c0 @ bs" "chain_rep (length c0) fs cs' bs"
      using v(2) by (auto simp: bufrep_def)
    have "cs' \<noteq> []" using chain_rep_length [OF u(3)] False by auto
    then have "last cs' = []" using u(1) by (metis last_ConsR last_snoc)
    then show ?thesis using chain_rep_last [OF u(3) False] f False u(2) by simp
  qed
  show "CBB_data d s = c" using b(1) start v(1) by (simp add: CBB_data_def bb_valid_def)
  have lv: "length v \<le> bb_len b" using length_bb_valid [of b] b(3) v(1) by (simp add: bs_inv_def)
  then have "take (length v) (bb_bytes b) = v"
    using v(1) by (metis append_eq_conv_conj bb_valid_def min.absorb1 take_take)
  then have "bb_valid (b\<lparr>bb_len := length v\<rparr>) = v" by (simp add: bb_valid_def bb_bytes_def)
  then show "cbb_rep (cbb_rewind d s) (ks, cs @ [[]])"
    using b v(2) lv start by (auto simp: cbb_rep_def cbb_rewind_def bs_inv_def bb_inv_def bb_bytes_def)
  show "cbb_roomy (cbb_rewind d s) = cbb_roomy s" using b(1) by (simp add: cbb_rewind_def cbb_roomy_def roomy_def)
qed

lemma cbb_rep_heap:
  assumes "hp_ok h = hp_ok (cb_heap s)"
  shows "cbb_rep (s\<lparr>cb_heap := h\<rparr>) A = cbb_rep s A" "cbb_roomy (s\<lparr>cb_heap := h\<rparr>) = cbb_roomy s"
  using assms by (auto simp: cbb_rep_def cbb_roomy_def roomy_def bs_inv_def heap_sane_def split: option.splits)

lemma appends_children: "list_all (\<lambda>c. length c < 2 ^ 63) cs \<Longrightarrow> appends d (concat cs) (write_children d cs)"
proof (induction cs)
  case (Cons c cs)
  then show ?case using appends_bind [OF appends_bytes [of c d], of "concat cs" "\<lambda>_. write_children d cs"] by simp
qed (simp add: appends_return)

lemma length_concat_mset: "mset xs = mset ys \<Longrightarrow> length (concat xs) = length (concat ys)"
  by (metis length_concat mset_map sum_mset_sum_list)

lemma write_children_run:
  assumes rep: "cbb_rep s (ks, cs @ [[]])" "length ks = d" "length cs = d" "cbb_roomy s"
    and "sk_size (ks, cs @ [concat els]) < 2 ^ 61" "length (concat els) < 2 ^ 61"
  shows "\<exists>s'. write_children d els s = (Some (), s') \<and> cbb_rep s' (ks, cs @ [concat els]) \<and> cbb_roomy s'"
proof -
  have l: "list_all (\<lambda>c. length c < 2 ^ 63) els"
  proof -
    have "length c \<le> length (concat els)" if "c \<in> set els" for c
      using that by (metis le_add1 length_append concat_append concat.simps(2) split_list trans_le_add2)
    then show ?thesis using assms(6) by (fastforce simp: list_all_iff)
  qed
  have f: "sk_add d [] (ks, cs @ [[]]) = (ks, cs @ [[]])" "sk_add d (concat els) (ks, cs @ [[]]) = (ks, cs @ [concat els])"
    using assms(2,3) by (simp_all add: sk_add_def)
  have "outcome s True (ks, cs @ [concat els]) (write_children d els s)"
    using appendsD [OF appends_children [OF l], of "(ks, cs @ [[]])" d s "[]"] assms(1-3) f by simp
  then show ?thesis using assms(4,5) by (cases "write_children d els s") (auto simp: outcome_def)
qed

lemma flush_noop:
  assumes "cbb_rep s (ks, cs)" "length ks = d" "cbb_roomy s" "sk_size (ks, cs) < 2 ^ 61"
  shows "\<exists>t. CBB_flush d s = (Some (), t) \<and> cbb_rep t (ks, cs) \<and> cbb_roomy t"
proof -
  have "outcome s True (ks, cs) (CBB_flush d s)"
    using CBB_flush_outcome [OF assms(1), of d] cbb_rep_length [OF assms(1)] assms(2) by simp
  then show ?thesis using assms(3,4) by (cases "CBB_flush d s") (auto simp: outcome_def)
qed

lemma set_of_sorts:
  assumes rep: "cbb_rep s (ks, cs @ [concat els])" "length ks = d" "cbb_roomy s"
    and els: "list_all der_element els" "2 \<le> length els"
    and sz: "sk_size (ks, cs @ [concat els]) < 2 ^ 61" "length (concat els) < 2 ^ 58"
    and q: "qsort_sorts qsort"
  shows "\<exists>s'. CBB_flush_asn1_set_of qsort d s = (Some (), s') \<and> cbb_rep s' (ks, cs @ [concat (sort els)]) \<and> cbb_roomy s'"
proof -
  let ?c = "concat els"
  obtain t where t: "CBB_flush d s = (Some (), t)" "cbb_rep t (ks, cs @ [?c])" "cbb_roomy t"
    using flush_noop [OF rep sz(1)] by blast
  have lcs: "length cs = d" using cbb_rep_length [OF t(2)] rep(2) by simp
  have ok: "\<forall>k n. n < 2 ^ 63 \<longrightarrow> hp_ok (cb_heap t) k n" using t(3) by (auto simp: cbb_roomy_def roomy_def split: option.splits)
  have data: "CBB_data d t = ?c" by (rule cbb_data_last [OF t(2) rep(2)])
  have ne: "0 < length ?c" using els der_element_nonempty by (cases els) auto
  have le: "length els \<le> length ?c" by (rule length_der_elements [OF els(1)])
  obtain p h1 where m1: "mem_malloc (length ?c) (cb_heap t) = (Some p, h1)"
    using mem_malloc_roomy [OF ok, of "length ?c"] sz(2) by auto
  have ok1: "\<forall>k n. n < 2 ^ 63 \<longrightarrow> hp_ok h1 k n" using ok mem_malloc_hp_ok [OF m1] by simp
  obtain q2 h2 where m2: "mem_malloc (length els * 16) h1 = (Some q2, h2)"
    using mem_malloc_roomy [OF ok1, of "length els * 16"] sz(2) le by auto
  have h2: "hp_ok h2 = hp_ok (cb_heap t)" using mem_malloc_hp_ok [OF m1] mem_malloc_hp_ok [OF m2] by simp
  have lp: "length p = length ?c" using mem_malloc_length [OF m1] sz(2) by simp
  then have copy: "memcpy_at p 0 ?c = ?c" by (simp add: memcpy_at_def)
  have dup: "BUF_memdup ?c (cb_heap t) = (Some ?c, h1)" unfolding BUF_memdup_def m1 using ne copy by auto
  let ?t = "t\<lparr>cb_heap := h2\<rparr>"
  have t2: "cbb_rep (cbb_rewind d ?t) (ks, cs @ [[]])" "cbb_roomy (cbb_rewind d ?t)"
    using cbb_data_last(2,3) [of ?t ks cs ?c d] cbb_rep_heap [OF h2] t(2,3) rep(2) by simp_all
  have len: "length (concat (sort els)) = length ?c" by (rule length_concat_mset) simp
  then have sz': "sk_size (ks, cs @ [concat (sort els)]) = sk_size (ks, cs @ [?c])"
    using length_full_mono [of cs ks] lcs rep(2) by (auto simp: sk_size_def intro!: antisym)
  obtain s' where w: "write_children d (sort els) (cbb_rewind d ?t) = (Some (), s')" "cbb_rep s' (ks, cs @ [concat (sort els)])" "cbb_roomy s'"
    using write_children_run [OF t2(1) rep(2) lcs t2(2), of "sort els"] sz sz' len by auto
  let ?s = "s'\<lparr>cb_heap := mem_free (Some q2) (mem_free (Some ?c) (cb_heap s'))\<rparr>"
  have "CBB_flush_asn1_set_of qsort d s = (Some (), ?s)"
    unfolding CBB_flush_asn1_set_of_def st_bind_Some [where m = "CBB_flush d", OF t(1)]
    using els(2) le sz(2)
    by (simp add: data CBS_init_def count_children_run [OF els(1)] dup m2 set_of_body_def
        parse_children_run [OF els(1)] qsort_sorts_sort [OF q] w(1))
  then show ?thesis using w(2,3) cbb_rep_heap [of "mem_free (Some q2) (mem_free (Some ?c) (cb_heap s'))" s'] by auto
qed

lemma set_of_few:
  assumes rep: "cbb_rep s (ks, cs @ [concat els])" "length ks = d" "cbb_roomy s"
    and els: "list_all der_element els" "length els < 2" and sz: "sk_size (ks, cs @ [concat els]) < 2 ^ 61"
  shows "\<exists>s'. CBB_flush_asn1_set_of qsort d s = (Some (), s') \<and> cbb_rep s' (ks, cs @ [concat (sort els)]) \<and> cbb_roomy s'"
proof -
  obtain t where t: "CBB_flush d s = (Some (), t)" "cbb_rep t (ks, cs @ [concat els])" "cbb_roomy t"
    using flush_noop [OF rep sz] by blast
  have "sort els = els" using els(2) by (cases els; cases "tl els") auto
  then show ?thesis
    unfolding CBB_flush_asn1_set_of_def st_bind_Some [where m = "CBB_flush d", OF t(1)]
    using t(2,3) els by (simp add: cbb_data_last(1) [OF t(2) rep(2)] CBS_init_def count_children_run)
qed

lemma set_of_rejects:
  assumes rep: "cbb_rep s (ks, cs @ [c])" "length ks = d" and no: "\<not> (\<exists>els. list_all der_element els \<and> c = concat els)"
  shows "fst (CBB_flush_asn1_set_of qsort d s) = None"
proof (cases "CBB_flush d s")
  case (Pair r t)
  show ?thesis
  proof (cases r)
    case (Some u)
    have "outcome s True (ks, cs @ [c]) (CBB_flush d s)"
      using CBB_flush_outcome [OF rep(1), of d] cbb_rep_length [OF rep(1)] rep(2) by simp
    then have "cbb_rep t (ks, cs @ [c])" using Pair Some by (simp add: outcome_def)
    moreover have "count_children 0 c = None" using no count_children_sound by (cases "count_children 0 c") auto
    ultimately show ?thesis using Pair Some
      by (simp add: CBB_flush_asn1_set_of_def cbb_data_last(1) [OF _ rep(2)] CBS_init_def)
  qed (simp add: Pair CBB_flush_asn1_set_of_def)
qed

section \<open>Sets of elements\<close>

text \<open>A client that writes the set with the given contents.\<close>

definition cbb_set_of :: "cbs_qsort \<Rightarrow> u32 \<Rightarrow> u8 list \<Rightarrow> (CBB, unit) st" where
  "cbb_set_of qsort tag c =
     st_bind (CBB_add_asn1 0 tag) (\<lambda>_. st_bind (CBB_add_bytes 1 c) (\<lambda>_. CBB_flush_asn1_set_of qsort 1))"

lemma cbb_set_of_open:
  assumes "heap_total h" "cap < 2 ^ 62" "length c < 2 ^ 58"
  shows "\<exists>s0 s. CBB_init cap h = (Some (), s0) \<and> cbb_set_of qsort tag c s0 = CBB_flush_asn1_set_of qsort 1 s
    \<and> cbb_rep s ([Asn1], [der_tag tag, c]) \<and> cbb_roomy s"
proof -
  obtain s0 where s0: "CBB_init cap h = (Some (), s0)" "cbb_roomy s0" "cbb_rep s0 ([], [[]])"
    using CBB_init_total [OF assms(1,2)] by blast
  have p: "sk_push 0 Asn1 (sk_add 0 (der_tag tag) ([], [[]])) = ([Asn1], [der_tag tag, []])"
    by (simp add: sk_add_top sk_push_def sk_flush_def)
  have "outcome s0 True ([Asn1], [der_tag tag, []]) (CBB_add_asn1 0 tag s0)"
    using CBB_add_asn1_outcome [OF s0(3), of 0 tag] by (simp add: p sk_fits_def)
  then obtain s1 where s1: "CBB_add_asn1 0 tag s0 = (Some (), s1)" "cbb_rep s1 ([Asn1], [der_tag tag, []])" "cbb_roomy s1"
    using s0(2) length_der_tag [of tag]
    by (cases "CBB_add_asn1 0 tag s0") (auto simp: outcome_def sk_size_def der_len_def)
  have a: "sk_add (Suc 0) c ([Asn1], [der_tag tag, []]) = ([Asn1], [der_tag tag, c])"
    by (simp add: sk_add_def sk_flush_def append_last_def)
  have "outcome s1 True ([Asn1], [der_tag tag, c]) (CBB_add_bytes 1 c s1)"
    using CBB_add_bytes_fresh [OF s1(2), of 1 c] assms(3) by (simp add: a)
  moreover have "sk_size ([Asn1], [der_tag tag, c]) < 2 ^ 61"
    using length_der_tag [of tag] assms(3) by (simp add: sk_size_def der_len_def len_bytes_def)
  ultimately obtain s where "CBB_add_bytes 1 c s1 = (Some (), s)" "cbb_rep s ([Asn1], [der_tag tag, c])" "cbb_roomy s"
    using s1(3) by (cases "CBB_add_bytes 1 c s1") (auto simp: outcome_def)
  then show ?thesis using s0(1) s1(1) by (auto simp: cbb_set_of_def)
qed

text \<open>C12. Sets are written in DER order: when a client opens an element, writes the contents \<open>c\<close> and calls
  \<open>CBB_flush_asn1_set_of\<close>, the finished encoding is \<open>der\<close> if and only if \<open>c\<close> is a sequence of DER elements, short
  enough for a length prefix, and \<open>der\<close> is the element that holds the same elements in ascending lexicographic
  order; on any other contents the builder fails.\<close>

theorem set_of_sorted:
  assumes "heap_total h" "cap < 2 ^ 62" "length c < 2 ^ 58" "qsort_sorts qsort"
  shows "cbb_run (cbb_set_of qsort tag c) cap h = Some der \<longleftrightarrow>
    (\<exists>els. list_all der_element els \<and> c = concat els \<and> length c < 0xffffffff \<and> der = der_elem tag (concat (sort els)))"
proof -
  obtain s0 s where s: "CBB_init cap h = (Some (), s0)" "cbb_set_of qsort tag c s0 = CBB_flush_asn1_set_of qsort 1 s"
    "cbb_rep s ([Asn1], [der_tag tag] @ [c])" "cbb_roomy s"
    using cbb_set_of_open [OF assms(1-3), of qsort tag] by auto
  have size: "sk_size ([Asn1], [der_tag tag] @ [x]) < 2 ^ 61" if "length x = length c" for x
    using length_der_tag [of tag] assms(3) that by (simp add: sk_size_def der_len_def len_bytes_def)
  show ?thesis
  proof (cases "\<exists>els. list_all der_element els \<and> c = concat els")
    case False
    then have "fst (cbb_set_of qsort tag c s0) = None" using set_of_rejects [OF s(3), of 1 qsort] s(2) by simp
    then have "cbb_run (cbb_set_of qsort tag c) cap h = None"
      using s(1) by (cases "cbb_set_of qsort tag c s0") (simp add: cbb_run_def)
    then show ?thesis using False by auto
  next
    case True
    then obtain els where els: "list_all der_element els" "c = concat els" by blast
    have "\<exists>s'. CBB_flush_asn1_set_of qsort 1 s = (Some (), s') \<and> cbb_rep s' ([Asn1], [der_tag tag] @ [concat (sort els)]) \<and> cbb_roomy s'"
      using set_of_sorts [of s "[Asn1]" "[der_tag tag]" els 1 qsort] set_of_few [of s "[Asn1]" "[der_tag tag]" els 1 qsort]
        s(3,4) els size [of c] assms(3,4) by (cases "length els < 2") auto
    then obtain s' where s': "cbb_set_of qsort tag c s0 = (Some (), s')" "cbb_rep s' ([Asn1], [der_tag tag, concat (sort els)])" "cbb_roomy s'"
      using s(2) by auto
    have len: "length (concat (sort els)) = length c" unfolding els(2) by (rule length_concat_mset) simp
    have fits: "full_fits [Asn1] [der_tag tag, concat (sort els)] \<longleftrightarrow> length c < 0xffffffff" using len by simp
    have full: "full [Asn1] [der_tag tag, concat (sort els)] = der_elem tag (concat (sort els))"
      by (simp add: der_elem_def der_header_def)
    have uniq: "els' = els" if "list_all der_element els'" "c = concat els'" for els'
      using der_elements_unique [OF that(1) els(1)] that(2) els(2) by metis
    have "cbb_run (cbb_set_of qsort tag c) cap h = (if length c < 0xffffffff then Some (der_elem tag (concat (sort els))) else None)"
    proof (cases "length c < 0xffffffff")
      case True
      obtain buf u where "CBB_finish 0 False s' = (Some (buf, sk_size ([Asn1], [der_tag tag, concat (sort els)])), u)"
        "take (sk_size ([Asn1], [der_tag tag, concat (sort els)])) (case buf of None \<Rightarrow> [] | Some b \<Rightarrow> b) = der_elem tag (concat (sort els))"
        using CBB_finish_total [OF s'(2,3)] fits True size [OF len] full by auto
      then show ?thesis using True s(1) s'(1) by (simp add: cbb_run_def)
    next
      case False
      have "CBB_finish 0 False s' \<noteq> (Some (buf, n), u)" for buf n u
        using CBB_finish_ok(2) [OF s'(2), of buf n u] fits False by auto
      then have "fst (CBB_finish 0 False s') = None" by (metis option.exhaust prod.collapse)
      then show ?thesis using False s(1) s'(1) by (cases "CBB_finish 0 False s'") (simp add: cbb_run_def)
    qed
    moreover have "(\<exists>els. list_all der_element els \<and> c = concat els \<and> length c < 0xffffffff \<and> der = der_elem tag (concat (sort els)))
        \<longleftrightarrow> length c < 0xffffffff \<and> der = der_elem tag (concat (sort els))"
      using els uniq by blast
    ultimately show ?thesis by (auto simp only: option.inject split: if_splits)
  qed
qed

text \<open>The hypothesis on \<open>qsort\<close> can hold.\<close>

lemma qsort_sorts_demo: "qsort_sorts (\<lambda>_ xs. sort xs)"
  by (simp add: qsort_sorts_def compare_le)

theorem set_of_sorted_witness:
  "cbb_run (cbb_set_of (\<lambda>_ xs. sort xs) 0x20000011 [4, 2, 7, 7, 4, 1, 9]) 0 total_heap
     = Some [0x31, 7, 4, 1, 9, 4, 2, 7, 7]"
proof -
  have t: "der_tag 0x20000011 = [0x31]" "der_tag 4 = [4]"
    by (simp_all add: der_tag_def tag_number_def tag_class_def drop_bit_eq_div)
  have e: "der_elem 4 [7, 7] = [4, 2, 7, 7]" "der_elem 4 [9] = [4, 1, 9]"
    by (simp_all add: der_elem_def der_header_def der_len_def t)
  have "der_element (der_elem 4 [7, 7])" "der_element (der_elem 4 [9])" unfolding der_element_def by fastforce+
  then have "der_element [4, 2, 7, 7]" "der_element [4, 1, 9]" unfolding e .
  moreover have "sort [[4, 2, 7, 7], [4, 1, 9]] = [[4, 1, 9], [4, 2, 7, 7] :: u8 list]" by simp
  moreover have "der_elem 0x20000011 [4, 1, 9, 4, 2, 7, 7] = [0x31, 7, 4, 1, 9, 4, 2, 7, 7]"
    by (simp add: der_elem_def der_header_def der_len_def t)
  ultimately have "\<exists>els. list_all der_element els \<and> [4, 2, 7, 7, 4, 1, 9] = concat els \<and> length [4, 2, 7, 7, 4, 1, 9 :: u8] < 0xffffffff
      \<and> [0x31, 7, 4, 1, 9, 4, 2, 7, 7] = der_elem 0x20000011 (concat (sort els))"
    by (intro exI [of _ "[[4, 2, 7, 7], [4, 1, 9]]"]) simp
  then show ?thesis
    using set_of_sorted [OF heap_total_total_heap _ _ qsort_sorts_demo, of 0 "[4, 2, 7, 7, 4, 1, 9]" "0x20000011"] by simp
qed

section \<open>The old output convention\<close>

lemma finish_i2d_correct:
  assumes rep: "cbb_rep s A" "cbb_roomy s" "full_fits (fst A) (snd A)" "sk_size A < 2 ^ 61"
  defines "der \<equiv> full (fst A) (snd A)"
  shows "length der < 2 ^ 31 \<Longrightarrow> fst (CBB_finish_i2d Outp_null s) = int (length der)"
    and "length der < 2 ^ 31 \<Longrightarrow> \<exists>p h. CBB_finish_i2d Outp_alloc s = (int (length der), I2d_alloc p, h)
      \<and> take (length der) (case p of None \<Rightarrow> [] | Some b \<Rightarrow> b) = der"
    and "length der < 2 ^ 31 \<Longrightarrow> \<exists>h. CBB_finish_i2d (Outp_buffer buf) s = (int (length der), I2d_buffer (memcpy_at buf 0 der) (length der), h)"
    and "2 ^ 31 \<le> length der \<Longrightarrow> \<exists>h. CBB_finish_i2d outp s = (- 1, I2d_none, h)"
proof -
  obtain p s' where f: "CBB_finish 0 False s = (Some (p, length der), s')" "take (length der) (case p of None \<Rightarrow> [] | Some b \<Rightarrow> b) = der"
    using CBB_finish_total [OF rep] by (auto simp: der_def sk_size_def)
  show "length der < 2 ^ 31 \<Longrightarrow> fst (CBB_finish_i2d Outp_null s) = int (length der)"
    and "length der < 2 ^ 31 \<Longrightarrow> \<exists>p h. CBB_finish_i2d Outp_alloc s = (int (length der), I2d_alloc p, h)
      \<and> take (length der) (case p of None \<Rightarrow> [] | Some b \<Rightarrow> b) = der"
    and "length der < 2 ^ 31 \<Longrightarrow> \<exists>h. CBB_finish_i2d (Outp_buffer buf) s = (int (length der), I2d_buffer (memcpy_at buf 0 der) (length der), h)"
    and "2 ^ 31 \<le> length der \<Longrightarrow> \<exists>h. CBB_finish_i2d outp s = (- 1, I2d_none, h)"
    using f by (auto simp: CBB_finish_i2d_def)
qed

end
