(* ===== verification/Oid.thy ===== *)
theory Oid
  imports Cbb_Roundtrip
begin

text \<open>
  Object identifiers: the conversions between their text form and their DER contents, from \<open>cbb.c\<close>
  (\<open>parse_dotted_decimal\<close>, \<open>CBB_add_asn1_oid_from_text\<close>) and \<open>cbs.c\<close> (\<open>add_decimal\<close>,
  \<open>CBS_asn1_oid_to_text\<close>).  The parsers accept exactly the canonical forms, so the two conversions are
  inverse to each other.
\<close>

section \<open>From text\<close>

fun dotted_loop :: "u64 \<Rightarrow> bool \<Rightarrow> (CBS, u64) st" where
  "dotted_loop out seen_digit [] = (if seen_digit then Some out else None, [])"
| "dotted_loop out seen_digit (u # cbs) =
     (if u = 46 \<and> length cbs > 0 then (if seen_digit then Some out else None, cbs)
      else if u < 48 \<or> u > 57 \<or> seen_digit \<and> out = 0 \<or> out > (- 1) div 10 \<or> out * 10 > (- 1) - ucast (u - 48)
      then (None, cbs)
      else dotted_loop (out * 10 + ucast (u - 48)) True cbs)"

definition parse_dotted_decimal :: "(CBS, u64) st" where
  "parse_dotted_decimal = dotted_loop 0 False"

lemma dotted_loop_length: "dotted_loop out seen cbs = (r, cbs') \<Longrightarrow> cbs \<noteq> [] \<Longrightarrow> length cbs' < length cbs"
proof (induction out seen cbs rule: dotted_loop.induct)
  case (2 out seen u cbs)
  then show ?case by (cases "cbs = []") (auto split: if_splits)
qed simp

text \<open>The components after the second, on the rest of the text.\<close>

function oid_rest_loop :: "nat \<Rightarrow> CBS \<Rightarrow> (CBB, unit) st" where
  "oid_rest_loop d cbs =
     (if cbs = [] then st_return ()
      else (case parse_dotted_decimal cbs of
              (None, _) \<Rightarrow> st_fail
            | (Some a, cbs') \<Rightarrow> st_bind (add_base128_integer d a) (\<lambda>_. oid_rest_loop d cbs')))"
  by auto
termination by (relation "measure (\<lambda>(_, cbs). length cbs)")
  (auto simp: parse_dotted_decimal_def dest: dotted_loop_length [OF sym])

declare oid_rest_loop.simps [simp del]

definition CBB_add_asn1_oid_from_text :: "nat \<Rightarrow> u8 list \<Rightarrow> (CBB, unit) st" where
  "CBB_add_asn1_oid_from_text d text =
     st_bind (CBB_flush d) (\<lambda>_.
       case parse_dotted_decimal text of
         (None, _) \<Rightarrow> st_fail
       | (Some a, cbs) \<Rightarrow>
           (case parse_dotted_decimal cbs of
              (None, _) \<Rightarrow> st_fail
            | (Some b, cbs') \<Rightarrow>
                if a > 2 \<or> a < 2 \<and> b > 39 \<or> b > (- 1) - 80 then st_fail
                else st_bind (add_base128_integer d (40 * a + b)) (\<lambda>_. oid_rest_loop d cbs')))"

section \<open>To text\<close>

text \<open>What \<open>BIO_snprintf\<close> prints for \<open>PRIu64\<close>; the buffer has room for the 20 digits of the largest value.\<close>

fun decimal :: "nat \<Rightarrow> u8 list" where
  "decimal n = (if n < 10 then [word_of_nat (48 + n)] else decimal (n div 10) @ [word_of_nat (48 + n mod 10)])"

declare decimal.simps [simp del]

definition add_decimal :: "nat \<Rightarrow> u64 \<Rightarrow> (CBB, unit) st" where
  "add_decimal d v = CBB_add_bytes d (decimal (unat v))"

lemma parse_base128_length: "parse_base128_integer cbs = (Some v, cbs') \<Longrightarrow> length cbs' < length cbs"
  using parse_base128_canonical [of cbs v cbs'] by (auto simp: b128_def)

function oid_text_loop :: "nat \<Rightarrow> CBS \<Rightarrow> (CBB, unit) st" where
  "oid_text_loop d copy =
     (if copy = [] then st_return ()
      else (case parse_base128_integer copy of
              (None, _) \<Rightarrow> st_fail
            | (Some v, copy') \<Rightarrow>
                st_bind (CBB_add_u8 d 46) (\<lambda>_. st_bind (add_decimal d v) (\<lambda>_. oid_text_loop d copy'))))"
  by auto
termination by (relation "measure (\<lambda>(_, cbs). length cbs)") (auto dest: parse_base128_length [OF sym])

declare oid_text_loop.simps [simp del]

text \<open>The contents of the builder, up to the terminator.\<close>

definition oid_text_body :: "CBS \<Rightarrow> (CBB, unit) st" where
  "oid_text_body cbs =
     (case parse_base128_integer cbs of
        (None, _) \<Rightarrow> st_fail
      | (Some v, copy) \<Rightarrow>
          st_bind
            (if v \<ge> 80 then st_bind (CBB_add_bytes 0 [50, 46]) (\<lambda>_. add_decimal 0 (v - 80))
             else st_bind (add_decimal 0 (v div 40)) (\<lambda>_. st_bind (CBB_add_u8 0 46) (\<lambda>_. add_decimal 0 (v mod 40))))
            (\<lambda>_. st_bind (oid_text_loop 0 copy) (\<lambda>_. CBB_add_u8 0 0)))"

definition CBS_asn1_oid_to_text :: "CBS \<Rightarrow> heap \<Rightarrow> u8 list option \<times> heap" where
  "CBS_asn1_oid_to_text cbs h =
     (case CBB_init 32 h of
        (None, s) \<Rightarrow> (None, cb_heap (CBB_cleanup s))
      | (Some _, s) \<Rightarrow>
          (case st_bind (oid_text_body cbs) (\<lambda>_. CBB_finish 0 False) s of
             (None, s') \<Rightarrow> (None, cb_heap (CBB_cleanup s'))
           | (Some (txt, _), s') \<Rightarrow> (txt, cb_heap s')))"

section \<open>Decimal numbers\<close>

definition is_digit :: "u8 \<Rightarrow> bool" where
  "is_digit u \<longleftrightarrow> 48 \<le> unat u \<and> unat u \<le> 57"

definition dec_val :: "nat \<Rightarrow> u8 list \<Rightarrow> nat" where
  "dec_val n ds = foldl (\<lambda>n u. n * 10 + (unat u - 48)) n ds"

lemma dec_val_simps [simp]:
  "dec_val n [] = n" "dec_val n (d # ds) = dec_val (n * 10 + (unat d - 48)) ds"
  "dec_val n (ds @ es) = dec_val (dec_val n ds) es"
  by (simp_all add: dec_val_def)

lemma dec_val_ge: "n \<le> dec_val n ds"
  by (induction ds arbitrary: n) (simp, metis add_leD1 dec_val_simps(2) le_trans mult_le_cancel1 nat_le_iff_add one_le_numeral mult.right_neutral add.commute le_add1)

text \<open>No leading zeros.\<close>

definition dec_ok :: "u8 list \<Rightarrow> bool" where
  "dec_ok ds \<longleftrightarrow> ds \<noteq> [] \<and> list_all is_digit ds \<and> (hd ds = 48 \<longrightarrow> length ds = 1)"

lemma unat_digit: "n < 10 \<Longrightarrow> unat (word_of_nat (48 + n) :: u8) = 48 + n"
  by (simp add: unat_word_of_nat_u8 del: of_nat_add)

lemma decimal_digits: "dec_ok (decimal n) \<and> dec_val 0 (decimal n) = n \<and> (hd (decimal n) = 48 \<longrightarrow> n = 0)"
proof (induction n rule: decimal.induct)
  case (1 n)
  show ?case
  proof (cases "n < 10")
    case True
    have "(word_of_nat (48 + n) :: u8) = 48 \<longleftrightarrow> n = 0"
      using unat_digit [OF True] by (auto simp: word_unat_eq_iff [of "word_of_nat (48 + n)"] simp del: of_nat_add)
    then show ?thesis using True unat_digit [OF True]
      by (simp add: decimal.simps [of n] dec_ok_def is_digit_def del: of_nat_add)
  next
    case False
    have ih: "dec_ok (decimal (n div 10))" "dec_val 0 (decimal (n div 10)) = n div 10" "hd (decimal (n div 10)) = 48 \<longrightarrow> n div 10 = 0"
      using 1 False by simp_all
    have u: "unat (word_of_nat (48 + n mod 10) :: u8) = 48 + n mod 10" by (rule unat_digit) simp
    have "0 < n div 10" using False by simp
    then show ?thesis using ih u False
      by (auto simp: decimal.simps [of n] dec_ok_def is_digit_def simp del: of_nat_add)
  qed
qed

lemma dec_ok_unique: "dec_ok ds \<Longrightarrow> ds = decimal (dec_val 0 ds)"
proof (induction ds rule: rev_induct)
  case (snoc d ds)
  have d: "is_digit d" "list_all is_digit ds" using snoc.prems by (auto simp: dec_ok_def)
  have dw: "d = word_of_nat (48 + (unat d - 48))" using d(1) by (simp add: is_digit_def)
  have d10: "unat d - 48 < 10" using d(1) unfolding is_digit_def by linarith
  show ?case
  proof (cases "ds = []")
    case True
    then show ?thesis using dw d10 by (simp add: decimal.simps [of "unat d - 48"])
  next
    case False
    then have ok: "dec_ok ds" "hd ds \<noteq> 48" using snoc.prems d by (auto simp: dec_ok_def)
    have ih: "ds = decimal (dec_val 0 ds)" using snoc.IH ok(1) .
    have "dec_val 0 ds \<noteq> 0"
    proof
      assume "dec_val 0 ds = 0"
      then have "ds = [48]" using ih by (simp add: decimal.simps [of 0])
      then show False using ok(2) by simp
    qed
    then have "\<not> dec_val 0 ds * 10 + (unat d - 48) < 10" by simp
    then show ?thesis using ih dw d10
      by (simp add: decimal.simps [of "dec_val 0 ds * 10 + (unat d - 48)"])
  qed
qed (simp add: dec_ok_def)

text \<open>One step of the loop on a digit: it fails on a stray zero and on overflow.\<close>

lemma digit_step:
  assumes "is_digit u"
  shows "unat (ucast (u - 48) :: u64) = unat u - 48"
    and "\<not> (out > (- 1) div 10 \<or> out * 10 > (- 1) - ucast (u - 48)) \<longleftrightarrow> unat (out :: u64) * 10 + (unat u - 48) < 2 ^ 64"
    and "unat out * 10 + (unat u - 48) < 2 ^ 64 \<Longrightarrow> unat (out * 10 + ucast (u - 48)) = unat out * 10 + (unat u - 48)"
proof -
  have b: "48 \<le> unat u" "unat u \<le> 57" using assms by (simp_all add: is_digit_def)
  have "unat (u - 48) = unat u - 48" using b by (simp add: unat_sub word_le_nat_alt)
  then show u: "unat (ucast (u - 48) :: u64) = unat u - 48" by (simp add: unat_ucast_u8_u64)
  let ?d = "ucast (u - 48) :: u64"
  have m: "unat ((- 1 :: u64) div 10) = (2 ^ 64 - 1) div 10" by (simp add: unat_div)
  have d9: "unat ?d \<le> 9" using u b by simp
  have s: "unat ((- 1 :: u64) - ?d) = 2 ^ 64 - 1 - unat ?d"
    by (simp add: unat_sub unsigned_minus_1_eq_mask mask_eq_exp_minus_1)
  have out: "unat out < 2 ^ 64" using unsigned_less [of out, where 'a = nat] by simp
  show "\<not> (out > (- 1) div 10 \<or> out * 10 > (- 1) - ?d) \<longleftrightarrow> unat out * 10 + (unat u - 48) < 2 ^ 64"
  proof (cases "unat out \<le> (2 ^ 64 - 1) div 10")
    case True
    then have "unat (out * 10) = unat out * 10" by (simp add: unat_mult_lem [THEN iffD1])
    then show ?thesis using True m s u d9 by (auto simp: word_less_nat_alt not_less)
  next
    case False
    then show ?thesis using m by (auto simp: word_less_nat_alt not_less)
  qed
  show "unat (out * 10 + ?d) = unat out * 10 + (unat u - 48)" if lt: "unat out * 10 + (unat u - 48) < 2 ^ 64"
  proof -
    have "unat (out * 10) = unat out * 10" using lt by (simp add: unat_mult_lem [THEN iffD1])
    then show ?thesis using lt u by (simp add: unat_add_lem [THEN iffD1])
  qed
qed

text \<open>A component ends at the end of the text or at a dot that is not its last character.\<close>

definition component :: "u8 list \<Rightarrow> u8 list \<Rightarrow> u8 list \<Rightarrow> bool" where
  "component ds cbs rest \<longleftrightarrow> cbs = ds \<and> rest = [] \<or> cbs = ds @ 46 # rest \<and> rest \<noteq> []"

lemma component_Cons: "component (d # ds) (u # cbs) rest \<longleftrightarrow> d = u \<and> component ds cbs rest"
  by (auto simp: component_def)

lemma component_Nil: "component [] (u # cbs) rest \<longleftrightarrow> u = 46 \<and> cbs = rest \<and> rest \<noteq> []"
  by (auto simp: component_def)

lemma ex_list_iff: "(\<exists>ds. P ds) \<longleftrightarrow> P [] \<or> (\<exists>d ds. P (d # ds))"
  by (metis list.exhaust)

lemma not_digit_dot: "\<not> is_digit 46"
  by (simp add: is_digit_def)

lemma dotted_loop_iff:
  assumes "\<not> seen \<longrightarrow> out = 0"
  shows "dotted_loop out seen cbs = (Some w, rest) \<longleftrightarrow>
     (\<exists>ds. component ds cbs rest \<and> list_all is_digit ds \<and> unat w = dec_val (unat out) ds
        \<and> (if seen then out = 0 \<longrightarrow> ds = [] else ds \<noteq> [] \<and> (hd ds = 48 \<longrightarrow> length ds = 1)))"
  using assms
proof (induction cbs arbitrary: out seen)
  case Nil
  have "unat w = unat out \<longleftrightarrow> out = w" by (auto simp: word_unat_eq_iff)
  then show ?case by (auto simp: component_def)
next
  case (Cons u cbs)
  let ?R = "\<exists>ds. component ds (u # cbs) rest \<and> list_all is_digit ds \<and> unat w = dec_val (unat out) ds
        \<and> (if seen then out = 0 \<longrightarrow> ds = [] else ds \<noteq> [] \<and> (hd ds = 48 \<longrightarrow> length ds = 1))"
  have split: "?R \<longleftrightarrow> u = 46 \<and> cbs = rest \<and> rest \<noteq> [] \<and> seen \<and> unat w = unat out
      \<or> (\<exists>ds. component ds cbs rest \<and> is_digit u \<and> list_all is_digit ds \<and> unat w = dec_val (unat out * 10 + (unat u - 48)) ds
        \<and> (if seen then out \<noteq> 0 else u = 48 \<longrightarrow> ds = []))"
    by (subst ex_list_iff) (auto simp: component_Nil component_Cons)
  consider (dot) "u = 46" "cbs \<noteq> []" | (bad) "\<not> is_digit u" "\<not> (u = 46 \<and> cbs \<noteq> [])"
    | (zero) "is_digit u" "seen" "out = 0" | (over) "is_digit u" "\<not> unat out * 10 + (unat u - 48) < 2 ^ 64"
    | (go) "is_digit u" "\<not> (seen \<and> out = 0)" "unat out * 10 + (unat u - 48) < 2 ^ 64"
    by blast
  then show ?case
  proof cases
    case dot
    have "unat w = unat out \<longleftrightarrow> out = w" by (auto simp: word_unat_eq_iff)
    then show ?thesis unfolding split using dot by (auto simp: not_digit_dot)
  next
    case bad
    then have "u < 48 \<or> u > 57" by (auto simp: is_digit_def word_less_nat_alt not_le)
    then show ?thesis unfolding split using bad by auto
  next
    case zero
    then have "u \<noteq> 46" using not_digit_dot by auto
    then show ?thesis unfolding split using zero by auto
  next
    case over
    then have n: "u \<noteq> 46" using not_digit_dot by auto
    have "unat w \<noteq> dec_val (unat out * 10 + (unat u - 48)) ds" for ds
      using dec_val_ge [of "unat out * 10 + (unat u - 48)" ds] over(2) unsigned_less [of w, where 'a = nat] by simp
    then show ?thesis unfolding split using n digit_step(2) [OF over(1), of out] over(2) by auto
  next
    case go
    then have n: "u \<noteq> 46" "\<not> u < 48" "\<not> u > 57" using not_digit_dot by (auto simp: is_digit_def word_less_nat_alt)
    let ?out = "out * 10 + ucast (u - 48) :: u64"
    have o: "unat ?out = unat out * 10 + (unat u - 48)" by (rule digit_step(3) [OF go(1,3)])
    have st: "dotted_loop out seen (u # cbs) = dotted_loop ?out True cbs"
      using n go(2) digit_step(2) [OF go(1), of out] go(3) by auto
    have z: "?out = 0 \<longleftrightarrow> unat out = 0 \<and> unat u = 48"
      using o go(1) by (auto simp: word_unat_eq_iff [of ?out] is_digit_def)
    have "unat u = 48 \<longleftrightarrow> u = 48" by (auto simp: word_unat_eq_iff [of u])
    then have c: "(?out = 0 \<longrightarrow> ds = []) \<longleftrightarrow> (if seen then out \<noteq> 0 else u = 48 \<longrightarrow> ds = [])" for ds :: "u8 list"
      using z go(2) Cons.prems by (auto simp: unat_eq_zero)
    show ?thesis unfolding split st Cons.IH [of True ?out, simplified] o using c n(1) go(1) by (auto simp: if_splits)
  qed
qed

lemma parse_dotted_canonical:
  "parse_dotted_decimal cbs = (Some w, rest) \<longleftrightarrow> component (decimal (unat w)) cbs rest"
proof -
  have "parse_dotted_decimal cbs = (Some w, rest) \<longleftrightarrow> (\<exists>ds. component ds cbs rest \<and> dec_ok ds \<and> unat w = dec_val 0 ds)"
    unfolding parse_dotted_decimal_def by (subst dotted_loop_iff) (auto simp: dec_ok_def)
  also have "\<dots> \<longleftrightarrow> component (decimal (unat w)) cbs rest"
    using decimal_digits [of "unat w"] dec_ok_unique by metis
  finally show ?thesis .
qed

section \<open>Object identifiers\<close>

definition dotted :: "nat list \<Rightarrow> u8 list" where
  "dotted cs = concat (map (\<lambda>c. 46 # decimal c) cs)"

definition oid_text :: "nat list \<Rightarrow> u8 list" where
  "oid_text arcs = (case arcs of [] \<Rightarrow> [] | c # cs \<Rightarrow> decimal c @ dotted cs)"

definition oid_der :: "nat list \<Rightarrow> u8 list" where
  "oid_der arcs = (case arcs of a # b # cs \<Rightarrow> b128 (40 * a + b) @ concat (map b128 cs) | _ \<Rightarrow> [])"

definition oid_ok :: "nat list \<Rightarrow> bool" where
  "oid_ok arcs \<longleftrightarrow> (case arcs of
     a # b # cs \<Rightarrow> a \<le> 2 \<and> (a < 2 \<longrightarrow> b \<le> 39) \<and> b \<le> 2 ^ 64 - 1 - 80 \<and> list_all (\<lambda>c. c < 2 ^ 64) cs | _ \<Rightarrow> False)"

lemma decimal_nonempty [simp]: "decimal n \<noteq> []"
  by (subst decimal.simps) simp

lemma oid_text_simps [simp]: "oid_text [] = []" "oid_text (c # cs) = decimal c @ dotted cs"
  by (simp_all add: oid_text_def)

lemma dotted_Cons: "dotted (c # cs) = 46 # oid_text (c # cs)"
  by (simp add: dotted_def)

lemma dotted_eq: "dotted cs = (if cs = [] then [] else 46 # oid_text cs)"
  by (cases cs) (simp_all add: dotted_Cons, simp add: dotted_def)

lemma oid_text_eq_Nil [simp]: "oid_text cs = [] \<longleftrightarrow> cs = []"
  by (cases cs) simp_all

text \<open>A component followed by a text of components is a text of components.\<close>

lemma component_text: "component (decimal c) cbs (oid_text cs) \<longleftrightarrow> cbs = oid_text (c # cs)"
  by (cases "cs = []") (auto simp: component_def dotted_eq)

definition texts :: "u64 list \<Rightarrow> u8 list" where
  "texts ws = oid_text (map unat ws)"

definition ders :: "u64 list \<Rightarrow> u8 list" where
  "ders ws = concat (map (\<lambda>w. b128 (unat w)) ws)"

lemma texts_Nil [simp]: "texts ws = [] \<longleftrightarrow> ws = []"
  by (simp add: texts_def)

lemma parse_texts:
  "parse_dotted_decimal (texts (w # ws)) = (Some w, texts ws)"
  unfolding parse_dotted_canonical texts_def by (simp add: component_text del: oid_text_simps)

lemma texts_step:
  assumes "parse_dotted_decimal cbs = (Some w, texts ws)"
  shows "cbs = texts (w # ws)"
  using assms unfolding parse_dotted_canonical texts_def by (simp add: component_text del: oid_text_simps)

lemma oid_rest_loop_outcome:
  assumes len: "length (snd A) = Suc (length (fst A))" "d \<le> length (fst A)"
  shows "cbb_rep s (sk_add d a A) \<Longrightarrow> outcome s True (sk_add d (a @ ders ws) A) (oid_rest_loop d (texts ws) s)"
proof (induction ws arbitrary: s a)
  case Nil
  then show ?case by (subst oid_rest_loop.simps) (simp add: texts_def ders_def)
next
  case (Cons w ws)
  have st: "oid_rest_loop d (texts (w # ws)) = st_bind (add_base128_integer d w) (\<lambda>_. oid_rest_loop d (texts ws))"
    by (subst oid_rest_loop.simps) (simp add: parse_texts)
  have "outcome s True (sk_add d ((a @ b128 (unat w)) @ ders ws) A) (oid_rest_loop d (texts (w # ws)) s)"
    unfolding st
    by (rule outcome_add_add [where m = "add_base128_integer d w", OF len add_base128_integer_outcome [OF len Cons.prems]])
       (use Cons.IH [of _ "a @ b128 (unat w)"] len in \<open>auto simp: sk_add_add\<close>)
  then show ?case by (simp add: ders_def)
qed

lemma oid_rest_loop_sound: "oid_rest_loop d cbs s = (Some u, t) \<Longrightarrow> \<exists>ws. cbs = texts ws"
proof (induction d cbs arbitrary: s t rule: oid_rest_loop.induct)
  case (1 d cbs)
  show ?case
  proof (cases "cbs = []")
    case False
    obtain a cbs' where p: "parse_dotted_decimal cbs = (Some a, cbs')"
      using 1(2) False by (subst (asm) oid_rest_loop.simps) (auto split: prod.splits option.splits)
    then obtain t' where "oid_rest_loop d cbs' t' = (Some u, t)"
      using 1(2) False by (subst (asm) oid_rest_loop.simps) (auto simp: st_bind_def split: prod.splits option.splits)
    then obtain ws where "cbs' = texts ws" using 1(1) [OF False p [symmetric] refl] by blast
    then show ?thesis using texts_step p by blast
  qed (metis texts_Nil)
qed

section \<open>From text to DER\<close>

text \<open>The first two components and their joint encoding.\<close>

definition first_ok :: "u64 \<Rightarrow> u64 \<Rightarrow> bool" where
  "first_ok a b \<longleftrightarrow> \<not> (a > 2 \<or> a < 2 \<and> b > 39 \<or> b > (- 1) - 80)"

lemma first_ok_unat:
  "first_ok a b \<longleftrightarrow> unat a \<le> 2 \<and> (unat a < 2 \<longrightarrow> unat b \<le> 39) \<and> unat b \<le> 2 ^ 64 - 1 - 80"
  unfolding first_ok_def by (auto simp: word_less_nat_alt not_less)

lemma first_value: "first_ok a b \<Longrightarrow> unat (40 * a + b) = 40 * unat a + unat b"
proof -
  assume ok: "first_ok a b"
  then have a: "unat a \<le> 2" and b: "unat b \<le> 2 ^ 64 - 1 - 80" by (simp_all add: first_ok_unat)
  have "unat (40 * a) = 40 * unat a" using a by (simp add: unat_mult_lem [THEN iffD1])
  then show ?thesis using a b by (simp add: unat_add_lem [THEN iffD1])
qed

lemma from_text_outcome:
  assumes rep: "cbb_rep s A" and d: "d \<le> length (fst A)" and ok: "first_ok a b"
  shows "outcome s (sk_fits d A) (sk_add d (b128 (unat (40 * a + b)) @ ders ws) A)
    (CBB_add_asn1_oid_from_text d (texts (a # b # ws)) s)"
proof -
  note len = cbb_rep_length [OF rep, THEN conjunct1]
  let ?g = "\<lambda>_. st_bind (add_base128_integer d (40 * a + b)) (\<lambda>_. oid_rest_loop d (texts ws))"
  have st: "CBB_add_asn1_oid_from_text d (texts (a # b # ws)) = st_bind (CBB_flush d) ?g"
    using ok unfolding CBB_add_asn1_oid_from_text_def first_ok_def by (intro ext) (auto simp: parse_texts st_bind_def)
  have fl: "outcome s (sk_fits d A) (sk_add d [] A) (CBB_flush d s)"
    using CBB_flush_outcome [OF rep d] by (simp add: sk_add_nil)
  have "outcome t True (sk_add d (b128 (unat (40 * a + b)) @ ders ws) (sk_add d [] A)) (?g x t)"
    if t: "cbb_rep t (sk_add d [] A)" for x t
  proof -
    have l: "length (snd (sk_add d [] A)) = Suc (length (fst (sk_add d [] A)))" "d \<le> length (fst (sk_add d [] A))"
      using len d by simp_all
    have t': "cbb_rep t (sk_add d [] (sk_add d [] A))" using t len d by (simp add: sk_add_add)
    show ?thesis
      by (rule outcome_add_add [where m = "add_base128_integer d (40 * a + b)", OF l])
         (use add_base128_integer_outcome [OF l t', of "40 * a + b"]
            oid_rest_loop_outcome [OF l, of _ "b128 (unat (40 * a + b))" ws] l in \<open>simp_all add: sk_add_add\<close>)
  qed
  then show ?thesis unfolding st using outcome_add_add [where m = "CBB_flush d", OF len d fl, of "b128 (unat (40 * a + b)) @ ders ws" ?g] by simp
qed

lemma from_text_sound:
  assumes "CBB_add_asn1_oid_from_text d text s = (Some u, t)"
  shows "\<exists>a b ws. first_ok a b \<and> text = texts (a # b # ws)"
proof -
  obtain x s' where "CBB_flush d s = (Some x, s')" and r: "(case parse_dotted_decimal text of
         (None, _) \<Rightarrow> st_fail
       | (Some a, cbs) \<Rightarrow>
           (case parse_dotted_decimal cbs of
              (None, _) \<Rightarrow> st_fail
            | (Some b, cbs') \<Rightarrow>
                if a > 2 \<or> a < 2 \<and> b > 39 \<or> b > (- 1) - 80 then st_fail
                else st_bind (add_base128_integer d (40 * a + b)) (\<lambda>_. oid_rest_loop d cbs'))) s' = (Some u, t)"
    using assms unfolding CBB_add_asn1_oid_from_text_def by (rule st_bind_SomeE)
  obtain a cbs where a: "parse_dotted_decimal text = (Some a, cbs)" using r by (auto split: prod.splits option.splits)
  obtain b cbs' where b: "parse_dotted_decimal cbs = (Some b, cbs')" using r a by (auto split: prod.splits option.splits)
  have ok: "first_ok a b" using r a b by (auto simp: first_ok_def split: if_splits)
  obtain t' where "oid_rest_loop d cbs' t' = (Some u, t)" using r a b
    by (auto simp: st_bind_eq_Some split: if_splits)
  then obtain ws where "cbs' = texts ws" using oid_rest_loop_sound by blast
  then show ?thesis using ok a b texts_step by blast
qed

section \<open>From DER to text\<close>

lemma decimal_length: "n < 10 ^ k \<Longrightarrow> 0 < k \<Longrightarrow> length (decimal n) \<le> k"
proof (induction n arbitrary: k rule: decimal.induct)
  case (1 n)
  show ?case
  proof (cases "n < 10")
    case True
    then show ?thesis using 1(3) by (simp add: decimal.simps [of n])
  next
    case False
    then have "1 < k" using 1(2) by (cases k; cases "k = 1") auto
    then obtain j where j: "k = Suc j" "0 < j" by (cases k) auto
    then have "n div 10 < 10 ^ j" using 1(2) by (simp add: less_mult_imp_div_less)
    then show ?thesis using 1(1) [OF False, of j] j False by (simp add: decimal.simps [of n])
  qed
qed

lemma appends_decimal: "appends d (decimal (unat v)) (add_decimal d v)"
proof -
  have "unat v < 10 ^ 20" using unsigned_less [of v, where 'a = nat] by simp
  then have "length (decimal (unat v)) \<le> 20" by (rule decimal_length) simp
  then have "length (decimal (unat v)) < 2 ^ 63" by simp
  then show ?thesis unfolding add_decimal_def by (rule appends_bytes)
qed

lemma parse_ders: "parse_base128_integer (ders (w # ws)) = (Some w, ders ws)"
  by (simp add: parse_base128_canonical ders_def)

lemma ders_Nil [simp]: "ders ws = [] \<longleftrightarrow> ws = []"
  by (cases ws) (simp_all add: ders_def b128_def)

lemma appends_text_loop: "appends d (dotted (map unat ws)) (oid_text_loop d (ders ws))"
proof (induction ws)
  case Nil
  then show ?case by (subst oid_text_loop.simps) (simp add: ders_def dotted_def appends_return)
next
  case (Cons w ws)
  have "oid_text_loop d (ders (w # ws))
      = st_bind (CBB_add_u8 d 46) (\<lambda>_. st_bind (add_decimal d w) (\<lambda>_. oid_text_loop d (ders ws)))"
    by (subst oid_text_loop.simps) (simp add: parse_ders)
  moreover have "dotted (map unat (w # ws)) = [46] @ decimal (unat w) @ dotted (map unat ws)" by (simp add: dotted_def)
  ultimately show ?case using Cons by (simp only: appends_bind appends_u8 appends_decimal)
qed

lemma oid_text_loop_sound: "oid_text_loop d cbs s = (Some u, t) \<Longrightarrow> \<exists>ws. cbs = ders ws"
proof (induction d cbs arbitrary: s t rule: oid_text_loop.induct)
  case (1 d cbs)
  show ?case
  proof (cases "cbs = []")
    case False
    obtain v cbs' where p: "parse_base128_integer cbs = (Some v, cbs')"
      using 1(2) False by (subst (asm) oid_text_loop.simps) (auto split: prod.splits option.splits)
    then obtain t' where "oid_text_loop d cbs' t' = (Some u, t)"
      using 1(2) False by (subst (asm) oid_text_loop.simps) (auto simp: st_bind_eq_Some)
    then obtain ws where "cbs' = ders ws" using 1(1) [OF False p [symmetric] refl] by blast
    then have "cbs = ders (v # ws)" using p by (simp add: parse_base128_canonical ders_def)
    then show ?thesis by blast
  qed (metis ders_Nil)
qed

text \<open>The two numbers that the first encoded value stands for.\<close>

definition first_pair :: "u64 \<Rightarrow> u64 \<times> u64" where
  "first_pair v = (if v \<ge> 80 then (2, v - 80) else (v div 40, v mod 40))"

lemma first_pair_inverse:
  "first_ok (fst (first_pair v)) (snd (first_pair v))" "40 * fst (first_pair v) + snd (first_pair v) = v"
  "first_ok a b \<Longrightarrow> first_pair (40 * a + b) = (a, b)"
proof -
  have v: "unat v < 2 ^ 64" using unsigned_less [of v, where 'a = nat] by simp
  show ok: "first_ok (fst (first_pair v)) (snd (first_pair v))"
  proof (cases "v \<ge> 80")
    case True
    then have "unat (v - 80) = unat v - 80" by (simp add: unat_sub)
    then show ?thesis using True v by (simp add: first_pair_def first_ok_unat)
  next
    case False
    then have "unat v div 40 \<le> 1" by (simp add: word_le_nat_alt)
    moreover have "unat v mod 40 \<le> 39" using mod_less_divisor [of 40 "unat v"] by simp
    ultimately show ?thesis using False by (simp add: first_pair_def first_ok_unat unat_div unat_mod)
  qed
  have "unat (40 * fst (first_pair v) + snd (first_pair v)) = unat v"
  proof (cases "v \<ge> 80")
    case True
    then show ?thesis by (simp add: first_pair_def)
  next
    case False
    then show ?thesis using first_value [OF ok] by (simp add: first_pair_def unat_div unat_mod)
  qed
  then show "40 * fst (first_pair v) + snd (first_pair v) = v" by (simp add: word_unat_eq_iff)
  show "first_pair (40 * a + b) = (a, b)" if "first_ok a b"
  proof -
    let ?v = "40 * a + b"
    have u: "unat ?v = 40 * unat a + unat b" by (rule first_value [OF that])
    have o: "unat a \<le> 2" "unat a < 2 \<longrightarrow> unat b \<le> 39" using that by (simp_all add: first_ok_unat)
    show ?thesis
    proof (cases "unat a = 2")
      case True
      then have a: "a = 2" by (simp add: word_unat_eq_iff)
      then have "?v \<ge> 80" using u by (simp add: word_le_nat_alt)
      then show ?thesis using a by (simp add: first_pair_def)
    next
      case False
      then have "unat b \<le> 39" "unat a \<le> 1" using o by auto
      then have "\<not> ?v \<ge> 80" "unat (?v div 40) = unat a" "unat (?v mod 40) = unat b"
        using u by (simp_all add: word_le_nat_alt unat_div unat_mod)
      then show ?thesis by (simp add: first_pair_def word_unat_eq_iff)
    qed
  qed
qed

lemma appends_body:
  "appends 0 (texts (fst (first_pair v) # snd (first_pair v) # ws) @ [0]) (oid_text_body (ders (v # ws)))"
proof -
  let ?h = "if v \<ge> 80 then st_bind (CBB_add_bytes 0 [50, 46]) (\<lambda>_. add_decimal 0 (v - 80))
     else st_bind (add_decimal 0 (v div 40)) (\<lambda>_. st_bind (CBB_add_u8 0 46) (\<lambda>_. add_decimal 0 (v mod 40)))"
  have b: "oid_text_body (ders (v # ws)) = st_bind ?h (\<lambda>_. st_bind (oid_text_loop 0 (ders ws)) (\<lambda>_. CBB_add_u8 0 0))"
    unfolding oid_text_body_def parse_ders by simp
  have two: "decimal 2 = [50]" by (simp add: decimal.simps)
  have h: "appends 0 (decimal (unat (fst (first_pair v))) @ 46 # decimal (unat (snd (first_pair v)))) ?h"
  proof (cases "v \<ge> 80")
    case True
    then show ?thesis using appends_bind [OF appends_bytes [of "[50, 46]" 0] appends_decimal [of 0 "v - 80"]]
      by (simp add: first_pair_def two)
  next
    case False
    then show ?thesis
      using appends_bind [OF appends_decimal [of 0 "v div 40"] appends_bind [OF appends_u8 appends_decimal [of 0 "v mod 40"]], of 46]
      by (simp add: first_pair_def)
  qed
  have "texts (fst (first_pair v) # snd (first_pair v) # ws) @ [0]
      = (decimal (unat (fst (first_pair v))) @ 46 # decimal (unat (snd (first_pair v)))) @ dotted (map unat ws) @ [0]"
    by (simp add: texts_def dotted_def)
  then show ?thesis unfolding b using appends_bind [OF h appends_bind [OF appends_text_loop appends_u8]] by (simp only:)
qed

section \<open>Round trips\<close>

definition c_str :: "u8 list \<Rightarrow> u8 list" where
  "c_str buf = takeWhile (\<lambda>b. b \<noteq> 0) buf"

lemma oid_text_nonzero: "0 \<notin> set (oid_text arcs)"
proof -
  have d: "0 \<notin> set (decimal n)" for n
    using decimal_digits [of n] by (auto simp: dec_ok_def is_digit_def list_all_iff)
  then show ?thesis by (cases arcs) (auto simp: dotted_def)
qed

lemma c_str_text:
  assumes "take len buf = t @ [0]" "0 \<notin> set t"
  shows "c_str buf = t"
proof -
  have "takeWhile (\<lambda>b. b \<noteq> 0) (t @ 0 # rest) = t" for rest
    using assms(2) by (induction t) auto
  moreover have "buf = t @ 0 # drop len buf" using append_take_drop_id [of len buf] assms(1) by simp
  ultimately show ?thesis unfolding c_str_def by metis
qed

text \<open>Object identifiers as lists of words.\<close>

lemma oid_words:
  "oid_ok arcs \<longleftrightarrow> (\<exists>a b ws. arcs = map unat (a # b # ws) \<and> first_ok a b)"
proof
  assume ok: "oid_ok arcs"
  then obtain a b cs where c: "arcs = a # b # cs" "list_all (\<lambda>c. c < 2 ^ 64) cs" "b \<le> 2 ^ 64 - 1 - 80" "a \<le> 2"
    "a < 2 \<longrightarrow> b \<le> 39"
    by (auto simp: oid_ok_def split: list.splits)
  have "map unat (map word_of_nat cs :: u64 list) = cs"
    using c(2) by (induction cs) (simp_all add: unat_of_nat)
  moreover have "unat (word_of_nat a :: u64) = a" "unat (word_of_nat b :: u64) = b" using c(3,4) by (simp_all add: unat_of_nat)
  ultimately show "\<exists>a b ws. arcs = map unat (a # b # ws) \<and> first_ok a b"
    using c by (intro exI [of _ "word_of_nat a"] exI [of _ "word_of_nat b"] exI [of _ "map word_of_nat cs"])
      (simp add: first_ok_unat)
next
  assume "\<exists>a b ws. arcs = map unat (a # b # ws) \<and> first_ok a b"
  moreover have "list_all (\<lambda>c. c < 2 ^ 64) (map unat (ws :: u64 list))" for ws
    using unsigned_less [where 'b = 64 and 'a = nat] by (simp add: list_all_iff)
  ultimately show "oid_ok arcs" by (auto simp: oid_ok_def first_ok_unat)
qed

lemma oid_der_words: "first_ok a b \<Longrightarrow> oid_der (map unat (a # b # ws)) = b128 (unat (40 * a + b)) @ ders ws"
  by (simp add: oid_der_def ders_def first_value comp_def)

lemma oid_from_text_iff:
  assumes "heap_total h" "cap < 2 ^ 62" "length der < 2 ^ 60"
  shows "cbb_run (CBB_add_asn1_oid_from_text 0 text) cap h = Some der
    \<longleftrightarrow> (\<exists>arcs. oid_ok arcs \<and> text = oid_text arcs \<and> der = oid_der arcs)"
proof
  assume r: "cbb_run (CBB_add_asn1_oid_from_text 0 text) cap h = Some der"
  then obtain s u t where "CBB_add_asn1_oid_from_text 0 text s = (Some u, t)"
    by (auto simp: cbb_run_def st_bind_eq_Some split: prod.splits option.splits)
  then obtain a b ws where w: "first_ok a b" "text = texts (a # b # ws)" using from_text_sound by blast
  have "heap_sane h" using assms(1) by (simp add: heap_total_def heap_sane_def)
  then have "der = full [] [b128 (unat (40 * a + b)) @ ders ws]"
    using cbb_run_sound [of h cap True "[]" "[b128 (unat (40 * a + b)) @ ders ws]" "CBB_add_asn1_oid_from_text 0 text" der]
      from_text_outcome [of _ "([], [[]])" 0 a b ws] w assms(2) r by (simp add: sk_add_top sk_fits_def)
  then show "\<exists>arcs. oid_ok arcs \<and> text = oid_text arcs \<and> der = oid_der arcs"
    using w oid_words oid_der_words [OF w(1)] by (intro exI [of _ "map unat (a # b # ws)"]) (auto simp: texts_def)
next
  assume "\<exists>arcs. oid_ok arcs \<and> text = oid_text arcs \<and> der = oid_der arcs"
  then obtain a b ws where w: "first_ok a b" "text = texts (a # b # ws)" "der = b128 (unat (40 * a + b)) @ ders ws"
    unfolding oid_words texts_def using oid_der_words by metis
  then have "cbb_run (CBB_add_asn1_oid_from_text 0 text) cap h = Some (full [] [der])"
    using from_text_outcome [of _ "([], [[]])" 0 a b ws] assms
    by (intro cbb_run_total [where fits = True]) (auto simp: sk_add_top sk_fits_def)
  then show "cbb_run (CBB_add_asn1_oid_from_text 0 text) cap h = Some der" by simp
qed

lemma oid_body_sound:
  assumes "oid_text_body cbs s = (Some u, t)"
  shows "\<exists>v ws. cbs = ders (v # ws)"
proof -
  obtain v copy where v: "parse_base128_integer cbs = (Some v, copy)"
    using assms by (auto simp: oid_text_body_def split: prod.splits option.splits)
  obtain s' t' w where "oid_text_loop 0 copy s' = (Some w, t')"
    using assms v by (auto simp: oid_text_body_def st_bind_eq_Some)
  then obtain ws where "copy = ders ws" using oid_text_loop_sound by blast
  then show ?thesis using v by (auto simp: parse_base128_canonical ders_def intro!: exI [of _ v] exI [of _ ws])
qed

lemma oid_body_outcome:
  assumes "cbb_rep s ([], [[]])"
  shows "outcome s True ([], [texts (fst (first_pair v) # snd (first_pair v) # ws) @ [0]]) (oid_text_body (ders (v # ws)) s)"
  using appendsD [OF appends_body, of "([], [[]])" s "[]" v ws] assms by (simp add: sk_add_top)

lemma oid_to_text_iff:
  assumes "heap_total h" "length text < 2 ^ 60"
  shows "map_option c_str (fst (CBS_asn1_oid_to_text der h)) = Some text
    \<longleftrightarrow> (\<exists>arcs. oid_ok arcs \<and> text = oid_text arcs \<and> der = oid_der arcs)"
proof
  obtain s where s: "CBB_init 32 h = (Some (), s)" "cbb_roomy s" "cbb_rep s ([], [[]])"
    using CBB_init_total [OF assms(1), of 32] by auto
  assume "map_option c_str (fst (CBS_asn1_oid_to_text der h)) = Some text"
  then obtain buf1 where buf1: "fst (CBS_asn1_oid_to_text der h) = Some buf1" "text = c_str buf1" by auto
  then obtain u t len t' where r: "oid_text_body der s = (Some u, t)" "CBB_finish 0 False t = (Some (Some buf1, len), t')"
    using s(1) by (auto simp: CBS_asn1_oid_to_text_def st_bind_eq_Some split: prod.splits option.splits
        elim!: st_bind_SomeE)
  obtain v ws where w: "der = ders (v # ws)" using oid_body_sound [OF r(1)] by blast
  let ?a = "fst (first_pair v)" let ?b = "snd (first_pair v)"
  have ok: "first_ok ?a ?b" "40 * ?a + ?b = v" using first_pair_inverse by simp_all
  have "cbb_rep t ([], [texts (?a # ?b # ws) @ [0]])"
    using outcome_Some [where m = "oid_text_body der", OF _ r(1)] oid_body_outcome [OF s(3), of v ws] w by blast
  from CBB_finish_ok(1) [OF this r(2)] have "take len buf1 = texts (?a # ?b # ws) @ [0]" by simp
  then have "text = texts (?a # ?b # ws)" using buf1(2) c_str_text oid_text_nonzero unfolding texts_def by blast
  moreover have "der = oid_der (map unat (?a # ?b # ws))" unfolding oid_der_words [OF ok(1)] ok(2) w by (simp add: ders_def)
  ultimately show "\<exists>arcs. oid_ok arcs \<and> text = oid_text arcs \<and> der = oid_der arcs"
    unfolding oid_words texts_def using ok(1) by metis
next
  obtain s where s: "CBB_init 32 h = (Some (), s)" "cbb_roomy s" "cbb_rep s ([], [[]])"
    using CBB_init_total [OF assms(1), of 32] by auto
  assume "\<exists>arcs. oid_ok arcs \<and> text = oid_text arcs \<and> der = oid_der arcs"
  then obtain a b ws where w: "first_ok a b" "text = texts (a # b # ws)" "der = b128 (unat (40 * a + b)) @ ders ws"
    unfolding oid_words texts_def using oid_der_words by metis
  let ?A = "([], [text @ [0]])"
  have der: "der = ders ((40 * a + b) # ws)" using w(3) by (simp add: ders_def)
  have "outcome s True ?A (oid_text_body der s)"
    using oid_body_outcome [OF s(3), of "40 * a + b" ws] first_pair_inverse(3) [OF w(1)] der w(2) by simp
  moreover have sz: "sk_size ?A < 2 ^ 61" using assms(2) by (simp add: sk_size_def)
  ultimately obtain t where t: "oid_text_body der s = (Some (), t)" "cbb_rep t ?A" "cbb_roomy t"
    using s(2) by (cases "oid_text_body der s") (auto simp: outcome_def)
  obtain buf t' where f: "CBB_finish 0 False t = (Some (buf, sk_size ?A), t')"
    "take (sk_size ?A) (case buf of None \<Rightarrow> [] | Some b \<Rightarrow> b) = text @ [0]"
    using CBB_finish_total [OF t(2,3) _ sz] by auto
  then obtain buf1 where b: "buf = Some buf1" by (cases buf) auto
  have "0 \<notin> set text" using oid_text_nonzero w(2) unfolding texts_def by blast
  then have "c_str buf1 = text" using c_str_text f(2) b by simp
  then show "map_option c_str (fst (CBS_asn1_oid_to_text der h)) = Some text"
    using s(1) t(1) f(1) b by (simp add: CBS_asn1_oid_to_text_def)
qed

text \<open>C9. Text and DER form of object identifiers.  \<open>CBB_add_asn1_oid_from_text\<close> accepts a text and writes
  \<open>der\<close> if and only if the text is the dotted decimal form, without stray zeros, of a list of components
  whose encoding is \<open>der\<close>; and \<open>CBS_asn1_oid_to_text\<close> turns \<open>der\<close> into a text under exactly the same condition,
  so that each conversion inverts the other and neither accepts anything else.\<close>

theorem oid_text_roundtrip:
  assumes "heap_total h" "heap_total h'" "cap < 2 ^ 62" "length text < 2 ^ 60" "length der < 2 ^ 60"
  shows "(cbb_run (CBB_add_asn1_oid_from_text 0 text) cap h = Some der
      \<longleftrightarrow> (\<exists>arcs. oid_ok arcs \<and> text = oid_text arcs \<and> der = oid_der arcs))
    \<and> (map_option c_str (fst (CBS_asn1_oid_to_text der h')) = Some text
      \<longleftrightarrow> (\<exists>arcs. oid_ok arcs \<and> text = oid_text arcs \<and> der = oid_der arcs))"
  using oid_from_text_iff [OF assms(1,3,5)] oid_to_text_iff [OF assms(2,4)] by simp

text \<open>The text \<open>1.2.840\<close>.\<close>

theorem oid_text_roundtrip_witness:
  "cbb_run (CBB_add_asn1_oid_from_text 0 [49, 46, 50, 46, 56, 52, 48]) 0 total_heap = Some [42, 134, 72]
    \<and> map_option c_str (fst (CBS_asn1_oid_to_text [42, 134, 72] total_heap)) = Some [49, 46, 50, 46, 56, 52, 48]"
proof -
  have "oid_ok [1, 2, 840]" by (simp add: oid_ok_def)
  moreover have "oid_text [1, 2, 840] = [49, 46, 50, 46, 56, 52, 48]" by (simp add: dotted_def decimal.simps)
  moreover have "oid_der [1, 2, 840] = [42, 134, 72]" by (simp add: oid_der_def b128_def b128_hi.simps)
  ultimately have "\<exists>arcs. oid_ok arcs \<and> [49, 46, 50, 46, 56, 52, 48] = oid_text arcs \<and> [42, 134, 72] = oid_der arcs"
    by metis
  then show ?thesis
    using oid_text_roundtrip [of total_heap total_heap 0 "[49, 46, 50, 46, 56, 52, 48]" "[42, 134, 72]"] by simp
qed

end
