(* ===== verification/Cbb_Sticky.thy ===== *)
theory Cbb_Sticky
  imports Cbb_Set_Of Oid
begin

text \<open>
  Failure of a builder is permanent: every operation of \<open>cbb.c\<close> that writes, flushes or finishes fails on a builder
  whose error flag is set, with one exception, \<open>CBB_did_write\<close>, which does not look at the flag.
\<close>

definition sticky :: "CBB \<Rightarrow> (CBB, 'a) st \<Rightarrow> bool" where
  "sticky s m \<longleftrightarrow> fst (m s) = None \<and> cbb_failed (snd (m s))"

lemma sticky_bind: "sticky s m \<Longrightarrow> sticky s (st_bind m f)"
  by (auto simp: sticky_def st_bind_def split: prod.splits option.splits)

lemma sticky_flush: "cbb_failed s \<Longrightarrow> sticky s (CBB_flush d)"
  by (cases "drop (Suc d) (cb_chain s)")
    (auto simp: sticky_def cbb_failed_def CBB_flush_def split: option.splits)

lemmas sticky_intros = sticky_bind sticky_flush

lemma sticky_finish: "cbb_failed s \<Longrightarrow> sticky s (CBB_finish d out)"
proof -
  assume s: "cbb_failed s"
  obtain t where "CBB_flush d s = (None, t)" "cbb_failed t" using sticky_flush [OF s, of d] unfolding sticky_def by (metis prod.collapse)
  then show ?thesis using s by (cases "d = 0") (auto simp: sticky_def CBB_finish_def)
qed

lemma sticky_length_prefixed: "cbb_failed s \<Longrightarrow> sticky s (cbb_add_length_prefixed d n)"
  unfolding cbb_add_length_prefixed_def by (intro sticky_intros)

lemma sticky_asn1: "cbb_failed s \<Longrightarrow> sticky s (CBB_add_asn1 d tag)"
  unfolding CBB_add_asn1_def by (intro sticky_intros)

text \<open>C26. A builder whose error flag is set, by an allocation or a length overflow that failed, stays failed: every
  later flush and finish and every operation that adds to it (bytes, space, reserved space, integers, children with
  length prefixes or tags, the ASN.1 values, object identifiers, sorted sets) returns 0 and leaves it failed.
  \<open>CBB_did_write\<close> and \<open>CBB_discard_child\<close>, which do not look at the flag, leave it set too, so that no partial output
  is ever returned.\<close>

theorem CBB_error_sticky:
  assumes "cbb_failed s"
  shows "sticky s (CBB_flush d) \<and> sticky s (CBB_finish d out) \<and> sticky s (CBB_add_bytes d bs)
    \<and> sticky s (CBB_add_space d n) \<and> sticky s (CBB_reserve d n)
    \<and> sticky s (CBB_add_u8 d v8) \<and> sticky s (CBB_add_u16 d v16) \<and> sticky s (CBB_add_u24 d v32) \<and> sticky s (CBB_add_u32 d v32)
    \<and> sticky s (CBB_add_u8_length_prefixed d) \<and> sticky s (CBB_add_u16_length_prefixed d) \<and> sticky s (CBB_add_u24_length_prefixed d)
    \<and> sticky s (CBB_add_asn1 d tag) \<and> sticky s (CBB_add_asn1_uint64 d v64) \<and> sticky s (CBB_add_asn1_octet_string d bs)
    \<and> sticky s (CBB_add_asn1_bool d b) \<and> sticky s (CBB_add_asn1_oid_from_text d bs) \<and> sticky s (CBB_flush_asn1_set_of qsort d)
    \<and> cbb_failed (snd (CBB_did_write d n s)) \<and> cbb_failed (CBB_discard_child d s)"
  using assms
  by (auto simp: CBB_add_bytes_def CBB_add_space_def CBB_reserve_def CBB_add_u8_def CBB_add_u16_def CBB_add_u24_def CBB_add_u32_def
      CBB_add_u8_length_prefixed_def CBB_add_u16_length_prefixed_def CBB_add_u24_length_prefixed_def CBB_add_asn1_uint64_def
      CBB_add_asn1_octet_string_def CBB_add_asn1_bool_def CBB_add_asn1_oid_from_text_def CBB_flush_asn1_set_of_def
      CBB_did_write_def CBB_discard_child_def cbb_failed_def Let_def
      intro!: sticky_intros sticky_finish sticky_length_prefixed sticky_asn1 split: option.splits)

lemma overflowed_demo: "cbb_failed (snd (CBB_add_u16 0 1 (snd (CBB_init_fixed [0] total_heap))))"
  by (simp add: CBB_init_fixed_def cbb_init_def CBB_zero_def mem_malloc_def c_malloc_def total_heap_def
      OPENSSL_MALLOC_PREFIX_def CBB_add_u16_def CBB_flush_def st_bind_def on_base_def cbb_buffer_add_u_def
      cbb_buffer_add_def cbb_buffer_reserve_def cbb_failed_def Let_def)

theorem CBB_error_sticky_witness:
  "sticky (snd (CBB_add_u16 0 1 (snd (CBB_init_fixed [0] total_heap)))) (CBB_finish 0 False)"
  using CBB_error_sticky [OF overflowed_demo] by blast

text \<open>\<open>bytestring.h\<close> says of the flag that all future operations will fail; \<open>CBB_did_write\<close> can succeed.\<close>

lemma CBB_did_write_ignores_error:
  "\<exists>s. cbb_failed s \<and> fst (CBB_did_write 0 1 s) = Some ()"
proof (intro exI conjI)
  let ?s = "snd (CBB_add_u16 0 1 (snd (CBB_init_fixed [0] total_heap)))"
  show "cbb_failed ?s" by (rule overflowed_demo)
  show "fst (CBB_did_write 0 1 ?s) = Some ()"
    by (simp add: CBB_init_fixed_def cbb_init_def CBB_zero_def mem_malloc_def c_malloc_def total_heap_def
        OPENSSL_MALLOC_PREFIX_def CBB_add_u16_def CBB_flush_def st_bind_def on_base_def cbb_buffer_add_u_def
        cbb_buffer_add_def cbb_buffer_reserve_def CBB_did_write_def Let_def)
qed

end
