(* ===== verification/Ssl_Stack.thy ===== *)
theory Ssl_Stack
  imports Mem "HOL-Library.Multiset"
begin

text \<open>
  \<open>crypto/stack/stack.c\<close>: the growable array of pointers \<open>_STACK\<close>.  A pointer is a value of type
  \<open>'p option\<close> with \<open>None\<close> for NULL; a stack argument is an option as well, because every function
  checks it for NULL.  A comparison function is kept with its address, which is all that
  \<open>sk_set_cmp_func\<close> compares.  The slots past \<open>num\<close> are never read; the model fills fresh ones with
  NULL.  \<open>qsort\<close> and \<open>bsearch\<close> of the C library are arguments of the functions that call them, since
  the C standard fixes their result only up to elements that compare equal.
\<close>

section \<open>State\<close>

type_synonym 'p cmp = "'p option \<Rightarrow> 'p option \<Rightarrow> int"
type_synonym 'p cmp_func = "nat \<times> 'p cmp"

record 'p stack_st =
  st_num :: nat
  st_data :: "'p option list"
  st_sorted :: bool
  st_num_alloc :: nat
  st_comp :: "'p cmp_func option"

definition kMinSize :: nat where
  "kMinSize = 4"

definition sizeof_ptr :: nat where
  "sizeof_ptr = 8"

text \<open>\<open>OPENSSL_realloc\<close> on an array of pointers, with its size in bytes.\<close>

definition ptr_realloc :: "'p option list \<Rightarrow> nat \<Rightarrow> (heap, 'p option list) st" where
  "ptr_realloc old bytes h =
     (case mem_malloc bytes h of
        (None, h') \<Rightarrow> (None, h')
      | (Some _, h') \<Rightarrow>
          (Some (take (bytes div sizeof_ptr) old @ replicate (bytes div sizeof_ptr - length old) None),
           mem_free (Some (replicate (sizeof_ptr * length old) 0)) h'))"

section \<open>Operations\<close>

definition sk_free :: "'p stack_st option \<Rightarrow> heap \<Rightarrow> heap" where
  "sk_free sk h =
     (case sk of None \<Rightarrow> h
      | Some s \<Rightarrow> mem_free (Some (replicate 40 0))
                   (mem_free (Some (replicate (sizeof_ptr * length (st_data s)) 0)) h))"

definition sk_new :: "'p cmp_func option \<Rightarrow> (heap, 'p stack_st) st" where
  "sk_new cf h =
     (case mem_malloc 40 h of
        (None, h1) \<Rightarrow> (None, h1)
      | (Some blk, h1) \<Rightarrow>
          (case mem_malloc (szw (sizeof_ptr * kMinSize)) h1 of
             (None, h2) \<Rightarrow> (None, mem_free (Some blk) h2)
           | (Some _, h2) \<Rightarrow>
               (Some \<lparr>st_num = 0, st_data = replicate kMinSize None, st_sorted = False,
                      st_num_alloc = kMinSize, st_comp = cf\<rparr>, h2)))"

definition sk_new_null :: "(heap, 'p stack_st) st" where
  "sk_new_null = sk_new None"

definition sk_num :: "'p stack_st option \<Rightarrow> nat" where
  "sk_num sk = (case sk of None \<Rightarrow> 0 | Some s \<Rightarrow> st_num s)"

definition sk_zero :: "'p stack_st option \<Rightarrow> 'p stack_st option" where
  "sk_zero sk =
     (case sk of None \<Rightarrow> None
      | Some s \<Rightarrow>
          if st_num s = 0 then Some s
          else Some (s\<lparr>st_data := memcpy_at (st_data s) 0 (replicate (st_num s) None),
                       st_num := 0, st_sorted := False\<rparr>))"

definition sk_value :: "'p stack_st option \<Rightarrow> nat \<Rightarrow> 'p option" where
  "sk_value sk i =
     (case sk of None \<Rightarrow> None | Some s \<Rightarrow> if i \<ge> st_num s then None else st_data s ! i)"

definition sk_set :: "'p stack_st option \<Rightarrow> nat \<Rightarrow> 'p option \<Rightarrow> 'p option \<times> 'p stack_st option" where
  "sk_set sk i value =
     (case sk of None \<Rightarrow> (None, None)
      | Some s \<Rightarrow> if i \<ge> st_num s then (None, Some s)
                  else (value, Some (s\<lparr>st_data := (st_data s)[i := value]\<rparr>)))"

text \<open>The callback of \<open>sk_pop_free\<close> acts on the outside world \<open>'w\<close>.\<close>

definition sk_pop_free :: "'p stack_st option \<Rightarrow> ('p \<Rightarrow> 'w \<Rightarrow> 'w) \<Rightarrow> 'w \<times> heap \<Rightarrow> 'w \<times> heap" where
  "sk_pop_free sk func = (\<lambda>(w, h).
     case sk of None \<Rightarrow> (w, h)
     | Some s \<Rightarrow>
         (fold (\<lambda>p w. case p of None \<Rightarrow> w | Some x \<Rightarrow> func x w) (take (st_num s) (st_data s)) w,
          sk_free sk h))"

text \<open>The second half of \<open>sk_insert\<close>, once there is room for one more slot.\<close>

definition sk_place :: "'p option \<Rightarrow> nat \<Rightarrow> 'p stack_st \<Rightarrow> 'p stack_st" where
  "sk_place p pos s =
     s\<lparr>st_data := (if pos \<ge> st_num s then (st_data s)[st_num s := p]
                   else (memcpy_at (st_data s) (pos + 1)
                           (take (st_num s - pos) (drop pos (st_data s))))[pos := p]),
       st_num := szw (st_num s + 1), st_sorted := False\<rparr>"

text \<open>The new number of slots: twice the old one, or one more if that overflows; \<open>None\<close> if both do.\<close>

definition sk_new_alloc :: "nat \<Rightarrow> nat option" where
  "sk_new_alloc num_alloc =
     (let bad = (\<lambda>n. n < num_alloc \<or> szw (n * sizeof_ptr) div sizeof_ptr \<noteq> n);
          new_alloc = szw (num_alloc * 2);
          new_alloc = (if bad new_alloc then szw (num_alloc + 1) else new_alloc) in
      if bad new_alloc then None else Some new_alloc)"

definition sk_insert :: "'p stack_st option \<Rightarrow> 'p option \<Rightarrow> nat \<Rightarrow> heap \<Rightarrow> nat \<times> 'p stack_st option \<times> heap" where
  "sk_insert sk p pos h =
     (case sk of None \<Rightarrow> (0, None, h)
      | Some s \<Rightarrow>
          if st_num_alloc s \<le> szw (st_num s + 1) then
            (case sk_new_alloc (st_num_alloc s) of
               None \<Rightarrow> (0, Some s, h)
             | Some new_alloc \<Rightarrow>
                 (case ptr_realloc (st_data s) (szw (new_alloc * sizeof_ptr)) h of
                    (None, h') \<Rightarrow> (0, Some s, h')
                  | (Some d, h') \<Rightarrow>
                      let s' = sk_place p pos (s\<lparr>st_data := d, st_num_alloc := new_alloc\<rparr>) in
                      (st_num s', Some s', h')))
          else let s' = sk_place p pos s in (st_num s', Some s', h))"

definition sk_delete :: "'p stack_st option \<Rightarrow> nat \<Rightarrow> 'p option \<times> 'p stack_st option" where
  "sk_delete sk pos =
     (case sk of None \<Rightarrow> (None, None)
      | Some s \<Rightarrow>
          if pos \<ge> st_num s then (None, Some s)
          else let ret = st_data s ! pos;
                   d = (if pos \<noteq> st_num s - 1
                        then memcpy_at (st_data s) pos
                               (take (st_num s - pos - 1) (drop (pos + 1) (st_data s)))
                        else st_data s)
               in (ret, Some (s\<lparr>st_data := d, st_num := st_num s - 1\<rparr>)))"

fun find_ptr :: "'p option list \<Rightarrow> 'p option \<Rightarrow> nat \<Rightarrow> nat option" where
  "find_ptr [] p i = None"
| "find_ptr (x # xs) p i = (if x = p then Some i else find_ptr xs p (Suc i))"

definition sk_delete_ptr :: "'p stack_st option \<Rightarrow> 'p option \<Rightarrow> 'p option \<times> 'p stack_st option" where
  "sk_delete_ptr sk p =
     (case sk of None \<Rightarrow> (None, None)
      | Some s \<Rightarrow>
          (case find_ptr (take (st_num s) (st_data s)) p 0 of
             None \<Rightarrow> (None, sk) | Some i \<Rightarrow> sk_delete sk i))"

type_synonym 'p qsort_fun = "'p cmp \<Rightarrow> 'p option list \<Rightarrow> 'p option list"
type_synonym 'p bsearch_fun = "'p cmp \<Rightarrow> 'p option \<Rightarrow> 'p option list \<Rightarrow> nat option"

definition sk_sort :: "'p qsort_fun \<Rightarrow> 'p stack_st option \<Rightarrow> 'p stack_st option" where
  "sk_sort qsort sk =
     (case sk of None \<Rightarrow> None
      | Some s \<Rightarrow>
          (case st_comp s of
             None \<Rightarrow> Some s
           | Some (_, cmp) \<Rightarrow>
               if st_sorted s then Some s
               else Some (s\<lparr>st_data := memcpy_at (st_data s) 0 (qsort cmp (take (st_num s) (st_data s))),
                            st_sorted := True\<rparr>)))"

primrec first_equal :: "'p cmp \<Rightarrow> 'p option \<Rightarrow> 'p option list \<Rightarrow> nat \<Rightarrow> nat" where
  "first_equal cmp p d 0 = 0"
| "first_equal cmp p d (Suc i) = (if cmp p (d ! i) = 0 then first_equal cmp p d i else Suc i)"

definition sk_find :: "'p qsort_fun \<Rightarrow> 'p bsearch_fun \<Rightarrow> 'p stack_st option \<Rightarrow> 'p option
    \<Rightarrow> nat option \<times> 'p stack_st option" where
  "sk_find qsort bsearch sk p =
     (case sk of None \<Rightarrow> (None, None)
      | Some s \<Rightarrow>
          (case st_comp s of
             None \<Rightarrow> (find_ptr (take (st_num s) (st_data s)) p 0, sk)
           | Some (_, cmp) \<Rightarrow>
               if p = None then (None, sk)
               else (case sk_sort qsort sk of
                       None \<Rightarrow> (None, None)
                     | Some s' \<Rightarrow>
                         (case bsearch cmp p (take (st_num s') (st_data s')) of
                            None \<Rightarrow> (None, Some s')
                          | Some idx \<Rightarrow> (Some (first_equal cmp p (st_data s') idx), Some s')))))"

definition sk_shift :: "'p stack_st option \<Rightarrow> 'p option \<times> 'p stack_st option" where
  "sk_shift sk =
     (case sk of None \<Rightarrow> (None, None)
      | Some s \<Rightarrow> if st_num s = 0 then (None, sk) else sk_delete sk 0)"

definition sk_push :: "'p stack_st option \<Rightarrow> 'p option \<Rightarrow> heap \<Rightarrow> nat \<times> 'p stack_st option \<times> heap" where
  "sk_push sk p h = sk_insert sk p (sk_num sk) h"

definition sk_pop :: "'p stack_st option \<Rightarrow> 'p option \<times> 'p stack_st option" where
  "sk_pop sk =
     (case sk of None \<Rightarrow> (None, None)
      | Some s \<Rightarrow> if st_num s = 0 then (None, sk) else sk_delete sk (st_num s - 1))"

definition sk_dup :: "'p stack_st option \<Rightarrow> (heap, 'p stack_st) st" where
  "sk_dup sk h =
     (case sk of None \<Rightarrow> (None, h)
      | Some s \<Rightarrow>
          (case sk_new (st_comp s) h of
             (None, h1) \<Rightarrow> (None, h1)
           | (Some ret, h1) \<Rightarrow>
               (case ptr_realloc (st_data ret) (szw (sizeof_ptr * st_num_alloc s)) h1 of
                  (None, h2) \<Rightarrow> (None, sk_free (Some ret) h2)
                | (Some d, h2) \<Rightarrow>
                    (Some \<lparr>st_num = st_num s, st_data = memcpy_at d 0 (take (st_num s) (st_data s)),
                           st_sorted = st_sorted s, st_num_alloc = st_num_alloc s,
                           st_comp = st_comp s\<rparr>, h2))))"

definition sk_is_sorted :: "'p stack_st option \<Rightarrow> bool" where
  "sk_is_sorted sk = (case sk of None \<Rightarrow> True | Some s \<Rightarrow> st_sorted s)"

definition sk_set_cmp_func :: "'p stack_st \<Rightarrow> 'p cmp_func option \<Rightarrow> 'p cmp_func option \<times> 'p stack_st" where
  "sk_set_cmp_func s cf =
     (st_comp s,
      (if map_option fst (st_comp s) \<noteq> map_option fst cf then s\<lparr>st_sorted := False\<rparr> else s)\<lparr>st_comp := cf\<rparr>)"

text \<open>The copy loop of \<open>sk_deep_copy\<close>: the copies made so far, the elements left, the outside world.
  A failed copy frees the copies made so far in order.\<close>

definition free_all :: "('p \<Rightarrow> 'w \<Rightarrow> 'w) \<Rightarrow> 'p option list \<Rightarrow> 'w \<Rightarrow> 'w" where
  "free_all free_func xs w = fold (\<lambda>p w. case p of None \<Rightarrow> w | Some x \<Rightarrow> free_func x w) xs w"

fun deep_copy_loop :: "('p \<Rightarrow> 'w \<Rightarrow> 'p option \<times> 'w) \<Rightarrow> ('p \<Rightarrow> 'w \<Rightarrow> 'w)
    \<Rightarrow> 'p option list \<Rightarrow> 'p option list \<Rightarrow> 'w \<Rightarrow> 'p option list option \<times> 'w" where
  "deep_copy_loop copy free_func acc [] w = (Some acc, w)"
| "deep_copy_loop copy free_func acc (None # xs) w = deep_copy_loop copy free_func (acc @ [None]) xs w"
| "deep_copy_loop copy free_func acc (Some x # xs) w =
     (case copy x w of
        (None, w') \<Rightarrow> (None, free_all free_func acc w')
      | (Some y, w') \<Rightarrow> deep_copy_loop copy free_func (acc @ [Some y]) xs w')"

definition sk_deep_copy :: "'p stack_st option \<Rightarrow> ('p \<Rightarrow> 'w \<Rightarrow> 'p option \<times> 'w) \<Rightarrow> ('p \<Rightarrow> 'w \<Rightarrow> 'w)
    \<Rightarrow> 'w \<times> heap \<Rightarrow> 'p stack_st option \<times> 'w \<times> heap" where
  "sk_deep_copy sk copy free_func = (\<lambda>(w, h).
     case sk_dup sk h of
       (None, h') \<Rightarrow> (None, w, h')
     | (Some ret, h') \<Rightarrow>
         (case deep_copy_loop copy free_func [] (take (st_num ret) (st_data ret)) w of
            (None, w') \<Rightarrow> (None, w', sk_free (Some ret) h')
          | (Some ys, w') \<Rightarrow> (Some (ret\<lparr>st_data := memcpy_at (st_data ret) 0 ys\<rparr>), w', h')))"

section \<open>The stack as a list\<close>

definition sk_abs :: "'p stack_st \<Rightarrow> 'p option list" where
  "sk_abs s = take (st_num s) (st_data s)"

definition sorted_by :: "'p cmp \<Rightarrow> 'p option list \<Rightarrow> bool" where
  "sorted_by cmp xs \<longleftrightarrow> sorted_wrt (\<lambda>a b. cmp a b \<le> 0) xs"

definition sk_shape :: "'p stack_st \<Rightarrow> bool" where
  "sk_shape s \<longleftrightarrow> length (st_data s) = st_num_alloc s \<and> st_num s < st_num_alloc s \<and> 8 * st_num_alloc s + 8 < 2 ^ 63"

definition sk_inv :: "'p stack_st \<Rightarrow> bool" where
  "sk_inv s \<longleftrightarrow> sk_shape s
     \<and> (st_sorted s \<longrightarrow> (\<exists>a cmp. st_comp s = Some (a, cmp) \<and> sorted_by cmp (sk_abs s)))"

lemma sk_abs_length [simp]: "sk_shape s \<Longrightarrow> length (sk_abs s) = st_num s"
  by (simp add: sk_abs_def sk_shape_def)

text \<open>Moving the tail up by one slot and storing \<open>p\<close> in the gap.\<close>

lemma insert_slots:
  assumes "n < length d" "i \<le> n"
  shows "take (Suc n) ((memcpy_at d (Suc i) (take (n - i) (drop i d)))[i := p])
    = take i d @ p # drop i (take n d)"
proof -
  have l: "length (take (n - i) (drop i d)) = n - i" using assms by simp
  have "memcpy_at d (Suc i) (take (n - i) (drop i d)) = (take i d @ [d ! i]) @ drop i (take n d) @ drop (Suc n) d"
    using assms by (simp add: memcpy_at_def l take_Suc_conv_app_nth drop_take)
  moreover have "length (drop i (take n d)) = n - i" using assms by simp
  ultimately show ?thesis using assms by (simp add: list_update_append min_def Suc_diff_le)
qed

lemma delete_slots:
  assumes "n \<le> length d" "i < n"
  shows "take (n - 1) (memcpy_at d i (take (n - i - 1) (drop (Suc i) d))) = take i d @ drop (Suc i) (take n d)"
proof -
  have "take (n - i - 1) (drop (Suc i) d) = drop (Suc i) (take n d)" by (simp add: drop_take)
  moreover have "length (drop (Suc i) (take n d)) = n - Suc i" using assms by simp
  ultimately show ?thesis using assms by (simp add: memcpy_at_def)
qed

definition ins_at :: "nat \<Rightarrow> 'a \<Rightarrow> 'a list \<Rightarrow> 'a list" where
  "ins_at i x xs = take i xs @ x # drop i xs"

definition del_at :: "nat \<Rightarrow> 'a list \<Rightarrow> 'a list" where
  "del_at i xs = take i xs @ drop (Suc i) xs"

lemma place_ok:
  assumes sh: "length (st_data s) = st_num_alloc s" "st_num s < st_num_alloc s" "8 * st_num_alloc s + 8 < 2 ^ 63"
    and room: "Suc (st_num s) < st_num_alloc s"
    and s': "s' = sk_place p pos s"
  shows "sk_inv s' \<and> sk_abs s' = ins_at pos p (sk_abs s) \<and> st_num s' = Suc (st_num s) \<and> st_comp s' = st_comp s"
proof -
  have w: "szw (st_num s + 1) = Suc (st_num s)" using sh by simp
  have "sk_abs s' = ins_at pos p (sk_abs s)"
  proof (cases "pos \<ge> st_num s")
    case True
    then show ?thesis
      using sh w by (simp add: s' sk_place_def sk_abs_def ins_at_def take_Suc_conv_app_nth)
  next
    case False
    then show ?thesis
      using insert_slots [of "st_num s" "st_data s" pos p] sh w by (simp add: s' sk_place_def sk_abs_def ins_at_def min_def)
  qed
  moreover have "sk_inv s'"
    using sh room w by (simp add: s' sk_place_def sk_inv_def sk_shape_def)
  ultimately show ?thesis using w by (simp add: s' sk_place_def)
qed

lemma sk_insert_ok:
  assumes inv: "sk_inv s" and sane: "heap_sane h"
    and r: "sk_insert (Some s) p pos h = (n, sk', h')"
  shows "\<exists>s'. sk' = Some s' \<and> sk_inv s' \<and> heap_sane h'
    \<and> (n = 0 \<and> s' = s \<or> n = Suc (st_num s) \<and> sk_abs s' = ins_at pos p (sk_abs s) \<and> st_comp s' = st_comp s)"
proof -
  have sh: "length (st_data s) = st_num_alloc s" "st_num s < st_num_alloc s" "8 * st_num_alloc s + 8 < 2 ^ 63"
    using inv by (auto simp: sk_inv_def sk_shape_def)
  have w: "szw (Suc (st_num s)) = Suc (st_num s)" "szw (16 * st_num_alloc s) = 16 * st_num_alloc s"
    using sh by simp_all
  have na: "sk_new_alloc (st_num_alloc s) = Some (st_num_alloc s * 2)"
    using sh by (simp add: sk_new_alloc_def Let_def sizeof_ptr_def)
  let ?place = "sk_place p pos"
  show ?thesis
  proof (cases "st_num_alloc s \<le> st_num s + 1")
    case False
    then have e: "sk' = Some (?place s)" "n = st_num (?place s)" "h' = h"
      using r by (auto simp: sk_insert_def w Let_def)
    show ?thesis
      using place_ok [OF sh _ refl, of p pos] False e sane by (auto simp: not_le)
  next
    case True
    have hok: "ptr_realloc (st_data s) n h = (d, h1) \<Longrightarrow> heap_sane h1" for n d h1
      using sane by (auto simp: ptr_realloc_def heap_sane_def split: prod.splits option.splits dest!: mem_malloc_hp_ok)
    obtain d h1 where d: "ptr_realloc (st_data s) (16 * st_num_alloc s) h = (d, h1)" by fastforce
    show ?thesis
    proof (cases d)
      case None
      then show ?thesis
        using r True d inv hok [OF d] by (auto simp: sk_insert_def w na Let_def sizeof_ptr_def)
    next
      case (Some dd)
      let ?s = "s\<lparr>st_data := dd, st_num_alloc := st_num_alloc s * 2\<rparr>"
      have dd: "dd = st_data s @ replicate (st_num_alloc s) None"
        using d Some sh(1) by (auto simp: ptr_realloc_def sizeof_ptr_def split: prod.splits option.splits)
      have e: "sk' = Some (?place ?s)" "n = st_num (?place ?s)" "h' = h1"
        using r True d Some by (auto simp: sk_insert_def w na Let_def sizeof_ptr_def)
      have "16 * st_num_alloc s + 8 < 2 ^ 63"
        using d Some sh sane by (auto simp: ptr_realloc_def split: prod.splits option.splits dest!: mem_malloc_sane)
      then have "length (st_data ?s) = st_num_alloc ?s" "st_num ?s < st_num_alloc ?s" "8 * st_num_alloc ?s + 8 < 2 ^ 63"
        "Suc (st_num ?s) < st_num_alloc ?s"
        using sh dd True by simp_all
      note k = place_ok [OF this refl, of p pos]
      have "sk_abs ?s = sk_abs s" using sh dd by (simp add: sk_abs_def)
      then show ?thesis using k e hok [OF d] by auto
    qed
  qed
qed

lemma sorted_del_at: "sorted_by cmp xs \<Longrightarrow> sorted_by cmp (del_at i xs)"
proof -
  assume "sorted_by cmp xs"
  then have "sorted_wrt (\<lambda>a b. cmp a b \<le> 0) (take i xs @ drop i xs)" by (simp add: sorted_by_def)
  moreover have "set (drop (Suc i) xs) \<subseteq> set (drop i xs)" by (rule set_drop_subset_set_drop) simp
  moreover have "sorted_wrt (\<lambda>a b. cmp a b \<le> 0) (drop (Suc i) xs)"
    using \<open>sorted_by cmp xs\<close> by (simp add: sorted_by_def sorted_wrt_drop)
  ultimately show ?thesis unfolding sorted_by_def del_at_def sorted_wrt_append by blast
qed

lemma sk_delete_ok:
  assumes "sk_inv s" "pos < st_num s"
  shows "\<exists>s'. sk_delete (Some s) pos = (sk_abs s ! pos, Some s') \<and> sk_inv s' \<and> sk_abs s' = del_at pos (sk_abs s)
    \<and> st_comp s' = st_comp s"
proof -
  have sh: "length (st_data s) = st_num_alloc s" "st_num s < st_num_alloc s" "8 * st_num_alloc s + 8 < 2 ^ 63"
    using assms by (auto simp: sk_inv_def sk_shape_def)
  define d where "d = (if pos \<noteq> st_num s - 1
                        then memcpy_at (st_data s) pos (take (st_num s - pos - 1) (drop (pos + 1) (st_data s)))
                        else st_data s)"
  define s' where "s' = s\<lparr>st_data := d, st_num := st_num s - 1\<rparr>"
  have ld: "length d = st_num_alloc s" using sh assms(2) by (simp add: d_def)
  have a: "sk_abs s' = del_at pos (sk_abs s)"
  proof (cases "pos = st_num s - 1")
    case True
    then show ?thesis using sh assms(2) by (simp add: s'_def d_def sk_abs_def del_at_def min_def)
  next
    case False
    then show ?thesis
      using delete_slots [of "st_num s" "st_data s" pos] sh assms(2)
      by (simp add: s'_def d_def sk_abs_def del_at_def min_def)
  qed
  have "sk_inv s'"
    using assms(1) a ld sh sorted_del_at by (auto simp: s'_def sk_inv_def sk_shape_def)
  moreover have "sk_delete (Some s) pos = (sk_abs s ! pos, Some s')"
    using assms(2) by (simp add: sk_delete_def s'_def d_def sk_abs_def Let_def)
  ultimately show ?thesis using a by (simp add: s'_def)
qed

section \<open>The sequence contract\<close>

text \<open>What a client of a growable sequence relies on: insertion may fail, and then leaves the sequence
  alone; otherwise insertion and deletion at a position act as on lists.\<close>

locale sequence_adt =
  fixes inv :: "'s \<Rightarrow> bool"
    and abs :: "'s \<Rightarrow> 'a list"
    and insert_at :: "'s \<Rightarrow> 'a \<Rightarrow> nat \<Rightarrow> 's option"
    and delete_at :: "'s \<Rightarrow> nat \<Rightarrow> 'a \<times> 's"
  assumes insert_at_ok: "inv s \<Longrightarrow> insert_at s x i = Some s' \<Longrightarrow> inv s' \<and> abs s' = ins_at i x (abs s)"
    and delete_at_ok: "inv s \<Longrightarrow> i < length (abs s) \<Longrightarrow> delete_at s i = (x, s')
      \<Longrightarrow> inv s' \<and> x = abs s ! i \<and> abs s' = del_at i (abs s)"
begin

lemma push_appends:
  "inv s \<Longrightarrow> insert_at s x (length (abs s)) = Some s' \<Longrightarrow> inv s' \<and> abs s' = abs s @ [x]"
  using insert_at_ok [of s x "length (abs s)" s'] by (simp add: ins_at_def)

lemma push_pop:
  assumes "inv s" "insert_at s x (length (abs s)) = Some s1" "delete_at s1 (length (abs s1) - 1) = (y, s2)"
  shows "y = x \<and> inv s2 \<and> abs s2 = abs s"
proof -
  have 1: "inv s1" "abs s1 = abs s @ [x]" using push_appends [OF assms(1,2)] by auto
  then show ?thesis using delete_at_ok [OF 1(1) _ assms(3)] by (simp add: del_at_def)
qed

lemma shift_takes_front:
  assumes "inv s" "abs s = x # xs" "delete_at s 0 = (y, s')"
  shows "y = x \<and> inv s' \<and> abs s' = xs"
  using delete_at_ok [OF assms(1) _ assms(3)] assms(2) by (simp add: del_at_def)

lemma insert_delete:
  assumes "inv s" "i \<le> length (abs s)" "insert_at s x i = Some s1" "delete_at s1 i = (y, s2)"
  shows "y = x \<and> inv s2 \<and> abs s2 = abs s"
proof -
  have 1: "inv s1" "abs s1 = ins_at i x (abs s)" using insert_at_ok [OF assms(1,3)] by auto
  moreover have "ins_at i x (abs s) ! i = x" "del_at i (ins_at i x (abs s)) = abs s" "i < length (ins_at i x (abs s))"
    using assms(2) by (simp_all add: ins_at_def del_at_def nth_append)
  ultimately show ?thesis using delete_at_ok [OF 1(1) _ assms(4)] by simp
qed

end

text \<open>The stack provides it, together with the heap it allocates from.\<close>

definition sk_insert_at :: "'p stack_st \<times> heap \<Rightarrow> 'p option \<Rightarrow> nat \<Rightarrow> ('p stack_st \<times> heap) option" where
  "sk_insert_at = (\<lambda>(s, h) p i.
     case sk_insert (Some s) p i h of
       (n, Some s', h') \<Rightarrow> if n = 0 then None else Some (s', h')
     | (n, None, h') \<Rightarrow> None)"

definition sk_delete_at :: "'p stack_st \<times> heap \<Rightarrow> nat \<Rightarrow> 'p option \<times> 'p stack_st \<times> heap" where
  "sk_delete_at = (\<lambda>(s, h) i. case sk_delete (Some s) i of (x, sk') \<Rightarrow> (x, case sk' of None \<Rightarrow> s | Some s' \<Rightarrow> s', h))"

interpretation sk_seq: sequence_adt
  "\<lambda>(s, h). sk_inv s \<and> heap_sane h" "\<lambda>(s, h). sk_abs s" sk_insert_at sk_delete_at
proof
  fix sh :: "'a stack_st \<times> heap" and x i and sh' :: "'a stack_st \<times> heap"
  obtain s h where sh: "sh = (s, h)" by fastforce
  assume inv: "case sh of (s, h) \<Rightarrow> sk_inv s \<and> heap_sane h"
  then have i: "sk_inv s" "heap_sane h" by (auto simp: sh)
  { assume "sk_insert_at sh x i = Some sh'"
    then obtain n s' h' where r: "sk_insert (Some s) x i h = (n, Some s', h')" "n \<noteq> 0" "sh' = (s', h')"
      by (auto simp: sk_insert_at_def sh split: prod.splits option.splits if_splits)
    then show "(case sh' of (s, h) \<Rightarrow> sk_inv s \<and> heap_sane h)
        \<and> (case sh' of (s, h) \<Rightarrow> sk_abs s) = ins_at i x (case sh of (s, h) \<Rightarrow> sk_abs s)"
      using sk_insert_ok [OF i r(1)] by (auto simp: sh) }
  { assume lt: "i < length (case sh of (s, h) \<Rightarrow> sk_abs s)" and d: "sk_delete_at sh i = (x, sh')"
    then have "i < st_num s" using i by (simp add: sh sk_inv_def)
    then obtain s' where "sk_delete (Some s) i = (sk_abs s ! i, Some s')" "sk_inv s'" "sk_abs s' = del_at i (sk_abs s)"
      using sk_delete_ok [OF i(1)] by blast
    then show "(case sh' of (s, h) \<Rightarrow> sk_inv s \<and> heap_sane h)
        \<and> x = (case sh of (s, h) \<Rightarrow> sk_abs s) ! i
        \<and> (case sh' of (s, h) \<Rightarrow> sk_abs s) = del_at i (case sh of (s, h) \<Rightarrow> sk_abs s)"
      using i d by (auto simp: sk_delete_at_def sh) }
qed

text \<open>Insertion at any position: it succeeds and acts like insertion into a list (a position past the
  end appends), or it fails, returns 0 and leaves the stack as it was; both keep the invariant.\<close>

theorem sk_insert_refines:
  assumes "sk_inv s" "heap_sane h" "sk_insert (Some s) p pos h = (n, sk', h')"
  shows "\<exists>s'. sk' = Some s' \<and> sk_inv s' \<and> (if n = 0 then s' = s
    else n = sk_num sk' \<and> sk_abs s' = take pos (sk_abs s) @ p # drop pos (sk_abs s))"
proof -
  obtain s' where s': "sk' = Some s'" "sk_inv s'"
    "n = 0 \<and> s' = s \<or> n = Suc (st_num s) \<and> sk_abs s' = ins_at pos p (sk_abs s)"
    using sk_insert_ok [OF assms] by blast
  have "length (sk_abs s') = st_num s'" "length (sk_abs s) = st_num s"
    using s'(2) assms(1) by (simp_all add: sk_inv_def)
  then show ?thesis using s' by (auto simp: sk_num_def ins_at_def)
qed

definition demo_stack :: "nat stack_st" where
  "demo_stack = \<lparr>st_num = 3, st_data = [Some 1, Some 2, Some 3, None], st_sorted = False, st_num_alloc = 4, st_comp = None\<rparr>"

lemma demo_stack: "sk_inv demo_stack" "sk_abs demo_stack = [Some 1, Some 2, Some 3]" "heap_sane demo_heap"
  by (auto simp: demo_stack_def sk_inv_def sk_shape_def sk_abs_def heap_sane_def demo_heap_def)

theorem sk_insert_refines_witness:
  "\<exists>n sk' h' s'. sk_insert (Some demo_stack) (Some 9) 1 demo_heap = (n, sk', h') \<and> n \<noteq> 0 \<and> sk' = Some s'
     \<and> sk_abs s' = [Some 1, Some 9, Some 2, Some 3]"
proof -
  obtain n sk' h' where r: "sk_insert (Some demo_stack) (Some 9) 1 demo_heap = (n, sk', h')" by (metis prod_cases3)
  have "n \<noteq> 0"
    using r by (auto simp: sk_insert_def demo_stack_def sk_new_alloc_def ptr_realloc_def mem_malloc_def c_malloc_def
        demo_heap_def sizeof_ptr_def OPENSSL_MALLOC_PREFIX_def Let_def sk_place_def)
  then show ?thesis using sk_insert_refines [OF demo_stack(1,3) r] r by (auto simp: demo_stack)
qed

text \<open>Pushing and popping: \<open>sk_pop\<close> returns what the last successful \<open>sk_push\<close> stored and restores the
  sequence.\<close>

theorem sk_push_pop:
  assumes "sk_inv s" "heap_sane h" "sk_push (Some s) p h = (n, Some s1, h1)" "n \<noteq> 0"
  shows "\<exists>s2. sk_pop (Some s1) = (p, Some s2) \<and> sk_inv s2 \<and> sk_abs s2 = sk_abs s"
proof -
  have l: "length (sk_abs s) = st_num s" using assms(1) by (simp add: sk_inv_def)
  have i: "sk_insert_at (s, h) p (length (sk_abs s)) = Some (s1, h1)"
    using assms(3,4) by (simp add: sk_insert_at_def sk_push_def sk_num_def l)
  have 1: "sk_inv s1" "sk_abs s1 = sk_abs s @ [p]" using sk_seq.push_appends [of "(s, h)" p "(s1, h1)"] i assms by auto
  have l1: "length (sk_abs s1) = st_num s1" using 1(1) by (simp add: sk_inv_def)
  then obtain s2 where d: "sk_delete (Some s1) (st_num s1 - 1) = (sk_abs s1 ! (st_num s1 - 1), Some s2)"
    using sk_delete_ok [OF 1(1), of "st_num s1 - 1"] 1(2) by auto
  have "sk_delete_at (s1, h1) (length (sk_abs s1) - 1) = (sk_abs s1 ! (st_num s1 - 1), s2, h1)"
    using d by (simp add: sk_delete_at_def l1)
  from sk_seq.push_pop [of "(s, h)" p "(s1, h1)" "sk_abs s1 ! (st_num s1 - 1)" "(s2, h1)"] this i assms(1,2)
  have "sk_abs s1 ! (st_num s1 - 1) = p \<and> sk_inv s2 \<and> sk_abs s2 = sk_abs s" by auto
  then show ?thesis using d 1(2) l1 by (auto simp: sk_pop_def)
qed

theorem sk_push_pop_witness:
  "\<exists>n s1 h1 s2. sk_push (Some demo_stack) (Some 7) demo_heap = (n, Some s1, h1) \<and> n \<noteq> 0
     \<and> sk_pop (Some s1) = (Some 7, Some s2) \<and> sk_abs s2 = [Some 1, Some 2, Some 3]"
proof -
  have "\<exists>n s1 h1. sk_push (Some demo_stack) (Some 7) demo_heap = (n, Some s1, h1) \<and> n \<noteq> 0"
    by (simp add: sk_push_def sk_num_def sk_insert_def demo_stack_def sk_new_alloc_def ptr_realloc_def mem_malloc_def
        c_malloc_def demo_heap_def sizeof_ptr_def OPENSSL_MALLOC_PREFIX_def Let_def sk_place_def)
  then obtain n s1 h1 where r: "sk_push (Some demo_stack) (Some 7) demo_heap = (n, Some s1, h1)" "n \<noteq> 0" by blast
  then show ?thesis using sk_push_pop [OF demo_stack(1,3) r] by (auto simp: demo_stack(2))
qed

section \<open>Searching\<close>

text \<open>A comparison function is a total preorder; \<open>qsort\<close> sorts a permutation by it and \<open>bsearch\<close> finds an
  equal element of a sorted array if there is one, as the C standard says.\<close>

definition cmp_ok :: "'p cmp \<Rightarrow> bool" where
  "cmp_ok cmp \<longleftrightarrow> (\<forall>a b. sgn (cmp a b) = - sgn (cmp b a)) \<and> (\<forall>a b c. cmp a b \<le> 0 \<and> cmp b c \<le> 0 \<longrightarrow> cmp a c \<le> 0)"

definition qsort_ok :: "'p qsort_fun \<Rightarrow> 'p cmp \<Rightarrow> bool" where
  "qsort_ok qs cmp \<longleftrightarrow> (\<forall>xs. mset (qs cmp xs) = mset xs \<and> sorted_by cmp (qs cmp xs))"

definition bsearch_ok :: "'p bsearch_fun \<Rightarrow> 'p cmp \<Rightarrow> bool" where
  "bsearch_ok bs cmp \<longleftrightarrow> (\<forall>p xs. sorted_by cmp xs \<longrightarrow>
     (case bs cmp p xs of None \<Rightarrow> \<forall>x \<in> set xs. cmp p x \<noteq> 0
      | Some i \<Rightarrow> i < length xs \<and> cmp p (xs ! i) = 0))"

lemma sk_sort_ok:
  assumes "sk_inv s" "st_comp s = Some (a, cmp)" "qsort_ok qs cmp"
  shows "\<exists>s'. sk_sort qs (Some s) = Some s' \<and> sk_inv s' \<and> st_sorted s' \<and> mset (sk_abs s') = mset (sk_abs s)
    \<and> sorted_by cmp (sk_abs s') \<and> st_comp s' = st_comp s"
proof (cases "st_sorted s")
  case True
  then show ?thesis using assms by (auto simp: sk_sort_def sk_inv_def)
next
  case False
  let ?q = "qs cmp (sk_abs s)"
  let ?s = "s\<lparr>st_data := memcpy_at (st_data s) 0 ?q, st_sorted := True\<rparr>"
  have q: "mset ?q = mset (sk_abs s)" "sorted_by cmp ?q" using assms(3) by (auto simp: qsort_ok_def)
  have l: "length ?q = st_num s" using q(1) assms(1) by (metis mset_eq_length sk_abs_length sk_inv_def)
  have sh: "length (st_data s) = st_num_alloc s" "st_num s < st_num_alloc s" "8 * st_num_alloc s + 8 < 2 ^ 63"
    using assms(1) by (auto simp: sk_inv_def sk_shape_def)
  have a: "sk_abs ?s = ?q" using l sh by (simp add: sk_abs_def memcpy_at_0)
  have "sk_shape ?s" using l sh by (simp add: sk_shape_def)
  then have "sk_inv ?s" using a q assms(2) by (auto simp: sk_inv_def)
  moreover have "sk_sort qs (Some s) = Some ?s" using False assms(2) by (simp add: sk_sort_def sk_abs_def)
  ultimately show ?thesis using a q assms(2) by (intro exI [of _ ?s]) simp
qed

lemma first_equal_ok:
  assumes "cmp p (d ! idx) = 0"
  shows "first_equal cmp p d idx \<le> idx" "cmp p (d ! first_equal cmp p d idx) = 0"
    "0 < first_equal cmp p d idx \<Longrightarrow> cmp p (d ! (first_equal cmp p d idx - 1)) \<noteq> 0"
  using assms by (induction idx) auto

lemma cmp_ok_signs:
  assumes "cmp_ok cmp"
  shows "cmp a a = 0" "cmp a b \<le> 0 \<longleftrightarrow> 0 \<le> cmp b a" "cmp a b \<le> 0 \<Longrightarrow> cmp b c \<le> 0 \<Longrightarrow> cmp a c \<le> 0"
proof -
  have sy: "sgn (cmp a b) = - sgn (cmp b a)" for a b using assms unfolding cmp_ok_def by blast
  have "sgn (cmp a a) = 0" using sy [of a a] by linarith
  then show "cmp a a = 0" by (simp add: sgn_eq_0_iff)
  have "sgn (cmp a b) \<le> 0 \<longleftrightarrow> 0 \<le> sgn (cmp b a)" using sy [of a b] by linarith
  then show "cmp a b \<le> 0 \<longleftrightarrow> 0 \<le> cmp b a" by (simp add: sgn_if split: if_split_asm)
  show "cmp a c \<le> 0" if "cmp a b \<le> 0" "cmp b c \<le> 0" using assms that unfolding cmp_ok_def by blast
qed

lemma no_equal_before:
  assumes c: "cmp_ok cmp" and s: "sorted_by cmp xs" and i: "i < length xs" "cmp p (xs ! i) = 0"
    and prev: "0 < i \<Longrightarrow> cmp p (xs ! (i - 1)) \<noteq> 0" and j: "j < i"
  shows "cmp p (xs ! j) \<noteq> 0"
proof
  assume z: "cmp p (xs ! j) = 0"
  note cs = cmp_ok_signs [OF c]
  have le: "cmp (xs ! k) (xs ! l) \<le> 0" if "k \<le> l" "l < length xs" for k l
    using s that cs(1) by (cases "k = l") (auto simp: sorted_by_def sorted_wrt_iff_nth_less)
  have "cmp p (xs ! (i - 1)) \<le> 0"
    by (rule cs(3) [of p "xs ! j"]) (use z le [of j "i - 1"] i(1) j in auto)
  moreover have "cmp (xs ! (i - 1)) p \<le> 0"
    by (rule cs(3) [of _ "xs ! i"]) (use i j le [of "i - 1" i] cs(2) [of "xs ! i" p] in auto)
  ultimately have "cmp p (xs ! (i - 1)) = 0" using cs(2) [of "xs ! (i - 1)" p] by linarith
  then show False using prev j by simp
qed

text \<open>C39. With a comparison function, \<open>sk_find\<close> only permutes the elements into sorted order, finds an
  element equal to \<open>p\<close> exactly when there is one, and returns the index of the first.\<close>

theorem sk_find_first:
  assumes "sk_inv s" "st_comp s = Some (a, cmp)" "cmp_ok cmp" "qsort_ok qs cmp" "bsearch_ok bs cmp" "p \<noteq> None"
    and "sk_find qs bs (Some s) p = (r, sk')"
  shows "\<exists>s'. sk' = Some s' \<and> sk_inv s' \<and> mset (sk_abs s') = mset (sk_abs s) \<and> sorted_by cmp (sk_abs s')
    \<and> (case r of None \<Rightarrow> \<forall>x \<in> set (sk_abs s). cmp p x \<noteq> 0
       | Some i \<Rightarrow> i < sk_num sk' \<and> cmp p (sk_value sk' i) = 0 \<and> (\<forall>j < i. cmp p (sk_value sk' j) \<noteq> 0))"
proof -
  obtain s' where s': "sk_sort qs (Some s) = Some s'" "sk_inv s'" "mset (sk_abs s') = mset (sk_abs s)"
    "sorted_by cmp (sk_abs s')"
    using sk_sort_ok [OF assms(1,2,4)] by blast
  have l: "length (sk_abs s') = st_num s'" using s'(2) by (simp add: sk_inv_def)
  have nth: "sk_abs s' ! k = st_data s' ! k" if "k < st_num s'" for k using that by (simp add: sk_abs_def)
  have b: "case bs cmp p (sk_abs s') of None \<Rightarrow> \<forall>x \<in> set (sk_abs s'). cmp p x \<noteq> 0
      | Some i \<Rightarrow> i < st_num s' \<and> cmp p (sk_abs s' ! i) = 0"
    using assms(5) [unfolded bsearch_ok_def, rule_format, OF s'(4), of p] unfolding l .
  show ?thesis
  proof (cases "bs cmp p (sk_abs s')")
    case None
    then have "r = None" "sk' = Some s'"
      using assms(2,6,7) s'(1) by (auto simp: sk_find_def sk_abs_def)
    moreover have "\<forall>x \<in> set (sk_abs s). cmp p x \<noteq> 0" using b None mset_eq_setD [OF s'(3)] by simp
    ultimately show ?thesis using s' by auto
  next
    case (Some idx)
    let ?i = "first_equal cmp p (st_data s') idx"
    have r: "r = Some ?i" "sk' = Some s'"
      using assms(2,6,7) s'(1) Some by (auto simp: sk_find_def sk_abs_def)
    have idx: "idx < st_num s'" "cmp p (st_data s' ! idx) = 0" using b Some nth by auto
    note fe = first_equal_ok [where d = "st_data s'" and idx = idx and cmp = cmp and p = p, OF idx(2)]
    have lt: "?i < st_num s'" using fe(1) idx(1) by simp
    have "cmp p (sk_abs s' ! j) \<noteq> 0" if "j < ?i" for j
      by (rule no_equal_before [OF assms(3) s'(4) _ _ _ that]) (use fe lt l nth in auto)
    then show ?thesis
      using s' r lt fe(2) by (auto simp: sk_num_def sk_value_def nth)
  qed
qed


text \<open>The hypotheses can hold: insertion sort and a linear scan meet the contracts of \<open>qsort\<close> and
  \<open>bsearch\<close>, for integers compared by subtraction.\<close>

definition int_cmp :: "int cmp" where
  "int_cmp a b = (case (a, b) of (Some x, Some y) \<Rightarrow> x - y | (None, None) \<Rightarrow> 0 | (None, _) \<Rightarrow> - 1 | (_, None) \<Rightarrow> 1)"

lemma int_cmp_ok: "cmp_ok int_cmp"
proof -
  have "sgn (int_cmp a b) = - sgn (int_cmp b a)" for a b
    by (cases a; cases b) (simp_all add: int_cmp_def sgn_if)
  moreover have "int_cmp a b \<le> 0 \<and> int_cmp b c \<le> 0 \<longrightarrow> int_cmp a c \<le> 0" for a b c
    by (cases a; cases b; cases c) (simp_all add: int_cmp_def)
  ultimately show ?thesis unfolding cmp_ok_def by blast
qed

primrec insort_cmp :: "'p cmp \<Rightarrow> 'p option \<Rightarrow> 'p option list \<Rightarrow> 'p option list" where
  "insort_cmp cmp x [] = [x]"
| "insort_cmp cmp x (y # ys) = (if cmp x y \<le> 0 then x # y # ys else y # insort_cmp cmp x ys)"

definition insertion_qsort :: "'p qsort_fun" where
  "insertion_qsort cmp xs = foldr (insort_cmp cmp) xs []"

definition linear_bsearch :: "'p bsearch_fun" where
  "linear_bsearch cmp p xs = find_ptr (map (\<lambda>x. if cmp p x = 0 then Some () else None) xs) (Some ()) 0"

lemma mset_insort_cmp: "mset (insort_cmp cmp x xs) = add_mset x (mset xs)"
  by (induction xs) auto

lemma sorted_insort_cmp:
  assumes "cmp_ok cmp" "sorted_by cmp xs"
  shows "sorted_by cmp (insort_cmp cmp x xs)"
  using assms(2)
proof (induction xs)
  case (Cons y ys)
  note cs = cmp_ok_signs [OF assms(1)]
  have "set (insort_cmp cmp x ys) = insert x (set ys)" by (metis mset_insort_cmp set_mset_add_mset_insert set_mset_mset)
  then show ?case using Cons cs(2) [of x y] cs(2) [of y x] cs(3) [of x y] by (auto simp: sorted_by_def)
qed (simp add: sorted_by_def)

lemma insertion_qsort_ok: "cmp_ok cmp \<Longrightarrow> qsort_ok insertion_qsort cmp"
proof -
  assume "cmp_ok cmp"
  then have "mset (foldr (insort_cmp cmp) xs []) = mset xs \<and> sorted_by cmp (foldr (insort_cmp cmp) xs [])" for xs
    by (induction xs) (simp_all add: mset_insort_cmp sorted_insort_cmp, simp add: sorted_by_def)
  then show ?thesis by (simp add: qsort_ok_def insertion_qsort_def)
qed

lemma find_ptr_cases:
  "case find_ptr xs p k of None \<Rightarrow> p \<notin> set xs | Some i \<Rightarrow> \<exists>j < length xs. i = k + j \<and> xs ! j = p"
proof (induction xs arbitrary: k)
  case (Cons x xs)
  show ?case
  proof (cases "find_ptr xs p (Suc k)")
    case None
    then show ?thesis using Cons.IH [of "Suc k"] by auto
  next
    case (Some i)
    then obtain j where "j < length xs" "i = Suc k + j" "xs ! j = p" using Cons.IH [of "Suc k"] by auto
    then show ?thesis using Some by (auto intro: exI [of _ "Suc j"])
  qed
qed simp

lemma linear_bsearch_ok: "bsearch_ok linear_bsearch cmp"
proof -
  have "case linear_bsearch cmp p xs of None \<Rightarrow> \<forall>x \<in> set xs. cmp p x \<noteq> 0
      | Some i \<Rightarrow> i < length xs \<and> cmp p (xs ! i) = 0" for p xs
    using find_ptr_cases [where xs = "map (\<lambda>x. if cmp p x = 0 then Some () else None) xs" and p = "Some ()" and k = 0]
    by (auto simp: linear_bsearch_def split: option.splits if_splits)
  then show ?thesis by (simp add: bsearch_ok_def)
qed

definition unsorted_demo :: "int stack_st" where
  "unsorted_demo = \<lparr>st_num = 3, st_data = [Some 5, Some 2, Some 5, None], st_sorted = False, st_num_alloc = 4,
     st_comp = Some (0, int_cmp)\<rparr>"

theorem sk_find_first_witness:
  "\<exists>s'. sk_find insertion_qsort linear_bsearch (Some unsorted_demo) (Some 5) = (Some 1, Some s')
     \<and> mset (sk_abs s') = {#Some 5, Some 2, Some 5#} \<and> int_cmp (Some 5) (sk_value (Some s') 1) = 0"
proof -
  have i: "sk_inv unsorted_demo" "st_comp unsorted_demo = Some (0, int_cmp)"
    by (simp_all add: unsorted_demo_def sk_inv_def sk_shape_def)
  have r: "sk_find insertion_qsort linear_bsearch (Some unsorted_demo) (Some 5)
      = (Some (Suc 0), Some (unsorted_demo\<lparr>st_data := [Some 2, Some 5, Some 5, None], st_sorted := True\<rparr>))"
    by (simp add: sk_find_def unsorted_demo_def sk_sort_def insertion_qsort_def linear_bsearch_def int_cmp_def memcpy_at_def)
  show ?thesis
    using sk_find_first [OF i int_cmp_ok insertion_qsort_ok [OF int_cmp_ok] linear_bsearch_ok _ r] r
    by (auto simp: unsorted_demo_def sk_abs_def)
qed

section \<open>Copies and stale flags\<close>

text \<open>The outside world of \<open>sk_deep_copy\<close> as the multiset of live objects: a copy adds the object it
  returns or fails and adds nothing, a free removes its argument.\<close>

definition copy_ok :: "('p \<Rightarrow> 'p multiset \<Rightarrow> 'p option \<times> 'p multiset) \<Rightarrow> bool" where
  "copy_ok copy \<longleftrightarrow> (\<forall>x w. case copy x w of (None, w') \<Rightarrow> w' = w | (Some y, w') \<Rightarrow> w' = add_mset y w)"

definition live_free :: "'p \<Rightarrow> 'p multiset \<Rightarrow> 'p multiset" where
  "live_free x w = w - {#x#}"

definition objects :: "'p option list \<Rightarrow> 'p multiset" where
  "objects xs = mset (List.map_filter id xs)"

lemma objects_simps [simp]: "objects [] = {#}" "objects (None # xs) = objects xs"
  "objects (Some x # xs) = add_mset x (objects xs)" "objects (xs @ ys) = objects xs + objects ys"
  by (simp_all add: objects_def map_filter_def)

lemma free_all_objects: "free_all live_free xs (w + objects xs) = w"
proof (induction xs)
  case (Cons p xs)
  have "free_all live_free (p # xs) (w + objects (p # xs)) = free_all live_free xs (w + objects xs)"
    by (cases p) (simp_all add: free_all_def live_free_def)
  then show ?case using Cons by simp
qed (simp add: free_all_def)

lemma deep_copy_loop_live:
  assumes "copy_ok copy" "deep_copy_loop copy live_free acc xs (w + objects acc) = (r, w')"
  shows "case r of None \<Rightarrow> w' = w
    | Some ys \<Rightarrow> w' = w + objects ys \<and> length ys = length acc + length xs
        \<and> map (\<lambda>p. p = None) ys = map (\<lambda>p. p = None) (acc @ xs)"
  using assms(2)
proof (induction xs arbitrary: acc)
  case (Cons p xs)
  show ?case
  proof (cases p)
    case None
    then show ?thesis using Cons.prems Cons.IH [of "acc @ [None]"] by (simp split: option.splits)
  next
    case (Some x)
    obtain c w1 where c: "copy x (w + objects acc) = (c, w1)" by fastforce
    have w1: "case c of None \<Rightarrow> w1 = w + objects acc | Some y \<Rightarrow> w1 = add_mset y (w + objects acc)"
      using assms(1) [unfolded copy_ok_def, THEN spec [of _ x], THEN spec [of _ "w + objects acc"]] c
      by (simp split: option.splits)
    show ?thesis
    proof (cases c)
      case None
      then show ?thesis using Some Cons.prems c w1 by (auto simp: free_all_objects)
    next
      case (Some y)
      then have "deep_copy_loop copy live_free (acc @ [Some y]) xs (w + objects (acc @ [Some y])) = (r, w')"
        using \<open>p = Some x\<close> Cons.prems c w1 by simp
      from Cons.IH [OF this] show ?thesis using \<open>p = Some x\<close> by (simp split: option.splits)
    qed
  qed
qed auto

lemma sk_dup_abs:
  assumes "sk_inv s" "sk_dup (Some s) h = (Some s', h')"
  shows "sk_abs s' = sk_abs s" "sk_shape s'" "st_sorted s' = st_sorted s" "st_comp s' = st_comp s"
proof -
  have sh: "length (st_data s) = st_num_alloc s" "st_num s < st_num_alloc s" "8 * st_num_alloc s + 8 < 2 ^ 63"
    using assms(1) by (auto simp: sk_inv_def sk_shape_def)
  then have z: "szw (8 * st_num_alloc s) = 8 * st_num_alloc s" by (simp add: szw_def)
  obtain ret h1 where ret: "sk_new (st_comp s) h = (Some ret, h1)"
    using assms(2) by (auto simp: sk_dup_def split: prod.splits option.splits)
  define d where "d = take (st_num_alloc s) (st_data ret) @ replicate (st_num_alloc s - length (st_data ret)) None"
  have d: "length d = st_num_alloc s"
    "s' = \<lparr>st_num = st_num s, st_data = memcpy_at d 0 (sk_abs s), st_sorted = st_sorted s,
      st_num_alloc = st_num_alloc s, st_comp = st_comp s\<rparr>"
    using assms(2) z ret
    by (auto simp: d_def sk_dup_def sk_abs_def ptr_realloc_def sizeof_ptr_def split: prod.splits option.splits)
  have l: "length (sk_abs s) = st_num s" using assms(1) by (simp add: sk_inv_def)
  show "sk_abs s' = sk_abs s" unfolding d(2) sk_abs_def [of "\<lparr>st_num = _, st_data = _, st_sorted = _, st_num_alloc = _, st_comp = _\<rparr>"]
    using d(1) l sh by (simp add: memcpy_at_0)
  show "sk_shape s'" using d l sh by (simp add: sk_shape_def)
  show "st_sorted s' = st_sorted s" "st_comp s' = st_comp s" using d by simp_all
qed

text \<open>C40. A deep copy owns exactly its copies: on success the live objects are those before and one copy
  per non-NULL element, in a stack with NULL in the same places; on failure, at whatever element it
  happens, every copy made has been freed again and nothing leaks.\<close>

theorem sk_deep_copy_no_leak:
  assumes "sk_inv s" "copy_ok copy" "sk_deep_copy (Some s) copy live_free (w, h) = (r, w', h')"
  shows "case r of None \<Rightarrow> w' = w
    | Some s' \<Rightarrow> w' = w + objects (sk_abs s') \<and> sk_num (Some s') = sk_num (Some s)
        \<and> map (\<lambda>p. p = None) (sk_abs s') = map (\<lambda>p. p = None) (sk_abs s)"
proof (cases "sk_dup (Some s) h")
  case (Pair d h1)
  show ?thesis
  proof (cases d)
    case None
    then show ?thesis using Pair assms(3) by (auto simp: sk_deep_copy_def)
  next
    case (Some s1)
    note dup = sk_dup_abs [OF assms(1) Pair [unfolded Some]]
    obtain c w1 where c: "deep_copy_loop copy live_free [] (sk_abs s1) w = (c, w1)" by fastforce
    have l: "length (sk_abs s1) = st_num s1" "st_num s1 \<le> length (st_data s1)" using dup(2) by (auto simp: sk_shape_def)
    have n: "st_num s1 = st_num s" using l(1) dup(1) assms(1) by (simp add: sk_inv_def)
    have "case c of None \<Rightarrow> w1 = w
      | Some ys \<Rightarrow> w1 = w + objects ys \<and> length ys = st_num s1 \<and> map (\<lambda>p. p = None) ys = map (\<lambda>p. p = None) (sk_abs s1)"
      using deep_copy_loop_live [OF assms(2), of "[]" "sk_abs s1" w] c l by (simp split: option.splits)
    moreover have "(r, w', h') = (case c of None \<Rightarrow> (None, w1, sk_free (Some s1) h1)
      | Some ys \<Rightarrow> (Some (s1\<lparr>st_data := memcpy_at (st_data s1) 0 ys\<rparr>), w1, h1))"
      using assms(3) Pair Some c by (simp add: sk_deep_copy_def sk_abs_def split: option.splits)
    ultimately show ?thesis
      using dup(1) l n by (auto simp: sk_num_def sk_abs_def [of "_\<lparr>st_data := _\<rparr>"] memcpy_at_0 split: option.splits)
  qed
qed

definition demo_copy :: "nat \<Rightarrow> nat multiset \<Rightarrow> nat option \<times> nat multiset" where
  "demo_copy x w = (if x = 3 then (None, w) else (Some (x + 10), add_mset (x + 10) w))"

lemma demo_copy_ok: "copy_ok demo_copy"
  by (simp add: copy_ok_def demo_copy_def)

theorem sk_deep_copy_no_leak_witness:
  "\<exists>r w' h'. sk_deep_copy (Some demo_stack) demo_copy live_free ({#5#}, demo_heap) = (r, w', h') \<and> r = None \<and> w' = {#5#}"
proof -
  obtain r w' h' where r: "sk_deep_copy (Some demo_stack) demo_copy live_free ({#5#}, demo_heap) = (r, w', h')"
    by (metis prod_cases3)
  have "r = None"
    using r by (auto simp: sk_deep_copy_def sk_dup_def sk_new_def demo_stack_def ptr_realloc_def mem_malloc_def memcpy_at_def
        c_malloc_def demo_heap_def sizeof_ptr_def kMinSize_def OPENSSL_MALLOC_PREFIX_def szw_def demo_copy_def
        split: if_splits option.splits prod.splits)
  then show ?thesis using sk_deep_copy_no_leak [OF demo_stack(1) demo_copy_ok r] r by auto
qed

text \<open>\<open>sk_set\<close> leaves the \<open>sorted\<close> flag alone, so a sorted stack that it writes out of order still answers
  yes to \<open>sk_is_sorted\<close>, and \<open>sk_sort\<close> and \<open>sk_find\<close> do not sort it again.\<close>

definition sorted_demo :: "int stack_st" where
  "sorted_demo = \<lparr>st_num = 2, st_data = [Some 1, Some 2, None, None], st_sorted = True, st_num_alloc = 4,
     st_comp = Some (0, int_cmp)\<rparr>"

lemma sk_set_stale_sorted:
  "\<exists>s s' p. sk_inv s \<and> sk_set (Some s) 0 p = (p, Some s') \<and> sk_is_sorted (Some s') \<and> \<not> sorted_by int_cmp (sk_abs s')
     \<and> st_comp s' = Some (0, int_cmp) \<and> (\<forall>qsort. sk_sort qsort (Some s') = Some s')"
proof -
  have "sk_inv sorted_demo" by (simp add: sorted_demo_def sk_inv_def sk_shape_def sorted_by_def sk_abs_def int_cmp_def)
  moreover have "sk_set (Some sorted_demo) 0 (Some 3) = (Some 3, Some (sorted_demo\<lparr>st_data := [Some 3, Some 2, None, None]\<rparr>))"
    by (simp add: sk_set_def sorted_demo_def)
  moreover have "\<not> sorted_by int_cmp (sk_abs (sorted_demo\<lparr>st_data := [Some 3, Some 2, None, None]\<rparr>))"
    by (simp add: sorted_demo_def sk_abs_def sorted_by_def int_cmp_def)
  ultimately show ?thesis
    by (intro exI [of _ sorted_demo] exI [of _ "sorted_demo\<lparr>st_data := [Some 3, Some 2, None, None]\<rparr>"] exI [of _ "Some 3"])
      (auto simp: sk_is_sorted_def sk_sort_def sorted_demo_def)
qed

end
