(* ===== verification/Ssl_LHash.thy ===== *)
theory Ssl_LHash
  imports Mem "HOL-Library.Multiset"
begin

text \<open>
  \<open>crypto/lhash/lhash.c\<close>: the chained hash table \<open>_LHASH\<close>.  The bucket array is a list of chains, a chain
  the list of its items in link order.  An item carries the address its allocation returned (the
  number of that allocation, so addresses are never reused): iteration remembers the next item by
  address while the callback may change the table, and reading an item that has been freed is
  undefined.  The theory shows that the table implements a finite map up to the comparison function,
  that resizing only redistributes the items, and that iteration visits each item once.
\<close>

section \<open>State\<close>

record 'd lhash_item =
  it_addr :: nat
  it_data :: 'd
  it_hash :: u32

record 'd lhash_st =
  lh_num :: nat
  lh_buckets :: "'d lhash_item list list"
  lh_num_buckets :: nat
  lh_callback_depth :: nat
  lh_comp :: "'d \<Rightarrow> 'd \<Rightarrow> int"
  lh_hash :: "'d \<Rightarrow> u32"

definition kMinNumBuckets :: nat where
  "kMinNumBuckets = 16"

definition kMaxAverageChainLength :: nat where
  "kMaxAverageChainLength = 2"

definition kMinAverageChainLength :: nat where
  "kMinAverageChainLength = 1"

definition UINT_MAX :: nat where
  "UINT_MAX = 2 ^ 32 - 1"

definition sizeof_LHASH :: nat where
  "sizeof_LHASH = 48"

definition sizeof_LHASH_ITEM :: nat where
  "sizeof_LHASH_ITEM = 24"

section \<open>Operations\<close>

definition lh_new :: "('d \<Rightarrow> u32) \<Rightarrow> ('d \<Rightarrow> 'd \<Rightarrow> int) \<Rightarrow> (heap, 'd lhash_st) st" where
  "lh_new hash cmp h =
     (case mem_malloc sizeof_LHASH h of
        (None, h1) \<Rightarrow> (None, h1)
      | (Some blk, h1) \<Rightarrow>
          (case mem_malloc (8 * kMinNumBuckets) h1 of
             (None, h2) \<Rightarrow> (None, mem_free (Some blk) h2)
           | (Some _, h2) \<Rightarrow>
               (Some \<lparr>lh_num = 0, lh_buckets = replicate kMinNumBuckets [], lh_num_buckets = kMinNumBuckets,
                      lh_callback_depth = 0, lh_comp = cmp, lh_hash = hash\<rparr>, h2)))"

definition free_item :: "'d lhash_item \<Rightarrow> heap \<Rightarrow> heap" where
  "free_item it h = mem_free (Some (replicate sizeof_LHASH_ITEM 0)) h"

definition lh_free :: "'d lhash_st option \<Rightarrow> heap \<Rightarrow> heap" where
  "lh_free lh h =
     (case lh of None \<Rightarrow> h
      | Some l \<Rightarrow>
          mem_free (Some (replicate sizeof_LHASH 0))
            (mem_free (Some (replicate (8 * lh_num_buckets l) 0))
               (fold (\<lambda>chain. fold free_item chain) (lh_buckets l) h)))"

definition lh_num_items :: "'d lhash_st \<Rightarrow> nat" where
  "lh_num_items lh = lh_num lh"

text \<open>The pointer to a pointer that \<open>get_next_ptr_and_hash\<close> returns is a position: a bucket and an index
  in its chain, the length of the chain for the link at its end.\<close>

fun chain_pos :: "('d \<Rightarrow> 'd \<Rightarrow> int) \<Rightarrow> 'd \<Rightarrow> 'd lhash_item list \<Rightarrow> nat" where
  "chain_pos cmp data [] = 0"
| "chain_pos cmp data (cur # chain) = (if cmp (it_data cur) data = 0 then 0 else Suc (chain_pos cmp data chain))"

definition get_next_ptr_and_hash :: "'d lhash_st \<Rightarrow> 'd \<Rightarrow> u32 \<times> nat \<times> nat" where
  "get_next_ptr_and_hash lh data =
     (let hash = lh_hash lh data; i = unat hash mod lh_num_buckets lh in
      (hash, i, chain_pos (lh_comp lh) data (lh_buckets lh ! i)))"

definition lh_retrieve :: "'d lhash_st \<Rightarrow> 'd \<Rightarrow> 'd option" where
  "lh_retrieve lh data =
     (case get_next_ptr_and_hash lh data of
        (_, i, pos) \<Rightarrow>
          if pos = length (lh_buckets lh ! i) then None else Some (it_data (lh_buckets lh ! i ! pos)))"

definition rebucket_item :: "nat \<Rightarrow> 'd lhash_item \<Rightarrow> 'd lhash_item list list \<Rightarrow> 'd lhash_item list list" where
  "rebucket_item n cur nb = (let j = unat (it_hash cur) mod n in nb[j := cur # nb ! j])"

definition lh_rebucket :: "'d lhash_st \<Rightarrow> nat \<Rightarrow> heap \<Rightarrow> 'd lhash_st \<times> heap" where
  "lh_rebucket lh new_num_buckets h =
     (let alloc_size = szw (8 * new_num_buckets) in
      if alloc_size div 8 \<noteq> new_num_buckets then (lh, h)
      else (case mem_malloc alloc_size h of
              (None, h') \<Rightarrow> (lh, h')
            | (Some _, h') \<Rightarrow>
                (lh\<lparr>lh_num_buckets := new_num_buckets,
                    lh_buckets := fold (\<lambda>chain. fold (rebucket_item new_num_buckets) chain)
                                       (lh_buckets lh) (replicate new_num_buckets [])\<rparr>,
                 mem_free (Some (replicate (8 * lh_num_buckets lh) 0)) h')))"

definition lh_maybe_resize :: "'d lhash_st \<Rightarrow> heap \<Rightarrow> 'd lhash_st \<times> heap" where
  "lh_maybe_resize lh h =
     (if lh_callback_depth lh > 0 then (lh, h)
      else let avg_chain_length = lh_num lh div lh_num_buckets lh in
        if avg_chain_length > kMaxAverageChainLength then
          (let new_num_buckets = szw (lh_num_buckets lh * 2) in
           if new_num_buckets > lh_num_buckets lh then lh_rebucket lh new_num_buckets h else (lh, h))
        else if avg_chain_length < kMinAverageChainLength \<and> lh_num_buckets lh > kMinNumBuckets then
          (let new_num_buckets = lh_num_buckets lh div 2 in
           lh_rebucket lh (if new_num_buckets < kMinNumBuckets then kMinNumBuckets else new_num_buckets) h)
        else (lh, h))"

text \<open>\<open>lh_insert\<close> returns its result, \<open>*old_data\<close>, the table and the heap.\<close>

definition lh_insert :: "'d lhash_st \<Rightarrow> 'd \<Rightarrow> heap \<Rightarrow> bool \<times> 'd option \<times> 'd lhash_st \<times> heap" where
  "lh_insert lh data h =
     (case get_next_ptr_and_hash lh data of
        (hash, i, pos) \<Rightarrow>
          let chain = lh_buckets lh ! i in
          if pos \<noteq> length chain then
            (True, Some (it_data (chain ! pos)),
             lh\<lparr>lh_buckets := (lh_buckets lh)[i := chain[pos := (chain ! pos)\<lparr>it_data := data\<rparr>]]\<rparr>, h)
          else
            (case mem_malloc sizeof_LHASH_ITEM h of
               (None, h') \<Rightarrow> (False, None, lh, h')
             | (Some _, h') \<Rightarrow>
                 let item = \<lparr>it_addr = hp_calls h, it_data = data, it_hash = hash\<rparr> in
                 (True, None,
                  lh_maybe_resize (lh\<lparr>lh_buckets := (lh_buckets lh)[i := chain @ [item]],
                                      lh_num := szw (lh_num lh + 1)\<rparr>) h')))"

definition lh_delete :: "'d lhash_st \<Rightarrow> 'd \<Rightarrow> heap \<Rightarrow> 'd option \<times> 'd lhash_st \<times> heap" where
  "lh_delete lh data h =
     (case get_next_ptr_and_hash lh data of
        (_, i, pos) \<Rightarrow>
          let chain = lh_buckets lh ! i in
          if pos = length chain then (None, lh, h)
          else (Some (it_data (chain ! pos)),
                lh_maybe_resize (lh\<lparr>lh_buckets := (lh_buckets lh)[i := take pos chain @ drop (Suc pos) chain],
                                    lh_num := szw (lh_num lh + (2 ^ 64 - 1))\<rparr>)
                  (free_item (chain ! pos) h)))"

section \<open>Iteration\<close>

text \<open>The item at an address and the address of its successor; \<open>None\<close> if it has been freed.\<close>

fun chain_at :: "nat \<Rightarrow> 'd lhash_item list \<Rightarrow> ('d lhash_item \<times> nat option) option" where
  "chain_at a [] = None"
| "chain_at a (cur # chain) =
     (if it_addr cur = a then Some (cur, case chain of [] \<Rightarrow> None | nx # _ \<Rightarrow> Some (it_addr nx))
      else chain_at a chain)"

type_synonym ('d, 'w) lh_callback = "'d \<Rightarrow> 'w \<times> 'd lhash_st \<times> heap \<Rightarrow> 'w \<times> 'd lhash_st \<times> heap"

text \<open>The two loops.  A callback that keeps adding items may keep the iteration going for ever, and one
  that frees the item to visit next makes it read freed memory; both are \<open>None\<close>.\<close>

partial_function (option) doall_chain ::
    "('d, 'w) lh_callback \<Rightarrow> nat \<Rightarrow> nat option \<Rightarrow> 'w \<times> 'd lhash_st \<times> heap \<Rightarrow> ('w \<times> 'd lhash_st \<times> heap) option" where
  "doall_chain func i cur s =
     (case cur of None \<Rightarrow> Some s
      | Some a \<Rightarrow>
          (case chain_at a (lh_buckets (fst (snd s)) ! i) of
             None \<Rightarrow> None
           | Some it_next \<Rightarrow> doall_chain func i (snd it_next) (func (it_data (fst it_next)) s)))"

partial_function (option) doall_buckets ::
    "('d, 'w) lh_callback \<Rightarrow> nat \<Rightarrow> 'w \<times> 'd lhash_st \<times> heap \<Rightarrow> ('w \<times> 'd lhash_st \<times> heap) option" where
  "doall_buckets func i s =
     (if i < lh_num_buckets (fst (snd s)) then
        Option.bind
          (doall_chain func i
             (case lh_buckets (fst (snd s)) ! i of [] \<Rightarrow> None | cur # _ \<Rightarrow> Some (it_addr cur)) s)
          (\<lambda>s'. doall_buckets func (Suc i) s')
      else Some s)"

definition lh_doall_internal :: "('d, 'w) lh_callback \<Rightarrow> 'w \<times> 'd lhash_st option \<times> heap
    \<Rightarrow> ('w \<times> 'd lhash_st option \<times> heap) option" where
  "lh_doall_internal func = (\<lambda>(w, lh, h).
     case lh of None \<Rightarrow> Some (w, None, h)
     | Some l \<Rightarrow>
         let l1 = (if lh_callback_depth l < UINT_MAX then l\<lparr>lh_callback_depth := lh_callback_depth l + 1\<rparr> else l) in
         (case doall_buckets func 0 (w, l1, h) of
            None \<Rightarrow> None
          | Some (w', l2, h') \<Rightarrow>
              let l3 = (if lh_callback_depth l2 < UINT_MAX then l2\<lparr>lh_callback_depth := lh_callback_depth l2 - 1\<rparr>
                        else l2) in
              (case lh_maybe_resize l3 h' of (l4, h'') \<Rightarrow> Some (w', Some l4, h''))))"

definition lh_doall :: "('d, 'w) lh_callback \<Rightarrow> 'w \<times> 'd lhash_st option \<times> heap
    \<Rightarrow> ('w \<times> 'd lhash_st option \<times> heap) option" where
  "lh_doall func = lh_doall_internal func"

definition lh_doall_arg :: "('d \<Rightarrow> 'arg \<Rightarrow> 'w \<times> 'd lhash_st \<times> heap \<Rightarrow> 'w \<times> 'd lhash_st \<times> heap) \<Rightarrow> 'arg
    \<Rightarrow> 'w \<times> 'd lhash_st option \<times> heap \<Rightarrow> ('w \<times> 'd lhash_st option \<times> heap) option" where
  "lh_doall_arg func arg = lh_doall_internal (\<lambda>d. func d arg)"

definition lh_strhash :: "u8 list option \<Rightarrow> u32" where
  "lh_strhash c = (case c of None \<Rightarrow> 0 | Some s \<Rightarrow> OPENSSL_hash32 (take (c_strlen s) s))"

section \<open>Invariant and abstraction\<close>

text \<open>The contract of the two callbacks of a table: equality is an equivalence that the hash respects.\<close>

definition lh_funs_ok :: "('d \<Rightarrow> 'd \<Rightarrow> int) \<Rightarrow> ('d \<Rightarrow> u32) \<Rightarrow> bool" where
  "lh_funs_ok cmp hash \<longleftrightarrow> (\<forall>a. cmp a a = 0) \<and> (\<forall>a b. cmp a b = 0 \<longrightarrow> cmp b a = 0)
     \<and> (\<forall>a b c. cmp a b = 0 \<longrightarrow> cmp b c = 0 \<longrightarrow> cmp a c = 0) \<and> (\<forall>a b. cmp a b = 0 \<longrightarrow> hash a = hash b)"

definition elems :: "'d lhash_item list list \<Rightarrow> 'd multiset" where
  "elems b = image_mset it_data (mset (concat b))"

definition placed :: "('d \<Rightarrow> u32) \<Rightarrow> 'd lhash_item list list \<Rightarrow> bool" where
  "placed hash b \<longleftrightarrow> (\<forall>i < length b. \<forall>it \<in> set (b ! i).
     it_hash it = hash (it_data it) \<and> unat (it_hash it) mod length b = i)"

definition unique :: "('d \<Rightarrow> 'd \<Rightarrow> int) \<Rightarrow> 'd multiset \<Rightarrow> bool" where
  "unique cmp M \<longleftrightarrow> (\<forall>k. size (filter_mset (\<lambda>d. cmp d k = 0) M) \<le> 1)"

definition lh_inv :: "'d lhash_st \<Rightarrow> bool" where
  "lh_inv lh \<longleftrightarrow> length (lh_buckets lh) = lh_num_buckets lh \<and> kMinNumBuckets \<le> lh_num_buckets lh
     \<and> lh_num lh = szw (length (concat (lh_buckets lh)))
     \<and> lh_funs_ok (lh_comp lh) (lh_hash lh) \<and> placed (lh_hash lh) (lh_buckets lh)
     \<and> unique (lh_comp lh) (elems (lh_buckets lh))"

text \<open>The element of a collection equal to a key, if any.\<close>

definition holds_at :: "('d \<Rightarrow> 'd \<Rightarrow> int) \<Rightarrow> 'd multiset \<Rightarrow> 'd \<Rightarrow> 'd option \<Rightarrow> bool" where
  "holds_at cmp M k r \<longleftrightarrow> (case r of None \<Rightarrow> \<forall>d \<in># M. cmp d k \<noteq> 0 | Some d \<Rightarrow> d \<in># M \<and> cmp d k = 0)"

definition lh_abs :: "'d lhash_st \<Rightarrow> 'd \<Rightarrow> 'd option" where
  "lh_abs lh k = List.find (\<lambda>d. lh_comp lh d k = 0) (map it_data (concat (lh_buckets lh)))"

lemma mset_bucket_update:
  assumes "i < length b"
  shows "mset (concat (b[i := c])) + mset (b ! i) = mset (concat b) + mset c"
proof -
  have "concat b = concat (take i b) @ b ! i @ concat (drop (Suc i) b)"
    using id_take_nth_drop [OF assms] by (metis concat.simps(2) concat_append)
  moreover have "concat (b[i := c]) = concat (take i b) @ c @ concat (drop (Suc i) b)"
    using assms by (simp add: upd_conv_take_nth_drop)
  ultimately show ?thesis by simp
qed

lemma elems_bucket_update:
  assumes "i < length b"
  shows "elems (b[i := c]) + image_mset it_data (mset (b ! i)) = elems b + image_mset it_data (mset c)"
  using arg_cong [OF mset_bucket_update [OF assms], of "image_mset it_data" c] by (simp add: elems_def)

lemma holds_at_unique:
  assumes "unique cmp M" "holds_at cmp M k r" "holds_at cmp M k r'"
  shows "r = r'"
proof -
  have "d = e" if "d \<in># M" "cmp d k = 0" "e \<in># M" "cmp e k = 0" for d e
  proof (rule ccontr)
    assume "d \<noteq> e"
    let ?F = "filter_mset (\<lambda>d. cmp d k = 0) M"
    have "d \<in># ?F" "e \<in># ?F" using that by simp_all
    then obtain F' where F': "?F = add_mset d F'" by (meson multi_member_split)
    have "e \<in># F'" using \<open>e \<in># ?F\<close> \<open>d \<noteq> e\<close> unfolding F' by simp
    then have "size F' \<noteq> 0" by auto
    moreover have "size ?F \<le> 1" using assms(1) by (simp add: unique_def)
    ultimately show False unfolding F' by simp
  qed
  then show ?thesis using assms(2,3) by (auto simp: holds_at_def split: option.splits)
qed

lemma set_elems: "set_mset (elems b) = set (map it_data (concat b))"
  by (simp add: elems_def)

lemma elems_bucketI: "i < length b \<Longrightarrow> it \<in> set (b ! i) \<Longrightarrow> it_data it \<in># elems b"
  by (auto simp: elems_def) (metis (mono_tags) UN_iff imageI nth_mem)

lemma placedD:
  "placed hash b \<Longrightarrow> i < length b \<Longrightarrow> it \<in> set (b ! i)
    \<Longrightarrow> it_hash it = hash (it_data it) \<and> unat (hash (it_data it)) mod length b = i"
  unfolding placed_def by metis

lemma lh_abs_holds: "holds_at (lh_comp lh) (elems (lh_buckets lh)) k (lh_abs lh k)"
proof (cases "lh_abs lh k")
  case None
  then have "\<forall>d \<in> set (map it_data (concat (lh_buckets lh))). lh_comp lh d k \<noteq> 0"
    unfolding lh_abs_def find_None_iff by blast
  then show ?thesis unfolding holds_at_def set_elems None by simp
next
  case (Some d)
  then have "d \<in> set (map it_data (concat (lh_buckets lh)))" "lh_comp lh d k = 0"
    unfolding lh_abs_def find_Some_iff by (metis nth_mem)+
  then show ?thesis unfolding holds_at_def set_elems Some by simp
qed

lemma lh_abs_eq:
  assumes "lh_inv lh" "holds_at (lh_comp lh) (elems (lh_buckets lh)) k r"
  shows "lh_abs lh k = r"
  using holds_at_unique [OF _ lh_abs_holds assms(2)] assms(1) by (simp add: lh_inv_def)

lemma chain_pos_cases:
  "chain_pos cmp k c < length c \<and> cmp (it_data (c ! chain_pos cmp k c)) k = 0
   \<or> chain_pos cmp k c = length c \<and> (\<forall>it \<in> set c. cmp (it_data it) k \<noteq> 0)"
  by (induction c) auto

lemma elems_in_bucket:
  assumes "d \<in># elems b"
  obtains i it where "i < length b" "it \<in> set (b ! i)" "d = it_data it"
  using assms by (auto simp: elems_def in_set_conv_nth) (metis nth_mem)

lemma locate:
  assumes "lh_inv lh" "get_next_ptr_and_hash lh k = (hash, i, pos)"
  shows "hash = lh_hash lh k" "i < length (lh_buckets lh)" "i = unat hash mod length (lh_buckets lh)"
    "pos < length (lh_buckets lh ! i) \<and> lh_comp lh (it_data (lh_buckets lh ! i ! pos)) k = 0
     \<or> pos = length (lh_buckets lh ! i) \<and> (\<forall>d \<in># elems (lh_buckets lh). lh_comp lh d k \<noteq> 0)"
proof -
  let ?b = "lh_buckets lh"
  have l: "length ?b = lh_num_buckets lh" "0 < length ?b" using assms(1) by (auto simp: lh_inv_def kMinNumBuckets_def)
  show h: "hash = lh_hash lh k" and im: "i = unat hash mod length ?b" using assms(2) l by (auto simp: get_next_ptr_and_hash_def Let_def)
  then show i: "i < length ?b" using l by simp
  have p: "pos = chain_pos (lh_comp lh) k (?b ! i)" using assms(2) by (auto simp: get_next_ptr_and_hash_def Let_def)
  have "lh_comp lh d k \<noteq> 0" if no: "\<forall>it \<in> set (?b ! i). lh_comp lh (it_data it) k \<noteq> 0" and d: "d \<in># elems ?b" for d
  proof
    assume z: "lh_comp lh d k = 0"
    obtain j it where j: "j < length ?b" "it \<in> set (?b ! j)" "d = it_data it" using elems_in_bucket [OF d] .
    have "lh_hash lh d = lh_hash lh k" using z assms(1) unfolding lh_inv_def lh_funs_ok_def by blast
    moreover have "unat (lh_hash lh d) mod length ?b = j"
      using j assms(1) placedD [of "lh_hash lh" ?b j it] by (simp add: lh_inv_def)
    ultimately have "j = i" using im h by simp
    then show False using no j z by blast
  qed
  then show "pos < length (?b ! i) \<and> lh_comp lh (it_data (?b ! i ! pos)) k = 0
     \<or> pos = length (?b ! i) \<and> (\<forall>d \<in># elems ?b. lh_comp lh d k \<noteq> 0)"
    using chain_pos_cases [of "lh_comp lh" k "?b ! i"] unfolding p by blast
qed

lemma lh_retrieve_abs:
  assumes "lh_inv lh"
  shows "lh_retrieve lh k = lh_abs lh k"
proof -
  obtain hash i pos where g: "get_next_ptr_and_hash lh k = (hash, i, pos)" by (metis prod_cases3)
  note lc = locate [OF assms g]
  have "holds_at (lh_comp lh) (elems (lh_buckets lh)) k (lh_retrieve lh k)"
    using lc(2,4) g by (auto simp: holds_at_def lh_retrieve_def elems_bucketI)
  then show ?thesis using lh_abs_eq [OF assms] by simp
qed

section \<open>Resizing\<close>

lemma rebucket_item_ok:
  assumes "placed hash nb" "it_hash it = hash (it_data it)" "0 < length nb"
  shows "placed hash (rebucket_item (length nb) it nb)" "length (rebucket_item (length nb) it nb) = length nb"
    "mset (concat (rebucket_item (length nb) it nb)) = add_mset it (mset (concat nb))"
proof -
  let ?j = "unat (it_hash it) mod length nb"
  have j: "?j < length nb" using assms(3) by simp
  show "placed hash (rebucket_item (length nb) it nb)"
    unfolding placed_def
  proof (intro allI impI ballI)
    fix i x assume i: "i < length (rebucket_item (length nb) it nb)" "x \<in> set (rebucket_item (length nb) it nb ! i)"
    then consider "x = it" "i = ?j" | "x \<in> set (nb ! i)" "i < length nb"
      using j by (auto simp: rebucket_item_def Let_def nth_list_update split: if_splits)
    then show "it_hash x = hash (it_data x) \<and> unat (it_hash x) mod length (rebucket_item (length nb) it nb) = i"
      using assms(2) placedD [OF assms(1), of i x] by cases (auto simp: rebucket_item_def Let_def)
  qed
  show "length (rebucket_item (length nb) it nb) = length nb" by (simp add: rebucket_item_def Let_def)
  show "mset (concat (rebucket_item (length nb) it nb)) = add_mset it (mset (concat nb))"
    using mset_bucket_update [OF j, of "it # nb ! ?j"] by (simp add: rebucket_item_def Let_def)
qed

lemma rebucket_chain_ok:
  assumes "placed hash nb" "\<forall>it \<in> set c. it_hash it = hash (it_data it)" "0 < length nb"
  shows "placed hash (fold (rebucket_item (length nb)) c nb) \<and> length (fold (rebucket_item (length nb)) c nb) = length nb
    \<and> mset (concat (fold (rebucket_item (length nb)) c nb)) = mset c + mset (concat nb)"
  using assms
proof (induction c arbitrary: nb)
  case (Cons it c)
  note r = rebucket_item_ok [OF Cons.prems(1) _ Cons.prems(3), of it]
  have "it_hash it = hash (it_data it)" using Cons.prems(2) by simp
  note r = r [OF this]
  from Cons.IH [OF r(1)] Cons.prems r(2,3) show ?case by simp
qed simp

lemma rebucket_all_ok:
  assumes "placed hash nb" "\<forall>it \<in> set (concat b). it_hash it = hash (it_data it)" "n = length nb" "0 < length nb"
  shows "placed hash (fold (\<lambda>chain. fold (rebucket_item n) chain) b nb)
    \<and> length (fold (\<lambda>chain. fold (rebucket_item n) chain) b nb) = n
    \<and> mset (concat (fold (\<lambda>chain. fold (rebucket_item n) chain) b nb)) = mset (concat b) + mset (concat nb)"
  using assms
proof (induction b arbitrary: nb)
  case (Cons c b)
  from rebucket_chain_ok [OF Cons.prems(1) _ Cons.prems(4), of c] Cons.prems(2)
  have r: "placed hash (fold (rebucket_item n) c nb)" "length (fold (rebucket_item n) c nb) = n"
    "mset (concat (fold (rebucket_item n) c nb)) = mset c + mset (concat nb)" unfolding Cons.prems(3) by auto
  from Cons.IH [OF r(1)] r(2,3) Cons.prems show ?case by simp
qed simp

definition same_items :: "'d lhash_st \<Rightarrow> 'd lhash_st \<Rightarrow> bool" where
  "same_items lh lh' \<longleftrightarrow> mset (concat (lh_buckets lh')) = mset (concat (lh_buckets lh)) \<and> lh_num lh' = lh_num lh
     \<and> lh_comp lh' = lh_comp lh \<and> lh_hash lh' = lh_hash lh \<and> lh_callback_depth lh' = lh_callback_depth lh"

lemma lh_rebucket_ok:
  assumes "lh_inv lh" "kMinNumBuckets \<le> n" "lh_rebucket lh n h = (lh', h')"
  shows "lh_inv lh' \<and> same_items lh lh'"
proof (cases "lh' = lh")
  case True
  then show ?thesis using assms(1) by (simp add: same_items_def)
next
  case False
  let ?nb = "fold (\<lambda>chain. fold (rebucket_item n) chain) (lh_buckets lh) (replicate n [])"
  have lh': "lh' = lh\<lparr>lh_num_buckets := n, lh_buckets := ?nb\<rparr>"
    using False assms(3) by (auto simp: lh_rebucket_def Let_def split: if_splits prod.splits option.splits)
  have i: "placed (lh_hash lh) (lh_buckets lh)" using assms(1) by (simp add: lh_inv_def)
  have h: "it_hash it = lh_hash lh (it_data it)" if "it \<in> set (concat (lh_buckets lh))" for it
    using i that by (fastforce simp: placed_def in_set_conv_nth)
  have p0: "placed (lh_hash lh) (replicate n [])" by (simp add: placed_def)
  have n: "0 < n" using assms(2) by (simp add: kMinNumBuckets_def)
  have r: "placed (lh_hash lh) ?nb" "length ?nb = n" "mset (concat ?nb) = mset (concat (lh_buckets lh))"
    using rebucket_all_ok [OF p0, of "lh_buckets lh" n] h n by auto
  have "length (concat ?nb) = length (concat (lh_buckets lh))" using r(3) by (rule mset_eq_length)
  then show ?thesis using assms(1,2) r by (simp add: lh' lh_inv_def same_items_def elems_def)
qed

lemma lh_maybe_resize_ok:
  assumes "lh_inv lh" "lh_maybe_resize lh h = (lh', h')"
  shows "lh_inv lh' \<and> same_items lh lh'"
proof (cases "(lh', h') = (lh, h)")
  case True
  then show ?thesis using assms(1) by (simp add: same_items_def)
next
  case False
  then obtain n where "lh_rebucket lh n h = (lh', h')" "kMinNumBuckets \<le> n"
    using assms by (auto simp: lh_maybe_resize_def lh_inv_def Let_def split: if_splits)
  then show ?thesis using lh_rebucket_ok [OF assms(1)] by blast
qed

lemma same_items_abs:
  assumes "lh_inv lh'" "same_items lh lh'"
  shows "lh_abs lh' k = lh_abs lh k"
  using assms lh_abs_eq [OF assms(1)] lh_abs_holds [of lh k] by (simp add: same_items_def elems_def)

section \<open>Insertion and deletion\<close>

definition opt_mset :: "'d option \<Rightarrow> 'd multiset" where
  "opt_mset r = (case r of None \<Rightarrow> {#} | Some d \<Rightarrow> {#d#})"

lemma funs_ok_eq:
  assumes "lh_funs_ok cmp hash"
  shows "cmp a a = 0" "cmp a b = 0 \<Longrightarrow> cmp b a = 0" "cmp a b = 0 \<Longrightarrow> cmp b c = 0 \<Longrightarrow> cmp a c = 0"
    "cmp a b = 0 \<Longrightarrow> hash a = hash b"
  using assms unfolding lh_funs_ok_def by metis+

lemma filter_mset_empty: "filter_mset P M = {#} \<longleftrightarrow> (\<forall>x \<in># M. \<not> P x)"
  by (induction M) auto

lemma szw_Suc_dec: "szw (szw (Suc n) + (2 ^ 64 - 1)) = szw n"
proof -
  have "szw (szw (Suc n) + (2 ^ 64 - 1)) = (Suc n + (2 ^ 64 - 1)) mod 2 ^ 64" unfolding szw_def by (rule mod_add_left_eq)
  also have "\<dots> = (n + 2 ^ 64) mod 2 ^ 64" by (rule arg_cong [of _ _ "\<lambda>x. x mod 2 ^ 64"]) simp
  finally show ?thesis by (simp add: szw_def)
qed

lemma remove_key:
  assumes f: "lh_funs_ok cmp hash" and u: "unique cmp M" and r: "holds_at cmp M k r"
  shows "unique cmp (M - opt_mset r)" "\<forall>e \<in># M - opt_mset r. cmp e k \<noteq> 0"
    "cmp k j \<noteq> 0 \<Longrightarrow> holds_at cmp M j q \<Longrightarrow> holds_at cmp (M - opt_mset r) j q"
proof -
  have "size (filter_mset (\<lambda>d. cmp d k = 0) (M - opt_mset r)) \<le> size (filter_mset (\<lambda>d. cmp d k = 0) M)" for k
    by (intro size_mset_mono multiset_filter_mono) simp
  then show "unique cmp (M - opt_mset r)" using u unfolding unique_def by (meson le_trans)
  show "\<forall>e \<in># M - opt_mset r. cmp e k \<noteq> 0"
  proof (cases r)
    case None
    then show ?thesis using r by (simp add: opt_mset_def holds_at_def)
  next
    case (Some d)
    then obtain M' where M': "M = add_mset d M'" "cmp d k = 0"
      using r by (auto simp: holds_at_def dest: multi_member_split)
    then have "size (filter_mset (\<lambda>d. cmp d k = 0) M') = 0" using u by (force simp: unique_def dest: spec [of _ k])
    then show ?thesis using M' Some by (auto simp: opt_mset_def filter_mset_empty)
  qed
  assume kj: "cmp k j \<noteq> 0" and q: "holds_at cmp M j q"
  show "holds_at cmp (M - opt_mset r) j q"
  proof (cases q)
    case None
    then show ?thesis using q by (auto simp: holds_at_def dest: in_diffD)
  next
    case (Some d)
    have "r \<noteq> Some d" using r q kj funs_ok_eq(2) [OF f, of d k] funs_ok_eq(3) [OF f, of k d j] by (auto simp: holds_at_def Some)
    then have "d \<in># M - opt_mset r"
      using q Some by (cases r) (auto simp: opt_mset_def holds_at_def in_diff_count)
    then show ?thesis using q Some by (simp add: holds_at_def)
  qed
qed

lemma add_key:
  assumes f: "lh_funs_ok cmp hash" and u: "unique cmp N" and n: "\<forall>e \<in># N. cmp e k \<noteq> 0"
  shows "unique cmp (add_mset k N)"
    "holds_at cmp (add_mset k N) j (if cmp k j = 0 then Some k else q) \<longleftrightarrow> cmp k j = 0 \<or> holds_at cmp N j q"
proof -
  have "filter_mset (\<lambda>d. cmp d j = 0) N = {#}" if "cmp k j = 0" for j
    unfolding filter_mset_empty
  proof
    fix e assume "e \<in># N"
    then show "cmp e j \<noteq> 0" using n that funs_ok_eq(2) [OF f, of k j] funs_ok_eq(3) [OF f, of e j k] by auto
  qed
  then show "unique cmp (add_mset k N)" using u by (auto simp: unique_def)
  show "holds_at cmp (add_mset k N) j (if cmp k j = 0 then Some k else q) \<longleftrightarrow> cmp k j = 0 \<or> holds_at cmp N j q"
    by (auto simp: holds_at_def split: option.splits)
qed

lemma bucket_update_inv:
  assumes "lh_inv lh" "i < length (lh_buckets lh)"
    and "\<And>it. it \<in> set c \<Longrightarrow> it_hash it = lh_hash lh (it_data it) \<and> unat (it_hash it) mod length (lh_buckets lh) = i"
    and "n = szw (length (concat ((lh_buckets lh)[i := c])))" "unique (lh_comp lh) (elems ((lh_buckets lh)[i := c]))"
  shows "lh_inv (lh\<lparr>lh_buckets := (lh_buckets lh)[i := c], lh_num := n\<rparr>)"
proof -
  have p: "placed (lh_hash lh) (lh_buckets lh)" using assms(1) by (simp add: lh_inv_def)
  have "placed (lh_hash lh) ((lh_buckets lh)[i := c])"
    unfolding placed_def
  proof (intro allI impI ballI)
    fix j it assume j: "j < length ((lh_buckets lh)[i := c])" "it \<in> set ((lh_buckets lh)[i := c] ! j)"
    show "it_hash it = lh_hash lh (it_data it) \<and> unat (it_hash it) mod length ((lh_buckets lh)[i := c]) = j"
      using j assms(2) assms(3) [of it] placedD [OF p, of j it] by (cases "j = i") auto
  qed
  then show ?thesis using assms by (simp add: lh_inv_def)
qed

lemma length_bucket_update:
  "i < length b \<Longrightarrow> length (concat (b[i := c])) + length (b ! i) = length (concat b) + length c"
  using arg_cong [OF mset_bucket_update, of i b size c] by simp

lemma mset_take_drop_Suc: "pos < length c \<Longrightarrow> mset c = add_mset (c ! pos) (mset (take pos c @ drop (Suc pos) c))"
  by (subst id_take_nth_drop [of pos c]) auto

text \<open>The state just before the resizing step of \<open>lh_delete\<close>, and what it holds.\<close>

lemma delete_raw:
  assumes inv: "lh_inv lh" and g: "get_next_ptr_and_hash lh k = (hash, i, pos)" and pos: "pos < length (lh_buckets lh ! i)"
  defines "c \<equiv> lh_buckets lh ! i"
  defines "lh1 \<equiv> lh\<lparr>lh_buckets := (lh_buckets lh)[i := take pos c @ drop (Suc pos) c], lh_num := szw (lh_num lh + (2 ^ 64 - 1))\<rparr>"
  shows "lh_abs lh k = Some (it_data (c ! pos))" "lh_inv lh1"
    "elems (lh_buckets lh1) = elems (lh_buckets lh) - opt_mset (lh_abs lh k)"
proof -
  let ?b = "lh_buckets lh" and ?c' = "take pos c @ drop (Suc pos) c"
  note lc = locate [OF inv g]
  have f: "lh_funs_ok (lh_comp lh) (lh_hash lh)" and u: "unique (lh_comp lh) (elems ?b)"
    using inv by (simp_all add: lh_inv_def)
  have "holds_at (lh_comp lh) (elems ?b) k (Some (it_data (c ! pos)))"
    using lc(2,4) pos by (auto simp: holds_at_def c_def elems_bucketI)
  then show a: "lh_abs lh k = Some (it_data (c ! pos))" by (rule lh_abs_eq [OF inv])
  have m: "mset c = add_mset (c ! pos) (mset ?c')" using mset_take_drop_Suc [of pos c] pos by (simp add: c_def)
  have e: "elems (?b[i := ?c']) = elems ?b - opt_mset (lh_abs lh k)"
    using elems_bucket_update [OF lc(2), of ?c'] by (simp add: a opt_mset_def m c_def [symmetric])
      (metis add_mset_remove_trivial union_mset_add_mset_right add_right_cancel)
  then show "elems (lh_buckets lh1) = elems (lh_buckets lh) - opt_mset (lh_abs lh k)" by (simp add: lh1_def)
  have "length (concat ?b) = Suc (length (concat (?b[i := ?c'])))"
    using length_bucket_update [OF lc(2), of ?c'] pos by (simp add: c_def)
  then have n: "szw (lh_num lh + (2 ^ 64 - 1)) = szw (length (concat (?b[i := ?c'])))"
    using inv szw_Suc_dec unfolding lh_inv_def by metis
  have sub: "set ?c' \<subseteq> set (?b ! i)" by (auto simp: c_def dest: in_set_takeD in_set_dropD)
  show "lh_inv lh1"
    unfolding lh1_def
  proof (rule bucket_update_inv [OF inv lc(2) _ n])
    show "unique (lh_comp lh) (elems (?b[i := ?c']))"
      unfolding e using remove_key(1) [OF f u lh_abs_holds] .
  qed (use sub inv placedD [of "lh_hash lh" ?b i] lc(2) in \<open>auto simp: lh_inv_def\<close>)
qed


lemma insert_raw_new:
  fixes a :: nat
  assumes inv: "lh_inv lh" and g: "get_next_ptr_and_hash lh d = (hash, i, pos)" and pos: "pos = length (lh_buckets lh ! i)"
  defines "item \<equiv> \<lparr>it_addr = a, it_data = d, it_hash = hash\<rparr>"
  defines "lh1 \<equiv> lh\<lparr>lh_buckets := (lh_buckets lh)[i := lh_buckets lh ! i @ [item]], lh_num := szw (lh_num lh + 1)\<rparr>"
  shows "lh_abs lh d = None" "lh_inv lh1" "elems (lh_buckets lh1) = add_mset d (elems (lh_buckets lh))"
proof -
  let ?b = "lh_buckets lh" and ?c' = "lh_buckets lh ! i @ [item]"
  note lc = locate [OF inv g]
  have f: "lh_funs_ok (lh_comp lh) (lh_hash lh)" and u: "unique (lh_comp lh) (elems ?b)"
    using inv by (simp_all add: lh_inv_def)
  have no: "\<forall>e \<in># elems ?b. lh_comp lh e d \<noteq> 0" using lc(4) pos by auto
  then show "lh_abs lh d = None" by (intro lh_abs_eq [OF inv]) (simp add: holds_at_def)
  have e: "elems (?b[i := ?c']) = add_mset d (elems ?b)"
    using elems_bucket_update [OF lc(2), of ?c'] by (simp add: item_def)
  then show "elems (lh_buckets lh1) = add_mset d (elems ?b)" by (simp add: lh1_def)
  have "length (concat (?b[i := ?c'])) = Suc (length (concat ?b))"
    using length_bucket_update [OF lc(2), of ?c'] by simp
  then have n: "szw (lh_num lh + 1) = szw (length (concat (?b[i := ?c'])))"
    using inv by (simp add: lh_inv_def szw_def mod_Suc_eq)
  show "lh_inv lh1"
    unfolding lh1_def
  proof (rule bucket_update_inv [OF inv lc(2) _ n])
    show "unique (lh_comp lh) (elems (?b[i := ?c']))" unfolding e using add_key(1) [OF f u no] .
    fix it assume "it \<in> set ?c'"
    then show "it_hash it = lh_hash lh (it_data it) \<and> unat (it_hash it) mod length ?b = i"
      using lc inv placedD [of "lh_hash lh" ?b i it] by (auto simp: lh_inv_def item_def)
  qed
qed

lemma insert_raw_replace:
  assumes inv: "lh_inv lh" and g: "get_next_ptr_and_hash lh d = (hash, i, pos)" and pos: "pos < length (lh_buckets lh ! i)"
  defines "c \<equiv> lh_buckets lh ! i"
  defines "lh1 \<equiv> lh\<lparr>lh_buckets := (lh_buckets lh)[i := c[pos := (c ! pos)\<lparr>it_data := d\<rparr>]]\<rparr>"
  shows "lh_abs lh d = Some (it_data (c ! pos))" "lh_inv lh1"
    "elems (lh_buckets lh1) = add_mset d (elems (lh_buckets lh) - opt_mset (lh_abs lh d))"
proof -
  let ?b = "lh_buckets lh" and ?c' = "c[pos := (c ! pos)\<lparr>it_data := d\<rparr>]"
  note lc = locate [OF inv g]
  have f: "lh_funs_ok (lh_comp lh) (lh_hash lh)" and u: "unique (lh_comp lh) (elems ?b)"
    using inv by (simp_all add: lh_inv_def)
  have old: "lh_comp lh (it_data (c ! pos)) d = 0" using lc(4) pos by (auto simp: c_def)
  have "holds_at (lh_comp lh) (elems ?b) d (Some (it_data (c ! pos)))"
    using lc(2) old pos by (auto simp: holds_at_def c_def elems_bucketI)
  then show a: "lh_abs lh d = Some (it_data (c ! pos))" by (rule lh_abs_eq [OF inv])
  have m: "mset c = add_mset (c ! pos) (mset c - {#c ! pos#})" using pos by (simp add: c_def)
  have m': "mset ?c' = add_mset ((c ! pos)\<lparr>it_data := d\<rparr>) (mset c - {#c ! pos#})"
    using pos by (simp add: mset_update c_def)
  define M where "M = mset c - {#c ! pos#}"
  have "elems (?b[i := ?c']) + image_mset it_data (add_mset (c ! pos) M) = elems ?b + add_mset d (image_mset it_data M)"
    using elems_bucket_update [OF lc(2), of ?c'] m m' unfolding c_def [symmetric] M_def by simp
  then have "add_mset (it_data (c ! pos)) (elems (?b[i := ?c'])) = add_mset d (elems ?b)" by simp
  moreover obtain E where "elems ?b = add_mset (it_data (c ! pos)) E"
    using elems_bucketI [OF lc(2), of "c ! pos"] pos by (metis c_def nth_mem multi_member_split)
  ultimately have e: "elems (?b[i := ?c']) = add_mset d (elems ?b - opt_mset (lh_abs lh d))"
    by (simp add: a opt_mset_def add_mset_commute [of d])
  then show "elems (lh_buckets lh1) = add_mset d (elems ?b - opt_mset (lh_abs lh d))" by (simp add: lh1_def)
  have "lh_inv (lh\<lparr>lh_buckets := ?b[i := ?c'], lh_num := lh_num lh\<rparr>)"
  proof (rule bucket_update_inv [OF inv lc(2)])
    show "unique (lh_comp lh) (elems (?b[i := ?c']))"
      unfolding e by (rule add_key(1) [OF f]) (use remove_key [OF f u lh_abs_holds] in auto)
    show "lh_num lh = szw (length (concat (?b[i := ?c'])))"
      using length_bucket_update [OF lc(2), of ?c'] inv by (simp add: c_def lh_inv_def)
    have p: "placed (lh_hash lh) ?b" using inv by (simp add: lh_inv_def)
    fix it assume "it \<in> set ?c'"
    then consider "it \<in> set c" | "it = (c ! pos)\<lparr>it_data := d\<rparr>" by (auto dest: set_update_subset_insert [THEN subsetD])
    then show "it_hash it = lh_hash lh (it_data it) \<and> unat (it_hash it) mod length ?b = i"
      using placedD [OF p lc(2), of it] placedD [OF p lc(2), of "c ! pos"] pos funs_ok_eq(4) [OF f old]
      by cases (auto simp: c_def)
  qed
  then show "lh_inv lh1" by (simp add: lh1_def)
qed

lemma same_items_inv_elems:
  "same_items lh lh' \<Longrightarrow> elems (lh_buckets lh') = elems (lh_buckets lh) \<and> lh_comp lh' = lh_comp lh \<and> lh_hash lh' = lh_hash lh"
  by (simp add: same_items_def elems_def)

lemma lh_insert_ok:
  assumes inv: "lh_inv lh" and r: "lh_insert lh d h = (ok, old, lh', h')"
  shows "lh_inv lh'" "lh_comp lh' = lh_comp lh" "lh_callback_depth lh' = lh_callback_depth lh"
    "if ok then old = lh_abs lh d \<and> elems (lh_buckets lh') = add_mset d (elems (lh_buckets lh) - opt_mset old)
     else old = None \<and> lh' = lh"
proof -
  obtain hash i pos where g: "get_next_ptr_and_hash lh d = (hash, i, pos)" by (metis prod_cases3)
  consider "pos < length (lh_buckets lh ! i)" | "pos = length (lh_buckets lh ! i)" using locate(4) [OF inv g] by blast
  then have "lh_inv lh' \<and> lh_comp lh' = lh_comp lh \<and> lh_callback_depth lh' = lh_callback_depth lh
    \<and> (if ok then old = lh_abs lh d \<and> elems (lh_buckets lh') = add_mset d (elems (lh_buckets lh) - opt_mset old)
       else old = None \<and> lh' = lh)"
  proof cases
    case 1
    then show ?thesis using insert_raw_replace [OF inv g 1] r by (simp add: lh_insert_def g Let_def) auto
  next
    case 2
    define lh1 where "lh1 = lh\<lparr>lh_buckets := (lh_buckets lh)[i := lh_buckets lh ! i @
        [\<lparr>it_addr = hp_calls h, it_data = d, it_hash = hash\<rparr>]], lh_num := szw (lh_num lh + 1)\<rparr>"
    note raw = insert_raw_new(1) [OF inv g 2] insert_raw_new(2,3) [OF inv g 2, where a = "hp_calls h", folded lh1_def]
    show ?thesis
    proof (cases "mem_malloc sizeof_LHASH_ITEM h")
      case (Pair x h1)
      show ?thesis
      proof (cases x)
        case None
        then show ?thesis using r Pair inv 2 by (simp add: lh_insert_def g)
      next
        case (Some y)
        then have o: "ok" "old = None" "lh_maybe_resize lh1 h1 = (lh', h')"
          using r Pair 2 by (simp_all add: lh_insert_def g lh1_def)
        have "lh_inv lh'" "same_items lh1 lh'" using lh_maybe_resize_ok [OF raw(2) o(3)] by blast+
        then show ?thesis using raw(1,3) o(1,2) same_items_inv_elems [of lh1 lh']
          by (simp add: opt_mset_def) (simp add: same_items_def lh1_def)
      qed
    qed
  qed
  then show "lh_inv lh'" "lh_comp lh' = lh_comp lh" "lh_callback_depth lh' = lh_callback_depth lh"
    "if ok then old = lh_abs lh d \<and> elems (lh_buckets lh') = add_mset d (elems (lh_buckets lh) - opt_mset old)
     else old = None \<and> lh' = lh" by blast+
qed

lemma lh_delete_ok:
  assumes inv: "lh_inv lh" and r: "lh_delete lh d h = (old, lh', h')"
  shows "lh_inv lh'" "lh_comp lh' = lh_comp lh" "lh_callback_depth lh' = lh_callback_depth lh"
    "old = lh_abs lh d" "elems (lh_buckets lh') = elems (lh_buckets lh) - opt_mset old"
proof -
  obtain hash i pos where g: "get_next_ptr_and_hash lh d = (hash, i, pos)" by (metis prod_cases3)
  consider "pos < length (lh_buckets lh ! i)"
    | "pos = length (lh_buckets lh ! i)" "\<forall>e \<in># elems (lh_buckets lh). lh_comp lh e d \<noteq> 0"
    using locate(4) [OF inv g] by blast
  then have "lh_inv lh' \<and> lh_comp lh' = lh_comp lh \<and> lh_callback_depth lh' = lh_callback_depth lh
    \<and> old = lh_abs lh d \<and> elems (lh_buckets lh') = elems (lh_buckets lh) - opt_mset old"
  proof cases
    case 1
    define c where "c = lh_buckets lh ! i"
    define lh1 where "lh1 = lh\<lparr>lh_buckets := (lh_buckets lh)[i := take pos c @ drop (Suc pos) c],
        lh_num := szw (lh_num lh + (2 ^ 64 - 1))\<rparr>"
    note raw = delete_raw [OF inv g 1, folded c_def, folded lh1_def]
    have o: "old = Some (it_data (c ! pos))" "lh_maybe_resize lh1 (free_item (c ! pos) h) = (lh', h')"
      using r 1 by (simp_all add: lh_delete_def g c_def lh1_def Let_def)
    have "lh_inv lh'" "same_items lh1 lh'" using lh_maybe_resize_ok [OF raw(2) o(2)] by blast+
    then show ?thesis using raw(1,3) o(1) same_items_inv_elems [of lh1 lh'] by simp (simp add: same_items_def lh1_def)
  next
    case 2
    then have "lh_abs lh d = None" by (intro lh_abs_eq [OF inv]) (simp add: holds_at_def)
    then show ?thesis using 2 r inv by (simp add: lh_delete_def g opt_mset_def)
  qed
  then show "lh_inv lh'" "lh_comp lh' = lh_comp lh" "lh_callback_depth lh' = lh_callback_depth lh"
    "old = lh_abs lh d" "elems (lh_buckets lh') = elems (lh_buckets lh) - opt_mset old" by blast+
qed

section \<open>The table as a map\<close>

lemma lh_inv_parts: "lh_inv lh \<Longrightarrow> lh_funs_ok (lh_comp lh) (lh_hash lh) \<and> unique (lh_comp lh) (elems (lh_buckets lh))"
  by (simp add: lh_inv_def)

lemma lh_insert_abs:
  assumes inv: "lh_inv lh" and r: "lh_insert lh d h = (ok, old, lh', h')" and ok: ok
  shows "lh_abs lh' = (\<lambda>k. if lh_comp lh d k = 0 then Some d else lh_abs lh k)"
proof
  fix k
  note i = lh_insert_ok [OF inv r]
  have f: "lh_funs_ok (lh_comp lh) (lh_hash lh)" "unique (lh_comp lh) (elems (lh_buckets lh))"
    using lh_inv_parts [OF inv] by blast+
  have e: "old = lh_abs lh d" "elems (lh_buckets lh') = add_mset d (elems (lh_buckets lh) - opt_mset (lh_abs lh d))"
    using i(4) ok by auto
  note rem = remove_key [OF f lh_abs_holds [of lh d]]
  show "lh_abs lh' k = (if lh_comp lh d k = 0 then Some d else lh_abs lh k)"
    by (rule lh_abs_eq [OF i(1)])
      (use add_key(2) [OF f(1) rem(1,2), of k "lh_abs lh k"] rem(3) [OF _ lh_abs_holds] in \<open>auto simp: e(2) i(2)\<close>)
qed

lemma lh_delete_abs:
  assumes inv: "lh_inv lh" and r: "lh_delete lh d h = (old, lh', h')"
  shows "lh_abs lh' = (\<lambda>k. if lh_comp lh d k = 0 then None else lh_abs lh k)"
proof
  fix k
  note i = lh_delete_ok [OF inv r]
  have f: "lh_funs_ok (lh_comp lh) (lh_hash lh)" "unique (lh_comp lh) (elems (lh_buckets lh))"
    using lh_inv_parts [OF inv] by blast+
  note rem = remove_key [OF f lh_abs_holds [of lh d]]
  have "holds_at (lh_comp lh) (elems (lh_buckets lh')) k (if lh_comp lh d k = 0 then None else lh_abs lh k)"
  proof (cases "lh_comp lh d k = 0")
    case True
    then have "lh_comp lh e k \<noteq> 0" if "e \<in># elems (lh_buckets lh')" for e
      using that rem(2) i(4,5) funs_ok_eq(2) [OF f(1), of d k] funs_ok_eq(3) [OF f(1), of e k d] by auto
    then show ?thesis using True by (simp add: holds_at_def)
  next
    case False
    then show ?thesis using rem(3) [OF False lh_abs_holds] i(4,5) by simp
  qed
  then show "lh_abs lh' k = (if lh_comp lh d k = 0 then None else lh_abs lh k)"
    by (intro lh_abs_eq [OF i(1)]) (simp add: i(2))
qed

text \<open>The contract of a keyed container: operations and what the container answers.\<close>

datatype 'k table_op = Put 'k | Del 'k | Get 'k

datatype 'k table_out = PutOut bool "'k option" | ValOut "'k option"

text \<open>The answers a map gives; an insertion that reports failure leaves it alone.\<close>

fun map_accepts :: "('k \<Rightarrow> 'k \<Rightarrow> bool) \<Rightarrow> ('k \<Rightarrow> 'k option) \<Rightarrow> 'k table_op list \<Rightarrow> 'k table_out list \<Rightarrow> bool" where
  "map_accepts eq m [] [] \<longleftrightarrow> True"
| "map_accepts eq m (Put d # ops) (PutOut ok old # outs) \<longleftrightarrow>
     (if ok then old = m d \<and> map_accepts eq (\<lambda>k. if eq d k then Some d else m k) ops outs
      else old = None \<and> map_accepts eq m ops outs)"
| "map_accepts eq m (Del d # ops) (ValOut r # outs) \<longleftrightarrow>
     r = m d \<and> map_accepts eq (\<lambda>k. if eq d k then None else m k) ops outs"
| "map_accepts eq m (Get d # ops) (ValOut r # outs) \<longleftrightarrow> r = m d \<and> map_accepts eq m ops outs"
| "map_accepts eq m _ _ \<longleftrightarrow> False"

fun table_run :: "('s \<Rightarrow> 'k \<Rightarrow> bool \<times> 'k option \<times> 's) \<Rightarrow> ('s \<Rightarrow> 'k \<Rightarrow> 'k option \<times> 's) \<Rightarrow> ('s \<Rightarrow> 'k \<Rightarrow> 'k option)
    \<Rightarrow> 'k table_op list \<Rightarrow> 's \<Rightarrow> 'k table_out list \<times> 's" where
  "table_run put del get [] s = ([], s)"
| "table_run put del get (Put d # ops) s =
     (case put s d of (ok, old, s1) \<Rightarrow> case table_run put del get ops s1 of (outs, s2) \<Rightarrow> (PutOut ok old # outs, s2))"
| "table_run put del get (Del d # ops) s =
     (case del s d of (r, s1) \<Rightarrow> case table_run put del get ops s1 of (outs, s2) \<Rightarrow> (ValOut r # outs, s2))"
| "table_run put del get (Get d # ops) s =
     (case table_run put del get ops s of (outs, s2) \<Rightarrow> (ValOut (get s d) # outs, s2))"

locale keyed_table =
  fixes inv :: "'s \<Rightarrow> bool"
    and eq :: "'s \<Rightarrow> 'k \<Rightarrow> 'k \<Rightarrow> bool"
    and abs :: "'s \<Rightarrow> 'k \<Rightarrow> 'k option"
    and put :: "'s \<Rightarrow> 'k \<Rightarrow> bool \<times> 'k option \<times> 's"
    and del :: "'s \<Rightarrow> 'k \<Rightarrow> 'k option \<times> 's"
    and get :: "'s \<Rightarrow> 'k \<Rightarrow> 'k option"
  assumes get_ok: "inv s \<Longrightarrow> get s k = abs s k"
    and put_ok: "inv s \<Longrightarrow> put s d = (ok, old, s') \<Longrightarrow> inv s' \<and> eq s' = eq s
      \<and> (if ok then old = abs s d \<and> abs s' = (\<lambda>k. if eq s d k then Some d else abs s k) else old = None \<and> abs s' = abs s)"
    and del_ok: "inv s \<Longrightarrow> del s d = (r, s') \<Longrightarrow> inv s' \<and> eq s' = eq s \<and> r = abs s d
      \<and> abs s' = (\<lambda>k. if eq s d k then None else abs s k)"
begin

lemma get_put: "inv s \<Longrightarrow> put s d = (True, old, s') \<Longrightarrow> get s' k = (if eq s d k then Some d else get s k)"
  using put_ok [of s d True old s'] get_ok by auto

lemma get_del: "inv s \<Longrightarrow> del s d = (r, s') \<Longrightarrow> get s' k = (if eq s d k then None else get s k)"
  using del_ok [of s d r s'] get_ok by auto

lemma run_accepts:
  assumes "inv s" "table_run put del get ops s = (outs, s')"
  shows "map_accepts (eq s) (abs s) ops outs \<and> inv s' \<and> eq s' = eq s"
  using assms
proof (induction ops arbitrary: s outs)
  case (Cons q ops)
  show ?case
  proof (cases q)
    case (Put d)
    obtain ok old s1 where p: "put s d = (ok, old, s1)" by (metis prod_cases3)
    obtain o1 where o: "table_run put del get ops s1 = (o1, s')" "outs = PutOut ok old # o1"
      using Cons.prems(2) Put p by (auto split: prod.splits)
    show ?thesis using put_ok [OF Cons.prems(1) p] Cons.IH [OF _ o(1)] Put o(2) by auto
  next
    case (Del d)
    obtain r s1 where p: "del s d = (r, s1)" by fastforce
    obtain o1 where o: "table_run put del get ops s1 = (o1, s')" "outs = ValOut r # o1"
      using Cons.prems(2) Del p by (auto split: prod.splits)
    show ?thesis using del_ok [OF Cons.prems(1) p] Cons.IH [OF _ o(1)] Del o(2) by auto
  next
    case (Get d)
    then show ?thesis using Cons get_ok by (auto split: prod.splits)
  qed
qed simp

end

definition lh_get :: "'d lhash_st \<times> heap \<Rightarrow> 'd \<Rightarrow> 'd option" where
  "lh_get = (\<lambda>(lh, h) k. lh_retrieve lh k)"

definition lh_put :: "'d lhash_st \<times> heap \<Rightarrow> 'd \<Rightarrow> bool \<times> 'd option \<times> 'd lhash_st \<times> heap" where
  "lh_put = (\<lambda>(lh, h) d. lh_insert lh d h)"

definition lh_del :: "'d lhash_st \<times> heap \<Rightarrow> 'd \<Rightarrow> 'd option \<times> 'd lhash_st \<times> heap" where
  "lh_del = (\<lambda>(lh, h) d. lh_delete lh d h)"

definition lh_eq :: "'d lhash_st \<times> heap \<Rightarrow> 'd \<Rightarrow> 'd \<Rightarrow> bool" where
  "lh_eq = (\<lambda>(lh, h) a b. lh_comp lh a b = 0)"

interpretation lh_table: keyed_table "\<lambda>(lh, h). lh_inv lh" lh_eq "\<lambda>(lh, h). lh_abs lh" lh_put lh_del lh_get
proof (unfold_locales, goal_cases)
  case (1 s k)
  then show ?case by (auto simp: lh_get_def lh_retrieve_abs)
next
  case (2 s d ok old s')
  obtain lh h lh' h' where s: "s = (lh, h)" "s' = (lh', h')" by (metis surj_pair)
  then have r: "lh_insert lh d h = (ok, old, lh', h')" and i: "lh_inv lh" using 2 by (auto simp: lh_put_def)
  note ins = lh_insert_ok [OF i r]
  show ?case unfolding s prod.case using ins lh_insert_abs [OF i r] by (cases ok) (simp_all add: lh_eq_def)
next
  case (3 s d r s')
  obtain lh h lh' h' where s: "s = (lh, h)" "s' = (lh', h')" by (metis surj_pair)
  then have r: "lh_delete lh d h = (r, lh', h')" and i: "lh_inv lh" using 3 by (auto simp: lh_del_def)
  note dl = lh_delete_ok [OF i r]
  show ?case unfolding s prod.case using dl lh_delete_abs [OF i r] by (simp add: lh_eq_def)
qed

lemma lh_new_inv:
  assumes "lh_funs_ok cmp hash" "lh_new hash cmp h = (Some lh, h')"
  shows "lh_inv lh" "lh_abs lh = (\<lambda>_. None)" "lh_comp lh = cmp" "lh_num_items lh = 0"
proof -
  have lh: "lh = \<lparr>lh_num = 0, lh_buckets = replicate kMinNumBuckets [], lh_num_buckets = kMinNumBuckets,
      lh_callback_depth = 0, lh_comp = cmp, lh_hash = hash\<rparr>"
    using assms(2) by (auto simp: lh_new_def split: prod.splits option.splits)
  have "concat (replicate n []) = []" for n :: nat by (induction n) auto
  then show "lh_inv lh" "lh_abs lh = (\<lambda>_. None)" "lh_comp lh = cmp" "lh_num_items lh = 0"
    using assms(1) by (simp_all add: lh lh_inv_def placed_def unique_def elems_def szw_def lh_abs_def fun_eq_iff lh_num_items_def)
qed

text \<open>C35. A hash table is a map: on a new table, whatever sequence of insertions, deletions and lookups runs
  (growing and shrinking the bucket array as it goes, with any of its allocations failing), every
  answer is the one a map from keys to elements gives, an insertion that fails changes nothing, and
  the invariant of the table holds at the end.\<close>

theorem lh_implements_map:
  assumes "lh_funs_ok cmp hash" "lh_new hash cmp h = (Some lh, h1)"
    and "table_run (\<lambda>(lh, h) d. lh_insert lh d h) (\<lambda>(lh, h) d. lh_delete lh d h) (\<lambda>(lh, h) k. lh_retrieve lh k)
           ops (lh, h1) = (outs, lh', h')"
  shows "map_accepts (\<lambda>a b. cmp a b = 0) (\<lambda>_. None) ops outs \<and> lh_inv lh'"
  using lh_table.run_accepts [of "(lh, h1)" ops outs "(lh', h')"] lh_new_inv [OF assms(1,2)] assms(3)
  by (simp add: lh_put_def lh_del_def lh_get_def lh_eq_def)

definition nat_cmp :: "nat \<Rightarrow> nat \<Rightarrow> int" where
  "nat_cmp a b = int a - int b"

definition nat_hash :: "nat \<Rightarrow> u32" where
  "nat_hash d = of_nat d"

lemma nat_funs_ok: "lh_funs_ok nat_cmp nat_hash"
  by (simp add: lh_funs_ok_def nat_cmp_def)

lemma demo_lh_new: "\<exists>lh h1. lh_new nat_hash nat_cmp demo_heap = (Some lh, h1)"
  by (simp add: lh_new_def mem_malloc_def c_malloc_def demo_heap_def sizeof_LHASH_def kMinNumBuckets_def
      OPENSSL_MALLOC_PREFIX_def szw_def)

theorem lh_implements_map_witness:
  "\<exists>lh h1 outs lh' h'. lh_new nat_hash nat_cmp demo_heap = (Some lh, h1)
     \<and> table_run (\<lambda>(lh, h) d. lh_insert lh d h) (\<lambda>(lh, h) d. lh_delete lh d h) (\<lambda>(lh, h) k. lh_retrieve lh k)
         [Put 1, Put 17, Get 1, Del 1, Get 17] (lh, h1) = (outs, lh', h')
     \<and> map_accepts (\<lambda>a b. nat_cmp a b = 0) (\<lambda>_. None) [Put 1, Put 17, Get 1, Del 1, Get 17] outs \<and> lh_inv lh'"
proof -
  obtain lh h1 where n: "lh_new nat_hash nat_cmp demo_heap = (Some lh, h1)" using demo_lh_new by blast
  obtain outs lh' h' where r: "table_run (\<lambda>(lh, h) d. lh_insert lh d h) (\<lambda>(lh, h) d. lh_delete lh d h)
      (\<lambda>(lh, h) k. lh_retrieve lh k) [Put 1, Put 17, Get 1, Del 1, Get 17] (lh, h1) = (outs, lh', h')"
    by (metis prod_cases3)
  show ?thesis using n r lh_implements_map [OF nat_funs_ok n r] by blast
qed

section \<open>The load of the table\<close>

definition roomy_heap :: "heap \<Rightarrow> bool" where
  "roomy_heap h \<longleftrightarrow> (\<forall>t n. n < 2 ^ 63 \<longrightarrow> hp_ok h t n)"

lemma roomy_malloc: "roomy_heap h \<Longrightarrow> n + 8 < 2 ^ 63 \<Longrightarrow> \<exists>c h'. mem_malloc n h = (Some c, h') \<and> roomy_heap h'"
  by (auto simp: roomy_heap_def mem_malloc_def c_malloc_def OPENSSL_MALLOC_PREFIX_def szw_def Let_def)

text \<open>The code compares the integer quotient of items and buckets with \<open>kMaxAverageChainLength\<close>, so what it keeps is an
  average below three.\<close>

definition lh_loaded :: "'d lhash_st \<Rightarrow> bool" where
  "lh_loaded lh \<longleftrightarrow> lh_num lh < 3 * lh_num_buckets lh"

lemma lh_rebucket_num:
  "lh_rebucket lh n h = (lh', h') \<Longrightarrow> lh_num lh' = lh_num lh \<and> (lh_num_buckets lh' = n \<or> lh_num_buckets lh' = lh_num_buckets lh)"
  by (auto simp: lh_rebucket_def Let_def split: if_splits prod.splits option.splits)

lemma shrink_loaded:
  assumes "lh_maybe_resize lh h = (lh', h')" "lh_loaded lh" "0 < lh_num_buckets lh"
  shows "lh_loaded lh'"
proof (cases "(lh', h') = (lh, h)")
  case False
  let ?m = "if lh_num_buckets lh div 2 < kMinNumBuckets then kMinNumBuckets else lh_num_buckets lh div 2"
  have small: "\<not> lh_num lh div lh_num_buckets lh > 2"
    using less_mult_imp_div_less [of "lh_num lh" 3 "lh_num_buckets lh"] assms(2) by (simp add: lh_loaded_def)
  have r: "lh_num lh div lh_num_buckets lh < 1" "lh_rebucket lh ?m h = (lh', h')"
    using False assms(1) small by (auto simp: lh_maybe_resize_def kMaxAverageChainLength_def kMinAverageChainLength_def Let_def split: if_splits)
  have n: "lh_num lh < lh_num_buckets lh" using r(1) assms(3) by (simp add: div_eq_0_iff)
  then have "lh_num lh < 3 * ?m" by (auto simp: kMinNumBuckets_def)
  then show ?thesis using lh_rebucket_num [OF r(2)] assms(2) by (auto simp: lh_loaded_def)
qed (use assms(2) in simp)

text \<open>C38. The average chain stays short: while no iteration is running and memory does not run out, an
  insertion leaves fewer than three items per bucket on average if there were fewer before.\<close>

theorem lh_insert_load_bounded:
  assumes "lh_inv lh" "lh_loaded lh" "lh_callback_depth lh = 0" "roomy_heap h" "16 * lh_num_buckets lh + 8 < 2 ^ 63"
    and "lh_insert lh d h = (ok, old, lh', h')"
  shows "lh_loaded lh'"
proof -
  have nb: "16 \<le> lh_num_buckets lh" using assms(1) by (simp add: lh_inv_def kMinNumBuckets_def)
  obtain hash i pos where g: "get_next_ptr_and_hash lh d = (hash, i, pos)" by (metis prod_cases3)
  show ?thesis
  proof (cases "pos = length (lh_buckets lh ! i)")
    case False
    then show ?thesis using assms(2,6) by (auto simp: lh_insert_def g Let_def lh_loaded_def)
  next
    case True
    define lh1 where "lh1 = lh\<lparr>lh_buckets := (lh_buckets lh)[i := lh_buckets lh ! i @
        [\<lparr>it_addr = hp_calls h, it_data = d, it_hash = hash\<rparr>]], lh_num := szw (lh_num lh + 1)\<rparr>"
    obtain c h1 where m: "mem_malloc sizeof_LHASH_ITEM h = (Some c, h1)" "roomy_heap h1"
      using roomy_malloc [OF assms(4), of sizeof_LHASH_ITEM] by (auto simp: sizeof_LHASH_ITEM_def)
    then have r: "lh_maybe_resize lh1 h1 = (lh', h')" using assms(6) True by (simp add: lh_insert_def g lh1_def)
    have l1: "lh_num_buckets lh1 = lh_num_buckets lh" "lh_callback_depth lh1 = 0" by (simp_all add: lh1_def assms(3))
    show ?thesis
    proof (cases "lh_num lh1 div lh_num_buckets lh \<le> 2")
      case True
      then have "lh_num lh1 < 3 * lh_num_buckets lh" using nb div_less_iff_less_mult [of "lh_num_buckets lh" "lh_num lh1" 3] by simp
      then show ?thesis using shrink_loaded [OF r] l1(1) nb by (simp add: lh_loaded_def)
    next
      case False
      have "lh_num lh < 3 * lh_num_buckets lh" using assms(2) by (simp add: lh_loaded_def)
      then have n1: "lh_num lh1 < 3 * (2 * lh_num_buckets lh)"
        using nb le_trans [OF mod_less_eq_dividend, of "lh_num lh + 1" "3 * lh_num_buckets lh" "2 ^ 64"] by (simp add: lh1_def szw_def)
      have z: "szw (lh_num_buckets lh * 2) = lh_num_buckets lh * 2" "szw (16 * lh_num_buckets lh) = 16 * lh_num_buckets lh"
        using assms(5) by (simp_all add: szw_def)
      obtain c' h2 where m2: "mem_malloc (16 * lh_num_buckets lh) h1 = (Some c', h2)"
        using roomy_malloc [OF m(2), of "16 * lh_num_buckets lh"] assms(5) by auto
      have "lh_num_buckets lh' = 2 * lh_num_buckets lh" "lh_num lh' = lh_num lh1"
        using r False nb l1 z m2 by (auto simp: lh_maybe_resize_def kMaxAverageChainLength_def lh_rebucket_def Let_def mult.commute)
      then show ?thesis using n1 by (simp add: lh_loaded_def)
    qed
  qed
qed

text \<open>The comment on \<open>kMaxAverageChainLength\<close> says that a table whose average chain is longer than two is resized; the
  quotient is rounded down, and a table with an average of almost three is left as it is.\<close>

lemma lh_maybe_resize_rounds_down:
  "lh_num lh = 47 \<Longrightarrow> lh_num_buckets lh = 16 \<Longrightarrow> lh_maybe_resize lh h = (lh, h)"
  by (simp add: lh_maybe_resize_def kMaxAverageChainLength_def kMinAverageChainLength_def kMinNumBuckets_def Let_def)

definition roomy_demo_heap :: heap where
  "roomy_demo_heap = demo_heap\<lparr>hp_ok := \<lambda>t n. True\<rparr>"

theorem lh_insert_load_bounded_witness:
  "\<exists>lh h1 ok old lh' h'. lh_new nat_hash nat_cmp roomy_demo_heap = (Some lh, h1) \<and> lh_insert lh 5 h1 = (ok, old, lh', h')
     \<and> lh_loaded lh'"
proof -
  obtain lh h1 where n: "lh_new nat_hash nat_cmp roomy_demo_heap = (Some lh, h1)" "roomy_heap h1"
      "lh_num_buckets lh = 16" "lh_num lh = 0" "lh_callback_depth lh = 0"
    by (simp add: lh_new_def mem_malloc_def c_malloc_def roomy_demo_heap_def demo_heap_def kMinNumBuckets_def roomy_heap_def)
  obtain ok old lh' h' where r: "lh_insert lh 5 h1 = (ok, old, lh', h')" by (metis prod_cases4)
  have "lh_loaded lh'"
    by (rule lh_insert_load_bounded [OF lh_new_inv(1) [OF nat_funs_ok n(1)] _ n(5,2) _ r])
      (simp_all add: n lh_loaded_def)
  then show ?thesis using n(1) r by blast
qed

end
