(* ===== verification/Ssl_LHash_Iter.thy ===== *)
theory Ssl_LHash_Iter
  imports Ssl_LHash
begin

text \<open>
  Iteration over the hash table of \<open>crypto/lhash/lhash.c\<close> with \<open>lh_doall\<close>.  The items of a table have
  distinct addresses, which every operation keeps.  A callback that leaves the table alone sees each
  element exactly once; a callback may delete the element it is called on, and the iteration that does
  so ends with the empty table.
\<close>

section \<open>Addresses\<close>

definition distinct_mset :: "'a multiset \<Rightarrow> bool" where
  "distinct_mset M \<longleftrightarrow> (\<forall>a \<in># M. count M a = 1)"

lemma distinct_mset_add [simp]: "distinct_mset (add_mset a M) \<longleftrightarrow> a \<notin># M \<and> distinct_mset M"
proof
  assume d: "distinct_mset (add_mset a M)"
  then have "a \<notin># M" by (auto simp: distinct_mset_def not_in_iff)
  moreover have "count M x = 1" if "x \<in># M" for x
    using d that calculation by (auto simp: distinct_mset_def split: if_splits dest: bspec [of _ _ x])
  ultimately show "a \<notin># M \<and> distinct_mset M" by (simp add: distinct_mset_def)
qed (auto simp: distinct_mset_def not_in_iff)

lemma distinct_mset_mset: "distinct_mset (mset xs) \<longleftrightarrow> distinct xs"
  by (induction xs) (auto simp: distinct_mset_def [of "{#}"])

definition addrs_ok :: "'d lhash_item multiset \<Rightarrow> nat \<Rightarrow> bool" where
  "addrs_ok M n \<longleftrightarrow> distinct_mset (image_mset it_addr M) \<and> (\<forall>it \<in># M. it_addr it < n)"

definition lh_addrs :: "'d lhash_st \<Rightarrow> heap \<Rightarrow> bool" where
  "lh_addrs lh h \<longleftrightarrow> addrs_ok (mset (concat (lh_buckets lh))) (hp_calls h)"

lemma addrs_ok_mono: "addrs_ok M n \<Longrightarrow> n \<le> m \<Longrightarrow> addrs_ok M m"
  by (fastforce simp: addrs_ok_def)

lemma addrs_ok_add: "addrs_ok M (it_addr it) \<Longrightarrow> addrs_ok (add_mset it M) (Suc (it_addr it))"
  by (auto simp: addrs_ok_def less_Suc_eq)

lemma hp_calls_free [simp]: "hp_calls (mem_free p h) = hp_calls h"
  by (simp add: mem_free_def c_free_def split: option.splits)

lemma hp_calls_malloc: "mem_malloc n h = (r, h') \<Longrightarrow> hp_calls h' = Suc (hp_calls h)"
  by (auto simp: mem_malloc_def c_malloc_def Let_def split: if_splits)

lemma hp_calls_resize: "lh_maybe_resize lh h = (lh', h') \<Longrightarrow> hp_calls h \<le> hp_calls h'"
  by (auto simp: lh_maybe_resize_def lh_rebucket_def Let_def split: if_splits prod.splits option.splits dest: hp_calls_malloc)

lemma resize_addrs:
  assumes "lh_inv lh" "lh_maybe_resize lh h = (lh', h')" "lh_addrs lh h"
  shows "lh_addrs lh' h'"
  using lh_maybe_resize_ok [OF assms(1,2)] hp_calls_resize [OF assms(2)] assms(3)
  by (auto simp: lh_addrs_def same_items_def intro: addrs_ok_mono)

lemma lh_insert_addrs:
  assumes "lh_inv lh" "lh_addrs lh h" "lh_insert lh d h = (ok, old, lh', h')"
  shows "lh_addrs lh' h'"
proof -
  obtain hash i pos where g: "get_next_ptr_and_hash lh d = (hash, i, pos)" by (metis prod_cases3)
  note lc = locate [OF assms(1) g]
  let ?b = "lh_buckets lh"
  consider "pos < length (?b ! i)" | "pos = length (?b ! i)" using lc(4) by blast
  then show ?thesis
  proof cases
    case 1
    let ?it = "?b ! i ! pos" and ?c = "(?b ! i)[pos := (?b ! i ! pos)\<lparr>it_data := d\<rparr>]"
    obtain M where M: "mset (?b ! i) = add_mset ?it M" using 1 by (meson multi_member_split nth_mem set_mset_mset in_multiset_in_set)
    have "mset ?c = add_mset (?it\<lparr>it_data := d\<rparr>) M" using 1 M by (simp add: mset_update)
    then have eq: "add_mset ?it (mset (concat (?b[i := ?c]))) = add_mset (?it\<lparr>it_data := d\<rparr>) (mset (concat ?b))"
      using mset_bucket_update [OF lc(2), of ?c] M by simp
    moreover obtain N where N: "mset (concat ?b) = add_mset ?it N"
      using lc(2) 1 by (metis multi_member_split in_multiset_in_set concat.simps set_concat UN_I nth_mem)
    ultimately have "mset (concat (?b[i := ?c])) = add_mset (?it\<lparr>it_data := d\<rparr>) N"
      by (simp add: add_mset_commute [of "?it\<lparr>it_data := d\<rparr>"])
    then have "lh_addrs (lh\<lparr>lh_buckets := ?b[i := ?c]\<rparr>) h"
      using assms(2) N by (auto simp: lh_addrs_def addrs_ok_def)
    then show ?thesis using assms(3) 1 by (auto simp: lh_insert_def g Let_def)
  next
    case 2
    define it where "it = \<lparr>it_addr = hp_calls h, it_data = d, it_hash = hash\<rparr>"
    define lh1 where "lh1 = lh\<lparr>lh_buckets := ?b[i := ?b ! i @ [it]], lh_num := szw (lh_num lh + 1)\<rparr>"
    obtain x h1 where m: "mem_malloc sizeof_LHASH_ITEM h = (x, h1)" by fastforce
    note raw = insert_raw_new(2) [OF assms(1) g 2, where a = "hp_calls h", folded it_def, folded lh1_def]
    have "mset (concat (lh_buckets lh1)) = add_mset it (mset (concat ?b))"
      using mset_bucket_update [OF lc(2), of "?b ! i @ [it]"] by (simp add: lh1_def)
    then have "lh_addrs lh1 h1" using addrs_ok_add [of _ it] assms(2) hp_calls_malloc [OF m] by (simp add: lh_addrs_def it_def)
    moreover have "lh_addrs lh h1" using assms(2) hp_calls_malloc [OF m] by (auto simp: lh_addrs_def intro: addrs_ok_mono)
    ultimately show ?thesis
      using assms(3) 2 m resize_addrs [OF raw, of h1 lh' h']
      by (auto simp: lh_insert_def g lh1_def it_def Let_def split: option.splits)
  qed
qed

lemma lh_delete_addrs:
  assumes "lh_inv lh" "lh_addrs lh h" "lh_delete lh d h = (old, lh', h')"
  shows "lh_addrs lh' h'"
proof -
  obtain hash i pos where g: "get_next_ptr_and_hash lh d = (hash, i, pos)" by (metis prod_cases3)
  note lc = locate [OF assms(1) g]
  let ?b = "lh_buckets lh" and ?c = "lh_buckets lh ! i"
  consider "pos < length ?c" | "pos = length ?c" using lc(4) by blast
  then show ?thesis
  proof cases
    case 1
    define lh1 where "lh1 = lh\<lparr>lh_buckets := ?b[i := take pos ?c @ drop (Suc pos) ?c],
        lh_num := szw (lh_num lh + (2 ^ 64 - 1))\<rparr>"
    note raw = delete_raw(2) [OF assms(1) g 1, folded lh1_def]
    have "mset (concat ?b) = add_mset (?c ! pos) (mset (concat (lh_buckets lh1)))"
      using mset_bucket_update [OF lc(2), of "take pos ?c @ drop (Suc pos) ?c"] mset_take_drop_Suc [OF 1]
      by (simp add: lh1_def)
    then have "lh_addrs lh1 (free_item (?c ! pos) h)"
      using assms(2) by (auto simp: lh_addrs_def addrs_ok_def free_item_def)
    then show ?thesis
      using assms(3) 1 resize_addrs [OF raw, of "free_item (?c ! pos) h" lh' h']
      by (auto simp: lh_delete_def g lh1_def Let_def)
  next
    case 2
    then show ?thesis using assms(2,3) by (simp add: lh_delete_def g)
  qed
qed

section \<open>Visiting\<close>

definition head_addr :: "'d lhash_item list \<Rightarrow> nat option" where
  "head_addr c = (case c of [] \<Rightarrow> None | it # _ \<Rightarrow> Some (it_addr it))"

lemma chain_at_append:
  "it_addr it \<notin> it_addr ` set pre \<Longrightarrow> chain_at (it_addr it) (pre @ it # c) = Some (it, head_addr c)"
  by (induction pre) (auto simp: head_addr_def split: list.splits)

lemma doall_chain_simps [simp]:
  "doall_chain func i None s = Some s"
  "doall_chain func i (Some a) s =
     (case chain_at a (lh_buckets (fst (snd s)) ! i) of None \<Rightarrow> None
      | Some it_next \<Rightarrow> doall_chain func i (snd it_next) (func (it_data (fst it_next)) s))"
  by (subst doall_chain.simps, simp)+

lemma doall_chain_reads:
  assumes "\<And>d w. func d (w, lh, h) = (g d w, lh, h)" "lh_buckets lh ! i = pre @ c" "distinct (map it_addr (pre @ c))"
  shows "doall_chain func i (head_addr c) (w, lh, h) = Some (fold (\<lambda>it. g (it_data it)) c w, lh, h)"
  using assms(2,3)
proof (induction c arbitrary: pre w)
  case (Cons it c)
  have "it_addr it \<notin> it_addr ` set pre" using Cons.prems(2) by auto
  then have "chain_at (it_addr it) (lh_buckets lh ! i) = Some (it, head_addr c)"
    using Cons.prems(1) by (simp add: chain_at_append)
  then show ?case using Cons.IH [of "pre @ [it]"] Cons.prems assms(1) by (simp add: head_addr_def [of "it # c"])
qed (simp add: head_addr_def)

lemma doall_buckets_reads:
  assumes "\<And>d w. func d (w, lh, h) = (g d w, lh, h)" "length (lh_buckets lh) = lh_num_buckets lh"
    and "distinct (map it_addr (concat (lh_buckets lh)))" "i \<le> lh_num_buckets lh"
  shows "doall_buckets func i (w, lh, h)
    = Some (fold (\<lambda>it. g (it_data it)) (concat (drop i (lh_buckets lh))) w, lh, h)"
  using assms(4)
proof (induction i arbitrary: w rule: inc_induct)
  case base
  show ?case by (subst doall_buckets.simps) (simp add: assms(2))
next
  case (step i)
  have d: "drop i (lh_buckets lh) = lh_buckets lh ! i # drop (Suc i) (lh_buckets lh)"
    using step.hyps assms(2) by (simp add: Cons_nth_drop_Suc)
  have "distinct (map it_addr (concat (take i (lh_buckets lh) @ drop i (lh_buckets lh))))" using assms(3) by simp
  then have "distinct (map it_addr ([] @ lh_buckets lh ! i))" unfolding d by simp
  from doall_chain_reads [where func = func and lh = lh and pre = "[]", OF assms(1) _ this]
  have "doall_chain func i (head_addr (lh_buckets lh ! i)) (w, lh, h)
      = Some (fold (\<lambda>it. g (it_data it)) (lh_buckets lh ! i) w, lh, h)" by simp
  then show ?case using step.IH step.hyps(2) d
    by (subst doall_buckets.simps) (simp add: head_addr_def [symmetric])
qed

lemma lh_addrs_distinct: "lh_addrs lh h \<Longrightarrow> distinct (map it_addr (concat (lh_buckets lh)))"
  unfolding lh_addrs_def addrs_ok_def mset_map [symmetric] distinct_mset_mset by blast

lemma lh_inv_depth [simp]: "lh_inv (lh\<lparr>lh_callback_depth := n\<rparr>) \<longleftrightarrow> lh_inv lh"
  by (simp add: lh_inv_def)

lemma lh_abs_depth [simp]: "lh_abs (lh\<lparr>lh_callback_depth := n\<rparr>) = lh_abs lh"
  by (simp add: lh_abs_def fun_eq_iff)

lemma lh_addrs_depth [simp]: "lh_addrs (lh\<lparr>lh_callback_depth := n\<rparr>) h \<longleftrightarrow> lh_addrs lh h"
  by (simp add: lh_addrs_def)

definition enter :: "'d lhash_st \<Rightarrow> 'd lhash_st" where
  "enter l = (if lh_callback_depth l < UINT_MAX then l\<lparr>lh_callback_depth := lh_callback_depth l + 1\<rparr> else l)"

definition leave :: "'d lhash_st \<Rightarrow> 'd lhash_st" where
  "leave l = (if lh_callback_depth l < UINT_MAX then l\<lparr>lh_callback_depth := lh_callback_depth l - 1\<rparr> else l)"

lemma enter_leave_simps [simp]:
  "lh_inv (enter l) = lh_inv l" "lh_inv (leave l) = lh_inv l" "lh_abs (enter l) = lh_abs l" "lh_abs (leave l) = lh_abs l"
  "lh_buckets (enter l) = lh_buckets l" "lh_buckets (leave l) = lh_buckets l" "lh_num_buckets (enter l) = lh_num_buckets l"
  "lh_addrs (enter l) h = lh_addrs l h" "0 < lh_callback_depth (enter l)"
  by (auto simp: enter_def leave_def UINT_MAX_def)

lemma lh_doall_run:
  assumes "doall_buckets func 0 (w, enter lh, h) = Some (w', l2, h2)" "lh_inv l2"
  shows "\<exists>lh' h'. lh_doall func (w, Some lh, h) = Some (w', Some lh', h') \<and> lh_inv lh' \<and> same_items (leave l2) lh'
    \<and> lh_abs lh' = lh_abs l2"
proof -
  obtain lh' h' where r: "lh_maybe_resize (leave l2) h2 = (lh', h')" by fastforce
  have ok: "lh_inv lh'" "same_items (leave l2) lh'" using lh_maybe_resize_ok [OF _ r] assms(2) by simp_all
  have "lh_doall func (w, Some lh, h) = Some (w', Some lh', h')"
    using assms(1) r by (simp add: lh_doall_def lh_doall_internal_def enter_def leave_def)
  then show ?thesis using ok same_items_abs [OF ok] by auto
qed

text \<open>C37. \<open>lh_doall\<close> with a callback that leaves the table alone returns, having called it on every
  element exactly once, and the table answers every lookup as before.\<close>

theorem lh_doall_visits_all:
  assumes "lh_inv lh" "lh_addrs lh h" "\<And>d w l h. func d (w, l, h) = (g d w, l, h)"
  shows "\<exists>ds lh' h'. lh_doall func (w, Some lh, h) = Some (fold g ds w, Some lh', h')
    \<and> mset ds = elems (lh_buckets lh) \<and> lh_inv lh' \<and> (\<forall>k. lh_retrieve lh' k = lh_retrieve lh k)"
proof -
  have "doall_buckets func 0 (w, enter lh, h)
      = Some (fold (\<lambda>it. g (it_data it)) (concat (lh_buckets lh)) w, enter lh, h)"
    using doall_buckets_reads [where func = func and i = 0 and g = g and lh = "enter lh", OF assms(3)]
      lh_addrs_distinct [OF assms(2)] assms(1) by (simp add: lh_inv_def)
  moreover have "fold (\<lambda>it. g (it_data it)) (concat (lh_buckets lh)) w = fold g (map it_data (concat (lh_buckets lh))) w"
    by (simp add: fold_map comp_def)
  ultimately obtain lh' h' where r: "lh_doall func (w, Some lh, h)
      = Some (fold g (map it_data (concat (lh_buckets lh))) w, Some lh', h')" "lh_inv lh'" "lh_abs lh' = lh_abs lh"
    using lh_doall_run [of func w lh h _ "enter lh" h] assms(1) by auto
  then show ?thesis
    by (intro exI [of _ "map it_data (concat (lh_buckets lh))"] exI [of _ lh'] exI [of _ h'])
      (simp add: elems_def lh_retrieve_abs assms(1))
qed

section \<open>Deleting while visiting\<close>

definition delete_cb :: "('d, 'd list) lh_callback" where
  "delete_cb d = (\<lambda>(w, lh, h). (d # w, snd (lh_delete lh d h)))"

lemma lh_delete_head:
  assumes "lh_inv lh" "0 < lh_callback_depth lh" "i < lh_num_buckets lh" "lh_buckets lh ! i = it # c"
  shows "\<exists>n. lh_delete lh (it_data it) h = (Some (it_data it),
    lh\<lparr>lh_buckets := (lh_buckets lh)[i := c], lh_num := n\<rparr>, free_item it h)"
proof -
  have p: "placed (lh_hash lh) (lh_buckets lh)" "length (lh_buckets lh) = lh_num_buckets lh"
    "lh_comp lh (it_data it) (it_data it) = 0" using assms(1) by (simp_all add: lh_inv_def lh_funs_ok_def)
  have "unat (lh_hash lh (it_data it)) mod lh_num_buckets lh = i"
    using placedD [OF p(1), of i it] assms(3,4) p(2) by simp
  then have "get_next_ptr_and_hash lh (it_data it) = (lh_hash lh (it_data it), i, 0)"
    using assms(4) p(3) by (simp add: get_next_ptr_and_hash_def)
  then show ?thesis using assms(2,4)
    by (intro exI [of _ "szw (lh_num lh + (2 ^ 64 - 1))"]) (simp add: lh_delete_def lh_maybe_resize_def Let_def)
qed

lemma doall_chain_deletes:
  assumes "lh_inv lh" "0 < lh_callback_depth lh" "lh_addrs lh h" "i < lh_num_buckets lh" "lh_buckets lh ! i = c"
  shows "\<exists>n h'. doall_chain delete_cb i (head_addr c) (w, lh, h)
      = Some (rev (map it_data c) @ w, lh\<lparr>lh_buckets := (lh_buckets lh)[i := []], lh_num := n\<rparr>, h')
    \<and> lh_inv (lh\<lparr>lh_buckets := (lh_buckets lh)[i := []], lh_num := n\<rparr>)
    \<and> lh_addrs (lh\<lparr>lh_buckets := (lh_buckets lh)[i := []], lh_num := n\<rparr>) h'"
  using assms
proof (induction c arbitrary: lh h w)
  case Nil
  then have "lh\<lparr>lh_buckets := (lh_buckets lh)[i := []], lh_num := lh_num lh\<rparr> = lh"
    by (simp add: list_update_same_conv lh_inv_def)
  then show ?case using Nil by (intro exI [of _ "lh_num lh"] exI [of _ h]) (simp add: head_addr_def)
next
  case (Cons it c)
  obtain n where d: "lh_delete lh (it_data it) h = (Some (it_data it),
      lh\<lparr>lh_buckets := (lh_buckets lh)[i := c], lh_num := n\<rparr>, free_item it h)"
    using lh_delete_head [OF Cons.prems(1,2,4,5)] by blast
  let ?l = "lh\<lparr>lh_buckets := (lh_buckets lh)[i := c], lh_num := n\<rparr>"
  have ch: "chain_at (it_addr it) (lh_buckets lh ! i) = Some (it, head_addr c)"
    using chain_at_append [of it "[]" c] Cons.prems(5) by simp
  have l: "i < length (lh_buckets lh)" using Cons.prems(1,4) by (simp add: lh_inv_def)
  from Cons.IH [of ?l "free_item it h" "it_data it # w"] lh_delete_ok(1) [OF Cons.prems(1) d]
    lh_delete_addrs [OF Cons.prems(1,3) d] Cons.prems(2,4) l ch d
  show ?case by (simp add: head_addr_def [of "it # c"] delete_cb_def)
qed

lemma doall_buckets_deletes:
  assumes "lh_inv lh" "0 < lh_callback_depth lh" "lh_addrs lh h" "i \<le> lh_num_buckets lh" "\<forall>j < i. lh_buckets lh ! j = []"
  shows "\<exists>w' l2 h'. doall_buckets delete_cb i (w, lh, h) = Some (w', l2, h') \<and> lh_inv l2
    \<and> mset w' = mset w + elems (lh_buckets lh) \<and> concat (lh_buckets l2) = []"
  using assms
proof (induction "lh_num_buckets lh - i" arbitrary: lh h w i)
  case 0
  then have "concat (lh_buckets lh) = []" by (auto simp: lh_inv_def in_set_conv_nth)
  then show ?case using 0 by (subst doall_buckets.simps) (auto simp: elems_def)
next
  case (Suc m)
  have i: "i < lh_num_buckets lh" using Suc.hyps(2) by simp
  then have l: "i < length (lh_buckets lh)" using Suc.prems(1) by (simp add: lh_inv_def)
  obtain n h1 where c: "doall_chain delete_cb i (head_addr (lh_buckets lh ! i)) (w, lh, h)
      = Some (rev (map it_data (lh_buckets lh ! i)) @ w, lh\<lparr>lh_buckets := (lh_buckets lh)[i := []], lh_num := n\<rparr>, h1)"
    "lh_inv (lh\<lparr>lh_buckets := (lh_buckets lh)[i := []], lh_num := n\<rparr>)"
    "lh_addrs (lh\<lparr>lh_buckets := (lh_buckets lh)[i := []], lh_num := n\<rparr>) h1"
    using doall_chain_deletes [OF Suc.prems(1-3) i refl, of w] by blast
  let ?l = "lh\<lparr>lh_buckets := (lh_buckets lh)[i := []], lh_num := n\<rparr>"
  have e: "mset (map it_data (lh_buckets lh ! i)) + elems (lh_buckets ?l) = elems (lh_buckets lh)"
    using elems_bucket_update [OF l, of "[]"] by (simp add: add.commute)
  have ni: "\<forall>j < Suc i. lh_buckets ?l ! j = []" using Suc.prems(5) l by (auto simp: less_Suc_eq)
  have "\<exists>w' l2 h'. doall_buckets delete_cb (Suc i) (rev (map it_data (lh_buckets lh ! i)) @ w, ?l, h1) = Some (w', l2, h')
      \<and> lh_inv l2 \<and> mset w' = mset (rev (map it_data (lh_buckets lh ! i)) @ w) + elems (lh_buckets ?l)
      \<and> concat (lh_buckets l2) = []"
    by (rule Suc.hyps(1) [OF _ c(2) _ c(3) _ ni]) (use Suc.hyps(2) Suc.prems(2) i in auto)
  then obtain w' l2 h' where r: "doall_buckets delete_cb (Suc i) (rev (map it_data (lh_buckets lh ! i)) @ w, ?l, h1) = Some (w', l2, h')"
    "lh_inv l2" "mset w' = mset (rev (map it_data (lh_buckets lh ! i)) @ w) + elems (lh_buckets ?l)" "concat (lh_buckets l2) = []"
    by blast
  have "doall_buckets delete_cb i (w, lh, h) = Some (w', l2, h')"
    using i c(1) r(1) by (subst doall_buckets.simps) (simp add: head_addr_def [symmetric])
  moreover have "mset w' = mset w + elems (lh_buckets lh)" using r(3) e by (simp add: ac_simps)
  ultimately show ?case using r(2,4) by blast
qed

text \<open>C36. A callback may delete the element it is called on: \<open>lh_doall\<close> with such a callback never reads a
  freed item, returns, has visited every element exactly once, and leaves a valid table with no
  elements.\<close>

theorem lh_doall_delete_all:
  assumes "lh_inv lh" "lh_addrs lh h"
  shows "\<exists>w' lh' h'. lh_doall delete_cb ([], Some lh, h) = Some (w', Some lh', h') \<and> mset w' = elems (lh_buckets lh)
    \<and> lh_inv lh' \<and> lh_num_items lh' = 0 \<and> (\<forall>k. lh_retrieve lh' k = None)"
proof -
  obtain w' l2 h2 where r: "doall_buckets delete_cb 0 ([], enter lh, h) = Some (w', l2, h2)" "lh_inv l2"
    "mset w' = elems (lh_buckets lh)" "concat (lh_buckets l2) = []"
    using doall_buckets_deletes [of "enter lh" h 0 "[]"] assms by (auto simp del: concat_eq_Nil_conv)
  obtain lh' h' where d: "lh_doall delete_cb ([], Some lh, h) = Some (w', Some lh', h')" "lh_inv lh'"
      "lh_abs lh' = lh_abs l2" "same_items (leave l2) lh'"
    using lh_doall_run [OF r(1,2)] by blast
  have "concat (lh_buckets lh') = []" using d(4) r(4) by (simp add: same_items_def del: concat_eq_Nil_conv)
  then have "lh_num lh' = 0" using d(2) by (simp add: lh_inv_def szw_def del: concat_eq_Nil_conv)
  moreover have "lh_abs l2 k = None" for k using r(4) by (simp add: lh_abs_def del: concat_eq_Nil_conv)
  ultimately show ?thesis using d r(3) by (auto simp: lh_num_items_def lh_retrieve_abs)
qed

section \<open>An example table\<close>

lemma demo_filled:
  "\<exists>lh h1 lh' h'. lh_new nat_hash nat_cmp roomy_demo_heap = (Some lh, h1) \<and> lh_insert lh 5 h1 = (True, None, lh', h')
     \<and> lh_inv lh' \<and> lh_addrs lh' h' \<and> elems (lh_buckets lh') = {#5#}"
proof -
  obtain lh h1 where n: "lh_new nat_hash nat_cmp roomy_demo_heap = (Some lh, h1)" "roomy_heap h1"
      "lh_buckets lh = replicate 16 []" "lh_num_buckets lh = 16"
    by (simp add: lh_new_def mem_malloc_def c_malloc_def roomy_demo_heap_def demo_heap_def kMinNumBuckets_def roomy_heap_def)
  have i: "lh_inv lh" using lh_new_inv(1) [OF nat_funs_ok n(1)] .
  have a: "lh_addrs lh h1" by (simp add: n(3) lh_addrs_def addrs_ok_def distinct_mset_def)
  have e: "elems (lh_buckets lh) = {#}" by (simp add: n(3) elems_def)
  obtain ok old lh' h' where r: "lh_insert lh 5 h1 = (ok, old, lh', h')" by (metis prod_cases4)
  obtain c h2 where "mem_malloc sizeof_LHASH_ITEM h1 = (Some c, h2)"
    using roomy_malloc [OF n(2), of sizeof_LHASH_ITEM] by (auto simp: sizeof_LHASH_ITEM_def)
  then have ok using r n(3,4) by (auto simp: lh_insert_def get_next_ptr_and_hash_def Let_def)
  have "lh_abs lh 5 = None" using lh_new_inv(2) [OF nat_funs_ok n(1)] by simp
  then show ?thesis
    using n(1) r \<open>ok\<close> lh_insert_ok(1,4) [OF i r] lh_insert_addrs [OF i a r] e
    by (intro exI [of _ lh] exI [of _ h1] exI [of _ lh'] exI [of _ h']) (auto simp: opt_mset_def)
qed

theorem lh_doall_visits_all_witness:
  "\<exists>lh h1 lh1 h2 lh' h'. lh_new nat_hash nat_cmp roomy_demo_heap = (Some lh, h1) \<and> lh_insert lh 5 h1 = (True, None, lh1, h2)
     \<and> lh_doall (\<lambda>d (w, l, h). (w + d, l, h)) (2, Some lh1, h2) = Some (7, Some lh', h')"
proof -
  obtain lh h1 lh1 h2 where d: "lh_new nat_hash nat_cmp roomy_demo_heap = (Some lh, h1)" "lh_insert lh 5 h1 = (True, None, lh1, h2)"
    "lh_inv lh1" "lh_addrs lh1 h2" "elems (lh_buckets lh1) = {#5#}" using demo_filled by blast
  obtain ds lh' h' where r: "lh_doall (\<lambda>d (w, l, h). (w + d, l, h)) (2, Some lh1, h2) = Some (fold (\<lambda>d w. w + d) ds 2, Some lh', h')"
    "mset ds = {#5#}"
    using lh_doall_visits_all [OF d(3,4), where func = "\<lambda>d (w, l, h). (w + d, l, h)" and g = "\<lambda>d w. w + d" and w = 2] d(5) by auto
  then have "ds = [5]" by simp
  then show ?thesis using d(1,2) r(1) by auto
qed

theorem lh_doall_delete_all_witness:
  "\<exists>lh h1 lh1 h2 lh' h'. lh_new nat_hash nat_cmp roomy_demo_heap = (Some lh, h1) \<and> lh_insert lh 5 h1 = (True, None, lh1, h2)
     \<and> lh_doall delete_cb ([], Some lh1, h2) = Some ([5], Some lh', h') \<and> lh_num_items lh' = 0"
proof -
  obtain lh h1 lh1 h2 where d: "lh_new nat_hash nat_cmp roomy_demo_heap = (Some lh, h1)" "lh_insert lh 5 h1 = (True, None, lh1, h2)"
    "lh_inv lh1" "lh_addrs lh1 h2" "elems (lh_buckets lh1) = {#5#}" using demo_filled by blast
  then show ?thesis using lh_doall_delete_all [OF d(3,4)] by auto
qed

end
