(* ===== verification/Bio_Base.thy ===== *)
theory Bio_Base
  imports Buf
begin

text \<open>
  The object \<open>BIO\<close> of \<open>bio.h\<close> and the part of \<open>crypto/bio/bio.c\<close> that the methods build on.  Objects live in a
  store and refer to each other by address, as the two halves of a pair do; an address is the number of the
  allocation that made the object.  A computation \<open>'a io\<close> on the store has no result when the C code would
  access a missing object or a pointer of the wrong kind, or abort.
\<close>

section \<open>Objects\<close>

type_synonym addr = nat

text \<open>\<open>struct bio_bio_st\<close> of \<open>pair.c\<close>: the ring buffer that holds what this half writes.\<close>

record bio_bio_st =
  bp_peer :: "addr option"
  bp_closed :: bool
  bp_len :: nat
  bp_offset :: nat
  bp_size :: nat
  bp_buf :: "u8 list option"
  bp_request :: nat

text \<open>What \<open>bio->ptr\<close> points to: the state of a pair, or a \<open>BUF_MEM\<close>; a read-only one keeps its whole block
  and the offset its data pointer has been advanced to.\<close>

datatype bio_ptr = Ptr_null | Ptr_pair bio_bio_st | Ptr_mem BUF_MEM | Ptr_rdonly "u8 list" nat

text \<open>The method tables of the two kinds of \<open>BIO\<close> modelled, \<open>mem_method\<close> and \<open>methods_biop\<close>.\<close>

datatype bio_method = mem_method | methods_biop

record bio_st =
  bi_method :: bio_method
  bi_init :: bool
  bi_shutdown :: int
  bi_flags :: u32
  bi_retry_reason :: int
  bi_num :: int
  bi_references :: nat
  bi_ptr :: bio_ptr
  bi_next_bio :: "addr option"
  bi_num_read :: nat
  bi_num_write :: nat

record bio_world =
  bw_bios :: "addr \<Rightarrow> bio_st option"
  bw_heap :: heap

section \<open>Computations\<close>

type_synonym 'a io = "bio_world \<Rightarrow> ('a \<times> bio_world) option"

definition io_return :: "'a \<Rightarrow> 'a io" where
  "io_return x w = Some (x, w)"

definition io_undefined :: "'a io" where
  "io_undefined w = None"

definition io_bind :: "'a io \<Rightarrow> ('a \<Rightarrow> 'b io) \<Rightarrow> 'b io" where
  "io_bind m f w = (case m w of None \<Rightarrow> None | Some (x, w') \<Rightarrow> f x w')"

definition get_bio :: "addr \<Rightarrow> bio_st io" where
  "get_bio p w = (case bw_bios w p of None \<Rightarrow> None | Some b \<Rightarrow> Some (b, w))"

definition put_bio :: "addr \<Rightarrow> bio_st \<Rightarrow> unit io" where
  "put_bio p b w = (case bw_bios w p of None \<Rightarrow> None | Some _ \<Rightarrow> Some ((), w\<lparr>bw_bios := (bw_bios w)(p \<mapsto> b)\<rparr>))"

definition modify_bio :: "addr \<Rightarrow> (bio_st \<Rightarrow> bio_st) \<Rightarrow> unit io" where
  "modify_bio p f = io_bind (get_bio p) (\<lambda>b. put_bio p (f b))"

definition io_malloc :: "nat \<Rightarrow> u8 list option io" where
  "io_malloc n w = (case mem_malloc n (bw_heap w) of (r, h) \<Rightarrow> Some (r, w\<lparr>bw_heap := h\<rparr>))"

definition io_free :: "u8 list option \<Rightarrow> unit io" where
  "io_free p w = Some ((), w\<lparr>bw_heap := mem_free p (bw_heap w)\<rparr>)"

lemma io_bind_Some [simp]: "m w = Some (x, w') \<Longrightarrow> io_bind m f w = f x w'"
  by (simp add: io_bind_def)

lemma io_bind_None [simp]: "m w = None \<Longrightarrow> io_bind m f w = None"
  by (simp add: io_bind_def)

lemma io_return_apply [simp]: "io_return x w = Some (x, w)"
  by (simp add: io_return_def)

lemma io_bind_return [simp]: "io_bind (io_return x) f = f x"
  by (rule ext) (simp add: io_bind_def io_return_def)

lemma io_undefined_apply [simp]: "io_undefined w = None"
  by (simp add: io_undefined_def)

lemma get_bio_Some [simp]: "bw_bios w p = Some b \<Longrightarrow> get_bio p w = Some (b, w)"
  by (simp add: get_bio_def)

lemma put_bio_Some [simp]: "bw_bios w p = Some b \<Longrightarrow> put_bio p b' w = Some ((), w\<lparr>bw_bios := (bw_bios w)(p \<mapsto> b')\<rparr>)"
  by (simp add: put_bio_def)

lemma modify_bio_Some [simp]:
  "bw_bios w p = Some b \<Longrightarrow> modify_bio p f w = Some ((), w\<lparr>bw_bios := (bw_bios w)(p \<mapsto> f b)\<rparr>)"
  by (simp add: modify_bio_def)

lemma io_bind_eq_Some: "io_bind m f w = Some r \<longleftrightarrow> (\<exists>x w'. m w = Some (x, w') \<and> f x w' = Some r)"
  by (auto simp: io_bind_def split: option.splits)

section \<open>Flags\<close>

definition BIO_FLAGS_READ :: u32 where
  "BIO_FLAGS_READ = 0x01"

definition BIO_FLAGS_WRITE :: u32 where
  "BIO_FLAGS_WRITE = 0x02"

definition BIO_FLAGS_IO_SPECIAL :: u32 where
  "BIO_FLAGS_IO_SPECIAL = 0x04"

definition BIO_FLAGS_RWS :: u32 where
  "BIO_FLAGS_RWS = BIO_FLAGS_READ OR BIO_FLAGS_WRITE OR BIO_FLAGS_IO_SPECIAL"

definition BIO_FLAGS_SHOULD_RETRY :: u32 where
  "BIO_FLAGS_SHOULD_RETRY = 0x08"

definition kRetryFlags :: u32 where
  "kRetryFlags = BIO_FLAGS_RWS OR BIO_FLAGS_SHOULD_RETRY"

definition BIO_set_flags :: "addr \<Rightarrow> u32 \<Rightarrow> unit io" where
  "BIO_set_flags bio flags = modify_bio bio (\<lambda>b. b\<lparr>bi_flags := bi_flags b OR flags\<rparr>)"

definition BIO_test_flags :: "addr \<Rightarrow> u32 \<Rightarrow> u32 io" where
  "BIO_test_flags bio flags = io_bind (get_bio bio) (\<lambda>b. io_return (bi_flags b AND flags))"

definition BIO_should_read :: "addr \<Rightarrow> u32 io" where
  "BIO_should_read bio = BIO_test_flags bio BIO_FLAGS_READ"

definition BIO_should_write :: "addr \<Rightarrow> u32 io" where
  "BIO_should_write bio = BIO_test_flags bio BIO_FLAGS_WRITE"

definition BIO_should_retry :: "addr \<Rightarrow> u32 io" where
  "BIO_should_retry bio = BIO_test_flags bio BIO_FLAGS_SHOULD_RETRY"

definition BIO_should_io_special :: "addr \<Rightarrow> u32 io" where
  "BIO_should_io_special bio = BIO_test_flags bio BIO_FLAGS_IO_SPECIAL"

definition BIO_get_retry_reason :: "addr \<Rightarrow> int io" where
  "BIO_get_retry_reason bio = io_bind (get_bio bio) (\<lambda>b. io_return (bi_retry_reason b))"

definition BIO_clear_flags :: "addr \<Rightarrow> u32 \<Rightarrow> unit io" where
  "BIO_clear_flags bio flags = modify_bio bio (\<lambda>b. b\<lparr>bi_flags := bi_flags b AND NOT flags\<rparr>)"

definition BIO_set_retry_read :: "addr \<Rightarrow> unit io" where
  "BIO_set_retry_read bio = modify_bio bio (\<lambda>b. b\<lparr>bi_flags := bi_flags b OR (BIO_FLAGS_READ OR BIO_FLAGS_SHOULD_RETRY)\<rparr>)"

definition BIO_set_retry_write :: "addr \<Rightarrow> unit io" where
  "BIO_set_retry_write bio = modify_bio bio (\<lambda>b. b\<lparr>bi_flags := bi_flags b OR (BIO_FLAGS_WRITE OR BIO_FLAGS_SHOULD_RETRY)\<rparr>)"

definition BIO_set_retry_special :: "addr \<Rightarrow> unit io" where
  "BIO_set_retry_special bio = modify_bio bio (\<lambda>b. b\<lparr>bi_flags := bi_flags b OR (BIO_FLAGS_READ OR BIO_FLAGS_IO_SPECIAL)\<rparr>)"

definition BIO_get_retry_flags :: "addr \<Rightarrow> u32 io" where
  "BIO_get_retry_flags bio = io_bind (get_bio bio) (\<lambda>b. io_return (bi_flags b AND kRetryFlags))"

definition BIO_clear_retry_flags :: "addr \<Rightarrow> unit io" where
  "BIO_clear_retry_flags bio =
     modify_bio bio (\<lambda>b. b\<lparr>bi_flags := bi_flags b AND NOT kRetryFlags, bi_retry_reason := 0\<rparr>)"

definition BIO_copy_next_retry :: "addr \<Rightarrow> unit io" where
  "BIO_copy_next_retry bio =
     io_bind (BIO_clear_retry_flags bio) (\<lambda>_.
     io_bind (get_bio bio) (\<lambda>b.
       case bi_next_bio b of
         None \<Rightarrow> io_undefined
       | Some next_bio \<Rightarrow>
           io_bind (BIO_get_retry_flags next_bio) (\<lambda>flags.
           io_bind (BIO_set_flags bio flags) (\<lambda>_.
           io_bind (get_bio next_bio) (\<lambda>n.
             modify_bio bio (\<lambda>b. b\<lparr>bi_retry_reason := bi_retry_reason n\<rparr>))))))"

section \<open>Control commands\<close>

definition BIO_CTRL_RESET :: int where
  "BIO_CTRL_RESET = 1"

definition BIO_CTRL_EOF :: int where
  "BIO_CTRL_EOF = 2"

definition BIO_CTRL_INFO :: int where
  "BIO_CTRL_INFO = 3"

definition BIO_CTRL_GET_CLOSE :: int where
  "BIO_CTRL_GET_CLOSE = 8"

definition BIO_CTRL_SET_CLOSE :: int where
  "BIO_CTRL_SET_CLOSE = 9"

definition BIO_CTRL_PENDING :: int where
  "BIO_CTRL_PENDING = 10"

definition BIO_CTRL_FLUSH :: int where
  "BIO_CTRL_FLUSH = 11"

definition BIO_CTRL_WPENDING :: int where
  "BIO_CTRL_WPENDING = 13"

definition BIO_C_SET_BUF_MEM_EOF_RETURN :: int where
  "BIO_C_SET_BUF_MEM_EOF_RETURN = 130"

definition BIO_C_GET_WRITE_BUF_SIZE :: int where
  "BIO_C_GET_WRITE_BUF_SIZE = 137"

definition BIO_C_GET_WRITE_GUARANTEE :: int where
  "BIO_C_GET_WRITE_GUARANTEE = 140"

definition BIO_C_GET_READ_REQUEST :: int where
  "BIO_C_GET_READ_REQUEST = 141"

definition BIO_C_SHUTDOWN_WR :: int where
  "BIO_C_SHUTDOWN_WR = 142"

definition BIO_C_RESET_READ_REQUEST :: int where
  "BIO_C_RESET_READ_REQUEST = 147"

lemmas bio_cmd_defs = BIO_CTRL_RESET_def BIO_CTRL_EOF_def BIO_CTRL_INFO_def BIO_CTRL_GET_CLOSE_def BIO_CTRL_SET_CLOSE_def
  BIO_CTRL_PENDING_def BIO_CTRL_FLUSH_def BIO_CTRL_WPENDING_def BIO_C_SET_BUF_MEM_EOF_RETURN_def
  BIO_C_GET_WRITE_BUF_SIZE_def BIO_C_GET_WRITE_GUARANTEE_def BIO_C_GET_READ_REQUEST_def BIO_C_SHUTDOWN_WR_def
  BIO_C_RESET_READ_REQUEST_def

end
