(* ===== verification/Bio_Pair.thy ===== *)
theory Bio_Pair
  imports Bio_Base
begin

text \<open>
  \<open>crypto/bio/pair.c\<close>: two connected \<open>BIO\<close> objects.  Each half owns the ring buffer it writes to and reads from the
  ring buffer of its peer.  This theory has the functions of the file that work on the objects; the ones that go through
  the method table are in \<open>Bio\<close>.
\<close>

section \<open>Creating and destroying\<close>

text \<open>The state of a pair that \<open>bio->ptr\<close> points to.\<close>

definition pair_of :: "addr \<Rightarrow> bio_bio_st io" where
  "pair_of bio = io_bind (get_bio bio) (\<lambda>b. case bi_ptr b of Ptr_pair p \<Rightarrow> io_return p | _ \<Rightarrow> io_undefined)"

definition set_pair :: "addr \<Rightarrow> bio_bio_st \<Rightarrow> unit io" where
  "set_pair bio p = modify_bio bio (\<lambda>b. b\<lparr>bi_ptr := Ptr_pair p\<rparr>)"

definition bio_new :: "addr \<Rightarrow> bool io" where
  "bio_new bio =
     io_bind (io_malloc 56) (\<lambda>b.
       if b = None then io_return False
       else io_bind (set_pair bio \<lparr>bp_peer = None, bp_closed = False, bp_len = 0, bp_offset = 0, bp_size = 17 * 1024,
                                   bp_buf = None, bp_request = 0\<rparr>) (\<lambda>_. io_return True))"

definition bio_destroy_pair :: "addr \<Rightarrow> unit io" where
  "bio_destroy_pair bio =
     io_bind (get_bio bio) (\<lambda>o1.
       if bi_ptr o1 = Ptr_null then io_return ()
       else io_bind (pair_of bio) (\<lambda>b.
         case bp_peer b of
           None \<Rightarrow> io_return ()
         | Some peer_bio \<Rightarrow>
             io_bind (pair_of peer_bio) (\<lambda>peer_b.
             io_bind (set_pair peer_bio (peer_b\<lparr>bp_peer := None\<rparr>)) (\<lambda>_.
             io_bind (modify_bio peer_bio (\<lambda>o2. o2\<lparr>bi_init := False\<rparr>)) (\<lambda>_.
             io_bind (set_pair peer_bio (peer_b\<lparr>bp_peer := None, bp_len := 0, bp_offset := 0\<rparr>)) (\<lambda>_.
             io_bind (modify_bio bio (\<lambda>o2. o2\<lparr>bi_init := False\<rparr>)) (\<lambda>_.
               set_pair bio (b\<lparr>bp_peer := None, bp_len := 0, bp_offset := 0\<rparr>))))))))"

definition bio_free :: "addr \<Rightarrow> bool io" where
  "bio_free bio =
     io_bind (pair_of bio) (\<lambda>b.
     io_bind (if bp_peer b \<noteq> None then bio_destroy_pair bio else io_return ()) (\<lambda>_.
     io_bind (io_free (bp_buf b)) (\<lambda>_.
     io_bind (io_free (Some (replicate 56 0))) (\<lambda>_. io_return True))))"

section \<open>The ring buffer\<close>

definition bp_bytes :: "bio_bio_st \<Rightarrow> u8 list" where
  "bp_bytes b = (case bp_buf b of None \<Rightarrow> [] | Some d \<Rightarrow> d)"

text \<open>The loops of \<open>bio_read\<close> and \<open>bio_write\<close>; the first argument is the number of iterations that may follow,
  and the callers allow the two that the C code announces.\<close>

primrec ring_read :: "nat \<Rightarrow> bio_bio_st \<Rightarrow> nat \<Rightarrow> (u8 list \<times> bio_bio_st) option" where
  "ring_read 0 b rest = None"
| "ring_read (Suc n) b rest =
     (let chunk = (if szw (bp_offset b + rest) \<le> bp_size b then rest else bp_size b - bp_offset b);
          out = take chunk (drop (bp_offset b) (bp_bytes b));
          b' = (if bp_len b - chunk \<noteq> 0
                then b\<lparr>bp_len := bp_len b - chunk,
                       bp_offset := (if bp_offset b + chunk = bp_size b then 0 else bp_offset b + chunk)\<rparr>
                else b\<lparr>bp_len := 0, bp_offset := 0\<rparr>) in
      if rest - chunk \<noteq> 0
      then map_option (\<lambda>(out', b''). (out @ out', b'')) (ring_read n b' (rest - chunk))
      else Some (out, b'))"

primrec ring_write :: "nat \<Rightarrow> bio_bio_st \<Rightarrow> u8 list \<Rightarrow> bio_bio_st option" where
  "ring_write 0 b data = None"
| "ring_write (Suc n) b data =
     (let rest = length data;
          write_offset = szw (bp_offset b + bp_len b);
          write_offset = (if write_offset \<ge> bp_size b then write_offset - bp_size b else write_offset);
          chunk = (if szw (write_offset + rest) \<le> bp_size b then rest else bp_size b - write_offset);
          b' = b\<lparr>bp_buf := map_option (\<lambda>d. memcpy_at d write_offset (take chunk data)) (bp_buf b),
                 bp_len := bp_len b + chunk\<rparr> in
      if rest - chunk \<noteq> 0 then ring_write n b' (drop chunk data) else Some b')"

text \<open>The conversion of an \<open>int\<close> argument to \<open>size_t\<close>.\<close>

definition size_of_int :: "int \<Rightarrow> nat" where
  "size_of_int i = nat (i mod 2 ^ 64)"

section \<open>Reading and writing\<close>

text \<open>The result of a read is the return value and the bytes stored at \<open>buf\<close>.\<close>

definition bio_read :: "addr \<Rightarrow> bool \<Rightarrow> int \<Rightarrow> (int \<times> u8 list) io" where
  "bio_read bio buf_null sz0 =
     io_bind (BIO_clear_retry_flags bio) (\<lambda>_.
     io_bind (get_bio bio) (\<lambda>o1.
       if \<not> bi_init o1 then io_return (0, [])
       else io_bind (pair_of bio) (\<lambda>b.
         case bp_peer b of
           None \<Rightarrow> io_undefined
         | Some peer \<Rightarrow>
             io_bind (pair_of peer) (\<lambda>peer_b0.
               let peer_b = peer_b0\<lparr>bp_request := 0\<rparr>; sz = size_of_int sz0 in
               io_bind (set_pair peer peer_b) (\<lambda>_.
                 if buf_null \<or> sz = 0 then io_return (0, [])
                 else if bp_len peer_b = 0 then
                   if bp_closed peer_b then io_return (0, [])
                   else io_bind (BIO_set_retry_read bio) (\<lambda>_.
                        io_bind (set_pair peer (peer_b\<lparr>bp_request := (if sz \<le> bp_size peer_b then sz else bp_size peer_b)\<rparr>))
                          (\<lambda>_. io_return (- 1, [])))
                 else let sz = (if bp_len peer_b < sz then bp_len peer_b else sz) in
                   (case ring_read 2 peer_b sz of
                      None \<Rightarrow> io_undefined
                    | Some (out, peer_b') \<Rightarrow> io_bind (set_pair peer peer_b') (\<lambda>_. io_return (int sz, out))))))))"

definition bio_write :: "addr \<Rightarrow> u8 list option \<Rightarrow> int \<Rightarrow> int io" where
  "bio_write bio buf num0 =
     io_bind (BIO_clear_retry_flags bio) (\<lambda>_.
     io_bind (get_bio bio) (\<lambda>o1.
       if \<not> bi_init o1 \<or> buf = None \<or> size_of_int num0 = 0 then io_return 0
       else io_bind (pair_of bio) (\<lambda>b0.
         let b = b0\<lparr>bp_request := 0\<rparr>; num = size_of_int num0 in
         io_bind (set_pair bio b) (\<lambda>_.
           if bp_closed b then io_return (- 1)
           else if bp_len b = bp_size b then io_bind (BIO_set_retry_write bio) (\<lambda>_. io_return (- 1))
           else let num = (if num > bp_size b - bp_len b then bp_size b - bp_len b else num) in
             (case ring_write 2 b (take num (the buf)) of
                None \<Rightarrow> io_undefined
              | Some b' \<Rightarrow> io_bind (set_pair bio b') (\<lambda>_. io_return (int num)))))))"

section \<open>Connecting and control\<close>

text \<open>The buffer of one half; the same statements for \<open>b1\<close> and \<open>b2\<close>.\<close>

definition make_buf :: "addr \<Rightarrow> nat \<Rightarrow> bool io" where
  "make_buf bio writebuf_len =
     io_bind (pair_of bio) (\<lambda>b.
       if bp_buf b \<noteq> None then io_return True
       else let b = (if writebuf_len \<noteq> 0 then b\<lparr>bp_size := writebuf_len\<rparr> else b) in
         io_bind (io_malloc (bp_size b)) (\<lambda>buf.
           if buf = None then io_bind (set_pair bio b) (\<lambda>_. io_return False)
           else io_bind (set_pair bio (b\<lparr>bp_buf := buf, bp_len := 0, bp_offset := 0\<rparr>)) (\<lambda>_. io_return True)))"

definition connect_half :: "addr \<Rightarrow> addr \<Rightarrow> unit io" where
  "connect_half bio peer =
     io_bind (pair_of bio) (\<lambda>b. set_pair bio (b\<lparr>bp_peer := Some peer, bp_closed := False, bp_request := 0\<rparr>))"

definition bio_make_pair :: "addr \<Rightarrow> addr \<Rightarrow> nat \<Rightarrow> nat \<Rightarrow> bool io" where
  "bio_make_pair bio1 bio2 writebuf1_len writebuf2_len =
     io_bind (pair_of bio1) (\<lambda>b1.
     io_bind (pair_of bio2) (\<lambda>b2.
       if bp_peer b1 \<noteq> None \<or> bp_peer b2 \<noteq> None then io_return False
       else io_bind (make_buf bio1 writebuf1_len) (\<lambda>ok1.
         if \<not> ok1 then io_return False
         else io_bind (make_buf bio2 writebuf2_len) (\<lambda>ok2.
           if \<not> ok2 then io_return False
           else io_bind (connect_half bio1 bio2) (\<lambda>_.
                io_bind (connect_half bio2 bio1) (\<lambda>_.
                io_bind (modify_bio bio1 (\<lambda>b. b\<lparr>bi_init := True\<rparr>)) (\<lambda>_.
                io_bind (modify_bio bio2 (\<lambda>b. b\<lparr>bi_init := True\<rparr>)) (\<lambda>_. io_return True))))))))"

definition bio_ctrl :: "addr \<Rightarrow> int \<Rightarrow> int \<Rightarrow> addr option \<Rightarrow> int io" where
  "bio_ctrl bio cmd num ptr =
     io_bind (get_bio bio) (\<lambda>o1.
     io_bind (pair_of bio) (\<lambda>b.
       if cmd = BIO_C_GET_WRITE_BUF_SIZE then io_return (int (bp_size b))
       else if cmd = BIO_C_GET_WRITE_GUARANTEE then
         io_return (if bp_peer b = None \<or> bp_closed b then 0 else int (bp_size b) - int (bp_len b))
       else if cmd = BIO_C_GET_READ_REQUEST then io_return (int (bp_request b))
       else if cmd = BIO_C_RESET_READ_REQUEST then io_bind (set_pair bio (b\<lparr>bp_request := 0\<rparr>)) (\<lambda>_. io_return 1)
       else if cmd = BIO_C_SHUTDOWN_WR then io_bind (set_pair bio (b\<lparr>bp_closed := True\<rparr>)) (\<lambda>_. io_return 1)
       else if cmd = BIO_CTRL_GET_CLOSE then io_return (bi_shutdown o1)
       else if cmd = BIO_CTRL_SET_CLOSE then io_bind (modify_bio bio (\<lambda>b. b\<lparr>bi_shutdown := num\<rparr>)) (\<lambda>_. io_return 1)
       else if cmd = BIO_CTRL_PENDING then
         (case bp_peer b of
            None \<Rightarrow> io_return 0
          | Some peer \<Rightarrow> io_bind (pair_of peer) (\<lambda>peer_b. io_return (int (bp_len peer_b))))
       else if cmd = BIO_CTRL_WPENDING then io_return (if bp_buf b \<noteq> None then int (bp_len b) else 0)
       else if cmd = BIO_CTRL_FLUSH then io_return 1
       else if cmd = BIO_CTRL_EOF then
         (case ptr of
            None \<Rightarrow> io_return 1
          | Some other_bio \<Rightarrow>
              io_bind (pair_of other_bio) (\<lambda>other_b. io_return (if bp_len other_b = 0 \<and> bp_closed other_b then 1 else 0)))
       else io_return 0))"

end
