(* ===== verification/Bio_Mem.thy ===== *)
theory Bio_Mem
  imports Bio_Base
begin

text \<open>
  \<open>crypto/bio/bio_mem.c\<close>: a \<open>BIO\<close> on a \<open>BUF_MEM\<close> that grows as it is written and shrinks as it is read, or on a
  caller's constant bytes, over which the data pointer is advanced.
\<close>

definition BIO_FLAGS_MEM_RDONLY :: u32 where
  "BIO_FLAGS_MEM_RDONLY = 0x200"

definition INT_MAX :: int where
  "INT_MAX = 2 ^ 31 - 1"

section \<open>Creating and destroying\<close>

definition mem_new :: "addr \<Rightarrow> bool io" where
  "mem_new bio w =
     (case BUF_MEM_new (bw_heap w) of
        (None, h) \<Rightarrow> Some (False, w\<lparr>bw_heap := h\<rparr>)
      | (Some b, h) \<Rightarrow>
          io_bind (modify_bio bio (\<lambda>o1. o1\<lparr>bi_shutdown := 1, bi_init := True, bi_num := - 1, bi_ptr := Ptr_mem b\<rparr>))
            (\<lambda>_. io_return True) (w\<lparr>bw_heap := h\<rparr>))"

text \<open>For a read-only \<open>BIO\<close> the data pointer is dropped and only the \<open>BUF_MEM\<close> itself is freed.\<close>

definition mem_free_bio :: "addr \<Rightarrow> bool io" where
  "mem_free_bio bio =
     io_bind (get_bio bio) (\<lambda>o1.
       if bi_shutdown o1 = 0 \<or> \<not> bi_init o1 \<or> bi_ptr o1 = Ptr_null then io_return True
       else io_bind
         (\<lambda>w. case bi_ptr o1 of
                Ptr_mem b \<Rightarrow> Some ((), w\<lparr>bw_heap := BUF_MEM_free (Some b) (bw_heap w)\<rparr>)
              | Ptr_rdonly d k \<Rightarrow>
                  Some ((), w\<lparr>bw_heap := BUF_MEM_free (Some \<lparr>bm_length = 0, bm_data = None, bm_max = 0\<rparr>) (bw_heap w)\<rparr>)
              | _ \<Rightarrow> None) (\<lambda>_.
         io_bind (modify_bio bio (\<lambda>b. b\<lparr>bi_ptr := Ptr_null\<rparr>)) (\<lambda>_. io_return True)))"

section \<open>Reading and writing\<close>

text \<open>The unread bytes and their number.\<close>

definition mem_length :: "bio_ptr \<Rightarrow> nat option" where
  "mem_length p = (case p of Ptr_mem b \<Rightarrow> Some (bm_length b) | Ptr_rdonly d k \<Rightarrow> Some (length d - k) | _ \<Rightarrow> None)"

definition mem_data :: "bio_ptr \<Rightarrow> u8 list" where
  "mem_data p = (case p of Ptr_mem b \<Rightarrow> bm_bytes b | Ptr_rdonly d k \<Rightarrow> drop k d | _ \<Rightarrow> [])"

text \<open>Dropping the first \<open>n\<close> unread bytes: the rest is moved to the front, or the pointer is advanced.\<close>

definition mem_advance :: "nat \<Rightarrow> bio_ptr \<Rightarrow> bio_ptr" where
  "mem_advance n p =
     (case p of
        Ptr_mem b \<Rightarrow> Ptr_mem (b\<lparr>bm_length := bm_length b - n,
                                bm_data := map_option (\<lambda>d. memcpy_at d 0 (take (bm_length b - n) (drop n d))) (bm_data b)\<rparr>)
      | Ptr_rdonly d k \<Rightarrow> Ptr_rdonly d (k + n)
      | _ \<Rightarrow> p)"

definition mem_read :: "addr \<Rightarrow> int \<Rightarrow> (int \<times> u8 list) io" where
  "mem_read bio outl =
     io_bind (BIO_clear_retry_flags bio) (\<lambda>_.
     io_bind (get_bio bio) (\<lambda>o1.
       case mem_length (bi_ptr o1) of
         None \<Rightarrow> io_undefined
       | Some len \<Rightarrow>
           let ret = (if int len < INT_MAX \<and> outl > int len then int len else outl) in
           if ret > 0 then
             io_bind (modify_bio bio (\<lambda>b. b\<lparr>bi_ptr := mem_advance (nat ret) (bi_ptr b)\<rparr>))
               (\<lambda>_. io_return (ret, take (nat ret) (mem_data (bi_ptr o1))))
           else if len = 0 then
             io_bind (if bi_num o1 \<noteq> 0 then BIO_set_retry_read bio else io_return ()) (\<lambda>_. io_return (bi_num o1, []))
           else io_return (ret, [])))"

definition mem_write :: "addr \<Rightarrow> u8 list \<Rightarrow> int \<Rightarrow> int io" where
  "mem_write bio inp inl =
     io_bind (get_bio bio) (\<lambda>o1.
       if bi_flags o1 AND BIO_FLAGS_MEM_RDONLY \<noteq> 0 then io_return (- 1)
       else io_bind (BIO_clear_retry_flags bio) (\<lambda>_.
         case bi_ptr o1 of
           Ptr_mem b \<Rightarrow>
             let blen = sint (word_of_nat (bm_length b) :: 32 word) in
             if INT_MAX - blen < inl then io_return (- 1)
             else (\<lambda>w.
               case BUF_MEM_grow_clean (nat ((blen + inl) mod 2 ^ 64)) (b, bw_heap w) of
                 (r, b', h) \<Rightarrow>
                   if int r \<noteq> (blen + inl) mod 2 ^ 64
                   then io_bind (modify_bio bio (\<lambda>o2. o2\<lparr>bi_ptr := Ptr_mem b'\<rparr>)) (\<lambda>_. io_return (- 1)) (w\<lparr>bw_heap := h\<rparr>)
                   else io_bind (modify_bio bio (\<lambda>o2. o2\<lparr>bi_ptr := Ptr_mem (b'\<lparr>bm_data :=
                             map_option (\<lambda>d. memcpy_at d (nat blen) (take (nat inl) inp)) (bm_data b')\<rparr>)\<rparr>))
                          (\<lambda>_. io_return inl) (w\<lparr>bw_heap := h\<rparr>))
         | _ \<Rightarrow> io_undefined))"

text \<open>The number of bytes up to and including the first newline, at most \<open>j\<close>.\<close>

fun line_length :: "u8 list \<Rightarrow> nat \<Rightarrow> nat" where
  "line_length p 0 = 0"
| "line_length [] (Suc j) = 0"
| "line_length (c # p) (Suc j) = (if c = 10 then 1 else Suc (line_length p j))"

text \<open>The bytes stored at \<open>buf\<close> are returned, with the terminator.\<close>

definition mem_gets :: "addr \<Rightarrow> int \<Rightarrow> (int \<times> u8 list) io" where
  "mem_gets bio sz =
     io_bind (BIO_clear_retry_flags bio) (\<lambda>_.
     io_bind (get_bio bio) (\<lambda>o1.
       case mem_length (bi_ptr o1) of
         None \<Rightarrow> io_undefined
       | Some len \<Rightarrow>
           let j = sint (word_of_nat len :: 32 word); j = (if sz - 1 < j then sz - 1 else j) in
           if j \<le> 0 then io_return (0, if sz > 0 then [0] else [])
           else io_bind (mem_read bio (int (line_length (mem_data (bi_ptr o1)) (nat j)))) (\<lambda>(i, out).
                  io_return (i, if i > 0 then out @ [0] else out))))"

section \<open>Control\<close>

definition BIO_C_SET_BUF_MEM :: int where
  "BIO_C_SET_BUF_MEM = 114"

definition BIO_C_GET_BUF_MEM_PTR :: int where
  "BIO_C_GET_BUF_MEM_PTR = 115"

text \<open>The results of \<open>BIO_CTRL_INFO\<close> and \<open>BIO_C_GET_BUF_MEM_PTR\<close> are the return values; what they point to is
  \<open>mem_data\<close> and the buffer itself.  \<open>buf\<close> is the argument of \<open>BIO_C_SET_BUF_MEM\<close>; giving a read-only object a new
  buffer, whose data pointer would then be moved outside of it by a reset, has no result here.\<close>

definition mem_ctrl :: "addr \<Rightarrow> int \<Rightarrow> int \<Rightarrow> BUF_MEM option \<Rightarrow> int io" where
  "mem_ctrl bio cmd num buf =
     io_bind (get_bio bio) (\<lambda>o1.
       case mem_length (bi_ptr o1) of
         None \<Rightarrow> io_undefined
       | Some len \<Rightarrow>
           if cmd = BIO_C_SET_BUF_MEM then
             if bi_flags o1 AND BIO_FLAGS_MEM_RDONLY \<noteq> 0 then io_undefined
             else io_bind (mem_free_bio bio) (\<lambda>_.
                  io_bind (modify_bio bio (\<lambda>o2. o2\<lparr>bi_shutdown := num,
                      bi_ptr := (case buf of None \<Rightarrow> Ptr_null | Some b \<Rightarrow> Ptr_mem b)\<rparr>)) (\<lambda>_. io_return 1))
           else if cmd = BIO_C_GET_BUF_MEM_PTR then io_return 1 else
           if cmd = BIO_CTRL_RESET then
             io_bind (modify_bio bio (\<lambda>o2. o2\<lparr>bi_ptr :=
                 (case bi_ptr o2 of
                    Ptr_mem b \<Rightarrow> (if bm_data b = None then Ptr_mem b
                                  else Ptr_mem (b\<lparr>bm_length := 0, bm_data := Some (replicate (bm_max b) 0)\<rparr>))
                  | Ptr_rdonly d k \<Rightarrow> Ptr_rdonly d 0
                  | p \<Rightarrow> p)\<rparr>)) (\<lambda>_. io_return 1)
           else if cmd = BIO_CTRL_EOF then io_return (if len = 0 then 1 else 0)
           else if cmd = BIO_C_SET_BUF_MEM_EOF_RETURN then
             io_bind (modify_bio bio (\<lambda>o2. o2\<lparr>bi_num := num\<rparr>)) (\<lambda>_. io_return 1)
           else if cmd = BIO_CTRL_INFO then io_return (int len)
           else if cmd = BIO_CTRL_GET_CLOSE then io_return (bi_shutdown o1)
           else if cmd = BIO_CTRL_SET_CLOSE then io_bind (modify_bio bio (\<lambda>o2. o2\<lparr>bi_shutdown := num\<rparr>)) (\<lambda>_. io_return 1)
           else if cmd = BIO_CTRL_WPENDING then io_return 0
           else if cmd = BIO_CTRL_PENDING then io_return (int len)
           else if cmd = BIO_CTRL_FLUSH then io_return 1
           else io_return 0)"

end
