(* ===== verification/Bio.thy ===== *)
theory Bio
  imports Bio_Pair Bio_Mem
begin

text \<open>
  \<open>crypto/bio/bio.c\<close>: the functions that act on any \<open>BIO\<close> through its method table, chains of objects, and the reader
  for one ASN.1 element; with the constructors of \<open>pair.c\<close> and \<open>bio_mem.c\<close>.
\<close>

section \<open>The method tables\<close>

definition bm_type :: "bio_method \<Rightarrow> u32" where
  "bm_type m = (case m of mem_method \<Rightarrow> 0x401 | methods_biop \<Rightarrow> 0x413)"

definition bm_create :: "bio_method \<Rightarrow> addr \<Rightarrow> bool io" where
  "bm_create m = (case m of mem_method \<Rightarrow> mem_new | methods_biop \<Rightarrow> bio_new)"

definition bm_destroy :: "bio_method \<Rightarrow> addr \<Rightarrow> bool io" where
  "bm_destroy m = (case m of mem_method \<Rightarrow> mem_free_bio | methods_biop \<Rightarrow> bio_free)"

text \<open>The copy to a null buffer in \<open>mem_read\<close> is undefined.\<close>

definition bm_read :: "bio_method \<Rightarrow> addr \<Rightarrow> bool \<Rightarrow> int \<Rightarrow> (int \<times> u8 list) io" where
  "bm_read m bio buf_null len =
     (case m of
        mem_method \<Rightarrow> if buf_null then io_undefined else mem_read bio len
      | methods_biop \<Rightarrow> bio_read bio buf_null len)"

definition bm_write :: "bio_method \<Rightarrow> addr \<Rightarrow> u8 list option \<Rightarrow> int \<Rightarrow> int io" where
  "bm_write m bio inp inl =
     (case m of
        mem_method \<Rightarrow> (case inp of None \<Rightarrow> io_undefined | Some d \<Rightarrow> mem_write bio d inl)
      | methods_biop \<Rightarrow> bio_write bio inp inl)"

datatype ctrl_arg = Arg_null | Arg_bio addr | Arg_buf BUF_MEM

definition bm_ctrl :: "bio_method \<Rightarrow> addr \<Rightarrow> int \<Rightarrow> int \<Rightarrow> ctrl_arg \<Rightarrow> int io" where
  "bm_ctrl m bio cmd larg parg =
     (case m of
        mem_method \<Rightarrow> mem_ctrl bio cmd larg (case parg of Arg_buf b \<Rightarrow> Some b | _ \<Rightarrow> None)
      | methods_biop \<Rightarrow> bio_ctrl bio cmd larg (case parg of Arg_bio p \<Rightarrow> Some p | _ \<Rightarrow> None))"

section \<open>Creation, reference counts, chains\<close>

definition free_bio :: "addr \<Rightarrow> unit io" where
  "free_bio p w =
     (case bw_bios w p of
        None \<Rightarrow> None
      | Some _ \<Rightarrow> Some ((), w\<lparr>bw_bios := (bw_bios w)(p := None), bw_heap := mem_free (Some (replicate 64 0)) (bw_heap w)\<rparr>))"

definition fresh_bio :: "bio_method \<Rightarrow> bio_st" where
  "fresh_bio m = \<lparr>bi_method = m, bi_init = False, bi_shutdown = 1, bi_flags = 0, bi_retry_reason = 0, bi_num = 0,
     bi_references = 1, bi_ptr = Ptr_null, bi_next_bio = None, bi_num_read = 0, bi_num_write = 0\<rparr>"

definition BIO_new :: "bio_method \<Rightarrow> addr option io" where
  "BIO_new m w =
     (let p = hp_calls (bw_heap w) in
      case mem_malloc 64 (bw_heap w) of
        (None, h) \<Rightarrow> Some (None, w\<lparr>bw_heap := h\<rparr>)
      | (Some _, h) \<Rightarrow>
          io_bind (bm_create m p) (\<lambda>ok.
              if ok then io_return (Some p) else io_bind (free_bio p) (\<lambda>_. io_return None))
            (w\<lparr>bw_heap := h, bw_bios := (bw_bios w)(p \<mapsto> fresh_bio m)\<rparr>))"

definition CRYPTO_REFCOUNT_MAX :: nat where
  "CRYPTO_REFCOUNT_MAX = 0xffffffff"

definition CRYPTO_refcount_inc :: "nat \<Rightarrow> nat" where
  "CRYPTO_refcount_inc count = (if count < CRYPTO_REFCOUNT_MAX then count + 1 else count)"

text \<open>\<open>None\<close> is the call of \<open>abort\<close>.\<close>

definition CRYPTO_refcount_dec_and_test_zero :: "nat \<Rightarrow> (bool \<times> nat) option" where
  "CRYPTO_refcount_dec_and_test_zero count =
     (if count = 0 then None
      else let count' = (if count < CRYPTO_REFCOUNT_MAX then count - 1 else count) in Some (count' = 0, count'))"

definition BIO_up_ref :: "addr \<Rightarrow> bool io" where
  "BIO_up_ref bio =
     io_bind (modify_bio bio (\<lambda>b. b\<lparr>bi_references := CRYPTO_refcount_inc (bi_references b)\<rparr>)) (\<lambda>_. io_return True)"

definition drop_ref :: "addr \<Rightarrow> bool io" where
  "drop_ref bio =
     io_bind (get_bio bio) (\<lambda>b.
       case CRYPTO_refcount_dec_and_test_zero (bi_references b) of
         None \<Rightarrow> io_undefined
       | Some (zero, count) \<Rightarrow> io_bind (put_bio bio (b\<lparr>bi_references := count\<rparr>)) (\<lambda>_. io_return zero))"

definition BIO_pop :: "addr option \<Rightarrow> addr option io" where
  "BIO_pop bio =
     (case bio of
        None \<Rightarrow> io_return None
      | Some p \<Rightarrow>
          io_bind (get_bio p) (\<lambda>b.
          io_bind (put_bio p (b\<lparr>bi_next_bio := None\<rparr>)) (\<lambda>_. io_return (bi_next_bio b))))"

definition BIO_next :: "addr option \<Rightarrow> addr option io" where
  "BIO_next bio = (case bio of None \<Rightarrow> io_return None | Some p \<Rightarrow> io_bind (get_bio p) (\<lambda>b. io_return (bi_next_bio b)))"

definition destroy_bio :: "addr \<Rightarrow> bool io" where
  "destroy_bio p = io_bind (get_bio p) (\<lambda>b. bm_destroy (bi_method b) p)"

partial_function (option) BIO_free :: "addr option \<Rightarrow> bool io" where
  "BIO_free bio w =
     (case bio of
        None \<Rightarrow> Some (True, w)
      | Some p \<Rightarrow>
          Option.bind (drop_ref p w) (\<lambda>r.
            if \<not> fst r then Some (False, snd r)
            else Option.bind (BIO_pop (Some p) (snd r)) (\<lambda>n.
                 Option.bind (destroy_bio p (snd n)) (\<lambda>d.
                 Option.bind (free_bio p (snd d)) (\<lambda>f. BIO_free (fst n) (snd f))))))"

text \<open>The last object of a chain, which has no result for a cyclic one.\<close>

partial_function (option) last_bio :: "bio_world \<Rightarrow> addr \<Rightarrow> addr option" where
  "last_bio w p =
     Option.bind (bw_bios w p) (\<lambda>b. case bi_next_bio b of None \<Rightarrow> Some p | Some q \<Rightarrow> last_bio w q)"

definition BIO_push :: "addr option \<Rightarrow> addr option \<Rightarrow> addr option io" where
  "BIO_push bio appended_bio =
     (case bio of
        None \<Rightarrow> io_return None
      | Some p \<Rightarrow> (\<lambda>w.
          case last_bio w p of
            None \<Rightarrow> None
          | Some q \<Rightarrow> io_bind (modify_bio q (\<lambda>b. b\<lparr>bi_next_bio := appended_bio\<rparr>)) (\<lambda>_. io_return bio) w))"

partial_function (option) find_type_loop :: "u32 \<Rightarrow> bio_world \<Rightarrow> addr \<Rightarrow> addr option option" where
  "find_type_loop type w p =
     Option.bind (bw_bios w p) (\<lambda>b.
       if (if type AND 0xff = 0 then bm_type (bi_method b) AND type \<noteq> 0 else bm_type (bi_method b) = type) then Some (Some p)
       else (case bi_next_bio b of None \<Rightarrow> Some None | Some q \<Rightarrow> find_type_loop type w q))"

definition BIO_find_type :: "addr option \<Rightarrow> u32 \<Rightarrow> addr option io" where
  "BIO_find_type bio type w =
     (case bio of None \<Rightarrow> Some (None, w) | Some p \<Rightarrow> map_option (\<lambda>r. (r, w)) (find_type_loop type w p))"

section \<open>Reading, writing, control\<close>

definition BIO_read :: "addr option \<Rightarrow> bool \<Rightarrow> int \<Rightarrow> (int \<times> u8 list) io" where
  "BIO_read bio buf_null len =
     (case bio of
        None \<Rightarrow> io_return (- 2, [])
      | Some p \<Rightarrow>
          io_bind (get_bio p) (\<lambda>b.
            if \<not> bi_init b then io_return (- 2, [])
            else if len \<le> 0 then io_return (0, [])
            else io_bind (bm_read (bi_method b) p buf_null len) (\<lambda>(ret, out).
                 io_bind (if ret > 0 then modify_bio p (\<lambda>b. b\<lparr>bi_num_read := szw (bi_num_read b + nat ret)\<rparr>) else io_return ())
                   (\<lambda>_. io_return (ret, out)))))"

definition BIO_gets :: "addr option \<Rightarrow> int \<Rightarrow> (int \<times> u8 list) io" where
  "BIO_gets bio len =
     (case bio of
        None \<Rightarrow> io_return (- 2, [])
      | Some p \<Rightarrow>
          io_bind (get_bio p) (\<lambda>b.
            if bi_method b = methods_biop then io_return (- 2, [])
            else if \<not> bi_init b then io_return (- 2, [])
            else if len \<le> 0 then io_return (0, [])
            else io_bind (mem_gets p len) (\<lambda>(ret, out).
                 io_bind (if ret > 0 then modify_bio p (\<lambda>b. b\<lparr>bi_num_read := szw (bi_num_read b + nat ret)\<rparr>) else io_return ())
                   (\<lambda>_. io_return (ret, out)))))"

definition BIO_write :: "addr option \<Rightarrow> u8 list option \<Rightarrow> int \<Rightarrow> int io" where
  "BIO_write bio inp inl =
     (case bio of
        None \<Rightarrow> io_return (- 2)
      | Some p \<Rightarrow>
          io_bind (get_bio p) (\<lambda>b.
            if \<not> bi_init b then io_return (- 2)
            else if inl \<le> 0 then io_return 0
            else io_bind (bm_write (bi_method b) p inp inl) (\<lambda>ret.
                 io_bind (if ret > 0 then modify_bio p (\<lambda>b. b\<lparr>bi_num_write := szw (bi_num_write b + nat ret)\<rparr>) else io_return ())
                   (\<lambda>_. io_return ret))))"

definition BIO_puts :: "addr option \<Rightarrow> u8 list \<Rightarrow> int io" where
  "BIO_puts bio inp = BIO_write bio (Some inp) (int (c_strlen inp))"

definition BIO_ctrl :: "addr option \<Rightarrow> int \<Rightarrow> int \<Rightarrow> ctrl_arg \<Rightarrow> int io" where
  "BIO_ctrl bio cmd larg parg =
     (case bio of
        None \<Rightarrow> io_return 0
      | Some p \<Rightarrow> io_bind (get_bio p) (\<lambda>b. bm_ctrl (bi_method b) p cmd larg parg))"

definition BIO_flush :: "addr option \<Rightarrow> int io" where
  "BIO_flush bio = BIO_ctrl bio BIO_CTRL_FLUSH 0 Arg_null"

definition BIO_reset :: "addr option \<Rightarrow> int io" where
  "BIO_reset bio = BIO_ctrl bio BIO_CTRL_RESET 0 Arg_null"

definition BIO_eof :: "addr option \<Rightarrow> int io" where
  "BIO_eof bio = BIO_ctrl bio BIO_CTRL_EOF 0 Arg_null"

definition BIO_pending :: "addr option \<Rightarrow> nat io" where
  "BIO_pending bio = io_bind (BIO_ctrl bio BIO_CTRL_PENDING 0 Arg_null) (\<lambda>r. io_return (if r < 0 then 0 else nat r))"

definition BIO_wpending :: "addr option \<Rightarrow> nat io" where
  "BIO_wpending bio = io_bind (BIO_ctrl bio BIO_CTRL_WPENDING 0 Arg_null) (\<lambda>r. io_return (if r < 0 then 0 else nat r))"

definition BIO_set_close :: "addr option \<Rightarrow> int \<Rightarrow> int io" where
  "BIO_set_close bio close_flag = BIO_ctrl bio BIO_CTRL_SET_CLOSE close_flag Arg_null"

definition BIO_number_read :: "addr \<Rightarrow> nat io" where
  "BIO_number_read bio = io_bind (get_bio bio) (\<lambda>b. io_return (bi_num_read b))"

definition BIO_number_written :: "addr \<Rightarrow> nat io" where
  "BIO_number_written bio = io_bind (get_bio bio) (\<lambda>b. io_return (bi_num_write b))"

primrec indent_loop :: "addr option \<Rightarrow> nat \<Rightarrow> bool io" where
  "indent_loop bio 0 = io_return True"
| "indent_loop bio (Suc k) = io_bind (BIO_puts bio [32, 0]) (\<lambda>r. if r \<noteq> 1 then io_return False else indent_loop bio k)"

definition BIO_indent :: "addr option \<Rightarrow> nat \<Rightarrow> nat \<Rightarrow> bool io" where
  "BIO_indent bio indent max_indent = indent_loop bio (if indent > max_indent then max_indent else indent)"

section \<open>Pairs\<close>

definition BIO_new_bio_pair :: "nat \<Rightarrow> nat \<Rightarrow> (addr \<times> addr) option io" where
  "BIO_new_bio_pair writebuf1_len writebuf2_len =
     io_bind (BIO_new methods_biop) (\<lambda>bio1.
     io_bind (BIO_new methods_biop) (\<lambda>bio2.
     io_bind (case (bio1, bio2) of
                (Some p, Some q) \<Rightarrow> bio_make_pair p q writebuf1_len writebuf2_len
              | _ \<Rightarrow> io_return False) (\<lambda>ok.
       if \<not> ok then io_bind (BIO_free bio1) (\<lambda>_. io_bind (BIO_free bio2) (\<lambda>_. io_return None))
       else io_return (Some (the bio1, the bio2)))))"

definition BIO_ctrl_get_read_request :: "addr option \<Rightarrow> int io" where
  "BIO_ctrl_get_read_request bio = BIO_ctrl bio BIO_C_GET_READ_REQUEST 0 Arg_null"

definition BIO_ctrl_get_write_guarantee :: "addr option \<Rightarrow> int io" where
  "BIO_ctrl_get_write_guarantee bio = BIO_ctrl bio BIO_C_GET_WRITE_GUARANTEE 0 Arg_null"

definition BIO_shutdown_wr :: "addr option \<Rightarrow> int io" where
  "BIO_shutdown_wr bio = BIO_ctrl bio BIO_C_SHUTDOWN_WR 0 Arg_null"

section \<open>Memory\<close>

text \<open>A null \<open>buf\<close> with a negative length is read by \<open>strlen\<close> before it is rejected.\<close>

definition BIO_new_mem_buf :: "u8 list option \<Rightarrow> int \<Rightarrow> addr option io" where
  "BIO_new_mem_buf buf len =
     (case buf of
        None \<Rightarrow>
          if len < 0 then io_undefined
          else if len \<noteq> 0 then io_return None
          else io_bind (BIO_new mem_method) (\<lambda>ret.
            case ret of
              None \<Rightarrow> io_return None
            | Some p \<Rightarrow> io_bind (modify_bio p (\<lambda>b. b\<lparr>bi_ptr := Ptr_rdonly [] 0, bi_flags := bi_flags b OR BIO_FLAGS_MEM_RDONLY,
                                                       bi_num := 0\<rparr>)) (\<lambda>_. io_return ret))
      | Some d \<Rightarrow>
          let sz = (if len < 0 then c_strlen d else nat len) in
          io_bind (BIO_new mem_method) (\<lambda>ret.
            case ret of
              None \<Rightarrow> io_return None
            | Some p \<Rightarrow> io_bind (modify_bio p (\<lambda>b. b\<lparr>bi_ptr := Ptr_rdonly (take sz d) 0,
                                                       bi_flags := bi_flags b OR BIO_FLAGS_MEM_RDONLY, bi_num := 0\<rparr>))
                          (\<lambda>_. io_return ret)))"

definition BIO_mem_contents :: "addr \<Rightarrow> u8 list option io" where
  "BIO_mem_contents bio =
     io_bind (get_bio bio) (\<lambda>b.
       if bi_method b \<noteq> mem_method then io_return None
       else (case mem_length (bi_ptr b) of
               None \<Rightarrow> io_undefined
             | Some len \<Rightarrow> io_return (Some (take len (mem_data (bi_ptr b))))))"

definition BIO_set_mem_buf :: "addr option \<Rightarrow> BUF_MEM \<Rightarrow> int \<Rightarrow> int io" where
  "BIO_set_mem_buf bio b take_ownership = BIO_ctrl bio BIO_C_SET_BUF_MEM take_ownership (Arg_buf b)"

definition BIO_set_mem_eof_return :: "addr option \<Rightarrow> int \<Rightarrow> int io" where
  "BIO_set_mem_eof_return bio eof_value = BIO_ctrl bio BIO_C_SET_BUF_MEM_EOF_RETURN eof_value Arg_null"

section \<open>Reading one element\<close>

definition kChunkSize :: nat where
  "kChunkSize = 4096"

text \<open>One round of the loop of \<open>bio_read_all\<close>: either the result, or the new values of \<open>len\<close>, \<open>done\<close> and \<open>*out\<close>.\<close>

definition read_all_step :: "addr option \<Rightarrow> nat \<Rightarrow> nat \<Rightarrow> nat \<Rightarrow> u8 list \<Rightarrow> (u8 list option + nat \<times> nat \<times> u8 list) io" where
  "read_all_step bio max_len len dn out =
     (if dn = len then io_bind (io_free (Some out)) (\<lambda>_. io_return (Inl None))
      else io_bind (BIO_read bio False (int (len - dn))) (\<lambda>(n, data).
        if n = 0 then io_return (Inl (Some (take dn out)))
        else if n = - 1 then io_bind (io_free (Some out)) (\<lambda>_. io_return (Inl None))
        else let out = memcpy_at out dn data; dn = nat ((int dn + n) mod 2 ^ 64) in
          if len < max_len \<and> nat ((int len - int dn) mod 2 ^ 64) < kChunkSize div 2 then
            let len' = szw (len + kChunkSize); len' = (if len' < kChunkSize \<or> len' > max_len then max_len else len') in
            (\<lambda>w. case mem_realloc (Some out) len' (bw_heap w) of
                    (None, h) \<Rightarrow> Some (Inl None, w\<lparr>bw_heap := mem_free (Some out) h\<rparr>)
                  | (Some new_buf, h) \<Rightarrow> Some (Inr (len', dn, new_buf), w\<lparr>bw_heap := h\<rparr>))
          else io_return (Inr (len, dn, out))))"

partial_function (option) read_all_loop :: "addr option \<Rightarrow> nat \<Rightarrow> nat \<Rightarrow> nat \<Rightarrow> u8 list \<Rightarrow> u8 list option io" where
  "read_all_loop bio max_len len dn out w =
     Option.bind (read_all_step bio max_len len dn out w) (\<lambda>r.
       case r of
         (Inl res, w') \<Rightarrow> Some (res, w')
       | (Inr (len', dn', out'), w') \<Rightarrow> read_all_loop bio max_len len' dn' out' w')"

text \<open>The result is the contents of \<open>*out\<close>, \<open>*out_len\<close> bytes.\<close>

definition bio_read_all :: "addr option \<Rightarrow> u8 list \<Rightarrow> nat \<Rightarrow> u8 list option io" where
  "bio_read_all bio prefix max_len =
     (let len = szw (length prefix + kChunkSize); len = (if len > max_len then max_len else len) in
      if len < length prefix then io_return None
      else io_bind (io_malloc len) (\<lambda>out.
        case out of
          None \<Rightarrow> io_return None
        | Some p \<Rightarrow> read_all_loop bio max_len len (length prefix) (memcpy_at p 0 prefix)))"

text \<open>The last part of \<open>BIO_read_asn1\<close>, after the header has been read.\<close>

definition read_asn1_body :: "addr option \<Rightarrow> u8 list \<Rightarrow> nat \<Rightarrow> nat \<Rightarrow> u8 list option io" where
  "read_asn1_body bio header len max_len =
     (let header_len = length header in
      if szw (len + header_len) < len \<or> szw (len + header_len) > max_len \<or> int len > INT_MAX then io_return None
      else let total_len = len + header_len in
        io_bind (io_malloc total_len) (\<lambda>out.
          case out of
            None \<Rightarrow> io_return None
          | Some p \<Rightarrow>
              io_bind (BIO_read bio False (int (total_len - header_len))) (\<lambda>(n, data).
                if n \<noteq> int (total_len - header_len) then io_bind (io_free (Some p)) (\<lambda>_. io_return None)
                else io_return (Some (memcpy_at (memcpy_at p 0 header) header_len data)))))"

definition BIO_read_asn1 :: "addr option \<Rightarrow> nat \<Rightarrow> u8 list option io" where
  "BIO_read_asn1 bio max_len =
     io_bind (BIO_read bio False 2) (\<lambda>(n, header).
       if n \<noteq> 2 then io_return None
       else let tag = header ! 0; length_byte = header ! 1 in
         if tag AND 0x1f = 0x1f then io_return None
         else if length_byte AND 0x80 = 0 then read_asn1_body bio header (unat length_byte) max_len
         else let num_bytes = unat (length_byte AND 0x7f) in
           if tag AND 0x20 \<noteq> 0 \<and> num_bytes = 0 then bio_read_all bio header max_len
           else if num_bytes = 0 \<or> num_bytes > 4 then io_return None
           else io_bind (BIO_read bio False (int num_bytes)) (\<lambda>(k, more).
             if k \<noteq> int num_bytes then io_return None
             else let len32 = foldl (\<lambda>v b. push_bit 8 v OR ucast b) (0 :: u32) more in
               if len32 < 128 then io_return None
               else if drop_bit ((num_bytes - 1) * 8) len32 = 0 then io_return None
               else read_asn1_body bio (header @ more) (unat len32) max_len))"

end
