(* ===== verification/Bio_Pair_Correct.thy ===== *)
theory Bio_Pair_Correct
  imports Bio
begin

text \<open>
  Correctness of \<open>BIO\<close> pairs.  The ring buffer of one half is a queue of bytes with a capacity; reading and writing
  through \<open>BIO_read\<close> and \<open>BIO_write\<close> refine the operations on two such queues.  From the operations of one
  direction alone follow delivery in order and progress, which are proved once for any byte channel.
\<close>

section \<open>The ring buffer is a queue\<close>

definition ring_ok :: "bio_bio_st \<Rightarrow> bool" where
  "ring_ok b \<longleftrightarrow> bp_buf b \<noteq> None \<and> length (bp_bytes b) = bp_size b \<and> 0 < bp_size b \<and> bp_size b < 2 ^ 62
     \<and> bp_len b \<le> bp_size b \<and> bp_offset b < bp_size b"

definition ring_data :: "bio_bio_st \<Rightarrow> u8 list" where
  "ring_data b = map (\<lambda>k. bp_bytes b ! ((bp_offset b + k) mod bp_size b)) [0..<bp_len b]"

lemma length_ring_data [simp]: "length (ring_data b) = bp_len b"
  by (simp add: ring_data_def)

lemma ring_data_nth: "k < bp_len b \<Longrightarrow> ring_data b ! k = bp_bytes b ! ((bp_offset b + k) mod bp_size b)"
  by (simp add: ring_data_def)

lemma wrap_mod: "o1 < s \<Longrightarrow> k \<le> s \<Longrightarrow> (o1 + k) mod s = (if o1 + k < s then o1 + k else o1 + k - s)" for s :: nat
  by (auto simp: mod_if)

lemma bp_bytes_update [simp]:
  "bp_bytes (b\<lparr>bp_len := l\<rparr>) = bp_bytes b" "bp_bytes (b\<lparr>bp_offset := f\<rparr>) = bp_bytes b" "bp_bytes (b\<lparr>bp_request := r\<rparr>) = bp_bytes b"
  "bp_bytes (b\<lparr>bp_closed := c\<rparr>) = bp_bytes b"
  "bp_bytes (b\<lparr>bp_buf := Some d\<rparr>) = d"
  by (simp_all add: bp_bytes_def)

text \<open>What an operation on the ring leaves alone.\<close>

definition ring_frame :: "bio_bio_st \<Rightarrow> bio_bio_st \<Rightarrow> bool" where
  "ring_frame b b' \<longleftrightarrow> bp_peer b' = bp_peer b \<and> bp_closed b' = bp_closed b \<and> bp_size b' = bp_size b \<and> bp_request b' = bp_request b"

lemma ring_drop:
  assumes b: "ring_ok b" and n: "n \<le> bp_len b" "bp_offset b + n \<le> bp_size b"
  defines "b' \<equiv> (if bp_len b - n \<noteq> 0
      then b\<lparr>bp_len := bp_len b - n, bp_offset := (if bp_offset b + n = bp_size b then 0 else bp_offset b + n)\<rparr>
      else b\<lparr>bp_len := 0, bp_offset := 0\<rparr>)"
  shows "ring_ok b'" "ring_data b' = drop n (ring_data b)" "ring_frame b b'"
    "take n (drop (bp_offset b) (bp_bytes b)) = take n (ring_data b)"
proof -
  show ok: "ring_ok b'" using b n by (auto simp: ring_ok_def b'_def)
  show "ring_frame b b'" by (simp add: ring_frame_def b'_def)
  show "ring_data b' = drop n (ring_data b)"
  proof (rule nth_equalityI)
    show "length (ring_data b') = length (drop n (ring_data b))" by (simp add: b'_def)
    fix k
    assume "k < length (ring_data b')"
    then have k: "k < bp_len b - n" by (simp add: b'_def split: if_splits)
    have "bp_offset b + n = bp_size b \<Longrightarrow> bp_offset b + (n + k) - bp_size b = k" by simp
    then show "ring_data b' ! k = drop n (ring_data b) ! k"
      using b n k by (auto simp: ring_data_nth b'_def ring_ok_def wrap_mod add.assoc)
  qed
  show "take n (drop (bp_offset b) (bp_bytes b)) = take n (ring_data b)"
  proof (rule nth_equalityI)
    show "length (take n (drop (bp_offset b) (bp_bytes b))) = length (take n (ring_data b))"
      using b n by (auto simp: ring_ok_def)
    fix k
    assume "k < length (take n (drop (bp_offset b) (bp_bytes b)))"
    then show "take n (drop (bp_offset b) (bp_bytes b)) ! k = take n (ring_data b) ! k"
      using b n by (auto simp: ring_ok_def ring_data_nth wrap_mod)
  qed
qed

lemma ring_read_flat:
  assumes "ring_ok b" "n \<le> bp_len b" "bp_offset b + n \<le> bp_size b"
  shows "\<exists>b'. ring_read (Suc i) b n = Some (take n (ring_data b), b') \<and> ring_ok b' \<and> ring_data b' = drop n (ring_data b) \<and> ring_frame b b'"
proof -
  have "szw (bp_offset b + n) \<le> bp_size b" using assms by (simp add: ring_ok_def)
  then show ?thesis using ring_drop [OF assms] by (simp add: Let_def)
qed

lemma ring_read_queue:
  assumes b: "ring_ok b" and n: "n \<le> bp_len b"
  shows "\<exists>b'. ring_read 2 b n = Some (take n (ring_data b), b') \<and> ring_ok b' \<and> ring_data b' = drop n (ring_data b) \<and> ring_frame b b'"
proof (cases "bp_offset b + n \<le> bp_size b")
  case True
  then show ?thesis using ring_read_flat [OF b n, of 1] by (simp add: numeral_2_eq_2)
next
  case False
  define c where "c = bp_size b - bp_offset b"
  have c: "c < n" "bp_offset b + c = bp_size b" "c \<le> bp_len b" using False b n by (auto simp: c_def ring_ok_def)
  define b1 where "b1 = b\<lparr>bp_len := bp_len b - c, bp_offset := 0\<rparr>"
  have b1: "ring_ok b1" "ring_data b1 = drop c (ring_data b)" "ring_frame b b1" "take c (drop (bp_offset b) (bp_bytes b)) = take c (ring_data b)"
    using ring_drop [OF b c(3)] c n by (auto simp: b1_def)
  have n1: "n - c \<le> bp_len b1" "bp_offset b1 + (n - c) \<le> bp_size b1" using n b c by (auto simp: b1_def ring_ok_def)
  obtain b' where b': "ring_read (Suc 0) b1 (n - c) = Some (take (n - c) (ring_data b1), b')" "ring_ok b'"
    "ring_data b' = drop (n - c) (ring_data b1)" "ring_frame b1 b'"
    using ring_read_flat [OF b1(1) n1, of 0] by blast
  have nw: "\<not> szw (bp_offset b + n) \<le> bp_size b"
    using False b n by (auto simp: ring_ok_def)
  have "ring_read 2 b n = map_option (\<lambda>(out', b''). (take c (ring_data b) @ out', b'')) (ring_read (Suc 0) b1 (n - c))"
    unfolding numeral_2_eq_2 ring_read.simps(2) [of "Suc 0"] Let_def using nw c n b1(4)
    by (simp add: c_def [symmetric] b1_def)
  moreover have "take c (ring_data b) @ take (n - c) (ring_data b1) = take n (ring_data b)"
    using c b1(2) by (metis less_imp_le_nat le_add_diff_inverse take_add)
  moreover have "drop (n - c) (ring_data b1) = drop n (ring_data b)" using c b1(2) by simp
  moreover have "ring_frame b b'" using b1(3) b'(4) by (simp add: ring_frame_def)
  ultimately show ?thesis using b' by simp
qed

section \<open>Writing to the ring\<close>

lemma memcpy_at_nth:
  "off + length x \<le> length d \<Longrightarrow> i < length d \<Longrightarrow> memcpy_at d off x ! i = (if off \<le> i \<and> i < off + length x then x ! (i - off) else d ! i)"
  by (auto simp: memcpy_at_def nth_append)

text \<open>The position of the first free byte.\<close>

definition ring_end :: "bio_bio_st \<Rightarrow> nat" where
  "ring_end b = (if bp_offset b + bp_len b \<ge> bp_size b then bp_offset b + bp_len b - bp_size b else bp_offset b + bp_len b)"

lemma ring_append:
  assumes b: "ring_ok b" and x: "length x \<le> bp_size b - bp_len b" "ring_end b + length x \<le> bp_size b"
  defines "b' \<equiv> b\<lparr>bp_buf := map_option (\<lambda>d. memcpy_at d (ring_end b) x) (bp_buf b), bp_len := bp_len b + length x\<rparr>"
  shows "ring_ok b'" "ring_data b' = ring_data b @ x" "ring_frame b b'"
proof -
  have d: "bp_bytes b' = memcpy_at (bp_bytes b) (ring_end b) x"
    using b by (auto simp: ring_ok_def b'_def bp_bytes_def)
  have l: "length (bp_bytes b') = bp_size b"
    using b x unfolding d by (simp add: memcpy_at_def ring_ok_def)
  show "ring_ok b'" using b x l by (auto simp: ring_ok_def b'_def)
  show "ring_frame b b'" by (simp add: ring_frame_def b'_def)
  show "ring_data b' = ring_data b @ x"
  proof (rule nth_equalityI)
    show "length (ring_data b') = length (ring_data b @ x)" by (simp add: b'_def)
    fix k
    assume "k < length (ring_data b')"
    then have k: "k < bp_len b + length x" by (simp add: b'_def)
    let ?i = "(bp_offset b + k) mod bp_size b"
    have i: "?i = (if bp_offset b + k < bp_size b then bp_offset b + k else bp_offset b + k - bp_size b)"
      using b x k by (intro wrap_mod) (auto simp: ring_ok_def)
    have "bp_len b' = bp_len b + length x" "bp_offset b' = bp_offset b" "bp_size b' = bp_size b" by (simp_all add: b'_def)
    then have "ring_data b' ! k = memcpy_at (bp_bytes b) (ring_end b) x ! ?i" using k by (simp add: ring_data_nth d)
    also have "\<dots> = (if ring_end b \<le> ?i \<and> ?i < ring_end b + length x then x ! (?i - ring_end b) else bp_bytes b ! ?i)"
      using b x by (intro memcpy_at_nth) (auto simp: ring_ok_def)
    also have "\<dots> = (ring_data b @ x) ! k"
    proof (cases "k < bp_len b")
      case True
      then have "\<not> (ring_end b \<le> ?i \<and> ?i < ring_end b + length x)"
        using b x unfolding i by (auto simp: ring_end_def ring_ok_def split: if_splits)
      then show ?thesis using True by (auto simp: nth_append ring_data_nth)
    next
      case False
      then have "ring_end b \<le> ?i \<and> ?i < ring_end b + length x" "?i - ring_end b = k - bp_len b"
        using b x k unfolding i by (auto simp: ring_end_def ring_ok_def split: if_splits)
      then show ?thesis using False by (simp add: nth_append)
    qed
    finally show "ring_data b' ! k = (ring_data b @ x) ! k" .
  qed
qed

lemma ring_write_step:
  assumes "ring_ok b" "length x \<le> bp_size b"
  shows "ring_write (Suc i) b x =
    (let chunk = (if ring_end b + length x \<le> bp_size b then length x else bp_size b - ring_end b);
         b' = b\<lparr>bp_buf := map_option (\<lambda>d. memcpy_at d (ring_end b) (take chunk x)) (bp_buf b), bp_len := bp_len b + chunk\<rparr> in
     if length x - chunk \<noteq> 0 then ring_write i b' (drop chunk x) else Some b')"
proof -
  have "szw (bp_offset b + bp_len b) = bp_offset b + bp_len b" using assms by (auto simp: ring_ok_def)
  then have e: "(if szw (bp_offset b + bp_len b) \<ge> bp_size b then szw (bp_offset b + bp_len b) - bp_size b
      else szw (bp_offset b + bp_len b)) = ring_end b"
    by (simp add: ring_end_def)
  have "szw (ring_end b + length x) = ring_end b + length x" using assms by (auto simp: ring_ok_def ring_end_def)
  then show ?thesis unfolding ring_write.simps(2) Let_def e by simp
qed

lemma ring_write_flat:
  assumes "ring_ok b" "length x \<le> bp_size b - bp_len b" "ring_end b + length x \<le> bp_size b"
  shows "\<exists>b'. ring_write (Suc i) b x = Some b' \<and> ring_ok b' \<and> ring_data b' = ring_data b @ x \<and> ring_frame b b'"
proof -
  have "length x \<le> bp_size b" using assms(2) by simp
  then show ?thesis using ring_append [OF assms] ring_write_step [OF assms(1), of x i] assms(3) by (simp add: Let_def)
qed

lemma ring_write_queue:
  assumes b: "ring_ok b" and x: "length x \<le> bp_size b - bp_len b"
  shows "\<exists>b'. ring_write 2 b x = Some b' \<and> ring_ok b' \<and> ring_data b' = ring_data b @ x \<and> ring_frame b b'"
proof (cases "ring_end b + length x \<le> bp_size b")
  case True
  then show ?thesis using ring_write_flat [OF b x, of 1] by (simp add: numeral_2_eq_2)
next
  case False
  define c where "c = bp_size b - ring_end b"
  have e: "ring_end b = bp_offset b + bp_len b" "bp_offset b + bp_len b < bp_size b"
    using False b x by (auto simp: ring_end_def ring_ok_def split: if_splits)
  have c: "c < length x" "ring_end b + c = bp_size b" using False b by (auto simp: c_def ring_ok_def ring_end_def)
  let ?b1 = "b\<lparr>bp_buf := map_option (\<lambda>d. memcpy_at d (ring_end b) (take c x)) (bp_buf b), bp_len := bp_len b + c\<rparr>"
  have b1: "ring_ok ?b1" "ring_data ?b1 = ring_data b @ take c x" "ring_frame b ?b1"
    using ring_append [OF b, of "take c x"] c x by auto
  have l: "length (drop c x) \<le> bp_size ?b1 - bp_len ?b1" using x c by simp
  moreover have "ring_end ?b1 = 0" using c e by (simp add: ring_end_def)
  ultimately have "ring_end ?b1 + length (drop c x) \<le> bp_size ?b1" by simp
  then obtain b' where b': "ring_write (Suc 0) ?b1 (drop c x) = Some b'" "ring_ok b'"
    "ring_data b' = ring_data ?b1 @ drop c x" "ring_frame ?b1 b'"
    using ring_write_flat [OF b1(1) l, of 0] by blast
  have "length x \<le> bp_size b" using x by simp
  then have "ring_write 2 b x = ring_write (Suc 0) ?b1 (drop c x)"
    unfolding numeral_2_eq_2 using ring_write_step [OF b, of x "Suc 0"] False c by (simp add: Let_def c_def [symmetric] del: ring_write.simps)
  moreover have "ring_frame b b'" using b1(3) b'(4) by (simp add: ring_frame_def)
  ultimately show ?thesis using b'(1,2) b'(3) [unfolded b1(2)] by (simp del: ring_write.simps)
qed

section \<open>The two halves\<close>

record half =
  hf_queue :: "u8 list"
  hf_closed :: bool
  hf_cap :: nat

definition half_rep :: "bio_bio_st \<Rightarrow> addr \<Rightarrow> half \<Rightarrow> bool" where
  "half_rep b peer H \<longleftrightarrow> ring_ok b \<and> bp_peer b = Some peer
     \<and> H = \<lparr>hf_queue = ring_data b, hf_closed = bp_closed b, hf_cap = bp_size b\<rparr>"

text \<open>\<open>bio_rep w p q H\<close>: at \<open>p\<close> is an initialised half whose peer is \<open>q\<close> and whose outgoing queue is \<open>H\<close>.\<close>

definition bio_rep :: "bio_world \<Rightarrow> addr \<Rightarrow> addr \<Rightarrow> half \<Rightarrow> bool" where
  "bio_rep w p q H \<longleftrightarrow> (\<exists>o1 b. bw_bios w p = Some o1 \<and> bi_method o1 = methods_biop \<and> bi_init o1 \<and> bi_ptr o1 = Ptr_pair b \<and> half_rep b q H)"

definition pair_rep :: "bio_world \<Rightarrow> addr \<Rightarrow> addr \<Rightarrow> half \<Rightarrow> half \<Rightarrow> bool" where
  "pair_rep w p q A B \<longleftrightarrow> p \<noteq> q \<and> bio_rep w p q A \<and> bio_rep w q p B"

lemma pair_rep_sym: "pair_rep w p q A B \<longleftrightarrow> pair_rep w q p B A"
  by (auto simp: pair_rep_def)

text \<open>The operations on queues.\<close>

definition half_write :: "u8 list \<Rightarrow> half \<Rightarrow> int \<times> half" where
  "half_write bs A =
     (if hf_closed A \<or> length (hf_queue A) = hf_cap A then (- 1, A)
      else let n = min (length bs) (hf_cap A - length (hf_queue A)) in (int n, A\<lparr>hf_queue := hf_queue A @ take n bs\<rparr>))"

definition half_read :: "int \<Rightarrow> half \<Rightarrow> (int \<times> u8 list) \<times> half" where
  "half_read m B =
     (if hf_queue B = [] then ((if hf_closed B then 0 else - 1, []), B)
      else let n = min (nat m) (length (hf_queue B)) in
        ((int n, take n (hf_queue B)), B\<lparr>hf_queue := drop n (hf_queue B)\<rparr>))"

definition retry_flags :: "addr \<Rightarrow> bio_world \<Rightarrow> u32" where
  "retry_flags p w = (case bw_bios w p of None \<Rightarrow> 0 | Some b \<Rightarrow> bi_flags b AND kRetryFlags)"

lemma size_of_int_nat [simp]: "n < 2 ^ 31 \<Longrightarrow> size_of_int (int n) = n"
proof -
  assume "n < 2 ^ 31"
  then have "int n mod 2 ^ 64 = int n" by (intro mod_pos_pos_trivial) simp_all
  then show ?thesis by (simp add: size_of_int_def)
qed

lemma size_of_int_pos: "0 < m \<Longrightarrow> m < 2 ^ 31 \<Longrightarrow> size_of_int m = nat m \<and> 0 < nat m"
  using size_of_int_nat [of "nat m"] by simp

lemma bio_write_refines:
  assumes rep: "pair_rep w p q A B" and bs: "bs \<noteq> []" "length bs < 2 ^ 31"
  shows "\<exists>w'. bio_write p (Some bs) (int (length bs)) w = Some (fst (half_write bs A), w')
    \<and> pair_rep w' p q (snd (half_write bs A)) B \<and> (\<forall>r. r \<noteq> p \<longrightarrow> bw_bios w' r = bw_bios w r) \<and> bw_heap w' = bw_heap w"
proof -
  obtain o1 b where o1: "bw_bios w p = Some o1" "bi_method o1 = methods_biop" "bi_init o1" "bi_ptr o1 = Ptr_pair b" "half_rep b q A"
    using rep by (auto simp: pair_rep_def bio_rep_def)
  have pq: "p \<noteq> q" using rep by (simp add: pair_rep_def)
  have A: "hf_queue A = ring_data b" "hf_closed A = bp_closed b" "hf_cap A = bp_size b" "ring_ok b" "bp_peer b = Some q"
    using o1(5) by (auto simp: half_rep_def)
  let ?b = "b\<lparr>bp_request := 0\<rparr>"
  have b0: "ring_ok ?b" "ring_data ?b = ring_data b" using A(4) by (simp_all add: ring_ok_def ring_data_def)
  have n: "size_of_int (int (length bs)) = length bs" "length bs \<noteq> 0" using bs by simp_all
  show ?thesis
  proof (cases "bp_closed b \<or> bp_len b = bp_size b")
    case True
    then show ?thesis using o1 A b0 n pq rep bs
      by (auto simp: bio_write_def BIO_clear_retry_flags_def BIO_set_retry_write_def pair_of_def set_pair_def half_write_def
          pair_rep_def bio_rep_def half_rep_def Let_def)
  next
    case False
    let ?n = "min (length bs) (bp_size b - bp_len b)"
    have "length (take ?n bs) \<le> bp_size ?b - bp_len ?b" by simp
    then obtain b' where b': "ring_write 2 ?b (take ?n bs) = Some b'" "ring_ok b'" "ring_data b' = ring_data b @ take ?n bs" "ring_frame ?b b'"
      using ring_write_queue [OF b0(1), of "take ?n bs"] b0(2) by auto
    have m: "(if length bs > bp_size b - bp_len b then bp_size b - bp_len b else length bs) = ?n" by auto
    show ?thesis using False o1 A b' n pq rep bs
      by (auto simp: bio_write_def BIO_clear_retry_flags_def pair_of_def set_pair_def half_write_def m ring_frame_def
          pair_rep_def bio_rep_def half_rep_def Let_def)
  qed
qed

lemma bio_read_refines:
  assumes rep: "pair_rep w p q A B" and m: "0 < m" "m < 2 ^ 31"
  shows "\<exists>w'. bio_read p False m w = Some (fst (half_read m B), w')
    \<and> pair_rep w' p q A (snd (half_read m B)) \<and> (\<forall>r. r \<noteq> p \<and> r \<noteq> q \<longrightarrow> bw_bios w' r = bw_bios w r) \<and> bw_heap w' = bw_heap w"
proof -
  obtain o1 b where o1: "bw_bios w p = Some o1" "bi_method o1 = methods_biop" "bi_init o1" "bi_ptr o1 = Ptr_pair b" "half_rep b q A"
    using rep by (auto simp: pair_rep_def bio_rep_def)
  obtain o2 c where o2: "bw_bios w q = Some o2" "bi_method o2 = methods_biop" "bi_init o2" "bi_ptr o2 = Ptr_pair c" "half_rep c p B"
    using rep by (auto simp: pair_rep_def bio_rep_def)
  have pq: "p \<noteq> q" "q \<noteq> p" using rep by (auto simp: pair_rep_def)
  have A: "ring_ok b" "bp_peer b = Some q" using o1(5) by (auto simp: half_rep_def)
  have B: "hf_queue B = ring_data c" "hf_closed B = bp_closed c" "hf_cap B = bp_size c" "ring_ok c" "bp_peer c = Some p"
    using o2(5) by (auto simp: half_rep_def)
  have c0: "ring_ok (c\<lparr>bp_request := r\<rparr>)" "ring_data (c\<lparr>bp_request := r\<rparr>) = ring_data c" for r
    using B(4) by (simp_all add: ring_ok_def ring_data_def)
  have e: "ring_data c = [] \<longleftrightarrow> bp_len c = 0" by (metis length_0_conv length_ring_data)
  have n: "size_of_int m = nat m" "0 < nat m" using size_of_int_pos [OF m] by simp_all
  show ?thesis
  proof (cases "bp_len c = 0")
    case True
    then show ?thesis using o1 o2 A B c0 n pq e
      by (auto simp: bio_read_def BIO_clear_retry_flags_def BIO_set_retry_read_def pair_of_def set_pair_def half_read_def
          pair_rep_def bio_rep_def half_rep_def Let_def)
  next
    case False
    let ?n = "min (nat m) (bp_len c)"
    obtain c' where c': "ring_read 2 (c\<lparr>bp_request := 0\<rparr>) ?n = Some (take ?n (ring_data c), c')" "ring_ok c'"
      "ring_data c' = drop ?n (ring_data c)" "ring_frame (c\<lparr>bp_request := 0\<rparr>) c'"
      using ring_read_queue [OF c0(1), of ?n 0] c0(2) by auto
    have k: "(if bp_len c < nat m then bp_len c else nat m) = ?n" by auto
    show ?thesis using False o1 o2 A B c' n pq e
      by (auto simp: bio_read_def BIO_clear_retry_flags_def pair_of_def set_pair_def half_read_def k ring_frame_def
          pair_rep_def bio_rep_def half_rep_def Let_def)
  qed
qed

text \<open>Only the state of the pair and the initialisation matter.\<close>

lemma bio_rep_cong:
  assumes "bw_bios w' p = Some o2" "bw_bios w p = Some o1" "bi_method o2 = bi_method o1" "bi_init o2 = bi_init o1" "bi_ptr o2 = bi_ptr o1"
  shows "bio_rep w' p q A = bio_rep w p q A"
  using assms by (simp add: bio_rep_def)

lemma pair_rep_modify:
  assumes "pair_rep w p q A B" "modify_bio p f w = Some (u, w')"
    and "\<And>b. bi_method (f b) = bi_method b \<and> bi_init (f b) = bi_init b \<and> bi_ptr (f b) = bi_ptr b"
  shows "pair_rep w' p q A B"
  using assms by (auto simp: pair_rep_def bio_rep_def modify_bio_def)

theorem BIO_write_refines:
  assumes rep: "pair_rep w p q A B" and bs: "length bs < 2 ^ 31"
  shows "\<exists>w'. BIO_write (Some p) (Some bs) (int (length bs)) w
      = Some (if bs = [] then 0 else fst (half_write bs A), w')
    \<and> pair_rep w' p q (if bs = [] then A else snd (half_write bs A)) B"
proof -
  obtain o1 where o1: "bw_bios w p = Some o1" "bi_method o1 = methods_biop" "bi_init o1"
    using rep by (auto simp: pair_rep_def bio_rep_def)
  show ?thesis
  proof (cases "bs = []")
    case True
    then show ?thesis using o1 rep by (simp add: BIO_write_def)
  next
    case False
    obtain w1 where w1: "bio_write p (Some bs) (int (length bs)) w = Some (fst (half_write bs A), w1)" "pair_rep w1 p q (snd (half_write bs A)) B"
      using bio_write_refines [OF rep False bs] by blast
    obtain o2 where o2: "bw_bios w1 p = Some o2" using w1(2) by (auto simp: pair_rep_def bio_rep_def)
    let ?f = "\<lambda>b. b\<lparr>bi_num_write := szw (bi_num_write b + nat (fst (half_write bs A)))\<rparr>"
    have "pair_rep (w1\<lparr>bw_bios := (bw_bios w1)(p \<mapsto> ?f o2)\<rparr>) p q (snd (half_write bs A)) B"
      using pair_rep_modify [OF w1(2), of ?f] o2 by simp
    then show ?thesis using False o1 w1 o2 by (auto simp: BIO_write_def bm_write_def)
  qed
qed

theorem BIO_read_refines:
  assumes rep: "pair_rep w p q A B" and m: "m < 2 ^ 31"
  shows "\<exists>w'. BIO_read (Some p) False m w = Some (if m \<le> 0 then (0, []) else fst (half_read m B), w')
    \<and> pair_rep w' p q A (if m \<le> 0 then B else snd (half_read m B))"
proof -
  obtain o1 where o1: "bw_bios w p = Some o1" "bi_method o1 = methods_biop" "bi_init o1"
    using rep by (auto simp: pair_rep_def bio_rep_def)
  show ?thesis
  proof (cases "m \<le> 0")
    case True
    then show ?thesis using o1 rep by (simp add: BIO_read_def)
  next
    case False
    obtain w1 where w1: "bio_read p False m w = Some (fst (half_read m B), w1)" "pair_rep w1 p q A (snd (half_read m B))"
      using bio_read_refines [OF rep _ m] False by auto
    obtain o2 where o2: "bw_bios w1 p = Some o2" using w1(2) by (auto simp: pair_rep_def bio_rep_def)
    let ?f = "\<lambda>b. b\<lparr>bi_num_read := szw (bi_num_read b + nat (fst (fst (half_read m B))))\<rparr>"
    have "pair_rep (w1\<lparr>bw_bios := (bw_bios w1)(p \<mapsto> ?f o2)\<rparr>) p q A (snd (half_read m B))"
      using pair_rep_modify [OF w1(2), of ?f] o2 by simp
    then show ?thesis using False o1 w1 o2 by (auto simp: BIO_read_def bm_read_def split: prod.splits)
  qed
qed

end
