(* ===== verification/Bio_Pair_Run.thy ===== *)
theory Bio_Pair_Run
  imports Bio_Pair_Correct
begin

text \<open>
  \<open>BIO\<close> pairs over time: creation with all its failure paths, the states that any interleaving of calls on the two
  halves can reach, and progress of a writer and a reader that take turns.
\<close>

section \<open>Control calls\<close>

lemma pair_ptr:
  assumes "pair_rep w p q A B"
  obtains o1 b where "bw_bios w p = Some o1" "bi_method o1 = methods_biop" "bi_init o1" "bi_ptr o1 = Ptr_pair b" "half_rep b q A"
  using assms by (auto simp: pair_rep_def bio_rep_def)

lemma BIO_shutdown_wr_refines:
  assumes "pair_rep w p q A B"
  shows "\<exists>w'. BIO_shutdown_wr (Some p) w = Some (1, w') \<and> pair_rep w' p q (A\<lparr>hf_closed := True\<rparr>) B"
proof -
  obtain o1 b where o1: "bw_bios w p = Some o1" "bi_method o1 = methods_biop" "bi_init o1" "bi_ptr o1 = Ptr_pair b" "half_rep b q A"
    using assms by (rule pair_ptr)
  have "half_rep (b\<lparr>bp_closed := True\<rparr>) q (A\<lparr>hf_closed := True\<rparr>)" using o1(5) by (auto simp: half_rep_def ring_ok_def ring_data_def)
  then show ?thesis using o1 assms
    by (auto simp: BIO_shutdown_wr_def BIO_ctrl_def bm_ctrl_def bio_ctrl_def pair_of_def set_pair_def bio_cmd_defs pair_rep_def bio_rep_def)
qed

lemma BIO_pending_pair:
  assumes "pair_rep w p q A B"
  shows "BIO_pending (Some q) w = Some (length (hf_queue A), w)"
proof -
  obtain o1 b where o1: "bw_bios w p = Some o1" "bi_ptr o1 = Ptr_pair b" "half_rep b q A" using assms by (rule pair_ptr)
  obtain o2 c where o2: "bw_bios w q = Some o2" "bi_method o2 = methods_biop" "bi_ptr o2 = Ptr_pair c" "half_rep c p B"
    using pair_ptr [OF assms [unfolded pair_rep_sym [of w p]]] by metis
  then have "bp_peer c = Some p" by (simp add: half_rep_def)
  then show ?thesis using o1 o2
    by (auto simp: BIO_pending_def BIO_ctrl_def bm_ctrl_def bio_ctrl_def pair_of_def bio_cmd_defs half_rep_def)
qed

lemma BIO_guarantee_pair:
  assumes "pair_rep w p q A B"
  shows "BIO_ctrl_get_write_guarantee (Some p) w
    = Some (if hf_closed A then 0 else int (hf_cap A) - int (length (hf_queue A)), w)"
proof -
  obtain o1 b where o1: "bw_bios w p = Some o1" "bi_method o1 = methods_biop" "bi_ptr o1 = Ptr_pair b" "half_rep b q A"
    using assms by (rule pair_ptr)
  then show ?thesis
    by (auto simp: BIO_ctrl_get_write_guarantee_def BIO_ctrl_def bm_ctrl_def bio_ctrl_def pair_of_def bio_cmd_defs half_rep_def)
qed

text \<open>Every control call leaves the two queues as they are; \<open>BIO_C_SHUTDOWN_WR\<close> closes the half.\<close>

definition reads_only :: "'a io \<Rightarrow> bool" where
  "reads_only m \<longleftrightarrow> (\<forall>w x w'. m w = Some (x, w') \<longrightarrow> w' = w)"

lemma reads_only_intros:
  "reads_only (io_return x)" "reads_only io_undefined" "reads_only (get_bio r)"
  "reads_only m \<Longrightarrow> (\<And>x. reads_only (f x)) \<Longrightarrow> reads_only (io_bind m f)"
  "(c \<Longrightarrow> reads_only a) \<Longrightarrow> (\<not> c \<Longrightarrow> reads_only b) \<Longrightarrow> reads_only (if c then a else b)"
proof -
  show "reads_only m \<Longrightarrow> (\<And>x. reads_only (f x)) \<Longrightarrow> reads_only (io_bind m f)"
    unfolding reads_only_def io_bind_def by (clarsimp split: option.splits) metis
qed (auto simp: reads_only_def io_return_def io_undefined_def get_bio_def split: option.splits)

lemma pair_of_reads: "reads_only (pair_of r)"
  unfolding pair_of_def by (intro reads_only_intros) (auto split: bio_ptr.split intro: reads_only_intros)

lemma bio_ctrl_reads:
  assumes "cmd \<noteq> BIO_C_RESET_READ_REQUEST" "cmd \<noteq> BIO_C_SHUTDOWN_WR" "cmd \<noteq> BIO_CTRL_SET_CLOSE"
  shows "reads_only (bio_ctrl p cmd larg ptr)"
  unfolding bio_ctrl_def using assms
  by (intro reads_only_intros pair_of_reads) (auto split: option.split intro!: reads_only_intros pair_of_reads)

lemma BIO_ctrl_pair:
  assumes "pair_rep w p q A B" "BIO_ctrl (Some p) cmd larg parg w = Some (n, w')"
  shows "\<exists>A'. pair_rep w' p q A' B \<and> hf_queue A' = hf_queue A"
proof -
  obtain o1 b where o1: "bw_bios w p = Some o1" "bi_method o1 = methods_biop" "bi_init o1" "bi_ptr o1 = Ptr_pair b" "half_rep b q A"
    using assms(1) by (rule pair_ptr)
  have pq: "p \<noteq> q" using assms(1) by (simp add: pair_rep_def)
  have set: "\<exists>A'. pair_rep w1 p q A' B \<and> hf_queue A' = hf_queue A"
    if "w1 = w\<lparr>bw_bios := (bw_bios w)(p \<mapsto> o2)\<rparr>" "bi_method o2 = methods_biop" "bi_init o2" "bi_ptr o2 = Ptr_pair c"
      "ring_ok c" "bp_peer c = bp_peer b" "ring_data c = ring_data b" for w1 o2 c
  proof -
    have "half_rep c q \<lparr>hf_queue = ring_data c, hf_closed = bp_closed c, hf_cap = bp_size c\<rparr>"
      using that o1(5) by (simp add: half_rep_def)
    then show ?thesis using that o1 assms(1) pq
      by (intro exI [of _ "\<lparr>hf_queue = ring_data c, hf_closed = bp_closed c, hf_cap = bp_size c\<rparr>"]) (auto simp: pair_rep_def bio_rep_def half_rep_def)
  qed
  have c: "ring_ok (b\<lparr>bp_request := 0\<rparr>)" "ring_ok (b\<lparr>bp_closed := True\<rparr>)" "ring_ok b"
    "ring_data (b\<lparr>bp_request := 0\<rparr>) = ring_data b" "ring_data (b\<lparr>bp_closed := True\<rparr>) = ring_data b"
    using o1(5) by (auto simp: half_rep_def ring_ok_def ring_data_def)
  obtain ptr where ctrl: "bio_ctrl p cmd larg ptr w = Some (n, w')"
    using assms(2) o1(1,2) by (auto simp: BIO_ctrl_def bm_ctrl_def)
  consider "cmd = BIO_C_RESET_READ_REQUEST" | "cmd = BIO_C_SHUTDOWN_WR" | "cmd = BIO_CTRL_SET_CLOSE" | "reads_only (bio_ctrl p cmd larg ptr)"
    using bio_ctrl_reads by blast
  then have run: "w' = w \<or> w' = w\<lparr>bw_bios := (bw_bios w)(p \<mapsto> o1\<lparr>bi_ptr := Ptr_pair (b\<lparr>bp_request := 0\<rparr>)\<rparr>)\<rparr>
    \<or> w' = w\<lparr>bw_bios := (bw_bios w)(p \<mapsto> o1\<lparr>bi_ptr := Ptr_pair (b\<lparr>bp_closed := True\<rparr>)\<rparr>)\<rparr>
    \<or> w' = w\<lparr>bw_bios := (bw_bios w)(p \<mapsto> o1\<lparr>bi_shutdown := larg\<rparr>)\<rparr>"
  proof cases
    case 4
    then show ?thesis using ctrl by (simp add: reads_only_def)
  qed (use ctrl o1(1,4) in \<open>simp_all add: bio_ctrl_def pair_of_def set_pair_def bio_cmd_defs\<close>)
  then show ?thesis
  proof (elim disjE)
    assume "w' = w"
    then show ?thesis using assms(1) by blast
  next
    assume "w' = w\<lparr>bw_bios := (bw_bios w)(p \<mapsto> o1\<lparr>bi_ptr := Ptr_pair (b\<lparr>bp_request := 0\<rparr>)\<rparr>)\<rparr>"
    then show ?thesis by (rule set [OF _ _ _ _ c(1)]) (simp_all add: o1 c)
  next
    assume "w' = w\<lparr>bw_bios := (bw_bios w)(p \<mapsto> o1\<lparr>bi_ptr := Ptr_pair (b\<lparr>bp_closed := True\<rparr>)\<rparr>)\<rparr>"
    then show ?thesis by (rule set [OF _ _ _ _ c(2)]) (simp_all add: o1 c)
  next
    assume "w' = w\<lparr>bw_bios := (bw_bios w)(p \<mapsto> o1\<lparr>bi_shutdown := larg\<rparr>)\<rparr>"
    then show ?thesis by (rule set [OF _ _ _ _ c(3)]) (simp_all add: o1)
  qed
qed

section \<open>Creation\<close>

text \<open>Addresses of objects are numbers of past allocations.\<close>

definition world_ok :: "bio_world \<Rightarrow> bool" where
  "world_ok w \<longleftrightarrow> (\<forall>r. bw_bios w r \<noteq> None \<longrightarrow> r < hp_calls (bw_heap w)) \<and> heap_sane (bw_heap w)"

lemma mem_malloc_calls: "mem_malloc n h = (r, h') \<Longrightarrow> hp_calls h' = Suc (hp_calls h) \<and> (heap_sane h' \<longleftrightarrow> heap_sane h)"
  by (auto simp: mem_malloc_def c_malloc_def Let_def heap_sane_def split: if_splits)

lemma mem_free_calls [simp]: "hp_calls (mem_free p h) = hp_calls h" "heap_sane (mem_free p h) = heap_sane h"
  by (auto simp: mem_free_def c_free_def heap_sane_def split: option.splits)

definition new_half :: bio_bio_st where
  "new_half = \<lparr>bp_peer = None, bp_closed = False, bp_len = 0, bp_offset = 0, bp_size = 17 * 1024, bp_buf = None, bp_request = 0\<rparr>"

definition half_obj :: "bio_bio_st \<Rightarrow> bio_st" where
  "half_obj b = (fresh_bio methods_biop)\<lparr>bi_ptr := Ptr_pair b\<rparr>"

text \<open>\<open>heap_later h h'\<close>: calls of the allocator lead from \<open>h\<close> to \<open>h'\<close>.\<close>

definition heap_later :: "heap \<Rightarrow> heap \<Rightarrow> bool" where
  "heap_later h h' \<longleftrightarrow> hp_calls h \<le> hp_calls h' \<and> (heap_sane h \<longrightarrow> heap_sane h')"

lemma BIO_new_pair:
  "\<exists>r h. BIO_new methods_biop w = Some (r, case r of None \<Rightarrow> w\<lparr>bw_bios := bw_bios w, bw_heap := h\<rparr>
        | Some p \<Rightarrow> w\<lparr>bw_bios := (bw_bios w)(p \<mapsto> half_obj new_half), bw_heap := h\<rparr>)
     \<and> (r = None \<or> r = Some (hp_calls (bw_heap w)) \<and> hp_calls (bw_heap w) < hp_calls h) \<and> heap_later (bw_heap w) h"
  if fresh: "bw_bios w (hp_calls (bw_heap w)) = None"
proof -
  let ?p = "hp_calls (bw_heap w)"
  obtain r1 h1 where m1: "mem_malloc 64 (bw_heap w) = (r1, h1)" by fastforce
  obtain r2 h2 where m2: "mem_malloc 56 h1 = (r2, h2)" by fastforce
  note calls = mem_malloc_calls [OF m1] mem_malloc_calls [OF m2]
  have e: "(bw_bios w)(?p := None) = bw_bios w" using fresh by auto
  show ?thesis
  proof (cases r1)
    case None
    then show ?thesis using m1 calls by (intro exI [of _ None] exI [of _ h1]) (simp add: BIO_new_def Let_def heap_later_def)
  next
    case (Some blk)
    show ?thesis
    proof (cases r2)
      case None
      then show ?thesis using m1 m2 Some calls
        by (intro exI [of _ None] exI [of _ "mem_free (Some (replicate 64 0)) h2"])
          (simp add: BIO_new_def Let_def bm_create_def bio_new_def io_malloc_def io_bind_def free_bio_def e heap_later_def)
    next
      case s2: (Some blk2)
      then show ?thesis using m1 m2 Some calls
        by (intro exI [of _ "Some ?p"] exI [of _ h2])
          (simp add: BIO_new_def Let_def bm_create_def bio_new_def io_malloc_def io_bind_def set_pair_def half_obj_def new_half_def heap_later_def)
    qed
  qed
qed

lemma BIO_free_half:
  assumes "bw_bios w p = Some (half_obj b)" "bp_peer b = None"
  shows "\<exists>h. BIO_free (Some p) w = Some (True, w\<lparr>bw_bios := (bw_bios w)(p := None), bw_heap := h\<rparr>) \<and> heap_later (bw_heap w) h"
proof -
  have f: "BIO_free None w' = Some (True, w')" for w' by (subst BIO_free.simps) simp
  show ?thesis using assms
    by (subst BIO_free.simps)
      (auto simp: drop_ref_def half_obj_def fresh_bio_def CRYPTO_refcount_dec_and_test_zero_def CRYPTO_REFCOUNT_MAX_def Let_def
        BIO_pop_def destroy_bio_def bm_destroy_def bio_free_def pair_of_def io_free_def free_bio_def io_bind_def f heap_later_def)
qed

definition pair_cap :: "nat \<Rightarrow> nat" where
  "pair_cap n = (if n = 0 then 17 * 1024 else n)"

lemma make_buf_new:
  assumes p: "bw_bios w p = Some (half_obj new_half)" and n: "n < 2 ^ 62"
  shows "\<exists>ok h b. make_buf p n w = Some (ok, w\<lparr>bw_bios := (bw_bios w)(p \<mapsto> half_obj b), bw_heap := h\<rparr>) \<and> heap_later (bw_heap w) h
    \<and> bp_peer b = None \<and> (ok \<longrightarrow> ring_ok b \<and> ring_data b = [] \<and> bp_size b = pair_cap n)"
proof -
  obtain r h where m: "mem_malloc (pair_cap n) (bw_heap w) = (r, h)" by fastforce
  let ?b = "new_half\<lparr>bp_size := pair_cap n\<rparr>"
  have h: "heap_later (bw_heap w) h" using mem_malloc_calls [OF m] by (simp add: heap_later_def)
  have run: "make_buf p n w = (if r = None then Some (False, w\<lparr>bw_bios := (bw_bios w)(p \<mapsto> half_obj ?b), bw_heap := h\<rparr>)
      else Some (True, w\<lparr>bw_bios := (bw_bios w)(p \<mapsto> half_obj (?b\<lparr>bp_buf := r, bp_len := 0, bp_offset := 0\<rparr>)), bw_heap := h\<rparr>))"
    using p m
    by (cases "n = 0"; cases r)
      (simp_all add: make_buf_def pair_of_def half_obj_def Let_def io_malloc_def io_bind_def set_pair_def new_half_def pair_cap_def)
  show ?thesis
  proof (cases r)
    case None
    then show ?thesis using run h by (intro exI [of _ False] exI [of _ h] exI [of _ ?b]) (simp add: new_half_def)
  next
    case (Some blk)
    have c: "pair_cap n < 2 ^ 62" "0 < pair_cap n" using n by (simp_all add: pair_cap_def)
    have "length blk = pair_cap n" using mem_malloc_length [OF m [unfolded Some]] c by simp
    then have "ring_ok (?b\<lparr>bp_buf := r, bp_len := 0, bp_offset := 0\<rparr>)" using c Some by (simp add: ring_ok_def bp_bytes_def)
    then show ?thesis using run h Some
      by (intro exI [of _ True] exI [of _ h] exI [of _ "?b\<lparr>bp_buf := r, bp_len := 0, bp_offset := 0\<rparr>"]) (simp add: new_half_def ring_data_def)
  qed
qed

abbreviation empty_half :: "nat \<Rightarrow> half" where
  "empty_half n \<equiv> \<lparr>hf_queue = [], hf_closed = False, hf_cap = pair_cap n\<rparr>"

lemma make_pair_new:
  assumes pq: "p \<noteq> q" and p: "bw_bios w p = Some (half_obj new_half)" and q: "bw_bios w q = Some (half_obj new_half)"
    and n: "n1 < 2 ^ 62" "n2 < 2 ^ 62"
  shows "\<exists>ok h w'. bio_make_pair p q n1 n2 w = Some (ok, w') \<and> (\<forall>r. r \<noteq> p \<and> r \<noteq> q \<longrightarrow> bw_bios w' r = bw_bios w r) \<and> heap_later (bw_heap w) (bw_heap w')
    \<and> (if ok then pair_rep w' p q (empty_half n1) (empty_half n2)
       else \<exists>b1 b2. bw_bios w' p = Some (half_obj b1) \<and> bw_bios w' q = Some (half_obj b2) \<and> bp_peer b1 = None \<and> bp_peer b2 = None)"
proof -
  have peers: "bp_peer new_half = None" "bp_closed new_half = False" by (simp_all add: new_half_def)
  obtain ok1 h1 b1 where m1: "make_buf p n1 w = Some (ok1, w\<lparr>bw_bios := (bw_bios w)(p \<mapsto> half_obj b1), bw_heap := h1\<rparr>)"
    "heap_later (bw_heap w) h1" "bp_peer b1 = None" "ok1 \<longrightarrow> ring_ok b1 \<and> ring_data b1 = [] \<and> bp_size b1 = pair_cap n1"
    using make_buf_new [OF p n(1)] by blast
  let ?w1 = "w\<lparr>bw_bios := (bw_bios w)(p \<mapsto> half_obj b1), bw_heap := h1\<rparr>"
  have q1: "bw_bios ?w1 q = Some (half_obj new_half)" using q pq by simp
  obtain ok2 h2 b2 where m2: "make_buf q n2 ?w1 = Some (ok2, ?w1\<lparr>bw_bios := (bw_bios ?w1)(q \<mapsto> half_obj b2), bw_heap := h2\<rparr>)"
    "heap_later (bw_heap ?w1) h2" "bp_peer b2 = None" "ok2 \<longrightarrow> ring_ok b2 \<and> ring_data b2 = [] \<and> bp_size b2 = pair_cap n2"
    using make_buf_new [OF q1 n(2)] by blast
  have hl: "heap_later (bw_heap w) h2" using m1(2) m2(2) by (simp add: heap_later_def)
  have ptr: "bi_ptr (half_obj b) = Ptr_pair b" "bi_method (half_obj b) = methods_biop" for b by (simp_all add: half_obj_def fresh_bio_def)
  have conn: "half_rep (b\<lparr>bp_peer := Some r, bp_closed := False, bp_request := 0\<rparr>) r (empty_half n)"
    if "ring_ok b" "ring_data b = []" "bp_size b = pair_cap n" for b r n
    using that by (simp add: half_rep_def ring_ok_def ring_data_def bp_bytes_def)
  have pre: "bio_make_pair p q n1 n2 w =
      (if \<not> ok1 then Some (False, ?w1) else if \<not> ok2 then Some (False, ?w1\<lparr>bw_bios := (bw_bios ?w1)(q \<mapsto> half_obj b2), bw_heap := h2\<rparr>)
       else io_bind (connect_half p q) (\<lambda>_. io_bind (connect_half q p) (\<lambda>_.
         io_bind (modify_bio p (\<lambda>b. b\<lparr>bi_init := True\<rparr>)) (\<lambda>_. io_bind (modify_bio q (\<lambda>b. b\<lparr>bi_init := True\<rparr>)) (\<lambda>_. io_return True))))
         (?w1\<lparr>bw_bios := (bw_bios ?w1)(q \<mapsto> half_obj b2), bw_heap := h2\<rparr>))"
    using p q m1(1) m2(1) peers by (simp add: bio_make_pair_def pair_of_def ptr)
  show ?thesis
  proof (cases "ok1 \<and> ok2")
    case False
    then show ?thesis using pre m1 m2 q1 pq hl peers by (cases ok1) auto
  next
    case True
    then show ?thesis using pre m1 m2 pq hl conn [of b1 n1 q] conn [of b2 n2 p]
      by (auto simp: connect_half_def pair_of_def ptr set_pair_def pair_rep_def bio_rep_def)
  qed
qed

lemma BIO_new_bio_pair_spec:
  assumes ok: "world_ok w" and n: "n1 < 2 ^ 62" "n2 < 2 ^ 62"
  shows "\<exists>r w'. BIO_new_bio_pair n1 n2 w = Some (r, w') \<and> heap_later (bw_heap w) (bw_heap w') \<and>
    (case r of None \<Rightarrow> bw_bios w' = bw_bios w
     | Some (p, q) \<Rightarrow> pair_rep w' p q (empty_half n1) (empty_half n2) \<and> bw_bios w p = None \<and> bw_bios w q = None
         \<and> (\<forall>r. r \<noteq> p \<and> r \<noteq> q \<longrightarrow> bw_bios w' r = bw_bios w r))"
proof -
  let ?p = "hp_calls (bw_heap w)"
  have fresh: "bw_bios w r = None" if "?p \<le> r" for r using ok that by (force simp: world_ok_def)
  obtain r1 h1 where 1: "BIO_new methods_biop w = Some (r1, case r1 of None \<Rightarrow> w\<lparr>bw_bios := bw_bios w, bw_heap := h1\<rparr>
        | Some p \<Rightarrow> w\<lparr>bw_bios := (bw_bios w)(p \<mapsto> half_obj new_half), bw_heap := h1\<rparr>)"
     "r1 = None \<or> r1 = Some ?p \<and> ?p < hp_calls h1" "heap_later (bw_heap w) h1"
    using BIO_new_pair [OF fresh [of ?p]] by blast
  define w1 where "w1 = (case r1 of None \<Rightarrow> w\<lparr>bw_bios := bw_bios w, bw_heap := h1\<rparr>
        | Some p \<Rightarrow> w\<lparr>bw_bios := (bw_bios w)(p \<mapsto> half_obj new_half), bw_heap := h1\<rparr>)"
  have h1: "bw_heap w1 = h1" by (simp add: w1_def split: option.split)
  let ?q = "hp_calls h1"
  have fq: "bw_bios w1 ?q = None" using 1(2,3) fresh [of ?q] by (auto simp: w1_def heap_later_def)
  obtain r2 h2 where 2: "BIO_new methods_biop w1 = Some (r2, case r2 of None \<Rightarrow> w1\<lparr>bw_bios := bw_bios w1, bw_heap := h2\<rparr>
        | Some p \<Rightarrow> w1\<lparr>bw_bios := (bw_bios w1)(p \<mapsto> half_obj new_half), bw_heap := h2\<rparr>)"
     "r2 = None \<or> r2 = Some ?q \<and> ?q < hp_calls h2" "heap_later h1 h2"
    using BIO_new_pair [of w1] fq h1 by auto
  define w2 where "w2 = (case r2 of None \<Rightarrow> w1\<lparr>bw_bios := bw_bios w1, bw_heap := h2\<rparr>
        | Some p \<Rightarrow> w1\<lparr>bw_bios := (bw_bios w1)(p \<mapsto> half_obj new_half), bw_heap := h2\<rparr>)"
  have h2: "bw_heap w2 = h2" by (simp add: w2_def split: option.split)
  have hl: "heap_later (bw_heap w) h2" using 1(3) 2(3) by (simp add: heap_later_def)
  have run: "BIO_new_bio_pair n1 n2 w = io_bind (case (r1, r2) of (Some p, Some q) \<Rightarrow> bio_make_pair p q n1 n2 | _ \<Rightarrow> io_return False) (\<lambda>ok.
       if \<not> ok then io_bind (BIO_free r1) (\<lambda>_. io_bind (BIO_free r2) (\<lambda>_. io_return None))
       else io_return (Some (the r1, the r2))) w2"
    using 1(1) [folded w1_def] 2(1) [folded w2_def] by (simp add: BIO_new_bio_pair_def)
  have f0: "BIO_free None w' = Some (True, w')" for w' by (subst BIO_free.simps) simp
  show ?thesis
  proof (cases "r1 \<noteq> None \<and> r2 \<noteq> None")
    case False
    then consider "r1 = None" "r2 = None" | "r1 = Some ?p" "r2 = None" | "r1 = None" "r2 = Some ?q" using 1(2) 2(2) by auto
    then show ?thesis
    proof cases
      case 1
      then show ?thesis using run hl by (simp add: f0 w1_def w2_def)
    next
      case 2
      have "bw_bios w2 ?p = Some (half_obj new_half)" using 2 by (simp add: w1_def w2_def)
      then obtain h where "BIO_free (Some ?p) w2 = Some (True, w2\<lparr>bw_bios := (bw_bios w2)(?p := None), bw_heap := h\<rparr>)" "heap_later (bw_heap w2) h"
        using BIO_free_half [of w2 ?p new_half] by (auto simp: new_half_def)
      then show ?thesis using run 2 hl fresh [of ?p] h2 by (auto simp: f0 w1_def w2_def heap_later_def fun_upd_idem)
    next
      case 3
      have "bw_bios w2 ?q = Some (half_obj new_half)" using 3 by (simp add: w1_def w2_def)
      then obtain h where "BIO_free (Some ?q) w2 = Some (True, w2\<lparr>bw_bios := (bw_bios w2)(?q := None), bw_heap := h\<rparr>)" "heap_later (bw_heap w2) h"
        using BIO_free_half [of w2 ?q new_half] by (auto simp: new_half_def)
      then show ?thesis using run 3 hl fq h2 by (auto simp: f0 w1_def w2_def heap_later_def fun_upd_idem)
    qed
  next
    case True
    then have r: "r1 = Some ?p" "r2 = Some ?q" "?p < ?q" using 1(2) 2(2) by auto
    have b2: "bw_bios w2 = (bw_bios w)(?p \<mapsto> half_obj new_half, ?q \<mapsto> half_obj new_half)" using r by (simp add: w1_def w2_def)
    have fpq: "bw_bios w ?p = None" "bw_bios w ?q = None" using fresh r(3) by auto
    obtain ok w3 where m: "bio_make_pair ?p ?q n1 n2 w2 = Some (ok, w3)" "\<forall>r. r \<noteq> ?p \<and> r \<noteq> ?q \<longrightarrow> bw_bios w3 r = bw_bios w2 r"
      "heap_later (bw_heap w2) (bw_heap w3)"
      "if ok then pair_rep w3 ?p ?q (empty_half n1) (empty_half n2)
       else \<exists>b1 b2. bw_bios w3 ?p = Some (half_obj b1) \<and> bw_bios w3 ?q = Some (half_obj b2) \<and> bp_peer b1 = None \<and> bp_peer b2 = None"
      using make_pair_new [of ?p ?q w2 n1 n2] b2 r(3) n by auto
    show ?thesis
    proof (cases ok)
      case True
      then show ?thesis using run r m hl h2 fpq b2 by (auto simp: heap_later_def)
    next
      case False
      then obtain b1 b3 where b: "bw_bios w3 ?p = Some (half_obj b1)" "bw_bios w3 ?q = Some (half_obj b3)" "bp_peer b1 = None" "bp_peer b3 = None"
        using m(4) by auto
      obtain h3 where f1: "BIO_free (Some ?p) w3 = Some (True, w3\<lparr>bw_bios := (bw_bios w3)(?p := None), bw_heap := h3\<rparr>)" "heap_later (bw_heap w3) h3"
        using BIO_free_half [OF b(1,3)] by blast
      let ?w4 = "w3\<lparr>bw_bios := (bw_bios w3)(?p := None), bw_heap := h3\<rparr>"
      have "bw_bios ?w4 ?q = Some (half_obj b3)" using b(2) r(3) by simp
      from BIO_free_half [OF this b(4)] obtain h4 where
        f2: "BIO_free (Some ?q) ?w4 = Some (True, ?w4\<lparr>bw_bios := (bw_bios ?w4)(?q := None), bw_heap := h4\<rparr>)" "heap_later (bw_heap ?w4) h4"
        by blast
      have "(bw_bios w3)(?p := None, ?q := None) = bw_bios w" using m(2) b2 fpq r(3) by (auto simp: fun_eq_iff)
      then show ?thesis using run r m False f1 f2 hl h2 by (auto simp: heap_later_def)
    qed
  qed
qed

section \<open>Reachable states\<close>

text \<open>\<open>pair_reach p q w s1 r2 s2 r1\<close>: some interleaving of calls on a fresh pair at \<open>p\<close> and \<open>q\<close> leads to \<open>w\<close>; \<open>s1\<close> and
  \<open>s2\<close> are the bytes that writes on \<open>p\<close> and on \<open>q\<close> accepted, \<open>r2\<close> and \<open>r1\<close> the bytes that reads on \<open>q\<close> and on
  \<open>p\<close> returned.\<close>

inductive pair_reach :: "addr \<Rightarrow> addr \<Rightarrow> bio_world \<Rightarrow> u8 list \<Rightarrow> u8 list \<Rightarrow> u8 list \<Rightarrow> u8 list \<Rightarrow> bool" for p q where
  create: "world_ok w0 \<Longrightarrow> n1 < 2 ^ 62 \<Longrightarrow> n2 < 2 ^ 62 \<Longrightarrow> BIO_new_bio_pair n1 n2 w0 = Some (Some (p, q), w)
     \<Longrightarrow> pair_reach p q w [] [] [] []"
| write1: "pair_reach p q w s1 r2 s2 r1 \<Longrightarrow> length bs < 2 ^ 31 \<Longrightarrow> BIO_write (Some p) (Some bs) (int (length bs)) w = Some (n, w')
     \<Longrightarrow> pair_reach p q w' (s1 @ take (nat n) bs) r2 s2 r1"
| write2: "pair_reach p q w s1 r2 s2 r1 \<Longrightarrow> length bs < 2 ^ 31 \<Longrightarrow> BIO_write (Some q) (Some bs) (int (length bs)) w = Some (n, w')
     \<Longrightarrow> pair_reach p q w' s1 r2 (s2 @ take (nat n) bs) r1"
| read1: "pair_reach p q w s1 r2 s2 r1 \<Longrightarrow> m < 2 ^ 31 \<Longrightarrow> BIO_read (Some p) False m w = Some ((n, out), w')
     \<Longrightarrow> pair_reach p q w' s1 r2 s2 (r1 @ out)"
| read2: "pair_reach p q w s1 r2 s2 r1 \<Longrightarrow> m < 2 ^ 31 \<Longrightarrow> BIO_read (Some q) False m w = Some ((n, out), w')
     \<Longrightarrow> pair_reach p q w' s1 (r2 @ out) s2 r1"
| ctrl1: "pair_reach p q w s1 r2 s2 r1 \<Longrightarrow> BIO_ctrl (Some p) cmd larg parg w = Some (k, w') \<Longrightarrow> pair_reach p q w' s1 r2 s2 r1"
| ctrl2: "pair_reach p q w s1 r2 s2 r1 \<Longrightarrow> BIO_ctrl (Some q) cmd larg parg w = Some (k, w') \<Longrightarrow> pair_reach p q w' s1 r2 s2 r1"

lemma write_queue:
  assumes "pair_rep w p q A B" "length bs < 2 ^ 31" "BIO_write (Some p) (Some bs) (int (length bs)) w = Some (n, w')"
  shows "\<exists>A'. pair_rep w' p q A' B \<and> hf_queue A' = hf_queue A @ take (nat n) bs \<and> hf_closed A' = hf_closed A \<and> hf_cap A' = hf_cap A"
proof -
  obtain w1 where "BIO_write (Some p) (Some bs) (int (length bs)) w = Some (if bs = [] then 0 else fst (half_write bs A), w1)"
    "pair_rep w1 p q (if bs = [] then A else snd (half_write bs A)) B"
    using BIO_write_refines [OF assms(1,2)] by blast
  then have n: "n = (if bs = [] then 0 else fst (half_write bs A))" "pair_rep w' p q (if bs = [] then A else snd (half_write bs A)) B"
    using assms(3) by auto
  then show ?thesis by (auto simp: half_write_def Let_def min_def split: if_splits intro!: exI)
qed

lemma read_queue:
  assumes "pair_rep w p q A B" "m < 2 ^ 31" "BIO_read (Some p) False m w = Some ((n, out), w')"
  shows "\<exists>B'. pair_rep w' p q A B' \<and> hf_queue B = out @ hf_queue B' \<and> hf_closed B' = hf_closed B \<and> hf_cap B' = hf_cap B
    \<and> out = take (nat m) (hf_queue B)"
proof -
  obtain w1 where "BIO_read (Some p) False m w = Some (if m \<le> 0 then (0, []) else fst (half_read m B), w1)"
    "pair_rep w1 p q A (if m \<le> 0 then B else snd (half_read m B))"
    using BIO_read_refines [OF assms(1,2)] by blast
  then have n: "(n, out) = (if m \<le> 0 then (0, []) else fst (half_read m B))" "pair_rep w' p q A (if m \<le> 0 then B else snd (half_read m B))"
    using assms(3) by auto
  then show ?thesis by (auto simp: half_read_def Let_def min_def split: if_splits intro!: exI)
qed

lemma pair_reach_inv:
  "pair_reach p q w s1 r2 s2 r1 \<Longrightarrow> \<exists>A B. pair_rep w p q A B \<and> s1 = r2 @ hf_queue A \<and> s2 = r1 @ hf_queue B"
proof (induction rule: pair_reach.induct)
  case (create w0 n1 n2 w)
  then show ?case using BIO_new_bio_pair_spec [of w0 n1 n2] by fastforce
next
  case (write1 w s1 r2 s2 r1 bs n w')
  then show ?case using write_queue by fastforce
next
  case (write2 w s1 r2 s2 r1 bs n w')
  then show ?case using write_queue [of w q p] by (fastforce simp: pair_rep_sym [of _ p q])
next
  case (read1 w s1 r2 s2 r1 m n out w')
  then show ?case using read_queue by fastforce
next
  case (read2 w s1 r2 s2 r1 m n out w')
  then show ?case using read_queue [of w q p] by (fastforce simp: pair_rep_sym [of _ p q])
next
  case (ctrl1 w s1 r2 s2 r1 cmd larg parg k w')
  then show ?case using BIO_ctrl_pair by fastforce
next
  case (ctrl2 w s1 r2 s2 r1 cmd larg parg k w')
  then show ?case using BIO_ctrl_pair [of w q p] by (fastforce simp: pair_rep_sym [of _ p q])
qed

text \<open>C13. A pair delivers in order.  In every state that an interleaving of reads, writes and control calls (with any
  command, those that change the state included) on the two halves of a new pair can reach, the bytes read from each
  half are a prefix of the bytes that the other half's writes accepted, the rest is what \<open>BIO_pending\<close> counts, and every further read or write is defined: the ring
  buffers are never accessed outside their bounds and their copy loops end after at most two rounds.\<close>

theorem pair_delivers_in_order:
  assumes "pair_reach p q w s1 r2 s2 r1"
  shows "(\<exists>rest. s1 = r2 @ rest \<and> BIO_pending (Some q) w = Some (length rest, w))
    \<and> (\<exists>rest. s2 = r1 @ rest \<and> BIO_pending (Some p) w = Some (length rest, w))
    \<and> (\<forall>x bs m. x \<in> {p, q} \<and> length bs < 2 ^ 31 \<and> m < 2 ^ 31 \<longrightarrow>
        BIO_write (Some x) (Some bs) (int (length bs)) w \<noteq> None \<and> BIO_read (Some x) False m w \<noteq> None)"
proof -
  obtain A B where ab: "pair_rep w p q A B" "s1 = r2 @ hf_queue A" "s2 = r1 @ hf_queue B" using pair_reach_inv [OF assms] by blast
  note ba = ab(1) [unfolded pair_rep_sym [of w p]]
  show ?thesis
    using ab(2,3) BIO_pending_pair [OF ab(1)] BIO_pending_pair [OF ba] BIO_write_refines [OF ab(1)] BIO_write_refines [OF ba]
      BIO_read_refines [OF ab(1)] BIO_read_refines [OF ba] by fastforce
qed

section \<open>Progress\<close>

text \<open>A writer and a reader that take turns, for \<open>k\<close> rounds: the writer offers what is left of its message.\<close>

primrec pump :: "(u8 list \<Rightarrow> 'w \<Rightarrow> (int \<times> 'w) option) \<Rightarrow> (int \<Rightarrow> 'w \<Rightarrow> ((int \<times> u8 list) \<times> 'w) option) \<Rightarrow> int
    \<Rightarrow> nat \<Rightarrow> u8 list \<Rightarrow> 'w \<Rightarrow> (u8 list \<times> 'w) option" where
  "pump wr rd m 0 bs w = Some ([], w)"
| "pump wr rd m (Suc k) bs w =
     (case (if bs = [] then Some (0, w) else wr bs w) of
        None \<Rightarrow> None
      | Some (n, w1) \<Rightarrow>
          (case rd m w1 of
             None \<Rightarrow> None
           | Some ((_, out), w2) \<Rightarrow>
               (case pump wr rd m k (drop (nat n) bs) w2 of
                  None \<Rightarrow> None
                | Some (rest, w3) \<Rightarrow> Some (out @ rest, w3))))"

text \<open>What a client may expect of one direction of a connection: writes append a part of the data, a non-empty part
  if there is room, and reads take a part of the queue away.\<close>

locale byte_channel =
  fixes chan_ok :: "'w \<Rightarrow> bool"
    and queue :: "'w \<Rightarrow> u8 list"
    and room :: "'w \<Rightarrow> nat"
    and send :: "u8 list \<Rightarrow> 'w \<Rightarrow> (int \<times> 'w) option"
    and recv :: "int \<Rightarrow> 'w \<Rightarrow> ((int \<times> u8 list) \<times> 'w) option"
  assumes send_ok: "chan_ok w \<Longrightarrow> bs \<noteq> [] \<Longrightarrow>
      \<exists>n w'. send bs w = Some (n, w') \<and> chan_ok w' \<and> queue w' = queue w @ take (nat n) bs \<and> (0 < room w \<longrightarrow> 0 < n)"
    and recv_ok: "chan_ok w \<Longrightarrow> 0 < m \<Longrightarrow> m < 2 ^ 31 \<Longrightarrow>
      \<exists>n w'. recv m w = Some ((n, take (nat m) (queue w)), w') \<and> chan_ok w' \<and> queue w' = drop (nat m) (queue w)"
    and room_empty: "chan_ok w \<Longrightarrow> queue w = [] \<Longrightarrow> 0 < room w"
begin

lemma pump_delivers:
  assumes "0 < m" "m < 2 ^ 31"
  shows "chan_ok w \<Longrightarrow> length (queue w) + length bs \<le> k \<Longrightarrow>
    \<exists>w'. pump send recv m k bs w = Some (queue w @ bs, w') \<and> chan_ok w' \<and> queue w' = []"
proof (induction k arbitrary: bs w)
  case 0
  then show ?case by simp
next
  case (Suc k)
  obtain n w1 where w1: "(if bs = [] then Some (0, w) else send bs w) = Some (n, w1)" "chan_ok w1" "queue w1 = queue w @ take (nat n) bs"
    "queue w = [] \<and> bs \<noteq> [] \<longrightarrow> 0 < n"
  proof (cases "bs = []")
    case True
    then show thesis using that [of 0 w] Suc.prems by simp
  next
    case False
    obtain n w1 where "send bs w = Some (n, w1)" "chan_ok w1" "queue w1 = queue w @ take (nat n) bs" "0 < room w \<longrightarrow> 0 < n"
      using send_ok [OF Suc.prems(1) False] by auto
    then show thesis using that [of n w1] False room_empty [OF Suc.prems(1)] by auto
  qed
  obtain n2 w2 where w2: "recv m w1 = Some ((n2, take (nat m) (queue w1)), w2)" "chan_ok w2" "queue w2 = drop (nat m) (queue w1)"
    using recv_ok [OF w1(2) assms] by blast
  have "length (queue w2) + length (drop (nat n) bs) \<le> k"
  proof (cases "queue w1 = []")
    case True
    then have "queue w = []" "bs = []" using w1(3,4) by auto
    then show ?thesis using w2(3) True by simp
  next
    case False
    then have "length (queue w2) < length (queue w1)" using w2(3) assms(1) by (simp add: zero_less_nat_eq)
    then show ?thesis using Suc.prems(2) w1(3) by simp
  qed
  then obtain w3 where w3: "pump send recv m k (drop (nat n) bs) w2 = Some (queue w2 @ drop (nat n) bs, w3)" "chan_ok w3" "queue w3 = []"
    using Suc.IH [OF w2(2)] by blast
  have "take (nat m) (queue w1) @ queue w2 @ drop (nat n) bs = queue w @ bs"
    unfolding w2(3) using w1(3) by (metis append.assoc append_take_drop_id)
  then show ?case using w1(1) w2(1) w3 by simp
qed

end

text \<open>The direction from \<open>p\<close> to \<open>q\<close> of a pair whose half \<open>p\<close> has not been shut down.\<close>

definition outgoing :: "addr \<Rightarrow> bio_world \<Rightarrow> bio_bio_st" where
  "outgoing p w = (case bw_bios w p of Some o1 \<Rightarrow> (case bi_ptr o1 of Ptr_pair b \<Rightarrow> b | _ \<Rightarrow> new_half) | None \<Rightarrow> new_half)"

definition pair_open :: "addr \<Rightarrow> addr \<Rightarrow> bio_world \<Rightarrow> bool" where
  "pair_open p q w \<longleftrightarrow> (\<exists>A B. pair_rep w p q A B) \<and> \<not> bp_closed (outgoing p w)"

lemma outgoing_rep: "pair_rep w p q A B \<Longrightarrow> half_rep (outgoing p w) q A"
  by (erule pair_ptr) (simp add: outgoing_def)

lemma pair_openD:
  assumes "pair_open p q w"
  obtains A B where "pair_rep w p q A B" "hf_queue A = ring_data (outgoing p w)" "\<not> hf_closed A" "hf_cap A = bp_size (outgoing p w)"
proof -
  obtain A B where "pair_rep w p q A B" using assms by (auto simp: pair_open_def)
  then show thesis using that [of A B] outgoing_rep [of w p q A B] assms by (auto simp: pair_open_def half_rep_def)
qed

lemma pair_openI: "pair_rep w p q A B \<Longrightarrow> \<not> hf_closed A \<Longrightarrow> pair_open p q w \<and> ring_data (outgoing p w) = hf_queue A"
  using outgoing_rep [of w p q A B] by (auto simp: pair_open_def half_rep_def)

text \<open>A length is an \<open>int\<close>: a writer offers at most \<open>INT_MAX\<close> bytes of what it has in one call.\<close>

definition offer :: "addr \<Rightarrow> u8 list \<Rightarrow> int io" where
  "offer p bs = (let bs' = take (2 ^ 31 - 1) bs in BIO_write (Some p) (Some bs') (int (length bs')))"

interpretation pair_chan: byte_channel "pair_open p q" "\<lambda>w. ring_data (outgoing p w)"
  "\<lambda>w. bp_size (outgoing p w) - length (ring_data (outgoing p w))" "offer p" "BIO_read (Some q) False" for p q
proof
  fix w and bs0 :: "u8 list"
  assume w: "pair_open p q w" and ne: "bs0 \<noteq> []"
  define bs where "bs = take (2 ^ 31 - 1) bs0"
  have bs: "bs \<noteq> []" "length bs < 2 ^ 31" using ne by (simp_all add: bs_def)
  obtain A B where A: "pair_rep w p q A B" "hf_queue A = ring_data (outgoing p w)" "\<not> hf_closed A" "hf_cap A = bp_size (outgoing p w)"
    using w by (rule pair_openD)
  obtain w' where w': "BIO_write (Some p) (Some bs) (int (length bs)) w = Some (fst (half_write bs A), w')"
    using BIO_write_refines [OF A(1) bs(2)] bs(1) by auto
  from write_queue [OF A(1) bs(2) this] obtain A' where A': "pair_rep w' p q A' B"
    "hf_queue A' = hf_queue A @ take (nat (fst (half_write bs A))) bs" "hf_closed A' = hf_closed A" by blast
  have pos: "0 < bp_size (outgoing p w) - length (ring_data (outgoing p w)) \<longrightarrow> 0 < fst (half_write bs A)"
    using A bs(1) by (auto simp: half_write_def Let_def)
  have "nat (fst (half_write bs A)) \<le> length bs" by (auto simp: half_write_def Let_def)
  then have t: "take (nat (fst (half_write bs A))) bs = take (nat (fst (half_write bs A))) bs0" by (simp add: bs_def)
  show "\<exists>n w'. offer p bs0 w = Some (n, w') \<and> pair_open p q w'
      \<and> ring_data (outgoing p w') = ring_data (outgoing p w) @ take (nat n) bs0
      \<and> (0 < bp_size (outgoing p w) - length (ring_data (outgoing p w)) \<longrightarrow> 0 < n)"
    using w' A' A pair_openI [OF A'(1)] pos t unfolding offer_def Let_def bs_def [symmetric] by auto
next
  fix w and m :: int
  assume w: "pair_open p q w" and m: "0 < m" "m < 2 ^ 31"
  obtain A B where A: "pair_rep w p q A B" "hf_queue A = ring_data (outgoing p w)" "\<not> hf_closed A"
    using w by (rule pair_openD)
  note r = A(1) [unfolded pair_rep_sym [of w p]]
  obtain n out w' where w': "BIO_read (Some q) False m w = Some ((n, out), w')" using BIO_read_refines [OF r m(2)] by force
  from read_queue [OF r m(2) this] obtain A' where A': "pair_rep w' q p B A'" "hf_queue A = out @ hf_queue A'" "hf_closed A' = hf_closed A"
    "out = take (nat m) (hf_queue A)" by blast
  have "hf_queue A' = drop (nat m) (hf_queue A)" using A'(2,4) by (metis append_take_drop_id same_append_eq)
  then show "\<exists>n w'. BIO_read (Some q) False m w = Some ((n, take (nat m) (ring_data (outgoing p w))), w') \<and> pair_open p q w'
      \<and> ring_data (outgoing p w') = drop (nat m) (ring_data (outgoing p w))"
    using w' A'(3,4) A pair_openI [OF A'(1) [unfolded pair_rep_sym [of w' q]]] by auto
next
  fix w
  assume w: "pair_open p q w" and e: "ring_data (outgoing p w) = []"
  obtain A B where "pair_rep w p q A B" using w by (rule pair_openD)
  then have "0 < bp_size (outgoing p w)" using outgoing_rep [of w p q A B] by (simp add: half_rep_def ring_ok_def)
  then show "0 < bp_size (outgoing p w) - length (ring_data (outgoing p w))" unfolding e by simp
qed

text \<open>C14. Progress.  While half \<open>p\<close> of a pair is open for writing, a writer on \<open>p\<close> and a reader on \<open>q\<close> that take
  turns transfer a message of any length completely and in order, after what was pending, for any buffer sizes and
  any positive read size (an \<open>int\<close>), when the writer offers what is left of it, at most \<open>INT_MAX\<close> bytes at a time:
  within as many rounds as there are bytes, since no round in which bytes are left moves none.\<close>

theorem pair_pump_delivers:
  assumes "pair_open p q w" "0 < m" "m < 2 ^ 31"
    and "length (ring_data (outgoing p w)) + length bs \<le> k"
  shows "\<exists>w'. pump (offer p) (BIO_read (Some q) False) m k bs w
      = Some (ring_data (outgoing p w) @ bs, w') \<and> pair_open p q w' \<and> ring_data (outgoing p w') = []"
  using pair_chan.pump_delivers [OF assms(2,3,1,4)] by simp

text \<open>Both hypotheses can hold: a pair with buffers of two bytes on an allocator that succeeds.\<close>

definition pair_world :: bio_world where
  "pair_world = \<lparr>bw_bios = \<lambda>_. None, bw_heap = demo_heap\<rparr>"

lemma pair_world_ok: "world_ok pair_world"
  by (simp add: world_ok_def pair_world_def heap_sane_def demo_heap_def)

lemma demo_malloc: "hp_ok h = hp_ok demo_heap \<Longrightarrow> n < 100 \<Longrightarrow>
    \<exists>c. mem_malloc n h = (Some c, h\<lparr>hp_calls := Suc (hp_calls h)\<rparr>)"
  by (simp add: mem_malloc_def c_malloc_def demo_heap_def OPENSSL_MALLOC_PREFIX_def Let_def)

lemma pair_world_pair: "\<exists>w. BIO_new_bio_pair 2 2 pair_world = Some (Some (0, 2), w)"
proof -
  obtain r1 r2 r3 r4 r5 r6 where m: "mem_malloc 64 demo_heap = (Some r1, demo_heap\<lparr>hp_calls := 1\<rparr>)"
    "mem_malloc 56 (demo_heap\<lparr>hp_calls := 1\<rparr>) = (Some r2, demo_heap\<lparr>hp_calls := 2\<rparr>)"
    "mem_malloc 64 (demo_heap\<lparr>hp_calls := 2\<rparr>) = (Some r3, demo_heap\<lparr>hp_calls := 3\<rparr>)"
    "mem_malloc 56 (demo_heap\<lparr>hp_calls := 3\<rparr>) = (Some r4, demo_heap\<lparr>hp_calls := 4\<rparr>)"
    "mem_malloc 2 (demo_heap\<lparr>hp_calls := 4\<rparr>) = (Some r5, demo_heap\<lparr>hp_calls := 5\<rparr>)"
    "mem_malloc 2 (demo_heap\<lparr>hp_calls := 5\<rparr>) = (Some r6, demo_heap\<lparr>hp_calls := 6\<rparr>)"
    using demo_malloc [of demo_heap 64] demo_malloc [of "demo_heap\<lparr>hp_calls := 1\<rparr>" 56] demo_malloc [of "demo_heap\<lparr>hp_calls := 2\<rparr>" 64]
      demo_malloc [of "demo_heap\<lparr>hp_calls := 3\<rparr>" 56] demo_malloc [of "demo_heap\<lparr>hp_calls := 4\<rparr>" 2] demo_malloc [of "demo_heap\<lparr>hp_calls := 5\<rparr>" 2]
    by (auto simp: demo_heap_def)
  have c: "hp_calls demo_heap = 0" by (simp add: demo_heap_def)
  show ?thesis
    by (simp add: BIO_new_bio_pair_def BIO_new_def pair_world_def c m Let_def bm_create_def bio_new_def io_malloc_def io_bind_def
        set_pair_def modify_bio_def get_bio_def put_bio_def fresh_bio_def bio_make_pair_def pair_of_def make_buf_def connect_half_def del: One_nat_def)
qed

lemma pair_world_open: "\<exists>w. BIO_new_bio_pair 2 2 pair_world = Some (Some (0, 2), w) \<and> pair_open 0 2 w \<and> ring_data (outgoing 0 w) = []"
proof -
  obtain w where w: "BIO_new_bio_pair 2 2 pair_world = Some (Some (0, 2), w)" using pair_world_pair by blast
  then have "pair_rep w 0 2 (empty_half 2) (empty_half 2)" using BIO_new_bio_pair_spec [OF pair_world_ok, of 2 2] by auto
  then show ?thesis using w pair_openI [of w 0 2 "empty_half 2" "empty_half 2"] by auto
qed

theorem pair_pump_delivers_witness:
  "\<exists>w w'. BIO_new_bio_pair 2 2 pair_world = Some (Some (0, 2), w) \<and>
     pump (offer 0) (BIO_read (Some 2) False) 1 5 [1, 2, 3, 4, 5] w = Some ([1, 2, 3, 4, 5], w')"
proof -
  obtain w where w: "BIO_new_bio_pair 2 2 pair_world = Some (Some (0, 2), w)" "pair_open 0 2 w" "ring_data (outgoing 0 w) = []"
    using pair_world_open by blast
  then show ?thesis using pair_pump_delivers [of 0 2 w 1 "[1, 2, 3, 4, 5]" 5] by auto
qed

theorem pair_delivers_in_order_witness:
  "\<exists>w w'. pair_reach 0 2 w [] [] [] [] \<and> BIO_write (Some 0) (Some [7, 8, 9]) 3 w = Some (2, w') \<and> BIO_pending (Some 2) w' = Some (2, w')"
proof -
  obtain w where w: "BIO_new_bio_pair 2 2 pair_world = Some (Some (0, 2), w)" using pair_world_pair by blast
  have r: "pair_reach 0 2 w [] [] [] []" by (rule pair_reach.create [OF pair_world_ok _ _ w]) simp_all
  have rep: "pair_rep w 0 2 (empty_half 2) (empty_half 2)" using w BIO_new_bio_pair_spec [OF pair_world_ok, of 2 2] by auto
  obtain w' where w': "BIO_write (Some 0) (Some [7, 8, 9]) 3 w = Some (2, w')"
    using BIO_write_refines [OF rep, of "[7, 8, 9]"] by (auto simp: half_write_def pair_cap_def)
  have "pair_reach 0 2 w' ([] @ take (nat 2) [7, 8, 9]) [] [] []" by (rule pair_reach.write1 [OF r]) (use w' in simp_all)
  from pair_delivers_in_order [OF this] have "BIO_pending (Some 2) w' = Some (2, w')" by auto
  then show ?thesis using r w' by blast
qed

end
