(* ===== verification/Bio_Mem_Correct.thy ===== *)
theory Bio_Mem_Correct
  imports Bio Der
begin

text \<open>
  Correctness of memory objects: the unread bytes are a queue, for the growing and for the read-only kind.  Reading one
  ASN.1 element from such an object with \<open>BIO_read_asn1\<close> is compared with the element parser of \<open>cbs.c\<close>.
\<close>

section \<open>The queue of a memory object\<close>

definition mem_ptr_rep :: "bool \<Rightarrow> bio_ptr \<Rightarrow> u8 list \<Rightarrow> bool" where
  "mem_ptr_rep ro p q \<longleftrightarrow> length q < 2 ^ 31 - 1 \<and>
     (if ro then \<exists>d k. p = Ptr_rdonly d k \<and> q = drop k d \<and> k \<le> length d
      else \<exists>b. p = Ptr_mem b \<and> bm_inv b \<and> bm_abs b = q)"

definition mem_rep :: "bio_world \<Rightarrow> addr \<Rightarrow> bool \<Rightarrow> u8 list \<Rightarrow> bool" where
  "mem_rep w p ro q \<longleftrightarrow> (\<exists>o1. bw_bios w p = Some o1 \<and> bi_method o1 = mem_method \<and> bi_init o1
     \<and> (bi_flags o1 AND BIO_FLAGS_MEM_RDONLY \<noteq> 0 \<longleftrightarrow> ro) \<and> mem_ptr_rep ro (bi_ptr o1) q)"

text \<open>The value an empty object returns.\<close>

definition eof_value :: "addr \<Rightarrow> bio_world \<Rightarrow> int" where
  "eof_value p w = (case bw_bios w p of None \<Rightarrow> 0 | Some b \<Rightarrow> bi_num b)"

lemma mem_ptr_length: "mem_ptr_rep ro p q \<Longrightarrow> mem_length p = Some (length q) \<and> take (length q) (mem_data p) = q"
  by (auto simp: mem_ptr_rep_def mem_length_def mem_data_def bm_abs_def bm_inv_def min_def split: if_splits)

lemma mem_ptr_advance:
  assumes "mem_ptr_rep ro p q" "n \<le> length q"
  shows "mem_ptr_rep ro (mem_advance n p) (drop n q)" "take n (mem_data p) = take n q"
proof -
  show "take n (mem_data p) = take n q"
    using mem_ptr_length [OF assms(1)] assms(2) by (metis min.absorb1 take_take)
  show "mem_ptr_rep ro (mem_advance n p) (drop n q)"
  proof (cases ro)
    case True
    then show ?thesis using assms by (auto simp: mem_ptr_rep_def mem_advance_def add.commute)
  next
    case False
    then obtain b where b: "p = Ptr_mem b" "bm_inv b" "bm_abs b = q" using assms(1) by (auto simp: mem_ptr_rep_def)
    have len: "length q = bm_length b" using b by auto
    show ?thesis
    proof (cases "bm_data b")
      case None
      then show ?thesis using False assms b by (auto simp: mem_ptr_rep_def mem_advance_def bm_inv_def bm_abs_def bm_bytes_def)
    next
      case (Some d)
      let ?x = "take (bm_length b - n) (drop n d)"
      have d: "length d = bm_max b" "bm_length b \<le> bm_max b" "q = take (bm_length b) d"
        using b Some by (auto simp: bm_inv_def bm_abs_def bm_bytes_def)
      have "take (bm_length b - n) (memcpy_at d 0 ?x) = drop n q"
        using d assms(2) len by (simp add: memcpy_at_0 drop_take)
      moreover have "length (memcpy_at d 0 ?x) = length d" using d by simp
      ultimately show ?thesis using False assms b Some d
        by (auto simp: mem_ptr_rep_def mem_advance_def bm_inv_def bm_abs_def bm_bytes_def)
    qed
  qed
qed

lemma retry_keeps_rdonly:
  "(x AND NOT kRetryFlags) AND BIO_FLAGS_MEM_RDONLY = x AND BIO_FLAGS_MEM_RDONLY"
  "((x AND NOT kRetryFlags) OR (BIO_FLAGS_READ OR BIO_FLAGS_SHOULD_RETRY)) AND BIO_FLAGS_MEM_RDONLY = x AND BIO_FLAGS_MEM_RDONLY"
proof -
  have k: "NOT kRetryFlags AND BIO_FLAGS_MEM_RDONLY = BIO_FLAGS_MEM_RDONLY"
    by (simp add: kRetryFlags_def BIO_FLAGS_RWS_def BIO_FLAGS_READ_def BIO_FLAGS_WRITE_def BIO_FLAGS_IO_SPECIAL_def
        BIO_FLAGS_SHOULD_RETRY_def BIO_FLAGS_MEM_RDONLY_def)
  have r: "BIO_FLAGS_READ AND BIO_FLAGS_MEM_RDONLY = 0" "BIO_FLAGS_SHOULD_RETRY AND BIO_FLAGS_MEM_RDONLY = 0"
    by (simp_all add: BIO_FLAGS_READ_def BIO_FLAGS_SHOULD_RETRY_def BIO_FLAGS_MEM_RDONLY_def)
  show 1: "(x AND NOT kRetryFlags) AND BIO_FLAGS_MEM_RDONLY = x AND BIO_FLAGS_MEM_RDONLY" by (simp add: and.assoc k)
  show "((x AND NOT kRetryFlags) OR (BIO_FLAGS_READ OR BIO_FLAGS_SHOULD_RETRY)) AND BIO_FLAGS_MEM_RDONLY = x AND BIO_FLAGS_MEM_RDONLY"
    by (simp add: bit.conj_disj_distrib2 1 r)
qed

section \<open>Reading\<close>

lemma mem_read_refines:
  assumes rep: "mem_rep w p ro q" and m: "0 < m" "m < 2 ^ 31"
  shows "\<exists>w'. mem_read p m w = Some ((if q = [] then eof_value p w else int (min (nat m) (length q)), take (nat m) q), w')
    \<and> mem_rep w' p ro (drop (nat m) q) \<and> eof_value p w' = eof_value p w \<and> bw_heap w' = bw_heap w"
proof -
  obtain o1 where o1: "bw_bios w p = Some o1" "bi_method o1 = mem_method" "bi_init o1"
    "bi_flags o1 AND BIO_FLAGS_MEM_RDONLY \<noteq> 0 \<longleftrightarrow> ro" "mem_ptr_rep ro (bi_ptr o1) q"
    using rep by (auto simp: mem_rep_def)
  note l = mem_ptr_length [OF o1(5)]
  have q: "int (length q) < INT_MAX" using o1(5) by (simp add: mem_ptr_rep_def INT_MAX_def)
  let ?n = "min (nat m) (length q)"
  have ret: "(if int (length q) < INT_MAX \<and> m > int (length q) then int (length q) else m) = int ?n" using q m by auto
  show ?thesis
  proof (cases "q = []")
    case True
    then show ?thesis using o1 l ret m
      by (auto simp: mem_read_def BIO_clear_retry_flags_def BIO_set_retry_read_def eof_value_def mem_rep_def Let_def INT_MAX_def retry_keeps_rdonly)
  next
    case False
    have "drop ?n q = drop (nat m) q" "take ?n q = take (nat m) q" by (auto simp: min_def)
    then have a: "mem_ptr_rep ro (mem_advance ?n (bi_ptr o1)) (drop (nat m) q)" "take ?n (mem_data (bi_ptr o1)) = take (nat m) q"
      using mem_ptr_advance [OF o1(5), of ?n] by simp_all
    have "0 < int ?n" using False m by simp
    then show ?thesis using o1 l a False
      by (simp add: mem_read_def BIO_clear_retry_flags_def eof_value_def mem_rep_def Let_def ret retry_keeps_rdonly del: of_nat_min min_less_iff_conj)
  qed
qed

lemma BIO_read_mem:
  assumes rep: "mem_rep w p ro q" and m: "m < 2 ^ 31"
  shows "\<exists>w'. BIO_read (Some p) False m w
      = Some ((if m \<le> 0 then 0 else if q = [] then eof_value p w else int (min (nat m) (length q)), take (nat m) q), w')
    \<and> mem_rep w' p ro (drop (nat m) q) \<and> eof_value p w' = eof_value p w \<and> bw_heap w' = bw_heap w"
proof -
  obtain o1 where o1: "bw_bios w p = Some o1" "bi_method o1 = mem_method" "bi_init o1" using rep by (auto simp: mem_rep_def)
  show ?thesis
  proof (cases "m \<le> 0")
    case True
    then show ?thesis using o1 rep by (simp add: BIO_read_def)
  next
    case False
    let ?n = "if q = [] then eof_value p w else int (min (nat m) (length q))"
    obtain w1 where w1: "mem_read p m w = Some ((?n, take (nat m) q), w1)" "mem_rep w1 p ro (drop (nat m) q)"
      "eof_value p w1 = eof_value p w" "bw_heap w1 = bw_heap w"
      using mem_read_refines [OF rep _ m] False by auto
    obtain o2 where o2: "bw_bios w1 p = Some o2" using w1(2) by (auto simp: mem_rep_def)
    let ?w2 = "w1\<lparr>bw_bios := (bw_bios w1)(p \<mapsto> o2\<lparr>bi_num_read := szw (bi_num_read o2 + nat ?n)\<rparr>)\<rparr>"
    have "mem_rep ?w2 p ro (drop (nat m) q)" "eof_value p ?w2 = eof_value p w"
      using w1(2,3) o2 by (auto simp: mem_rep_def eof_value_def)
    then show ?thesis using False o1 w1 o2 by (auto simp: BIO_read_def bm_read_def)
  qed
qed

section \<open>Writing\<close>

lemma sint_small: "n < 2 ^ 31 \<Longrightarrow> sint (word_of_nat n :: 32 word) = int n"
proof -
  assume n: "n < 2 ^ 31"
  then have u: "unat (word_of_nat n :: 32 word) = n" by (simp add: unat_of_nat)
  then have "uint (word_of_nat n :: 32 word) = int n" by (metis uint_nat)
  then show ?thesis using n by (simp add: sint_uint signed_take_bit_int_eq_self)
qed

lemma mem_write_refines:
  assumes rep: "mem_rep w p False q" and bs: "bs \<noteq> []" "length q + length bs < 2 ^ 31 - 1"
  shows "\<exists>n w'. mem_write p bs (int (length bs)) w = Some (n, w') \<and> eof_value p w' = eof_value p w
    \<and> (n = int (length bs) \<and> mem_rep w' p False (q @ bs) \<or> n = - 1 \<and> mem_rep w' p False q)"
proof -
  obtain o1 b where o1: "bw_bios w p = Some o1" "bi_method o1 = mem_method" "bi_init o1"
    "bi_flags o1 AND BIO_FLAGS_MEM_RDONLY = 0" "bi_ptr o1 = Ptr_mem b" "bm_inv b" "bm_abs b = q"
    using rep by (auto simp: mem_rep_def mem_ptr_rep_def)
  have len: "bm_length b = length q" using o1(6,7) by auto
  define L where "L = length q + length bs"
  have L: "L < 2 ^ 63" "int L < 2 ^ 31 - 1" using bs by (simp_all add: L_def)
  have blen: "sint (word_of_nat (bm_length b) :: 32 word) = int (length q)" using bs len by (simp add: sint_small)
  have sum: "(int (length q) + int (length bs)) mod 2 ^ 64 = int L" using L by (simp add: L_def)
  have nofit: "\<not> INT_MAX - int (length q) < int (length bs)" using bs by (simp add: INT_MAX_def)
  obtain r b' h where g: "BUF_MEM_grow L (b, bw_heap w) = (r, b', h)" by (cases "BUF_MEM_grow L (b, bw_heap w)")
  have g': "bm_inv b'" "bm_abs b' = q @ replicate (length bs) 0 \<and> r = L \<or> b' = b \<and> r = 0"
    using BUF_MEM_grow_refines [OF o1(6) L(1) g] o1(7) by (auto simp: L_def)
  have "L \<noteq> 0" using bs(1) by (simp add: L_def)
  let ?w = "w\<lparr>bw_bios := (bw_bios w)(p \<mapsto> o1\<lparr>bi_flags := bi_flags o1 AND NOT kRetryFlags, bi_retry_reason := 0\<rparr>), bw_heap := h\<rparr>"
  have run: "mem_write p bs (int (length bs)) w =
      (if r \<noteq> L then io_bind (modify_bio p (\<lambda>o2. o2\<lparr>bi_ptr := Ptr_mem b'\<rparr>)) (\<lambda>_. io_return (- 1)) ?w
       else io_bind (modify_bio p (\<lambda>o2. o2\<lparr>bi_ptr := Ptr_mem (b'\<lparr>bm_data := map_option (\<lambda>d. memcpy_at d (length q) bs) (bm_data b')\<rparr>)\<rparr>))
              (\<lambda>_. io_return (int (length bs))) ?w)"
    using o1 g nofit sum by (simp add: mem_write_def BIO_clear_retry_flags_def blen BUF_MEM_grow_clean_def Let_def)
  show ?thesis
  proof (cases "r = L")
    case False
    then have "b' = b" using g'(2) by auto
    then have "mem_rep (?w\<lparr>bw_bios := (bw_bios ?w)(p \<mapsto> o1\<lparr>bi_flags := bi_flags o1 AND NOT kRetryFlags, bi_retry_reason := 0, bi_ptr := Ptr_mem b'\<rparr>)\<rparr>) p False q"
      using o1 bs by (simp add: mem_rep_def mem_ptr_rep_def retry_keeps_rdonly)
    then show ?thesis using run False o1 by (simp add: eof_value_def)
  next
    case True
    then have a: "bm_abs b' = q @ replicate (length bs) 0" using g'(2) \<open>L \<noteq> 0\<close> by auto
    then have l: "bm_length b' = L" using bm_abs_length [OF g'(1)] by (simp add: L_def)
    have i: "length (bm_bytes b') = bm_max b'" "L \<le> bm_max b'" using g'(1) l by (auto simp: bm_inv_def)
    then obtain d where d: "bm_data b' = Some d" "length d = bm_max b'" using g'(1) \<open>L \<noteq> 0\<close> by (cases "bm_data b'") (auto simp: bm_inv_def bm_bytes_def)
    have "take (length q) d = q" using a d l by (simp add: bm_abs_def bm_bytes_def L_def) (metis add_leD1 append_eq_conv_conj min.absorb1 take_take le_add1)
    then have "take L (memcpy_at d (length q) bs) = q @ bs"
      unfolding L_def using take_memcpy_at [of "length q" bs d] i(2) d(2) by (simp add: L_def)
    then have "mem_ptr_rep False (Ptr_mem (b'\<lparr>bm_data := map_option (\<lambda>d. memcpy_at d (length q) bs) (bm_data b')\<rparr>)) (q @ bs)"
      using g'(1) d i l bs by (simp add: mem_ptr_rep_def bm_inv_def bm_abs_def bm_bytes_def L_def)
    then show ?thesis using run True o1 by (simp add: eof_value_def mem_rep_def retry_keeps_rdonly)
  qed
qed

text \<open>C15. A memory object is a queue of bytes.  A write of \<open>bs\<close> appends all of it or fails with -1 and changes
  nothing; a read of \<open>m\<close> bytes takes the first ones away and returns their number, or the configured value when
  there are none.\<close>

theorem mem_bio_queue:
  assumes "mem_rep w p False q" "bs \<noteq> []" "length q + length bs < 2 ^ 31 - 1" "0 < m" "m < 2 ^ 31"
  shows "(\<exists>n w'. BIO_write (Some p) (Some bs) (int (length bs)) w = Some (n, w')
      \<and> (n = int (length bs) \<and> mem_rep w' p False (q @ bs) \<or> n = - 1 \<and> mem_rep w' p False q))
    \<and> (\<exists>w'. BIO_read (Some p) False m w
        = Some ((if q = [] then eof_value p w else int (min (nat m) (length q)), take (nat m) q), w') \<and> mem_rep w' p False (drop (nat m) q))"
proof
  obtain o1 where o1: "bw_bios w p = Some o1" "bi_method o1 = mem_method" "bi_init o1" using assms(1) by (auto simp: mem_rep_def)
  obtain n w1 where w1: "mem_write p bs (int (length bs)) w = Some (n, w1)"
    "n = int (length bs) \<and> mem_rep w1 p False (q @ bs) \<or> n = - 1 \<and> mem_rep w1 p False q"
    using mem_write_refines [OF assms(1-3)] by blast
  obtain o2 where o2: "bw_bios w1 p = Some o2" using w1(2) by (auto simp: mem_rep_def)
  let ?w2 = "w1\<lparr>bw_bios := (bw_bios w1)(p \<mapsto> o2\<lparr>bi_num_write := szw (bi_num_write o2 + nat n)\<rparr>)\<rparr>"
  have "mem_rep ?w2 p False x = mem_rep w1 p False x" for x using o2 by (simp add: mem_rep_def)
  then show "\<exists>n w'. BIO_write (Some p) (Some bs) (int (length bs)) w = Some (n, w')
      \<and> (n = int (length bs) \<and> mem_rep w' p False (q @ bs) \<or> n = - 1 \<and> mem_rep w' p False q)"
    using o1 w1 o2 assms(2) by (cases "0 < n") (auto simp: BIO_write_def bm_write_def)
  show "\<exists>w'. BIO_read (Some p) False m w
        = Some ((if q = [] then eof_value p w else int (min (nat m) (length q)), take (nat m) q), w') \<and> mem_rep w' p False (drop (nat m) q)"
    using BIO_read_mem [OF assms(1,5)] assms(4) by auto
qed

section \<open>One element\<close>

definition heap_roomy :: "heap \<Rightarrow> bool" where
  "heap_roomy h \<longleftrightarrow> (\<forall>t n. n < 2 ^ 63 \<longrightarrow> hp_ok h t n)"

text \<open>A read of exactly \<open>n\<close> bytes succeeds if there are that many.\<close>

lemma BIO_read_exact:
  assumes rep: "mem_rep w p ro q" "eof_value p w \<le> 0" and n: "int n < 2 ^ 31"
  shows "\<exists>k w'. BIO_read (Some p) False (int n) w = Some ((k, take n q), w') \<and> mem_rep w' p ro (drop n q)
    \<and> eof_value p w' \<le> 0 \<and> bw_heap w' = bw_heap w \<and> (k = int n \<longleftrightarrow> n \<le> length q)"
proof -
  obtain w' where w': "BIO_read (Some p) False (int n) w
      = Some ((if int n \<le> 0 then 0 else if q = [] then eof_value p w else int (min n (length q)), take n q), w')"
    "mem_rep w' p ro (drop n q)" "eof_value p w' = eof_value p w" "bw_heap w' = bw_heap w"
    using BIO_read_mem [OF rep(1) n] by auto
  have "(if int n \<le> 0 then 0 else if q = [] then eof_value p w else int (min n (length q))) = int n \<longleftrightarrow> n \<le> length q"
    using rep(2) by auto
  then show ?thesis using w' rep(2) by auto
qed

lemma read_asn1_body_mem:
  assumes rep: "mem_rep w p ro q" "eof_value p w \<le> 0" and h: "heap_roomy (bw_heap w)" and l: "len < 2 ^ 32" "length header \<le> 6"
  shows "\<exists>w'. read_asn1_body (Some p) header len max_len w
      = Some (if len + length header \<le> max_len \<and> int len \<le> INT_MAX \<and> len \<le> length q then Some (header @ take len q) else None, w')
    \<and> (len + length header \<le> max_len \<and> int len \<le> INT_MAX \<and> len \<le> length q \<longrightarrow> mem_rep w' p ro (drop len q))"
proof (cases "len + length header \<le> max_len \<and> int len \<le> INT_MAX")
  case False
  then show ?thesis using l by (auto simp: read_asn1_body_def Let_def)
next
  case True
  obtain blk h1 where m: "mem_malloc (len + length header) (bw_heap w) = (Some blk, h1)"
    using h l by (auto simp: heap_roomy_def mem_malloc_def c_malloc_def OPENSSL_MALLOC_PREFIX_def Let_def)
  let ?w1 = "w\<lparr>bw_heap := h1\<rparr>"
  have rep1: "mem_rep ?w1 p ro q" "eof_value p ?w1 \<le> 0" using rep by (simp_all add: mem_rep_def eof_value_def)
  have "int len < 2 ^ 31" using True by (simp add: INT_MAX_def)
  then obtain k w2 where w2: "BIO_read (Some p) False (int len) ?w1 = Some ((k, take len q), w2)" "mem_rep w2 p ro (drop len q)"
    "k = int len \<longleftrightarrow> len \<le> length q"
    using BIO_read_exact [OF rep1] by blast
  have s: "szw (len + length header) = len + length header" using l by simp
  have lb: "length blk = len + length header" using mem_malloc_length [OF m] l by simp
  have run: "read_asn1_body (Some p) header len max_len w =
      (if k \<noteq> int len then io_bind (io_free (Some blk)) (\<lambda>_. io_return None) w2
       else Some (Some (memcpy_at (memcpy_at blk 0 header) (length header) (take len q)), w2))"
    using True m w2(1) by (simp add: read_asn1_body_def Let_def s io_malloc_def io_bind_def)
  show ?thesis
  proof (cases "len \<le> length q")
    case len: True
    then have "memcpy_at (memcpy_at blk 0 header) (length header) (take len q) = header @ take len q"
      using lb by (simp add: memcpy_at_def)
    then show ?thesis using run True w2 len by auto
  next
    case False
    then show ?thesis using run w2 by (auto simp: io_free_def io_bind_def)
  qed
qed

text \<open>The element parser of \<open>cbs.c\<close> on an input with a tag of one byte.\<close>

lemma get_low_tag:
  assumes "t AND 0x1f \<noteq> 0x1f"
  shows "CBS_get_any_asn1_element (t # b # r) =
    (case der_len_dec (b # r) of
       (None, _) \<Rightarrow> (None, t # b # r)
     | (Some len, h) \<Rightarrow>
         let hl = length (t # b # r) - length h in
         if length (t # b # r) < len + hl then (None, t # b # r)
         else (Some (take (len + hl) (t # b # r), mk_tag t (ucast (t AND 0x1f)), hl), drop (len + hl) (t # b # r)))"
proof -
  have p: "parse_asn1_tag (t # b # r) = (Some (mk_tag t (ucast (t AND 0x1f))), b # r)"
    using assms by (simp add: parse_asn1_tag_Cons)
  show ?thesis
    unfolding CBS_get_any_asn1_element_def cbs_get_any_asn1_element_der elem_spec_def
    by (simp add: p st_bind_def CBS_get_bytes_def CBS_init_def cbs_get_def Let_def split: option.split prod.split)
qed

definition read_asn1_limits :: "nat \<Rightarrow> u8 list \<Rightarrow> u8 list \<Rightarrow> nat \<Rightarrow> bool" where
  "read_asn1_limits max_len d el hl \<longleftrightarrow> hd d AND 0x1f \<noteq> 0x1f \<and> length el \<le> max_len \<and> int (length el - hl) \<le> INT_MAX"

text \<open>What is to be shown of a result, and that it holds of the last part of the function.\<close>

definition read_asn1_spec :: "addr \<Rightarrow> bool \<Rightarrow> nat \<Rightarrow> u8 list \<Rightarrow> u8 list option \<Rightarrow> bio_world \<Rightarrow> bool" where
  "read_asn1_spec p ro max_len d res w' =
     (case CBS_get_any_asn1_element d of
        (None, _) \<Rightarrow> res = None
      | (Some (el, tag, hl), rest) \<Rightarrow>
          if read_asn1_limits max_len d el hl then res = Some el \<and> mem_rep w' p ro rest else res = None)"

lemma read_asn1_body_spec:
  assumes rep: "mem_rep w p ro q" "eof_value p w \<le> 0" "heap_roomy (bw_heap w)" and l: "len < 2 ^ 32" "length header \<le> 6"
    and d: "d = t # b # r" "t AND 0x1f \<noteq> 0x1f" "der_len_dec (b # r) = (Some len, q)" "d = header @ q"
  shows "\<exists>res w'. read_asn1_body (Some p) header len max_len w = Some (res, w') \<and> read_asn1_spec p ro max_len d res w'"
proof -
  let ?ok = "len + length header \<le> max_len \<and> int len \<le> INT_MAX \<and> len \<le> length q"
  obtain w' where w': "read_asn1_body (Some p) header len max_len w = Some (if ?ok then Some (header @ take len q) else None, w')"
    "?ok \<longrightarrow> mem_rep w' p ro (drop len q)"
    using read_asn1_body_mem [OF rep l] by blast
  have hl: "length d - length q = length header" using d(4) by simp
  have g: "CBS_get_any_asn1_element d =
      (if length d < len + length header then (None, d)
       else (Some (take (len + length header) d, mk_tag t (ucast (t AND 0x1f)), length header), drop (len + length header) d))"
    unfolding d(1) get_low_tag [OF d(2)] d(3) using hl by (simp add: d(1) Let_def)
  have hd: "hd d = t" using d(1) by simp
  have len: "length d < len + length header \<longleftrightarrow> \<not> len \<le> length q" using d(4) by auto
  have el: "take (len + length header) d = header @ take len q" "drop (len + length header) d = drop len q" using d(4) by simp_all
  have "read_asn1_spec p ro max_len d (if ?ok then Some (header @ take len q) else None) w'"
    unfolding read_asn1_spec_def g read_asn1_limits_def hd len el using w'(2) d(2) by (auto simp: add.commute)
  then show ?thesis using w'(1) by blast
qed

lemma der_len_dec_None: "t AND 0x1f \<noteq> 0x1f \<Longrightarrow> der_len_dec (b # r) = (None, c) \<Longrightarrow> read_asn1_spec p ro max_len (t # b # r) None w"
  by (simp add: read_asn1_spec_def get_low_tag)

lemma element_Nil: "parse_asn1_tag [] = (None, [])" "der_len_dec [] = (None, [])"
  by (simp_all add: parse_asn1_tag_def der_len_dec_def st_bind_def)

lemma read_asn1_spec_long_tag: "t AND 0x1f = 0x1f \<Longrightarrow> read_asn1_spec p ro max_len (t # r) None w"
  by (simp add: read_asn1_spec_def read_asn1_limits_def split: option.split prod.split)

lemma read_asn1_spec_short:
  assumes "length d < 2"
  shows "read_asn1_spec p ro max_len d None w"
proof (cases d)
  case Nil
  then show ?thesis by (simp add: read_asn1_spec_def CBS_get_any_asn1_element_def cbs_get_any_asn1_element_der elem_spec_def st_bind_def element_Nil)
next
  case (Cons t r)
  then have d: "d = [t]" using assms by (cases r) simp_all
  show ?thesis
  proof (cases "t AND 0x1f = 0x1f")
    case True
    then show ?thesis unfolding d by (rule read_asn1_spec_long_tag)
  next
    case False
    then show ?thesis unfolding d
      by (simp add: read_asn1_spec_def CBS_get_any_asn1_element_def cbs_get_any_asn1_element_der elem_spec_def st_bind_def
          parse_asn1_tag_Cons element_Nil)
  qed
qed

text \<open>The two forms of a length, after a first read of two bytes.\<close>

lemma read_asn1_long:
  assumes rep: "mem_rep w p ro r" "eof_value p w \<le> 0" "heap_roomy (bw_heap w)"
    and t: "t AND 0x1f \<noteq> 0x1f" and b: "cont b" "k = unat b mod 128" "1 \<le> k" "k \<le> 4"
  shows "\<exists>res w'. io_bind (BIO_read (Some p) False (int k)) (\<lambda>(n, more).
             if n \<noteq> int k then io_return None
             else let len32 = be_fold more in
               if len32 < 128 then io_return None
               else if drop_bit ((k - 1) * 8) len32 = 0 then io_return None
               else read_asn1_body (Some p) ([t, b] @ more) (unat len32) max_len) w = Some (res, w')
    \<and> read_asn1_spec p ro max_len (t # b # r) res w'"
proof -
  obtain n w1 where w1: "BIO_read (Some p) False (int k) w = Some ((n, take k r), w1)" "mem_rep w1 p ro (drop k r)"
    "eof_value p w1 \<le> 0" "bw_heap w1 = bw_heap w" "n = int k \<longleftrightarrow> k \<le> length r"
    using BIO_read_exact [OF rep(1,2), of k] b(4) by auto
  define d where "d = take k r"
  show ?thesis
  proof (cases "k \<le> length r")
    case False
    then have "der_len_dec (b # r) = (None, r)" using b by (simp add: der_len_dec_Cons Let_def)
    then show ?thesis using w1 False der_len_dec_None [OF t] by simp
  next
    case True
    then have ld: "length d = k" by (simp add: d_def)
    have u: "unat (be_fold d) = be_val d" using ld b(4) by (intro unat_be_fold) simp
    have s: "be_fold d < 128 \<longleftrightarrow> be_val d < 128" by (simp add: word_less_nat_alt u)
    note dl = drop_bit_len32 [OF ld b(3,4)]
    have dec: "der_len_dec (b # r) = (if be_val d < 128 \<or> be_val d < 256 ^ (k - 1) then (None, drop k r) else (Some (be_val d), drop k r))"
      unfolding der_len_dec_Cons Let_def using True b by (auto simp: d_def)
    let ?bad = "be_val d < 128 \<or> be_val d < 256 ^ (k - 1)"
    have run: "io_bind (BIO_read (Some p) False (int k)) (\<lambda>(n, more).
             if n \<noteq> int k then io_return None
             else let len32 = be_fold more in
               if len32 < 128 then io_return None
               else if drop_bit ((k - 1) * 8) len32 = 0 then io_return None
               else read_asn1_body (Some p) ([t, b] @ more) (unat len32) max_len) w
      = (if ?bad then Some (None, w1) else read_asn1_body (Some p) ([t, b] @ d) (be_val d) max_len w1)"
      using w1(1,5) True by (simp add: Let_def s dl u del: One_nat_def flip: d_def)
    show ?thesis
    proof (cases ?bad)
      case bad: True
      then show ?thesis using run der_len_dec_None [OF t, of b r "drop k r"] dec by simp
    next
      case False
      have "be_val d < 2 ^ 32" using u unsigned_less [of "be_fold d", where 'a = nat] by simp
      moreover have "t # b # r = ([t, b] @ d) @ drop k r" by (simp add: d_def)
      ultimately show ?thesis
        unfolding run if_not_P [OF False]
        by (intro read_asn1_body_spec [OF w1(2,3) _ _ _ refl t]) (use False dec rep(3) w1(4) ld b(4) in simp_all)
    qed
  qed
qed

lemma cont_80: "cont b \<Longrightarrow> unat b mod 128 = 0 \<Longrightarrow> b = 0x80"
proof -
  assume "cont b" "unat b mod 128 = 0"
  then have "unat b = 128" using unat_u8_lt [of b] unfolding cont_def by presburger
  then show ?thesis by (simp add: word_unat_eq_iff)
qed

lemma BIO_read_asn1_definite:
  assumes "mem_rep w p ro d" "eof_value p w \<le> 0" "heap_roomy (bw_heap w)"
    and "\<not> (length d \<ge> 2 \<and> d ! 0 AND 0x20 \<noteq> 0 \<and> d ! 1 = 0x80)"
  shows "\<exists>res w'. BIO_read_asn1 (Some p) max_len w = Some (res, w') \<and> read_asn1_spec p ro max_len d res w'"
proof -
  obtain n w1 where w1: "BIO_read (Some p) False (int 2) w = Some ((n, take 2 d), w1)" "mem_rep w1 p ro (drop 2 d)"
    "eof_value p w1 \<le> 0" "bw_heap w1 = bw_heap w" "n = int 2 \<longleftrightarrow> 2 \<le> length d"
    using BIO_read_exact [OF assms(1,2), of 2] by auto
  show ?thesis
  proof (cases "2 \<le> length d")
    case False
    then show ?thesis using w1(1,5) by (simp add: BIO_read_asn1_def read_asn1_spec_short)
  next
    case True
    then obtain t b r where d: "d = t # b # r" by (cases d rule: remdups_adj.cases) auto
    let ?k = "unat b mod 128"
    have b: "b AND 0x80 = 0 \<longleftrightarrow> \<not> cont b" "unat (b AND 0x7f) = ?k" using cont_iff [of b] by (auto simp: and_7f)
    have ind: "t AND 0x20 = 0 \<or> ?k \<noteq> 0" if "cont b" using that cont_80 [of b] assms(4) d by auto
    have dec: "der_len_dec (b # r) = (None, r)" if "cont b" "?k = 0 \<or> 4 < ?k" using that by (auto simp: der_len_dec_Cons Let_def)
    have r1: "mem_rep w1 p ro r" "heap_roomy (bw_heap w1)" using w1(2,4) assms(3) by (simp_all add: d)
    have run: "BIO_read_asn1 (Some p) max_len w =
       (if t AND 0x1f = 0x1f then Some (None, w1)
        else if \<not> cont b then read_asn1_body (Some p) [t, b] (unat b) max_len w1
        else if ?k = 0 \<or> 4 < ?k then Some (None, w1)
        else io_bind (BIO_read (Some p) False (int ?k)) (\<lambda>(n, more).
             if n \<noteq> int ?k then io_return None
             else let len32 = be_fold more in
               if len32 < 128 then io_return None
               else if drop_bit ((?k - 1) * 8) len32 = 0 then io_return None
               else read_asn1_body (Some p) ([t, b] @ more) (unat len32) max_len) w1)"
      unfolding BIO_read_asn1_def be_fold_def using w1(1,5) ind by (auto simp: d b Let_def)
    consider "t AND 0x1f = 0x1f" | "t AND 0x1f \<noteq> 0x1f" "\<not> cont b" | "t AND 0x1f \<noteq> 0x1f" "cont b" "?k = 0 \<or> 4 < ?k"
      | "t AND 0x1f \<noteq> 0x1f" "cont b" "1 \<le> ?k" "?k \<le> 4" by linarith
    then show ?thesis
    proof cases
      case 1
      then show ?thesis by (simp add: run read_asn1_spec_long_tag d)
    next
      case 2
      have "unat b < 2 ^ 32" using unat_u8_lt [of b] by (simp del: unat_u8_lt)
      then show ?thesis unfolding run if_not_P [OF 2(1)] if_P [OF 2(2)]
        by (intro read_asn1_body_spec [OF r1(1) w1(3) r1(2) _ _ d 2(1)]) (use 2 d in \<open>simp_all add: der_len_dec_Cons\<close>)
    next
      case 3
      then show ?thesis using der_len_dec_None [OF 3(1) dec [OF 3(2,3)]] by (simp add: run d)
    next
      case 4
      then show ?thesis unfolding run d using read_asn1_long [OF r1(1) w1(3) r1(2) 4(1,2) refl 4(3,4)] by simp
    qed
  qed
qed

text \<open>C16. Reading an element from a memory object is parsing the object's contents.  When the object does not
  start with an indefinite length, \<open>BIO_read_asn1\<close> returns the same element as \<open>CBS_get_any_asn1_element\<close> on the bytes the
  object holds and leaves the rest in it; it fails when the parser fails, when the tag is longer than a byte, and
  when the element is longer than the caller's limit or its contents than \<open>INT_MAX\<close>.\<close>

theorem BIO_read_asn1_equiv:
  assumes "mem_rep w p ro d" "eof_value p w \<le> 0" "heap_roomy (bw_heap w)"
    and "\<not> (length d \<ge> 2 \<and> d ! 0 AND 0x20 \<noteq> 0 \<and> d ! 1 = 0x80)"
  shows "\<exists>res w'. BIO_read_asn1 (Some p) max_len w = Some (res, w') \<and>
    (case CBS_get_any_asn1_element d of
        (None, _) \<Rightarrow> res = None
      | (Some (el, tag, hl), rest) \<Rightarrow>
          if d ! 0 AND 0x1f \<noteq> 0x1f \<and> length el \<le> max_len \<and> int (length el - hl) \<le> INT_MAX
          then res = Some el \<and> mem_rep w' p ro rest else res = None)"
proof -
  have "read_asn1_limits max_len d el hl \<longleftrightarrow> d ! 0 AND 0x1f \<noteq> 0x1f \<and> length el \<le> max_len \<and> int (length el - hl) \<le> INT_MAX"
    if "CBS_get_any_asn1_element d = (Some (el, tag, hl), rest)" for el tag hl rest
    using that by (cases d) (auto simp: read_asn1_limits_def CBS_get_any_asn1_element_def cbs_get_any_asn1_element_der elem_spec_def
      st_bind_def parse_asn1_tag_def split: option.splits prod.splits)
  then show ?thesis using BIO_read_asn1_definite [OF assms, of max_len] unfolding read_asn1_spec_def by (fastforce split: prod.splits option.splits)
qed

section \<open>Everything\<close>

text \<open>\<open>bio_read_all\<close> on a memory object: the invariant of its loop, when \<open>acc\<close> is what is in the buffer and \<open>q\<close> what is
  still in the object.  The buffer has room for the next read unless it is as long as it may become.\<close>

definition read_all_inv :: "addr \<Rightarrow> bool \<Rightarrow> nat \<Rightarrow> nat \<Rightarrow> nat \<Rightarrow> u8 list \<Rightarrow> bio_world \<Rightarrow> u8 list \<Rightarrow> u8 list \<Rightarrow> bool" where
  "read_all_inv p ro max_len len dn out w acc q \<longleftrightarrow>
     mem_rep w p ro q \<and> heap_roomy (bw_heap w) \<and> length out = len \<and> len \<le> max_len \<and> take dn out = acc \<and> dn = length acc
     \<and> dn \<le> len \<and> (dn = len \<longrightarrow> len = max_len) \<and> len \<le> dn + 6144 \<and> dn + length q < 2 ^ 32"

lemma heap_roomy_realloc:
  assumes "heap_roomy h" "n < 2 ^ 62"
  shows "\<exists>new h'. mem_realloc (Some out) n h = (Some new, h') \<and> heap_roomy h'"
proof -
  obtain r h' where m: "mem_realloc (Some out) n h = (r, h')" by fastforce
  moreover have "r \<noteq> None" using m assms
    by (auto simp: heap_roomy_def mem_realloc_def mem_malloc_def c_malloc_def OPENSSL_MALLOC_PREFIX_def Let_def)
  ultimately show ?thesis using mem_realloc_hp_ok [OF m] assms(1) by (auto simp: heap_roomy_def)
qed

lemma read_all_step_mem:
  assumes inv: "read_all_inv p ro max_len len dn out w acc q" and q: "dn < len" "q \<noteq> []"
  shows "\<exists>len' dn' out' w'. read_all_step (Some p) max_len len dn out w = Some (Inr (len', dn', out'), w')
    \<and> read_all_inv p ro max_len len' dn' out' w' (acc @ take (len - dn) q) (drop (len - dn) q) \<and> eof_value p w' = eof_value p w"
proof -
  have i: "mem_rep w p ro q" "heap_roomy (bw_heap w)" "length out = len" "len \<le> max_len" "take dn out = acc" "dn = length acc"
    "len \<le> dn + 6144" "dn + length q < 2 ^ 32" using inv by (auto simp: read_all_inv_def)
  let ?t = "take (len - dn) q"
  have "int (len - dn) < 2 ^ 31" using i(7) by simp
  then obtain w1 where w1: "BIO_read (Some p) False (int (len - dn)) w = Some ((int (length ?t), ?t), w1)" "mem_rep w1 p ro (drop (len - dn) q)"
    "eof_value p w1 = eof_value p w" "bw_heap w1 = bw_heap w"
    using BIO_read_mem [OF i(1), of "int (len - dn)"] q by (auto simp: min.commute simp del: of_nat_diff)
  define dn' where "dn' = dn + length ?t"
  define out' where "out' = memcpy_at out dn ?t"
  have d': "dn < dn'" "dn' \<le> len" "dn' + length (drop (len - dn) q) < 2 ^ 32" using q i(8) by (auto simp: dn'_def min_def)
  have o': "length out' = len" "take dn' out' = acc @ ?t" "dn' = length (acc @ ?t)"
    using i(3,5,6) d' take_memcpy_at [of dn ?t out] by (simp_all add: out'_def dn'_def)
  have dn: "(int dn + int (length ?t)) mod 18446744073709551616 = int dn'" using d' by (simp add: dn'_def del: length_take)
  have rest: "nat ((int len - int dn') mod 18446744073709551616) = len - dn'" using d' i(7,8) by (simp add: nat_diff_distrib')
  have run: "read_all_step (Some p) max_len len dn out w =
      (if len < max_len \<and> len - dn' < 2048 then
         (let len' = szw (len + 4096); len' = (if len' < 4096 \<or> len' > max_len then max_len else len') in
          case mem_realloc (Some out') len' (bw_heap w1) of
            (None, h) \<Rightarrow> Some (Inl None, w1\<lparr>bw_heap := mem_free (Some out') h\<rparr>)
          | (Some new_buf, h) \<Rightarrow> Some (Inr (len', dn', new_buf), w1\<lparr>bw_heap := h\<rparr>))
       else Some (Inr (len, dn', out'), w1))"
    unfolding read_all_step_def out'_def using q w1(1) by (simp add: Let_def dn rest kChunkSize_def del: length_take)
  show ?thesis
  proof (cases "len < max_len \<and> len - dn' < 2048")
    case False
    then have "read_all_inv p ro max_len len dn' out' w1 (acc @ ?t) (drop (len - dn) q)"
      using w1 i d' o' by (auto simp: read_all_inv_def)
    then show ?thesis using run False w1(3) by simp
  next
    case True
    define l where "l = min max_len (len + 4096)"
    have l: "l < 2 ^ 62" "len < l" "l \<le> max_len" "l \<le> dn' + 6144" using True d'(3) by (auto simp: l_def)
    have "len < dn' + 2048" "dn' < 2 ^ 32" using True d'(3) by linarith+
    then have "len + 4096 < 2 ^ 64" by simp
    then have "szw (len + 4096) = len + 4096" by simp
    then have len': "(let len' = szw (len + 4096) in if len' < 4096 \<or> len' > max_len then max_len else len') = l" by (auto simp: l_def Let_def)
    obtain new h where m: "mem_realloc (Some out') l (bw_heap w1) = (Some new, h)" "heap_roomy h"
      using heap_roomy_realloc l(1) i(2) w1(4) by metis
    have "length new = l" "take dn' new = take dn' out'"
      using mem_realloc_length [OF m(1)] mem_realloc_contents [OF m(1) _ refl, of dn'] l d' o' by simp_all
    then have "read_all_inv p ro max_len l dn' new (w1\<lparr>bw_heap := h\<rparr>) (acc @ ?t) (drop (len - dn) q)"
      using w1 l m d' o' by (auto simp: read_all_inv_def mem_rep_def)
    moreover have "read_all_step (Some p) max_len len dn out w = Some (Inr (l, dn', new), w1\<lparr>bw_heap := h\<rparr>)"
      using run True m(1) len' by (simp add: Let_def)
    ultimately show ?thesis using w1(3) by (auto simp: eof_value_def)
  qed
qed

lemma read_all_loop_mem:
  assumes "read_all_inv p ro max_len len dn out w acc q" "eof_value p w \<in> {0, - 1}"
  shows "\<exists>w'. read_all_loop (Some p) max_len len dn out w
    = Some (if eof_value p w = 0 \<and> length acc + length q < max_len then Some (acc @ q) else None, w')"
  using assms
proof (induction "length q" arbitrary: len dn out w acc q rule: less_induct)
  case less
  have i: "mem_rep w p ro q" "take dn out = acc" "dn = length acc" "dn \<le> len" "dn = len \<longrightarrow> len = max_len" "len \<le> max_len" "len \<le> dn + 6144"
    using less.prems(1) by (auto simp: read_all_inv_def)
  consider "dn = len" | "dn < len" "q = []" | "dn < len" "q \<noteq> []" using i(4) by linarith
  then show ?case
  proof cases
    case 1
    then show ?thesis using i by (subst read_all_loop.simps) (auto simp: read_all_step_def io_bind_def io_free_def)
  next
    case 2
    have "int (len - dn) < 2 ^ 31" using i(7) by simp
    then obtain w1 where w1: "BIO_read (Some p) False (int (len - dn)) w = Some ((eof_value p w, []), w1)"
      using BIO_read_mem [OF i(1), of "int (len - dn)"] 2 by auto
    then have "read_all_step (Some p) max_len len dn out w = (if eof_value p w = 0 then Some (Inl (Some acc), w1)
        else Some (Inl None, w1\<lparr>bw_heap := mem_free (Some out) (bw_heap w1)\<rparr>))"
      using less.prems(2) 2(1) i(2) by (auto simp: read_all_step_def io_free_def)
    then show ?thesis using less.prems(2) 2 i by (subst read_all_loop.simps) auto
  next
    case 3
    then obtain len' dn' out' w' where s: "read_all_step (Some p) max_len len dn out w = Some (Inr (len', dn', out'), w')"
      "read_all_inv p ro max_len len' dn' out' w' (acc @ take (len - dn) q) (drop (len - dn) q)" "eof_value p w' = eof_value p w"
      using read_all_step_mem [OF less.prems(1)] by blast
    have "(acc @ take (len - dn) q) @ drop (len - dn) q = acc @ q"
      "length (acc @ take (len - dn) q) + length (drop (len - dn) q) = length acc + length q" by auto
    moreover have "\<exists>w''. read_all_loop (Some p) max_len len' dn' out' w' =
        Some (if eof_value p w' = 0 \<and> length (acc @ take (len - dn) q) + length (drop (len - dn) q) < max_len
              then Some ((acc @ take (len - dn) q) @ drop (len - dn) q) else None, w'')"
      by (rule less.hyps [OF _ s(2)]) (use 3 less.prems(2) s(3) in \<open>auto simp flip: length_greater_0_conv\<close>)
    ultimately have "\<exists>w''. read_all_loop (Some p) max_len len' dn' out' w' =
        Some (if eof_value p w = 0 \<and> length acc + length q < max_len then Some (acc @ q) else None, w'')"
      by (simp only: s(3))
    then show ?thesis by (subst read_all_loop.simps) (simp only: s(1) bind.simps prod.case sum.case)
  qed
qed

text \<open>An indefinite length takes all there is, if the object signals its end with 0 and the result is shorter than the limit.\<close>

theorem BIO_read_asn1_indefinite:
  assumes "mem_rep w p ro (t # 0x80 # r)" "eof_value p w \<in> {0, - 1}" "heap_roomy (bw_heap w)"
    and "t AND 0x20 \<noteq> 0" "t AND 0x1f \<noteq> 0x1f"
  shows "\<exists>w'. BIO_read_asn1 (Some p) max_len w
    = Some (if eof_value p w = 0 \<and> length r + 2 < max_len then Some (t # 0x80 # r) else None, w')"
proof -
  obtain w1 where w1: "BIO_read (Some p) False 2 w = Some ((2, [t, 0x80]), w1)" "mem_rep w1 p ro r"
    "eof_value p w1 = eof_value p w" "bw_heap w1 = bw_heap w"
    using BIO_read_mem [OF assms(1), of 2] by auto
  have run: "BIO_read_asn1 (Some p) max_len w = bio_read_all (Some p) [t, 0x80] max_len w1"
    using w1(1) assms(4,5) by (simp add: BIO_read_asn1_def Let_def)
  have r: "length r < 2 ^ 31" using w1(2) by (auto simp: mem_rep_def mem_ptr_rep_def)
  show ?thesis
  proof (cases "2 \<le> max_len")
    case False
    then show ?thesis unfolding run by (simp add: bio_read_all_def kChunkSize_def Let_def)
  next
    case True
    define l where "l = min max_len 4098"
    obtain blk h where m: "mem_malloc l (bw_heap w1) = (Some blk, h)"
      using assms(3) w1(4) by (auto simp: l_def heap_roomy_def mem_malloc_def c_malloc_def OPENSSL_MALLOC_PREFIX_def Let_def)
    have lb: "length blk = l" using mem_malloc_length [OF m] by (simp add: l_def)
    let ?w2 = "w1\<lparr>bw_heap := h\<rparr>"
    have "bio_read_all (Some p) [t, 0x80] max_len w1 = read_all_loop (Some p) max_len l 2 (memcpy_at blk 0 [t, 0x80]) ?w2"
      using True m by (auto simp: bio_read_all_def kChunkSize_def Let_def l_def min_def io_malloc_def io_bind_def simp flip: numeral_2_eq_2)
    moreover have "read_all_inv p ro max_len l 2 (memcpy_at blk 0 [t, 0x80]) ?w2 [t, 0x80] r"
      using w1 True r lb assms(3) mem_malloc_hp_ok [OF m] by (auto simp: read_all_inv_def mem_rep_def heap_roomy_def l_def memcpy_at_0)
    moreover have "eof_value p ?w2 = eof_value p w" using w1(3) by (simp add: eof_value_def)
    ultimately show ?thesis
      using read_all_loop_mem [of p ro max_len l 2 "memcpy_at blk 0 [t, 0x80]" ?w2 "[t, 0x80]" r] assms(2) unfolding run by auto
  qed
qed

section \<open>Construction\<close>

text \<open>A new object is empty and returns -1 at its end; one made from a buffer has the buffer's bytes and returns 0.\<close>

lemma heap_roomy_malloc:
  assumes "heap_roomy h" "n < 2 ^ 62"
  shows "\<exists>new h'. mem_malloc n h = (Some new, h') \<and> heap_roomy h'"
proof -
  obtain r h' where m: "mem_malloc n h = (r, h')" by fastforce
  moreover have "r \<noteq> None" using m assms by (auto simp: heap_roomy_def mem_malloc_def c_malloc_def OPENSSL_MALLOC_PREFIX_def Let_def)
  ultimately show ?thesis using mem_malloc_hp_ok [OF m] assms(1) by (auto simp: heap_roomy_def)
qed

lemma BIO_new_mem:
  assumes "heap_roomy (bw_heap w)"
  shows "\<exists>w'. BIO_new mem_method w = Some (Some (hp_calls (bw_heap w)), w') \<and> heap_roomy (bw_heap w')
    \<and> mem_rep w' (hp_calls (bw_heap w)) False [] \<and> eof_value (hp_calls (bw_heap w)) w' = - 1"
proof -
  obtain r1 h1 where h1: "mem_malloc 64 (bw_heap w) = (Some r1, h1)" "heap_roomy h1" using heap_roomy_malloc [OF assms, of 64] by auto
  obtain r2 h2 where h2: "mem_malloc 24 h1 = (Some r2, h2)" "heap_roomy h2" using heap_roomy_malloc [OF h1(2), of 24] by auto
  show ?thesis
    using h1 h2 by (simp add: BIO_new_def bm_create_def mem_new_def BUF_MEM_new_def fresh_bio_def mem_rep_def mem_ptr_rep_def
        bm_inv_def bm_abs_def bm_bytes_def eof_value_def Let_def)
qed

lemma BIO_new_mem_buf_rep:
  assumes "heap_roomy (bw_heap w)" "length d < 2 ^ 31 - 1"
  shows "\<exists>p w'. BIO_new_mem_buf (Some d) (int (length d)) w = Some (Some p, w') \<and> heap_roomy (bw_heap w')
    \<and> mem_rep w' p True d \<and> eof_value p w' = 0"
proof -
  define p where "p = hp_calls (bw_heap w)"
  obtain w1 where w1: "BIO_new mem_method w = Some (Some p, w1)" "heap_roomy (bw_heap w1)" "mem_rep w1 p False []"
    using BIO_new_mem [OF assms(1)] by (auto simp: p_def)
  then obtain o1 where "bw_bios w1 p = Some o1" "bi_method o1 = mem_method" "bi_init o1" by (auto simp: mem_rep_def)
  moreover have "(x OR BIO_FLAGS_MEM_RDONLY) AND BIO_FLAGS_MEM_RDONLY \<noteq> 0" for x :: u32
    by (simp add: bit.conj_disj_distrib2 BIO_FLAGS_MEM_RDONLY_def or_eq_0_iff)
  ultimately show ?thesis using w1 assms(2)
    by (auto simp: BIO_new_mem_buf_def mem_rep_def mem_ptr_rep_def eof_value_def)
qed

section \<open>Examples\<close>

definition mem_world :: bio_world where
  "mem_world = \<lparr>bw_bios = \<lambda>_. None, bw_heap = demo_heap\<lparr>hp_ok := \<lambda>t n. n < 2 ^ 63\<rparr>\<rparr>"

lemma mem_world_roomy: "heap_roomy (bw_heap mem_world)"
  by (simp add: mem_world_def heap_roomy_def)

theorem mem_bio_queue_witness:
  "\<exists>p w w1 w2 n. BIO_new mem_method mem_world = Some (Some p, w) \<and> BIO_write (Some p) (Some [1, 2, 3]) 3 w = Some (n, w1) \<and> n \<in> {3, - 1}
    \<and> BIO_read (Some p) False 2 w = Some ((- 1, []), w2)"
proof -
  obtain p w where w: "BIO_new mem_method mem_world = Some (Some p, w)" "mem_rep w p False []" "eof_value p w = - 1"
    using BIO_new_mem [OF mem_world_roomy] by blast
  from mem_bio_queue [OF w(2), of "[1, 2, 3]" 2] w(3) have
    "\<exists>n w1 w2. BIO_write (Some p) (Some [1, 2, 3]) 3 w = Some (n, w1) \<and> n \<in> {3, - 1} \<and> BIO_read (Some p) False 2 w = Some ((- 1, []), w2)"
    by auto
  then show ?thesis using w(1) by blast
qed

text \<open>Two elements in a buffer: the first is read, the second remains.\<close>

lemma two_elements: "CBS_get_any_asn1_element [0x04, 2, 7, 8, 0x05, 0] = (Some ([0x04, 2, 7, 8], 4, 2), [0x05, 0])"
proof -
  have "(0x04 :: u8) AND 0x1f \<noteq> 0x1f" by simp
  from get_low_tag [OF this, of 2 "[7, 8, 0x05, 0]"] show ?thesis
    by (simp add: der_len_dec_Cons cont_def mk_tag_def Let_def)
qed

theorem BIO_read_asn1_equiv_witness:
  "\<exists>p w w'. BIO_new_mem_buf (Some [0x04, 2, 7, 8, 0x05, 0]) 6 mem_world = Some (Some p, w)
    \<and> BIO_read_asn1 (Some p) 100 w = Some (Some [0x04, 2, 7, 8], w') \<and> mem_rep w' p True [0x05, 0]"
proof -
  obtain p w where w: "BIO_new_mem_buf (Some [0x04, 2, 7, 8, 0x05, 0]) 6 mem_world = Some (Some p, w)" "heap_roomy (bw_heap w)"
    "mem_rep w p True [0x04, 2, 7, 8, 0x05, 0]" "eof_value p w = 0"
    using BIO_new_mem_buf_rep [OF mem_world_roomy, of "[0x04, 2, 7, 8, 0x05, 0]"] by auto
  from BIO_read_asn1_equiv [OF w(3) _ w(2), of 100] w(4)
  have "\<exists>w'. BIO_read_asn1 (Some p) 100 w = Some (Some [0x04, 2, 7, 8], w') \<and> mem_rep w' p True [0x05, 0]"
    by (simp add: two_elements INT_MAX_def)
  then show ?thesis using w(1) by blast
qed

end
