(* ===== verification/Pb_Common.thy ===== *)
theory Pb_Common
  imports Byte_Prelude
begin

text \<open>
  Field descriptors of nanopb (\<open>pb.h\<close>) and the field iterator of \<open>pb_common.c\<close>.  A message type is an array
  of descriptors that ends with one of tag 0; descriptors refer to the array of a submessage by the
  number of its type, since message types may refer to themselves.  Addresses of the message structure
  are integers.  The theory shows that the iterator walks the fields in order with the address of each
  field, and that \<open>pb_field_iter_find\<close> returns and finds a field exactly if there is one.
\<close>

section \<open>Descriptors\<close>

text \<open>\<open>ptr\<close> of a descriptor: the descriptors of a submessage, a default value, or nothing.\<close>

datatype pb_ptr = PtrNull | PtrFields nat | PtrDefault "u8 list"

record pb_field =
  fld_tag :: u32
  fld_type :: u8
  fld_data_offset :: nat
  fld_size_offset :: int
  fld_data_size :: nat
  fld_array_size :: nat
  fld_ptr :: pb_ptr

definition PB_SIZE_MAX :: nat where
  "PB_SIZE_MAX = 2 ^ 32 - 1"

definition PB_LTYPE_VARINT :: u8 where "PB_LTYPE_VARINT = 0x00"
definition PB_LTYPE_UVARINT :: u8 where "PB_LTYPE_UVARINT = 0x01"
definition PB_LTYPE_SVARINT :: u8 where "PB_LTYPE_SVARINT = 0x02"
definition PB_LTYPE_FIXED32 :: u8 where "PB_LTYPE_FIXED32 = 0x03"
definition PB_LTYPE_FIXED64 :: u8 where "PB_LTYPE_FIXED64 = 0x04"
definition PB_LTYPE_LAST_PACKABLE :: u8 where "PB_LTYPE_LAST_PACKABLE = 0x04"
definition PB_LTYPE_BYTES :: u8 where "PB_LTYPE_BYTES = 0x05"
definition PB_LTYPE_STRING :: u8 where "PB_LTYPE_STRING = 0x06"
definition PB_LTYPE_SUBMESSAGE :: u8 where "PB_LTYPE_SUBMESSAGE = 0x07"
definition PB_LTYPE_EXTENSION :: u8 where "PB_LTYPE_EXTENSION = 0x08"
definition PB_LTYPE_FIXED_LENGTH_BYTES :: u8 where "PB_LTYPE_FIXED_LENGTH_BYTES = 0x09"
definition PB_HTYPE_REQUIRED :: u8 where "PB_HTYPE_REQUIRED = 0x00"
definition PB_HTYPE_OPTIONAL :: u8 where "PB_HTYPE_OPTIONAL = 0x10"
definition PB_HTYPE_REPEATED :: u8 where "PB_HTYPE_REPEATED = 0x20"
definition PB_HTYPE_ONEOF :: u8 where "PB_HTYPE_ONEOF = 0x30"
definition PB_ATYPE_STATIC :: u8 where "PB_ATYPE_STATIC = 0x00"
definition PB_ATYPE_POINTER :: u8 where "PB_ATYPE_POINTER = 0x80"
definition PB_ATYPE_CALLBACK :: u8 where "PB_ATYPE_CALLBACK = 0x40"

definition PB_ATYPE :: "u8 \<Rightarrow> u8" where "PB_ATYPE x = x AND 0xC0"
definition PB_HTYPE :: "u8 \<Rightarrow> u8" where "PB_HTYPE x = x AND 0x30"
definition PB_LTYPE :: "u8 \<Rightarrow> u8" where "PB_LTYPE x = x AND 0x0F"

lemmas pb_type_defs = PB_LTYPE_VARINT_def PB_LTYPE_UVARINT_def PB_LTYPE_SVARINT_def PB_LTYPE_FIXED32_def
  PB_LTYPE_FIXED64_def PB_LTYPE_LAST_PACKABLE_def PB_LTYPE_BYTES_def PB_LTYPE_STRING_def PB_LTYPE_SUBMESSAGE_def
  PB_LTYPE_EXTENSION_def PB_LTYPE_FIXED_LENGTH_BYTES_def PB_HTYPE_REQUIRED_def PB_HTYPE_OPTIONAL_def
  PB_HTYPE_REPEATED_def PB_HTYPE_ONEOF_def PB_ATYPE_STATIC_def PB_ATYPE_POINTER_def PB_ATYPE_CALLBACK_def
  PB_ATYPE_def PB_HTYPE_def PB_LTYPE_def

section \<open>The iterator\<close>

record pb_field_iter =
  iter_start :: "pb_field list"
  iter_pos :: nat
  iter_required_field_index :: nat
  iter_dest_struct :: int
  iter_pData :: int
  iter_pSize :: int

definition cur :: "pb_field_iter \<Rightarrow> pb_field" where
  "cur iter = iter_start iter ! iter_pos iter"

definition pb_field_iter_begin :: "pb_field list \<Rightarrow> int \<Rightarrow> bool \<times> pb_field_iter" where
  "pb_field_iter_begin flds dest_struct =
     (let p = flds ! 0; pData = dest_struct + int (fld_data_offset p) in
      (fld_tag p \<noteq> 0,
       \<lparr>iter_start = flds, iter_pos = 0, iter_required_field_index = 0, iter_dest_struct = dest_struct,
        iter_pData = pData, iter_pSize = pData + fld_size_offset p\<rparr>))"

text \<open>The number of bytes of the previous field in the structure.\<close>

definition prev_size :: "pb_field \<Rightarrow> nat" where
  "prev_size prev =
     (if PB_ATYPE (fld_type prev) = PB_ATYPE_STATIC \<and> PB_HTYPE (fld_type prev) = PB_HTYPE_REPEATED
      then fld_data_size prev * fld_array_size prev
      else if PB_ATYPE (fld_type prev) = PB_ATYPE_POINTER then 8 else fld_data_size prev)"

definition same_union :: "pb_field \<Rightarrow> pb_field \<Rightarrow> bool" where
  "same_union prev p \<longleftrightarrow> PB_HTYPE (fld_type prev) = PB_HTYPE_ONEOF \<and> PB_HTYPE (fld_type p) = PB_HTYPE_ONEOF
     \<and> fld_data_offset p = PB_SIZE_MAX"

definition pb_field_iter_next :: "pb_field_iter \<Rightarrow> bool \<times> pb_field_iter" where
  "pb_field_iter_next iter =
     (let prev = cur iter in
      if fld_tag prev = 0 then (False, iter)
      else
        let iter' = iter\<lparr>iter_pos := iter_pos iter + 1\<rparr>; p = cur iter' in
        if fld_tag p = 0 then (False, snd (pb_field_iter_begin (iter_start iter) (iter_dest_struct iter)))
        else if same_union prev p then (True, iter')
        else
          let pData = iter_pData iter + int (prev_size prev) + int (fld_data_offset p) in
          (True,
           iter'\<lparr>iter_required_field_index :=
                   iter_required_field_index iter + (if PB_HTYPE (fld_type prev) = PB_HTYPE_REQUIRED then 1 else 0),
                 iter_pData := pData, iter_pSize := pData + fld_size_offset p\<rparr>))"

text \<open>The loop of \<open>pb_field_iter_find\<close> ends when it is back at the position it started from.\<close>

partial_function (option) iter_find_loop :: "u32 \<Rightarrow> nat \<Rightarrow> pb_field_iter \<Rightarrow> (bool \<times> pb_field_iter) option" where
  "iter_find_loop tag start iter =
     (if fld_tag (cur iter) = tag \<and> PB_LTYPE (fld_type (cur iter)) \<noteq> PB_LTYPE_EXTENSION then Some (True, iter)
      else let iter' = snd (pb_field_iter_next iter) in
        if iter_pos iter' \<noteq> start then iter_find_loop tag start iter' else Some (False, iter'))"

definition pb_field_iter_find :: "u32 \<Rightarrow> pb_field_iter \<Rightarrow> (bool \<times> pb_field_iter) option" where
  "pb_field_iter_find tag iter = iter_find_loop tag (iter_pos iter) iter"

section \<open>The layout of a message\<close>

text \<open>A message type: its descriptors and the terminator.\<close>

definition num_fields :: "pb_field list \<Rightarrow> nat" where
  "num_fields flds = length flds - 1"

definition msg_ok :: "pb_field list \<Rightarrow> bool" where
  "msg_ok flds \<longleftrightarrow> flds \<noteq> [] \<and> fld_tag (last flds) = 0 \<and> (\<forall>i < num_fields flds. fld_tag (flds ! i) \<noteq> 0)"

text \<open>Offsets of the data and of the count or presence flag of field \<open>i\<close>; the members of a union share those
  of the first.\<close>

primrec layout :: "pb_field list \<Rightarrow> nat \<Rightarrow> int \<times> int" where
  "layout flds 0 = (int (fld_data_offset (flds ! 0)), int (fld_data_offset (flds ! 0)) + fld_size_offset (flds ! 0))"
| "layout flds (Suc i) =
     (if same_union (flds ! i) (flds ! Suc i) then layout flds i
      else let d = fst (layout flds i) + int (prev_size (flds ! i)) + int (fld_data_offset (flds ! Suc i)) in
           (d, d + fld_size_offset (flds ! Suc i)))"

definition is_required :: "pb_field \<Rightarrow> bool" where
  "is_required f \<longleftrightarrow> PB_HTYPE (fld_type f) = PB_HTYPE_REQUIRED"

definition iter_at :: "pb_field list \<Rightarrow> int \<Rightarrow> nat \<Rightarrow> pb_field_iter" where
  "iter_at flds dest i =
     \<lparr>iter_start = flds, iter_pos = i, iter_required_field_index = length (filter is_required (take i flds)),
      iter_dest_struct = dest, iter_pData = dest + fst (layout flds i), iter_pSize = dest + snd (layout flds i)\<rparr>"

lemma iter_at_simps [simp]:
  "iter_pos (iter_at flds dest i) = i" "cur (iter_at flds dest i) = flds ! i" "iter_start (iter_at flds dest i) = flds"
  "iter_dest_struct (iter_at flds dest i) = dest"
  by (simp_all add: iter_at_def cur_def)

lemma iter_begin_at: "pb_field_iter_begin flds dest = (fld_tag (flds ! 0) \<noteq> 0, iter_at flds dest 0)"
  by (simp add: pb_field_iter_begin_def iter_at_def Let_def algebra_simps)

lemma same_union_not_required: "same_union f g \<Longrightarrow> \<not> is_required f"
  by (auto simp: same_union_def is_required_def pb_type_defs)

lemma iter_next_at:
  assumes "msg_ok flds" "i < num_fields flds"
  shows "pb_field_iter_next (iter_at flds dest i)
    = (if Suc i < num_fields flds then (True, iter_at flds dest (Suc i)) else (False, iter_at flds dest 0))"
proof -
  have t: "fld_tag (flds ! i) \<noteq> 0" "flds \<noteq> []" "fld_tag (last flds) = 0" using assms by (simp_all add: msg_ok_def)
  have il: "i < length flds" using assms(2) by (simp add: num_fields_def)
  have tk: "take (Suc i) flds = take i flds @ [flds ! i]" using il by (simp add: take_Suc_conv_app_nth)
  show ?thesis
  proof (cases "Suc i < num_fields flds")
    case True
    then have t1: "fld_tag (flds ! Suc i) \<noteq> 0" using assms(1) by (simp add: msg_ok_def)
    show ?thesis
    proof (cases "same_union (flds ! i) (flds ! Suc i)")
      case un: True
      then show ?thesis using True t t1 tk same_union_not_required [OF un]
        by (simp add: pb_field_iter_next_def Let_def cur_def iter_at_def)
    next
      case False
      then show ?thesis using True t t1 tk
        by (simp add: pb_field_iter_next_def Let_def cur_def iter_at_def is_required_def algebra_simps)
    qed
  next
    case False
    then have "Suc i = length flds - 1" using assms(2) by (simp add: num_fields_def)
    then have "fld_tag (flds ! Suc i) = 0" using t by (simp add: last_conv_nth)
    then show ?thesis using False t by (simp add: pb_field_iter_next_def Let_def cur_def iter_begin_at)
  qed
qed

section \<open>Finding a field\<close>

definition matches :: "u32 \<Rightarrow> pb_field \<Rightarrow> bool" where
  "matches tag f \<longleftrightarrow> fld_tag f = tag \<and> PB_LTYPE (fld_type f) \<noteq> PB_LTYPE_EXTENSION"

lemma iter_next_cyclic:
  assumes "msg_ok flds" "i < num_fields flds"
  shows "snd (pb_field_iter_next (iter_at flds dest i)) = iter_at flds dest (Suc i mod num_fields flds)"
  using iter_next_at [OF assms] assms(2) by (cases "Suc i < num_fields flds") (auto simp: not_less dest: le_antisym)

lemma find_loop_from:
  assumes "msg_ok flds" "i < num_fields flds" "s < num_fields flds"
    and "\<forall>r < s. \<not> matches tag (flds ! ((i + r) mod num_fields flds))"
  shows "\<exists>found iter'. iter_find_loop tag i (iter_at flds dest ((i + s) mod num_fields flds)) = Some (found, iter')
    \<and> (if found then \<exists>j < num_fields flds. iter' = iter_at flds dest j \<and> matches tag (flds ! j)
       else iter' = iter_at flds dest i \<and> (\<forall>r < num_fields flds. \<not> matches tag (flds ! ((i + r) mod num_fields flds))))"
  using assms(3,4)
proof (induction "num_fields flds - s" arbitrary: s)
  case (Suc m)
  let ?n = "num_fields flds" let ?p = "(i + s) mod ?n"
  have p: "?p < ?n" using Suc.prems(1) by simp
  show ?case
  proof (cases "matches tag (flds ! ?p)")
    case True
    then show ?thesis using p by (subst iter_find_loop.simps) (auto simp: matches_def)
  next
    case False
    have nx: "snd (pb_field_iter_next (iter_at flds dest ?p)) = iter_at flds dest ((i + Suc s) mod ?n)"
      using iter_next_cyclic [OF assms(1) p] by (simp add: mod_Suc_eq)
    have nm: "\<forall>r < Suc s. \<not> matches tag (flds ! ((i + r) mod ?n))" using Suc.prems(2) False by (auto simp: less_Suc_eq)
    have lp: "iter_find_loop tag i (iter_at flds dest ?p)
      = (if (i + Suc s) mod ?n \<noteq> i then iter_find_loop tag i (iter_at flds dest ((i + Suc s) mod ?n))
         else Some (False, iter_at flds dest ((i + Suc s) mod ?n)))"
      using False by (subst iter_find_loop.simps) (auto simp: matches_def nx)
    show ?thesis
    proof (cases "Suc s < ?n")
      case True
      then have "(i + Suc s) mod ?n \<noteq> i" using assms(2) by (cases "i + Suc s < ?n") (auto simp: le_mod_geq)
      then show ?thesis using Suc.hyps(1) [of "Suc s"] Suc.hyps(2) True nm lp by simp
    next
      case False
      then have "Suc s = ?n" using Suc.prems(1) by simp
      then have "(i + Suc s) mod ?n = i" using assms(2) by simp
      then show ?thesis using lp nm \<open>Suc s = ?n\<close> by auto
    qed
  qed
qed simp

text \<open>C31. \<open>pb_field_iter_find\<close> returns from any position of the iterator: if the message has a field with the
  tag (extension placeholders aside) the iterator stands on such a field, with its addresses and
  required-field index, and otherwise it is back where it started.\<close>

theorem pb_field_iter_find_correct:
  assumes "msg_ok flds" "i < num_fields flds"
  shows "\<exists>found iter'. pb_field_iter_find tag (iter_at flds dest i) = Some (found, iter')
    \<and> (found \<longleftrightarrow> (\<exists>j < num_fields flds. matches tag (flds ! j)))
    \<and> (if found then \<exists>j < num_fields flds. iter' = iter_at flds dest j \<and> matches tag (flds ! j) else iter' = iter_at flds dest i)"
proof -
  obtain found iter' where r: "iter_find_loop tag i (iter_at flds dest i) = Some (found, iter')"
    "if found then \<exists>j < num_fields flds. iter' = iter_at flds dest j \<and> matches tag (flds ! j)
     else iter' = iter_at flds dest i \<and> (\<forall>r < num_fields flds. \<not> matches tag (flds ! ((i + r) mod num_fields flds)))"
    using find_loop_from [OF assms, of 0 tag dest] assms(2) by auto
  have "\<exists>r < num_fields flds. (i + r) mod num_fields flds = j" if "j < num_fields flds" for j
  proof (cases "i \<le> j")
    case True
    then show ?thesis using that by (intro exI [of _ "j - i"]) simp
  next
    case False
    then show ?thesis using that assms(2) by (intro exI [of _ "j + num_fields flds - i"]) simp
  qed
  then have cy: "\<exists>r < num_fields flds. (i + r) mod num_fields flds = j" if "j < num_fields flds" for j using that .
  have "found \<longleftrightarrow> (\<exists>j < num_fields flds. matches tag (flds ! j))"
  proof (cases found)
    case False
    then have "\<not> matches tag (flds ! j)" if "j < num_fields flds" for j using r(2) cy [OF that] by auto
    then show ?thesis using False by blast
  qed (use r(2) in auto)
  then show ?thesis using r by (intro exI [of _ found] exI [of _ iter']) (auto simp: pb_field_iter_find_def)
qed

definition demo_fields :: "pb_field list" where
  "demo_fields =
     [\<lparr>fld_tag = 1, fld_type = 0x00, fld_data_offset = 0, fld_size_offset = 0, fld_data_size = 4, fld_array_size = 0, fld_ptr = PtrNull\<rparr>,
      \<lparr>fld_tag = 3, fld_type = 0x24, fld_data_offset = 4, fld_size_offset = - 4, fld_data_size = 8, fld_array_size = 2, fld_ptr = PtrNull\<rparr>,
      \<lparr>fld_tag = 0, fld_type = 0, fld_data_offset = 0, fld_size_offset = 0, fld_data_size = 0, fld_array_size = 0, fld_ptr = PtrNull\<rparr>]"

lemma demo_fields_ok: "msg_ok demo_fields" "num_fields demo_fields = 2"
  by (auto simp: msg_ok_def num_fields_def demo_fields_def less_Suc_eq)

theorem pb_field_iter_find_correct_witness:
  "\<exists>found iter'. pb_field_iter_find 3 (iter_at demo_fields 100 0) = Some (found, iter') \<and> found
     \<and> (\<exists>j < 2. iter' = iter_at demo_fields 100 j \<and> matches 3 (demo_fields ! j))"
proof -
  have "matches 3 (demo_fields ! 1)" by (simp add: matches_def demo_fields_def pb_type_defs)
  then show ?thesis using pb_field_iter_find_correct [OF demo_fields_ok(1), of 0 3 100] demo_fields_ok(2)
    by (metis one_less_numeral_iff semiring_norm(76) zero_less_numeral)
qed

end
