(* ===== verification/Pb_Stream.thy ===== *)
theory Pb_Stream
  imports Byte_Prelude
begin

text \<open>
  The streams of nanopb and its wire primitives (\<open>pb_encode.c\<close>, \<open>pb_decode.c\<close>, \<open>pb_encode.h\<close>,
  \<open>pb_decode.h\<close>): output streams to a buffer, to a user callback or to nowhere (sizing), input streams
  from a buffer or a user callback, varints, zigzag varints, fixed-width integers, tags, strings,
  skipping and substreams.  A function that returns \<open>bool\<close> and changes its stream is a computation
  \<open>('stream, 'a) st\<close>; a failed one returns \<open>None\<close> with the stream as it was left.  The configuration is
  that of the pod: error messages on, buffer-only mode off, no malloc support.
\<close>

section \<open>Output streams\<close>

text \<open>A stream keeps its callback and the callback's state; no callback makes it a sizing stream.  A
  callback gets the state and the bytes, as its contract in \<open>pb_encode.h\<close> says.\<close>

record 's pb_ostream =
  os_callback :: "('s \<Rightarrow> u8 list \<Rightarrow> bool \<times> 's) option"
  os_state :: 's
  os_max_size :: nat
  os_bytes_written :: nat
  os_errmsg :: "string option"

text \<open>A sizing stream has no callback, and nothing in the library reads its state; the code sets the pointer to null.
  States are of an arbitrary type here, so the state of the enclosing stream is put in its place; only callbacks of the
  user for fields and extensions could see the difference.\<close>

definition PB_OSTREAM_SIZING :: "'s \<Rightarrow> 's pb_ostream" where
  "PB_OSTREAM_SIZING s = \<lparr>os_callback = None, os_state = s, os_max_size = 0, os_bytes_written = 0, os_errmsg = None\<rparr>"

definition os_error :: "string \<Rightarrow> ('s pb_ostream, 'a) st" where
  "os_error msg os =
     (None, os\<lparr>os_errmsg := (case os_errmsg os of None \<Rightarrow> Some msg | Some e \<Rightarrow> Some e)\<rparr>)"

text \<open>The state of a buffer stream: the memory of the buffer and the position of the next byte.\<close>

type_synonym obuf = "u8 list \<times> nat"

definition buf_write :: "obuf \<Rightarrow> u8 list \<Rightarrow> bool \<times> obuf" where
  "buf_write = (\<lambda>(mem, off) buf. (True, memcpy_at mem off buf, off + length buf))"

definition pb_ostream_from_buffer :: "u8 list \<Rightarrow> nat \<Rightarrow> obuf pb_ostream" where
  "pb_ostream_from_buffer buf bufsize =
     \<lparr>os_callback = Some buf_write, os_state = (buf, 0), os_max_size = bufsize, os_bytes_written = 0, os_errmsg = None\<rparr>"

definition pb_write :: "u8 list \<Rightarrow> nat \<Rightarrow> ('s pb_ostream, unit) st" where
  "pb_write buf count os =
     (case os_callback os of
        None \<Rightarrow> (Some (), os\<lparr>os_bytes_written := szw (os_bytes_written os + count)\<rparr>)
      | Some cb \<Rightarrow>
          if szw (os_bytes_written os + count) > os_max_size os then os_error ''stream full'' os
          else (case cb (os_state os) (take count buf) of
                  (False, s) \<Rightarrow> os_error ''io error'' (os\<lparr>os_state := s\<rparr>)
                | (True, s) \<Rightarrow>
                    (Some (), os\<lparr>os_state := s, os_bytes_written := szw (os_bytes_written os + count)\<rparr>)))"

section \<open>Input streams\<close>

text \<open>A source is the memory from the read pointer on, read by \<open>buf_read\<close>, or a user callback with its
  state.  A callback that succeeds delivers the number of bytes asked for.\<close>

datatype 's in_source =
  BufSource "u8 list"
| UserSource "'s \<Rightarrow> nat \<Rightarrow> u8 list option \<times> 's" 's

record 's pb_istream =
  is_source :: "'s in_source"
  is_bytes_left :: nat
  is_errmsg :: "string option"

definition is_error :: "string \<Rightarrow> ('s pb_istream, 'a) st" where
  "is_error msg s =
     (None, s\<lparr>is_errmsg := (case is_errmsg s of None \<Rightarrow> Some msg | Some e \<Rightarrow> Some e)\<rparr>)"

definition fill :: "nat \<Rightarrow> u8 list \<Rightarrow> u8 list" where
  "fill count bs = take count (bs @ replicate count 0)"

definition read_source :: "nat \<Rightarrow> 's in_source \<Rightarrow> u8 list option \<times> 's in_source" where
  "read_source count src =
     (case src of
        BufSource bs \<Rightarrow> (Some (fill count bs), BufSource (drop count bs))
      | UserSource cb s \<Rightarrow> (case cb s count of (r, s') \<Rightarrow> (map_option (fill count) r, UserSource cb s')))"

definition pb_istream_from_buffer :: "u8 list \<Rightarrow> nat \<Rightarrow> 's pb_istream" where
  "pb_istream_from_buffer buf bufsize = \<lparr>is_source = BufSource buf, is_bytes_left = bufsize, is_errmsg = None\<rparr>"

text \<open>\<open>pb_read\<close> with a destination.\<close>

definition pb_read_to :: "nat \<Rightarrow> ('s pb_istream, u8 list) st" where
  "pb_read_to count s =
     (if is_bytes_left s < count then is_error ''end-of-stream'' s
      else (case read_source count (is_source s) of
              (None, src) \<Rightarrow> is_error ''io error'' (s\<lparr>is_source := src\<rparr>)
            | (Some bs, src) \<Rightarrow> (Some bs, s\<lparr>is_source := src, is_bytes_left := is_bytes_left s - count\<rparr>)))"

text \<open>\<open>pb_read\<close> without one: a user stream is read in pieces of 16 bytes into a scratch buffer.\<close>

function pb_read_pieces :: "nat \<Rightarrow> ('s pb_istream, unit) st" where
  "pb_read_pieces count =
     (if count > 16 then st_bind (pb_read_to 16) (\<lambda>_. pb_read_pieces (count - 16))
      else st_bind (pb_read_to count) (\<lambda>_. st_return ()))"
  by auto
termination by (relation "measure id") auto

definition pb_read_null :: "nat \<Rightarrow> ('s pb_istream, unit) st" where
  "pb_read_null count s =
     (case is_source s of
        UserSource _ _ \<Rightarrow> pb_read_pieces count s
      | BufSource _ \<Rightarrow> st_bind (pb_read_to count) (\<lambda>_. st_return ()) s)"

definition pb_readbyte :: "('s pb_istream, u8) st" where
  "pb_readbyte s =
     (if is_bytes_left s = 0 then is_error ''end-of-stream'' s
      else (case read_source 1 (is_source s) of
              (None, src) \<Rightarrow> is_error ''io error'' (s\<lparr>is_source := src\<rparr>)
            | (Some bs, src) \<Rightarrow> (Some (hd bs), s\<lparr>is_source := src, is_bytes_left := is_bytes_left s - 1\<rparr>)))"

section \<open>Encoding primitives\<close>

function varint_bytes :: "u64 \<Rightarrow> u8 list" where
  "varint_bytes val = (if val = 0 then [] else (ucast (val AND 0x7F) OR 0x80) # varint_bytes (drop_bit 7 val))"
  by auto
termination
proof (relation "measure unat")
  fix val :: u64
  assume "val \<noteq> 0"
  then have "0 < unat val" by (simp add: unat_gt_0)
  moreover have "unat (drop_bit 7 val) = unat val div 2 ^ 7" by (subst unat_drop_bit_eq) (rule drop_bit_eq_div)
  ultimately show "(drop_bit 7 val, val) \<in> measure unat" by simp
qed simp

declare varint_bytes.simps [simp del]

definition pb_encode_varint :: "u64 \<Rightarrow> ('s pb_ostream, unit) st" where
  "pb_encode_varint val =
     (if val \<le> 0x7F then pb_write [ucast val] 1
      else let buffer = varint_bytes val; i = length buffer in
           pb_write (buffer[i - 1 := buffer ! (i - 1) AND 0x7F]) i)"

text \<open>\<open>int64_t\<close> values are the words that represent them.\<close>

definition pb_encode_svarint :: "u64 \<Rightarrow> ('s pb_ostream, unit) st" where
  "pb_encode_svarint val =
     pb_encode_varint (if sint val < 0 then NOT (push_bit 1 val) else push_bit 1 val)"

definition pb_encode_fixed32 :: "u32 \<Rightarrow> ('s pb_ostream, unit) st" where
  "pb_encode_fixed32 val =
     pb_write [ucast (val AND 0xFF), ucast (drop_bit 8 val AND 0xFF), ucast (drop_bit 16 val AND 0xFF),
               ucast (drop_bit 24 val AND 0xFF)] 4"

definition pb_encode_fixed64 :: "u64 \<Rightarrow> ('s pb_ostream, unit) st" where
  "pb_encode_fixed64 val =
     pb_write [ucast (val AND 0xFF), ucast (drop_bit 8 val AND 0xFF), ucast (drop_bit 16 val AND 0xFF),
               ucast (drop_bit 24 val AND 0xFF), ucast (drop_bit 32 val AND 0xFF), ucast (drop_bit 40 val AND 0xFF),
               ucast (drop_bit 48 val AND 0xFF), ucast (drop_bit 56 val AND 0xFF)] 8"

datatype pb_wire_type = PB_WT_VARINT | PB_WT_64BIT | PB_WT_STRING | PB_WT_32BIT | PB_WT_OTHER nat

text \<open>The enumeration as its integer values; a tag read from the wire may hold any three bits.\<close>

fun wt_num :: "pb_wire_type \<Rightarrow> nat" where
  "wt_num PB_WT_VARINT = 0"
| "wt_num PB_WT_64BIT = 1"
| "wt_num PB_WT_STRING = 2"
| "wt_num PB_WT_32BIT = 5"
| "wt_num (PB_WT_OTHER n) = n"

definition wt_of_num :: "nat \<Rightarrow> pb_wire_type" where
  "wt_of_num n = (if n = 0 then PB_WT_VARINT else if n = 1 then PB_WT_64BIT else if n = 2 then PB_WT_STRING
     else if n = 5 then PB_WT_32BIT else PB_WT_OTHER n)"

definition pb_encode_tag :: "pb_wire_type \<Rightarrow> u32 \<Rightarrow> ('s pb_ostream, unit) st" where
  "pb_encode_tag wiretype field_number =
     pb_encode_varint (push_bit 3 (ucast field_number) OR word_of_nat (wt_num wiretype))"

definition pb_encode_string :: "u8 list \<Rightarrow> nat \<Rightarrow> ('s pb_ostream, unit) st" where
  "pb_encode_string buffer sz =
     st_bind (pb_encode_varint (word_of_nat sz)) (\<lambda>_. pb_write buffer sz)"

section \<open>Decoding primitives\<close>

function varint32_loop :: "nat \<Rightarrow> u32 \<Rightarrow> ('s pb_istream, u32) st" where
  "varint32_loop bitpos result =
     (if bitpos \<ge> 32 then is_error ''varint overflow''
      else st_bind pb_readbyte (\<lambda>byte.
             let result = result OR push_bit bitpos (ucast (byte AND 0x7F)) in
             if byte AND 0x80 \<noteq> 0 then varint32_loop (bitpos + 7) result else st_return result))"
  by auto
termination by (relation "measure (\<lambda>(bitpos, _). 32 - bitpos)") auto

declare varint32_loop.simps [simp del]

definition pb_decode_varint32 :: "('s pb_istream, u32) st" where
  "pb_decode_varint32 =
     st_bind pb_readbyte (\<lambda>byte.
       if byte AND 0x80 = 0 then st_return (ucast byte)
       else varint32_loop 7 (ucast (byte AND 0x7F)))"

function varint_loop :: "nat \<Rightarrow> u64 \<Rightarrow> ('s pb_istream, u64) st" where
  "varint_loop bitpos result =
     (if bitpos \<ge> 64 then is_error ''varint overflow''
      else st_bind pb_readbyte (\<lambda>byte.
             let result = result OR push_bit bitpos (ucast (byte AND 0x7F)) in
             if byte AND 0x80 \<noteq> 0 then varint_loop (bitpos + 7) result else st_return result))"
  by auto
termination by (relation "measure (\<lambda>(bitpos, _). 64 - bitpos)") auto

declare varint_loop.simps [simp del]

definition pb_decode_varint :: "('s pb_istream, u64) st" where
  "pb_decode_varint = varint_loop 0 0"

lemma pb_read_to_left: "pb_read_to n s = (Some bs, t) \<Longrightarrow> is_bytes_left t = is_bytes_left s - n \<and> n \<le> is_bytes_left s"
  by (auto simp: pb_read_to_def is_error_def split: if_splits prod.splits option.splits)

function pb_skip_varint :: "('s pb_istream, unit) st" where
  "pb_skip_varint s =
     st_bind (pb_read_to 1) (\<lambda>bs t. if hd bs AND 0x80 \<noteq> 0 then pb_skip_varint t else (Some (), t)) s"
  by auto
termination
  by (relation "measure is_bytes_left") (auto dest!: pb_read_to_left)

declare pb_skip_varint.simps [simp del]

definition pb_skip_string :: "('s pb_istream, unit) st" where
  "pb_skip_string = st_bind pb_decode_varint32 (\<lambda>len. pb_read_null (unat len))"

text \<open>\<open>pb_decode_tag\<close> returns its result, the wire type and the tag, and the flag \<open>eof\<close>, all of which it
  sets on every path.\<close>

definition pb_decode_tag :: "'s pb_istream \<Rightarrow> (bool \<times> pb_wire_type \<times> u32 \<times> bool) \<times> 's pb_istream" where
  "pb_decode_tag s =
     (case pb_decode_varint32 s of
        (None, t) \<Rightarrow> ((False, wt_of_num 0, 0, is_bytes_left t = 0), t)
      | (Some temp, t) \<Rightarrow>
          if temp = 0 then ((False, wt_of_num 0, 0, True), t)
          else ((True, wt_of_num (unat (temp AND 7)), drop_bit 3 temp, False), t))"

definition pb_skip_field :: "pb_wire_type \<Rightarrow> ('s pb_istream, unit) st" where
  "pb_skip_field wire_type =
     (case wire_type of
        PB_WT_VARINT \<Rightarrow> pb_skip_varint
      | PB_WT_64BIT \<Rightarrow> pb_read_null 8
      | PB_WT_STRING \<Rightarrow> pb_skip_string
      | PB_WT_32BIT \<Rightarrow> pb_read_null 4
      | PB_WT_OTHER _ \<Rightarrow> is_error ''invalid wire_type'')"

text \<open>The varint case of \<open>read_raw_value\<close>: the room left in the buffer and the bytes stored so far.\<close>

fun raw_varint :: "nat \<Rightarrow> u8 list \<Rightarrow> ('s pb_istream, u8 list) st" where
  "raw_varint 0 acc = st_fail"
| "raw_varint (Suc room) acc =
     st_bind (pb_read_to 1) (\<lambda>bs.
       if hd bs AND 0x80 \<noteq> 0 then raw_varint room (acc @ [hd bs]) else st_return (acc @ [hd bs]))"

definition read_raw_value :: "pb_wire_type \<Rightarrow> nat \<Rightarrow> ('s pb_istream, u8 list) st" where
  "read_raw_value wire_type max_size =
     (case wire_type of
        PB_WT_VARINT \<Rightarrow> raw_varint max_size []
      | PB_WT_64BIT \<Rightarrow> pb_read_to 8
      | PB_WT_32BIT \<Rightarrow> pb_read_to 4
      | _ \<Rightarrow> is_error ''invalid wire_type'')"

text \<open>A substream shares the source of its parent, which is charged for its bytes at once; closing it
  skips what is left of it and hands the source back.\<close>

definition pb_make_string_substream :: "('s pb_istream, 's pb_istream) st" where
  "pb_make_string_substream =
     st_bind pb_decode_varint32 (\<lambda>sz s.
       if is_bytes_left s < unat sz then is_error ''parent stream too short'' s
       else (Some (s\<lparr>is_bytes_left := unat sz\<rparr>), s\<lparr>is_bytes_left := is_bytes_left s - unat sz\<rparr>))"

definition pb_close_string_substream :: "'s pb_istream \<Rightarrow> ('s pb_istream, unit) st" where
  "pb_close_string_substream sub s =
     (case (if is_bytes_left sub \<noteq> 0 then pb_read_null (is_bytes_left sub) sub else (Some (), sub)) of
        (None, _) \<Rightarrow> (None, s)
      | (Some _, sub') \<Rightarrow> (Some (), s\<lparr>is_source := is_source sub', is_errmsg := is_errmsg sub'\<rparr>))"

definition pb_decode_svarint :: "('s pb_istream, u64) st" where
  "pb_decode_svarint =
     st_bind pb_decode_varint (\<lambda>val.
       st_return (if val AND 1 \<noteq> 0 then NOT (drop_bit 1 val) else drop_bit 1 val))"

definition pb_decode_fixed32 :: "('s pb_istream, u32) st" where
  "pb_decode_fixed32 =
     st_bind (pb_read_to 4) (\<lambda>bytes.
       st_return (push_bit 0 (ucast (bytes ! 0)) OR push_bit 8 (ucast (bytes ! 1))
         OR push_bit 16 (ucast (bytes ! 2)) OR push_bit 24 (ucast (bytes ! 3))))"

definition pb_decode_fixed64 :: "('s pb_istream, u64) st" where
  "pb_decode_fixed64 =
     st_bind (pb_read_to 8) (\<lambda>bytes.
       st_return (push_bit 0 (ucast (bytes ! 0)) OR push_bit 8 (ucast (bytes ! 1))
         OR push_bit 16 (ucast (bytes ! 2)) OR push_bit 24 (ucast (bytes ! 3)) OR push_bit 32 (ucast (bytes ! 4))
         OR push_bit 40 (ucast (bytes ! 5)) OR push_bit 48 (ucast (bytes ! 6)) OR push_bit 56 (ucast (bytes ! 7))))"

end
