(* ===== verification/Pb_Wire.thy ===== *)
theory Pb_Wire
  imports Pb_Stream
begin

text \<open>
  The wire format of protocol buffers as encoders on numbers, and the proof that the primitives of
  \<open>Pb_Stream\<close> write and read it: the encoders hand \<open>pb_write\<close> the reference encoding, and the decoders, run
  on a buffer that holds an encoding followed by anything, return the value and leave the rest.  The
  decoders are instances of the codec interface of the prelude.
\<close>

section \<open>Base-128 varints\<close>

text \<open>Seven bits per byte, least significant group first, all bytes but the last with the continuation
  bit.\<close>

function leb128 :: "nat \<Rightarrow> u8 list" where
  "leb128 n = (if n < 128 then [word_of_nat n] else word_of_nat (128 + n mod 128) # leb128 (n div 128))"
  by auto
termination by (relation "measure id") auto

declare leb128.simps [simp del]

lemma leb128_neq_Nil [simp]: "leb128 n \<noteq> []"
  by (subst leb128.simps) simp

lemma leb128_length: "n < 128 ^ k \<Longrightarrow> 0 < k \<Longrightarrow> length (leb128 n) \<le> k"
proof (induction n arbitrary: k rule: leb128.induct)
  case (1 n)
  show ?case
  proof (cases "n < 128")
    case True
    then show ?thesis using 1(3) by (subst leb128.simps) simp
  next
    case False
    then obtain j where k: "k = Suc j" "0 < j" using 1(2,3) by (cases k; cases "k - 1") auto
    then have "n div 128 < 128 ^ j" using 1(2) by (simp add: less_mult_imp_div_less mult.commute)
    then show ?thesis using 1(1) [OF False, of j] False k by (subst leb128.simps) simp
  qed
qed

lemma unat_and_7f_u64: "unat (v AND 0x7F :: u64) = unat v mod 128"
proof -
  have "v AND 0x7F = take_bit 7 v" by (simp add: take_bit_eq_mask mask_eq_exp_minus_1 flip: take_bit_eq_mod)
  then show ?thesis using unat_take_bit [of 7 v] by simp
qed

lemma varint_byte: "(ucast (v AND 0x7F :: u64) OR 0x80 :: u8) = word_of_nat (128 + unat v mod 128)"
proof -
  let ?y = "ucast (v AND 0x7F) :: u8"
  have y: "unat ?y = unat v mod 128"
    using mod_less_divisor [of 128 "unat v"]
    by (simp add: unsigned_ucast_eq unat_and_7f_u64 take_bit_nat_eq_self del: mod_less_divisor)
  have m: "unat v mod 128 < 128" by simp
  have "unat (push_bit 7 1 OR ?y) = 128 + unat v mod 128"
    using unat_shift_or [of "1 :: u8" 7 ?y] y m by simp
  moreover have "push_bit 7 1 OR ?y = ?y OR 0x80" by (simp add: or.commute)
  moreover have "unat (word_of_nat (128 + unat v mod 128) :: u8) = 128 + unat v mod 128"
    unfolding unat_word_of_nat_u8 using m by simp
  ultimately show ?thesis by (simp add: word_unat_eq_iff)
qed

lemma unat_drop7: "unat (drop_bit 7 (v :: u64)) = unat v div 128"
proof -
  have "unat (drop_bit 7 v) = unat v div 2 ^ 7" by (subst unat_drop_bit_eq) (rule drop_bit_eq_div)
  then show ?thesis by simp
qed

text \<open>The loop of \<open>pb_encode_varint\<close> with its last byte fixed is the reference encoding.\<close>

lemma varint_bytes_leb128:
  "v \<noteq> 0 \<Longrightarrow> varint_bytes v \<noteq> [] \<and>
    (varint_bytes v)[length (varint_bytes v) - 1 := varint_bytes v ! (length (varint_bytes v) - 1) AND 0x7F] = leb128 (unat v)"
proof (induction v rule: varint_bytes.induct)
  case (1 v)
  let ?d = "drop_bit 7 v"
  have vb: "varint_bytes v = word_of_nat (128 + unat v mod 128) # varint_bytes ?d"
    using 1(2) by (subst varint_bytes.simps) (simp add: varint_byte)
  have "(varint_bytes v)[length (varint_bytes v) - 1 := varint_bytes v ! (length (varint_bytes v) - 1) AND 0x7F] = leb128 (unat v)"
  proof (cases "?d = 0")
    case True
    then have lt: "unat v < 128" using unat_drop7 [of v] by (simp add: div_eq_0_iff)
    then have "unat ((word_of_nat (128 + unat v) :: u8) AND 0x7F) = unat v"
      unfolding and_7f unat_word_of_nat_u8 by (simp add: mod_mod_cancel)
    then have "(word_of_nat (128 + unat v) :: u8) AND 0x7F = word_of_nat (unat v)"
      unfolding word_unat_eq_iff unat_word_of_nat_u8 using lt by simp
    moreover have "varint_bytes ?d = []" unfolding True by (subst varint_bytes.simps) simp
    ultimately show ?thesis using lt unfolding vb by (subst leb128.simps) simp
  next
    case False
    note ih = 1(1) [OF 1(2) False]
    have "\<not> unat v < 128" using False unat_drop7 [of v] by (auto simp: word_unat_eq_iff)
    then have "leb128 (unat v) = word_of_nat (128 + unat v mod 128) # leb128 (unat ?d)"
      by (subst leb128.simps) (simp add: unat_drop7)
    then show ?thesis using ih unfolding vb by (cases "varint_bytes ?d") auto
  qed
  then show ?case using vb by simp
qed

lemma pb_encode_varint_eq: "pb_encode_varint v = pb_write (leb128 (unat v)) (length (leb128 (unat v)))"
proof (cases "v \<le> 0x7F")
  case True
  then have lt: "unat v < 128" by (simp add: word_le_nat_alt)
  have "(ucast v :: u8) = word_of_nat (unat v)" by (simp add: of_nat_unat)
  then show ?thesis using True lt by (subst (1 2) leb128.simps) (simp add: pb_encode_varint_def)
next
  case False
  then have "v \<noteq> 0" by auto
  note vb = varint_bytes_leb128 [OF this, THEN conjunct1] varint_bytes_leb128 [OF this, THEN conjunct2]
  from vb(2) have "length (varint_bytes v) = length (leb128 (unat v))" by (metis length_list_update)
  then show ?thesis using False vb(2) by (simp add: pb_encode_varint_def Let_def)
qed

text \<open>The buffer of ten bytes in \<open>pb_encode_varint\<close> is large enough.\<close>

lemma varint_fits: "length (leb128 (unat (v :: u64))) \<le> 10"
proof -
  have "unat v < 2 ^ 64" using unsigned_less [of v, where 'a = nat] by simp
  then have "unat v < 128 ^ 10" by simp
  then show ?thesis by (rule leb128_length) simp
qed

section \<open>Reading a buffer\<close>

text \<open>An input stream over the memory \<open>bs\<close>, of which \<open>k\<close> bytes may be read.\<close>

definition buf_stream :: "u8 list \<Rightarrow> nat \<Rightarrow> string option \<Rightarrow> 's pb_istream" where
  "buf_stream bs k e = \<lparr>is_source = BufSource bs, is_bytes_left = k, is_errmsg = e\<rparr>"

lemma from_buffer_stream: "pb_istream_from_buffer bs k = buf_stream bs k None"
  by (simp add: pb_istream_from_buffer_def buf_stream_def)

lemma buf_stream_left [simp]: "is_bytes_left (buf_stream bs k e) = k"
  by (simp add: buf_stream_def)

lemma buf_stream_source [simp]: "is_source (buf_stream bs k e) = BufSource bs"
  by (simp add: buf_stream_def)

lemma readbyte_buf [wire_simps]: "pb_readbyte (buf_stream (b # bs) (Suc k) e) = (Some b, buf_stream bs k e)"
  by (simp add: pb_readbyte_def buf_stream_def read_source_def fill_def)

lemma readbyte_end [wire_simps]:
  "pb_readbyte (buf_stream bs 0 e) = is_error ''end-of-stream'' (buf_stream bs 0 e)"
  by (simp add: pb_readbyte_def buf_stream_def)

lemma read_to_buf [wire_simps]:
  "length xs = n \<Longrightarrow> pb_read_to n (buf_stream (xs @ bs) (n + k) e) = (Some xs, buf_stream bs k e)"
  by (auto simp: pb_read_to_def buf_stream_def read_source_def fill_def)

lemma read_null_buf [wire_simps]:
  "length xs = n \<Longrightarrow> pb_read_null n (buf_stream (xs @ bs) (n + k) e) = (Some (), buf_stream bs k e)"
  by (simp add: pb_read_null_def st_bind_def read_to_buf)

section \<open>Decoding varints\<close>

lemma or_digit:
  fixes acc w :: "'a::len word"
  assumes "unat acc < 2 ^ bp" "unat acc + unat w * 2 ^ bp < 2 ^ LENGTH('a)"
  shows "unat (acc OR push_bit bp w) = unat acc + unat w * 2 ^ bp"
  using unat_shift_or [of w bp acc] assms by (simp add: or.commute add.commute)

lemma digit_parts:
  assumes "m < 128"
  shows "unat (ucast ((word_of_nat (128 + m) :: u8) AND 0x7F) :: u64) = m" "unat (ucast ((word_of_nat (128 + m) :: u8) AND 0x7F) :: u32) = m"
    "unat (ucast ((word_of_nat m :: u8) AND 0x7F) :: u64) = m" "unat (ucast ((word_of_nat m :: u8) AND 0x7F) :: u32) = m"
    "(word_of_nat (128 + m) :: u8) AND 0x80 \<noteq> 0" "(word_of_nat m :: u8) AND 0x80 = 0"
proof -
  have "(128 + m) mod 256 mod 128 = m" "m mod 256 mod 128 = m" using assms by (simp_all add: mod_mod_cancel)
  then show "unat (ucast ((word_of_nat (128 + m) :: u8) AND 0x7F) :: u64) = m" "unat (ucast ((word_of_nat (128 + m) :: u8) AND 0x7F) :: u32) = m"
    "unat (ucast ((word_of_nat m :: u8) AND 0x7F) :: u64) = m" "unat (ucast ((word_of_nat m :: u8) AND 0x7F) :: u32) = m"
    unfolding unat_ucast_u8_u64 unat_ucast_u8_u32 and_7f unat_word_of_nat_u8 by simp_all
  show "(word_of_nat (128 + m) :: u8) AND 0x80 \<noteq> 0" unfolding cont_iff cont_def unat_word_of_nat_u8 using assms by simp
  have "\<not> cont (word_of_nat m)" unfolding cont_def unat_word_of_nat_u8 using assms by simp
  then show "(word_of_nat m :: u8) AND 0x80 = 0" using cont_iff by blast
qed

lemma varint_bound_step:
  fixes n acc :: nat
  assumes "128 \<le> n" "acc + n * 2 ^ bp < 2 ^ k" "acc < 2 ^ bp"
  shows "acc + n mod 128 * 2 ^ bp < 2 ^ (bp + 7)" "acc + n mod 128 * 2 ^ bp + n div 128 * 2 ^ (bp + 7) = acc + n * 2 ^ bp"
    "acc + n mod 128 * 2 ^ bp < 2 ^ k" "bp < k"
proof -
  have "n mod 128 \<le> 127" using mod_less_divisor [of 128 n] by linarith
  then have "n mod 128 * 2 ^ bp \<le> 127 * 2 ^ bp" by (rule mult_right_mono) simp
  moreover have "(2 :: nat) ^ (bp + 7) = 128 * 2 ^ bp" by (simp add: power_add)
  ultimately show "acc + n mod 128 * 2 ^ bp < 2 ^ (bp + 7)" using assms(3) by linarith
  have "n mod 128 * 2 ^ bp + n div 128 * 2 ^ (bp + 7) = (n mod 128 + 128 * (n div 128)) * 2 ^ bp"
    unfolding power_add distrib_right by simp
  also have "n mod 128 + 128 * (n div 128) = n" by simp
  finally show e: "acc + n mod 128 * 2 ^ bp + n div 128 * 2 ^ (bp + 7) = acc + n * 2 ^ bp" by simp
  show "acc + n mod 128 * 2 ^ bp < 2 ^ k" using assms(2) e by linarith
  have "1 * 2 ^ bp \<le> n * (2 :: nat) ^ bp" using assms(1) by (intro mult_right_mono) auto
  then have "(2 :: nat) ^ bp < 2 ^ k" using assms(2) by linarith
  then show "bp < k" by simp
qed

lemma varint_bound_next:
  fixes n acc :: nat
  assumes "128 \<le> n" "acc + m + n div 128 * 2 ^ (bp + 7) = acc + n * 2 ^ bp" "acc + n * 2 ^ bp < 2 ^ k"
  shows "bp + 7 < k"
proof -
  have "0 < n div 128" using assms(1) by (simp add: div_greater_zero_iff)
  then have "1 * 2 ^ (bp + 7) \<le> n div 128 * (2 :: nat) ^ (bp + 7)" by (intro mult_right_mono) auto
  then have "(2 :: nat) ^ (bp + 7) < 2 ^ k" using assms(2,3) by linarith
  then show ?thesis by (rule power_less_imp_less_exp [rotated]) simp
qed

lemma varint_loop_leb128:
  assumes "unat acc + n * 2 ^ bp < 2 ^ 64" "unat acc < 2 ^ bp" "bp < 64"
  shows "varint_loop bp acc (buf_stream (leb128 n @ bs) (length (leb128 n) + k) e :: 's pb_istream)
    = (Some (word_of_nat (unat acc + n * 2 ^ bp)), buf_stream bs k e)"
  using assms
proof (induction n arbitrary: bp acc rule: leb128.induct)
  case (1 n)
  let ?m = "n mod 128"
  show ?case
  proof (cases "n < 128")
    case True
    note dp = digit_parts [OF True]
    have u: "unat (acc OR push_bit bp (ucast ((word_of_nat n :: u8) AND 0x7F))) = unat acc + n * 2 ^ bp"
      using or_digit [of acc bp "ucast ((word_of_nat n :: u8) AND 0x7F)"] dp(3) "1.prems" by simp
    then have "acc OR push_bit bp (ucast ((word_of_nat n :: u8) AND 0x7F)) = word_of_nat (unat acc + n * 2 ^ bp)"
      using "1.prems"(1) by (metis of_nat_unat ucast_id)
    then show ?thesis
      using True dp(6) "1.prems"(3)
      by (subst varint_loop.simps, subst (1 2) leb128.simps) (simp add: wire_simps del: of_nat_add of_nat_mult)
  next
    case False
    then have ge: "128 \<le> n" by simp
    have m: "?m < 128" by simp
    note dp = digit_parts [OF m]
    note bs = varint_bound_step [OF ge "1.prems"(1,2)]
    let ?a = "acc OR push_bit bp (ucast ((word_of_nat (128 + ?m) :: u8) AND 0x7F))"
    have u: "unat ?a = unat acc + ?m * 2 ^ bp"
      using or_digit [of acc bp "ucast ((word_of_nat (128 + ?m) :: u8) AND 0x7F)"] dp(1) "1.prems"(2) bs(3)
      by (simp del: of_nat_add)
    have bp7: "bp + 7 < 64" using varint_bound_next [OF ge bs(2) "1.prems"(1)] .
    have p: "unat ?a + n div 128 * 2 ^ (bp + 7) < 2 ^ 64" "unat ?a < 2 ^ (bp + 7)" using u bs(1,2) "1.prems"(1) by linarith+
    from "1.IH" [OF False p bp7] u bs(2)
    have "varint_loop (bp + 7) ?a (buf_stream (leb128 (n div 128) @ bs) (length (leb128 (n div 128)) + k) e :: 's pb_istream)
        = (Some (word_of_nat (unat acc + n * 2 ^ bp)), buf_stream bs k e)" by (simp del: of_nat_add of_nat_mult)
    then show ?thesis
      using False dp(5) "1.prems"(3)
      by (subst varint_loop.simps, subst (1 2) leb128.simps) (simp add: wire_simps Let_def del: of_nat_add of_nat_mult)
  qed
qed

lemma decode_varint_leb128 [wire_simps]:
  "pb_decode_varint (buf_stream (leb128 (unat v) @ bs) (length (leb128 (unat v)) + k) e) = (Some v, buf_stream bs k e)"
  using varint_loop_leb128 [of 0 "unat v" 0 bs k e] unsigned_less [of v, where 'a = nat]
  by (simp add: pb_decode_varint_def)

lemma varint32_loop_leb128:
  assumes "unat acc + n * 2 ^ bp < 2 ^ 32" "unat acc < 2 ^ bp" "bp < 32"
  shows "varint32_loop bp acc (buf_stream (leb128 n @ bs) (length (leb128 n) + k) e :: 's pb_istream)
    = (Some (word_of_nat (unat acc + n * 2 ^ bp)), buf_stream bs k e)"
  using assms
proof (induction n arbitrary: bp acc rule: leb128.induct)
  case (1 n)
  let ?m = "n mod 128"
  show ?case
  proof (cases "n < 128")
    case True
    note dp = digit_parts [OF True]
    have u: "unat (acc OR push_bit bp (ucast ((word_of_nat n :: u8) AND 0x7F))) = unat acc + n * 2 ^ bp"
      using or_digit [of acc bp "ucast ((word_of_nat n :: u8) AND 0x7F)"] dp(4) "1.prems" by simp
    then have "acc OR push_bit bp (ucast ((word_of_nat n :: u8) AND 0x7F)) = word_of_nat (unat acc + n * 2 ^ bp)"
      using "1.prems"(1) by (metis of_nat_unat ucast_id)
    then show ?thesis
      using True dp(6) "1.prems"(3)
      by (subst varint32_loop.simps, subst (1 2) leb128.simps) (simp add: wire_simps del: of_nat_add of_nat_mult)
  next
    case False
    then have ge: "128 \<le> n" by simp
    have m: "?m < 128" by simp
    note dp = digit_parts [OF m]
    note bs = varint_bound_step [OF ge "1.prems"(1,2)]
    let ?a = "acc OR push_bit bp (ucast ((word_of_nat (128 + ?m) :: u8) AND 0x7F))"
    have u: "unat ?a = unat acc + ?m * 2 ^ bp"
      using or_digit [of acc bp "ucast ((word_of_nat (128 + ?m) :: u8) AND 0x7F)"] dp(2) "1.prems"(2) bs(3)
      by (simp del: of_nat_add)
    have bp7: "bp + 7 < 32" using varint_bound_next [OF ge bs(2) "1.prems"(1)] .
    have p: "unat ?a + n div 128 * 2 ^ (bp + 7) < 2 ^ 32" "unat ?a < 2 ^ (bp + 7)" using u bs(1,2) "1.prems"(1) by linarith+
    from "1.IH" [OF False p bp7] u bs(2)
    have "varint32_loop (bp + 7) ?a (buf_stream (leb128 (n div 128) @ bs) (length (leb128 (n div 128)) + k) e :: 's pb_istream)
        = (Some (word_of_nat (unat acc + n * 2 ^ bp)), buf_stream bs k e)" by (simp del: of_nat_add of_nat_mult)
    then show ?thesis
      using False dp(5) "1.prems"(3)
      by (subst varint32_loop.simps, subst (1 2) leb128.simps) (simp add: wire_simps Let_def del: of_nat_add of_nat_mult)
  qed
qed

lemma decode_varint32_leb128 [wire_simps]:
  assumes "n < 2 ^ 32"
  shows "pb_decode_varint32 (buf_stream (leb128 n @ bs) (length (leb128 n) + k) e :: 's pb_istream)
    = (Some (word_of_nat n), buf_stream bs k e)"
proof (cases "n < 128")
  case True
  have "(ucast (word_of_nat n :: u8) :: u32) = word_of_nat n"
    unfolding word_unat_eq_iff unat_ucast_u8_u32 unat_word_of_nat_u8 using True by (simp add: unat_of_nat)
  then show ?thesis using True digit_parts(6) [OF True]
    by (subst (1 2) leb128.simps) (simp add: pb_decode_varint32_def wire_simps)
next
  case False
  let ?a = "ucast ((word_of_nat (128 + n mod 128) :: u8) AND 0x7F) :: u32"
  have m: "n mod 128 < 128" by simp
  note dp = digit_parts [OF m]
  have u: "unat ?a = n mod 128" by (rule dp(2))
  have e: "n mod 128 + n div 128 * 2 ^ 7 = n" by simp
  have "n div 128 < 2 ^ 25" using assms by (simp add: less_mult_imp_div_less)
  then have "varint32_loop 7 ?a (buf_stream (leb128 (n div 128) @ bs) (length (leb128 (n div 128)) + k) e :: 's pb_istream)
      = (Some (word_of_nat n), buf_stream bs k e)"
    using varint32_loop_leb128 [of ?a "n div 128" 7 bs k e, where 's = 's] assms m unfolding u e by simp
  then show ?thesis
    using False dp(5) by (subst (1 2) leb128.simps) (simp add: pb_decode_varint32_def wire_simps del: of_nat_add)
qed

section \<open>The other primitives\<close>

definition zigzag :: "u64 \<Rightarrow> u64" where
  "zigzag v = (if sint v < 0 then NOT (push_bit 1 v) else push_bit 1 v)"

text \<open>Zigzag maps the integers 0, -1, 1, -2, \<open>\<dots>\<close> to 0, 1, 2, 3, \<open>\<dots>\<close>; decoding inverts it.\<close>

lemma zigzag_inverse:
  "(if zigzag v AND 1 \<noteq> 0 then NOT (drop_bit 1 (zigzag v)) else drop_bit 1 (zigzag v)) = v"
proof -
  define p where "p = push_bit 1 v"
  have p: "\<not> bit p 0" "bit p (Suc n) \<longleftrightarrow> n < 63 \<and> bit v n" for n
    unfolding p_def bit_push_bit_iff by auto
  have z: "zigzag v = (if bit v 63 then NOT p else p)" using bit_last_iff [of v] by (simp add: zigzag_def p_def)
  have o: "zigzag v AND 1 \<noteq> 0 \<longleftrightarrow> bit v 63"
  proof -
    have "zigzag v AND 1 \<noteq> 0 \<longleftrightarrow> bit (zigzag v) 0" by (simp add: and_one_eq odd_iff_mod_2_eq_one bit_0)
    also have "\<dots> \<longleftrightarrow> bit v 63" using p(1) by (auto simp: z bit_not_iff)
    finally show ?thesis .
  qed
  show ?thesis
  proof (rule bit_word_eqI)
    fix n assume "n < LENGTH(64)"
    then have "n = 63 \<or> n < 63" by auto
    then show "bit (if zigzag v AND 1 \<noteq> 0 then NOT (drop_bit 1 (zigzag v)) else drop_bit 1 (zigzag v)) n = bit v n"
      unfolding o unfolding z using p(2) [of n] bit_imp_le_length [of p 64] by (auto simp: bit_simps)
  qed
qed

lemma zigzag_value: "uint (zigzag v) = (if sint v < 0 then - 2 * sint v - 1 else 2 * sint v)"
proof -
  let ?k = "if sint v < 0 then - 2 * sint v - 1 else 2 * sint v"
  have v: "v = word_of_int (sint v)" by simp
  have b: "- (2 ^ 63) \<le> sint v" "sint v < 2 ^ 63" using sint_greater_eq [of v] sint_less [of v] by simp_all
  have "push_bit 1 v = 2 * v" by simp
  then have "zigzag v = (if sint v < 0 then - (2 * v) - 1 else 2 * v)" by (simp add: zigzag_def not_eq_complement)
  also have "\<dots> = word_of_int ?k"
    by (cases "sint v < 0") simp_all
  finally have "uint (zigzag v) = ?k mod 2 ^ 64" by (simp add: uint_word_of_int)
  moreover have "0 \<le> ?k" "?k < 2 ^ 64" using b by auto
  ultimately show ?thesis by (simp add: mod_pos_pos_trivial)
qed

lemma decode_svarint_zigzag [wire_simps]:
  "pb_decode_svarint (buf_stream (leb128 (unat (zigzag v)) @ bs) (length (leb128 (unat (zigzag v))) + k) e :: 's pb_istream)
    = (Some v, buf_stream bs k e)"
  using zigzag_inverse [of v] by (simp add: pb_decode_svarint_def wire_simps)

lemma pb_encode_svarint_eq: "pb_encode_svarint v = pb_write (leb128 (unat (zigzag v))) (length (leb128 (unat (zigzag v))))"
  by (simp add: pb_encode_svarint_def pb_encode_varint_eq flip: zigzag_def)

text \<open>Little-endian fixed-width integers.\<close>

definition fixed32_bytes :: "u32 \<Rightarrow> u8 list" where
  "fixed32_bytes v = map (\<lambda>i. ucast (drop_bit (8 * i) v)) [0, 1, 2, 3]"

definition fixed64_bytes :: "u64 \<Rightarrow> u8 list" where
  "fixed64_bytes v = map (\<lambda>i. ucast (drop_bit (8 * i) v)) [0, 1, 2, 3, 4, 5, 6, 7]"

lemma ucast_low_byte: "(ucast (w AND 0xFF :: 'a::len word) :: u8) = ucast w"
proof -
  have "w AND 0xFF = take_bit 8 w" by (simp add: take_bit_eq_mask mask_eq_exp_minus_1 flip: take_bit_eq_mod)
  then show ?thesis by (intro bit_word_eqI) (auto simp: bit_simps)
qed

lemma bit_chunk:
  "bit (push_bit k (ucast (ucast (drop_bit k v) :: u8)) :: 'a::len word) n \<longleftrightarrow> n < LENGTH('a) \<and> k \<le> n \<and> n < k + 8 \<and> bit v n"
  by (auto simp: bit_simps less_diff_conv2 dest: bit_imp_le_length)

lemma pb_encode_fixed_eq:
  "pb_encode_fixed32 v = pb_write (fixed32_bytes v) 4" "pb_encode_fixed64 w = pb_write (fixed64_bytes w) 8"
  by (simp_all add: pb_encode_fixed32_def pb_encode_fixed64_def fixed32_bytes_def fixed64_bytes_def
      ucast_low_byte)

lemma decode_fixed32_bytes [wire_simps]:
  "pb_decode_fixed32 (buf_stream (fixed32_bytes v @ bs) (4 + k) e :: 's pb_istream) = (Some v, buf_stream bs k e)"
proof -
  have "push_bit 0 (ucast (ucast (drop_bit 0 v) :: u8)) OR push_bit 8 (ucast (ucast (drop_bit 8 v) :: u8))
      OR push_bit 16 (ucast (ucast (drop_bit 16 v) :: u8)) OR push_bit 24 (ucast (ucast (drop_bit 24 v) :: u8)) = v"
  proof (rule bit_word_eqI)
    fix n assume "n < LENGTH(32)"
    then have "n < 8 \<or> 8 \<le> n \<and> n < 16 \<or> 16 \<le> n \<and> n < 24 \<or> 24 \<le> n \<and> n < 32" by simp linarith
    then show "bit (push_bit 0 (ucast (ucast (drop_bit 0 v) :: u8)) OR push_bit 8 (ucast (ucast (drop_bit 8 v) :: u8))
      OR push_bit 16 (ucast (ucast (drop_bit 16 v) :: u8)) OR push_bit 24 (ucast (ucast (drop_bit 24 v) :: u8)) :: u32) n = bit v n"
      unfolding bit_or_iff bit_chunk by auto
  qed
  then show ?thesis
    using read_to_buf [of "fixed32_bytes v" 4 bs k e, where 'a = 's]
    by (simp add: pb_decode_fixed32_def fixed32_bytes_def st_bind_def)
qed

lemma decode_fixed64_bytes [wire_simps]:
  "pb_decode_fixed64 (buf_stream (fixed64_bytes v @ bs) (8 + k) e :: 's pb_istream) = (Some v, buf_stream bs k e)"
proof -
  have "push_bit 0 (ucast (ucast (drop_bit 0 v) :: u8)) OR push_bit 8 (ucast (ucast (drop_bit 8 v) :: u8))
      OR push_bit 16 (ucast (ucast (drop_bit 16 v) :: u8)) OR push_bit 24 (ucast (ucast (drop_bit 24 v) :: u8))
      OR push_bit 32 (ucast (ucast (drop_bit 32 v) :: u8)) OR push_bit 40 (ucast (ucast (drop_bit 40 v) :: u8))
      OR push_bit 48 (ucast (ucast (drop_bit 48 v) :: u8)) OR push_bit 56 (ucast (ucast (drop_bit 56 v) :: u8)) = v"
  proof (rule bit_word_eqI)
    fix n assume n: "n < LENGTH(64)"
    then consider "n < 8" | "8 \<le> n" "n < 16" | "16 \<le> n" "n < 24" | "24 \<le> n" "n < 32" | "32 \<le> n" "n < 40"
      | "40 \<le> n" "n < 48" | "48 \<le> n" "n < 56" | "56 \<le> n" "n < 64" by simp linarith
    then show "bit (push_bit 0 (ucast (ucast (drop_bit 0 v) :: u8)) OR push_bit 8 (ucast (ucast (drop_bit 8 v) :: u8))
      OR push_bit 16 (ucast (ucast (drop_bit 16 v) :: u8)) OR push_bit 24 (ucast (ucast (drop_bit 24 v) :: u8))
      OR push_bit 32 (ucast (ucast (drop_bit 32 v) :: u8)) OR push_bit 40 (ucast (ucast (drop_bit 40 v) :: u8))
      OR push_bit 48 (ucast (ucast (drop_bit 48 v) :: u8)) OR push_bit 56 (ucast (ucast (drop_bit 56 v) :: u8)) :: u64) n = bit v n"
      unfolding bit_or_iff bit_chunk by cases (use n in auto)
  qed
  then show ?thesis
    using read_to_buf [of "fixed64_bytes v" 8 bs k e, where 'a = 's]
    by (simp add: pb_decode_fixed64_def fixed64_bytes_def st_bind_def)
qed

section \<open>Tags and strings\<close>

definition tag_num :: "pb_wire_type \<Rightarrow> u32 \<Rightarrow> nat" where
  "tag_num wt fn = unat fn * 8 + wt_num wt"

definition wt_ok :: "pb_wire_type \<Rightarrow> bool" where
  "wt_ok wt \<longleftrightarrow> wt_num wt < 8 \<and> wt_of_num (wt_num wt) = wt"

lemma wt_ok_simps [simp]: "wt_ok PB_WT_VARINT" "wt_ok PB_WT_64BIT" "wt_ok PB_WT_STRING" "wt_ok PB_WT_32BIT"
  by (simp_all add: wt_ok_def wt_of_num_def)

lemma pb_encode_tag_eq:
  assumes "wt_num wt < 8"
  shows "pb_encode_tag wt fn = pb_write (leb128 (tag_num wt fn)) (length (leb128 (tag_num wt fn)))"
proof -
  have f: "unat (ucast fn :: u64) = unat fn" using unsigned_less [of fn, where 'a = nat]
    by (simp add: unsigned_ucast_eq take_bit_nat_eq_self)
  have w: "unat (word_of_nat (wt_num wt) :: u64) = wt_num wt" using assms by (simp add: unat_of_nat)
  have "unat fn < 2 ^ 32" using unsigned_less [of fn, where 'a = nat] by simp
  then have "unat (push_bit 3 (ucast fn) OR word_of_nat (wt_num wt) :: u64) = tag_num wt fn"
    using unat_shift_or [of "ucast fn :: u64" 3 "word_of_nat (wt_num wt)"] f w assms by (simp add: tag_num_def)
  then show ?thesis by (simp add: pb_encode_tag_def pb_encode_varint_eq)
qed

lemma decode_tag_leb128 [wire_simps]:
  assumes "wt_ok wt" "0 < unat fn" "unat fn < 2 ^ 29"
  shows "pb_decode_tag (buf_stream (leb128 (tag_num wt fn) @ bs) (length (leb128 (tag_num wt fn)) + k) e :: 's pb_istream)
    = ((True, wt, fn, False), buf_stream bs k e)"
proof -
  let ?t = "word_of_nat (tag_num wt fn) :: u32"
  have w: "wt_num wt < 8" "wt_of_num (wt_num wt) = wt" using assms(1) by (simp_all add: wt_ok_def)
  have lt: "tag_num wt fn < 2 ^ 32" using assms(3) w(1) by (simp add: tag_num_def)
  have u: "unat ?t = tag_num wt fn" using lt by (simp add: unat_of_nat)
  have "?t \<noteq> 0" using u assms(2) by (auto simp: tag_num_def word_unat_eq_iff)
  moreover have "drop_bit 3 ?t = fn"
  proof -
    have "unat (drop_bit 3 ?t) = unat ?t div 2 ^ 3" by (subst unat_drop_bit_eq) (rule drop_bit_eq_div)
    then show ?thesis using u w(1) by (simp add: tag_num_def word_unat_eq_iff)
  qed
  moreover have "unat (?t AND 7) = wt_num wt"
  proof -
    have "?t AND 7 = take_bit 3 ?t" by (simp add: take_bit_eq_mask mask_eq_exp_minus_1 flip: take_bit_eq_mod)
    then show ?thesis using unat_take_bit [of 3 ?t] u w(1) by (simp add: tag_num_def)
  qed
  ultimately show ?thesis using lt w(2) by (simp add: pb_decode_tag_def wire_simps)
qed

text \<open>A length-delimited field: the length, then the bytes.\<close>

definition delimited :: "u8 list \<Rightarrow> u8 list" where
  "delimited bs = leb128 (length bs) @ bs"

lemma substream_delimited [wire_simps]:
  assumes "length xs < 2 ^ 32"
  shows "pb_make_string_substream (buf_stream (delimited xs @ bs) (length (delimited xs) + k) e :: 's pb_istream)
    = (Some (buf_stream (xs @ bs) (length xs) e), buf_stream (xs @ bs) k e)"
proof -
  have u: "unat (word_of_nat (length xs) :: u32) = length xs" using assms by (simp add: unat_of_nat)
  have "pb_decode_varint32 (buf_stream (leb128 (length xs) @ xs @ bs) (length (leb128 (length xs)) + (length xs + k)) e :: 's pb_istream)
      = (Some (word_of_nat (length xs)), buf_stream (xs @ bs) (length xs + k) e)"
    using decode_varint32_leb128 [OF assms] .
  then show ?thesis
    using u by (simp add: pb_make_string_substream_def delimited_def add.assoc) (simp add: buf_stream_def)
qed

lemma close_substream [wire_simps]:
  assumes "k \<le> length xs"
  shows "pb_close_string_substream (buf_stream xs k e') (buf_stream ys m e :: 's pb_istream)
    = (Some (), buf_stream (drop k xs) m e')"
proof -
  have "pb_read_null k (buf_stream (take k xs @ drop k xs) (k + 0) e' :: 's pb_istream) = (Some (), buf_stream (drop k xs) 0 e')"
    using assms by (intro read_null_buf) simp
  then show ?thesis by (auto simp: pb_close_string_substream_def) (simp_all add: buf_stream_def)
qed

lemma skip_string_delimited [wire_simps]:
  assumes "length xs < 2 ^ 32"
  shows "pb_skip_string (buf_stream (delimited xs @ bs) (length (delimited xs) + k) e :: 's pb_istream) = (Some (), buf_stream bs k e)"
proof -
  have u: "unat (word_of_nat (length xs) :: u32) = length xs" using assms by (simp add: unat_of_nat)
  have "pb_decode_varint32 (buf_stream (leb128 (length xs) @ xs @ bs) (length (leb128 (length xs)) + (length xs + k)) e :: 's pb_istream)
      = (Some (word_of_nat (length xs)), buf_stream (xs @ bs) (length xs + k) e)"
    using decode_varint32_leb128 [OF assms] .
  then show ?thesis
    using u read_null_buf [OF refl, of xs bs k e, where 'a = 's]
    by (simp add: pb_skip_string_def delimited_def add.assoc)
qed

lemma skip_varint_leb128 [wire_simps]:
  "pb_skip_varint (buf_stream (leb128 n @ bs) (length (leb128 n) + k) e :: 's pb_istream) = (Some (), buf_stream bs k e)"
proof (induction n rule: leb128.induct)
  case (1 n)
  have r: "pb_read_to (Suc 0) (buf_stream (b # cs) (Suc j) e :: 's pb_istream) = (Some [b], buf_stream cs j e)" for b cs j
    using read_to_buf [of "[b]" 1 cs j e] by simp
  show ?case
  proof (cases "n < 128")
    case True
    then show ?thesis using digit_parts(6) [OF True]
      by (subst pb_skip_varint.simps, subst (1 2) leb128.simps) (simp add: st_bind_def r)
  next
    case False
    have m: "n mod 128 < 128" by simp
    show ?thesis using 1 [OF False] False digit_parts(5) [OF m]
      by (subst pb_skip_varint.simps, subst (1 2) leb128.simps) (simp add: st_bind_def r del: of_nat_add)
  qed
qed

section \<open>Codecs\<close>

text \<open>A decoder run on a whole buffer, with the bytes it left.\<close>

definition in_buf :: "(unit pb_istream, 'a) st \<Rightarrow> (u8 list, 'a) st" where
  "in_buf dec bs = (case dec (pb_istream_from_buffer bs (length bs)) of
     (r, t) \<Rightarrow> (r, case is_source t of BufSource cs \<Rightarrow> take (is_bytes_left t) cs | UserSource _ _ \<Rightarrow> []))"

lemma in_bufI:
  assumes "dec (buf_stream (xs @ rest) (length xs + length rest) None) = (Some v, buf_stream rest (length rest) None)"
  shows "in_buf dec (xs @ rest) = (Some v, rest)"
  using assms by (simp add: in_buf_def from_buffer_stream)

interpretation varint_codec: byte_codec "\<lambda>v. leb128 (unat v)" "in_buf pb_decode_varint" "\<lambda>_. True"
  by unfold_locales (rule in_bufI, simp add: wire_simps)

interpretation varint32_codec: byte_codec "\<lambda>v. leb128 (unat v)" "in_buf pb_decode_varint32" "\<lambda>_. True"
proof (unfold_locales, rule in_bufI)
  fix v :: u32 and rest
  have "unat v < 2 ^ 32" using unsigned_less [of v, where 'a = nat] by simp
  then show "pb_decode_varint32 (buf_stream (leb128 (unat v) @ rest) (length (leb128 (unat v)) + length rest) None)
      = (Some v, buf_stream rest (length rest) None)" by (simp add: wire_simps)
qed

interpretation svarint_codec: byte_codec "\<lambda>v. leb128 (unat (zigzag v))" "in_buf pb_decode_svarint" "\<lambda>_. True"
  by unfold_locales (rule in_bufI, simp add: wire_simps)

interpretation fixed32_codec: byte_codec fixed32_bytes "in_buf pb_decode_fixed32" "\<lambda>_. True"
proof (unfold_locales, rule in_bufI)
  fix v and rest
  have "length (fixed32_bytes v) = 4" by (simp add: fixed32_bytes_def)
  then show "pb_decode_fixed32 (buf_stream (fixed32_bytes v @ rest) (length (fixed32_bytes v) + length rest) None)
      = (Some v, buf_stream rest (length rest) None)" using decode_fixed32_bytes by simp
qed

interpretation fixed64_codec: byte_codec fixed64_bytes "in_buf pb_decode_fixed64" "\<lambda>_. True"
proof (unfold_locales, rule in_bufI)
  fix v and rest
  have "length (fixed64_bytes v) = 8" by (simp add: fixed64_bytes_def)
  then show "pb_decode_fixed64 (buf_stream (fixed64_bytes v @ rest) (length (fixed64_bytes v) + length rest) None)
      = (Some v, buf_stream rest (length rest) None)" using decode_fixed64_bytes by simp
qed

end
