(* ===== verification/Pb_Output.thy ===== *)
theory Pb_Output
  imports Pb_Wire
begin

text \<open>
  What an encoder does to its stream.  An encoder \<open>emits\<close> a byte string if a sizing stream is charged its
  length, a buffer stream with room for it gets exactly these bytes at its position, and a buffer
  stream without room makes it fail, with nothing written outside the room the stream had.  Sequences
  of emitting encoders emit the concatenation, so the facts about whole messages follow from those about
  \<open>pb_write\<close>.
\<close>

section \<open>Buffer streams\<close>

text \<open>A buffer stream at position \<open>off\<close> of the memory \<open>mem\<close>, whose room \<open>max_size - bytes_written\<close> lies
  inside the memory, before any error.\<close>

definition on_buf :: "obuf pb_ostream \<Rightarrow> u8 list \<Rightarrow> nat \<Rightarrow> bool" where
  "on_buf os mem off \<longleftrightarrow> os_callback os = Some buf_write \<and> os_state os = (mem, off)
     \<and> os_bytes_written os \<le> os_max_size os \<and> off + (os_max_size os - os_bytes_written os) \<le> length mem
     \<and> os_max_size os < 2 ^ 63 \<and> os_errmsg os = None"

definition advance :: "obuf pb_ostream \<Rightarrow> u8 list \<Rightarrow> obuf pb_ostream" where
  "advance os xs = (case os_state os of (mem, off) \<Rightarrow>
     os\<lparr>os_state := (memcpy_at mem off xs, off + length xs), os_bytes_written := os_bytes_written os + length xs\<rparr>)"

lemma advance_simps [simp]:
  "os_callback (advance os xs) = os_callback os" "os_max_size (advance os xs) = os_max_size os"
  "os_errmsg (advance os xs) = os_errmsg os" "os_bytes_written (advance os xs) = os_bytes_written os + length xs"
  by (simp_all add: advance_def split: prod.splits)

lemma advance_state: "os_state os = (mem, off) \<Longrightarrow> os_state (advance os xs) = (memcpy_at mem off xs, off + length xs)"
  by (simp add: advance_def)

text \<open>A stream after a failed call: an error is recorded and only the room was written to.\<close>

definition overflowed :: "obuf pb_ostream \<Rightarrow> obuf pb_ostream \<Rightarrow> bool" where
  "overflowed os os' \<longleftrightarrow> os_errmsg os' \<noteq> None \<and> os_max_size os' = os_max_size os \<and> os_callback os' = os_callback os
     \<and> os_bytes_written os \<le> os_bytes_written os' \<and> os_bytes_written os' \<le> os_max_size os
     \<and> (case (os_state os, os_state os') of ((mem, off), (mem', off')) \<Rightarrow>
          off' = off + (os_bytes_written os' - os_bytes_written os) \<and> length mem' = length mem
          \<and> take off mem' = take off mem
          \<and> drop (off + (os_max_size os - os_bytes_written os)) mem' = drop (off + (os_max_size os - os_bytes_written os)) mem)"

definition emits :: "(obuf pb_ostream, unit) st \<Rightarrow> u8 list \<Rightarrow> bool" where
  "emits m xs \<longleftrightarrow> length xs < 2 ^ 63
     \<and> (\<forall>os. os_callback os = None \<longrightarrow> os_bytes_written os < 2 ^ 64 \<longrightarrow> m os = (Some (), os\<lparr>os_bytes_written := szw (os_bytes_written os + length xs)\<rparr>))
     \<and> (\<forall>os mem off. on_buf os mem off \<longrightarrow> os_bytes_written os + length xs \<le> os_max_size os \<longrightarrow> m os = (Some (), advance os xs))
     \<and> (\<forall>os mem off. on_buf os mem off \<longrightarrow> os_max_size os < os_bytes_written os + length xs
          \<longrightarrow> fst (m os) = None \<and> overflowed os (snd (m os)))"

lemma emits_sizing:
  "emits m xs \<Longrightarrow> os_callback os = None \<Longrightarrow> os_bytes_written os < 2 ^ 64 \<Longrightarrow> m os = (Some (), os\<lparr>os_bytes_written := szw (os_bytes_written os + length xs)\<rparr>)"
  by (simp add: emits_def)

lemma emits_fits: "emits m xs \<Longrightarrow> on_buf os mem off \<Longrightarrow> os_bytes_written os + length xs \<le> os_max_size os \<Longrightarrow> m os = (Some (), advance os xs)"
  unfolding emits_def by blast

lemma emits_overflow:
  "emits m xs \<Longrightarrow> on_buf os mem off \<Longrightarrow> os_max_size os < os_bytes_written os + length xs \<Longrightarrow> fst (m os) = None \<and> overflowed os (snd (m os))"
  unfolding emits_def by blast

lemma emitsI:
  assumes "length xs < 2 ^ 63"
    and "\<And>os. os_callback os = None \<Longrightarrow> os_bytes_written os < 2 ^ 64 \<Longrightarrow> m os = (Some (), os\<lparr>os_bytes_written := szw (os_bytes_written os + length xs)\<rparr>)"
    and "\<And>os mem off. on_buf os mem off \<Longrightarrow> os_bytes_written os + length xs \<le> os_max_size os \<Longrightarrow> m os = (Some (), advance os xs)"
    and "\<And>os mem off. on_buf os mem off \<Longrightarrow> os_max_size os < os_bytes_written os + length xs \<Longrightarrow> fst (m os) = None \<and> overflowed os (snd (m os))"
  shows "emits m xs"
  using assms unfolding emits_def by blast

lemma overflowed_error:
  assumes "on_buf os mem off"
  shows "overflowed os (snd (os_error msg os))"
  using assms by (auto simp: overflowed_def on_buf_def os_error_def split: option.splits)

lemma emits_write: "length xs < 2 ^ 63 \<Longrightarrow> emits (pb_write xs (length xs)) xs"
proof (rule emitsI)
  fix os :: "obuf pb_ostream" and mem off
  assume l: "length xs < 2 ^ 63" and b: "on_buf os mem off"
  then have s: "szw (os_bytes_written os + length xs) = os_bytes_written os + length xs" by (simp add: on_buf_def szw_def)
  { assume "os_bytes_written os + length xs \<le> os_max_size os"
    then show "pb_write xs (length xs) os = (Some (), advance os xs)"
      using b s by (simp add: pb_write_def on_buf_def advance_def buf_write_def) }
  { assume "os_max_size os < os_bytes_written os + length xs"
    then show "fst (pb_write xs (length xs) os) = None \<and> overflowed os (snd (pb_write xs (length xs) os))"
      using b s overflowed_error [OF b] by (simp add: pb_write_def on_buf_def) (simp add: os_error_def) }
qed (simp_all add: pb_write_def)

lemma memcpy_at_frame:
  assumes "off \<le> length mem" "off + length xs \<le> e"
  shows "drop e (memcpy_at mem off xs) = drop e mem" "take off (memcpy_at mem off xs) = take off mem"
proof -
  have "e = off + length xs + (e - (off + length xs))" using assms(2) by simp
  then obtain j where e: "e = off + length xs + j" by blast
  show "drop e (memcpy_at mem off xs) = drop e mem" using assms(1) by (simp add: memcpy_at_def e ac_simps)
  show "take off (memcpy_at mem off xs) = take off mem" using assms(1) by (simp add: memcpy_at_def)
qed

lemma memcpy_at_append:
  assumes "off + length xs + length ys \<le> length mem"
  shows "memcpy_at (memcpy_at mem off xs) (off + length xs) ys = memcpy_at mem off (xs @ ys)"
proof -
  have "take (off + length xs) (memcpy_at mem off xs) = take off mem @ xs" using assms by (intro take_memcpy_at) simp
  moreover have "drop (off + length xs + length ys) (memcpy_at mem off xs) = drop (off + length xs + length ys) mem"
    using assms by (simp add: memcpy_at_def ac_simps)
  ultimately show ?thesis by (simp add: memcpy_at_def [of "memcpy_at mem off xs"] memcpy_at_def [of mem off "xs @ ys"] add.assoc)
qed

lemma on_buf_advance:
  assumes "on_buf os mem off" "os_bytes_written os + length xs \<le> os_max_size os"
  shows "on_buf (advance os xs) (memcpy_at mem off xs) (off + length xs)"
proof -
  have "os_bytes_written os + length xs \<le> os_max_size os" "off + (os_max_size os - os_bytes_written os) \<le> length mem"
    "os_state os = (mem, off)" using assms unfolding on_buf_def by blast+
  then have "off + length xs \<le> length mem"
    "off + length xs + (os_max_size os - (os_bytes_written os + length xs)) \<le> length mem" by linarith+
  then show ?thesis using assms by (simp add: on_buf_def advance_def)
qed

lemma advance_append:
  assumes "on_buf os mem off" "os_bytes_written os + length (xs @ ys) \<le> os_max_size os"
  shows "advance (advance os xs) ys = advance os (xs @ ys)"
  using assms by (auto simp: on_buf_def advance_def memcpy_at_append add.assoc)

lemma overflowed_advance:
  assumes "on_buf os mem off" "os_bytes_written os + length xs \<le> os_max_size os" "overflowed (advance os xs) os'"
  shows "overflowed os os'"
proof -
  have b: "off + (os_max_size os - os_bytes_written os) \<le> length mem" "os_state os = (mem, off)"
    using assms(1) unfolding on_buf_def by blast+
  let ?m = "memcpy_at mem off xs" and ?e = "off + (os_max_size os - os_bytes_written os)"
  have e: "off + length xs + (os_max_size os - (os_bytes_written os + length xs)) = ?e" using assms(2) by simp
  have le: "off \<le> length mem" "off + length xs \<le> ?e" using b assms(2) by linarith+
  from memcpy_at_frame [OF le] have "drop ?e ?m = drop ?e mem" "take off ?m = take off mem" .
  note fr = this
  obtain mem' off' where s': "os_state os' = (mem', off')" by fastforce
  have o: "os_errmsg os' \<noteq> None" "os_max_size os' = os_max_size os" "os_callback os' = os_callback os"
    "os_bytes_written os + length xs \<le> os_bytes_written os'" "os_bytes_written os' \<le> os_max_size os"
    "off' = off + length xs + (os_bytes_written os' - (os_bytes_written os + length xs))" "length mem' = length ?m"
    "take (off + length xs) mem' = take (off + length xs) ?m" "drop ?e mem' = drop ?e ?m"
    using assms(3) unfolding overflowed_def advance_simps advance_state [OF b(2)] s' prod.case e by blast+
  have "take off mem' = take off mem" using arg_cong [OF o(8), of "take off"] fr(2) by (simp add: min_def)
  moreover have "length mem' = length mem" using o(7) le(2) b(1) by simp
  ultimately show ?thesis using o fr(1) unfolding overflowed_def b(2) s' prod.case by auto
qed

lemma emits_bind:
  assumes "emits m xs" "emits n ys" "length (xs @ ys) < 2 ^ 63"
  shows "emits (st_bind m (\<lambda>_. n)) (xs @ ys)"
proof (rule emitsI [OF assms(3)])
  fix os :: "obuf pb_ostream"
  assume "os_callback os = None" "os_bytes_written os < 2 ^ 64"
  then show "st_bind m (\<lambda>_. n) os = (Some (), os\<lparr>os_bytes_written := szw (os_bytes_written os + length (xs @ ys))\<rparr>)"
    using emits_sizing [OF assms(1)] emits_sizing [OF assms(2)] by (simp add: szw_def mod_simps add.assoc)
next
  fix os :: "obuf pb_ostream" and mem off
  assume b: "on_buf os mem off" and r: "os_bytes_written os + length (xs @ ys) \<le> os_max_size os"
  have 1: "m os = (Some (), advance os xs)" using emits_fits [OF assms(1) b] r by simp
  have "os_bytes_written (advance os xs) + length ys \<le> os_max_size (advance os xs)"
    using r b by (simp add: advance_def on_buf_def)
  then have "n (advance os xs) = (Some (), advance (advance os xs) ys)"
    using emits_fits [OF assms(2) on_buf_advance [OF b]] r by simp
  then show "st_bind m (\<lambda>_. n) os = (Some (), advance os (xs @ ys))" using 1 advance_append [OF b r] by simp
next
  fix os :: "obuf pb_ostream" and mem off
  assume b: "on_buf os mem off" and r: "os_max_size os < os_bytes_written os + length (xs @ ys)"
  show "fst (st_bind m (\<lambda>_. n) os) = None \<and> overflowed os (snd (st_bind m (\<lambda>_. n) os))"
  proof (cases "os_bytes_written os + length xs \<le> os_max_size os")
    case True
    have 1: "m os = (Some (), advance os xs)" using emits_fits [OF assms(1) b True] .
    have "os_max_size (advance os xs) < os_bytes_written (advance os xs) + length ys"
      using r b by (simp add: advance_def on_buf_def)
    from emits_overflow [OF assms(2) on_buf_advance [OF b True] this] 1
    show ?thesis using overflowed_advance [OF b True] by simp
  next
    case False
    then have "fst (m os) = None \<and> overflowed os (snd (m os))" using emits_overflow [OF assms(1) b] by simp
    then show ?thesis by (cases "m os") simp
  qed
qed

section \<open>The primitives\<close>

lemma leb128_short: "n < 2 ^ 64 \<Longrightarrow> length (leb128 n) \<le> 10"
  by (rule leb128_length) simp_all

lemma unat_u64_lt: "unat (v :: u64) < 2 ^ 64" "unat (w :: u32) < 2 ^ 32"
  using unsigned_less [of v, where 'a = nat] unsigned_less [of w, where 'a = nat] by simp_all

lemma tag_num_lt: "wt_num wt < 8 \<Longrightarrow> tag_num wt fn < 2 ^ 64"
  using unat_u64_lt(2) [of fn] by (simp add: tag_num_def)

lemma emits_leb128: "n < 2 ^ 64 \<Longrightarrow> emits (pb_write (leb128 n) (length (leb128 n))) (leb128 n)"
  using leb128_short [of n] by (intro emits_write) simp

lemma length_fixed_bytes [simp]: "length (fixed32_bytes v) = 4" "length (fixed64_bytes w) = 8"
  by (simp_all add: fixed32_bytes_def fixed64_bytes_def)

named_theorems emits_intros \<open>encoders and the bytes they emit\<close>

lemma emits_varint [emits_intros]: "emits (pb_encode_varint v) (leb128 (unat v))"
  unfolding pb_encode_varint_eq by (rule emits_leb128 [OF unat_u64_lt(1)])

lemma emits_svarint [emits_intros]: "emits (pb_encode_svarint v) (leb128 (unat (zigzag v)))"
  unfolding pb_encode_svarint_eq by (rule emits_leb128 [OF unat_u64_lt(1)])

lemma emits_fixed32 [emits_intros]: "emits (pb_encode_fixed32 v) (fixed32_bytes v)"
  using emits_write [of "fixed32_bytes v"] unfolding pb_encode_fixed_eq(1) by simp

lemma emits_fixed64 [emits_intros]: "emits (pb_encode_fixed64 v) (fixed64_bytes v)"
  using emits_write [of "fixed64_bytes v"] unfolding pb_encode_fixed_eq(2) by simp

lemma emits_tag [emits_intros]: "wt_num wt < 8 \<Longrightarrow> emits (pb_encode_tag wt fn) (leb128 (tag_num wt fn))"
  by (simp add: pb_encode_tag_eq emits_leb128 tag_num_lt del: power_numeral)

lemma emits_string [emits_intros]:
  assumes "length xs < 2 ^ 62"
  shows "emits (pb_encode_string xs (length xs)) (delimited xs)"
proof -
  have "unat (word_of_nat (length xs) :: u64) = length xs" using assms by (simp add: unat_of_nat)
  then have "emits (pb_encode_varint (word_of_nat (length xs))) (leb128 (length xs))"
    using emits_varint [of "word_of_nat (length xs)"] by simp
  moreover have "emits (pb_write xs (length xs)) xs" using assms by (intro emits_write) simp
  ultimately show ?thesis
    unfolding pb_encode_string_def delimited_def
    using assms leb128_short [of "length xs"] by (intro emits_bind) auto
qed

section \<open>Encoding into a buffer and decoding it\<close>

lemma on_fresh_buf: "length mem < 2 ^ 63 \<Longrightarrow> on_buf (pb_ostream_from_buffer mem (length mem)) mem 0"
  by (simp add: on_buf_def pb_ostream_from_buffer_def)

text \<open>What a successful encoder left in the buffer is exactly what it emits.\<close>

lemma emits_into_buffer:
  assumes "emits m xs" "length mem < 2 ^ 63" "m (pb_ostream_from_buffer mem (length mem)) = (Some (), os)"
  shows "length xs \<le> length mem" "os_bytes_written os = length xs" "os_state os = (xs @ drop (length xs) mem, length xs)"
proof -
  let ?o = "pb_ostream_from_buffer mem (length mem)"
  have b: "on_buf ?o mem 0" "os_bytes_written ?o = 0" "os_max_size ?o = length mem" "os_state ?o = (mem, 0)"
    using on_fresh_buf [OF assms(2)] by (simp_all add: pb_ostream_from_buffer_def)
  show l: "length xs \<le> length mem"
  proof (rule ccontr)
    assume "\<not> length xs \<le> length mem"
    then have "fst (m ?o) = None" using emits_overflow [OF assms(1) b(1)] b by simp
    then show False using assms(3) by simp
  qed
  have "os = advance ?o xs" using emits_fits [OF assms(1) b(1)] b l assms(3) by simp
  then show "os_bytes_written os = length xs" "os_state os = (xs @ drop (length xs) mem, length xs)"
    using b by (simp_all add: advance_def memcpy_at_0)
qed

lemma emits_overflows_buffer:
  assumes "emits m xs" "length mem < 2 ^ 63" "m (pb_ostream_from_buffer mem (length mem)) = (None, os)"
  shows "length mem < length xs" "os_errmsg os \<noteq> None" "length (fst (os_state os)) = length mem"
proof -
  let ?o = "pb_ostream_from_buffer mem (length mem)"
  have b: "on_buf ?o mem 0" "os_bytes_written ?o = 0" "os_max_size ?o = length mem" "os_state ?o = (mem, 0)"
    using on_fresh_buf [OF assms(2)] by (simp_all add: pb_ostream_from_buffer_def)
  show l: "length mem < length xs" using emits_fits [OF assms(1) b(1)] b assms(3) by (cases "length xs \<le> length mem") auto
  have "overflowed ?o os" using emits_overflow [OF assms(1) b(1)] b l assms(3) by simp
  then show "os_errmsg os \<noteq> None" "length (fst (os_state os)) = length mem"
    by (auto simp: overflowed_def b(4) split: prod.splits)
qed

text \<open>The scalars of a message, their encoders and decoders.\<close>

datatype pb_scalar = Varint u64 | Svarint u64 | Fixed32 u32 | Fixed64 u64

fun encode_scalar :: "pb_scalar \<Rightarrow> ('s pb_ostream, unit) st" where
  "encode_scalar (Varint v) = pb_encode_varint v"
| "encode_scalar (Svarint v) = pb_encode_svarint v"
| "encode_scalar (Fixed32 v) = pb_encode_fixed32 v"
| "encode_scalar (Fixed64 v) = pb_encode_fixed64 v"

text \<open>Decoding by the kind of a scalar; its value is ignored.\<close>

fun decode_scalar :: "pb_scalar \<Rightarrow> ('s pb_istream, pb_scalar) st" where
  "decode_scalar (Varint _) = st_bind pb_decode_varint (\<lambda>v. st_return (Varint v))"
| "decode_scalar (Svarint _) = st_bind pb_decode_svarint (\<lambda>v. st_return (Svarint v))"
| "decode_scalar (Fixed32 _) = st_bind pb_decode_fixed32 (\<lambda>v. st_return (Fixed32 v))"
| "decode_scalar (Fixed64 _) = st_bind pb_decode_fixed64 (\<lambda>v. st_return (Fixed64 v))"

fun encode_scalars :: "pb_scalar list \<Rightarrow> ('s pb_ostream, unit) st" where
  "encode_scalars [] = st_return ()"
| "encode_scalars (v # vs) = st_bind (encode_scalar v) (\<lambda>_. encode_scalars vs)"

fun decode_scalars :: "pb_scalar list \<Rightarrow> ('s pb_istream, pb_scalar list) st" where
  "decode_scalars [] = st_return []"
| "decode_scalars (k # ks) = st_bind (decode_scalar k) (\<lambda>v. st_bind (decode_scalars ks) (\<lambda>vs. st_return (v # vs)))"

fun scalar_bytes :: "pb_scalar \<Rightarrow> u8 list" where
  "scalar_bytes (Varint v) = leb128 (unat v)"
| "scalar_bytes (Svarint v) = leb128 (unat (zigzag v))"
| "scalar_bytes (Fixed32 v) = fixed32_bytes v"
| "scalar_bytes (Fixed64 v) = fixed64_bytes v"

definition scalar_kind :: "pb_scalar \<Rightarrow> pb_scalar" where
  "scalar_kind v = (case v of Varint _ \<Rightarrow> Varint 0 | Svarint _ \<Rightarrow> Svarint 0 | Fixed32 _ \<Rightarrow> Fixed32 0 | Fixed64 _ \<Rightarrow> Fixed64 0)"

lemma scalar_bytes_length: "length (scalar_bytes v) \<le> 10"
  by (cases v) (simp_all add: varint_fits)

lemma emits_scalar: "emits (encode_scalar v) (scalar_bytes v)"
  by (cases v) (simp_all add: emits_intros)

lemma decode_scalar_bytes:
  "decode_scalar (scalar_kind v) (buf_stream (scalar_bytes v @ bs) (length (scalar_bytes v) + k) e :: 's pb_istream) = (Some v, buf_stream bs k e)"
  by (cases v) (simp_all add: scalar_kind_def wire_simps)

lemma emits_return: "emits (st_return ()) []"
proof (rule emitsI)
  fix os :: "obuf pb_ostream" and mem off
  assume b: "on_buf os mem off"
  then have s: "os_state os = (mem, off)" "off \<le> length mem" unfolding on_buf_def by auto
  then have "os\<lparr>os_state := (mem, off), os_bytes_written := os_bytes_written os\<rparr> = os" by (cases os) simp
  then show "st_return () os = (Some (), advance os [])" using s by (simp add: advance_def memcpy_at_def)
qed (auto simp: on_buf_def szw_def)

lemma concat_scalars_length: "length (concat (map scalar_bytes vs)) \<le> 10 * length vs"
proof (induction vs)
  case (Cons v vs)
  then show ?case using scalar_bytes_length [of v] by simp
qed simp

lemma emits_scalars: "10 * length vs < 2 ^ 63 \<Longrightarrow> emits (encode_scalars vs) (concat (map scalar_bytes vs))"
proof (induction vs)
  case (Cons v vs)
  then show ?case using concat_scalars_length [of "v # vs"] by (auto intro!: emits_bind emits_scalar)
qed (simp add: emits_return)

lemma decode_scalars_bytes:
  "decode_scalars (map scalar_kind vs) (buf_stream (concat (map scalar_bytes vs) @ bs) (length (concat (map scalar_bytes vs)) + k) e :: 's pb_istream)
    = (Some vs, buf_stream bs k e)"
proof (induction vs)
  case (Cons v vs)
  then show ?case by (simp add: decode_scalar_bytes add.assoc)
qed simp

text \<open>C30. Scalars round-trip through a memory buffer: if a sequence of varints, zigzag varints and fixed-width
  integers was encoded into a buffer, decoding what was written returns the same values and uses up
  exactly the bytes written, which are those of the encodings; if the encoder failed, the buffer was shorter than
  the encodings together, an error message is set and the memory outside the buffer was not touched.\<close>

theorem pb_scalars_roundtrip:
  assumes "length mem < 2 ^ 63" "10 * length vs < 2 ^ 63"
    and "encode_scalars vs (pb_ostream_from_buffer mem (length mem)) = (r, os)"
  shows "case r of
      Some _ \<Rightarrow> \<exists>t :: unit pb_istream. decode_scalars (map scalar_kind vs) (pb_istream_from_buffer (fst (os_state os)) (os_bytes_written os)) = (Some vs, t)
        \<and> is_bytes_left t = 0 \<and> os_bytes_written os = length (concat (map scalar_bytes vs)) \<and> os_bytes_written os \<le> length mem
    | None \<Rightarrow> length mem < length (concat (map scalar_bytes vs)) \<and> os_errmsg os \<noteq> None \<and> length (fst (os_state os)) = length mem"
proof -
  let ?xs = "concat (map scalar_bytes vs)"
  note em = emits_scalars [OF assms(2)]
  show ?thesis
  proof (cases r)
    case None
    then show ?thesis
      using emits_overflows_buffer [OF em assms(1)] assms(3) by fastforce
  next
    case (Some u)
    note w = emits_into_buffer [OF em assms(1), of os]
    show ?thesis
      using w assms(3) decode_scalars_bytes [of vs "drop (length ?xs) mem" 0 None, where 's = unit] Some
      by (simp add: from_buffer_stream)
  qed
qed

definition demo_buf :: "u8 list" where
  "demo_buf = replicate 32 0"

theorem pb_scalars_roundtrip_witness:
  "\<exists>os (t :: unit pb_istream). encode_scalars [Varint 300, Svarint (- 2), Fixed32 7] (pb_ostream_from_buffer demo_buf (length demo_buf)) = (Some (), os)
     \<and> decode_scalars (map scalar_kind [Varint 300, Svarint (- 2), Fixed32 7])
         (pb_istream_from_buffer (fst (os_state os)) (os_bytes_written os)) = (Some [Varint 300, Svarint (- 2), Fixed32 7], t)
     \<and> is_bytes_left t = 0"
proof -
  obtain r os where r: "encode_scalars [Varint 300, Svarint (- 2), Fixed32 7] (pb_ostream_from_buffer demo_buf (length demo_buf)) = (r, os)"
    by fastforce
  have l: "length demo_buf = 32" by (simp add: demo_buf_def)
  have "length demo_buf < 2 ^ 63" "10 * length [Varint 300, Svarint (- 2), Fixed32 7] < 2 ^ 63" by (simp_all add: l)
  note p = pb_scalars_roundtrip [OF this r]
  have "length (leb128 300) \<le> 10" "length (leb128 (unat (zigzag (- 2)))) \<le> 10"
    using scalar_bytes_length [of "Varint 300"] scalar_bytes_length [of "Svarint (- 2)"] by simp_all
  then show ?thesis using p r l by (cases r) auto
qed

section \<open>Skipping\<close>

text \<open>The payload of a field on the wire, by wire type.\<close>

fun payload :: "pb_wire_type \<Rightarrow> u8 list \<Rightarrow> bool" where
  "payload PB_WT_VARINT xs \<longleftrightarrow> (\<exists>n. xs = leb128 n)"
| "payload PB_WT_64BIT xs \<longleftrightarrow> length xs = 8"
| "payload PB_WT_STRING xs \<longleftrightarrow> (\<exists>ys. xs = delimited ys \<and> length ys < 2 ^ 32)"
| "payload PB_WT_32BIT xs \<longleftrightarrow> length xs = 4"
| "payload (PB_WT_OTHER _) xs \<longleftrightarrow> False"

text \<open>An unknown field is skipped exactly: after \<open>pb_decode_tag\<close> has read its tag, \<open>pb_skip_field\<close> consumes its
  payload and nothing of what follows.\<close>

theorem pb_skip_field_exact:
  assumes "payload wt xs" "0 < unat fn" "unat fn < 2 ^ 29"
  shows "\<exists>t. pb_decode_tag (buf_stream (leb128 (tag_num wt fn) @ xs @ bs) (length (leb128 (tag_num wt fn) @ xs) + k) e :: 's pb_istream)
      = ((True, wt, fn, False), t) \<and> pb_skip_field wt t = (Some (), buf_stream bs k e)"
proof -
  have "wt_ok wt" using assms(1) by (cases wt) simp_all
  then have "pb_decode_tag (buf_stream (leb128 (tag_num wt fn) @ xs @ bs) (length (leb128 (tag_num wt fn)) + (length xs + k)) e :: 's pb_istream)
      = ((True, wt, fn, False), buf_stream (xs @ bs) (length xs + k) e)"
    using assms(2,3) by (rule decode_tag_leb128)
  moreover have "pb_skip_field wt (buf_stream (xs @ bs) (length xs + k) e :: 's pb_istream) = (Some (), buf_stream bs k e)"
    using assms(1)
  proof (cases wt)
    case PB_WT_64BIT
    then show ?thesis using assms(1) read_null_buf [of xs 8 bs k e] by (simp add: pb_skip_field_def)
  next
    case PB_WT_32BIT
    then show ?thesis using assms(1) read_null_buf [of xs 4 bs k e] by (simp add: pb_skip_field_def)
  qed (auto simp: pb_skip_field_def wire_simps)
  ultimately show ?thesis by (simp add: add.assoc)
qed

theorem pb_skip_field_exact_witness:
  "\<exists>t. pb_decode_tag (buf_stream (leb128 (tag_num PB_WT_32BIT 5) @ [1, 2, 3, 4] @ [9]) (length (leb128 (tag_num PB_WT_32BIT 5) @ [1, 2, 3, 4 :: u8]) + 1) None :: unit pb_istream)
      = ((True, PB_WT_32BIT, 5, False), t) \<and> pb_skip_field PB_WT_32BIT t = (Some (), buf_stream [9] 1 None)"
  by (rule pb_skip_field_exact) simp_all

text \<open>A tag whose varint is cut off by the end of the stream is reported as a clean end of the message:
  \<open>pb_decode_tag\<close> tells the end of the stream from an error by the bytes left after the failed read.\<close>

lemma pb_decode_tag_truncated:
  "\<exists>t. pb_decode_tag (pb_istream_from_buffer [0x80] 1 :: unit pb_istream) = ((False, PB_WT_VARINT, 0, True), t)
     \<and> is_errmsg t = Some ''end-of-stream''"
  by (simp add: pb_decode_tag_def pb_decode_varint32_def pb_istream_from_buffer_def pb_readbyte_def
      read_source_def fill_def varint32_loop.simps st_bind_def is_error_def wt_of_num_def)

end
