(* ===== verification/Pb_Encode.thy ===== *)
theory Pb_Encode
  imports Pb_Common Pb_Output
begin

text \<open>
  The message encoder of \<open>pb_encode.c\<close>.  The message structure is memory: a function from addresses to bytes,
  read as little-endian integers and pointers.  What the descriptors point to outside the structure is
  the environment: the descriptor arrays of submessages, user callbacks by the address of the function,
  and extension types.  A computation returns \<open>None\<close> where the C program has no defined result (a call
  through the null entry of the encoder table, a read of the wrong local) or where the nesting of
  messages exceeds the fuel; fuel \<open>n\<close> is enough for messages nested at most \<open>n\<close> deep.
\<close>

section \<open>Computations without a defined result\<close>

type_synonym ('s, 'a) pst = "'s \<Rightarrow> ('a option \<times> 's) option"

definition p_lift :: "('s, 'a) st \<Rightarrow> ('s, 'a) pst" where
  "p_lift m s = Some (m s)"

definition p_undef :: "('s, 'a) pst" where
  "p_undef s = None"

definition p_bind :: "('s, 'a) pst \<Rightarrow> ('a \<Rightarrow> ('s, 'b) pst) \<Rightarrow> ('s, 'b) pst" where
  "p_bind m f s = (case m s of None \<Rightarrow> None | Some (None, t) \<Rightarrow> Some (None, t) | Some (Some x, t) \<Rightarrow> f x t)"

section \<open>Memory and environment\<close>

type_synonym memory = "int \<Rightarrow> u8"

definition rd :: "memory \<Rightarrow> int \<Rightarrow> nat \<Rightarrow> u8 list" where
  "rd mem a n = map (\<lambda>i. mem (a + int i)) [0..<n]"

definition rd_word :: "memory \<Rightarrow> int \<Rightarrow> nat \<Rightarrow> 'a::len word" where
  "rd_word mem a n = word_of_nat (le_val (rd mem a n))"

definition rd_size :: "memory \<Rightarrow> int \<Rightarrow> nat" where
  "rd_size mem a = le_val (rd mem a 4)"

definition rd_ptr :: "memory \<Rightarrow> int \<Rightarrow> int" where
  "rd_ptr mem a = int (le_val (rd mem a 8))"

record 's ext_type =
  ext_encode :: "(int \<Rightarrow> ('s pb_ostream, unit) st) option"
  ext_arg :: pb_field

record 's enc_env =
  env_mem :: memory
  env_msgs :: "nat \<Rightarrow> pb_field list"
  env_encode_cb :: "int \<Rightarrow> pb_field \<Rightarrow> int \<Rightarrow> ('s pb_ostream, unit) st"
  env_ext :: "int \<Rightarrow> 's ext_type"

section \<open>Field encoders\<close>

definition pb_enc_varint :: "memory \<Rightarrow> pb_field \<Rightarrow> int \<Rightarrow> ('s pb_ostream, unit) st" where
  "pb_enc_varint mem f src =
     (if fld_data_size f = 1 then pb_encode_varint (scast (rd_word mem src 1 :: u8))
      else if fld_data_size f = 2 then pb_encode_varint (scast (rd_word mem src 2 :: u16))
      else if fld_data_size f = 4 then pb_encode_varint (scast (rd_word mem src 4 :: u32))
      else if fld_data_size f = 8 then pb_encode_varint (rd_word mem src 8)
      else os_error ''invalid data_size'')"

definition pb_enc_uvarint :: "memory \<Rightarrow> pb_field \<Rightarrow> int \<Rightarrow> ('s pb_ostream, unit) st" where
  "pb_enc_uvarint mem f src =
     (if fld_data_size f = 1 then pb_encode_varint (ucast (rd_word mem src 1 :: u8))
      else if fld_data_size f = 2 then pb_encode_varint (ucast (rd_word mem src 2 :: u16))
      else if fld_data_size f = 4 then pb_encode_varint (ucast (rd_word mem src 4 :: u32))
      else if fld_data_size f = 8 then pb_encode_varint (rd_word mem src 8)
      else os_error ''invalid data_size'')"

definition pb_enc_svarint :: "memory \<Rightarrow> pb_field \<Rightarrow> int \<Rightarrow> ('s pb_ostream, unit) st" where
  "pb_enc_svarint mem f src =
     (if fld_data_size f = 1 then pb_encode_svarint (scast (rd_word mem src 1 :: u8))
      else if fld_data_size f = 2 then pb_encode_svarint (scast (rd_word mem src 2 :: u16))
      else if fld_data_size f = 4 then pb_encode_svarint (scast (rd_word mem src 4 :: u32))
      else if fld_data_size f = 8 then pb_encode_svarint (rd_word mem src 8)
      else os_error ''invalid data_size'')"

definition pb_enc_fixed32 :: "memory \<Rightarrow> int \<Rightarrow> ('s pb_ostream, unit) st" where
  "pb_enc_fixed32 mem src = pb_encode_fixed32 (rd_word mem src 4)"

definition pb_enc_fixed64 :: "memory \<Rightarrow> int \<Rightarrow> ('s pb_ostream, unit) st" where
  "pb_enc_fixed64 mem src = pb_encode_fixed64 (rd_word mem src 8)"

text \<open>\<open>pb_bytes_array_t\<close>: a 32-bit size and the bytes after it.\<close>

definition PB_BYTES_ARRAY_T_ALLOCSIZE :: "nat \<Rightarrow> nat" where
  "PB_BYTES_ARRAY_T_ALLOCSIZE n = szw (n + 4)"

definition pb_enc_bytes :: "memory \<Rightarrow> pb_field \<Rightarrow> int \<Rightarrow> ('s pb_ostream, unit) st" where
  "pb_enc_bytes mem f src =
     (if src = 0 then pb_encode_string [] 0
      else let sz = rd_size mem src in
        if PB_ATYPE (fld_type f) = PB_ATYPE_STATIC \<and> PB_BYTES_ARRAY_T_ALLOCSIZE sz > fld_data_size f
        then os_error ''bytes size exceeded''
        else pb_encode_string (rd mem (src + 4) sz) sz)"

function enc_strlen :: "memory \<Rightarrow> int \<Rightarrow> nat \<Rightarrow> nat \<Rightarrow> nat" where
  "enc_strlen mem p max_size sz =
     (if sz < max_size \<and> mem (p + int sz) \<noteq> 0 then enc_strlen mem p max_size (Suc sz) else sz)"
  by auto
termination by (relation "measure (\<lambda>(_, _, m, s). m - s)") auto

declare enc_strlen.simps [simp del]

definition pb_enc_string :: "memory \<Rightarrow> pb_field \<Rightarrow> int \<Rightarrow> ('s pb_ostream, unit) st" where
  "pb_enc_string mem f src =
     (let max_size = (if PB_ATYPE (fld_type f) = PB_ATYPE_POINTER then 2 ^ 64 - 1 else fld_data_size f);
          sz = (if src = 0 then 0 else enc_strlen mem src max_size 0) in
      pb_encode_string (rd mem src sz) sz)"

definition pb_enc_fixed_length_bytes :: "memory \<Rightarrow> pb_field \<Rightarrow> int \<Rightarrow> ('s pb_ostream, unit) st" where
  "pb_enc_fixed_length_bytes mem f src = pb_encode_string (rd mem src (fld_data_size f)) (fld_data_size f)"

definition pb_encode_tag_for_field :: "pb_field \<Rightarrow> ('s pb_ostream, unit) st" where
  "pb_encode_tag_for_field f =
     (let lt = PB_LTYPE (fld_type f) in
      if lt = PB_LTYPE_VARINT \<or> lt = PB_LTYPE_UVARINT \<or> lt = PB_LTYPE_SVARINT then pb_encode_tag PB_WT_VARINT (fld_tag f)
      else if lt = PB_LTYPE_FIXED32 then pb_encode_tag PB_WT_32BIT (fld_tag f)
      else if lt = PB_LTYPE_FIXED64 then pb_encode_tag PB_WT_64BIT (fld_tag f)
      else if lt = PB_LTYPE_BYTES \<or> lt = PB_LTYPE_STRING \<or> lt = PB_LTYPE_SUBMESSAGE \<or> lt = PB_LTYPE_FIXED_LENGTH_BYTES
        then pb_encode_tag PB_WT_STRING (fld_tag f)
      else os_error ''invalid field type'')"

section \<open>Submessages\<close>

text \<open>\<open>pb_encode_submessage\<close>, given \<open>pb_encode\<close>: the size is measured on a sizing stream first.\<close>

type_synonym 's msg_encoder = "pb_field list \<Rightarrow> int \<Rightarrow> ('s pb_ostream, unit) pst"

definition pb_encode_submessage :: "'s msg_encoder \<Rightarrow> pb_field list \<Rightarrow> int \<Rightarrow> ('s pb_ostream, unit) pst" where
  "pb_encode_submessage enc flds src stream =
     (case enc flds src (PB_OSTREAM_SIZING (os_state stream)) of
        None \<Rightarrow> None
      | Some (None, sub) \<Rightarrow> Some (None, stream\<lparr>os_errmsg := os_errmsg sub\<rparr>)
      | Some (Some _, sub) \<Rightarrow>
          let sz = os_bytes_written sub in
          p_bind (p_lift (pb_encode_varint (word_of_nat sz))) (\<lambda>_ stream.
            if os_callback stream = None then Some (pb_write [] sz stream)
            else if szw (os_bytes_written stream + sz) > os_max_size stream then Some (os_error ''stream full'' stream)
            else
              (case enc flds src \<lparr>os_callback = os_callback stream, os_state = os_state stream, os_max_size = sz,
                                   os_bytes_written = 0, os_errmsg = None\<rparr> of
                 None \<Rightarrow> None
               | Some (status, sub') \<Rightarrow>
                   let stream' = stream\<lparr>os_bytes_written := szw (os_bytes_written stream + os_bytes_written sub'),
                                        os_state := os_state sub', os_errmsg := os_errmsg sub'\<rparr> in
                   if os_bytes_written sub' \<noteq> sz then Some (os_error ''submsg size changed'' stream')
                   else Some (status, stream'))) stream)"

definition pb_enc_submessage :: "'s enc_env \<Rightarrow> 's msg_encoder \<Rightarrow> pb_field \<Rightarrow> int \<Rightarrow> ('s pb_ostream, unit) pst" where
  "pb_enc_submessage env enc f src =
     (case fld_ptr f of
        PtrNull \<Rightarrow> p_lift (os_error ''invalid field descriptor'')
      | PtrFields m \<Rightarrow> pb_encode_submessage enc (env_msgs env m) src
      | PtrDefault _ \<Rightarrow> p_undef)"

text \<open>The table \<open>PB_ENCODERS\<close>.\<close>

definition PB_ENCODERS :: "'s enc_env \<Rightarrow> 's msg_encoder \<Rightarrow> u8 \<Rightarrow> pb_field \<Rightarrow> int \<Rightarrow> ('s pb_ostream, unit) pst" where
  "PB_ENCODERS env enc lt f src =
     (if lt = PB_LTYPE_VARINT then p_lift (pb_enc_varint (env_mem env) f src)
      else if lt = PB_LTYPE_UVARINT then p_lift (pb_enc_uvarint (env_mem env) f src)
      else if lt = PB_LTYPE_SVARINT then p_lift (pb_enc_svarint (env_mem env) f src)
      else if lt = PB_LTYPE_FIXED32 then p_lift (pb_enc_fixed32 (env_mem env) src)
      else if lt = PB_LTYPE_FIXED64 then p_lift (pb_enc_fixed64 (env_mem env) src)
      else if lt = PB_LTYPE_BYTES then p_lift (pb_enc_bytes (env_mem env) f src)
      else if lt = PB_LTYPE_STRING then p_lift (pb_enc_string (env_mem env) f src)
      else if lt = PB_LTYPE_SUBMESSAGE then pb_enc_submessage env enc f src
      else if lt = PB_LTYPE_FIXED_LENGTH_BYTES then p_lift (pb_enc_fixed_length_bytes (env_mem env) f src)
      else p_undef)"

section \<open>Fields\<close>

text \<open>The loops of \<open>encode_array\<close>: \<open>count\<close> elements from address \<open>p\<close> on.\<close>

type_synonym 's field_encoder = "pb_field \<Rightarrow> int \<Rightarrow> ('s pb_ostream, unit) pst"

primrec array_loop :: "(int \<Rightarrow> ('s pb_ostream, unit) pst) \<Rightarrow> nat \<Rightarrow> nat \<Rightarrow> int \<Rightarrow> ('s pb_ostream, unit) pst" where
  "array_loop step data_size 0 p = p_lift (st_return ())"
| "array_loop step data_size (Suc count) p =
     p_bind (step p) (\<lambda>_. array_loop step data_size count (p + int data_size))"

definition encode_array :: "memory \<Rightarrow> pb_field \<Rightarrow> int \<Rightarrow> nat \<Rightarrow> 's field_encoder \<Rightarrow> ('s pb_ostream, unit) pst" where
  "encode_array mem f pData count func =
     (let at = PB_ATYPE (fld_type f); lt = PB_LTYPE (fld_type f) in
      if count = 0 then p_lift (st_return ())
      else if at \<noteq> PB_ATYPE_POINTER \<and> count > fld_array_size f then p_lift (os_error ''array max size exceeded'')
      else if lt \<le> PB_LTYPE_LAST_PACKABLE then
        p_bind (p_lift (pb_encode_tag PB_WT_STRING (fld_tag f))) (\<lambda>_ stream.
          case (if lt = PB_LTYPE_FIXED32 then Some (Some (szw (4 * count)))
                else if lt = PB_LTYPE_FIXED64 then Some (Some (szw (8 * count)))
                else (case array_loop (func f) (fld_data_size f) count pData (PB_OSTREAM_SIZING (os_state stream)) of
                        None \<Rightarrow> None
                      | Some (None, _) \<Rightarrow> Some None
                      | Some (Some _, sizestream) \<Rightarrow> Some (Some (os_bytes_written sizestream)))) of
            None \<Rightarrow> None
          | Some None \<Rightarrow> Some (None, stream)
          | Some (Some sz) \<Rightarrow>
              p_bind (p_lift (pb_encode_varint (word_of_nat sz))) (\<lambda>_ stream.
                if os_callback stream = None then Some (pb_write [] sz stream)
                else array_loop (func f) (fld_data_size f) count pData stream) stream)
      else
        array_loop
          (\<lambda>p. p_bind (p_lift (pb_encode_tag_for_field f)) (\<lambda>_.
             if at = PB_ATYPE_POINTER \<and> (lt = PB_LTYPE_STRING \<or> lt = PB_LTYPE_BYTES) then func f (rd_ptr mem p)
             else func f p))
          (fld_data_size f) count pData)"

text \<open>\<open>pb_check_proto3_default_value\<close>, with fuel for the nesting of static submessages.  The iteration over
  the fields of a message ends after as many steps as it has descriptors.\<close>

primrec iter_all :: "(pb_field_iter \<Rightarrow> bool option) \<Rightarrow> nat \<Rightarrow> pb_field_iter \<Rightarrow> bool option" where
  "iter_all check 0 iter = None"
| "iter_all check (Suc k) iter =
     (case check iter of
        None \<Rightarrow> None
      | Some False \<Rightarrow> Some False
      | Some True \<Rightarrow>
          (case pb_field_iter_next iter of
             (True, iter') \<Rightarrow> iter_all check k iter'
           | (False, _) \<Rightarrow> Some True))"

fun pb_check_proto3_default_value :: "nat \<Rightarrow> memory \<Rightarrow> (nat \<Rightarrow> pb_field list) \<Rightarrow> pb_field \<Rightarrow> int \<Rightarrow> bool option" where
  "pb_check_proto3_default_value n mem msgs f pData =
     (let lt = PB_LTYPE (fld_type f); static = (PB_ATYPE (fld_type f) = PB_ATYPE_STATIC) in
      if static \<and> lt = PB_LTYPE_BYTES then Some (rd_size mem pData = 0)
      else if static \<and> lt = PB_LTYPE_STRING then Some (mem pData = 0)
      else if static \<and> lt = PB_LTYPE_FIXED_LENGTH_BYTES then Some (fld_data_size f = 0)
      else if static \<and> lt = PB_LTYPE_SUBMESSAGE then
        (case n of
           0 \<Rightarrow> None
         | Suc n' \<Rightarrow>
             (case fld_ptr f of
                PtrFields m \<Rightarrow>
                  (case pb_field_iter_begin (msgs m) pData of
                     (False, _) \<Rightarrow> Some True
                   | (True, iter) \<Rightarrow>
                       iter_all (\<lambda>it. pb_check_proto3_default_value n' mem msgs (cur it) (iter_pData it))
                         (length (msgs m)) iter)
              | _ \<Rightarrow> None))
      else Some (\<forall>i < fld_data_size f. mem (pData + int i) = 0))"

declare pb_check_proto3_default_value.simps [simp del]

text \<open>The presence flag or count of a field: at \<open>pSize\<close> if there is one, otherwise the local
  \<open>implicit_has\<close>, which is only ever read as a flag.\<close>

definition encode_basic_field :: "'s enc_env \<Rightarrow> nat \<Rightarrow> 's field_encoder \<Rightarrow> pb_field \<Rightarrow> int \<Rightarrow> ('s pb_ostream, unit) pst" where
  "encode_basic_field env n func f pData stream =
     (let mem = env_mem env; ht = PB_HTYPE (fld_type f);
          pSize = pData + fld_size_offset f;
          implicit =
            (if fld_size_offset f \<noteq> 0 then Some False
             else if ht = PB_HTYPE_OPTIONAL then map_option Not (pb_check_proto3_default_value n mem (env_msgs env) f pData)
             else Some True);
          pointer = (PB_ATYPE (fld_type f) = PB_ATYPE_POINTER);
          pData' = (if pointer then rd_ptr mem pData else pData)
      in case implicit of
           None \<Rightarrow> None
         | Some ih \<Rightarrow>
             let implicit_has = (if pointer then pData' \<noteq> 0 else ih);
                 has = (if fld_size_offset f \<noteq> 0 then mem pSize \<noteq> 0 else implicit_has);
                 put = p_bind (p_lift (pb_encode_tag_for_field f)) (\<lambda>_. func f pData')
             in if ht = PB_HTYPE_REQUIRED then
                  (if pData' = 0 then Some (os_error ''missing required field'' stream) else put stream)
                else if ht = PB_HTYPE_OPTIONAL then (if has then put stream else Some (Some (), stream))
                else if ht = PB_HTYPE_REPEATED then
                  (if fld_size_offset f = 0 then None else encode_array mem f pData' (rd_size mem pSize) func stream)
                else
                  (if fld_size_offset f = 0 then None
                   else if rd_size mem pSize = unat (fld_tag f) then put stream else Some (Some (), stream)))"

definition encode_callback_field :: "'s enc_env \<Rightarrow> pb_field \<Rightarrow> int \<Rightarrow> ('s pb_ostream, unit) pst" where
  "encode_callback_field env f pData stream =
     (let fn = rd_ptr (env_mem env) pData in
      if fn \<noteq> 0 then
        (case env_encode_cb env fn f (pData + 8) stream of
           (None, s) \<Rightarrow> Some (os_error ''callback error'' s)
         | (Some _, s) \<Rightarrow> Some (Some (), s))
      else Some (Some (), stream))"

definition encode_field :: "'s enc_env \<Rightarrow> nat \<Rightarrow> 's msg_encoder \<Rightarrow> pb_field \<Rightarrow> int \<Rightarrow> ('s pb_ostream, unit) pst" where
  "encode_field env n enc f pData =
     (let at = PB_ATYPE (fld_type f) in
      if at = PB_ATYPE_STATIC \<or> at = PB_ATYPE_POINTER
      then encode_basic_field env n (PB_ENCODERS env enc (PB_LTYPE (fld_type f))) f pData
      else if at = PB_ATYPE_CALLBACK then encode_callback_field env f pData
      else p_lift (os_error ''invalid field type''))"

text \<open>An extension in memory: its type, the address of its value, the next extension.\<close>

definition default_extension_encoder :: "'s enc_env \<Rightarrow> nat \<Rightarrow> 's msg_encoder \<Rightarrow> int \<Rightarrow> ('s pb_ostream, unit) pst" where
  "default_extension_encoder env n enc extension =
     (let f = ext_arg (env_ext env (rd_ptr (env_mem env) extension)) in
      if PB_ATYPE (fld_type f) = PB_ATYPE_POINTER then encode_field env n enc f (extension + 8)
      else encode_field env n enc f (rd_ptr (env_mem env) (extension + 8)))"

primrec extension_loop :: "'s enc_env \<Rightarrow> nat \<Rightarrow> 's msg_encoder \<Rightarrow> nat \<Rightarrow> int \<Rightarrow> ('s pb_ostream, unit) pst" where
  "extension_loop env n enc 0 extension = (if extension = 0 then p_lift (st_return ()) else p_undef)"
| "extension_loop env n enc (Suc k) extension =
     (if extension = 0 then p_lift (st_return ())
      else p_bind
        (case ext_encode (env_ext env (rd_ptr (env_mem env) extension)) of
           Some f \<Rightarrow> p_lift (f extension)
         | None \<Rightarrow> default_extension_encoder env n enc extension)
        (\<lambda>_. extension_loop env n enc k (rd_ptr (env_mem env) (extension + 16))))"

definition encode_extension_field :: "'s enc_env \<Rightarrow> nat \<Rightarrow> 's msg_encoder \<Rightarrow> int \<Rightarrow> ('s pb_ostream, unit) pst" where
  "encode_extension_field env n enc pData = extension_loop env n enc n (rd_ptr (env_mem env) pData)"

section \<open>Messages\<close>

primrec encode_loop :: "(pb_field_iter \<Rightarrow> ('s pb_ostream, unit) pst) \<Rightarrow> nat \<Rightarrow> pb_field_iter \<Rightarrow> ('s pb_ostream, unit) pst" where
  "encode_loop one 0 iter = p_undef"
| "encode_loop one (Suc k) iter =
     p_bind (one iter) (\<lambda>_.
       case pb_field_iter_next iter of
         (True, iter') \<Rightarrow> encode_loop one k iter'
       | (False, _) \<Rightarrow> p_lift (st_return ()))"

definition encode_one :: "'s enc_env \<Rightarrow> nat \<Rightarrow> 's msg_encoder \<Rightarrow> pb_field_iter \<Rightarrow> ('s pb_ostream, unit) pst" where
  "encode_one env n enc iter =
     (if PB_LTYPE (fld_type (cur iter)) = PB_LTYPE_EXTENSION then encode_extension_field env n enc (iter_pData iter)
      else encode_field env n enc (cur iter) (iter_pData iter))"

primrec pb_encode :: "nat \<Rightarrow> 's enc_env \<Rightarrow> pb_field list \<Rightarrow> int \<Rightarrow> ('s pb_ostream, unit) pst" where
  "pb_encode 0 env flds src = p_undef"
| "pb_encode (Suc n) env flds src =
     (case pb_field_iter_begin flds src of
        (False, _) \<Rightarrow> p_lift (st_return ())
      | (True, iter) \<Rightarrow> encode_loop (encode_one env n (pb_encode n env)) (length flds) iter)"

definition pb_encode_delimited :: "nat \<Rightarrow> 's enc_env \<Rightarrow> pb_field list \<Rightarrow> int \<Rightarrow> ('s pb_ostream, unit) pst" where
  "pb_encode_delimited n env flds src = pb_encode_submessage (pb_encode n env) flds src"

definition pb_get_encoded_size :: "nat \<Rightarrow> 's enc_env \<Rightarrow> 's \<Rightarrow> pb_field list \<Rightarrow> int \<Rightarrow> nat option option" where
  "pb_get_encoded_size n env s flds src =
     (case pb_encode n env flds src (PB_OSTREAM_SIZING s) of
        None \<Rightarrow> None
      | Some (None, _) \<Rightarrow> Some None
      | Some (Some _, stream) \<Rightarrow> Some (Some (os_bytes_written stream)))"

end
