(* ===== verification/Pb_Decode.thy ===== *)
theory Pb_Decode
  imports Pb_Encode
begin

text \<open>
  The message decoder of \<open>pb_decode.c\<close>, in the configuration without malloc support.  The state is the input
  stream and the memory that holds the message structure.  As in the encoder, \<open>None\<close> is an undefined
  result or exhausted fuel: fuel bounds the nesting of messages and of extension lists and the calls of a
  user callback on one field; the loops over the input need no fuel of their own, since every round
  consumes at least one byte.
\<close>

section \<open>State\<close>

record 's dstate =
  ds_in :: "'s pb_istream"
  ds_mem :: memory

definition d_in :: "('s pb_istream, 'a) st \<Rightarrow> ('s dstate, 'a) pst" where
  "d_in m s = (case m (ds_in s) of (r, t) \<Rightarrow> Some (r, s\<lparr>ds_in := t\<rparr>))"

definition d_return :: "'a \<Rightarrow> ('s dstate, 'a) pst" where
  "d_return x = p_lift (st_return x)"

definition wr :: "memory \<Rightarrow> int \<Rightarrow> u8 list \<Rightarrow> memory" where
  "wr mem a bs = (\<lambda>x. if a \<le> x \<and> x < a + int (length bs) then bs ! nat (x - a) else mem x)"

definition d_store :: "int \<Rightarrow> u8 list \<Rightarrow> ('s dstate, unit) pst" where
  "d_store a bs s = Some (Some (), s\<lparr>ds_mem := wr (ds_mem s) a bs\<rparr>)"

definition d_load :: "(memory \<Rightarrow> 'a) \<Rightarrow> ('s dstate, 'a) pst" where
  "d_load f s = Some (Some (f (ds_mem s)), s)"

definition le_bytes :: "nat \<Rightarrow> nat \<Rightarrow> u8 list" where
  "le_bytes n v = map (\<lambda>i. word_of_nat (v div 256 ^ i)) [0..<n]"

text \<open>Running a computation on a substream.  The parent stream is kept aside; the substream is returned.\<close>

definition on_stream :: "'s pb_istream \<Rightarrow> ('s dstate, 'a) pst \<Rightarrow> ('s dstate, 'a option \<times> 's pb_istream) pst" where
  "on_stream sub m s =
     (case m (s\<lparr>ds_in := sub\<rparr>) of
        None \<Rightarrow> None
      | Some (r, t) \<Rightarrow> Some (Some (r, ds_in t), t\<lparr>ds_in := ds_in s\<rparr>))"

record 's dext_type =
  dext_decode :: "(int \<Rightarrow> u32 \<Rightarrow> pb_wire_type \<Rightarrow> ('s dstate, unit) st) option"
  dext_arg :: pb_field

record 's dec_env =
  denv_msgs :: "nat \<Rightarrow> pb_field list"
  denv_decode_cb :: "int \<Rightarrow> pb_field \<Rightarrow> int \<Rightarrow> ('s dstate, unit) st"
  denv_ext :: "int \<Rightarrow> 's dext_type"

section \<open>Field decoders\<close>

text \<open>Storing an integer of the size of the field and comparing it with the value: the common end of the
  three varint decoders, with the extension of the stored bytes.\<close>

definition store_clamped :: "pb_field \<Rightarrow> int \<Rightarrow> (nat \<Rightarrow> u64 \<Rightarrow> u64) \<Rightarrow> u64 \<Rightarrow> ('s dstate, unit) pst" where
  "store_clamped f dest ext val =
     (let n = fld_data_size f in
      if n = 8 \<or> n = 4 \<or> n = 2 \<or> n = 1 then
        p_bind (d_store dest (le_bytes n (unat val)))
          (\<lambda>_. if ext n val \<noteq> val then d_in (is_error ''integer too large'') else d_return ())
      else d_in (is_error ''invalid data_size''))"

definition sign_ext :: "nat \<Rightarrow> u64 \<Rightarrow> u64" where
  "sign_ext n val = (if n = 8 then val else if n = 4 then scast (ucast val :: u32)
     else if n = 2 then scast (ucast val :: u16) else scast (ucast val :: u8))"

definition zero_ext :: "nat \<Rightarrow> u64 \<Rightarrow> u64" where
  "zero_ext n val = (if n = 8 then val else if n = 4 then ucast (ucast val :: u32)
     else if n = 2 then ucast (ucast val :: u16) else ucast (ucast val :: u8))"

definition pb_dec_varint :: "pb_field \<Rightarrow> int \<Rightarrow> ('s dstate, unit) pst" where
  "pb_dec_varint f dest =
     p_bind (d_in pb_decode_varint) (\<lambda>val.
       store_clamped f dest sign_ext (if fld_data_size f = 8 then val else scast (ucast val :: u32)))"

definition pb_dec_uvarint :: "pb_field \<Rightarrow> int \<Rightarrow> ('s dstate, unit) pst" where
  "pb_dec_uvarint f dest = p_bind (d_in pb_decode_varint) (\<lambda>val. store_clamped f dest zero_ext val)"

definition pb_dec_svarint :: "pb_field \<Rightarrow> int \<Rightarrow> ('s dstate, unit) pst" where
  "pb_dec_svarint f dest = p_bind (d_in pb_decode_svarint) (\<lambda>val. store_clamped f dest sign_ext val)"

definition pb_dec_fixed32 :: "int \<Rightarrow> ('s dstate, unit) pst" where
  "pb_dec_fixed32 dest = p_bind (d_in pb_decode_fixed32) (\<lambda>v. d_store dest (le_bytes 4 (unat v)))"

definition pb_dec_fixed64 :: "int \<Rightarrow> ('s dstate, unit) pst" where
  "pb_dec_fixed64 dest = p_bind (d_in pb_decode_fixed64) (\<lambda>v. d_store dest (le_bytes 8 (unat v)))"

definition pb_dec_bytes :: "pb_field \<Rightarrow> int \<Rightarrow> ('s dstate, unit) pst" where
  "pb_dec_bytes f dest =
     p_bind (d_in pb_decode_varint32) (\<lambda>sz.
       let alloc_size = PB_BYTES_ARRAY_T_ALLOCSIZE (unat sz) in
       if unat sz > PB_SIZE_MAX then d_in (is_error ''bytes overflow'')
       else if unat sz > alloc_size then d_in (is_error ''size too large'')
       else if PB_ATYPE (fld_type f) = PB_ATYPE_POINTER then d_in (is_error ''no malloc support'')
       else if alloc_size > fld_data_size f then d_in (is_error ''bytes overflow'')
       else
         p_bind (d_store dest (le_bytes 4 (unat sz))) (\<lambda>_.
         p_bind (d_in (pb_read_to (unat sz))) (\<lambda>bs. d_store (dest + 4) bs)))"

text \<open>The terminator is stored whether or not the read succeeded.\<close>

definition pb_dec_string :: "pb_field \<Rightarrow> int \<Rightarrow> ('s dstate, unit) pst" where
  "pb_dec_string f dest =
     p_bind (d_in pb_decode_varint32) (\<lambda>sz.
       let alloc_size = unat (sz + 1) in
       if alloc_size < unat sz then d_in (is_error ''size too large'')
       else if PB_ATYPE (fld_type f) = PB_ATYPE_POINTER then d_in (is_error ''no malloc support'')
       else if alloc_size > fld_data_size f then d_in (is_error ''string overflow'')
       else (\<lambda>s. case pb_read_to (unat sz) (ds_in s) of
                   (r, t) \<Rightarrow>
                     let mem = (case r of None \<Rightarrow> ds_mem s | Some bs \<Rightarrow> wr (ds_mem s) dest bs) in
                     Some (map_option (\<lambda>_. ()) r, s\<lparr>ds_in := t, ds_mem := wr mem (dest + int (unat sz)) [0]\<rparr>)))"

definition pb_dec_fixed_length_bytes :: "pb_field \<Rightarrow> int \<Rightarrow> ('s dstate, unit) pst" where
  "pb_dec_fixed_length_bytes f dest =
     p_bind (d_in pb_decode_varint32) (\<lambda>sz.
       if unat sz > PB_SIZE_MAX then d_in (is_error ''bytes overflow'')
       else if sz = 0 then d_store dest (replicate (fld_data_size f) 0)
       else if unat sz \<noteq> fld_data_size f then d_in (is_error ''incorrect fixed length bytes size'')
       else p_bind (d_in (pb_read_to (fld_data_size f))) (\<lambda>bs. d_store dest bs))"

text \<open>\<open>pb_dec_submessage\<close>, given \<open>pb_decode\<close> and \<open>pb_decode_noinit\<close>.\<close>

type_synonym 's msg_decoder = "bool \<Rightarrow> pb_field list \<Rightarrow> int \<Rightarrow> ('s dstate, unit) pst"

definition close_substream :: "'a option \<Rightarrow> 's pb_istream \<Rightarrow> ('s dstate, 'a) pst" where
  "close_substream status sub s =
     (case pb_close_string_substream sub (ds_in s) of
        (None, t) \<Rightarrow> Some (None, s\<lparr>ds_in := t\<rparr>)
      | (Some _, t) \<Rightarrow> Some (status, s\<lparr>ds_in := t\<rparr>))"

definition pb_dec_submessage :: "'s dec_env \<Rightarrow> 's msg_decoder \<Rightarrow> pb_field \<Rightarrow> int \<Rightarrow> ('s dstate, unit) pst" where
  "pb_dec_submessage env dec f dest =
     p_bind (d_in pb_make_string_substream) (\<lambda>sub.
       case fld_ptr f of
         PtrNull \<Rightarrow> d_in (is_error ''invalid field descriptor'')
       | PtrDefault _ \<Rightarrow> p_undef
       | PtrFields m \<Rightarrow>
           p_bind (on_stream sub (dec (PB_HTYPE (fld_type f) = PB_HTYPE_REPEATED) (denv_msgs env m) dest))
             (\<lambda>(status, sub'). close_substream status sub'))"

text \<open>The table \<open>PB_DECODERS\<close>.\<close>

definition PB_DECODERS :: "'s dec_env \<Rightarrow> 's msg_decoder \<Rightarrow> u8 \<Rightarrow> pb_field \<Rightarrow> int \<Rightarrow> ('s dstate, unit) pst" where
  "PB_DECODERS env dec lt f dest =
     (if lt = PB_LTYPE_VARINT then pb_dec_varint f dest
      else if lt = PB_LTYPE_UVARINT then pb_dec_uvarint f dest
      else if lt = PB_LTYPE_SVARINT then pb_dec_svarint f dest
      else if lt = PB_LTYPE_FIXED32 then pb_dec_fixed32 dest
      else if lt = PB_LTYPE_FIXED64 then pb_dec_fixed64 dest
      else if lt = PB_LTYPE_BYTES then pb_dec_bytes f dest
      else if lt = PB_LTYPE_STRING then pb_dec_string f dest
      else if lt = PB_LTYPE_SUBMESSAGE then pb_dec_submessage env dec f dest
      else if lt = PB_LTYPE_FIXED_LENGTH_BYTES then pb_dec_fixed_length_bytes f dest
      else p_undef)"

section \<open>Default values\<close>

text \<open>A pseudo-iterator for the field of an extension.  An extension in memory: its type, the address of its
  value, the next extension, and the flag \<open>found\<close>.\<close>

definition iter_from_extension :: "'s dec_env \<Rightarrow> memory \<Rightarrow> int \<Rightarrow> pb_field_iter" where
  "iter_from_extension env mem extension =
     (let f = dext_arg (denv_ext env (rd_ptr mem extension)); dest = rd_ptr mem (extension + 8) in
      (snd (pb_field_iter_begin [f] dest))
        \<lparr>iter_pData := (if PB_ATYPE (fld_type f) = PB_ATYPE_POINTER then extension + 8 else dest),
         iter_pSize := extension + 24\<rparr>)"

text \<open>The loops over the extensions of a list and over the fields of a message.\<close>

primrec ext_defaults_loop ::
  "'s dec_env \<Rightarrow> (pb_field_iter \<Rightarrow> memory \<Rightarrow> memory option) \<Rightarrow> nat \<Rightarrow> int \<Rightarrow> memory \<Rightarrow> memory option" where
  "ext_defaults_loop env one 0 ext mem = (if ext = 0 then Some mem else None)"
| "ext_defaults_loop env one (Suc k) ext mem =
     (if ext = 0 then Some mem
      else let mem1 = wr mem (ext + 24) [0] in
        (case one (iter_from_extension env mem1 ext) mem1 of
           None \<Rightarrow> None
         | Some mem2 \<Rightarrow> ext_defaults_loop env one k (rd_ptr mem2 (ext + 16)) mem2))"

primrec defaults_loop :: "(pb_field_iter \<Rightarrow> memory \<Rightarrow> memory option) \<Rightarrow> nat \<Rightarrow> pb_field_iter \<Rightarrow> memory \<Rightarrow> memory option" where
  "defaults_loop one 0 iter mem = None"
| "defaults_loop one (Suc k) iter mem =
     (case one iter mem of
        None \<Rightarrow> None
      | Some mem' \<Rightarrow>
          (case pb_field_iter_next iter of
             (True, iter') \<Rightarrow> defaults_loop one k iter' mem'
           | (False, _) \<Rightarrow> Some mem'))"

definition message_defaults ::
  "(pb_field_iter \<Rightarrow> memory \<Rightarrow> memory option) \<Rightarrow> pb_field list \<Rightarrow> int \<Rightarrow> memory \<Rightarrow> memory option" where
  "message_defaults one flds dest mem =
     (case pb_field_iter_begin flds dest of
        (False, _) \<Rightarrow> Some mem
      | (True, iter) \<Rightarrow> defaults_loop one (length flds) iter mem)"

text \<open>The static case of \<open>pb_field_set_to_default\<close>: the flag or count first, then the data.\<close>

definition static_default ::
  "'s dec_env \<Rightarrow> (pb_field_iter \<Rightarrow> memory \<Rightarrow> memory option) \<Rightarrow> pb_field_iter \<Rightarrow> memory \<Rightarrow> memory option" where
  "static_default env one iter mem =
     (let f = cur iter; ht = PB_HTYPE (fld_type f); pData = iter_pData iter; pSize = iter_pSize iter;
          mem1 = (if ht = PB_HTYPE_OPTIONAL \<and> pSize \<noteq> pData then wr mem pSize [0] else mem)
      in if ht = PB_HTYPE_REPEATED \<or> ht = PB_HTYPE_ONEOF then Some (wr mem pSize (le_bytes 4 0))
         else if PB_LTYPE (fld_type f) = PB_LTYPE_SUBMESSAGE then
           (case fld_ptr f of
              PtrFields m \<Rightarrow> message_defaults one (denv_msgs env m) pData mem1
            | _ \<Rightarrow> None)
         else
           (case fld_ptr f of
              PtrDefault bs \<Rightarrow>
                if length bs < fld_data_size f then None else Some (wr mem1 pData (take (fld_data_size f) bs))
            | PtrNull \<Rightarrow> Some (wr mem1 pData (replicate (fld_data_size f) 0))
            | PtrFields _ \<Rightarrow> None))"

primrec pb_field_set_to_default :: "nat \<Rightarrow> 's dec_env \<Rightarrow> pb_field_iter \<Rightarrow> memory \<Rightarrow> memory option" where
  "pb_field_set_to_default 0 env iter mem = None"
| "pb_field_set_to_default (Suc n) env iter mem =
     (let f = cur iter; at = PB_ATYPE (fld_type f); ht = PB_HTYPE (fld_type f);
          pData = iter_pData iter; pSize = iter_pSize iter in
      if PB_LTYPE (fld_type f) = PB_LTYPE_EXTENSION
      then ext_defaults_loop env (pb_field_set_to_default n env) n (rd_ptr mem pData) mem
      else if at = PB_ATYPE_STATIC then static_default env (pb_field_set_to_default n env) iter mem
      else if at = PB_ATYPE_POINTER then
        let mem1 = wr mem pData (le_bytes 8 0) in
        Some (if ht = PB_HTYPE_REPEATED \<or> ht = PB_HTYPE_ONEOF then wr mem1 pSize (le_bytes 4 0) else mem1)
      else Some mem)"

definition pb_message_set_to_defaults :: "nat \<Rightarrow> 's dec_env \<Rightarrow> pb_field list \<Rightarrow> int \<Rightarrow> ('s dstate, unit) pst" where
  "pb_message_set_to_defaults n env flds dest s =
     (case message_defaults (pb_field_set_to_default n env) flds dest (ds_mem s) of
        None \<Rightarrow> None
      | Some mem \<Rightarrow> Some (Some (), s\<lparr>ds_mem := mem\<rparr>))"

section \<open>Decoding a single field\<close>

type_synonym 's field_decoder = "pb_field \<Rightarrow> int \<Rightarrow> ('s dstate, unit) pst"

text \<open>The loop over a packed array; it runs on the substream.\<close>

primrec packed_loop :: "'s field_decoder \<Rightarrow> pb_field_iter \<Rightarrow> nat \<Rightarrow> ('s dstate, unit) pst" where
  "packed_loop func iter 0 s = None"
| "packed_loop func iter (Suc k) s =
     (let f = cur iter; sz = rd_size (ds_mem s) (iter_pSize iter) in
      if is_bytes_left (ds_in s) > 0 \<and> sz < fld_array_size f then
        p_bind (func f (iter_pData iter + int (fld_data_size f * sz)))
          (\<lambda>_. p_bind (d_load (\<lambda>mem. rd_size mem (iter_pSize iter)))
             (\<lambda>sz. p_bind (d_store (iter_pSize iter) (le_bytes 4 (sz + 1))) (\<lambda>_. packed_loop func iter k))) s
      else Some (Some (), s))"

definition decode_packed :: "'s field_decoder \<Rightarrow> pb_field_iter \<Rightarrow> ('s dstate, unit) pst" where
  "decode_packed func iter =
     p_bind (d_in pb_make_string_substream) (\<lambda>sub.
       p_bind (on_stream sub (packed_loop func iter (Suc (is_bytes_left sub)))) (\<lambda>(status, sub').
         if is_bytes_left sub' \<noteq> 0 then d_in (is_error ''array overflow'') else close_substream status sub'))"

definition decode_static_field ::
  "'s dec_env \<Rightarrow> nat \<Rightarrow> 's msg_decoder \<Rightarrow> pb_wire_type \<Rightarrow> pb_field_iter \<Rightarrow> ('s dstate, unit) pst" where
  "decode_static_field env n dec wire_type iter =
     (let f = cur iter; lt = PB_LTYPE (fld_type f); ht = PB_HTYPE (fld_type f);
          func = PB_DECODERS env dec lt; pData = iter_pData iter; pSize = iter_pSize iter in
      if ht = PB_HTYPE_REQUIRED then func f pData
      else if ht = PB_HTYPE_OPTIONAL then
        p_bind (if pSize \<noteq> pData then d_store pSize [1] else d_return ()) (\<lambda>_. func f pData)
      else if ht = PB_HTYPE_REPEATED then
        (if wire_type = PB_WT_STRING \<and> lt \<le> PB_LTYPE_LAST_PACKABLE then decode_packed func iter
         else p_bind (d_load (\<lambda>mem. rd_size mem pSize)) (\<lambda>sz.
           if sz \<ge> fld_array_size f then d_in (is_error ''array overflow'')
           else p_bind (d_store pSize (le_bytes 4 (sz + 1)))
                  (\<lambda>_. func f (pData + int (fld_data_size f * sz)))))
      else
        p_bind (d_store pSize (le_bytes 4 (unat (fld_tag f)))) (\<lambda>_.
          p_bind
            (if lt = PB_LTYPE_SUBMESSAGE then
               p_bind (d_store pData (replicate (fld_data_size f) 0)) (\<lambda>_.
                 case fld_ptr f of
                   PtrFields m \<Rightarrow> pb_message_set_to_defaults n env (denv_msgs env m) pData
                 | _ \<Rightarrow> p_undef)
             else d_return ())
            (\<lambda>_. func f pData)))"

definition decode_pointer_field :: "('s dstate, unit) pst" where
  "decode_pointer_field = d_in (is_error ''no malloc support'')"

text \<open>The callback is called until the substream is empty.\<close>

primrec callback_loop :: "('s dstate, unit) st \<Rightarrow> nat \<Rightarrow> ('s dstate, unit) pst" where
  "callback_loop cb 0 = p_undef"
| "callback_loop cb (Suc k) =
     p_bind (p_lift cb) (\<lambda>_ s. if is_bytes_left (ds_in s) \<noteq> 0 then callback_loop cb k s else Some (Some (), s))"

definition decode_callback_field :: "'s dec_env \<Rightarrow> nat \<Rightarrow> pb_wire_type \<Rightarrow> pb_field_iter \<Rightarrow> ('s dstate, unit) pst" where
  "decode_callback_field env n wire_type iter =
     p_bind (d_load (\<lambda>mem. rd_ptr mem (iter_pData iter))) (\<lambda>fn.
       let cb = denv_decode_cb env fn (cur iter) (iter_pData iter + 8) in
       if fn = 0 then d_in (pb_skip_field wire_type)
       else if wire_type = PB_WT_STRING then
         p_bind (d_in pb_make_string_substream) (\<lambda>sub.
           p_bind (on_stream sub (callback_loop cb n)) (\<lambda>(status, sub').
             case status of
               None \<Rightarrow> d_in (is_error ''callback failed'')
             | Some _ \<Rightarrow> close_substream (Some ()) sub'))
       else
         p_bind (d_in (read_raw_value wire_type 10)) (\<lambda>buffer.
           p_bind (on_stream (pb_istream_from_buffer buffer (length buffer)) (p_lift cb))
             (\<lambda>(status, _). p_lift (\<lambda>s. (status, s)))))"

definition decode_field ::
  "'s dec_env \<Rightarrow> nat \<Rightarrow> 's msg_decoder \<Rightarrow> pb_wire_type \<Rightarrow> pb_field_iter \<Rightarrow> ('s dstate, unit) pst" where
  "decode_field env n dec wire_type iter =
     (let at = PB_ATYPE (fld_type (cur iter)) in
      if at = PB_ATYPE_STATIC then decode_static_field env n dec wire_type iter
      else if at = PB_ATYPE_POINTER then decode_pointer_field
      else if at = PB_ATYPE_CALLBACK then decode_callback_field env n wire_type iter
      else d_in (is_error ''invalid field type''))"

section \<open>Extensions\<close>

definition default_extension_decoder ::
  "'s dec_env \<Rightarrow> nat \<Rightarrow> 's msg_decoder \<Rightarrow> int \<Rightarrow> u32 \<Rightarrow> pb_wire_type \<Rightarrow> ('s dstate, unit) pst" where
  "default_extension_decoder env n dec extension tag wire_type s =
     (if fld_tag (dext_arg (denv_ext env (rd_ptr (ds_mem s) extension))) \<noteq> tag then Some (Some (), s)
      else let iter = iter_from_extension env (ds_mem s) extension in
        p_bind (d_store (extension + 24) [1]) (\<lambda>_. decode_field env n dec wire_type iter) s)"

primrec decode_extension_loop ::
  "'s dec_env \<Rightarrow> nat \<Rightarrow> 's msg_decoder \<Rightarrow> u32 \<Rightarrow> pb_wire_type \<Rightarrow> nat \<Rightarrow> nat \<Rightarrow> int \<Rightarrow> ('s dstate, unit) pst" where
  "decode_extension_loop env n dec tag wire_type pos 0 extension s =
     (if extension = 0 \<or> pos \<noteq> is_bytes_left (ds_in s) then Some (Some (), s) else None)"
| "decode_extension_loop env n dec tag wire_type pos (Suc k) extension s =
     (if extension = 0 \<or> pos \<noteq> is_bytes_left (ds_in s) then Some (Some (), s)
      else p_bind
        (case dext_decode (denv_ext env (rd_ptr (ds_mem s) extension)) of
           Some f \<Rightarrow> p_lift (f extension tag wire_type)
         | None \<Rightarrow> default_extension_decoder env n dec extension tag wire_type)
        (\<lambda>_ s. decode_extension_loop env n dec tag wire_type pos k (rd_ptr (ds_mem s) (extension + 16)) s) s)"

definition decode_extension ::
  "'s dec_env \<Rightarrow> nat \<Rightarrow> 's msg_decoder \<Rightarrow> u32 \<Rightarrow> pb_wire_type \<Rightarrow> pb_field_iter \<Rightarrow> ('s dstate, unit) pst" where
  "decode_extension env n dec tag wire_type iter s =
     decode_extension_loop env n dec tag wire_type (is_bytes_left (ds_in s)) n (rd_ptr (ds_mem s) (iter_pData iter)) s"

partial_function (option) find_extension_loop :: "nat \<Rightarrow> pb_field_iter \<Rightarrow> (bool \<times> pb_field_iter) option" where
  "find_extension_loop start iter =
     (if PB_LTYPE (fld_type (cur iter)) = PB_LTYPE_EXTENSION then Some (True, iter)
      else let iter' = snd (pb_field_iter_next iter) in
        if iter_pos iter' \<noteq> start then find_extension_loop start iter' else Some (False, iter'))"

definition find_extension_field :: "pb_field_iter \<Rightarrow> (bool \<times> pb_field_iter) option" where
  "find_extension_field iter = find_extension_loop (iter_pos iter) iter"

section \<open>Messages\<close>

text \<open>The bits of the required fields that were seen.  An access outside of the array of two words is
  undefined, and so is the shift by 32 for a number of required fields that is a multiple of 32.\<close>

definition PB_MAX_REQUIRED_FIELDS :: nat where
  "PB_MAX_REQUIRED_FIELDS = 64"

definition mark_seen :: "pb_field_iter \<Rightarrow> u32 list \<Rightarrow> u32 list" where
  "mark_seen iter seen =
     (let i = iter_required_field_index iter in
      if PB_HTYPE (fld_type (cur iter)) = PB_HTYPE_REQUIRED \<and> i < PB_MAX_REQUIRED_FIELDS
      then seen[i div 32 := seen ! (i div 32) OR push_bit (i mod 32) 1] else seen)"

primrec whole_words :: "nat \<Rightarrow> nat \<Rightarrow> u32 list \<Rightarrow> bool option" where
  "whole_words 0 i seen = Some True"
| "whole_words (Suc k) i seen =
     (if i \<ge> length seen then None else if seen ! i \<noteq> - 1 then Some False else whole_words k (Suc i) seen)"

definition required_present :: "nat \<Rightarrow> u32 list \<Rightarrow> bool option" where
  "required_present req_field_count seen =
     (if req_field_count = 0 then Some True
      else (case whole_words (req_field_count div 32) 0 seen of
              Some True \<Rightarrow>
                if req_field_count div 32 \<ge> length seen \<or> req_field_count mod 32 = 0 then None
                else Some (seen ! (req_field_count div 32) = drop_bit (32 - req_field_count mod 32) (- 1))
            | r \<Rightarrow> r))"

primrec seek_end :: "nat \<Rightarrow> pb_field_iter \<Rightarrow> (nat \<times> u8 \<times> pb_field_iter) option" where
  "seek_end 0 iter = None"
| "seek_end (Suc k) iter =
     (case pb_field_iter_next iter of
        (True, iter') \<Rightarrow> seek_end k iter'
      | (False, iter') \<Rightarrow> Some (iter_required_field_index iter, fld_type (cur iter), iter'))"

definition check_required_fields :: "pb_field_iter \<Rightarrow> u32 list \<Rightarrow> ('s dstate, unit) pst" where
  "check_required_fields iter seen =
     (case seek_end (length (iter_start iter)) iter of
        None \<Rightarrow> p_undef
      | Some (count, last_type, iter') \<Rightarrow>
          let req_field_count = (if PB_HTYPE last_type = PB_HTYPE_REQUIRED \<and> fld_tag (cur iter') \<noteq> 0 then count + 1 else count) in
          (case required_present req_field_count seen of
             None \<Rightarrow> p_undef
           | Some True \<Rightarrow> d_return ()
           | Some False \<Rightarrow> d_in (is_error ''missing required field'')))"

text \<open>A field that is not in the descriptors: an extension, or skipped.  The result is the iterator and the
  start of the extension range.\<close>

definition decode_unknown ::
  "'s dec_env \<Rightarrow> nat \<Rightarrow> 's msg_decoder \<Rightarrow> u32 \<Rightarrow> pb_wire_type \<Rightarrow> pb_field_iter \<Rightarrow> u32
     \<Rightarrow> ('s dstate, pb_field_iter \<times> u32) pst" where
  "decode_unknown env n dec tag wire_type iter ext_start =
     (let skip = (\<lambda>r. p_bind (d_in (pb_skip_field wire_type)) (\<lambda>_. d_return r)) in
      if tag \<ge> ext_start then
        (case find_extension_field iter of
           None \<Rightarrow> p_undef
         | Some (found, iter') \<Rightarrow>
             let start = (if found then fld_tag (cur iter') else - 1) in
             if tag \<ge> start then
               (\<lambda>s. p_bind (decode_extension env n dec tag wire_type iter') (\<lambda>_ t.
                      if is_bytes_left (ds_in s) \<noteq> is_bytes_left (ds_in t) then Some (Some (iter', start), t)
                      else skip (iter', start) t) s)
             else skip (iter', start))
      else skip (iter, ext_start))"

primrec decode_loop ::
  "'s dec_env \<Rightarrow> nat \<Rightarrow> 's msg_decoder \<Rightarrow> nat \<Rightarrow> pb_field_iter \<Rightarrow> u32 list \<Rightarrow> u32 \<Rightarrow> ('s dstate, unit) pst" where
  "decode_loop env n dec 0 iter seen ext_start s = None"
| "decode_loop env n dec (Suc k) iter seen ext_start s =
     (if is_bytes_left (ds_in s) = 0 then check_required_fields iter seen s
      else (case pb_decode_tag (ds_in s) of
              ((False, _, _, eof), t) \<Rightarrow>
                if eof then check_required_fields iter seen (s\<lparr>ds_in := t\<rparr>) else Some (None, s\<lparr>ds_in := t\<rparr>)
            | ((True, wire_type, tag, _), t) \<Rightarrow>
                (case pb_field_iter_find tag iter of
                   None \<Rightarrow> None
                 | Some (False, iter') \<Rightarrow>
                     p_bind (decode_unknown env n dec tag wire_type iter' ext_start)
                       (\<lambda>(iter'', start). decode_loop env n dec k iter'' seen start) (s\<lparr>ds_in := t\<rparr>)
                 | Some (True, iter') \<Rightarrow>
                     p_bind (decode_field env n dec wire_type iter')
                       (\<lambda>_. decode_loop env n dec k iter' (mark_seen iter' seen) ext_start) (s\<lparr>ds_in := t\<rparr>))))"

text \<open>\<open>pb_decode\<close> is \<open>pb_decode_noinit\<close> on a message set to its defaults; the flag tells which of the two runs
  on a submessage.\<close>

definition decode_init :: "nat \<Rightarrow> 's dec_env \<Rightarrow> (pb_field list \<Rightarrow> int \<Rightarrow> ('s dstate, unit) pst) \<Rightarrow> 's msg_decoder" where
  "decode_init n env noinit init flds dest =
     (if init then p_bind (pb_message_set_to_defaults n env flds dest) (\<lambda>_. noinit flds dest) else noinit flds dest)"

primrec pb_decode_noinit :: "nat \<Rightarrow> 's dec_env \<Rightarrow> pb_field list \<Rightarrow> int \<Rightarrow> ('s dstate, unit) pst" where
  "pb_decode_noinit 0 env flds dest s = None"
| "pb_decode_noinit (Suc n) env flds dest s =
     decode_loop env n (decode_init n env (pb_decode_noinit n env)) (Suc (is_bytes_left (ds_in s)))
       (snd (pb_field_iter_begin flds dest)) [0, 0] 0 s"

definition pb_decode :: "nat \<Rightarrow> 's dec_env \<Rightarrow> pb_field list \<Rightarrow> int \<Rightarrow> ('s dstate, unit) pst" where
  "pb_decode n env flds dest =
     p_bind (pb_message_set_to_defaults n env flds dest) (\<lambda>_. pb_decode_noinit n env flds dest)"

definition pb_decode_delimited :: "nat \<Rightarrow> 's dec_env \<Rightarrow> pb_field list \<Rightarrow> int \<Rightarrow> ('s dstate, unit) pst" where
  "pb_decode_delimited n env flds dest =
     p_bind (d_in pb_make_string_substream) (\<lambda>sub.
       p_bind (on_stream sub (pb_decode n env flds dest)) (\<lambda>(status, sub'). close_substream status sub'))"

end
