(* ===== verification/Pb_Decode_Safe.thy ===== *)
theory Pb_Decode_Safe
  imports Pb_Decode
begin

text \<open>
  The decoder on arbitrary input.  A computation is \<open>drun a b\<close> in a state if it has a defined result there,
  does not gain input and leaves the memory outside of the addresses from \<open>a\<close> up to \<open>b\<close> as it was.  The
  theory shows this of every field decoder, of the array loops and of the message loop, and so of
  \<open>pb_decode\<close> on any message type whose descriptors fit its structure: whatever the bytes are, decoding
  ends and stays inside of the structure.
\<close>

section \<open>Runs that stay inside of a region\<close>

abbreviation left :: "'s dstate \<Rightarrow> nat" where
  "left s \<equiv> is_bytes_left (ds_in s)"

definition drun :: "int \<Rightarrow> int \<Rightarrow> ('s dstate, 'a) pst \<Rightarrow> 's dstate \<Rightarrow> bool" where
  "drun a b m s \<longleftrightarrow> (\<exists>r t. m s = Some (r, t) \<and> left t \<le> left s \<and> (\<forall>x. x < a \<or> b \<le> x \<longrightarrow> ds_mem t x = ds_mem s x))"

named_theorems drun_intros \<open>computations that stay inside of a region\<close>

lemma drun_bind [drun_intros]:
  assumes "drun a b m s" "\<And>x t. m s = Some (Some x, t) \<Longrightarrow> left t \<le> left s \<Longrightarrow> drun a b (f x) t"
  shows "drun a b (p_bind m f) s"
proof -
  obtain r t where m: "m s = Some (r, t)" "left t \<le> left s" "\<forall>x. x < a \<or> b \<le> x \<longrightarrow> ds_mem t x = ds_mem s x"
    using assms(1) by (auto simp: drun_def)
  show ?thesis
  proof (cases r)
    case (Some x)
    then show ?thesis using m assms(2) [of x t] by (fastforce simp: drun_def p_bind_def)
  qed (use m in \<open>simp add: drun_def p_bind_def\<close>)
qed

lemma drun_return [drun_intros]: "drun a b (d_return x) s"
  by (simp add: drun_def d_return_def p_lift_def st_return_def)

lemma drun_load [drun_intros]: "drun a b (d_load f) s"
  by (simp add: drun_def d_load_def)

lemma drun_store [drun_intros]:
  assumes "a \<le> p" "p + int (length bs) \<le> b"
  shows "drun a b (d_store p bs) s"
  using assms by (auto simp: drun_def d_store_def wr_def)

lemma drun_mono:
  assumes "drun a b m s" "a' \<le> a" "b \<le> b'"
  shows "drun a' b' m s"
  using assms unfolding drun_def by (meson dual_order.strict_trans1 order_trans)

lemma drun_cong: "drun a b m s \<Longrightarrow> m' s = m s \<Longrightarrow> drun a b m' s"
  by (simp add: drun_def)

lemma drun_on_stream [drun_intros]: "drun a b m (s\<lparr>ds_in := sub\<rparr>) \<Longrightarrow> drun a b (on_stream sub m) s"
  by (auto simp: drun_def on_stream_def)

lemma length_le_bytes [simp]: "length (le_bytes n v) = n"
  by (simp add: le_bytes_def)

section \<open>Primitives never gain input\<close>

declare pb_read_pieces.simps [simp del]

definition shrinks :: "('s pb_istream, 'a) st \<Rightarrow> bool" where
  "shrinks m \<longleftrightarrow> (\<forall>s. is_bytes_left (snd (m s)) \<le> is_bytes_left s)"

text \<open>Successful runs use up input.\<close>

definition consumes :: "('s pb_istream, 'a) st \<Rightarrow> bool" where
  "consumes m \<longleftrightarrow> (\<forall>s x t. m s = (Some x, t) \<longrightarrow> is_bytes_left t < is_bytes_left s)"

named_theorems shrink_intros \<open>primitives that never gain input\<close>

lemma drun_in [drun_intros]: "shrinks m \<Longrightarrow> drun a b (d_in m) s"
  by (auto simp: drun_def d_in_def shrinks_def split: prod.splits) (metis snd_conv)

lemma shrinks_error [shrink_intros]: "shrinks (is_error e)"
  by (simp add: shrinks_def is_error_def)

lemma shrinks_return [shrink_intros]: "shrinks (st_return x)"
  by (simp add: shrinks_def st_return_def)

lemma shrinks_bind [shrink_intros]:
  assumes "shrinks m" "\<And>x. shrinks (f x)"
  shows "shrinks (st_bind m f)"
  using assms unfolding shrinks_def st_bind_def
  by (auto split: prod.splits option.splits) (metis order_trans snd_conv)+

lemma consumes_bind:
  assumes "consumes m" "\<And>x. shrinks (f x)"
  shows "consumes (st_bind m f)"
  using assms unfolding consumes_def shrinks_def st_bind_def
  by (auto split: prod.splits option.splits) (metis order_le_less_trans snd_conv)

lemma shrinks_read_to [shrink_intros]: "shrinks (pb_read_to n)"
  by (auto simp: shrinks_def pb_read_to_def is_error_def split: prod.splits option.splits)

lemma shrinks_readbyte [shrink_intros]: "shrinks pb_readbyte"
  by (auto simp: shrinks_def pb_readbyte_def is_error_def split: prod.splits option.splits)

lemma consumes_readbyte: "consumes pb_readbyte"
  by (auto simp: consumes_def pb_readbyte_def is_error_def split: prod.splits option.splits if_splits)

lemma consumes_read_to: "0 < n \<Longrightarrow> consumes (pb_read_to n)"
  by (auto simp: consumes_def pb_read_to_def is_error_def split: prod.splits option.splits if_splits)

lemma shrinks_read_pieces [shrink_intros]: "shrinks (pb_read_pieces n)"
proof (induction n rule: pb_read_pieces.induct)
  case (1 count)
  then show ?case
    by (subst pb_read_pieces.simps) (auto intro!: shrink_intros)
qed

lemma shrinks_read_null [shrink_intros]: "shrinks (pb_read_null n :: ('s pb_istream, unit) st)"
proof -
  have "shrinks (pb_read_pieces n :: ('s pb_istream, unit) st)"
    "shrinks (st_bind (pb_read_to n) (\<lambda>_. st_return ()) :: ('s pb_istream, unit) st)"
    by (intro shrink_intros)+
  then show ?thesis unfolding shrinks_def pb_read_null_def by (auto split: in_source.splits)
qed

lemma shrinks_varint32_loop [shrink_intros]: "shrinks (varint32_loop p r)"
proof (induction p r rule: varint32_loop.induct)
  case (1 p r)
  then show ?case
    by (subst varint32_loop.simps) (auto simp: Let_def intro!: shrink_intros)
qed

lemma shrinks_varint_loop [shrink_intros]: "shrinks (varint_loop p r)"
proof (induction p r rule: varint_loop.induct)
  case (1 p r)
  then show ?case
    by (subst varint_loop.simps) (auto simp: Let_def intro!: shrink_intros)
qed

lemma shrinks_decode_varint32 [shrink_intros]: "shrinks pb_decode_varint32"
  unfolding pb_decode_varint32_def by (auto intro!: shrink_intros)

lemma consumes_decode_varint32: "consumes pb_decode_varint32"
  unfolding pb_decode_varint32_def by (rule consumes_bind [OF consumes_readbyte]) (auto intro!: shrink_intros)

lemma shrinks_decode_varint [shrink_intros]: "shrinks pb_decode_varint"
  unfolding pb_decode_varint_def by (rule shrink_intros)

lemma consumes_decode_varint: "consumes pb_decode_varint"
  unfolding pb_decode_varint_def
  by (subst varint_loop.simps) (auto simp: Let_def intro!: consumes_bind consumes_readbyte shrink_intros)

lemma shrinks_decode_scalar [shrink_intros]:
  "shrinks pb_decode_svarint" "shrinks pb_decode_fixed32" "shrinks pb_decode_fixed64"
  unfolding pb_decode_svarint_def pb_decode_fixed32_def pb_decode_fixed64_def by (auto intro!: shrink_intros)

lemma consumes_decode_scalar:
  "consumes pb_decode_svarint" "consumes pb_decode_fixed32" "consumes pb_decode_fixed64"
  unfolding pb_decode_svarint_def pb_decode_fixed32_def pb_decode_fixed64_def
  by (auto intro!: consumes_bind consumes_decode_varint consumes_read_to shrink_intros)

lemma shrinks_skip_varint [shrink_intros]: "shrinks (pb_skip_varint :: ('s pb_istream, unit) st)"
proof -
  have "is_bytes_left (snd (pb_skip_varint s)) \<le> is_bytes_left s" for s :: "'s pb_istream"
  proof (induction s rule: pb_skip_varint.induct)
    case (1 s)
    show ?case
    proof (cases "pb_read_to 1 s")
      case (Pair r t)
      have le: "is_bytes_left t \<le> is_bytes_left s"
        using shrinks_read_to [of 1] Pair unfolding shrinks_def by (metis snd_conv)
      show ?thesis
      proof (cases r)
        case None
        then show ?thesis using le Pair by (subst pb_skip_varint.simps) (simp add: st_bind_def)
      next
        case (Some bs)
        then show ?thesis using le Pair 1 [of bs t]
          by (subst pb_skip_varint.simps) (auto simp: st_bind_def)
      qed
    qed
  qed
  then show ?thesis by (simp add: shrinks_def)
qed

lemma shrinks_skip_field [shrink_intros]: "shrinks (pb_skip_field wt)"
  unfolding pb_skip_field_def pb_skip_string_def by (cases wt) (auto intro!: shrink_intros)

lemma shrinks_make_substream [shrink_intros]: "shrinks pb_make_string_substream"
  unfolding pb_make_string_substream_def
  by (rule shrinks_bind [OF shrinks_decode_varint32]) (auto simp: shrinks_def is_error_def)

lemma shrinks_close_substream [shrink_intros]: "shrinks (pb_close_string_substream sub)"
  by (auto simp: shrinks_def pb_close_string_substream_def split: prod.splits option.splits)

lemma drun_close_substream [drun_intros]: "drun a b (close_substream st sub) s"
  by (auto simp: drun_def close_substream_def pb_close_string_substream_def split: prod.splits option.splits)

lemma decode_tag_left:
  assumes "pb_decode_tag s = ((ok, wt, tag, eof), t)"
  shows "is_bytes_left t \<le> is_bytes_left s" "ok \<Longrightarrow> is_bytes_left t < is_bytes_left s"
proof -
  obtain r t' where v: "pb_decode_varint32 s = (r, t')" by (cases "pb_decode_varint32 s")
  have t: "t' = t" using assms v by (auto simp: pb_decode_tag_def split: option.splits if_splits)
  show "is_bytes_left t \<le> is_bytes_left s"
    using shrinks_decode_varint32 v t unfolding shrinks_def by (metis snd_conv)
  show "is_bytes_left t < is_bytes_left s" if ok
    using that assms v t consumes_decode_varint32 unfolding consumes_def
    by (cases r) (auto simp: pb_decode_tag_def)
qed

section \<open>Field decoders\<close>

lemma read_to_length: "pb_read_to n s = (Some bs, t) \<Longrightarrow> length bs = n"
  by (auto simp: pb_read_to_def is_error_def read_source_def fill_def split: if_splits in_source.splits prod.splits option.splits)

lemma d_read_length: "d_in (pb_read_to n) s = Some (Some bs, t) \<Longrightarrow> length bs = n"
  by (auto simp: d_in_def split: prod.splits dest: read_to_length)

lemma drun_if [drun_intros]: "(c \<Longrightarrow> drun a b m s) \<Longrightarrow> (\<not> c \<Longrightarrow> drun a b m' s) \<Longrightarrow> drun a b (if c then m else m') s"
  by simp

lemma drun_store_clamped [drun_intros]:
  assumes "a \<le> dest" "dest + int (fld_data_size f) \<le> b"
  shows "drun a b (store_clamped f dest ext val) s"
  unfolding store_clamped_def Let_def using assms by (intro drun_intros shrink_intros) auto

lemma drun_dec_scalar [drun_intros]:
  assumes "a \<le> dest" "dest + int (fld_data_size f) \<le> b"
  shows "drun a b (pb_dec_varint f dest) s" "drun a b (pb_dec_uvarint f dest) s" "drun a b (pb_dec_svarint f dest) s"
  unfolding pb_dec_varint_def pb_dec_uvarint_def pb_dec_svarint_def
  using assms by (intro drun_intros shrink_intros; simp)+

lemma drun_dec_fixed [drun_intros]:
  assumes "a \<le> dest"
  shows "dest + 4 \<le> b \<Longrightarrow> drun a b (pb_dec_fixed32 dest) s" "dest + 8 \<le> b \<Longrightarrow> drun a b (pb_dec_fixed64 dest) s"
  unfolding pb_dec_fixed32_def pb_dec_fixed64_def using assms by (intro drun_intros shrink_intros; simp)+

lemma bytes_allocsize: "PB_BYTES_ARRAY_T_ALLOCSIZE (unat (w :: u32)) = unat w + 4"
  using unsigned_less [of w, where 'a = nat] by (simp add: PB_BYTES_ARRAY_T_ALLOCSIZE_def szw_def)

lemma drun_dec_bytes [drun_intros]:
  assumes "a \<le> dest" "dest + int (fld_data_size f) \<le> b"
  shows "drun a b (pb_dec_bytes f dest) s"
  unfolding pb_dec_bytes_def Let_def bytes_allocsize using assms
  by (intro drun_intros shrink_intros) (auto dest!: d_read_length simp del: of_nat_unat)

lemma drun_dec_string [drun_intros]:
  assumes "a \<le> dest" "dest + int (fld_data_size f) \<le> b"
  shows "drun a b (pb_dec_string f dest) s"
proof -
  have fits: "unat sz < fld_data_size f" if "\<not> unat (sz + 1) < unat sz" "\<not> fld_data_size f < unat (sz + 1)" for sz :: u32
  proof -
    have "sz + 1 \<noteq> 0"
    proof
      assume z: "sz + 1 = 0"
      then have "sz = 0" using that(1) by (simp add: unat_eq_zero)
      then show False using z by simp
    qed
    then have "unat (sz + 1) = unat sz + 1" using unatSuc [of sz] by (simp add: add.commute)
    then show ?thesis using that(2) by simp
  qed
  have rd: "drun a b (\<lambda>s. case pb_read_to (unat sz) (ds_in s) of
      (r, t) \<Rightarrow>
        let mem = (case r of None \<Rightarrow> ds_mem s | Some bs \<Rightarrow> wr (ds_mem s) dest bs) in
        Some (map_option (\<lambda>_. ()) r, s\<lparr>ds_in := t, ds_mem := wr mem (dest + int (unat sz)) [0]\<rparr>)) s"
    if "unat sz < fld_data_size f" for sz :: u32 and s :: "'a dstate"
  proof (cases "pb_read_to (unat sz) (ds_in s)")
    case (Pair r t)
    have "is_bytes_left t \<le> left s" using shrinks_read_to [of "unat sz"] Pair unfolding shrinks_def by (metis snd_conv)
    then show ?thesis using Pair that assms
      by (auto simp: drun_def wr_def Let_def dest!: read_to_length split: option.splits simp del: of_nat_unat)
  qed
  show ?thesis unfolding pb_dec_string_def Let_def
    by (intro drun_intros shrink_intros rd [unfolded Let_def] fits) auto
qed

lemma drun_dec_fixed_length_bytes [drun_intros]:
  assumes "a \<le> dest" "dest + int (fld_data_size f) \<le> b"
  shows "drun a b (pb_dec_fixed_length_bytes f dest) s"
  unfolding pb_dec_fixed_length_bytes_def using assms
  by (intro drun_intros shrink_intros) (auto dest!: d_read_length)

text \<open>A packable decoder that succeeds has used up input.\<close>

definition eats :: "('s dstate, 'a) pst \<Rightarrow> bool" where
  "eats m \<longleftrightarrow> (\<forall>s x t. m s = Some (Some x, t) \<longrightarrow> left t < left s)"

lemma eats_bind:
  assumes "consumes m" "\<And>x s r t. f x s = Some (r, t) \<Longrightarrow> left t \<le> left s"
  shows "eats (p_bind (d_in m) f)"
  unfolding eats_def
proof (intro allI impI)
  fix s x t
  assume "p_bind (d_in m) f s = Some (Some x, t)"
  then obtain y u where "m (ds_in s) = (Some y, u)" "f y (s\<lparr>ds_in := u\<rparr>) = Some (Some x, t)"
    by (auto simp: p_bind_def d_in_def split: prod.splits option.splits)
  then show "left t < left s" using assms unfolding consumes_def by fastforce
qed

lemma store_clamped_left: "store_clamped f dest ext val s = Some (r, t) \<Longrightarrow> left t \<le> left s"
  by (auto simp: store_clamped_def Let_def p_bind_def d_store_def d_return_def p_lift_def st_return_def d_in_def is_error_def
      split: if_splits)

lemma d_store_left: "d_store p bs s = Some (r, t) \<Longrightarrow> left t \<le> left s"
  by (auto simp: d_store_def)

lemma packable_cases:
  assumes "lt \<le> PB_LTYPE_LAST_PACKABLE"
  obtains "lt = PB_LTYPE_VARINT" | "lt = PB_LTYPE_UVARINT" | "lt = PB_LTYPE_SVARINT" | "lt = PB_LTYPE_FIXED32"
    | "lt = PB_LTYPE_FIXED64"
proof -
  have "unat lt \<le> 4" using assms by (simp add: pb_type_defs word_le_nat_alt)
  then have "unat lt = 0 \<or> unat lt = 1 \<or> unat lt = 2 \<or> unat lt = 3 \<or> unat lt = 4" by auto
  then show ?thesis using that by (auto simp: pb_type_defs word_unat_eq_iff)
qed

lemma packable_eats:
  assumes "lt \<le> PB_LTYPE_LAST_PACKABLE"
  shows "eats (PB_DECODERS env dec lt f dest)"
  using assms
  by (rule packable_cases)
     (auto simp: PB_DECODERS_def pb_type_defs pb_dec_varint_def pb_dec_uvarint_def pb_dec_svarint_def pb_dec_fixed32_def
        pb_dec_fixed64_def intro!: eats_bind consumes_decode_varint consumes_decode_scalar
        elim!: store_clamped_left d_store_left)

section \<open>Descriptors that fit their structure\<close>

text \<open>\<open>sub m n\<close>: the message type \<open>m\<close> fits \<open>n\<close> bytes.  The field has its data at \<open>d\<close> and its count or flag at \<open>z\<close>
  in a structure of \<open>sz\<close> bytes.  Callback fields and extensions run code of the user and are left out.\<close>

definition ltype_fits :: "(nat \<Rightarrow> nat \<Rightarrow> bool) \<Rightarrow> pb_field \<Rightarrow> bool" where
  "ltype_fits sub f =
     (let lt = PB_LTYPE (fld_type f) in
      lt < 10 \<and> lt \<noteq> PB_LTYPE_EXTENSION \<and> (lt = PB_LTYPE_FIXED32 \<longrightarrow> 4 \<le> fld_data_size f)
      \<and> (lt = PB_LTYPE_FIXED64 \<longrightarrow> 8 \<le> fld_data_size f)
      \<and> (case fld_ptr f of
           PtrNull \<Rightarrow> lt \<noteq> PB_LTYPE_SUBMESSAGE
         | PtrDefault bs \<Rightarrow> lt \<noteq> PB_LTYPE_SUBMESSAGE \<and> fld_data_size f \<le> length bs
         | PtrFields m \<Rightarrow> lt = PB_LTYPE_SUBMESSAGE \<and> sub m (fld_data_size f)))"

definition field_fits :: "(nat \<Rightarrow> nat \<Rightarrow> bool) \<Rightarrow> nat \<Rightarrow> pb_field \<Rightarrow> int \<Rightarrow> int \<Rightarrow> bool" where
  "field_fits sub sz f d z =
     (let ht = PB_HTYPE (fld_type f); at = PB_ATYPE (fld_type f) in
      0 \<le> d \<and> d + int (prev_size f) \<le> int sz
      \<and> (at = PB_ATYPE_STATIC \<and> ltype_fits sub f \<or> at = PB_ATYPE_POINTER \<and> PB_LTYPE (fld_type f) \<noteq> PB_LTYPE_EXTENSION)
      \<and> (ht = PB_HTYPE_OPTIONAL \<longrightarrow> z = d \<or> 0 \<le> z \<and> z < int sz)
      \<and> (ht = PB_HTYPE_REPEATED \<or> ht = PB_HTYPE_ONEOF \<longrightarrow> 0 \<le> z \<and> z + 4 \<le> int sz))"

definition required_count :: "pb_field list \<Rightarrow> nat" where
  "required_count flds = length (filter is_required (take (num_fields flds) flds))"

definition required_ok :: "pb_field list \<Rightarrow> bool" where
  "required_ok flds \<longleftrightarrow> required_count flds < 64 \<and> required_count flds \<noteq> 32"

text \<open>A message type fits \<open>sz\<close> bytes, with submessages nested less than \<open>n\<close> deep.  The terminator matters in
  an empty message, where the iterator stands on it.\<close>

primrec msg_fits :: "nat \<Rightarrow> (nat \<Rightarrow> pb_field list) \<Rightarrow> pb_field list \<Rightarrow> nat \<Rightarrow> bool" where
  "msg_fits 0 msgs flds sz = False"
| "msg_fits (Suc n) msgs flds sz =
     (msg_ok flds \<and> required_ok flds
      \<and> (\<forall>i < num_fields flds.
           field_fits (\<lambda>m. msg_fits n msgs (msgs m)) sz (flds ! i) (fst (layout flds i)) (snd (layout flds i)))
      \<and> fld_type (last flds) = 0 \<and> fld_data_size (last flds) = 0)"

section \<open>Fields\<close>

lemma decoder_ltype_cases:
  assumes "(lt :: u8) < 10" "lt \<noteq> PB_LTYPE_EXTENSION"
  obtains "lt = PB_LTYPE_VARINT" | "lt = PB_LTYPE_UVARINT" | "lt = PB_LTYPE_SVARINT" | "lt = PB_LTYPE_FIXED32"
    | "lt = PB_LTYPE_FIXED64" | "lt = PB_LTYPE_BYTES" | "lt = PB_LTYPE_STRING" | "lt = PB_LTYPE_SUBMESSAGE"
    | "lt = PB_LTYPE_FIXED_LENGTH_BYTES"
proof -
  have "unat lt < 10" "unat lt \<noteq> 8" using assms by (simp_all add: pb_type_defs word_less_nat_alt word_unat_eq_iff)
  then have "unat lt \<in> {0, 1, 2, 3, 4, 5, 6, 7, 9}" by auto
  then show ?thesis using that by (auto simp: pb_type_defs word_unat_eq_iff)
qed

text \<open>The message decoder that fields are decoded with stays inside of the submessages.\<close>

definition sub_runs :: "(nat \<Rightarrow> nat \<Rightarrow> bool) \<Rightarrow> 's dec_env \<Rightarrow> 's msg_decoder \<Rightarrow> bool" where
  "sub_runs sub env dec \<longleftrightarrow>
     (\<forall>m k init dest s. sub m k \<longrightarrow> drun dest (dest + int k) (dec init (denv_msgs env m) dest) s)"

lemma drun_dec_submessage:
  assumes "sub_runs sub env dec" "fld_ptr f = PtrFields m" "sub m (fld_data_size f)"
    "a \<le> dest" "dest + int (fld_data_size f) \<le> b"
  shows "drun a b (pb_dec_submessage env dec f dest) s"
proof -
  have "drun dest (dest + int (fld_data_size f)) (dec init (denv_msgs env m) dest) s" for init s
    using assms(1,3) unfolding sub_runs_def by blast
  then have d: "drun a b (dec init (denv_msgs env m) dest) s" for init s by (rule drun_mono) (use assms in auto)
  show ?thesis unfolding pb_dec_submessage_def assms(2) by (auto intro!: drun_intros shrink_intros d)
qed

lemma decoders_simps:
  "PB_DECODERS env dec PB_LTYPE_VARINT f dest = pb_dec_varint f dest"
  "PB_DECODERS env dec PB_LTYPE_UVARINT f dest = pb_dec_uvarint f dest"
  "PB_DECODERS env dec PB_LTYPE_SVARINT f dest = pb_dec_svarint f dest"
  "PB_DECODERS env dec PB_LTYPE_FIXED32 f dest = pb_dec_fixed32 dest"
  "PB_DECODERS env dec PB_LTYPE_FIXED64 f dest = pb_dec_fixed64 dest"
  "PB_DECODERS env dec PB_LTYPE_BYTES f dest = pb_dec_bytes f dest"
  "PB_DECODERS env dec PB_LTYPE_STRING f dest = pb_dec_string f dest"
  "PB_DECODERS env dec PB_LTYPE_SUBMESSAGE f dest = pb_dec_submessage env dec f dest"
  "PB_DECODERS env dec PB_LTYPE_FIXED_LENGTH_BYTES f dest = pb_dec_fixed_length_bytes f dest"
  by (simp_all add: PB_DECODERS_def pb_type_defs)

lemma drun_decoders:
  assumes "sub_runs sub env dec" "ltype_fits sub f" "a \<le> dest" "dest + int (fld_data_size f) \<le> b"
  shows "drun a b (PB_DECODERS env dec (PB_LTYPE (fld_type f)) f dest) s"
proof -
  let ?lt = "PB_LTYPE (fld_type f)"
  have w: "?lt < 10" "?lt \<noteq> PB_LTYPE_EXTENSION" "?lt = PB_LTYPE_FIXED32 \<Longrightarrow> 4 \<le> fld_data_size f"
    "?lt = PB_LTYPE_FIXED64 \<Longrightarrow> 8 \<le> fld_data_size f" using assms(2) by (simp_all add: ltype_fits_def Let_def)
  have sm: "\<exists>m. fld_ptr f = PtrFields m \<and> sub m (fld_data_size f)" if "?lt = PB_LTYPE_SUBMESSAGE"
    using assms(2) that by (auto simp: ltype_fits_def Let_def split: pb_ptr.splits)
  note c = drun_dec_scalar [OF assms(3,4)] drun_dec_bytes [OF assms(3,4)] drun_dec_string [OF assms(3,4)]
    drun_dec_fixed_length_bytes [OF assms(3,4)] drun_dec_fixed [OF assms(3)]
  show ?thesis
  proof (rule decoder_ltype_cases [OF w(1,2)])
    assume lt: "?lt = PB_LTYPE_SUBMESSAGE"
    then obtain m where "fld_ptr f = PtrFields m" "sub m (fld_data_size f)" using sm by blast
    then show ?thesis using drun_dec_submessage [OF assms(1) _ _ assms(3,4), of m s] lt by (simp add: decoders_simps)
  next
    assume lt: "?lt = PB_LTYPE_FIXED32"
    then have "dest + 4 \<le> b" using w(3) assms(4) by simp
    then show ?thesis using lt c(7) by (simp add: decoders_simps)
  next
    assume lt: "?lt = PB_LTYPE_FIXED64"
    then have "dest + 8 \<le> b" using w(4) assms(4) by simp
    then show ?thesis using lt c(8) by (simp add: decoders_simps)
  qed (simp_all add: decoders_simps c(1-6))
qed

lemma drun_packed_loop:
  assumes func: "\<And>i (s :: 'a dstate). i < fld_array_size (cur iter) \<Longrightarrow>
      drun a b (func (cur iter) (iter_pData iter + int (fld_data_size (cur iter) * i))) s"
    and eat: "\<And>p. eats (func (cur iter) p)" and z: "a \<le> iter_pSize iter" "iter_pSize iter + 4 \<le> b"
  shows "left (s :: 'a dstate) < k \<Longrightarrow> drun a b (packed_loop func iter k) s"
proof (induction k arbitrary: s)
  case (Suc k)
  let ?sz = "rd_size (ds_mem s) (iter_pSize iter)" let ?f = "cur iter"
  show ?case
  proof (cases "left s > 0 \<and> ?sz < fld_array_size ?f")
    case True
    let ?m = "p_bind (func ?f (iter_pData iter + int (fld_data_size ?f * ?sz)))
        (\<lambda>_. p_bind (d_load (\<lambda>mem. rd_size mem (iter_pSize iter)))
           (\<lambda>sz. p_bind (d_store (iter_pSize iter) (le_bytes 4 (sz + 1))) (\<lambda>_. packed_loop func iter k)))"
    have "drun a b ?m s"
    proof (intro drun_bind func drun_load drun_store)
      fix u t n t1 v and t2 :: "'a dstate"
      assume "func ?f (iter_pData iter + int (fld_data_size ?f * ?sz)) s = Some (Some u, t)" "left t1 \<le> left t" "left t2 \<le> left t1"
      then have "left t2 < k" using eat Suc.prems unfolding eats_def by fastforce
      then show "drun a b (packed_loop func iter k) t2" by (rule Suc.IH)
    qed (use True z in auto)
    then show ?thesis using True by (simp add: drun_def Let_def)
  next
    case False
    then have "packed_loop func iter (Suc k) s = Some (Some (), s)" by auto
    then show ?thesis by (simp add: drun_def del: packed_loop.simps)
  qed
qed simp

section \<open>Default values\<close>

definition mrun :: "int \<Rightarrow> int \<Rightarrow> (memory \<Rightarrow> memory option) \<Rightarrow> memory \<Rightarrow> bool" where
  "mrun a b m mem \<longleftrightarrow> (\<exists>mem'. m mem = Some mem' \<and> (\<forall>x. x < a \<or> b \<le> x \<longrightarrow> mem' x = mem x))"

lemma mrunD: "mrun a b m mem \<Longrightarrow> \<exists>mem'. m mem = Some mem' \<and> (\<forall>x. x < a \<or> b \<le> x \<longrightarrow> mem' x = mem x)"
  by (simp add: mrun_def)

text \<open>The frame of \<open>wr\<close>, and of what runs after it.\<close>

lemma wr_outside: "a \<le> p \<Longrightarrow> p + int (length bs) \<le> b \<Longrightarrow> x < a \<or> b \<le> x \<Longrightarrow> wr mem p bs x = mem x"
  by (auto simp: wr_def)

text \<open>A field of a structure at \<open>dest\<close>, by the iterator that stands on it.\<close>

definition iter_fits :: "(nat \<Rightarrow> nat \<Rightarrow> bool) \<Rightarrow> nat \<Rightarrow> int \<Rightarrow> pb_field_iter \<Rightarrow> bool" where
  "iter_fits sub sz dest iter \<longleftrightarrow> field_fits sub sz (cur iter) (iter_pData iter - dest) (iter_pSize iter - dest)"

lemma iter_at_fits:
  "field_fits sub sz (flds ! i) (fst (layout flds i)) (snd (layout flds i)) \<Longrightarrow> iter_fits sub sz dest (iter_at flds dest i)"
  by (simp add: iter_fits_def) (simp add: iter_at_def)

lemma iter_fitsD:
  assumes "iter_fits sub sz dest iter"
  shows "dest \<le> iter_pData iter" "iter_pData iter + int (prev_size (cur iter)) \<le> dest + int sz"
    "PB_LTYPE (fld_type (cur iter)) \<noteq> PB_LTYPE_EXTENSION"
    "PB_ATYPE (fld_type (cur iter)) = PB_ATYPE_STATIC \<and> ltype_fits sub (cur iter)
      \<or> PB_ATYPE (fld_type (cur iter)) = PB_ATYPE_POINTER"
    "PB_HTYPE (fld_type (cur iter)) = PB_HTYPE_OPTIONAL \<Longrightarrow> iter_pSize iter = iter_pData iter
      \<or> dest \<le> iter_pSize iter \<and> iter_pSize iter + 1 \<le> dest + int sz"
    "PB_HTYPE (fld_type (cur iter)) = PB_HTYPE_REPEATED \<or> PB_HTYPE (fld_type (cur iter)) = PB_HTYPE_ONEOF
      \<Longrightarrow> dest \<le> iter_pSize iter \<and> iter_pSize iter + 4 \<le> dest + int sz"
  using assms unfolding iter_fits_def field_fits_def Let_def ltype_fits_def by auto

lemma prev_size_static:
  "PB_ATYPE (fld_type f) = PB_ATYPE_STATIC \<Longrightarrow> PB_HTYPE (fld_type f) \<noteq> PB_HTYPE_REPEATED \<Longrightarrow> prev_size f = fld_data_size f"
  "PB_ATYPE (fld_type f) = PB_ATYPE_STATIC \<Longrightarrow> PB_HTYPE (fld_type f) = PB_HTYPE_REPEATED
    \<Longrightarrow> prev_size f = fld_data_size f * fld_array_size f"
  "PB_ATYPE (fld_type f) = PB_ATYPE_POINTER \<Longrightarrow> prev_size f = 8"
  by (auto simp: prev_size_def PB_ATYPE_STATIC_def PB_ATYPE_POINTER_def)

lemma static_default_runs:
  assumes fit: "iter_fits sub sz dest iter" and at: "PB_ATYPE (fld_type (cur iter)) = PB_ATYPE_STATIC"
    and sub: "\<And>m k p mem. sub m k \<Longrightarrow> mrun p (p + int k) (message_defaults one (denv_msgs env m) p) mem"
  shows "mrun dest (dest + int sz) (static_default env one iter) mem"
proof -
  let ?f = "cur iter" let ?ht = "PB_HTYPE (fld_type ?f)" let ?lt = "PB_LTYPE (fld_type ?f)"
  let ?mem1 = "if ?ht = PB_HTYPE_OPTIONAL \<and> iter_pSize iter \<noteq> iter_pData iter then wr mem (iter_pSize iter) [0] else mem"
  have fits: "ltype_fits sub ?f" using iter_fitsD(4) [OF fit] at by (auto simp: PB_ATYPE_STATIC_def PB_ATYPE_POINTER_def)
  show ?thesis
  proof (cases "?ht = PB_HTYPE_REPEATED \<or> ?ht = PB_HTYPE_ONEOF")
    case True
    then show ?thesis using iter_fitsD(6) [OF fit] wr_outside [of dest "iter_pSize iter" "le_bytes 4 0"]
      by (auto simp: mrun_def static_default_def Let_def)
  next
    case False
    then have ps: "prev_size ?f = fld_data_size ?f" using prev_size_static(1) at by simp
    have d: "dest \<le> iter_pData iter" "iter_pData iter + int (fld_data_size ?f) \<le> dest + int sz"
      using iter_fitsD(1,2) [OF fit] ps by simp_all
    have m1: "?mem1 x = mem x" if "x < dest \<or> dest + int sz \<le> x" for x
      using that iter_fitsD(5) [OF fit] by (auto simp: wr_def)
    have w1: "wr ?mem1 (iter_pData iter) bs x = mem x"
      if "length bs = fld_data_size ?f" "x < dest \<or> dest + int sz \<le> x" for x bs
      using that d m1 wr_outside [of dest "iter_pData iter" bs "dest + int sz" x ?mem1] by simp
    show ?thesis
    proof (cases "fld_ptr ?f")
      case PtrNull
      then have "static_default env one iter mem = Some (wr ?mem1 (iter_pData iter) (replicate (fld_data_size ?f) 0))"
        using False fits by (simp add: static_default_def Let_def ltype_fits_def)
      then show ?thesis unfolding mrun_def using w1 by simp
    next
      case (PtrDefault bs)
      then have "static_default env one iter mem = Some (wr ?mem1 (iter_pData iter) (take (fld_data_size ?f) bs))"
        "fld_data_size ?f \<le> length bs"
        using False fits by (simp_all add: static_default_def Let_def ltype_fits_def)
      then show ?thesis unfolding mrun_def using w1 by simp
    next
      case (PtrFields m)
      then have "static_default env one iter mem = message_defaults one (denv_msgs env m) (iter_pData iter) ?mem1"
        "sub m (fld_data_size ?f)"
        using False fits by (simp_all add: static_default_def Let_def ltype_fits_def)
      then show ?thesis using mrunD [OF sub [of m "fld_data_size ?f" "iter_pData iter" ?mem1]] m1 d
        unfolding mrun_def by fastforce
    qed
  qed
qed

lemma defaults_loop_runs:
  assumes one: "\<And>i mem. i < num_fields flds \<Longrightarrow> mrun a b (one (iter_at flds dest i)) mem" and ok: "msg_ok flds"
  shows "i < num_fields flds \<Longrightarrow> num_fields flds - i < k \<Longrightarrow> mrun a b (defaults_loop one k (iter_at flds dest i)) mem"
proof (induction k arbitrary: i mem)
  case (Suc k i mem)
  obtain mem1 where m1: "one (iter_at flds dest i) mem = Some mem1" "\<forall>x. x < a \<or> b \<le> x \<longrightarrow> mem1 x = mem x"
    using mrunD [OF one [OF Suc.prems(1)]] by blast
  show ?case
  proof (cases "Suc i < num_fields flds")
    case True
    then have "mrun a b (defaults_loop one k (iter_at flds dest (Suc i))) mem1" using Suc by simp
    then show ?thesis using m1 True iter_next_at [OF ok Suc.prems(1)] by (auto simp: mrun_def)
  next
    case False
    then show ?thesis using m1 iter_next_at [OF ok Suc.prems(1)] by (simp add: mrun_def)
  qed
qed simp

lemma tag_zero_iff: "msg_ok flds \<Longrightarrow> fld_tag (flds ! 0) \<noteq> 0 \<longleftrightarrow> 0 < num_fields flds"
  by (cases "num_fields flds") (auto simp: msg_ok_def num_fields_def last_conv_nth)

lemma message_defaults_runs:
  "msg_fits n (denv_msgs env) flds sz
    \<Longrightarrow> mrun dest (dest + int sz) (message_defaults (pb_field_set_to_default n env) flds dest) mem"
proof (induction n arbitrary: flds sz dest mem)
  case (Suc n flds sz dest mem)
  let ?sub = "\<lambda>m. msg_fits n (denv_msgs env) (denv_msgs env m)"
  have ok: "msg_ok flds" using Suc.prems by simp
  have one: "mrun dest (dest + int sz) (pb_field_set_to_default (Suc n) env (iter_at flds dest i)) mem"
    if "i < num_fields flds" for i mem
  proof -
    let ?it = "iter_at flds dest i"
    have fit: "iter_fits ?sub sz dest ?it" using Suc.prems that by (intro iter_at_fits) simp
    note D = iter_fitsD [OF fit]
    show ?thesis
    proof (cases "PB_ATYPE (fld_type (cur ?it)) = PB_ATYPE_STATIC")
      case True
      then show ?thesis using static_default_runs [OF fit True Suc.IH] D(3) by (simp add: mrun_def)
    next
      case False
      then have p: "PB_ATYPE (fld_type (cur ?it)) = PB_ATYPE_POINTER" using D(4) by simp
      then show ?thesis using D(1-3,6) prev_size_static(3) [OF p] by (auto simp: mrun_def Let_def wr_def PB_ATYPE_STATIC_def PB_ATYPE_POINTER_def)
    qed
  qed
  show ?case
  proof (cases "0 < num_fields flds")
    case True
    then have "mrun dest (dest + int sz) (defaults_loop (pb_field_set_to_default (Suc n) env) (length flds) (iter_at flds dest 0)) mem"
      by (intro defaults_loop_runs one ok) (auto simp: num_fields_def)
    then show ?thesis using True tag_zero_iff [OF ok] by (simp add: message_defaults_def iter_begin_at del: pb_field_set_to_default.simps)
  next
    case False
    then show ?thesis using tag_zero_iff [OF ok]
      by (simp add: message_defaults_def iter_begin_at mrun_def del: pb_field_set_to_default.simps)
  qed
qed simp

section \<open>Decoding fields\<close>

lemma htype_cases:
  obtains "PB_HTYPE t = PB_HTYPE_REQUIRED" | "PB_HTYPE t = PB_HTYPE_OPTIONAL" | "PB_HTYPE t = PB_HTYPE_REPEATED"
    | "PB_HTYPE t = PB_HTYPE_ONEOF"
proof -
  have "t AND 0x30 = (if bit t 4 then 0x10 else 0) OR (if bit t 5 then 0x20 else 0)"
  proof (rule bit_word_eqI)
    fix n assume "n < LENGTH(8)"
    then have "n \<in> {0, 1, 2, 3, 4, 5, 6, 7}" by auto
    then show "bit (t AND 0x30) n = bit ((if bit t 4 then 0x10 else 0) OR (if bit t 5 then 0x20 else (0 :: u8))) n"
      by (elim insertE) (simp_all add: bit_simps)
  qed
  then show ?thesis using that by (cases "bit t 4"; cases "bit t 5") (simp_all add: pb_type_defs)
qed

lemma drun_set_defaults:
  "mrun a b (message_defaults (pb_field_set_to_default n env) flds p) (ds_mem s)
    \<Longrightarrow> drun a b (pb_message_set_to_defaults n env flds p) s"
  by (auto simp: mrun_def drun_def pb_message_set_to_defaults_def)

text \<open>What decoding a message of nesting \<open>n\<close> relies on for its submessages.\<close>

definition subs_run :: "(nat \<Rightarrow> nat \<Rightarrow> bool) \<Rightarrow> 's dec_env \<Rightarrow> nat \<Rightarrow> 's msg_decoder \<Rightarrow> bool" where
  "subs_run sub env n dec \<longleftrightarrow> sub_runs sub env dec
     \<and> (\<forall>m k p mem. sub m k \<longrightarrow> mrun p (p + int k) (message_defaults (pb_field_set_to_default n env) (denv_msgs env m) p) mem)"

lemma drun_packed:
  assumes "subs_run sub env n dec" "iter_fits sub sz dest iter" "PB_ATYPE (fld_type (cur iter)) = PB_ATYPE_STATIC"
    "PB_HTYPE (fld_type (cur iter)) = PB_HTYPE_REPEATED" "ltype_fits sub (cur iter)"
  shows "i < fld_array_size (cur iter) \<Longrightarrow> drun dest (dest + int sz)
      (PB_DECODERS env dec (PB_LTYPE (fld_type (cur iter))) (cur iter) (iter_pData iter + int (fld_data_size (cur iter) * i))) s"
    and "PB_LTYPE (fld_type (cur iter)) \<le> PB_LTYPE_LAST_PACKABLE
      \<Longrightarrow> drun dest (dest + int sz) (decode_packed (PB_DECODERS env dec (PB_LTYPE (fld_type (cur iter)))) iter) s"
proof -
  let ?f = "cur iter"
  note D = iter_fitsD [OF assms(2)]
  have item: "drun dest (dest + int sz) (PB_DECODERS env dec (PB_LTYPE (fld_type ?f)) ?f (iter_pData iter + int (fld_data_size ?f * i))) s"
    if "i < fld_array_size ?f" for i s
  proof (rule drun_decoders [OF _ assms(5)])
    have "fld_data_size ?f * i + fld_data_size ?f \<le> fld_data_size ?f * fld_array_size ?f"
      using mult_le_mono2 [of "Suc i" "fld_array_size ?f" "fld_data_size ?f"] that by simp
    then have "int (fld_data_size ?f * i) + int (fld_data_size ?f) \<le> int (prev_size ?f)"
      using prev_size_static(2) [OF assms(3,4)] by (metis of_nat_add of_nat_le_iff)
    then show "iter_pData iter + int (fld_data_size ?f * i) + int (fld_data_size ?f) \<le> dest + int sz"
      using D(2) by linarith
  qed (use assms(1) D(1) in \<open>auto simp: subs_run_def simp del: of_nat_mult\<close>)
  then show "drun dest (dest + int sz) (PB_DECODERS env dec (PB_LTYPE (fld_type ?f)) ?f (iter_pData iter + int (fld_data_size ?f * i))) s"
    if "i < fld_array_size ?f" using that .
  show "drun dest (dest + int sz) (decode_packed (PB_DECODERS env dec (PB_LTYPE (fld_type ?f))) iter) s"
    if "PB_LTYPE (fld_type ?f) \<le> PB_LTYPE_LAST_PACKABLE"
  proof -
    have "drun dest (dest + int sz) (packed_loop (PB_DECODERS env dec (PB_LTYPE (fld_type ?f))) iter (Suc (is_bytes_left sub)))
        (s\<lparr>ds_in := sub\<rparr>)" for sub s
      using D(6) assms(4) by (intro drun_packed_loop item packable_eats [OF that]) auto
    then show ?thesis unfolding decode_packed_def by (auto intro!: drun_intros shrink_intros)
  qed
qed

lemma drun_static_field:
  assumes subs: "subs_run sub env n dec" and fit: "iter_fits sub sz dest iter"
    and at: "PB_ATYPE (fld_type (cur iter)) = PB_ATYPE_STATIC"
  shows "drun dest (dest + int sz) (decode_static_field env n dec wt iter) s"
proof -
  let ?f = "cur iter" let ?lt = "PB_LTYPE (fld_type ?f)" let ?ht = "PB_HTYPE (fld_type ?f)"
  note D = iter_fitsD [OF fit]
  have fits: "ltype_fits sub ?f" using D(4) at by (auto simp: PB_ATYPE_STATIC_def PB_ATYPE_POINTER_def)
  have one: "drun dest (dest + int sz) (PB_DECODERS env dec ?lt ?f (iter_pData iter)) s" if "?ht \<noteq> PB_HTYPE_REPEATED" for s
    using subs fits D(1,2) prev_size_static(1) [OF at that] by (intro drun_decoders) (auto simp: subs_run_def)
  show ?thesis
  proof (rule htype_cases [of "fld_type ?f"])
    assume ht: "?ht = PB_HTYPE_REQUIRED"
    then show ?thesis using one by (simp add: decode_static_field_def Let_def pb_type_defs)
  next
    assume ht: "?ht = PB_HTYPE_OPTIONAL"
    then have n: "?ht \<noteq> PB_HTYPE_REPEATED" "?ht \<noteq> PB_HTYPE_REQUIRED" by (simp_all add: pb_type_defs)
    show ?thesis unfolding decode_static_field_def Let_def using ht n D(5) one [OF n(1)]
      by (auto intro!: drun_bind drun_if drun_store drun_return)
  next
    assume ht: "?ht = PB_HTYPE_REPEATED"
    then have n: "?ht \<noteq> PB_HTYPE_OPTIONAL" "?ht \<noteq> PB_HTYPE_REQUIRED" by (simp_all add: pb_type_defs)
    show ?thesis unfolding decode_static_field_def Let_def using ht n D(6) drun_packed [OF subs fit at ht fits]
      by (auto intro!: drun_bind drun_if drun_store drun_load drun_in shrink_intros simp del: of_nat_mult)
  next
    assume ht: "?ht = PB_HTYPE_ONEOF"
    then have n: "?ht \<noteq> PB_HTYPE_OPTIONAL" "?ht \<noteq> PB_HTYPE_REQUIRED" "?ht \<noteq> PB_HTYPE_REPEATED" by (simp_all add: pb_type_defs)
    have d: "iter_pData iter + int (fld_data_size ?f) \<le> dest + int sz" using D(2) prev_size_static(1) [OF at n(3)] by simp
    have sub: "\<exists>m. fld_ptr ?f = PtrFields m \<and> sub m (fld_data_size ?f)" if "?lt = PB_LTYPE_SUBMESSAGE"
      using fits that by (auto simp: ltype_fits_def Let_def split: pb_ptr.splits)
    have def: "drun dest (dest + int sz) (case fld_ptr ?f of PtrFields m \<Rightarrow>
        pb_message_set_to_defaults n env (denv_msgs env m) (iter_pData iter) | _ \<Rightarrow> p_undef) s" if sm: "?lt = PB_LTYPE_SUBMESSAGE" for s
    proof -
      obtain m where m: "fld_ptr ?f = PtrFields m" "sub m (fld_data_size ?f)" using sub [OF sm] by blast
      then have "drun (iter_pData iter) (iter_pData iter + int (fld_data_size ?f))
          (pb_message_set_to_defaults n env (denv_msgs env m) (iter_pData iter)) s"
        using subs by (intro drun_set_defaults) (auto simp: subs_run_def)
      then show ?thesis using m(1) D(1) d drun_mono by fastforce
    qed
    show ?thesis unfolding decode_static_field_def Let_def using ht n D(1,6) d one [OF n(3)] def
      by (auto intro!: drun_bind drun_if drun_store drun_return)
  qed
qed

lemma drun_decode_field:
  assumes "subs_run sub env n dec" "iter_fits sub sz dest iter"
  shows "drun dest (dest + int sz) (decode_field env n dec wt iter) s"
proof (cases "PB_ATYPE (fld_type (cur iter)) = PB_ATYPE_STATIC")
  case True
  then show ?thesis using drun_static_field [OF assms True] by (simp add: decode_field_def Let_def)
next
  case False
  then have "PB_ATYPE (fld_type (cur iter)) = PB_ATYPE_POINTER" using iter_fitsD(4) [OF assms(2)] by simp
  then show ?thesis using drun_in [OF shrinks_error] False by (simp add: decode_field_def Let_def decode_pointer_field_def)
qed

section \<open>The iterator in the decoder\<close>

text \<open>The positions of the iterator: the fields, or the terminator of an empty message.\<close>

definition at_pos :: "pb_field list \<Rightarrow> nat \<Rightarrow> bool" where
  "at_pos flds i \<longleftrightarrow> i < num_fields flds \<or> num_fields flds = 0 \<and> i = 0"

lemma next_empty:
  assumes "msg_ok flds" "num_fields flds = 0"
  shows "pb_field_iter_next (iter_at flds dest 0) = (False, iter_at flds dest 0)"
  using tag_zero_iff [OF assms(1)] assms(2) by (simp add: pb_field_iter_next_def Let_def)

lemma iter_find_pos:
  assumes "msg_ok flds" "at_pos flds i"
  shows "\<exists>found j. pb_field_iter_find tag (iter_at flds dest i) = Some (found, iter_at flds dest j) \<and> at_pos flds j"
proof (cases "i < num_fields flds")
  case True
  then show ?thesis using find_loop_from [OF assms(1) True, of 0 tag dest]
    by (fastforce simp: pb_field_iter_find_def at_pos_def split: if_splits)
next
  case False
  then have "num_fields flds = 0" "i = 0" using assms(2) by (simp_all add: at_pos_def)
  then show ?thesis using next_empty [OF assms(1)]
    by (auto simp: pb_field_iter_find_def at_pos_def iter_find_loop.simps [of tag 0])
qed

lemma find_extension_none:
  assumes ok: "msg_ok flds" and pos: "at_pos flds i"
    and none: "\<And>j. at_pos flds j \<Longrightarrow> PB_LTYPE (fld_type (flds ! j)) \<noteq> PB_LTYPE_EXTENSION"
  shows "find_extension_field (iter_at flds dest i) = Some (False, iter_at flds dest i)"
proof (cases "i < num_fields flds")
  case True
  let ?n = "num_fields flds"
  have "find_extension_loop i (iter_at flds dest ((i + s) mod ?n)) = Some (False, iter_at flds dest i)" if "s < ?n" for s
    using that
  proof (induction "?n - s" arbitrary: s)
    case (Suc m)
    have p: "(i + s) mod ?n < ?n" using Suc.prems by simp
    have nx: "snd (pb_field_iter_next (iter_at flds dest ((i + s) mod ?n))) = iter_at flds dest ((i + Suc s) mod ?n)"
      using iter_next_cyclic [OF ok p] by (simp add: mod_Suc_eq)
    have lp: "find_extension_loop i (iter_at flds dest ((i + s) mod ?n))
      = (if (i + Suc s) mod ?n \<noteq> i then find_extension_loop i (iter_at flds dest ((i + Suc s) mod ?n))
         else Some (False, iter_at flds dest ((i + Suc s) mod ?n)))"
      using none [of "(i + s) mod ?n"] p by (subst find_extension_loop.simps) (simp add: nx at_pos_def)
    show ?case
    proof (cases "Suc s < ?n")
      case less: True
      then have "(i + Suc s) mod ?n \<noteq> i" using True by (cases "i + Suc s < ?n") (auto simp: le_mod_geq)
      then show ?thesis using Suc.hyps(1) [of "Suc s"] Suc.hyps(2) less lp by simp
    next
      case False
      then have "Suc s = ?n" using Suc.prems by simp
      then have "(i + Suc s) mod ?n = i" using True by simp
      then show ?thesis using lp by auto
    qed
  qed simp
  from this [of 0] show ?thesis using True by (simp add: find_extension_field_def)
next
  case False
  then have z: "num_fields flds = 0" "i = 0" using pos by (simp_all add: at_pos_def)
  then show ?thesis using next_empty [OF ok] none [of 0]
    by (simp add: find_extension_field_def at_pos_def find_extension_loop.simps [of 0])
qed

lemma seek_end_from:
  assumes "msg_ok flds"
  shows "i < num_fields flds \<Longrightarrow> num_fields flds - i \<le> k \<Longrightarrow> seek_end k (iter_at flds dest i)
    = Some (length (filter is_required (take (num_fields flds - 1) flds)), fld_type (flds ! (num_fields flds - 1)), iter_at flds dest 0)"
proof (induction k arbitrary: i)
  case (Suc k)
  show ?case
  proof (cases "Suc i < num_fields flds")
    case True
    then show ?thesis using Suc iter_next_at [OF assms Suc.prems(1), of dest] by simp
  next
    case False
    then have "i = num_fields flds - 1" using Suc.prems(1) by simp
    then show ?thesis using iter_next_at [OF assms Suc.prems(1), of dest] False
      by simp (simp add: iter_at_def)
  qed
qed simp

lemma check_required_fields_at:
  assumes ok: "msg_ok flds" and pos: "at_pos flds i"
  shows "check_required_fields (iter_at flds dest i) seen
    = (case required_present (required_count flds) seen of
         None \<Rightarrow> p_undef | Some True \<Rightarrow> d_return () | Some False \<Rightarrow> d_in (is_error ''missing required field''))"
proof (cases "i < num_fields flds")
  case True
  let ?n = "num_fields flds"
  have "?n = Suc (?n - 1)" "?n - 1 < length flds" using True by (simp_all add: num_fields_def)
  then have tk: "take ?n flds = take (?n - 1) flds @ [flds ! (?n - 1)]" by (metis take_Suc_conv_app_nth)
  have tg: "fld_tag (flds ! 0) \<noteq> 0" using True ok by (simp add: msg_ok_def)
  have "?n - i \<le> length flds" by (simp add: num_fields_def)
  then show ?thesis using seek_end_from [OF ok True, of "length flds" dest] tg
    by (simp add: check_required_fields_def Let_def required_count_def tk is_required_def)
next
  case False
  then have z: "num_fields flds = 0" "i = 0" using pos by (simp_all add: at_pos_def)
  then have "fld_tag (flds ! 0) = 0" using tag_zero_iff [OF ok] by simp
  moreover have "0 < length flds" using ok by (simp add: msg_ok_def)
  then obtain k where "length flds = Suc k" by (cases "length flds") auto
  ultimately show ?thesis using next_empty [OF ok z(1)] z
    by (simp add: check_required_fields_def required_count_def) (simp add: iter_at_def)
qed

lemma required_present_defined:
  assumes "c < 64" "c \<noteq> 32" "length seen = 2"
  shows "\<exists>r. required_present c seen = Some r"
proof -
  have "c div 32 = 0 \<or> c div 32 = 1" using assms(1) by auto
  moreover have "c mod 32 \<noteq> 0" if "c \<noteq> 0" using assms(1,2) that by presburger
  ultimately show ?thesis using assms(3) by (auto simp: required_present_def)
qed

section \<open>Messages\<close>

lemma decode_tag_small:
  assumes "pb_decode_tag s = ((True, wt, tag, eof), t)"
  shows "tag < - 1"
proof -
  obtain temp where "tag = drop_bit 3 temp" using assms
    by (auto simp: pb_decode_tag_def split: prod.splits option.splits if_splits)
  then have "unat tag = unat temp div 2 ^ 3" by (metis unat_drop_bit_eq drop_bit_eq_div)
  moreover have "unat temp < 2 ^ 32" using unsigned_less [of temp, where 'a = nat] by simp
  ultimately have "unat tag < 2 ^ 29" by (simp add: less_mult_imp_div_less)
  then show ?thesis by (simp add: word_less_nat_alt unsigned_minus_1_eq_mask mask_eq_exp_minus_1)
qed

text \<open>A message type with all its fields in the structure; the terminator as \<open>PB_LAST_FIELD\<close> has it.\<close>

definition type_fits :: "(nat \<Rightarrow> nat \<Rightarrow> bool) \<Rightarrow> nat \<Rightarrow> pb_field list \<Rightarrow> bool" where
  "type_fits sub sz flds \<longleftrightarrow> msg_ok flds \<and> required_ok flds
     \<and> (\<forall>i < num_fields flds. field_fits sub sz (flds ! i) (fst (layout flds i)) (snd (layout flds i)))
     \<and> fld_type (last flds) = 0 \<and> fld_data_size (last flds) = 0"

lemma type_fits_empty:
  assumes "type_fits sub sz flds" "num_fields flds = 0"
  shows "fld_type (flds ! 0) = 0" "fld_data_size (flds ! 0) = 0"
  using assms unfolding type_fits_def msg_ok_def num_fields_def
  by (cases flds; simp)+

lemma type_fits_no_extension:
  assumes "type_fits sub sz flds" "at_pos flds i"
  shows "PB_LTYPE (fld_type (flds ! i)) \<noteq> PB_LTYPE_EXTENSION"
proof (cases "i < num_fields flds")
  case True
  then show ?thesis using assms iter_fitsD(3) [OF iter_at_fits [of sub sz flds i]] by (simp add: type_fits_def)
next
  case False
  then show ?thesis using assms(2) type_fits_empty(1) [OF assms(1)] by (simp add: at_pos_def pb_type_defs)
qed

lemma drun_field_at:
  assumes "type_fits sub sz flds" "at_pos flds i" "subs_run sub env n dec"
  shows "drun dest (dest + int sz) (decode_field env n dec wt (iter_at flds dest i)) s"
proof (cases "i < num_fields flds")
  case True
  then show ?thesis using assms by (intro drun_decode_field [OF assms(3)] iter_at_fits) (simp add: type_fits_def)
next
  case False
  then have z: "num_fields flds = 0" "i = 0" using assms(2) by (simp_all add: at_pos_def)
  have lt: "PB_LTYPE (fld_type (flds ! 0)) = PB_LTYPE_VARINT" using type_fits_empty [OF assms(1) z(1)] by (simp add: pb_type_defs)
  have "drun dest (dest + int sz) (pb_dec_varint (flds ! 0) p) s" for p
    unfolding pb_dec_varint_def store_clamped_def Let_def type_fits_empty(2) [OF assms(1) z(1)]
    by (auto intro!: drun_bind drun_in shrink_intros)
  then show ?thesis using type_fits_empty(1) [OF assms(1) z(1)] lt z
    by (simp add: decode_field_def decode_static_field_def Let_def decoders_simps) (simp add: pb_type_defs)
qed

lemma drun_check_required:
  assumes "type_fits sub sz flds" "at_pos flds i" "length seen = 2"
  shows "drun a b (check_required_fields (iter_at flds dest i) seen) s"
proof -
  have ok: "msg_ok flds" "required_count flds < 64" "required_count flds \<noteq> 32"
    using assms(1) by (simp_all add: type_fits_def required_ok_def)
  obtain r where "required_present (required_count flds) seen = Some r"
    using required_present_defined [OF ok(2,3) assms(3)] by blast
  then show ?thesis unfolding check_required_fields_at [OF ok(1) assms(2)]
    by (cases r) (auto intro: drun_return drun_in shrinks_error)
qed

lemma drun_unknown:
  assumes "type_fits sub sz flds" "at_pos flds i" "tag < - 1"
  shows "drun a b (decode_unknown env n dec tag wt (iter_at flds dest i) ext_start) s"
    and "decode_unknown env n dec tag wt (iter_at flds dest i) ext_start s = Some (Some (it, st), t) \<Longrightarrow> it = iter_at flds dest i"
proof -
  have fe: "find_extension_field (iter_at flds dest i) = Some (False, iter_at flds dest i)"
    using assms(1,2) type_fits_no_extension [OF assms(1)] by (intro find_extension_none) (auto simp: type_fits_def)
  have "\<not> - 1 \<le> tag" using assms(3) by simp
  then have eq: "decode_unknown env n dec tag wt (iter_at flds dest i) ext_start
    = p_bind (d_in (pb_skip_field wt)) (\<lambda>_. d_return (iter_at flds dest i, if ext_start \<le> tag then - 1 else ext_start))"
    unfolding decode_unknown_def Let_def fe by auto
  show "drun a b (decode_unknown env n dec tag wt (iter_at flds dest i) ext_start) s"
    unfolding eq by (intro drun_bind drun_in drun_return shrink_intros)
  show "it = iter_at flds dest i"
    if "decode_unknown env n dec tag wt (iter_at flds dest i) ext_start s = Some (Some (it, st), t)"
    using that unfolding eq
    by (auto simp: p_bind_def d_in_def d_return_def p_lift_def st_return_def split: prod.splits option.splits)
qed

lemma drun_after_tag:
  assumes "drun a b m (s\<lparr>ds_in := t\<rparr>)" "is_bytes_left t \<le> left s"
  shows "\<exists>r u. m (s\<lparr>ds_in := t\<rparr>) = Some (r, u) \<and> left u \<le> left s \<and> (\<forall>x. x < a \<or> b \<le> x \<longrightarrow> ds_mem u x = ds_mem s x)"
  using assms unfolding drun_def by fastforce

lemma drun_decode_loop:
  assumes fit: "type_fits sub sz flds" and subs: "subs_run sub env n dec"
  shows "left s < k \<Longrightarrow> at_pos flds i \<Longrightarrow> length seen = 2
    \<Longrightarrow> drun dest (dest + int sz) (decode_loop env n dec k (iter_at flds dest i) seen ext_start) s"
proof (induction k arbitrary: s i seen ext_start)
  case (Suc k s i seen ext_start)
  let ?run = "drun dest (dest + int sz)" let ?it = "iter_at flds dest i"
  have ok: "msg_ok flds" using fit by (simp add: type_fits_def)
  note chk = drun_check_required [OF fit Suc.prems(2,3)]
  show ?case
  proof (cases "left s = 0")
    case True
    then show ?thesis by (intro drun_cong [OF chk]) simp
  next
    case False
    obtain okt wt tag eof t where tg: "pb_decode_tag (ds_in s) = ((okt, wt, tag, eof), t)"
      by (metis surj_pair)
    note lt = decode_tag_left [OF tg]
    show ?thesis
    proof (cases okt)
      case no: False
      then show ?thesis using False tg lt(1) drun_after_tag [OF chk lt(1)] by (cases eof) (auto simp: drun_def)
    next
      case yes: True
      obtain found j where fd: "pb_field_iter_find tag ?it = Some (found, iter_at flds dest j)" "at_pos flds j"
        using iter_find_pos [OF ok Suc.prems(2)] by blast
      have small: "tag < - 1" using tg yes by (intro decode_tag_small [of "ds_in s" wt tag eof t]) simp
      have ltk: "left u < k" if "left u \<le> is_bytes_left t" for u :: "'a dstate" using that lt(2) [OF yes] Suc.prems(1) by simp
      let ?m = "if found
        then p_bind (decode_field env n dec wt (iter_at flds dest j))
               (\<lambda>_. decode_loop env n dec k (iter_at flds dest j) (mark_seen (iter_at flds dest j) seen) ext_start)
        else p_bind (decode_unknown env n dec tag wt (iter_at flds dest j) ext_start)
               (\<lambda>(iter'', start). decode_loop env n dec k iter'' seen start)"
      have "?run ?m (s\<lparr>ds_in := t\<rparr>)"
      proof (rule drun_if)
        show "?run (p_bind (decode_field env n dec wt (iter_at flds dest j))
            (\<lambda>_. decode_loop env n dec k (iter_at flds dest j) (mark_seen (iter_at flds dest j) seen) ext_start)) (s\<lparr>ds_in := t\<rparr>)"
          using ltk fd(2) Suc.prems(3) by (intro drun_bind drun_field_at [OF fit fd(2) subs] Suc.IH) (auto simp: mark_seen_def Let_def)
        show "?run (p_bind (decode_unknown env n dec tag wt (iter_at flds dest j) ext_start)
            (\<lambda>(iter'', start). decode_loop env n dec k iter'' seen start)) (s\<lparr>ds_in := t\<rparr>)"
          using ltk fd(2) Suc.prems(3)
          by (intro drun_bind drun_unknown(1) [OF fit fd(2) small]) (auto intro!: Suc.IH dest: drun_unknown(2) [OF fit fd(2) small])
      qed
      from drun_after_tag [OF this lt(1)] show ?thesis using False tg yes fd(1) by (cases found) (simp_all add: drun_def)
    qed
  qed
qed simp

lemma msg_fits_type: "msg_fits (Suc n) msgs flds sz \<longleftrightarrow> type_fits (\<lambda>m. msg_fits n msgs (msgs m)) sz flds"
  by (simp add: type_fits_def)

lemma noinit_runs:
  "msg_fits n (denv_msgs env) flds sz \<Longrightarrow> drun dest (dest + int sz) (pb_decode_noinit n env flds dest) s"
proof (induction n arbitrary: flds sz dest s)
  case (Suc n flds sz dest s)
  let ?sub = "\<lambda>m. msg_fits n (denv_msgs env) (denv_msgs env m)"
  let ?dec = "decode_init n env (pb_decode_noinit n env)"
  have fit: "type_fits ?sub sz flds" using Suc.prems msg_fits_type by blast
  have "sub_runs ?sub env ?dec"
    unfolding sub_runs_def decode_init_def
    by (auto intro!: drun_if drun_bind drun_set_defaults message_defaults_runs Suc.IH)
  then have subs: "subs_run ?sub env n ?dec" by (simp add: subs_run_def message_defaults_runs)
  have "at_pos flds 0" by (auto simp: at_pos_def)
  then have "drun dest (dest + int sz)
      (decode_loop env n ?dec (Suc (left s)) (iter_at flds dest 0) [0, 0] 0) s"
    by (intro drun_decode_loop [OF fit subs]) simp_all
  then show ?case by (simp add: drun_def iter_begin_at del: decode_loop.simps)
qed simp

text \<open>C32. On any input, from a buffer or from a stream of the user, decoding a message whose descriptors fit a
  structure of \<open>sz\<close> bytes, without callback or extension fields, with fewer than 64 and not exactly 32 required fields
  (\<open>required_ok\<close>), and whose submessages are of this kind too and nested less than \<open>n\<close> deep has a defined result: the
  loops end, with success or with an error, no array of the decoder is accessed out of its bounds, and
  every byte that changes is one of the \<open>sz\<close> bytes from \<open>dest\<close> on.\<close>

theorem pb_decode_safe:
  assumes "msg_fits n (denv_msgs env) flds sz"
  shows "\<exists>r t. pb_decode n env flds dest s = Some (r, t) \<and> is_bytes_left (ds_in t) \<le> is_bytes_left (ds_in s)
    \<and> (\<forall>x. x < dest \<or> dest + int sz \<le> x \<longrightarrow> ds_mem t x = ds_mem s x)"
proof -
  have "drun dest (dest + int sz) (pb_decode n env flds dest) s"
    unfolding pb_decode_def using assms by (intro drun_bind drun_set_defaults message_defaults_runs noinit_runs)
  then show ?thesis by (simp add: drun_def)
qed

text \<open>A message with an optional submessage of the type \<open>demo_fields\<close>.\<close>

definition nest_fields :: "pb_field list" where
  "nest_fields =
     [\<lparr>fld_tag = 2, fld_type = 0x17, fld_data_offset = 8, fld_size_offset = - 8, fld_data_size = 24, fld_array_size = 0, fld_ptr = PtrFields 0\<rparr>,
      \<lparr>fld_tag = 0, fld_type = 0, fld_data_offset = 0, fld_size_offset = 0, fld_data_size = 0, fld_array_size = 0, fld_ptr = PtrNull\<rparr>]"

definition demo_dec_env :: "unit dec_env" where
  "demo_dec_env =
     \<lparr>denv_msgs = (\<lambda>_. demo_fields), denv_decode_cb = (\<lambda>_ _ _ s. (None, s)),
      denv_ext = (\<lambda>_. \<lparr>dext_decode = None, dext_arg = demo_fields ! 0\<rparr>)\<rparr>"

lemma demo_fields_fit: "msg_fits (Suc 0) msgs demo_fields 24"
proof -
  have l: "fst (layout demo_fields 0) = 0" "snd (layout demo_fields 0) = 0" "fst (layout demo_fields 1) = 8" "snd (layout demo_fields 1) = 4"
    by (simp_all add: demo_fields_def same_union_def prev_size_def pb_type_defs Let_def)
  have f: "field_fits sub 24 (demo_fields ! 0) 0 0" "field_fits sub 24 (demo_fields ! 1) 8 4" for sub
    by (simp_all add: field_fits_def ltype_fits_def prev_size_def demo_fields_def pb_type_defs Let_def)
  have "required_ok demo_fields"
    by (simp add: required_ok_def required_count_def demo_fields_ok(2)) (simp add: demo_fields_def is_required_def pb_type_defs numeral_2_eq_2)
  then show ?thesis using demo_fields_ok l f by (auto simp: less_2_cases_iff) (simp_all add: demo_fields_def)
qed

lemma nest_fields_fit: "msg_fits (Suc (Suc 0)) (\<lambda>_. demo_fields) nest_fields 32"
proof -
  have n: "num_fields nest_fields = 1" "msg_ok nest_fields"
    by (simp_all add: num_fields_def nest_fields_def msg_ok_def)
  have "field_fits (\<lambda>m. msg_fits (Suc 0) (\<lambda>_. demo_fields) demo_fields) 32 (nest_fields ! 0) 8 0"
    using demo_fields_fit
    by (simp add: field_fits_def ltype_fits_def prev_size_def nest_fields_def pb_type_defs Let_def del: msg_fits.simps)
  moreover have "layout nest_fields 0 = (8, 0)" "required_ok nest_fields"
    by (simp_all add: required_ok_def required_count_def n) (simp_all add: nest_fields_def is_required_def pb_type_defs)
  ultimately show ?thesis using n by (subst msg_fits.simps) (simp add: nest_fields_def del: msg_fits.simps)
qed

theorem pb_decode_safe_witness:
  "\<exists>r t. pb_decode (Suc (Suc 0)) demo_dec_env nest_fields 100
       \<lparr>ds_in = pb_istream_from_buffer [18, 4, 8, 5, 255, 255] 6, ds_mem = (\<lambda>_. 0xAA)\<rparr> = Some (r, t)
     \<and> (\<forall>x. x < 100 \<or> 132 \<le> x \<longrightarrow> ds_mem t x = 0xAA)"
  using pb_decode_safe [of "Suc (Suc 0)" demo_dec_env nest_fields 32 100
      "\<lparr>ds_in = pb_istream_from_buffer [18, 4, 8, 5, 255, 255] 6, ds_mem = (\<lambda>_. 0xAA)\<rparr>"] nest_fields_fit
  by (auto simp: demo_dec_env_def simp del: msg_fits.simps)

end
