(* ===== verification/Pb_Decode_Required.thy ===== *)
theory Pb_Decode_Required
  imports Pb_Decode_Safe
begin

text \<open>
  The check for required fields at the end of \<open>pb_decode_noinit\<close>.  The bits of the words \<open>fields_seen\<close> are a
  set of required-field indices; marking a field adds its index, and the final comparison of words
  decides whether the set is complete.  For exactly 32 required fields (and for 64 or more that were
  all seen) the comparison has no defined result.
\<close>

section \<open>Words as sets of indices\<close>

definition seen_set :: "u32 list \<Rightarrow> nat set" where
  "seen_set seen = {c. c < 64 \<and> bit (seen ! (c div 32)) (c mod 32)}"

lemma seen_set_zero: "seen_set [0, 0] = {}"
proof -
  have "c div 32 = 0 \<or> c div 32 = 1" if "c < 64" for c :: nat using that by auto
  then show ?thesis unfolding seen_set_def by fastforce
qed

lemma seen_set_or:
  assumes "length seen = 2" "i < 64"
  shows "seen_set (seen[i div 32 := seen ! (i div 32) OR push_bit (i mod 32) 1]) = insert i (seen_set seen)"
proof (rule set_eqI)
  fix c
  have two: "i div 32 < 2" using assms(2) by auto
  have eq: "c = i \<longleftrightarrow> c div 32 = i div 32 \<and> c mod 32 = i mod 32" by (metis div_mult_mod_eq)
  have b: "bit (push_bit (i mod 32) 1 :: u32) (c mod 32) \<longleftrightarrow> c mod 32 = i mod 32"
    by (auto simp: bit_exp_iff)
  show "c \<in> seen_set (seen[i div 32 := seen ! (i div 32) OR push_bit (i mod 32) 1]) \<longleftrightarrow> c \<in> insert i (seen_set seen)"
    using assms two eq b by (auto simp: seen_set_def nth_list_update bit_or_iff)
qed

lemma word_mask_iff:
  assumes "m < 32"
  shows "(w :: u32) = drop_bit (32 - m) (- 1) \<longleftrightarrow> (\<forall>n < 32. bit w n \<longleftrightarrow> n < m)"
proof -
  have "bit (drop_bit (32 - m) (- 1) :: u32) n \<longleftrightarrow> n < m" if "n < 32" for n
    using that assms by (auto simp: bit_mask_iff)
  then show ?thesis by (auto simp: bit_eq_iff dest: bit_imp_le_length intro!: bit_word_eqI)
qed

lemma word_full_iff: "(w :: u32) = - 1 \<longleftrightarrow> (\<forall>n < 32. bit w n)"
  by (auto simp: bit_minus_1_iff intro!: bit_word_eqI)

lemma required_present_iff:
  assumes len: "length seen = 2" and c: "c < 64" "c \<noteq> 32" and sub: "seen_set seen \<subseteq> {..<c}"
  shows "required_present c seen = Some (seen_set seen = {..<c})"
proof -
  have lo: "k \<in> seen_set seen \<longleftrightarrow> bit (seen ! 0) k" if "k < 32" for k using that by (simp add: seen_set_def)
  have hi: "k + 32 \<in> seen_set seen \<longleftrightarrow> bit (seen ! 1) k" if "k < 32" for k
    using that by (simp add: seen_set_def div_add_self2)
  consider "c = 0" | "0 < c" "c < 32" | "32 < c" using c by linarith
  then show ?thesis
  proof cases
    case 1
    then show ?thesis using sub by (simp add: required_present_def)
  next
    case 2
    have "seen ! 0 = drop_bit (32 - c) (- 1) \<longleftrightarrow> seen_set seen = {..<c}"
      unfolding word_mask_iff [OF 2(2)] using lo sub 2(2) by (auto 0 3 dest: order_less_trans)
    then show ?thesis using 2 len by (simp add: required_present_def)
  next
    case 3
    then have m: "c - 32 < 32" "c div 32 = 1" "c mod 32 = c - 32" using c(1) by (auto simp: le_mod_geq)
    have "seen ! 0 = - 1 \<and> seen ! 1 = drop_bit (32 - (c - 32)) (- 1) \<longleftrightarrow> seen_set seen = {..<c}"
      unfolding word_mask_iff [OF m(1)] word_full_iff
    proof (rule iffI)
      assume a: "(\<forall>n < 32. bit (seen ! 0) n) \<and> (\<forall>n < 32. bit (seen ! 1) n \<longleftrightarrow> n < c - 32)"
      have "k \<in> seen_set seen" if "k < c" for k
      proof (cases "k < 32")
        case False
        then have "k - 32 < 32" "k - 32 < c - 32" "k = k - 32 + 32" using that c(1) by auto
        then show ?thesis using a hi by metis
      qed (use a lo in auto)
      then show "seen_set seen = {..<c}" using sub by auto
    next
      assume e: "seen_set seen = {..<c}"
      then have "bit (seen ! 0) n" if "n < 32" for n using lo [OF that] 3 that by auto
      moreover have "bit (seen ! 1) n \<longleftrightarrow> n < c - 32" if "n < 32" for n
        using hi [OF that] e 3 by (auto simp: less_diff_conv)
      ultimately show "(\<forall>n < 32. bit (seen ! 0) n) \<and> (\<forall>n < 32. bit (seen ! 1) n \<longleftrightarrow> n < c - 32)" by blast
    qed
    then show ?thesis using m len 3 by (auto simp: required_present_def)
  qed
qed

section \<open>Indices of required fields\<close>

definition rank :: "pb_field list \<Rightarrow> nat \<Rightarrow> nat" where
  "rank flds p = length (filter is_required (take p flds))"

lemma rank_Suc: "p < length flds \<Longrightarrow> rank flds (Suc p) = rank flds p + (if is_required (flds ! p) then 1 else 0)"
  by (simp add: rank_def take_Suc_conv_app_nth)

lemma rank_image: "n \<le> length flds \<Longrightarrow> rank flds ` {p. p < n \<and> is_required (flds ! p)} = {..<rank flds n}"
proof (induction n)
  case (Suc n)
  have "{p. p < Suc n \<and> is_required (flds ! p)}
    = {p. p < n \<and> is_required (flds ! p)} \<union> (if is_required (flds ! n) then {n} else {})"
    by (auto simp: less_Suc_eq)
  then show ?case using Suc by (auto simp: image_Un rank_Suc lessThan_Suc)
qed (simp add: rank_def)

lemma rank_mono: "p \<le> q \<Longrightarrow> q \<le> length flds \<Longrightarrow> rank flds p \<le> rank flds q"
  by (induction q) (auto simp: rank_Suc le_Suc_eq)

lemma rank_inj:
  assumes "p < length flds" "q < length flds" "is_required (flds ! p)" "is_required (flds ! q)" "rank flds p = rank flds q"
  shows "p = q"
  using rank_mono [of "Suc p" q flds] rank_mono [of "Suc q" p flds] assms rank_Suc [of p flds] rank_Suc [of q flds]
  by (cases p q rule: linorder_cases) auto

lemma mark_seen_set:
  assumes "p < num_fields flds" "required_ok flds" "length seen = 2"
  shows "seen_set (mark_seen (iter_at flds dest p) seen)
    = (if is_required (flds ! p) then insert (rank flds p) (seen_set seen) else seen_set seen)"
    and "length (mark_seen (iter_at flds dest p) seen) = 2"
proof -
  have "rank flds p < 64" if "is_required (flds ! p)"
    using rank_mono [of "Suc p" "num_fields flds" flds] rank_Suc [of p flds] assms(1,2) that
    by (simp add: required_ok_def required_count_def rank_def num_fields_def)
  then show "seen_set (mark_seen (iter_at flds dest p) seen)
    = (if is_required (flds ! p) then insert (rank flds p) (seen_set seen) else seen_set seen)"
    using seen_set_or [OF assms(3), of "rank flds p"]
    by (cases "is_required (flds ! p)")
       (simp_all add: mark_seen_def Let_def is_required_def PB_MAX_REQUIRED_FIELDS_def, simp add: iter_at_def rank_def is_required_def)
  show "length (mark_seen (iter_at flds dest p) seen) = 2" using assms(3) by (simp add: mark_seen_def Let_def)
qed

lemma marks_set:
  assumes "required_ok flds"
  shows "length seen = 2 \<Longrightarrow> \<forall>p \<in> set ps. p < num_fields flds \<Longrightarrow>
    seen_set (fold (\<lambda>p. mark_seen (iter_at flds dest p)) ps seen)
      = seen_set seen \<union> rank flds ` {p \<in> set ps. is_required (flds ! p)}
    \<and> length (fold (\<lambda>p. mark_seen (iter_at flds dest p)) ps seen) = 2"
  by (induction ps arbitrary: seen) (auto simp: mark_seen_set [OF _ assms])

section \<open>The check\<close>

text \<open>C34. Let the decoder have found the fields at the positions \<open>ps\<close>, in any order and any number of times, in a
  message type with fewer than 64 required fields, but not 32 of them.  The check at the end, with the
  iterator at any field, succeeds exactly if every required field is among them and reports a missing
  required field otherwise.\<close>

theorem check_required_fields_correct:
  assumes "msg_ok flds" "required_ok flds" "\<forall>p \<in> set ps. p < num_fields flds" "i < num_fields flds"
  shows "check_required_fields (iter_at flds dest i) (fold (\<lambda>p. mark_seen (iter_at flds dest p)) ps [0, 0]) s
    = (if \<forall>p < num_fields flds. is_required (flds ! p) \<longrightarrow> p \<in> set ps then Some (Some (), s)
       else d_in (is_error ''missing required field'') s)"
proof -
  let ?seen = "fold (\<lambda>p. mark_seen (iter_at flds dest p)) ps [0, 0]" let ?n = "num_fields flds"
  have ln: "?n \<le> length flds" by (simp add: num_fields_def)
  have st: "seen_set ?seen = rank flds ` {p \<in> set ps. is_required (flds ! p)}" "length ?seen = 2"
    using marks_set [OF assms(2), of "[0, 0]" ps dest] assms(3) by (simp_all add: seen_set_zero)
  have all: "{..<required_count flds} = rank flds ` {p. p < ?n \<and> is_required (flds ! p)}"
    using rank_image [OF ln] by (simp add: required_count_def rank_def)
  have "seen_set ?seen = {..<required_count flds} \<longleftrightarrow> (\<forall>p < ?n. is_required (flds ! p) \<longrightarrow> p \<in> set ps)"
  proof
    assume eq: "seen_set ?seen = {..<required_count flds}"
    show "\<forall>p < ?n. is_required (flds ! p) \<longrightarrow> p \<in> set ps"
    proof (intro allI impI)
      fix p assume p: "p < ?n" "is_required (flds ! p)"
      then have "rank flds p \<in> rank flds ` {p \<in> set ps. is_required (flds ! p)}" using eq st(1) all by blast
      then show "p \<in> set ps" using rank_inj [of p flds] p assms(3) ln by (auto dest!: rank_inj [rotated -1])
    qed
  next
    assume "\<forall>p < ?n. is_required (flds ! p) \<longrightarrow> p \<in> set ps"
    then have "{p \<in> set ps. is_required (flds ! p)} = {p. p < ?n \<and> is_required (flds ! p)}" using assms(3) by auto
    then show "seen_set ?seen = {..<required_count flds}" using st(1) all by simp
  qed
  moreover have "seen_set ?seen \<subseteq> {..<required_count flds}" using st(1) all assms(3) by blast
  ultimately have "required_present (required_count flds) ?seen
      = Some (\<forall>p < ?n. is_required (flds ! p) \<longrightarrow> p \<in> set ps)"
    using required_present_iff [OF st(2)] assms(2) by (simp add: required_ok_def)
  moreover define Q where "Q \<longleftrightarrow> (\<forall>p < ?n. is_required (flds ! p) \<longrightarrow> p \<in> set ps)"
  ultimately have "required_present (required_count flds) ?seen = Some Q" by simp
  moreover have "at_pos flds i" using assms(4) by (simp add: at_pos_def)
  ultimately show ?thesis
    unfolding check_required_fields_at [OF assms(1) \<open>at_pos flds i\<close>] Q_def [symmetric]
    by (cases Q) (simp_all add: d_return_def p_lift_def st_return_def)
qed

theorem check_required_fields_correct_witness:
  "check_required_fields (iter_at demo_fields 100 1) (fold (\<lambda>p. mark_seen (iter_at demo_fields 100 p)) [1, 1] [0, 0])
       \<lparr>ds_in = pb_istream_from_buffer [] 0, ds_mem = (\<lambda>_. 0)\<rparr>
     = d_in (is_error ''missing required field'') (\<lparr>ds_in = pb_istream_from_buffer [] 0, ds_mem = (\<lambda>_. 0)\<rparr> :: unit dstate)"
proof -
  have "required_ok demo_fields" using demo_fields_fit by simp
  have "is_required (demo_fields ! 0)" by (simp add: demo_fields_def is_required_def pb_type_defs)
  then have "\<not> (\<forall>p < num_fields demo_fields. is_required (demo_fields ! p) \<longrightarrow> p \<in> set [1, 1])"
    using demo_fields_ok(2) by (auto intro!: exI [of _ 0])
  then show ?thesis using \<open>required_ok demo_fields\<close> demo_fields_ok
    by (intro trans [OF check_required_fields_correct if_not_P]) simp_all
qed

text \<open>With all of 32 required fields seen the comparison shifts a 32-bit word by 32.\<close>

lemma required_present_32: "required_present 32 [- 1, 0] = None" "required_present 64 [- 1, - 1] = None"
  by (simp_all add: required_present_def numeral_2_eq_2)

end
