(* ===== verification/Pb_Default.thy ===== *)
theory Pb_Default
  imports Pb_Encode
begin

text \<open>
  Two notions of the wire format of nanopb that the encoder computes by loops over the structure, stated without them: the
  text of a C string, and when a value of a proto3 message is the default value of its field, which is not sent.  The
  lemmas show that the loop of \<open>pb_enc_string\<close> measures the first and that \<open>pb_check_proto3_default_value\<close>
  (\<open>pb_encode.c\<close>) decides the second wherever the value of a field agrees with its presence flag or count; the last
  section shows what it does where they disagree.
\<close>

section \<open>Strings\<close>

definition c_string :: "memory \<Rightarrow> int \<Rightarrow> nat \<Rightarrow> u8 list" where
  "c_string mem a n = takeWhile (\<lambda>b. b \<noteq> 0) (rd mem a n)"

lemma rd_Suc: "rd mem a (Suc n) = mem a # rd mem (a + 1) n"
  unfolding rd_def by (rule nth_equalityI) (auto simp: nth_Cons ac_simps simp del: upt_Suc split: nat.split)

lemma enc_strlen_c_string: "enc_strlen mem a n 0 = length (c_string mem a n)"
proof -
  have "enc_strlen mem a n s = s + length (c_string mem (a + int s) (n - s))" if "s \<le> n" for s
    using that
  proof (induction "n - s" arbitrary: s)
    case (Suc k)
    have n: "n - s = Suc k" using Suc.hyps(2) by simp
    show ?case
    proof (cases "mem (a + int s) = 0")
      case True
      then show ?thesis unfolding n by (subst enc_strlen.simps) (simp add: c_string_def rd_Suc)
    next
      case False
      have "s < n" using n by simp
      then have "enc_strlen mem a n s = enc_strlen mem a n (Suc s)" using False by (subst enc_strlen.simps) simp
      also have "\<dots> = Suc s + length (c_string mem (a + int (Suc s)) (n - Suc s))" using Suc by simp
      also have "n - Suc s = k" using n by simp
      finally show ?thesis using False unfolding n by (simp add: c_string_def rd_Suc ac_simps)
    qed
  qed (subst enc_strlen.simps, simp add: c_string_def rd_def)
  from this [of 0] show ?thesis by simp
qed

lemma rd_c_string: "rd mem a (length (c_string mem a n)) = c_string mem a n"
proof -
  have "length (c_string mem a n) \<le> n" using length_takeWhile_le [of _ "rd mem a n"] by (simp add: c_string_def rd_def)
  then have "rd mem a (length (c_string mem a n)) = take (length (c_string mem a n)) (rd mem a n)"
    by (simp add: rd_def take_map)
  then show ?thesis by (simp add: c_string_def takeWhile_eq_take [symmetric])
qed

text \<open>The string is shorter than the array exactly if the array holds its terminator.\<close>

lemma c_string_terminated: "length (c_string mem a n) < n \<longleftrightarrow> 0 \<in> set (rd mem a n)"
proof -
  have l: "length (rd mem a n) = n" by (simp add: rd_def)
  have "length (takeWhile P xs) < length xs \<longleftrightarrow> \<not> (\<forall>x \<in> set xs. P x)" for P and xs :: "u8 list" by (induction xs) auto
  from this [of "\<lambda>b. b \<noteq> 0" "rd mem a n"] show ?thesis by (auto simp: c_string_def l)
qed

section \<open>Default values of proto3\<close>

text \<open>A value with a presence flag, a count or a tag of its union is the default if it is absent or has no elements.  The
  encoder never asks them: it judges a field of a submessage by its storage.  Fields for which this gives another answer
  have no value here.\<close>

definition agrees :: "memory \<Rightarrow> pb_field \<Rightarrow> int \<Rightarrow> bool \<Rightarrow> bool option" where
  "agrees mem f a d =
     (let ht = PB_HTYPE (fld_type f); declared = a + fld_size_offset f in
      if ht = PB_HTYPE_REPEATED then (if fld_size_offset f \<noteq> 0 \<and> (rd_size mem declared = 0) = d then Some d else None)
      else if ht = PB_HTYPE_ONEOF then
        (if fld_size_offset f \<noteq> 0 \<and> (rd_size mem declared \<noteq> unat (fld_tag f)) = d then Some d else None)
      else if ht = PB_HTYPE_OPTIONAL \<and> fld_size_offset f \<noteq> 0 then (if (mem declared = 0) = d then Some d else None)
      else Some d)"

text \<open>Numbers are compared with zero, strings and bytes with the empty ones, pointers with null.\<close>

definition scalar_default :: "memory \<Rightarrow> pb_field \<Rightarrow> int \<Rightarrow> bool option" where
  "scalar_default mem f a =
     (let lt = PB_LTYPE (fld_type f); zero = (set (rd mem a (fld_data_size f)) \<subseteq> {0}) in
      if PB_ATYPE (fld_type f) = PB_ATYPE_POINTER then (if (rd_ptr mem a = 0) = zero then Some (rd_ptr mem a = 0) else None)
      else if PB_ATYPE (fld_type f) \<noteq> PB_ATYPE_STATIC then Some zero
      else if lt = PB_LTYPE_BYTES then Some (rd_size mem a = 0)
      else if lt = PB_LTYPE_STRING then Some (mem a = 0)
      else if lt = PB_LTYPE_FIXED_LENGTH_BYTES then Some (fld_data_size f = 0)
      else Some zero)"

fun all_default :: "bool option list \<Rightarrow> bool option" where
  "all_default [] = Some True"
| "all_default (None # ds) = None"
| "all_default (Some d # ds) = (if d then all_default ds else Some False)"

definition static_message :: "pb_field \<Rightarrow> bool" where
  "static_message f \<longleftrightarrow> PB_ATYPE (fld_type f) = PB_ATYPE_STATIC \<and> PB_LTYPE (fld_type f) = PB_LTYPE_SUBMESSAGE"

text \<open>A static submessage is the default if all its fields are; \<open>n\<close> bounds the nesting.\<close>

fun field_default :: "nat \<Rightarrow> memory \<Rightarrow> (nat \<Rightarrow> pb_field list) \<Rightarrow> pb_field \<Rightarrow> int \<Rightarrow> bool option" where
  "field_default n mem msgs f a =
     Option.bind
       (if static_message f then
          (case n of
             0 \<Rightarrow> None
           | Suc k \<Rightarrow>
               (case fld_ptr f of
                  PtrFields m \<Rightarrow>
                    if fld_tag (msgs m ! 0) = 0 then Some True
                    else if \<not> msg_ok (msgs m) then None
                    else all_default (map (\<lambda>i. field_default k mem msgs (msgs m ! i) (a + fst (layout (msgs m) i)))
                           [0..<num_fields (msgs m)])
                | _ \<Rightarrow> None))
        else scalar_default mem f a)
       (agrees mem f a)"

declare field_default.simps [simp del]

lemma agrees_value: "agrees mem f a d = Some e \<Longrightarrow> e = d"
  by (auto simp: agrees_def Let_def split: if_splits)

lemma zero_bytes: "set (rd mem a n) \<subseteq> {0} \<longleftrightarrow> (\<forall>i < n. mem (a + int i) = 0)"
  by (simp add: rd_def image_subset_iff Ball_def)

lemma scalar_default_checked:
  assumes "scalar_default mem f a = Some d" "\<not> static_message f"
  shows "pb_check_proto3_default_value n mem msgs f a = Some d"
proof -
  have "PB_ATYPE_POINTER \<noteq> PB_ATYPE_STATIC" "PB_LTYPE_STRING \<noteq> PB_LTYPE_BYTES" "PB_LTYPE_FIXED_LENGTH_BYTES \<noteq> PB_LTYPE_BYTES"
    "PB_LTYPE_FIXED_LENGTH_BYTES \<noteq> PB_LTYPE_STRING" by (simp_all add: pb_type_defs)
  then show ?thesis
    using assms unfolding scalar_default_def static_message_def Let_def zero_bytes
    by (subst pb_check_proto3_default_value.simps) (simp add: Let_def split: if_splits)
qed

lemma pointer_checked:
  assumes "PB_ATYPE (fld_type f) = PB_ATYPE_POINTER"
  shows "\<exists>d. pb_check_proto3_default_value n mem msgs f a = Some d"
  using assms by (subst pb_check_proto3_default_value.simps) (simp add: Let_def pb_type_defs)

lemma all_default_iter:
  assumes ok: "msg_ok flds" and F: "\<And>j d. j < num_fields flds \<Longrightarrow> F j = Some d \<Longrightarrow> check (iter_at flds dest j) = Some d"
    and "i < num_fields flds" "num_fields flds - i \<le> k" "all_default (map F [i..<num_fields flds]) = Some d"
  shows "iter_all check k (iter_at flds dest i) = Some d"
  using assms(3-5)
proof (induction k arbitrary: i)
  case (Suc k)
  have e: "all_default (F i # map F [Suc i..<num_fields flds]) = Some d" using Suc.prems(1,3) by (simp add: upt_conv_Cons)
  then obtain b where b: "F i = Some b" by (cases "F i") simp_all
  then have c: "check (iter_at flds dest i) = Some b" using F Suc.prems(1) by blast
  show ?case
  proof (cases b)
    case True
    note nx = iter_next_at [OF ok Suc.prems(1), of dest]
    show ?thesis
    proof (cases "Suc i < num_fields flds")
      case more: True
      then show ?thesis using Suc.IH [OF more] Suc.prems(2) e b c \<open>b\<close> by (simp add: nx)
    next
      case False
      then show ?thesis using e b c \<open>b\<close> by (simp add: nx)
    qed
  next
    case False
    then show ?thesis using e b c by simp
  qed
qed simp

text \<open>Where the default value is defined, \<open>pb_check_proto3_default_value\<close> finds it.\<close>

lemma field_default_checked: "field_default n mem msgs f a = Some d \<Longrightarrow> pb_check_proto3_default_value n mem msgs f a = Some d"
proof (induction n arbitrary: f a d)
  case 0
  then show ?case
    by (subst (asm) field_default.simps) (auto simp: bind_eq_Some_conv dest!: agrees_value intro: scalar_default_checked split: if_splits)
next
  case (Suc n)
  show ?case
  proof (cases "static_message f")
    case True
    then obtain m where m: "fld_ptr f = PtrFields m"
      and d: "fld_tag (msgs m ! 0) = 0 \<and> d \<or> fld_tag (msgs m ! 0) \<noteq> 0 \<and> msg_ok (msgs m)
        \<and> all_default (map (\<lambda>i. field_default n mem msgs (msgs m ! i) (a + fst (layout (msgs m) i))) [0..<num_fields (msgs m)]) = Some d"
      using Suc.prems by (subst (asm) field_default.simps)
        (auto simp: bind_eq_Some_conv dest!: agrees_value split: if_splits pb_ptr.splits)
    have lt: "PB_LTYPE_SUBMESSAGE \<noteq> PB_LTYPE_BYTES" "PB_LTYPE_SUBMESSAGE \<noteq> PB_LTYPE_STRING"
      "PB_LTYPE_SUBMESSAGE \<noteq> PB_LTYPE_FIXED_LENGTH_BYTES" by (simp_all add: pb_type_defs)
    let ?check = "\<lambda>it. pb_check_proto3_default_value n mem msgs (cur it) (iter_pData it)"
    have p: "iter_pData (iter_at (msgs m) a j) = a + fst (layout (msgs m) j)" for j by (simp add: iter_at_def)
    have r: "pb_check_proto3_default_value (Suc n) mem msgs f a
        = (if fld_tag (msgs m ! 0) \<noteq> 0 then iter_all ?check (length (msgs m)) (iter_at (msgs m) a 0) else Some True)"
      using True m lt by (subst pb_check_proto3_default_value.simps) (simp add: static_message_def iter_begin_at Let_def)
    show ?thesis
    proof (cases "fld_tag (msgs m ! 0) = 0")
      case False
      then have ok: "msg_ok (msgs m)" using d by simp
      have pos: "0 < num_fields (msgs m)"
      proof (rule ccontr)
        assume "\<not> 0 < num_fields (msgs m)"
        then show False using ok False by (cases "msgs m") (auto simp: msg_ok_def num_fields_def)
      qed
      have "iter_all ?check (length (msgs m)) (iter_at (msgs m) a 0) = Some d"
      proof (rule all_default_iter [OF ok _ pos])
        show "all_default (map (\<lambda>i. field_default n mem msgs (msgs m ! i) (a + fst (layout (msgs m) i))) [0..<num_fields (msgs m)]) = Some d"
          using d False by simp
      qed (simp_all add: Suc.IH p num_fields_def)
      then show ?thesis using r False by simp
    qed (use d r in simp)
  next
    case False
    then show ?thesis using Suc.prems
      by (subst (asm) field_default.simps) (auto simp: bind_eq_Some_conv dest!: agrees_value intro: scalar_default_checked)
  qed
qed

section \<open>Storage and presence\<close>

text \<open>A submessage with a repeated field of the numbers 0 and 5 (the count at address 100): the check looks at the first
  entry only and takes the submessage for a default value, although the field has two elements; \<open>pb_encode\<close> then leaves
  the submessage out.\<close>

definition zero_first :: "pb_field list" where
  "zero_first =
     [\<lparr>fld_tag = 1, fld_type = 0x20, fld_data_offset = 4, fld_size_offset = - 4, fld_data_size = 4, fld_array_size = 2, fld_ptr = PtrNull\<rparr>,
      \<lparr>fld_tag = 0, fld_type = 0, fld_data_offset = 0, fld_size_offset = 0, fld_data_size = 0, fld_array_size = 0, fld_ptr = PtrNull\<rparr>]"

definition zero_first_field :: pb_field where
  "zero_first_field = \<lparr>fld_tag = 1, fld_type = 0x17, fld_data_offset = 0, fld_size_offset = 0, fld_data_size = 12,
     fld_array_size = 0, fld_ptr = PtrFields 0\<rparr>"

definition zero_first_mem :: memory where
  "zero_first_mem a = (if a = 100 then 2 else if a = 108 then 5 else 0)"

lemma proto3_check_first_element_only:
  "rd_size zero_first_mem 100 = 2" "rd_word zero_first_mem 108 4 = (5 :: u32)"
  "pb_check_proto3_default_value 1 zero_first_mem (\<lambda>_. zero_first) zero_first_field 100 = Some True"
  "env_mem env = zero_first_mem \<Longrightarrow> env_msgs env = (\<lambda>_. zero_first)
    \<Longrightarrow> encode_basic_field env 1 func zero_first_field 100 os = Some (Some (), os)"
proof -
  have z: "(\<forall>i < (4 :: nat). zero_first_mem (104 + int i) = 0)" by (auto simp: zero_first_mem_def)
  show "rd_size zero_first_mem 100 = 2" by (simp add: rd_size_def rd_def zero_first_mem_def upt_rec)
  show "rd_word zero_first_mem 108 4 = (5 :: u32)" by (simp add: rd_word_def rd_def zero_first_mem_def upt_rec)
  show c: "pb_check_proto3_default_value 1 zero_first_mem (\<lambda>_. zero_first) zero_first_field 100 = Some True"
    using z by (simp add: pb_check_proto3_default_value.simps [of "Suc 0"] pb_check_proto3_default_value.simps [of 0] zero_first_field_def zero_first_def
        pb_type_defs pb_field_iter_begin_def pb_field_iter_next_def cur_def Let_def)
  show "encode_basic_field env 1 func zero_first_field 100 os = Some (Some (), os)"
    if "env_mem env = zero_first_mem" "env_msgs env = (\<lambda>_. zero_first)"
    using c that by (simp add: encode_basic_field_def Let_def zero_first_field_def pb_type_defs)
qed

end
