(* ===== verification/Pb_Encode_Wire.thy ===== *)
theory Pb_Encode_Wire
  imports Pb_Default "HOL-Library.Monad_Syntax"
begin

text \<open>
  What \<open>pb_encode\<close> promises: the wire format of a message as a function from the memory of its structure to
  bytes, with no streams, no sizing pass and no iterator, and the proof that the encoder of \<open>pb_encode.c\<close>
  implements it.  The specification covers all static and pointer fields, submessages included, and
  callback and extension fields that are not set; it has no value for messages the encoder rejects,
  for encodings of \<open>2 ^ 62\<close> bytes or more, and for the proto3 submessages that \<open>pb_encode.c\<close> wrongly takes for
  default values (\<open>Pb_Default\<close>).  It uses no function of the encoder.
\<close>

section \<open>The wire format of a message\<close>

definition sized :: "u8 list \<Rightarrow> u8 list option" where
  "sized xs = (if length xs < 2 ^ 62 then Some xs else None)"

fun concat_opt :: "'a list option list \<Rightarrow> 'a list option" where
  "concat_opt [] = Some []"
| "concat_opt (x # xs) = do { a \<leftarrow> x; b \<leftarrow> concat_opt xs; Some (a @ b) }"

text \<open>Integers of one, two, four or eight bytes, sign- or zero-extended.\<close>

definition signed_val :: "memory \<Rightarrow> nat \<Rightarrow> int \<Rightarrow> u64 option" where
  "signed_val mem n src =
     (if n = 1 then Some (scast (rd_word mem src 1 :: u8)) else if n = 2 then Some (scast (rd_word mem src 2 :: u16))
      else if n = 4 then Some (scast (rd_word mem src 4 :: u32)) else if n = 8 then Some (rd_word mem src 8) else None)"

definition unsigned_val :: "memory \<Rightarrow> nat \<Rightarrow> int \<Rightarrow> u64 option" where
  "unsigned_val mem n src =
     (if n = 1 then Some (ucast (rd_word mem src 1 :: u8)) else if n = 2 then Some (ucast (rd_word mem src 2 :: u16))
      else if n = 4 then Some (ucast (rd_word mem src 4 :: u32)) else if n = 8 then Some (rd_word mem src 8) else None)"

definition string_max :: "pb_field \<Rightarrow> nat" where
  "string_max f = (if PB_ATYPE (fld_type f) = PB_ATYPE_POINTER then 2 ^ 64 - 1 else fld_data_size f)"

definition wire_payload :: "'s enc_env \<Rightarrow> (pb_field list \<Rightarrow> int \<Rightarrow> u8 list option) \<Rightarrow> pb_field \<Rightarrow> int \<Rightarrow> u8 list option" where
  "wire_payload env wsub f src =
     (let mem = env_mem env; lt = PB_LTYPE (fld_type f); ds = fld_data_size f in
      if lt = PB_LTYPE_VARINT then do { v \<leftarrow> signed_val mem ds src; Some (leb128 (unat v)) }
      else if lt = PB_LTYPE_UVARINT then do { v \<leftarrow> unsigned_val mem ds src; Some (leb128 (unat v)) }
      else if lt = PB_LTYPE_SVARINT then do { v \<leftarrow> signed_val mem ds src; Some (leb128 (unat (zigzag v))) }
      else if lt = PB_LTYPE_FIXED32 then Some (fixed32_bytes (rd_word mem src 4))
      else if lt = PB_LTYPE_FIXED64 then Some (fixed64_bytes (rd_word mem src 8))
      else if lt = PB_LTYPE_BYTES then
        (if src = 0 then Some (delimited [])
         else if PB_ATYPE (fld_type f) = PB_ATYPE_STATIC \<and> rd_size mem src + 4 > ds then None
         else map_option delimited (sized (rd mem (src + 4) (rd_size mem src))))
      else if lt = PB_LTYPE_STRING then
        map_option delimited (sized (if src = 0 then [] else c_string mem src (string_max f)))
      else if lt = PB_LTYPE_SUBMESSAGE then
        (case fld_ptr f of PtrFields m \<Rightarrow> map_option delimited (wsub (env_msgs env m) src) | _ \<Rightarrow> None)
      else if lt = PB_LTYPE_FIXED_LENGTH_BYTES then map_option delimited (sized (rd mem src ds))
      else None)"

definition wire_type :: "pb_field \<Rightarrow> pb_wire_type" where
  "wire_type f =
     (let lt = PB_LTYPE (fld_type f) in
      if lt = PB_LTYPE_FIXED32 then PB_WT_32BIT else if lt = PB_LTYPE_FIXED64 then PB_WT_64BIT
      else if lt \<le> PB_LTYPE_SVARINT then PB_WT_VARINT else PB_WT_STRING)"

definition wire_tagged :: "pb_field \<Rightarrow> u8 list \<Rightarrow> u8 list" where
  "wire_tagged f xs = leb128 (tag_num (wire_type f) (fld_tag f)) @ xs"

definition elem_addrs :: "pb_field \<Rightarrow> int \<Rightarrow> nat \<Rightarrow> int list" where
  "elem_addrs f p count = map (\<lambda>i. p + int i * int (fld_data_size f)) [0..<count]"

text \<open>A repeated field: packed into one delimited run of payloads if its type allows, otherwise one tagged
  payload per element, through a pointer for elements of strings and bytes that are pointers.\<close>

definition wire_array :: "memory \<Rightarrow> (int \<Rightarrow> u8 list option) \<Rightarrow> pb_field \<Rightarrow> int \<Rightarrow> nat \<Rightarrow> u8 list option" where
  "wire_array mem pay f p count =
     (let at = PB_ATYPE (fld_type f); lt = PB_LTYPE (fld_type f) in
      if count = 0 then Some []
      else if at \<noteq> PB_ATYPE_POINTER \<and> count > fld_array_size f then None
      else if lt \<le> PB_LTYPE_LAST_PACKABLE then
        do { xs \<leftarrow> concat_opt (map pay (elem_addrs f p count)); ys \<leftarrow> sized xs;
             Some (leb128 (tag_num PB_WT_STRING (fld_tag f)) @ delimited ys) }
      else
        concat_opt (map (\<lambda>q. map_option (wire_tagged f)
          (pay (if at = PB_ATYPE_POINTER \<and> (lt = PB_LTYPE_STRING \<or> lt = PB_LTYPE_BYTES) then rd_ptr mem q else q)))
          (elem_addrs f p count)))"

definition wire_basic :: "'s enc_env \<Rightarrow> nat \<Rightarrow> (int \<Rightarrow> u8 list option) \<Rightarrow> pb_field \<Rightarrow> int \<Rightarrow> u8 list option" where
  "wire_basic env n pay f pData =
     (let mem = env_mem env; ht = PB_HTYPE (fld_type f); pSize = pData + fld_size_offset f;
          pointer = (PB_ATYPE (fld_type f) = PB_ATYPE_POINTER);
          p = (if pointer then rd_ptr mem pData else pData);
          one = map_option (wire_tagged f) (pay p) in
      if ht = PB_HTYPE_REQUIRED then (if p = 0 then None else one)
      else if ht = PB_HTYPE_OPTIONAL then
        (if fld_size_offset f \<noteq> 0 then (if mem pSize \<noteq> 0 then one else Some [])
         else if pointer then (if p \<noteq> 0 then one else Some [])
         else do { default \<leftarrow> field_default n mem (env_msgs env) f pData; if default then Some [] else one })
      else if fld_size_offset f = 0 then None
      else if ht = PB_HTYPE_REPEATED then wire_array mem pay f p (rd_size mem pSize)
      else if rd_size mem pSize = unat (fld_tag f) then one else Some [])"

definition wire_field :: "'s enc_env \<Rightarrow> nat \<Rightarrow> (pb_field list \<Rightarrow> int \<Rightarrow> u8 list option) \<Rightarrow> pb_field \<Rightarrow> int \<Rightarrow> u8 list option" where
  "wire_field env n wsub f pData =
     (let at = PB_ATYPE (fld_type f) in
      if PB_LTYPE (fld_type f) = PB_LTYPE_EXTENSION \<or> at = PB_ATYPE_CALLBACK
      then (if rd_ptr (env_mem env) pData = 0 then Some [] else None)
      else if at = PB_ATYPE_STATIC \<or> at = PB_ATYPE_POINTER then wire_basic env n (wire_payload env wsub f) f pData
      else None)"

text \<open>A message is the concatenation of its fields, at the addresses of its layout.\<close>

primrec wire :: "nat \<Rightarrow> 's enc_env \<Rightarrow> pb_field list \<Rightarrow> int \<Rightarrow> u8 list option" where
  "wire 0 env flds src = None"
| "wire (Suc n) env flds src =
     (if fld_tag (flds ! 0) = 0 then Some []
      else if \<not> msg_ok flds then None
      else Option.bind
        (concat_opt (map (\<lambda>i. wire_field env n (wire n env) (flds ! i) (src + fst (layout flds i))) [0..<num_fields flds]))
        sized)"

section \<open>Encoders with a defined result\<close>

definition good :: "obuf pb_ostream \<Rightarrow> bool" where
  "good os \<longleftrightarrow> os_callback os = None \<and> os_bytes_written os < 2 ^ 64 \<or> (\<exists>mem off. on_buf os mem off)"

definition pemits :: "(obuf pb_ostream, unit) pst \<Rightarrow> u8 list \<Rightarrow> bool" where
  "pemits m xs \<longleftrightarrow> (\<exists>m'. emits m' xs \<and> (\<forall>os. good os \<longrightarrow> m os = Some (m' os)))"

lemma pemits_lift [intro]: "emits m xs \<Longrightarrow> pemits (p_lift m) xs"
  by (auto simp: pemits_def p_lift_def)

lemma pemits_cong: "pemits m xs \<Longrightarrow> (\<And>os. good os \<Longrightarrow> m2 os = m os) \<Longrightarrow> pemits m2 xs"
  unfolding pemits_def by metis

lemma good_advance: "on_buf os mem off \<Longrightarrow> os_bytes_written os + length xs \<le> os_max_size os \<Longrightarrow> good (advance os xs)"
  using on_buf_advance unfolding good_def by blast

lemma emits_good_result:
  assumes "emits m xs" "good os" "m os = (Some (), t)"
  shows "good t"
proof -
  consider "os_callback os = None" "os_bytes_written os < 2 ^ 64" | mem off where "on_buf os mem off"
    using assms(2) by (auto simp: good_def)
  then show ?thesis
  proof cases
    case 1
    then show ?thesis using emits_sizing [OF assms(1)] assms(3) by (auto simp: good_def szw_def)
  next
    case 2
    show ?thesis
    proof (cases "os_bytes_written os + length xs \<le> os_max_size os")
      case True
      then show ?thesis using emits_fits [OF assms(1) 2] good_advance [OF 2] assms(3) by simp
    next
      case False
      then show ?thesis using emits_overflow [OF assms(1) 2] assms(3) by simp
    qed
  qed
qed

lemma pemits_bind:
  assumes "pemits m xs" "pemits n ys" "length (xs @ ys) < 2 ^ 63"
  shows "pemits (p_bind m (\<lambda>_. n)) (xs @ ys)"
proof -
  obtain m' n' where m: "emits m' xs" "\<And>os. good os \<Longrightarrow> m os = Some (m' os)"
    and n: "emits n' ys" "\<And>os. good os \<Longrightarrow> n os = Some (n' os)" using assms(1,2) unfolding pemits_def by metis
  have "p_bind m (\<lambda>_. n) os = Some (st_bind m' (\<lambda>_. n') os)" if g: "good os" for os
  proof (cases "m' os")
    case (Pair r t)
    then show ?thesis using m(2) [OF g] n(2) emits_good_result [OF m(1) g]
      by (cases r) (auto simp: p_bind_def st_bind_def)
  qed
  then show ?thesis using emits_bind [OF m(1) n(1) assms(3)] unfolding pemits_def by blast
qed

lemma good_sizing [simp]: "good (PB_OSTREAM_SIZING s)"
  by (simp add: good_def PB_OSTREAM_SIZING_def)

lemma pemits_sizing:
  assumes "pemits m xs"
  shows "m (PB_OSTREAM_SIZING s) = Some (Some (), (PB_OSTREAM_SIZING s)\<lparr>os_bytes_written := szw (length xs)\<rparr>)"
proof -
  obtain m' where m: "emits m' xs" "\<And>os. good os \<Longrightarrow> m os = Some (m' os)" using assms unfolding pemits_def by metis
  then show ?thesis using emits_sizing [OF m(1), of "PB_OSTREAM_SIZING s"] m(2) [OF good_sizing, of s]
    by (simp add: PB_OSTREAM_SIZING_def)
qed

lemma unat_len: "n < 2 ^ 62 \<Longrightarrow> unat (word_of_nat n :: u64) = n"
  by (simp add: unat_of_nat)

lemma emits_len_varint: "n < 2 ^ 62 \<Longrightarrow> emits (pb_encode_varint (word_of_nat n)) (leb128 n)"
  using emits_varint [of "word_of_nat n"] by (simp add: unat_len)

lemma delimited_short: "length xs < 2 ^ 62 \<Longrightarrow> length (delimited xs) < 2 ^ 63"
  using leb128_short [of "length xs"] by (simp add: delimited_def)

text \<open>A length, then either the same number of bytes charged to a sizing stream or the contents: the common
  form of submessages and packed arrays.\<close>

lemma pemits_delimited:
  assumes "length xs < 2 ^ 62" "\<And>os. os_callback os = None \<Longrightarrow> k os = Some (pb_write [] (length xs) os)"
    and "\<And>os mem off. on_buf os mem off \<Longrightarrow>
      if os_bytes_written os + length xs \<le> os_max_size os then k os = Some (Some (), advance os xs)
      else \<exists>os'. k os = Some (None, os') \<and> overflowed os os'"
  shows "pemits (p_bind (p_lift (pb_encode_varint (word_of_nat (length xs)))) (\<lambda>_. k)) (delimited xs)"
proof -
  define k' where "k' os = the (k os)" for os
  have "emits k' xs"
  proof (rule emitsI)
    show "length xs < 2 ^ 63" using assms(1) by simp
  next
    fix os :: "obuf pb_ostream"
    assume "os_callback os = None" "os_bytes_written os < 2 ^ 64"
    then show "k' os = (Some (), os\<lparr>os_bytes_written := szw (os_bytes_written os + length xs)\<rparr>)"
      by (simp add: k'_def assms(2) pb_write_def)
  next
    fix os :: "obuf pb_ostream" and mem off
    assume b: "on_buf os mem off"
    { assume "os_bytes_written os + length xs \<le> os_max_size os"
      then show "k' os = (Some (), advance os xs)" using assms(3) [OF b] by (simp add: k'_def) }
    { assume "os_max_size os < os_bytes_written os + length xs"
      then show "fst (k' os) = None \<and> overflowed os (snd (k' os))" using assms(3) [OF b] by (auto simp: k'_def) }
  qed
  moreover have "k os = Some (k' os)" if "good os" for os
  proof -
    consider "os_callback os = None" | mem off where "on_buf os mem off" using \<open>good os\<close> by (auto simp: good_def)
    then show ?thesis
    proof cases
      case 2
      then show ?thesis using assms(3) [OF 2] by (auto simp: k'_def split: if_splits)
    qed (simp add: k'_def assms(2))
  qed
  ultimately have "pemits k xs" unfolding pemits_def by blast
  then show ?thesis unfolding delimited_def
    using emits_len_varint [OF assms(1)] delimited_short [OF assms(1)]
    by (intro pemits_bind pemits_lift) (simp_all add: delimited_def)
qed

lemma pemits_submessage:
  assumes "pemits (enc flds src) xs" "length xs < 2 ^ 62"
  shows "pemits (pb_encode_submessage enc flds src) (delimited xs)"
proof -
  define k where "k stream =
    (if os_callback stream = None then Some (pb_write [] (length xs) stream)
     else if szw (os_bytes_written stream + length xs) > os_max_size stream then Some (os_error ''stream full'' stream)
     else (case enc flds src \<lparr>os_callback = os_callback stream, os_state = os_state stream, os_max_size = length xs,
                              os_bytes_written = 0, os_errmsg = None\<rparr> of
             None \<Rightarrow> None
           | Some (status, sub') \<Rightarrow>
               let stream' = stream\<lparr>os_bytes_written := szw (os_bytes_written stream + os_bytes_written sub'),
                                    os_state := os_state sub', os_errmsg := os_errmsg sub'\<rparr> in
               if os_bytes_written sub' \<noteq> length xs then Some (os_error ''submsg size changed'' stream')
               else Some (status, stream')))" for stream :: "obuf pb_ostream"
  obtain m' where m: "emits m' xs" "\<And>os. good os \<Longrightarrow> enc flds src os = Some (m' os)" using assms(1) unfolding pemits_def by metis
  have "pemits (p_bind (p_lift (pb_encode_varint (word_of_nat (length xs)))) (\<lambda>_. k)) (delimited xs)"
  proof (rule pemits_delimited [OF assms(2)])
    show "k os = Some (pb_write [] (length xs) os)" if "os_callback os = None" for os using that by (simp add: k_def)
    fix os :: "obuf pb_ostream" and mem off
    assume b: "on_buf os mem off"
    have w: "os_callback os = Some buf_write" "os_state os = (mem, off)" "os_errmsg os = None"
      "off + (os_max_size os - os_bytes_written os) \<le> length mem" "os_bytes_written os \<le> os_max_size os" "os_max_size os < 2 ^ 63"
      using b unfolding on_buf_def by blast+
    have z: "szw (os_bytes_written os + length xs) = os_bytes_written os + length xs" using w(5,6) assms(2) by (simp add: szw_def)
    show "if os_bytes_written os + length xs \<le> os_max_size os then k os = Some (Some (), advance os xs)
      else \<exists>os'. k os = Some (None, os') \<and> overflowed os os'"
    proof (cases "os_bytes_written os + length xs \<le> os_max_size os")
      case True
      let ?sub = "\<lparr>os_callback = os_callback os, os_state = os_state os, os_max_size = length xs,
                  os_bytes_written = 0, os_errmsg = None\<rparr>"
      have ob: "on_buf ?sub mem off" using w True assms(2) by (simp add: on_buf_def)
      then have "enc flds src ?sub = Some (Some (), advance ?sub xs)"
        using m(2) [of ?sub] emits_fits [OF m(1) ob] by (auto simp: good_def)
      then show ?thesis using True w z by (simp add: k_def advance_def)
    next
      case False
      then have "k os = Some (os_error ''stream full'' os)" using w z by (simp add: k_def)
      then show ?thesis using False overflowed_error [OF b, of "''stream full''"] by (simp add: os_error_def)
    qed
  qed
  moreover have "pb_encode_submessage enc flds src os = p_bind (p_lift (pb_encode_varint (word_of_nat (length xs)))) (\<lambda>_. k) os" for os
  proof -
    have "szw (length xs) = length xs" using assms(2) by (simp add: szw_def)
    then obtain S where S: "enc flds src (PB_OSTREAM_SIZING (os_state os)) = Some (Some (), S)" "os_bytes_written S = length xs"
      using pemits_sizing [OF assms(1), of "os_state os"] by auto
    show ?thesis unfolding pb_encode_submessage_def S(1) option.case prod.case Let_def S(2) k_def ..
  qed
  ultimately show ?thesis using pemits_cong by blast
qed

section \<open>Payloads\<close>

lemma sized_Some [simp]: "sized xs = Some ys \<longleftrightarrow> xs = ys \<and> length xs < 2 ^ 62"
  by (auto simp: sized_def)

lemma length_rd [simp]: "length (rd mem a n) = n"
  by (simp add: rd_def)

lemma rd_size_lt: "rd_size mem a < 2 ^ 32"
  using le_val_bound [of "rd mem a 4"] by (simp add: rd_size_def)

lemma alloc_size: "PB_BYTES_ARRAY_T_ALLOCSIZE (rd_size mem a) = rd_size mem a + 4"
  using rd_size_lt [of mem a] by (simp add: PB_BYTES_ARRAY_T_ALLOCSIZE_def szw_def)

lemma emits_string_rd: "sized (rd mem a n) = Some xs \<Longrightarrow> emits (pb_encode_string (rd mem a n) n) (delimited xs)"
  using emits_string [of "rd mem a n"] by auto

lemma emits_signed: "signed_val mem (fld_data_size f) src = Some v \<Longrightarrow> emits (pb_enc_varint mem f src) (leb128 (unat v))"
  by (auto simp: signed_val_def pb_enc_varint_def emits_varint split: if_splits)

lemma emits_svarint_val: "signed_val mem (fld_data_size f) src = Some v \<Longrightarrow> emits (pb_enc_svarint mem f src) (leb128 (unat (zigzag v)))"
  by (auto simp: signed_val_def pb_enc_svarint_def emits_svarint split: if_splits)

lemma emits_unsigned: "unsigned_val mem (fld_data_size f) src = Some v \<Longrightarrow> emits (pb_enc_uvarint mem f src) (leb128 (unat v))"
  by (auto simp: unsigned_val_def pb_enc_uvarint_def emits_varint split: if_splits)

text \<open>The encoders of the table emit the payload of the specification, if the recursive encoder does.\<close>

lemma ltype_cases:
  obtains "lt = PB_LTYPE_VARINT" | "lt = PB_LTYPE_UVARINT" | "lt = PB_LTYPE_SVARINT" | "lt = PB_LTYPE_FIXED32"
  | "lt = PB_LTYPE_FIXED64" | "lt = PB_LTYPE_BYTES" | "lt = PB_LTYPE_STRING" | "lt = PB_LTYPE_SUBMESSAGE"
  | "lt = PB_LTYPE_FIXED_LENGTH_BYTES"
  | "lt \<noteq> PB_LTYPE_VARINT" "lt \<noteq> PB_LTYPE_UVARINT" "lt \<noteq> PB_LTYPE_SVARINT" "lt \<noteq> PB_LTYPE_FIXED32" "lt \<noteq> PB_LTYPE_FIXED64"
    "lt \<noteq> PB_LTYPE_BYTES" "lt \<noteq> PB_LTYPE_STRING" "lt \<noteq> PB_LTYPE_SUBMESSAGE" "lt \<noteq> PB_LTYPE_FIXED_LENGTH_BYTES"
  by blast

lemma ltype_distinct [simp]:
  "PB_LTYPE_UVARINT \<noteq> PB_LTYPE_VARINT" "PB_LTYPE_SVARINT \<noteq> PB_LTYPE_VARINT" "PB_LTYPE_SVARINT \<noteq> PB_LTYPE_UVARINT"
  "PB_LTYPE_FIXED32 \<noteq> PB_LTYPE_VARINT" "PB_LTYPE_FIXED32 \<noteq> PB_LTYPE_UVARINT" "PB_LTYPE_FIXED32 \<noteq> PB_LTYPE_SVARINT"
  "PB_LTYPE_FIXED64 \<noteq> PB_LTYPE_VARINT" "PB_LTYPE_FIXED64 \<noteq> PB_LTYPE_UVARINT" "PB_LTYPE_FIXED64 \<noteq> PB_LTYPE_SVARINT"
  "PB_LTYPE_FIXED64 \<noteq> PB_LTYPE_FIXED32"
  "PB_LTYPE_BYTES \<noteq> PB_LTYPE_VARINT" "PB_LTYPE_BYTES \<noteq> PB_LTYPE_UVARINT" "PB_LTYPE_BYTES \<noteq> PB_LTYPE_SVARINT"
  "PB_LTYPE_BYTES \<noteq> PB_LTYPE_FIXED32" "PB_LTYPE_BYTES \<noteq> PB_LTYPE_FIXED64"
  "PB_LTYPE_STRING \<noteq> PB_LTYPE_VARINT" "PB_LTYPE_STRING \<noteq> PB_LTYPE_UVARINT" "PB_LTYPE_STRING \<noteq> PB_LTYPE_SVARINT"
  "PB_LTYPE_STRING \<noteq> PB_LTYPE_FIXED32" "PB_LTYPE_STRING \<noteq> PB_LTYPE_FIXED64" "PB_LTYPE_STRING \<noteq> PB_LTYPE_BYTES"
  "PB_LTYPE_SUBMESSAGE \<noteq> PB_LTYPE_VARINT" "PB_LTYPE_SUBMESSAGE \<noteq> PB_LTYPE_UVARINT" "PB_LTYPE_SUBMESSAGE \<noteq> PB_LTYPE_SVARINT"
  "PB_LTYPE_SUBMESSAGE \<noteq> PB_LTYPE_FIXED32" "PB_LTYPE_SUBMESSAGE \<noteq> PB_LTYPE_FIXED64" "PB_LTYPE_SUBMESSAGE \<noteq> PB_LTYPE_BYTES"
  "PB_LTYPE_SUBMESSAGE \<noteq> PB_LTYPE_STRING"
  "PB_LTYPE_FIXED_LENGTH_BYTES \<noteq> PB_LTYPE_VARINT" "PB_LTYPE_FIXED_LENGTH_BYTES \<noteq> PB_LTYPE_UVARINT"
  "PB_LTYPE_FIXED_LENGTH_BYTES \<noteq> PB_LTYPE_SVARINT" "PB_LTYPE_FIXED_LENGTH_BYTES \<noteq> PB_LTYPE_FIXED32"
  "PB_LTYPE_FIXED_LENGTH_BYTES \<noteq> PB_LTYPE_FIXED64" "PB_LTYPE_FIXED_LENGTH_BYTES \<noteq> PB_LTYPE_BYTES"
  "PB_LTYPE_FIXED_LENGTH_BYTES \<noteq> PB_LTYPE_STRING" "PB_LTYPE_FIXED_LENGTH_BYTES \<noteq> PB_LTYPE_SUBMESSAGE"
  by (simp_all add: pb_type_defs)

definition enc_ok :: "obuf msg_encoder \<Rightarrow> (pb_field list \<Rightarrow> int \<Rightarrow> u8 list option) \<Rightarrow> bool" where
  "enc_ok enc wsub \<longleftrightarrow> (\<forall>flds src xs. wsub flds src = Some xs \<longrightarrow> length xs < 2 ^ 62 \<and> pemits (enc flds src) xs)"

lemma pemits_payload:
  assumes sub: "enc_ok enc wsub" and w: "wire_payload env wsub f src = Some xs"
  shows "pemits (PB_ENCODERS env enc (PB_LTYPE (fld_type f)) f src) xs"
proof (cases "PB_LTYPE (fld_type f)" rule: ltype_cases)
  case 1
  then show ?thesis using w by (auto simp: wire_payload_def PB_ENCODERS_def emits_signed split: bind_splits)
next
  case 2
  then show ?thesis using w by (auto simp: wire_payload_def PB_ENCODERS_def emits_unsigned split: bind_splits)
next
  case 3
  then show ?thesis using w by (auto simp: wire_payload_def PB_ENCODERS_def emits_svarint_val split: bind_splits)
next
  case 4
  then show ?thesis using w by (auto simp: wire_payload_def PB_ENCODERS_def pb_enc_fixed32_def emits_fixed32)
next
  case 5
  then show ?thesis using w by (auto simp: wire_payload_def PB_ENCODERS_def pb_enc_fixed64_def emits_fixed64)
next
  case 6
  have e0: "emits (pb_encode_string [] 0) (delimited [])" using emits_string [of "[]"] by simp
  from 6 show ?thesis using w e0
    by (auto simp: wire_payload_def PB_ENCODERS_def pb_enc_bytes_def Let_def alloc_size split: if_splits
        intro!: pemits_lift emits_string_rd)
next
  case 7
  have rd: "(if src = 0 then [] else c_string (env_mem env) src (string_max f))
      = rd (env_mem env) src (if src = 0 then 0 else length (c_string (env_mem env) src (string_max f)))"
    by (simp add: rd_c_string) (simp add: rd_def)
  show ?thesis using w 7 unfolding wire_payload_def Let_def rd
    by (auto simp: PB_ENCODERS_def pb_enc_string_def Let_def string_max_def [symmetric] enc_strlen_c_string
        intro!: pemits_lift emits_string_rd split: if_splits)
next
  case 8
  then show ?thesis using w sub
    by (auto simp: wire_payload_def PB_ENCODERS_def pb_enc_submessage_def enc_ok_def split: pb_ptr.splits intro!: pemits_submessage)
next
  case 9
  then show ?thesis using w
    by (auto simp: wire_payload_def PB_ENCODERS_def pb_enc_fixed_length_bytes_def intro!: pemits_lift emits_string_rd)
next
  case 10
  then show ?thesis using w by (simp add: wire_payload_def)
qed

section \<open>Fields\<close>

lemma pemits_on_buf:
  assumes "pemits m xs" "on_buf os mem off"
  shows "if os_bytes_written os + length xs \<le> os_max_size os then m os = Some (Some (), advance os xs)
    else \<exists>os'. m os = Some (None, os') \<and> overflowed os os'"
proof -
  obtain m' where m: "emits m' xs" "\<And>os. good os \<Longrightarrow> m os = Some (m' os)" using assms(1) unfolding pemits_def by metis
  have "m os = Some (m' os)" using m(2) [of os] assms(2) by (auto simp: good_def)
  then show ?thesis using emits_fits [OF m(1) assms(2)] emits_overflow [OF m(1) assms(2)] by (cases "m' os") auto
qed

lemma wire_payload_length:
  assumes "enc_ok enc wsub" "wire_payload env wsub f src = Some xs"
  shows "length xs < 2 ^ 62 + 11"
proof -
  define N :: nat where "N = 2 ^ 62 + 11"
  have dl: "length (delimited ys) < N" if "length ys < 4611686018427387904" for ys
    using leb128_short [of "length ys"] that by (simp add: delimited_def N_def)
  have lv: "length (leb128 (unat (v :: u64))) < N" for v using varint_fits [of v] by (simp add: N_def)
  have s: "length ys < 4611686018427387904" if "wsub flds src = Some ys" for flds ys using assms(1) that by (auto simp: enc_ok_def)
  have f: "4 < N" "8 < N" by (simp_all add: N_def)
  have "length xs < N"
    by (cases "PB_LTYPE (fld_type f)" rule: ltype_cases; use assms(2) in \<open>simp add: wire_payload_def Let_def\<close>)
      (auto simp: dl s lv f split: bind_splits if_splits pb_ptr.splits)
  then show ?thesis by (simp add: N_def)
qed

lemma wire_type_ok: "wt_num (wire_type f) < 8"
  by (simp add: wire_type_def Let_def)

lemma emits_tag_for_field:
  assumes "wire_payload env wsub f src = Some xs"
  shows "emits (pb_encode_tag_for_field f) (leb128 (tag_num (wire_type f) (fld_tag f)))"
proof -
  have "(pb_encode_tag_for_field f :: (obuf pb_ostream, unit) st) = pb_encode_tag (wire_type f) (fld_tag f)"
    by (cases "PB_LTYPE (fld_type f)" rule: ltype_cases; use assms in \<open>simp add: wire_payload_def Let_def pb_encode_tag_for_field_def wire_type_def\<close>)
      (simp_all add: pb_type_defs)
  then show ?thesis using emits_tag [OF wire_type_ok] by simp
qed

lemma pemits_tagged:
  assumes "enc_ok enc wsub" "wire_payload env wsub f src = Some xs"
  shows "pemits (p_bind (p_lift (pb_encode_tag_for_field f)) (\<lambda>_. PB_ENCODERS env enc (PB_LTYPE (fld_type f)) f src)) (wire_tagged f xs)"
proof -
  have "length (leb128 (tag_num (wire_type f) (fld_tag f))) \<le> 10" using tag_num_lt [OF wire_type_ok] by (rule leb128_short)
  then show ?thesis
    unfolding wire_tagged_def
    using wire_payload_length [OF assms] pemits_payload [OF assms] emits_tag_for_field [OF assms(2)]
    by (intro pemits_bind pemits_lift) auto
qed

lemma elem_addrs_Suc: "elem_addrs f p (Suc n) = p # elem_addrs f (p + int (fld_data_size f)) n"
proof -
  have "[0..<Suc n] = 0 # map Suc [0..<n]" by (simp add: map_Suc_upt upt_conv_Cons del: upt_Suc)
  then show ?thesis by (simp add: elem_addrs_def algebra_simps del: upt_Suc)
qed

lemma pemits_array_loop:
  assumes "concat_opt (map w (elem_addrs f p count)) = Some xs" "length xs < 2 ^ 63"
    and "\<And>q ys. w q = Some ys \<Longrightarrow> pemits (step q) ys"
  shows "pemits (array_loop step (fld_data_size f) count p) xs"
  using assms(1,2)
proof (induction count arbitrary: p xs)
  case 0
  then show ?case using emits_return by (auto simp: elem_addrs_def)
next
  case (Suc count)
  then obtain a b where ab: "w p = Some a" "concat_opt (map w (elem_addrs f (p + int (fld_data_size f)) count)) = Some b" "xs = a @ b"
    by (auto simp: elem_addrs_Suc split: bind_splits)
  then show ?case using Suc.IH [OF ab(2)] Suc.prems(2) assms(3) [OF ab(1)] by (auto intro!: pemits_bind)
qed

lemma concat_opt_length:
  assumes "concat_opt (map w qs) = Some xs" "\<And>q ys. w q = Some ys \<Longrightarrow> length ys = k"
  shows "length xs = k * length qs"
  using assms(1)
proof (induction qs arbitrary: xs)
  case (Cons q qs)
  then show ?case using assms(2) [of q] by (auto split: bind_splits)
qed simp

lemma pemits_packed:
  fixes env :: "obuf enc_env"
  defines "func \<equiv> \<lambda>enc f. PB_ENCODERS env enc (PB_LTYPE (fld_type f)) f"
  assumes sub: "enc_ok enc wsub" and lt: "PB_LTYPE (fld_type f) \<le> PB_LTYPE_LAST_PACKABLE"
    and w: "concat_opt (map (wire_payload env wsub f) (elem_addrs f p count)) = Some xs" "length xs < 2 ^ 62"
    and c: "0 < count" "PB_ATYPE (fld_type f) \<noteq> PB_ATYPE_POINTER \<longrightarrow> count \<le> fld_array_size f"
  shows "pemits (encode_array mem f p count (PB_ENCODERS env enc (PB_LTYPE (fld_type f))))
    (leb128 (tag_num PB_WT_STRING (fld_tag f)) @ delimited xs)"
proof -
  let ?lt = "PB_LTYPE (fld_type f)" and ?loop = "array_loop (func enc f) (fld_data_size f) count p"
  have lp: "pemits ?loop xs"
    unfolding func_def by (rule pemits_array_loop [OF w(1)]) (use w(2) pemits_payload [OF sub] in auto)
  define k where "k os = (if os_callback os = None then Some (pb_write [] (length xs) os) else ?loop os)" for os
  have d: "pemits (p_bind (p_lift (pb_encode_varint (word_of_nat (length xs)))) (\<lambda>_. k)) (delimited xs)"
  proof (rule pemits_delimited [OF w(2)])
    show "k os = Some (pb_write [] (length xs) os)" if "os_callback os = None" for os using that by (simp add: k_def)
    fix os :: "obuf pb_ostream" and m off
    assume b: "on_buf os m off"
    then have "k os = ?loop os" by (simp add: k_def on_buf_def)
    then show "if os_bytes_written os + length xs \<le> os_max_size os then k os = Some (Some (), advance os xs)
      else \<exists>os'. k os = Some (None, os') \<and> overflowed os os'" using pemits_on_buf [OF lp b] by simp
  qed
  have len4: "length xs = 4 * count" if "?lt = PB_LTYPE_FIXED32"
    using concat_opt_length [OF w(1), of 4] that by (auto simp: wire_payload_def Let_def elem_addrs_def)
  have len8: "length xs = 8 * count" if "?lt = PB_LTYPE_FIXED64"
    using concat_opt_length [OF w(1), of 8] that by (auto simp: wire_payload_def Let_def elem_addrs_def)
  have sz: "szw (length xs) = length xs" using w(2) by (simp add: szw_def)
  obtain S where S: "\<And>s. ?loop (PB_OSTREAM_SIZING s) = Some (Some (), S s)" "\<And>s. os_bytes_written (S s) = length xs"
  proof -
    have "\<forall>s. \<exists>t. ?loop (PB_OSTREAM_SIZING s) = Some (Some (), t) \<and> os_bytes_written t = length xs"
      using pemits_sizing [OF lp] sz by simp
    then show ?thesis using that by metis
  qed
  have inner: "(case (if ?lt = PB_LTYPE_FIXED32 then Some (Some (szw (4 * count)))
                else if ?lt = PB_LTYPE_FIXED64 then Some (Some (szw (8 * count)))
                else (case ?loop (PB_OSTREAM_SIZING (os_state stream)) of
                        None \<Rightarrow> None
                      | Some (None, _) \<Rightarrow> Some None
                      | Some (Some _, sizestream) \<Rightarrow> Some (Some (os_bytes_written sizestream)))) of
            None \<Rightarrow> None
          | Some None \<Rightarrow> Some (None, stream)
          | Some (Some sz) \<Rightarrow>
              p_bind (p_lift (pb_encode_varint (word_of_nat sz))) (\<lambda>_ stream.
                if os_callback stream = None then Some (pb_write [] sz stream) else ?loop stream) stream)
      = p_bind (p_lift (pb_encode_varint (word_of_nat (length xs)))) (\<lambda>_. k) stream" for stream
  proof -
    have "(if ?lt = PB_LTYPE_FIXED32 then Some (Some (szw (4 * count)))
                else if ?lt = PB_LTYPE_FIXED64 then Some (Some (szw (8 * count)))
                else (case ?loop (PB_OSTREAM_SIZING (os_state stream)) of
                        None \<Rightarrow> None
                      | Some (None, _) \<Rightarrow> Some None
                      | Some (Some _, sizestream) \<Rightarrow> Some (Some (os_bytes_written sizestream)))) = Some (Some (length xs))"
      using sz len4 len8 S by auto
    then show ?thesis unfolding k_def by simp
  qed
  have "encode_array mem f p count (PB_ENCODERS env enc ?lt)
      = p_bind (p_lift (pb_encode_tag PB_WT_STRING (fld_tag f))) (\<lambda>_. p_bind (p_lift (pb_encode_varint (word_of_nat (length xs)))) (\<lambda>_. k))"
    using c lt unfolding encode_array_def Let_def inner [unfolded func_def] by auto
  moreover have "length (leb128 (tag_num PB_WT_STRING (fld_tag f))) \<le> 10" using tag_num_lt [of PB_WT_STRING] by (intro leb128_short) simp
  ultimately show ?thesis
    using d emits_tag [of PB_WT_STRING "fld_tag f"] delimited_short [OF w(2)] leb128_short [of "length xs"] w(2)
    by (auto intro!: pemits_bind simp: delimited_def)
qed

lemma pemits_array:
  fixes env :: "obuf enc_env"
  assumes sub: "enc_ok enc wsub" and w: "wire_array mem (wire_payload env wsub f) f p count = Some xs" "length xs < 2 ^ 63"
  shows "pemits (encode_array mem f p count (PB_ENCODERS env enc (PB_LTYPE (fld_type f)))) xs"
proof -
  let ?at = "PB_ATYPE (fld_type f)" and ?lt = "PB_LTYPE (fld_type f)"
  consider "count = 0" | "0 < count" "?at \<noteq> PB_ATYPE_POINTER \<longrightarrow> count \<le> fld_array_size f" "?lt \<le> PB_LTYPE_LAST_PACKABLE"
    | "0 < count" "?at \<noteq> PB_ATYPE_POINTER \<longrightarrow> count \<le> fld_array_size f" "\<not> ?lt \<le> PB_LTYPE_LAST_PACKABLE"
    using w(1) by (fastforce simp: wire_array_def Let_def split: if_splits)
  then show ?thesis
  proof cases
    case 1
    then show ?thesis using w emits_return by (auto simp: wire_array_def encode_array_def)
  next
    case 2
    then obtain ys where ys: "concat_opt (map (wire_payload env wsub f) (elem_addrs f p count)) = Some ys" "length ys < 2 ^ 62"
      "xs = leb128 (tag_num PB_WT_STRING (fld_tag f)) @ delimited ys"
      using w(1) by (fastforce simp: wire_array_def Let_def split: bind_splits if_splits)
    show ?thesis unfolding ys(3) by (rule pemits_packed [OF sub 2(3) ys(1,2) 2(1,2)])
  next
    case 3
    let ?q = "\<lambda>q. if ?at = PB_ATYPE_POINTER \<and> (?lt = PB_LTYPE_STRING \<or> ?lt = PB_LTYPE_BYTES) then rd_ptr mem q else q"
    have c: "concat_opt (map (\<lambda>q. map_option (wire_tagged f) (wire_payload env wsub f (?q q))) (elem_addrs f p count)) = Some xs"
      using w(1) 3 by (auto simp: wire_array_def Let_def split: if_splits)
    have "pemits (array_loop (\<lambda>q. p_bind (p_lift (pb_encode_tag_for_field f)) (\<lambda>_. PB_ENCODERS env enc ?lt f (?q q))) (fld_data_size f) count p) xs"
      by (rule pemits_array_loop [OF c w(2)]) (auto intro: pemits_tagged [OF sub])
    moreover have "encode_array mem f p count (PB_ENCODERS env enc ?lt)
        = array_loop (\<lambda>q. p_bind (p_lift (pb_encode_tag_for_field f)) (\<lambda>_. PB_ENCODERS env enc ?lt f (?q q))) (fld_data_size f) count p"
    proof -
      have "(\<lambda>q. p_bind (p_lift (pb_encode_tag_for_field f)) (\<lambda>_.
             if ?at = PB_ATYPE_POINTER \<and> (?lt = PB_LTYPE_STRING \<or> ?lt = PB_LTYPE_BYTES) then PB_ENCODERS env enc ?lt f (rd_ptr mem q)
             else PB_ENCODERS env enc ?lt f q)) = (\<lambda>q. p_bind (p_lift (pb_encode_tag_for_field f)) (\<lambda>_. PB_ENCODERS env enc ?lt f (?q q)))"
        by (intro ext) auto
      then show ?thesis using 3 unfolding encode_array_def Let_def by auto
    qed
    ultimately show ?thesis by simp
  qed
qed

lemma pemits_return: "pemits (\<lambda>os. Some (Some (), os)) []"
  using pemits_lift [OF emits_return] by (simp add: p_lift_def [abs_def])

lemma pemits_basic:
  fixes env :: "obuf enc_env"
  assumes sub: "enc_ok enc wsub" and w: "wire_basic env n (wire_payload env wsub f) f pData = Some xs" "length xs < 2 ^ 63"
  shows "pemits (encode_basic_field env n (PB_ENCODERS env enc (PB_LTYPE (fld_type f))) f pData) xs"
proof -
  let ?mem = "env_mem env" and ?lt = "PB_LTYPE (fld_type f)" and ?ht = "PB_HTYPE (fld_type f)"
  let ?ptr = "PB_ATYPE (fld_type f) = PB_ATYPE_POINTER" and ?so = "fld_size_offset f"
  define q where "q = (if ?ptr then rd_ptr ?mem pData else pData)"
  define put where "put = p_bind (p_lift (pb_encode_tag_for_field f)) (\<lambda>_. PB_ENCODERS env enc ?lt f q)"
  have put: "pemits put ys" if "map_option (wire_tagged f) (wire_payload env wsub f q) = Some ys" for ys
    unfolding put_def using that pemits_tagged [OF sub] by auto
  have hts: "PB_HTYPE_OPTIONAL \<noteq> PB_HTYPE_REQUIRED" "PB_HTYPE_REPEATED \<noteq> PB_HTYPE_REQUIRED" "PB_HTYPE_REPEATED \<noteq> PB_HTYPE_OPTIONAL"
    by (simp_all add: pb_type_defs)
  consider (req) "?ht = PB_HTYPE_REQUIRED" | (opt) "?ht = PB_HTYPE_OPTIONAL" | (rep) "?ht = PB_HTYPE_REPEATED"
    | (one) "?ht \<noteq> PB_HTYPE_REQUIRED" "?ht \<noteq> PB_HTYPE_OPTIONAL" "?ht \<noteq> PB_HTYPE_REPEATED" by blast
  then show ?thesis
  proof cases
    case req
    then have "q \<noteq> 0" "map_option (wire_tagged f) (wire_payload env wsub f q) = Some xs"
      using w(1) by (auto simp: wire_basic_def Let_def q_def split: if_splits)
    moreover have "encode_basic_field env n (PB_ENCODERS env enc ?lt) f pData = put"
      using req \<open>q \<noteq> 0\<close> hts by (intro ext) (auto simp: encode_basic_field_def Let_def q_def put_def)
    ultimately show ?thesis using put by simp
  next
    case opt
    show ?thesis
    proof (cases "?so = 0")
      case True
      have w': "(if ?ptr then (if q \<noteq> 0 then map_option (wire_tagged f) (wire_payload env wsub f q) else Some [])
          else Option.bind (field_default n ?mem (env_msgs env) f pData)
            (\<lambda>default. if default then Some [] else map_option (wire_tagged f) (wire_payload env wsub f q))) = Some xs"
        using w(1) [unfolded wire_basic_def Let_def q_def [symmetric]] opt True hts by simp
      obtain d where d: "pb_check_proto3_default_value n ?mem (env_msgs env) f pData = Some d"
        "(if (if ?ptr then q \<noteq> 0 else \<not> d) then map_option (wire_tagged f) (wire_payload env wsub f q) else Some []) = Some xs"
      proof (cases ?ptr)
        case True
        then show ?thesis using w' that pointer_checked [OF True] by metis
      next
        case False
        then show ?thesis using w' that by (auto simp: bind_eq_Some_conv dest: field_default_checked split: if_splits)
      qed
      have "encode_basic_field env n (PB_ENCODERS env enc ?lt) f pData
          = (\<lambda>os. if (if ?ptr then q \<noteq> 0 else \<not> d) then put os else Some (Some (), os))"
        using opt True hts d(1) by (intro ext) (auto simp: encode_basic_field_def Let_def q_def put_def)
      then show ?thesis using d(2) put pemits_return by (auto split: if_splits)
    next
      case False
      then have e: "(if ?mem (pData + ?so) \<noteq> 0 then map_option (wire_tagged f) (wire_payload env wsub f q) else Some []) = Some xs"
        using w(1) opt hts by (auto simp: wire_basic_def Let_def q_def)
      have "encode_basic_field env n (PB_ENCODERS env enc ?lt) f pData
          = (\<lambda>os. if ?mem (pData + ?so) \<noteq> 0 then put os else Some (Some (), os))"
        using opt False hts by (intro ext) (auto simp: encode_basic_field_def Let_def q_def put_def)
      then show ?thesis using e put pemits_return by (auto split: if_splits)
    qed
  next
    case rep
    then have "?so \<noteq> 0" "wire_array ?mem (wire_payload env wsub f) f q (rd_size ?mem (pData + ?so)) = Some xs"
      using w(1) hts by (auto simp: wire_basic_def Let_def q_def split: if_splits)
    moreover have "encode_basic_field env n (PB_ENCODERS env enc ?lt) f pData
        = encode_array ?mem f q (rd_size ?mem (pData + ?so)) (PB_ENCODERS env enc ?lt)"
      using rep calculation(1) hts by (intro ext) (auto simp: encode_basic_field_def Let_def q_def)
    ultimately show ?thesis using pemits_array [OF sub _ w(2)] by simp
  next
    case one
    then have so: "?so \<noteq> 0" and e: "(if rd_size ?mem (pData + ?so) = unat (fld_tag f)
        then map_option (wire_tagged f) (wire_payload env wsub f q) else Some []) = Some xs"
      using w(1) by (auto simp: wire_basic_def Let_def q_def split: if_splits)
    have "encode_basic_field env n (PB_ENCODERS env enc ?lt) f pData
        = (\<lambda>os. if rd_size ?mem (pData + ?so) = unat (fld_tag f) then put os else Some (Some (), os))"
      using one so by (intro ext) (auto simp: encode_basic_field_def Let_def q_def put_def)
    then show ?thesis using e put pemits_return by (auto split: if_splits)
  qed
qed

section \<open>Messages\<close>

lemma pemits_one:
  fixes env :: "obuf enc_env"
  assumes sub: "enc_ok enc wsub" and w: "wire_field env n wsub (cur it) (iter_pData it) = Some xs" "length xs < 2 ^ 63"
  shows "pemits (encode_one env n enc it) xs"
proof -
  let ?f = "cur it" and ?p = "iter_pData it"
  have at: "PB_ATYPE_CALLBACK \<noteq> PB_ATYPE_STATIC" "PB_ATYPE_CALLBACK \<noteq> PB_ATYPE_POINTER" by (simp_all add: pb_type_defs)
  have ext0: "extension_loop env n enc n 0 = p_lift (st_return ())" by (cases n) simp_all
  consider (ext) "PB_LTYPE (fld_type ?f) = PB_LTYPE_EXTENSION" "rd_ptr (env_mem env) ?p = 0" "xs = []"
    | (cb) "PB_LTYPE (fld_type ?f) \<noteq> PB_LTYPE_EXTENSION" "PB_ATYPE (fld_type ?f) = PB_ATYPE_CALLBACK" "rd_ptr (env_mem env) ?p = 0" "xs = []"
    | (basic) "PB_LTYPE (fld_type ?f) \<noteq> PB_LTYPE_EXTENSION" "PB_ATYPE (fld_type ?f) \<noteq> PB_ATYPE_CALLBACK"
        "PB_ATYPE (fld_type ?f) = PB_ATYPE_STATIC \<or> PB_ATYPE (fld_type ?f) = PB_ATYPE_POINTER"
        "wire_basic env n (wire_payload env wsub ?f) ?f ?p = Some xs"
    using w(1) by (auto simp: wire_field_def Let_def split: if_splits)
  then show ?thesis
  proof cases
    case ext
    then show ?thesis using pemits_lift [OF emits_return] by (simp add: encode_one_def encode_extension_field_def ext0)
  next
    case cb
    then have "encode_one env n enc it = (\<lambda>os. Some (Some (), os))"
      using at by (auto simp: encode_one_def encode_field_def encode_callback_field_def [abs_def] Let_def)
    then show ?thesis using pemits_return cb by simp
  next
    case basic
    then show ?thesis using pemits_basic [OF sub basic(4) w(2)] by (simp add: encode_one_def encode_field_def Let_def)
  qed
qed

lemma pemits_encode_loop:
  fixes env :: "obuf enc_env"
  assumes ok: "msg_ok flds" and i: "i < num_fields flds" and k: "num_fields flds - i \<le> k"
    and one: "\<And>it ys. wire_field env n wsub (cur it) (iter_pData it) = Some ys \<Longrightarrow> length ys < 2 ^ 63 \<Longrightarrow> pemits (one it) ys"
    and w: "concat_opt (map (\<lambda>i. wire_field env n wsub (flds ! i) (src + fst (layout flds i))) [i..<num_fields flds]) = Some xs"
      "length xs < 2 ^ 63"
  shows "pemits (encode_loop one k (iter_at flds src i)) xs"
  using i k w
proof (induction k arbitrary: i xs)
  case (Suc k)
  have pd: "iter_pData (iter_at flds src i) = src + fst (layout flds i)" by (simp add: iter_at_def)
  obtain a b where ab: "wire_field env n wsub (flds ! i) (src + fst (layout flds i)) = Some a"
    "concat_opt (map (\<lambda>i. wire_field env n wsub (flds ! i) (src + fst (layout flds i))) [Suc i..<num_fields flds]) = Some b" "xs = a @ b"
    using Suc.prems(1,3) by (auto simp: upt_conv_Cons split: bind_splits)
  have a: "pemits (one (iter_at flds src i)) a" using one [of "iter_at flds src i" a] ab Suc.prems(4) pd by simp
  show ?case
  proof (cases "Suc i < num_fields flds")
    case True
    then have nx: "pb_field_iter_next (iter_at flds src i) = (True, iter_at flds src (Suc i))"
      using iter_next_at [OF ok Suc.prems(1)] by simp
    have "pemits (encode_loop one k (iter_at flds src (Suc i))) b"
      using Suc.IH [OF True _ ab(2)] Suc.prems(2,4) ab(3) by simp
    then show ?thesis using a ab(3) Suc.prems(4) by (simp add: nx pemits_bind)
  next
    case False
    then have nx: "pb_field_iter_next (iter_at flds src i) = (False, iter_at flds src 0)"
      using iter_next_at [OF ok Suc.prems(1)] by simp
    have "b = []" using ab(2) False by simp
    then show ?thesis using a ab(3) Suc.prems(4) pemits_bind [OF a pemits_lift [OF emits_return]] by (simp add: nx)
  qed
qed simp

lemma pb_encode_wire: "enc_ok (pb_encode n env) (wire n env)"
proof (induction n)
  case (Suc n)
  show ?case unfolding enc_ok_def
  proof (intro allI impI)
    fix flds src xs
    assume w: "wire (Suc n) env flds src = Some xs"
    show "length xs < 2 ^ 62 \<and> pemits (pb_encode (Suc n) env flds src) xs"
    proof (cases "fld_tag (flds ! 0) = 0")
      case True
      then show ?thesis using w pemits_lift [OF emits_return] by (auto simp: iter_begin_at)
    next
      case False
      then have ok: "msg_ok flds" and c: "concat_opt (map (\<lambda>i. wire_field env n (wire n env) (flds ! i) (src + fst (layout flds i))) [0..<num_fields flds]) = Some xs"
        "length xs < 2 ^ 62" using w by (auto split: if_splits bind_splits)
      have nf: "0 < num_fields flds"
      proof (rule ccontr)
        assume "\<not> 0 < num_fields flds"
        then have "length flds = 1" using ok by (cases flds) (auto simp: msg_ok_def num_fields_def)
        then show False using ok False by (auto simp: msg_ok_def last_conv_nth)
      qed
      have "pemits (encode_loop (encode_one env n (pb_encode n env)) (length flds) (iter_at flds src 0)) xs"
        by (rule pemits_encode_loop [OF ok nf _ pemits_one [OF Suc] c(1)]) (use c(2) in \<open>auto simp: num_fields_def\<close>)
      then show ?thesis using False c(2) by (simp add: iter_begin_at)
    qed
  qed
qed (simp add: enc_ok_def)

section \<open>The contract of the encoder\<close>

lemma pemits_fresh_buffer:
  assumes "pemits m xs" "length mem < 2 ^ 63"
  shows "\<exists>r os. m (pb_ostream_from_buffer mem (length mem)) = Some (r, os)
    \<and> (if length xs \<le> length mem
       then r = Some () \<and> os_bytes_written os = length xs \<and> fst (os_state os) = xs @ drop (length xs) mem
       else r = None \<and> os_errmsg os \<noteq> None \<and> length (fst (os_state os)) = length mem)"
proof -
  let ?o = "pb_ostream_from_buffer mem (length mem)"
  have o: "os_bytes_written ?o = 0" "os_max_size ?o = length mem" "os_state ?o = (mem, 0)" by (simp_all add: pb_ostream_from_buffer_def)
  have b: "on_buf ?o mem 0" by (rule on_fresh_buf [OF assms(2)])
  show ?thesis
  proof (cases "length xs \<le> length mem")
    case True
    then have "m ?o = Some (Some (), advance ?o xs)" using pemits_on_buf [OF assms(1) b] o by simp
    then show ?thesis using True o by (auto simp: advance_state [OF o(3)] memcpy_at_0)
  next
    case False
    then obtain os' where "m ?o = Some (None, os')" "overflowed ?o os'" using pemits_on_buf [OF assms(1) b] o by auto
    then show ?thesis using False o(3) by (auto simp: overflowed_def split: prod.splits)
  qed
qed

text \<open>C28. \<open>pb_encode\<close> implements the wire format: for a message that has an encoding (no callback or extension is set,
  and the fields of proto3 submessages are stored as their flags and counts say), into a buffer with room for it, it writes exactly these bytes and nothing else and reports their number; into a smaller
  buffer it fails with an error message.\<close>

theorem pb_encode_correct:
  assumes "wire n env flds src = Some xs" "length mem < 2 ^ 63"
  shows "\<exists>r os. pb_encode n env flds src (pb_ostream_from_buffer mem (length mem)) = Some (r, os)
    \<and> (if length xs \<le> length mem
       then r = Some () \<and> os_bytes_written os = length xs \<and> fst (os_state os) = xs @ drop (length xs) mem
       else r = None \<and> os_errmsg os \<noteq> None \<and> length (fst (os_state os)) = length mem)"
  using pemits_fresh_buffer [OF _ assms(2)] pb_encode_wire assms(1) unfolding enc_ok_def by blast

text \<open>C29. The sizing pass is exact: \<open>pb_get_encoded_size\<close> returns the number of bytes that \<open>pb_encode\<close> writes, so
  a buffer is large enough for \<open>pb_encode\<close> exactly if it has that many bytes.\<close>

theorem pb_get_encoded_size_exact:
  assumes "wire n env flds src = Some xs" "length mem < 2 ^ 63"
  shows "\<exists>sz. pb_get_encoded_size n env s flds src = Some (Some sz)
    \<and> (sz \<le> length mem \<longleftrightarrow> (\<exists>os. pb_encode n env flds src (pb_ostream_from_buffer mem (length mem)) = Some (Some (), os)))
    \<and> (\<forall>os. pb_encode n env flds src (pb_ostream_from_buffer mem (length mem)) = Some (Some (), os) \<longrightarrow> os_bytes_written os = sz)"
proof -
  have p: "pemits (pb_encode n env flds src) xs" "length xs < 2 ^ 62" using pb_encode_wire assms(1) unfolding enc_ok_def by blast+
  have "szw (length xs) = length xs" using p(2) by (simp add: szw_def)
  then have "pb_get_encoded_size n env s flds src = Some (Some (length xs))"
    using pemits_sizing [OF p(1), of s] by (simp add: pb_get_encoded_size_def)
  then show ?thesis using pemits_fresh_buffer [OF p(1) assms(2)]
    by (intro exI [of _ "length xs"]) (auto split: if_splits)
qed

text \<open>A delimited message is framed for the decoder: what \<open>pb_encode_delimited\<close> wrote is read back by
  \<open>pb_make_string_substream\<close> as a substream over exactly the encoded message, with nothing left in the
  parent stream.\<close>

theorem pb_encode_delimited_framed:
  assumes "wire n env flds src = Some xs" "length xs < 2 ^ 32" "length mem < 2 ^ 63"
    and "pb_encode_delimited n env flds src (pb_ostream_from_buffer mem (length mem)) = Some (Some (), os)"
  shows "\<exists>rest. pb_make_string_substream (pb_istream_from_buffer (fst (os_state os)) (os_bytes_written os) :: unit pb_istream)
      = (Some (buf_stream (xs @ rest) (length xs) None), buf_stream (xs @ rest) 0 None)"
proof -
  have "pemits (pb_encode_delimited n env flds src) (delimited xs)"
    unfolding pb_encode_delimited_def
    by (rule pemits_submessage) (use pb_encode_wire assms(1) in \<open>auto simp: enc_ok_def\<close>)
  from pemits_fresh_buffer [OF this assms(3)] assms(4)
  have "os_bytes_written os = length (delimited xs)" "fst (os_state os) = delimited xs @ drop (length (delimited xs)) mem"
    by (auto split: if_splits)
  then show ?thesis
    using substream_delimited [OF assms(2), of "drop (length (delimited xs)) mem" 0 None, where 's = unit]
    by (simp add: from_buffer_stream) blast
qed

section \<open>An example message\<close>

definition demo_mem :: memory where
  "demo_mem a = (if a = 100 then 5 else if a = 104 then 1 else if a = 108 then 7 else 0)"

definition demo_env :: "obuf enc_env" where
  "demo_env = \<lparr>env_mem = demo_mem, env_msgs = \<lambda>_. demo_fields, env_encode_cb = \<lambda>_ _ _. st_fail,
     env_ext = \<lambda>_. \<lparr>ext_encode = None, ext_arg = demo_fields ! 0\<rparr>\<rparr>"

lemma demo_reads:
  "rd demo_mem 100 4 = [5, 0, 0, 0]" "rd demo_mem 104 4 = [1, 0, 0, 0]" "rd demo_mem 108 8 = [7, 0, 0, 0, 0, 0, 0, 0]"
  by (simp_all add: rd_def demo_mem_def upt_rec)

lemma demo_field0: "wire_field demo_env 0 wsub (demo_fields ! 0) 100 = Some [8, 5]"
  by (simp add: wire_field_def wire_basic_def wire_payload_def demo_fields_def demo_env_def pb_type_defs signed_val_def rd_word_def
      demo_reads wire_tagged_def wire_type_def tag_num_def leb128.simps)

lemma demo_field1: "wire_field demo_env 0 wsub (demo_fields ! 1) 108 = Some [26, 8, 7, 0, 0, 0, 0, 0, 0, 0]"
  by (simp add: wire_field_def wire_basic_def wire_array_def wire_payload_def demo_fields_def demo_env_def pb_type_defs rd_word_def
      rd_size_def demo_reads elem_addrs_def fixed64_bytes_def sized_def delimited_def tag_num_def leb128.simps)

lemma demo_wire: "wire 1 demo_env demo_fields 100 = Some [8, 5, 26, 8, 7, 0, 0, 0, 0, 0, 0, 0]"
proof -
  have l: "fst (layout demo_fields 0) = 0" "fst (layout demo_fields 1) = 8"
    by (simp_all add: demo_fields_def same_union_def prev_size_def pb_type_defs)
  have u: "[0..<2] = [0, 1 :: nat]" by (simp add: upt_rec)
  have t: "fld_tag (demo_fields ! 0) \<noteq> 0" by (simp add: demo_fields_def)
  show ?thesis
    using demo_field0 demo_field1 l demo_fields_ok t by (simp add: u sized_def)
qed

lemma demo_buf_length: "length demo_buf = 32"
  by (simp add: demo_buf_def)

theorem pb_encode_correct_witness:
  "\<exists>r os. pb_encode 1 demo_env demo_fields 100 (pb_ostream_from_buffer demo_buf (length demo_buf)) = Some (r, os)
     \<and> r = Some () \<and> os_bytes_written os = 12 \<and> take 12 (fst (os_state os)) = [8, 5, 26, 8, 7, 0, 0, 0, 0, 0, 0, 0]"
proof -
  have "length demo_buf < 2 ^ 63" by (simp add: demo_buf_length)
  from pb_encode_correct [OF demo_wire this] show ?thesis by (auto simp: demo_buf_length)
qed

lemma demo_pemits: "pemits (pb_encode 1 demo_env demo_fields 100) [8, 5, 26, 8, 7, 0, 0, 0, 0, 0, 0, 0]"
  using pb_encode_wire demo_wire unfolding enc_ok_def by blast

theorem pb_get_encoded_size_exact_witness:
  "\<exists>sz os. pb_get_encoded_size 1 demo_env ([], 0) demo_fields 100 = Some (Some sz)
     \<and> pb_encode 1 demo_env demo_fields 100 (pb_ostream_from_buffer demo_buf (length demo_buf)) = Some (Some (), os)
     \<and> os_bytes_written os = sz"
proof -
  have l: "length demo_buf < 2 ^ 63" by (simp add: demo_buf_length)
  from pemits_fresh_buffer [OF demo_pemits l] obtain os
    where "pb_encode 1 demo_env demo_fields 100 (pb_ostream_from_buffer demo_buf (length demo_buf)) = Some (Some (), os)"
    by (auto simp: demo_buf_length)
  then show ?thesis using pb_get_encoded_size_exact [OF demo_wire l, of "([], 0)"] by blast
qed

theorem pb_encode_delimited_framed_witness:
  "\<exists>os rest. pb_encode_delimited 1 demo_env demo_fields 100 (pb_ostream_from_buffer demo_buf (length demo_buf)) = Some (Some (), os)
     \<and> pb_make_string_substream (pb_istream_from_buffer (fst (os_state os)) (os_bytes_written os) :: unit pb_istream)
       = (Some (buf_stream ([8, 5, 26, 8, 7, 0, 0, 0, 0, 0, 0, 0] @ rest) 12 None), buf_stream ([8, 5, 26, 8, 7, 0, 0, 0, 0, 0, 0, 0] @ rest) 0 None)"
proof -
  let ?xs = "[8, 5, 26, 8, 7, 0, 0, 0, 0, 0, 0, 0] :: u8 list"
  have l: "length demo_buf < 2 ^ 63" "length ?xs < 2 ^ 32" "length ?xs = 12" by (simp_all add: demo_buf_length)
  have "pemits (pb_encode_delimited 1 demo_env demo_fields 100) (delimited ?xs)"
    unfolding pb_encode_delimited_def
    by (rule pemits_submessage, rule demo_pemits) simp
  moreover have "length (delimited ?xs) \<le> length demo_buf" by (simp add: delimited_def leb128.simps demo_buf_length)
  ultimately obtain os where os: "pb_encode_delimited 1 demo_env demo_fields 100 (pb_ostream_from_buffer demo_buf (length demo_buf)) = Some (Some (), os)"
    using pemits_fresh_buffer [OF _ l(1)] by (metis (mono_tags, lifting))
  show ?thesis using pb_encode_delimited_framed [OF demo_wire l(2,1) os] os unfolding l(3) by blast
qed

end
