(* ===== verification/Pb_Decode_Fields.thy ===== *)
theory Pb_Decode_Fields
  imports Pb_Decode_Safe Pb_Encode_Wire
begin

text \<open>
  Decoding what the encoder writes, for one value.  The table of decoders is run on the payload that the
  wire format of \<open>Pb_Encode_Wire\<close> gives for a value in memory, followed by any bytes: the value is copied
  to the destination, byte for byte, nothing else changes, and the stream stands at the bytes after the
  payload.
\<close>

section \<open>Little-endian integers in memory\<close>

lemma le_bytes_Suc: "le_bytes (Suc n) v = word_of_nat v # le_bytes n (v div 256)"
  unfolding le_bytes_def upt_conv_Cons [OF zero_less_Suc] map_Suc_upt [symmetric]
  by (simp add: div_mult2_eq)

lemma le_bytes_le_val: "length bs = n \<Longrightarrow> le_bytes n (le_val bs) = bs"
proof (induction bs arbitrary: n)
  case (Cons b bs)
  have "unat b < 256" using unsigned_less [of b, where 'a = nat] by simp
  then have "(unat b + 256 * le_val bs) div 256 = le_val bs" by simp
  moreover have "(word_of_nat (unat b + 256 * le_val bs) :: u8) = b"
    using \<open>unat b < 256\<close> by (simp add: word_unat_eq_iff unat_of_nat del: of_nat_add of_nat_mult)
  ultimately show ?case using Cons by (cases n) (simp_all add: le_bytes_Suc del: of_nat_add of_nat_mult)
qed (simp add: le_bytes_def)

lemma le_bytes_mod: "le_bytes n (v mod 256 ^ n) = le_bytes n v"
proof (induction n arbitrary: v)
  case (Suc n)
  have "v mod 256 ^ Suc n div 256 = v div 256 mod 256 ^ n" by (simp add: mod_mult2_eq)
  moreover have "(word_of_nat (v mod 256 ^ Suc n) :: u8) = word_of_nat v"
    by (simp add: word_unat_eq_iff unat_of_nat mod_mod_cancel)
  ultimately show ?case using Suc by (simp add: le_bytes_Suc)
qed (simp add: le_bytes_def)

lemma wr_append: "wr (wr mem a xs) (a + int (length xs)) ys = wr mem a (xs @ ys)"
proof (rule ext)
  fix x
  have "nat (x - (a + int (length xs))) = nat (x - a) - length xs" by linarith
  then show "wr (wr mem a xs) (a + int (length xs)) ys x = wr mem a (xs @ ys) x" by (auto simp: wr_def nth_append)
qed

section \<open>Extension of integers\<close>

lemma ext_inverse:
  "(ucast (scast (w8 :: u8) :: u64) :: u8) = w8" "(ucast (scast (w16 :: u16) :: u64) :: u16) = w16"
  "(ucast (scast (w32 :: u32) :: u64) :: u32) = w32" "(ucast (ucast w8 :: u64) :: u8) = w8"
  "(ucast (ucast w16 :: u64) :: u16) = w16" "(ucast (ucast w32 :: u64) :: u32) = w32"
  by (rule bit_word_eqI, simp add: bit_simps)+

lemma scast_via_u32:
  "scast (ucast (scast (w8 :: u8) :: u64) :: u32) = (scast w8 :: u64)"
  "scast (ucast (scast (w16 :: u16) :: u64) :: u32) = (scast w16 :: u64)"
  by (rule bit_word_eqI, simp add: bit_simps min_def)+

text \<open>The low bytes of an extended integer are the bytes it was read from.\<close>

lemma rd_word_bytes:
  assumes "unat v mod 256 ^ n = unat (rd_word mem src n :: 'a::len word)" "LENGTH('a) = 8 * n"
  shows "le_bytes n (unat v) = rd mem src n"
proof -
  have "le_val (rd mem src n) < 256 ^ n" using le_val_bound [of "rd mem src n"] by simp
  also have "(256 :: nat) ^ n = 2 ^ LENGTH('a)" using assms(2) by (simp add: power_mult)
  finally have "unat (rd_word mem src n :: 'a word) = le_val (rd mem src n)" by (simp add: rd_word_def unat_of_nat)
  then show ?thesis using le_bytes_mod [of n "unat v"] assms(1) le_bytes_le_val [of "rd mem src n" n] by simp
qed

lemma low_bytes:
  fixes v :: u64
  shows "unat v mod 256 ^ 1 = unat (ucast v :: u8)" "unat v mod 256 ^ 2 = unat (ucast v :: u16)"
    "unat v mod 256 ^ 4 = unat (ucast v :: u32)" "unat v mod 256 ^ 8 = unat v"
  using unsigned_less [of v, where 'a = nat]
  by (simp_all add: unsigned_ucast_eq take_bit_eq_mod)

lemma val_bytes:
  fixes v :: u64
  shows "ucast v = (rd_word mem src 1 :: u8) \<Longrightarrow> le_bytes 1 (unat v) = rd mem src 1"
    "ucast v = (rd_word mem src 2 :: u16) \<Longrightarrow> le_bytes 2 (unat v) = rd mem src 2"
    "ucast v = (rd_word mem src 4 :: u32) \<Longrightarrow> le_bytes 4 (unat v) = rd mem src 4"
    "v = rd_word mem src 8 \<Longrightarrow> le_bytes 8 (unat v) = rd mem src 8"
  subgoal by (rule rd_word_bytes [where 'a = 8]) (simp_all only: low_bytes, simp)
  subgoal by (rule rd_word_bytes [where 'a = 16]) (simp_all only: low_bytes, simp)
  subgoal by (rule rd_word_bytes [where 'a = 32]) (simp_all only: low_bytes, simp)
  subgoal by (rule rd_word_bytes [where 'a = 64]) (simp_all only: low_bytes, simp)
  done

lemma signed_val_bytes: "signed_val mem n src = Some v \<Longrightarrow> le_bytes n (unat v) = rd mem src n"
  unfolding signed_val_def by (auto simp del: One_nat_def split: if_splits intro!: val_bytes ext_inverse)

lemma unsigned_val_bytes: "unsigned_val mem n src = Some v \<Longrightarrow> le_bytes n (unat v) = rd mem src n"
  unfolding unsigned_val_def by (auto simp del: One_nat_def split: if_splits intro!: val_bytes ext_inverse)

lemma signed_val_ext:
  assumes "signed_val mem n src = Some v"
  shows "sign_ext n v = v" "n = 8 \<or> n = 4 \<or> n = 2 \<or> n = 1" "n \<noteq> 8 \<Longrightarrow> scast (ucast v :: u32) = v"
  using assms by (auto simp: signed_val_def sign_ext_def ext_inverse scast_via_u32 split: if_splits)

lemma unsigned_val_ext:
  assumes "unsigned_val mem n src = Some v"
  shows "zero_ext n v = v" "n = 8 \<or> n = 4 \<or> n = 2 \<or> n = 1"
  using assms by (auto simp: unsigned_val_def zero_ext_def ext_inverse split: if_splits)

section \<open>Decoding a payload\<close>

definition buf_at :: "u8 list \<Rightarrow> nat \<Rightarrow> string option \<Rightarrow> memory \<Rightarrow> 's dstate" where
  "buf_at bs k e mem = \<lparr>ds_in = buf_stream bs k e, ds_mem = mem\<rparr>"

text \<open>The bytes of a value in memory.\<close>

definition image :: "memory \<Rightarrow> pb_field \<Rightarrow> int \<Rightarrow> u8 list" where
  "image mem f src =
     (let lt = PB_LTYPE (fld_type f) in
      if lt = PB_LTYPE_BYTES then rd mem src (4 + rd_size mem src)
      else if lt = PB_LTYPE_STRING then c_string mem src (fld_data_size f) @ [0]
      else if lt = PB_LTYPE_FIXED32 then rd mem src 4
      else if lt = PB_LTYPE_FIXED64 then rd mem src 8
      else rd mem src (fld_data_size f))"

lemma image_simps:
  "PB_LTYPE (fld_type f) \<in> {PB_LTYPE_VARINT, PB_LTYPE_UVARINT, PB_LTYPE_SVARINT, PB_LTYPE_FIXED_LENGTH_BYTES}
    \<Longrightarrow> image mem f src = rd mem src (fld_data_size f)"
  "PB_LTYPE (fld_type f) = PB_LTYPE_FIXED32 \<Longrightarrow> image mem f src = rd mem src 4"
  "PB_LTYPE (fld_type f) = PB_LTYPE_FIXED64 \<Longrightarrow> image mem f src = rd mem src 8"
  "PB_LTYPE (fld_type f) = PB_LTYPE_BYTES \<Longrightarrow> image mem f src = rd mem src (4 + rd_size mem src)"
  "PB_LTYPE (fld_type f) = PB_LTYPE_STRING
    \<Longrightarrow> image mem f src = c_string mem src (fld_data_size f) @ [0]"
  unfolding image_def Let_def by (auto simp: pb_type_defs)

named_theorems dec_simps \<open>steps of the decoder on a buffer\<close>

lemma d_in_buf:
  "m (buf_stream bs k e) = (r, buf_stream bs' k' e') \<Longrightarrow> d_in m (buf_at bs k e mem) = Some (r, buf_at bs' k' e' mem)"
  by (simp add: d_in_def buf_at_def)

lemma bind_in_buf [dec_simps]:
  "p_bind (d_in m) f (buf_at bs k e mem) =
     (case m (buf_stream bs k e) of
        (None, t) \<Rightarrow> Some (None, \<lparr>ds_in = t, ds_mem = mem\<rparr>) | (Some x, t) \<Rightarrow> f x \<lparr>ds_in = t, ds_mem = mem\<rparr>)"
  by (simp add: p_bind_def d_in_def buf_at_def split: prod.splits option.splits)

lemma mk_buf_at [dec_simps]: "\<lparr>ds_in = buf_stream bs k e, ds_mem = mem\<rparr> = buf_at bs k e mem"
  by (simp add: buf_at_def)

lemma d_store_buf [dec_simps]:
  "d_store a xs (buf_at bs k e mem) = Some (Some (), buf_at bs k e (wr mem a xs))"
  "p_bind (d_store a xs) f (buf_at bs k e mem) = f () (buf_at bs k e (wr mem a xs))"
  by (simp_all add: d_store_def buf_at_def p_bind_def)

lemma d_return_buf [dec_simps]: "d_return x s = Some (Some x, s)"
  by (simp add: d_return_def p_lift_def st_return_def)

lemma store_clamped_buf:
  assumes "ext (fld_data_size f) v = v" "fld_data_size f = 8 \<or> fld_data_size f = 4 \<or> fld_data_size f = 2 \<or> fld_data_size f = 1"
  shows "store_clamped f dest ext v (buf_at bs k e mem) = Some (Some (), buf_at bs k e (wr mem dest (le_bytes (fld_data_size f) (unat v))))"
  using assms(2) unfolding store_clamped_def Let_def
  by (simp add: dec_simps assms(1) del: One_nat_def)

lemma dec_varint_buf:
  assumes "signed_val m (fld_data_size f) src = Some v"
  shows "pb_dec_varint f dest (buf_at (leb128 (unat v) @ rest) (length (leb128 (unat v)) + k) e mem)
    = Some (Some (), buf_at rest k e (wr mem dest (rd m src (fld_data_size f))))"
proof -
  have "(if fld_data_size f = 8 then v else scast (ucast v :: u32)) = v" using signed_val_ext(3) [OF assms] by simp
  then show ?thesis
    using store_clamped_buf [of sign_ext f v dest rest k e mem] signed_val_ext [OF assms] signed_val_bytes [OF assms]
    by (simp add: pb_dec_varint_def dec_simps wire_simps)
qed

lemma dec_svarint_buf:
  assumes "signed_val m (fld_data_size f) src = Some v"
  shows "pb_dec_svarint f dest (buf_at (leb128 (unat (zigzag v)) @ rest) (length (leb128 (unat (zigzag v))) + k) e mem)
    = Some (Some (), buf_at rest k e (wr mem dest (rd m src (fld_data_size f))))"
  using store_clamped_buf [of sign_ext f v dest rest k e mem] signed_val_ext [OF assms] signed_val_bytes [OF assms]
  by (simp add: pb_dec_svarint_def dec_simps wire_simps)

lemma dec_uvarint_buf:
  assumes "unsigned_val m (fld_data_size f) src = Some v"
  shows "pb_dec_uvarint f dest (buf_at (leb128 (unat v) @ rest) (length (leb128 (unat v)) + k) e mem)
    = Some (Some (), buf_at rest k e (wr mem dest (rd m src (fld_data_size f))))"
  using store_clamped_buf [of zero_ext f v dest rest k e mem] unsigned_val_ext [OF assms] unsigned_val_bytes [OF assms]
  by (simp add: pb_dec_uvarint_def dec_simps wire_simps)

lemma unat_rd_word:
  assumes "LENGTH('a) = 8 * n"
  shows "unat (rd_word m src n :: 'a::len word) = le_val (rd m src n)"
  using le_val_bound [of "rd m src n"] assms by (simp add: rd_word_def unat_of_nat power_mult)

lemma dec_fixed_buf:
  "pb_dec_fixed32 dest (buf_at (fixed32_bytes (rd_word m src 4) @ rest) (4 + k) e mem)
    = Some (Some (), buf_at rest k e (wr mem dest (rd m src 4)))"
  "pb_dec_fixed64 dest (buf_at (fixed64_bytes (rd_word m src 8) @ rest) (8 + k) e mem)
    = Some (Some (), buf_at rest k e (wr mem dest (rd m src 8)))"
proof -
  have "le_bytes 4 (unat (rd_word m src 4 :: u32)) = rd m src 4" "le_bytes 8 (unat (rd_word m src 8 :: u64)) = rd m src 8"
    by (simp_all add: unat_rd_word le_bytes_le_val)
  then show "pb_dec_fixed32 dest (buf_at (fixed32_bytes (rd_word m src 4) @ rest) (4 + k) e mem)
      = Some (Some (), buf_at rest k e (wr mem dest (rd m src 4)))"
    "pb_dec_fixed64 dest (buf_at (fixed64_bytes (rd_word m src 8) @ rest) (8 + k) e mem)
      = Some (Some (), buf_at rest k e (wr mem dest (rd m src 8)))"
    unfolding pb_dec_fixed32_def pb_dec_fixed64_def
    by (simp_all only: dec_simps decode_fixed32_bytes decode_fixed64_bytes prod.case option.case)
qed

lemma dec_length_buf:
  assumes "length ys < 2 ^ 32"
  shows "d_in pb_decode_varint32 (buf_at (delimited ys @ rest) (length (delimited ys) + k) e mem)
    = Some (Some (word_of_nat (length ys)), buf_at (ys @ rest) (length ys + k) e mem)"
    "unat (word_of_nat (length ys) :: u32) = length ys"
proof -
  have "pb_decode_varint32 (buf_stream (leb128 (length ys) @ ys @ rest) (length (leb128 (length ys)) + (length ys + k)) e)
    = (Some (word_of_nat (length ys)), buf_stream (ys @ rest) (length ys + k) e)"
    by (rule decode_varint32_leb128 [OF assms])
  then show "d_in pb_decode_varint32 (buf_at (delimited ys @ rest) (length (delimited ys) + k) e mem)
    = Some (Some (word_of_nat (length ys)), buf_at (ys @ rest) (length ys + k) e mem)"
    by (intro d_in_buf) (simp add: delimited_def add.assoc)
  show "unat (word_of_nat (length ys) :: u32) = length ys" using assms by (simp add: unat_of_nat)
qed

lemma read_buf:
  "d_in (pb_read_to (length ys)) (buf_at (ys @ rest) (length ys + k) e mem) = Some (Some ys, buf_at rest k e mem)"
  by (intro d_in_buf read_to_buf) simp

lemma bind_length_buf:
  assumes "length ys < 2 ^ 32"
  shows "p_bind (d_in pb_decode_varint32) f (buf_at (delimited ys @ rest) (length (delimited ys) + k) e mem)
    = f (word_of_nat (length ys)) (buf_at (ys @ rest) (length ys + k) e mem)"
  unfolding p_bind_def dec_length_buf(1) [OF assms] by simp

lemma bind_read_buf:
  "p_bind (d_in (pb_read_to (length ys))) f (buf_at (ys @ rest) (length ys + k) e mem) = f ys (buf_at rest k e mem)"
  unfolding p_bind_def read_buf by simp

lemma rd_add: "rd m a (i + j) = rd m a i @ rd m (a + int i) j"
proof -
  have "map (\<lambda>i. m (a + int i)) [i..<i + j] = map (\<lambda>i'. m (a + int i + int i')) [0..<j]"
    by (rule nth_equalityI) (simp_all add: add.assoc)
  then show ?thesis unfolding rd_def upt_add_eq_append [OF le0] map_append by simp
qed

lemma dec_bytes_buf:
  assumes "PB_ATYPE (fld_type f) = PB_ATYPE_STATIC" "rd_size m src + 4 \<le> fld_data_size f"
  shows "pb_dec_bytes f dest (buf_at (delimited (rd m (src + 4) (rd_size m src)) @ rest)
        (length (delimited (rd m (src + 4) (rd_size m src))) + k) e mem)
    = Some (Some (), buf_at rest k e (wr mem dest (rd m src (4 + rd_size m src))))"
proof -
  let ?n = "rd_size m src" let ?ys = "rd m (src + 4) ?n"
  have lt: "length ?ys < 2 ^ 32" using rd_size_lt [of m src] by simp
  have u: "unat (word_of_nat (length ?ys) :: u32) = ?n" using dec_length_buf(2) [OF lt] by simp
  have st: "PB_ATYPE (fld_type f) \<noteq> PB_ATYPE_POINTER" using assms(1) by (simp add: PB_ATYPE_STATIC_def PB_ATYPE_POINTER_def)
  have sz: "\<not> PB_SIZE_MAX < ?n" using lt by (simp add: PB_SIZE_MAX_def)
  have i: "le_bytes 4 ?n @ ?ys = rd m src (4 + ?n)" using rd_add [of m src 4 ?n] by (simp add: rd_size_def le_bytes_le_val)
  have w: "wr (wr mem dest (le_bytes 4 ?n)) (dest + 4) ?ys = wr mem dest (rd m src (4 + ?n))"
    using wr_append [of mem dest "le_bytes 4 ?n" ?ys] i by simp
  show ?thesis
    using bind_read_buf [of ?ys "d_store (dest + 4)" rest k e "wr mem dest (le_bytes 4 ?n)"] assms(2) st sz w
    unfolding pb_dec_bytes_def bind_length_buf [OF lt] Let_def bytes_allocsize u
    by (simp add: dec_simps)
qed

lemma dec_string_buf:
  assumes "PB_ATYPE (fld_type f) = PB_ATYPE_STATIC" "length ys < fld_data_size f" "fld_data_size f < 2 ^ 32"
  shows "pb_dec_string f dest (buf_at (delimited ys @ rest) (length (delimited ys) + k) e mem)
    = Some (Some (), buf_at rest k e (wr mem dest (ys @ [0])))"
proof -
  have lt: "length ys < 2 ^ 32" using assms(2,3) by simp
  let ?w = "word_of_nat (length ys) :: u32"
  have u: "unat ?w = length ys" using dec_length_buf(2) [OF lt] .
  have u1: "unat (?w + 1) = length ys + 1"
  proof -
    have "?w + 1 = word_of_nat (length ys + 1)" by simp
    also have "unat (word_of_nat (length ys + 1) :: u32) = length ys + 1" using assms(2,3) by (subst unat_of_nat) simp
    finally show ?thesis .
  qed
  have st: "PB_ATYPE (fld_type f) \<noteq> PB_ATYPE_POINTER" using assms(1) by (simp add: PB_ATYPE_STATIC_def PB_ATYPE_POINTER_def)
  show ?thesis
    using assms(2) st wr_append [of mem dest ys "[0]"]
    unfolding pb_dec_string_def bind_length_buf [OF lt] Let_def u1 u
    by (simp add: buf_at_def read_to_buf)
qed

lemma dec_fixed_length_buf:
  assumes "fld_data_size f < 2 ^ 32"
  shows "pb_dec_fixed_length_bytes f dest (buf_at (delimited (rd m src (fld_data_size f)) @ rest)
        (length (delimited (rd m src (fld_data_size f))) + k) e mem)
    = Some (Some (), buf_at rest k e (wr mem dest (rd m src (fld_data_size f))))"
proof -
  let ?n = "fld_data_size f" let ?ys = "rd m src ?n"
  have lt: "length ?ys < 2 ^ 32" using assms by simp
  have u: "unat (word_of_nat (length ?ys) :: u32) = ?n" using dec_length_buf(2) [OF lt] by simp
  have sz: "\<not> PB_SIZE_MAX < ?n" using assms by (simp add: PB_SIZE_MAX_def)
  have z: "(word_of_nat (length ?ys) :: u32) = 0 \<longleftrightarrow> ?n = 0" using u by (metis unat_eq_zero)
  show ?thesis
  proof (cases "?n = 0")
    case True
    then show ?thesis using sz z
      unfolding pb_dec_fixed_length_bytes_def bind_length_buf [OF lt] u by (simp add: dec_simps rd_def)
  next
    case False
    then show ?thesis using sz z bind_read_buf [of ?ys "d_store dest" rest k e mem]
      unfolding pb_dec_fixed_length_bytes_def bind_length_buf [OF lt] u by (simp add: dec_simps)
  qed
qed

text \<open>A string that fills its field has no terminator.  The encoder writes all of its bytes, and the decoder of the same field
  has no room for them.\<close>

lemma unterminated_string_rejected:
  assumes "wire_payload env wsub f src = Some xs" "PB_ATYPE (fld_type f) = PB_ATYPE_STATIC"
    "PB_LTYPE (fld_type f) = PB_LTYPE_STRING" "src \<noteq> 0" "fld_data_size f < 2 ^ 32 - 1"
    "0 \<notin> set (rd (env_mem env) src (fld_data_size f))"
  shows "xs = delimited (rd (env_mem env) src (fld_data_size f))"
    and "\<exists>s. PB_DECODERS denv dec PB_LTYPE_STRING f dest (buf_at (xs @ rest) (length xs + k) None mem)
      = Some (None, s) \<and> is_errmsg (ds_in s) = Some ''string overflow''"
proof -
  let ?n = "fld_data_size f" let ?ys = "rd (env_mem env) src ?n"
  have st: "PB_ATYPE (fld_type f) \<noteq> PB_ATYPE_POINTER" using assms(2) by (simp add: PB_ATYPE_STATIC_def PB_ATYPE_POINTER_def)
  have y: "c_string (env_mem env) src ?n = ?ys" using assms(6) unfolding c_string_def by (auto simp: takeWhile_eq_all_conv)
  have lt: "length ?ys < 2 ^ 32" using assms(5) by simp
  show xs: "xs = delimited ?ys" using assms(1,3,4) st by (auto simp: wire_payload_def string_max_def y)
  let ?w = "word_of_nat (length ?ys) :: u32"
  have u: "unat ?w = ?n" using dec_length_buf(2) [OF lt] by simp
  have u1: "unat (?w + 1) = ?n + 1" using u assms(5) by (subst unat_plus_simple [THEN iffD1]) (simp_all add: no_olen_add_nat)
  show "\<exists>s. PB_DECODERS denv dec PB_LTYPE_STRING f dest (buf_at (xs @ rest) (length xs + k) None mem)
      = Some (None, s) \<and> is_errmsg (ds_in s) = Some ''string overflow''"
    unfolding decoders_simps pb_dec_string_def xs bind_length_buf [OF lt] Let_def u1 u using st
    by (simp add: d_in_def buf_at_def is_error_def buf_stream_def)
qed

text \<open>C33. Let \<open>xs\<close> be the payload that the encoder writes for the value at \<open>src\<close> of a static field that is not a
  submessage (a string with its terminator inside of the field).  On \<open>xs\<close> followed by any other bytes the
  decoder of the field succeeds, stores the bytes of the value at \<open>dest\<close>, changes no other byte, and
  leaves the stream at what follows \<open>xs\<close>.\<close>

theorem pb_field_payload_roundtrip:
  assumes "wire_payload env wsub f src = Some xs" "PB_ATYPE (fld_type f) = PB_ATYPE_STATIC"
    "PB_LTYPE (fld_type f) \<noteq> PB_LTYPE_SUBMESSAGE" "src \<noteq> 0" "fld_data_size f < 2 ^ 32"
    "PB_LTYPE (fld_type f) = PB_LTYPE_STRING \<longrightarrow> 0 \<in> set (rd (env_mem env) src (fld_data_size f))"
  shows "PB_DECODERS denv dec (PB_LTYPE (fld_type f)) f dest (buf_at (xs @ rest) (length xs + k) e mem)
    = Some (Some (), buf_at rest k e (wr mem dest (image (env_mem env) f src)))"
proof -
  have st: "PB_ATYPE (fld_type f) \<noteq> PB_ATYPE_POINTER" using assms(2) by (simp add: PB_ATYPE_STATIC_def PB_ATYPE_POINTER_def)
  note w = assms(1) [unfolded wire_payload_def Let_def]
  show ?thesis
  proof (rule ltype_cases [of "PB_LTYPE (fld_type f)"])
    assume "PB_LTYPE (fld_type f) = PB_LTYPE_VARINT"
    then show ?thesis using w by (auto simp: decoders_simps image_simps dec_varint_buf split: bind_splits)
  next
    assume "PB_LTYPE (fld_type f) = PB_LTYPE_UVARINT"
    then show ?thesis using w by (auto simp: decoders_simps image_simps dec_uvarint_buf split: bind_splits)
  next
    assume "PB_LTYPE (fld_type f) = PB_LTYPE_SVARINT"
    then show ?thesis using w by (auto simp: decoders_simps image_simps dec_svarint_buf split: bind_splits)
  next
    assume lt: "PB_LTYPE (fld_type f) = PB_LTYPE_FIXED32"
    then have "xs = fixed32_bytes (rd_word (env_mem env) src 4)" using w by simp
    then show ?thesis using lt by (simp only: decoders_simps image_simps length_fixed_bytes dec_fixed_buf)
  next
    assume lt: "PB_LTYPE (fld_type f) = PB_LTYPE_FIXED64"
    then have "xs = fixed64_bytes (rd_word (env_mem env) src 8)" using w by simp
    then show ?thesis using lt by (simp only: decoders_simps image_simps length_fixed_bytes dec_fixed_buf)
  next
    assume "PB_LTYPE (fld_type f) = PB_LTYPE_BYTES"
    then show ?thesis using w assms(2,4) by (auto simp: decoders_simps image_simps dec_bytes_buf split: if_splits)
  next
    assume "PB_LTYPE (fld_type f) = PB_LTYPE_STRING"
    then show ?thesis using w assms(2,4,5,6) st
      by (auto simp: decoders_simps image_simps dec_string_buf string_max_def c_string_terminated)
  next
    assume "PB_LTYPE (fld_type f) = PB_LTYPE_FIXED_LENGTH_BYTES"
    then show ?thesis using w assms(5) by (auto simp: decoders_simps image_simps dec_fixed_length_buf)
  qed (use w assms(3) in simp_all)
qed

definition demo_string :: pb_field where
  "demo_string = \<lparr>fld_tag = 4, fld_type = 0x06, fld_data_offset = 0, fld_size_offset = 0, fld_data_size = 8,
     fld_array_size = 0, fld_ptr = PtrNull\<rparr>"

definition demo_string_mem :: memory where
  "demo_string_mem = (\<lambda>x. if x = 200 then 104 else if x = 201 then 105 else if x = 203 then 9 else 0)"

lemma demo_string_rd: "rd demo_string_mem 200 8 = [104, 105, 0, 9, 0, 0, 0, 0]"
  by (simp add: rd_def demo_string_mem_def upt_rec)

lemma demo_string_wire: "wire_payload (demo_env\<lparr>env_mem := demo_string_mem\<rparr>) wsub demo_string 200 = Some [2, 104, 105]"
proof -
  have l: "PB_LTYPE (fld_type demo_string) = PB_LTYPE_STRING" by (simp add: demo_string_def pb_type_defs)
  have m: "string_max demo_string = 8" by (simp add: string_max_def demo_string_def pb_type_defs)
  show ?thesis unfolding wire_payload_def Let_def l m
    by (simp add: c_string_def demo_string_rd sized_def delimited_def leb128.simps)
qed

theorem pb_field_payload_roundtrip_witness:
  "PB_DECODERS demo_dec_env (\<lambda>_ _ _. p_undef) (PB_LTYPE (fld_type demo_string)) demo_string 300
       (buf_at ([2, 104, 105] @ [8, 1]) (length [2, 104, 105 :: u8] + 2) None (\<lambda>_. 0xFF))
     = Some (Some (), buf_at [8, 1] 2 None (wr (\<lambda>_. 0xFF) 300 [104, 105, 0]))"
proof -
  have l: "PB_LTYPE (fld_type demo_string) = PB_LTYPE_STRING" by (simp add: demo_string_def pb_type_defs)
  have sz: "fld_data_size demo_string = 8" by (simp add: demo_string_def)
  have i: "image demo_string_mem demo_string 200 = [104, 105, 0]"
    by (simp add: image_simps(5) [OF l] sz c_string_def demo_string_rd)
  have a: "PB_ATYPE (fld_type demo_string) = PB_ATYPE_STATIC" by (simp add: demo_string_def pb_type_defs)
  show ?thesis
    using pb_field_payload_roundtrip [OF demo_string_wire a, of demo_dec_env "\<lambda>_ _ _. p_undef" 300 "[8, 1]" 2 None "\<lambda>_. 0xFF"]
    by (simp add: l sz i demo_string_rd ltype_distinct [symmetric])
qed

end
