(* ===== verification/Modes.thy ===== *)
theory Modes
  imports Mem
begin

text \<open>
  The block cipher modes of \<open>crypto/fipsmodule/modes\<close>: \<open>cbc.c\<close>, \<open>ctr.c\<close>, \<open>cfb.c\<close> and \<open>ofb.c\<close>.  The block cipher is
  an argument of every function, as in the code (\<open>block128_f\<close> together with the key).  The functions of \<open>cbc.c\<close> take
  buffers that may overlap, so they work on a memory and addresses; the stream modes read each input byte before
  they write the output byte at the same position and are modelled on the byte strings themselves.
  \<open>STRICT_ALIGNMENT\<close> is 0 on the 64-bit targets, and \<open>size_t\<close> has 8 bytes.
\<close>

type_synonym block128_f = "u8 list \<Rightarrow> u8 list"

section \<open>Memory and words\<close>

type_synonym bmem = "nat \<Rightarrow> u8"

definition ld :: "bmem \<Rightarrow> nat \<Rightarrow> nat \<Rightarrow> u8 list" where
  "ld m a n = map m [a..<a + n]"

definition wr :: "bmem \<Rightarrow> nat \<Rightarrow> u8 list \<Rightarrow> bmem" where
  "wr m a bs = (\<lambda>x. if a \<le> x \<and> x < a + length bs then bs ! (x - a) else m x)"

text \<open>The argument of \<open>load_word_le\<close> and the result of \<open>store_word_le\<close> are the eight bytes at the pointer.\<close>

definition load_word_le :: "u8 list \<Rightarrow> u64" where
  "load_word_le bs = word_of_nat (le_val (take 8 bs))"

definition store_word_le :: "u64 \<Rightarrow> u8 list" where
  "store_word_le v = le_enc 8 (unat v)"

section \<open>Cipher block chaining\<close>

text \<open>The loop over the two words of a block: \<open>out\<close> becomes the exclusive or of the blocks at \<open>a\<close> and \<open>b\<close>.\<close>

definition xor_words :: "bmem \<Rightarrow> nat \<Rightarrow> nat \<Rightarrow> nat \<Rightarrow> bmem" where
  "xor_words m out a b =
     foldl (\<lambda>m n. wr m (out + n) (store_word_le (load_word_le (ld m (a + n) 8) XOR load_word_le (ld m (b + n) 8)))) m [0, 8]"

fun cbc_encrypt_blocks :: "block128_f \<Rightarrow> bmem \<Rightarrow> nat \<Rightarrow> nat \<Rightarrow> nat \<Rightarrow> nat \<Rightarrow> bmem \<times> nat \<times> nat \<times> nat \<times> nat" where
  "cbc_encrypt_blocks block m inp out iv len =
     (if len \<ge> 16 then
        let m = xor_words m out inp iv; m = wr m out (block (ld m out 16)) in
        cbc_encrypt_blocks block m (inp + 16) (out + 16) out (len - 16)
      else (m, inp, out, iv, len))"

fun cbc_encrypt_tail :: "block128_f \<Rightarrow> bmem \<Rightarrow> nat \<Rightarrow> nat \<Rightarrow> nat \<Rightarrow> nat \<Rightarrow> bmem \<times> nat" where
  "cbc_encrypt_tail block m inp out iv len =
     (if len = 0 then (m, iv)
      else
        let k = min 16 len;
            m = foldl (\<lambda>m n. m(out + n := m (inp + n) XOR m (iv + n))) m [0..<k];
            m = foldl (\<lambda>m n. m(out + n := m (iv + n))) m [k..<16];
            m = wr m out (block (ld m out 16)) in
        if len \<le> 16 then (m, out)
        else cbc_encrypt_tail block m (inp + 16) (out + 16) out (len - 16))"

definition CRYPTO_cbc128_encrypt :: "block128_f \<Rightarrow> bmem \<Rightarrow> nat \<Rightarrow> nat \<Rightarrow> nat \<Rightarrow> nat \<Rightarrow> bmem" where
  "CRYPTO_cbc128_encrypt block m inp out len ivec =
     (case cbc_encrypt_blocks block m inp out ivec len of
        (m, inp, out, iv, len) \<Rightarrow>
          (case cbc_encrypt_tail block m inp out iv len of (m, iv) \<Rightarrow> wr m ivec (ld m iv 16)))"

text \<open>Decryption straight to \<open>out\<close>, and through a temporary block.\<close>

fun cbc_decrypt_direct :: "block128_f \<Rightarrow> bmem \<Rightarrow> nat \<Rightarrow> nat \<Rightarrow> nat \<Rightarrow> nat \<Rightarrow> bmem \<times> nat \<times> nat \<times> nat \<times> nat" where
  "cbc_decrypt_direct block m inp out iv len =
     (if len \<ge> 16 then
        let m = wr m out (block (ld m inp 16)); m = xor_words m out out iv in
        cbc_decrypt_direct block m (inp + 16) (out + 16) inp (len - 16)
      else (m, inp, out, iv, len))"

definition cbc_tmp_words :: "u8 list \<Rightarrow> bmem \<Rightarrow> nat \<Rightarrow> nat \<Rightarrow> nat \<Rightarrow> bmem" where
  "cbc_tmp_words tmp m inp out ivec =
     foldl (\<lambda>m n. let c = load_word_le (ld m (inp + n) 8);
                      m = wr m (out + n) (store_word_le (load_word_le (drop n tmp) XOR load_word_le (ld m (ivec + n) 8))) in
                  wr m (ivec + n) (store_word_le c)) m [0, 8]"

fun cbc_decrypt_tmp :: "block128_f \<Rightarrow> bmem \<Rightarrow> nat \<Rightarrow> nat \<Rightarrow> nat \<Rightarrow> nat \<Rightarrow> bmem \<times> nat \<times> nat \<times> nat" where
  "cbc_decrypt_tmp block m inp out ivec len =
     (if len \<ge> 16 then
        cbc_decrypt_tmp block (cbc_tmp_words (block (ld m inp 16)) m inp out ivec) (inp + 16) (out + 16) ivec (len - 16)
      else (m, inp, out, len))"

fun cbc_decrypt_tail :: "block128_f \<Rightarrow> bmem \<Rightarrow> nat \<Rightarrow> nat \<Rightarrow> nat \<Rightarrow> nat \<Rightarrow> bmem" where
  "cbc_decrypt_tail block m inp out ivec len =
     (if len = 0 then m
      else
        let tmp = block (ld m inp 16); k = min 16 len;
            m = foldl (\<lambda>m n. let c = m (inp + n); m = m(out + n := tmp ! n XOR m (ivec + n)) in m(ivec + n := c)) m [0..<k] in
        if len \<le> 16 then foldl (\<lambda>m n. m(ivec + n := m (inp + n))) m [k..<16]
        else cbc_decrypt_tail block m (inp + 16) (out + 16) ivec (len - 16))"

definition CRYPTO_cbc128_decrypt :: "block128_f \<Rightarrow> bmem \<Rightarrow> nat \<Rightarrow> nat \<Rightarrow> nat \<Rightarrow> nat \<Rightarrow> bmem" where
  "CRYPTO_cbc128_decrypt block m inp out len ivec =
     (if (inp \<ge> 32 \<and> out \<le> inp - 32) \<or> inp < out then
        (case cbc_decrypt_direct block m inp out ivec len of
           (m, inp, out, iv, len) \<Rightarrow> cbc_decrypt_tail block (wr m ivec (ld m iv 16)) inp out ivec len)
      else
        (case cbc_decrypt_tmp block m inp out ivec len of
           (m, inp, out, len) \<Rightarrow> cbc_decrypt_tail block m inp out ivec len))"

declare cbc_encrypt_blocks.simps [simp del] cbc_encrypt_tail.simps [simp del] cbc_decrypt_direct.simps [simp del]
  cbc_decrypt_tmp.simps [simp del] cbc_decrypt_tail.simps [simp del]

section \<open>Counter mode\<close>

text \<open>\<open>inc_loop k\<close> is the loop over the bytes \<open>k - 1, \<dots>, 0\<close> of a counter with the carry \<open>c\<close>.\<close>

primrec inc_loop :: "nat \<Rightarrow> u8 list \<Rightarrow> u32 \<Rightarrow> u8 list" where
  "inc_loop 0 counter c = counter"
| "inc_loop (Suc n) counter c = (let c = c + ucast (counter ! n) in inc_loop n (counter[n := ucast c]) (drop_bit 8 c))"

definition ctr128_inc :: "u8 list \<Rightarrow> u8 list" where
  "ctr128_inc counter = inc_loop 16 counter 1"

definition ctr96_inc :: "u8 list \<Rightarrow> u8 list" where
  "ctr96_inc counter = inc_loop 12 counter 1"

definition GETU32 :: "u8 list \<Rightarrow> u32" where
  "GETU32 bs = word_of_nat (be_val (take 4 bs))"

definition PUTU32 :: "u32 \<Rightarrow> u8 list" where
  "PUTU32 v = be_enc 4 (unat v)"

text \<open>The state of a stream: \<open>ivec\<close>, \<open>ecount_buf\<close> and \<open>*num\<close>.\<close>

record ctr_state =
  cs_ivec :: "u8 list"
  cs_ecount_buf :: "u8 list"
  cs_num :: nat

definition xor_block :: "u8 list \<Rightarrow> u8 list \<Rightarrow> u8 list" where
  "xor_block a b = concat (map (\<lambda>n. store_word_le (load_word_le (drop n a) XOR load_word_le (drop n b))) [0, 8])"

text \<open>The bytes left of the current key stream block.\<close>

fun ctr_head :: "u8 list \<Rightarrow> nat \<Rightarrow> u8 list \<Rightarrow> u8 list \<times> nat \<times> u8 list" where
  "ctr_head ec n [] = ([], n, [])"
| "ctr_head ec n (b # bs) =
     (if n = 0 then ([], n, b # bs)
      else (case ctr_head ec ((n + 1) mod 16) bs of (out, n', rest) \<Rightarrow> ((b XOR ec ! n) # out, n', rest)))"

definition ctr_tail :: "u8 list \<Rightarrow> u8 list \<Rightarrow> u8 list" where
  "ctr_tail ec bs = map (\<lambda>n. bs ! n XOR ec ! n) [0..<length bs]"

fun ctr_blocks :: "block128_f \<Rightarrow> u8 list \<Rightarrow> u8 list \<Rightarrow> u8 list \<Rightarrow> u8 list \<times> u8 list \<times> u8 list \<times> u8 list" where
  "ctr_blocks block ivec ec bs =
     (if length bs \<ge> 16 then
        let ec = block ivec in
        (case ctr_blocks block (ctr128_inc ivec) ec (drop 16 bs) of
           (out, ivec', ec', rest) \<Rightarrow> (xor_block bs ec @ out, ivec', ec', rest))
      else ([], ivec, ec, bs))"

definition CRYPTO_ctr128_encrypt :: "block128_f \<Rightarrow> ctr_state \<Rightarrow> u8 list \<Rightarrow> u8 list \<times> ctr_state" where
  "CRYPTO_ctr128_encrypt block s bs =
     (case ctr_head (cs_ecount_buf s) (cs_num s) bs of
        (out1, n, bs1) \<Rightarrow>
          (case ctr_blocks block (cs_ivec s) (cs_ecount_buf s) bs1 of
             (out2, ivec, ec, bs2) \<Rightarrow>
               if bs2 \<noteq> [] then
                 let ec = block ivec in
                 (out1 @ out2 @ ctr_tail ec bs2, \<lparr>cs_ivec = ctr128_inc ivec, cs_ecount_buf = ec, cs_num = n + length bs2\<rparr>)
               else (out1 @ out2, \<lparr>cs_ivec = ivec, cs_ecount_buf = ec, cs_num = n\<rparr>)))"

text \<open>With a function \<open>func\<close> that encrypts a number of blocks and steps only the last 32 bits of the counter.\<close>

type_synonym ctr128_f = "u8 list \<Rightarrow> nat \<Rightarrow> u8 list \<Rightarrow> u8 list"

function ctr32_blocks :: "ctr128_f \<Rightarrow> u8 list \<Rightarrow> u32 \<Rightarrow> u8 list \<Rightarrow> u8 list \<times> u8 list \<times> u32 \<times> u8 list" where
  "ctr32_blocks func ivec ctr32 bs =
     (if length bs \<ge> 16 then
        let blocks0 = length bs div 16;
            blocks1 = (if blocks0 > 2 ^ 28 then 2 ^ 28 else blocks0);
            sum = ctr32 + word_of_nat blocks1;
            blocks = (if unat sum < blocks1 then blocks1 - unat sum else blocks1);
            ctr32 = (if unat sum < blocks1 then 0 else sum);
            out = func (take (16 * blocks) bs) blocks ivec;
            ivec = take 12 ivec @ PUTU32 ctr32;
            ivec = (if ctr32 = 0 then ctr96_inc ivec else ivec) in
        (case ctr32_blocks func ivec ctr32 (drop (16 * blocks) bs) of (out', r) \<Rightarrow> (out @ out', r))
      else ([], ivec, ctr32, bs))"
  by pat_completeness auto

termination
  by (relation "measure (\<lambda>(func, ivec, ctr32, bs). length bs)") (auto intro: diff_less simp: min_def)

definition CRYPTO_ctr128_encrypt_ctr32 :: "ctr128_f \<Rightarrow> ctr_state \<Rightarrow> u8 list \<Rightarrow> u8 list \<times> ctr_state" where
  "CRYPTO_ctr128_encrypt_ctr32 func s bs =
     (case ctr_head (cs_ecount_buf s) (cs_num s) bs of
        (out1, n, bs1) \<Rightarrow>
          (case ctr32_blocks func (cs_ivec s) (GETU32 (drop 12 (cs_ivec s))) bs1 of
             (out2, ivec, ctr32, bs2) \<Rightarrow>
               if bs2 \<noteq> [] then
                 let ec = func (replicate 16 0) 1 ivec;
                     ctr32 = ctr32 + 1;
                     ivec = take 12 ivec @ PUTU32 ctr32;
                     ivec = (if ctr32 = 0 then ctr96_inc ivec else ivec) in
                 (out1 @ out2 @ ctr_tail ec bs2, \<lparr>cs_ivec = ivec, cs_ecount_buf = ec, cs_num = n + length bs2\<rparr>)
               else (out1 @ out2, \<lparr>cs_ivec = ivec, cs_ecount_buf = cs_ecount_buf s, cs_num = n\<rparr>)))"

declare ctr_blocks.simps [simp del] ctr32_blocks.simps [simp del]

section \<open>Output feedback\<close>

record fb_state =
  fb_ivec :: "u8 list"
  fb_num :: nat

fun ofb_blocks :: "block128_f \<Rightarrow> u8 list \<Rightarrow> u8 list \<Rightarrow> u8 list \<times> u8 list \<times> u8 list" where
  "ofb_blocks block ivec bs =
     (if length bs \<ge> 16 then
        let ivec = block ivec in
        (case ofb_blocks block ivec (drop 16 bs) of (out, r) \<Rightarrow> (xor_block bs ivec @ out, r))
      else ([], ivec, bs))"

definition CRYPTO_ofb128_encrypt :: "block128_f \<Rightarrow> fb_state \<Rightarrow> u8 list \<Rightarrow> u8 list \<times> fb_state" where
  "CRYPTO_ofb128_encrypt block s bs =
     (case ctr_head (fb_ivec s) (fb_num s) bs of
        (out1, n, bs1) \<Rightarrow>
          (case ofb_blocks block (fb_ivec s) bs1 of
             (out2, ivec, bs2) \<Rightarrow>
               if bs2 \<noteq> [] then
                 let ivec = block ivec in
                 (out1 @ out2 @ ctr_tail ivec bs2, \<lparr>fb_ivec = ivec, fb_num = n + length bs2\<rparr>)
               else (out1 @ out2, \<lparr>fb_ivec = ivec, fb_num = n\<rparr>)))"

section \<open>Cipher feedback\<close>

text \<open>One byte at position \<open>n\<close> of \<open>ivec\<close>: the output byte, and \<open>ivec\<close> with the byte of the ciphertext.\<close>

definition cfb_byte :: "bool \<Rightarrow> u8 list \<Rightarrow> nat \<Rightarrow> u8 \<Rightarrow> u8 \<times> u8 list" where
  "cfb_byte enc ivec n b = (let x = ivec ! n XOR b in (x, ivec[n := (if enc then x else b)]))"

fun cfb_head :: "bool \<Rightarrow> u8 list \<Rightarrow> nat \<Rightarrow> u8 list \<Rightarrow> u8 list \<times> u8 list \<times> nat \<times> u8 list" where
  "cfb_head enc ivec n [] = ([], ivec, n, [])"
| "cfb_head enc ivec n (b # bs) =
     (if n = 0 then ([], ivec, n, b # bs)
      else (case cfb_byte enc ivec n b of
              (x, ivec) \<Rightarrow> (case cfb_head enc ivec ((n + 1) mod 16) bs of (out, r) \<Rightarrow> (x # out, r))))"

definition cfb_words :: "bool \<Rightarrow> u8 list \<Rightarrow> u8 list \<Rightarrow> u8 list \<times> u8 list" where
  "cfb_words enc ivec bs =
     (if enc then (xor_block ivec bs, xor_block ivec bs)
      else (xor_block ivec bs, concat (map (\<lambda>n. store_word_le (load_word_le (drop n bs))) [0, 8])))"

fun cfb_blocks :: "block128_f \<Rightarrow> bool \<Rightarrow> u8 list \<Rightarrow> u8 list \<Rightarrow> u8 list \<times> u8 list \<times> u8 list" where
  "cfb_blocks block enc ivec bs =
     (if length bs \<ge> 16 then
        (case cfb_words enc (block ivec) bs of
           (x, ivec) \<Rightarrow> (case cfb_blocks block enc ivec (drop 16 bs) of (out, r) \<Rightarrow> (x @ out, r)))
      else ([], ivec, bs))"

primrec cfb_tail :: "bool \<Rightarrow> u8 list \<Rightarrow> nat \<Rightarrow> u8 list \<Rightarrow> u8 list \<times> u8 list" where
  "cfb_tail enc ivec n [] = ([], ivec)"
| "cfb_tail enc ivec n (b # bs) =
     (case cfb_byte enc ivec n b of (x, ivec) \<Rightarrow> (case cfb_tail enc ivec (n + 1) bs of (out, ivec) \<Rightarrow> (x # out, ivec)))"

definition CRYPTO_cfb128_encrypt :: "block128_f \<Rightarrow> bool \<Rightarrow> fb_state \<Rightarrow> u8 list \<Rightarrow> u8 list \<times> fb_state" where
  "CRYPTO_cfb128_encrypt block enc s bs =
     (case cfb_head enc (fb_ivec s) (fb_num s) bs of
        (out1, ivec, n, bs1) \<Rightarrow>
          (case cfb_blocks block enc ivec bs1 of
             (out2, ivec, bs2) \<Rightarrow>
               if bs2 \<noteq> [] then
                 (case cfb_tail enc (block ivec) n bs2 of
                    (out3, ivec) \<Rightarrow> (out1 @ out2 @ out3, \<lparr>fb_ivec = ivec, fb_num = n + length bs2\<rparr>))
               else (out1 @ out2, \<lparr>fb_ivec = ivec, fb_num = n\<rparr>)))"

text \<open>One step with feedback of \<open>nbits\<close> bits.  \<open>ovec\<close> is \<open>ivec\<close> followed by the ciphertext; no index below reaches the
  byte after it.\<close>

definition cfbr_shift :: "u8 list \<Rightarrow> nat \<Rightarrow> u8 list" where
  "cfbr_shift ovec nbits =
     (let rem = nbits mod 8; num = nbits div 8 in
      if rem = 0 then take 16 (drop num ovec)
      else map (\<lambda>n. push_bit rem (ovec ! (n + num)) OR drop_bit (8 - rem) (ovec ! (n + num + 1))) [0..<16])"

definition cfbr_encrypt_block :: "block128_f \<Rightarrow> bool \<Rightarrow> u8 list \<Rightarrow> nat \<Rightarrow> u8 list \<Rightarrow> u8 list \<times> u8 list" where
  "cfbr_encrypt_block block enc inp nbits ivec =
     (if nbits = 0 \<or> nbits > 128 then ([], ivec)
      else
        let ks = block ivec; num = (nbits + 7) div 8;
            out = map (\<lambda>n. inp ! n XOR ks ! n) [0..<num];
            ovec = ivec @ (if enc then out else take num inp) in
        (out, cfbr_shift ovec nbits))"

primrec cfb1_loop :: "block128_f \<Rightarrow> bool \<Rightarrow> u8 list \<Rightarrow> nat list \<Rightarrow> u8 list \<Rightarrow> u8 list \<Rightarrow> u8 list \<times> u8 list" where
  "cfb1_loop block enc inp [] out ivec = (out, ivec)"
| "cfb1_loop block enc inp (n # ns) out ivec =
     (let c = (if inp ! (n div 8) AND push_bit (7 - n mod 8) 1 \<noteq> 0 then 0x80 else 0) in
      case cfbr_encrypt_block block enc [c] 1 ivec of
        (d, ivec) \<Rightarrow>
          cfb1_loop block enc inp ns
            (out[n div 8 := (out ! (n div 8) AND NOT (push_bit (7 - n mod 8) 1)) OR drop_bit (n mod 8) (d ! 0 AND 0x80)]) ivec)"

definition CRYPTO_cfb128_1_encrypt :: "block128_f \<Rightarrow> bool \<Rightarrow> u8 list \<Rightarrow> nat \<Rightarrow> u8 list \<Rightarrow> u8 list \<Rightarrow> u8 list \<times> u8 list" where
  "CRYPTO_cfb128_1_encrypt block enc inp bits out ivec = cfb1_loop block enc inp [0..<bits] out ivec"

primrec CRYPTO_cfb128_8_encrypt :: "block128_f \<Rightarrow> bool \<Rightarrow> u8 list \<Rightarrow> u8 list \<Rightarrow> u8 list \<times> u8 list" where
  "CRYPTO_cfb128_8_encrypt block enc [] ivec = ([], ivec)"
| "CRYPTO_cfb128_8_encrypt block enc (b # bs) ivec =
     (case cfbr_encrypt_block block enc [b] 8 ivec of
        (d, ivec) \<Rightarrow> (case CRYPTO_cfb128_8_encrypt block enc bs ivec of (out, ivec) \<Rightarrow> (d @ out, ivec)))"

declare ofb_blocks.simps [simp del] cfb_blocks.simps [simp del]

end
