(* ===== verification/Modes_Stream.thy ===== *)
theory Modes_Stream
  imports Modes
begin

text \<open>
  The stream modes as byte machines.  Counter mode, output feedback and cipher feedback process whole blocks a word at
  a time and keep what is left of a block for the next call; each is shown to be the iteration of a step on one byte.
  From this, once for all of them, the results of a sequence of calls depend only on the concatenation of the inputs, and
  decryption inverts encryption however the two sides split the data.
\<close>

section \<open>Words and bytes\<close>

lemma bit_add_256: "x < 256 \<Longrightarrow> bit (x + 256 * p :: nat) n = (if n < 8 then bit x n else bit p (n - 8))"
proof (cases "n < 8")
  case True
  have "take_bit 8 (x + 256 * p) = x" if "x < 256" using that by (simp add: take_bit_eq_mod)
  then show "x < 256 \<Longrightarrow> ?thesis" using True by (metis bit_take_bit_iff)
next
  case False
  have "drop_bit 8 (x + 256 * p) = p" if "x < 256" using that by (simp add: drop_bit_eq_div)
  then show "x < 256 \<Longrightarrow> ?thesis" using False by (metis bit_drop_bit_eq comp_apply le_add_diff_inverse linorder_not_less)
qed

lemma le_val_xor: "length a = length b \<Longrightarrow> le_val a XOR le_val b = le_val (map2 (XOR) a b)"
proof (induction a b rule: list_induct2)
  case (Cons x a y b)
  have "(unat x + 256 * le_val a) XOR (unat y + 256 * le_val b) = unat (x XOR y) + 256 * (le_val a XOR le_val b)"
  proof (rule bit_eqI)
    fix n
    show "bit ((unat x + 256 * le_val a) XOR (unat y + 256 * le_val b)) n = bit (unat (x XOR y) + 256 * (le_val a XOR le_val b)) n"
      unfolding bit_xor_iff bit_add_256 [OF unat_u8_lt] by (simp add: unsigned_xor_eq bit_xor_iff)
  qed
  then show ?case using Cons.IH by simp
qed simp

lemma le_enc_le_val: "le_enc (length bs) (le_val bs) = bs"
proof (induction bs)
  case (Cons b bs)
  have "(256 :: u8) = 0" by simp
  then have "(256 :: u8) * x = 0" for x by (metis mult_zero_left)
  then show ?case using Cons.IH by simp
qed simp

lemma store_load: "length a = 8 \<Longrightarrow> store_word_le (load_word_le a) = a"
  using le_val_bound [of a] le_enc_le_val [of a] by (simp add: store_word_le_def load_word_le_def unat_of_nat)

lemma store_xor: "length a = 8 \<Longrightarrow> length b = 8 \<Longrightarrow> store_word_le (load_word_le a XOR load_word_le b) = map2 (XOR) a b"
proof -
  assume l: "length a = 8" "length b = 8"
  have "load_word_le a XOR load_word_le b = load_word_le (map2 (XOR) a b)"
    using l le_val_bound [of a] le_val_bound [of b] le_val_bound [of "map2 (XOR) a b"]
    by (simp add: word_unat_eq_iff load_word_le_def unsigned_xor_eq unat_of_nat flip: le_val_xor)
  then show ?thesis using l by (simp add: store_load)
qed

lemma load_word_take: "load_word_le (take 8 bs) = load_word_le bs"
  by (simp add: load_word_le_def)

lemma map2_take: "map2 f (take n a) (take n b) = take n (map2 f a b)"
  by (simp add: take_map take_zip)

lemma xor_block_map2:
  assumes "16 \<le> length a" "16 \<le> length b"
  shows "xor_block a b = map2 (XOR) (take 16 a) (take 16 b)"
proof -
  have w: "store_word_le (load_word_le x XOR load_word_le y) = map2 (XOR) (take 8 x) (take 8 y)" if "8 \<le> length x" "8 \<le> length y" for x y
    using store_xor [of "take 8 x" "take 8 y"] that by (simp add: load_word_take)
  have "xor_block a b = map2 (XOR) (take 8 a) (take 8 b) @ map2 (XOR) (take 8 (drop 8 a)) (take 8 (drop 8 b))"
    using assms by (simp add: xor_block_def w)
  also have "\<dots> = map2 (XOR) (take 8 a @ take 8 (drop 8 a)) (take 8 b @ take 8 (drop 8 b))" using assms by simp
  finally show ?thesis using take_add [of 8 8 a] take_add [of 8 8 b] by simp
qed

section \<open>Byte machines\<close>

primrec run :: "('s \<Rightarrow> u8 \<Rightarrow> u8 \<times> 's) \<Rightarrow> 's \<Rightarrow> u8 list \<Rightarrow> u8 list \<times> 's" where
  "run f s [] = ([], s)"
| "run f s (b # bs) = (case f s b of (x, s') \<Rightarrow> (case run f s' bs of (out, t) \<Rightarrow> (x # out, t)))"

lemma run_append: "run f s (a @ b) = (case run f s a of (x, s') \<Rightarrow> (case run f s' b of (y, t) \<Rightarrow> (x @ y, t)))"
  by (induction a arbitrary: s) (auto split: prod.splits)

text \<open>A sequence of calls, with the outputs put together.\<close>

primrec feed :: "('s \<Rightarrow> u8 list \<Rightarrow> u8 list \<times> 's) \<Rightarrow> 's \<Rightarrow> u8 list list \<Rightarrow> u8 list \<times> 's" where
  "feed f s [] = ([], s)"
| "feed f s (c # cs) = (case f s c of (x, s') \<Rightarrow> (case feed f s' cs of (out, t) \<Rightarrow> (x @ out, t)))"

text \<open>A cipher of two functions on byte strings that both iterate a step, the second step inverting the first.\<close>

locale stream_cipher =
  fixes enc dec :: "'s \<Rightarrow> u8 list \<Rightarrow> u8 list \<times> 's"
    and enc_byte dec_byte :: "'s \<Rightarrow> u8 \<Rightarrow> u8 \<times> 's"
    and ok :: "'s \<Rightarrow> bool"
  assumes enc_bytes: "ok s \<Longrightarrow> enc s bs = run enc_byte s bs"
    and dec_bytes: "ok s \<Longrightarrow> dec s bs = run dec_byte s bs"
    and inverse: "ok s \<Longrightarrow> enc_byte s b = (x, s') \<Longrightarrow> dec_byte s x = (b, s')"
    and ok_enc: "ok s \<Longrightarrow> enc_byte s b = (x, s') \<Longrightarrow> ok s'"
    and ok_dec: "ok s \<Longrightarrow> dec_byte s b = (x, s') \<Longrightarrow> ok s'"
begin

lemma run_ok: "ok s \<Longrightarrow> run enc_byte s bs = (x, t) \<Longrightarrow> ok t"
  by (induction bs arbitrary: s x) (auto split: prod.splits dest: ok_enc)

lemma run_dec_ok: "ok s \<Longrightarrow> run dec_byte s bs = (x, t) \<Longrightarrow> ok t"
  by (induction bs arbitrary: s x) (auto split: prod.splits dest: ok_dec)

lemma feed_run: "ok s \<Longrightarrow> feed enc s cs = run enc_byte s (concat cs)"
proof (induction cs arbitrary: s)
  case (Cons c cs)
  obtain x t where c: "run enc_byte s c = (x, t)" by fastforce
  then have "ok t" using Cons.prems run_ok by blast
  then show ?case using Cons c by (simp add: enc_bytes run_append)
qed simp

lemma feed_dec_run: "ok s \<Longrightarrow> feed dec s cs = run dec_byte s (concat cs)"
proof (induction cs arbitrary: s)
  case (Cons c cs)
  obtain x t where c: "run dec_byte s c = (x, t)" by fastforce
  then have "ok t" using Cons.prems run_dec_ok by blast
  then show ?case using Cons c by (simp add: dec_bytes run_append)
qed simp

lemma run_inverse: "ok s \<Longrightarrow> run enc_byte s bs = (x, t) \<Longrightarrow> run dec_byte s x = (bs, t)"
proof (induction bs arbitrary: s x)
  case (Cons b bs)
  obtain y s1 where e: "enc_byte s b = (y, s1)" by fastforce
  obtain z where z: "run enc_byte s1 bs = (z, t)" "x = y # z" using Cons.prems(2) e by (auto split: prod.splits)
  then show ?case using Cons.IH [OF ok_enc [OF Cons.prems(1) e] z(1)] inverse [OF Cons.prems(1) e] by simp
qed simp

lemma feed_chunks: "ok s \<Longrightarrow> feed enc s cs = enc s (concat cs)"
  by (simp add: feed_run enc_bytes)

lemma feed_roundtrip: "ok s \<Longrightarrow> feed enc s cs = (x, t) \<Longrightarrow> concat ds = x \<Longrightarrow> feed dec s ds = (concat cs, t)"
  by (simp add: feed_run feed_dec_run run_inverse)

end

section \<open>Counter mode\<close>

definition cipher_ok :: "block128_f \<Rightarrow> bool" where
  "cipher_ok block \<longleftrightarrow> (\<forall>x. length x = 16 \<longrightarrow> length (block x) = 16)"

lemma cipher_ok_length [simp]: "cipher_ok block \<Longrightarrow> length x = 16 \<Longrightarrow> length (block x) = 16"
  by (simp add: cipher_ok_def)

definition ctr_ok :: "ctr_state \<Rightarrow> bool" where
  "ctr_ok s \<longleftrightarrow> length (cs_ivec s) = 16 \<and> length (cs_ecount_buf s) = 16 \<and> cs_num s < 16"

definition ctr_byte :: "block128_f \<Rightarrow> ctr_state \<Rightarrow> u8 \<Rightarrow> u8 \<times> ctr_state" where
  "ctr_byte block s b =
     (let s = (if cs_num s = 0 then s\<lparr>cs_ivec := ctr128_inc (cs_ivec s), cs_ecount_buf := block (cs_ivec s)\<rparr> else s) in
      (b XOR cs_ecount_buf s ! cs_num s, s\<lparr>cs_num := (cs_num s + 1) mod 16\<rparr>))"

lemma length_inc_loop [simp]: "length (inc_loop n counter c) = length counter"
  by (induction n arbitrary: counter c) (simp_all add: Let_def)

lemma length_ctr128_inc [simp]: "length (ctr128_inc counter) = length counter"
  by (simp add: ctr128_inc_def)

lemma ctr_byte_ok: "cipher_ok block \<Longrightarrow> ctr_ok s \<Longrightarrow> ctr_byte block s b = (x, s') \<Longrightarrow> ctr_ok s'"
  by (auto simp: ctr_byte_def ctr_ok_def Let_def split: if_splits)

text \<open>The first loop, up to the end of a block of key stream; inside a block; and a new block.\<close>

lemma ctr_head_run:
  assumes "cs_num s < 16" "ctr_head (cs_ecount_buf s) (cs_num s) bs = (out, n, rest)"
  shows "run (ctr_byte block) s bs = (case run (ctr_byte block) (s\<lparr>cs_num := n\<rparr>) rest of (x, t) \<Rightarrow> (out @ x, t))"
    "n = 0 \<or> rest = []" "n < 16"
proof -
  have "run (ctr_byte block) s bs = (case run (ctr_byte block) (s\<lparr>cs_num := n\<rparr>) rest of (x, t) \<Rightarrow> (out @ x, t))
    \<and> (n = 0 \<or> rest = []) \<and> n < 16"
    using assms
  proof (induction bs arbitrary: s out)
    case (Cons b bs)
    show ?case
    proof (cases "cs_num s = 0")
      case True
      then have e: "out = []" "n = 0" "rest = b # bs" "s\<lparr>cs_num := 0\<rparr> = s" using Cons.prems by simp_all
      show ?thesis unfolding e by (simp split: prod.split)
    next
      case False
      let ?s = "s\<lparr>cs_num := (cs_num s + 1) mod 16\<rparr>"
      obtain out' where o: "ctr_head (cs_ecount_buf s) ((cs_num s + 1) mod 16) bs = (out', n, rest)" "out = (b XOR cs_ecount_buf s ! cs_num s) # out'"
        using Cons.prems False by (auto split: prod.splits)
      then show ?thesis using Cons.IH [of ?s out'] False by (simp add: ctr_byte_def Let_def split: prod.splits)
    qed
  qed (auto split: prod.splits)
  then show "run (ctr_byte block) s bs = (case run (ctr_byte block) (s\<lparr>cs_num := n\<rparr>) rest of (x, t) \<Rightarrow> (out @ x, t))"
    "n = 0 \<or> rest = []" "n < 16" by simp_all
qed

lemma ctr_inside:
  assumes "length ec = 16" "0 < n" "n + length bs \<le> 16"
  shows "run (ctr_byte block) \<lparr>cs_ivec = iv, cs_ecount_buf = ec, cs_num = n mod 16\<rparr> bs
    = (map2 (XOR) bs (drop n ec), \<lparr>cs_ivec = iv, cs_ecount_buf = ec, cs_num = (n + length bs) mod 16\<rparr>)"
  using assms
proof (induction bs arbitrary: n)
  case (Cons b bs)
  then have n: "n < 16" "n mod 16 = n" "n \<noteq> 0" by simp_all
  have d: "drop n ec = ec ! n # drop (Suc n) ec" using n Cons.prems(1) by (simp add: Cons_nth_drop_Suc)
  show ?case using n Cons.IH [of "Suc n"] Cons.prems unfolding d by (simp add: ctr_byte_def Let_def)
qed simp

lemma ctr_block_run:
  assumes "cipher_ok block" "length iv = 16" "bs \<noteq> []" "length bs \<le> 16"
  shows "run (ctr_byte block) \<lparr>cs_ivec = iv, cs_ecount_buf = ec, cs_num = 0\<rparr> bs
    = (map2 (XOR) bs (block iv), \<lparr>cs_ivec = ctr128_inc iv, cs_ecount_buf = block iv, cs_num = length bs mod 16\<rparr>)"
proof -
  obtain b r where b: "bs = b # r" using assms(3) by (cases bs) auto
  obtain e es where e: "block iv = e # es" using assms(1,2) by (cases "block iv") (auto simp: cipher_ok_def)
  have "run (ctr_byte block) \<lparr>cs_ivec = ctr128_inc iv, cs_ecount_buf = block iv, cs_num = 1 mod 16\<rparr> r
    = (map2 (XOR) r (drop 1 (block iv)), \<lparr>cs_ivec = ctr128_inc iv, cs_ecount_buf = block iv, cs_num = (1 + length r) mod 16\<rparr>)"
    by (rule ctr_inside) (use assms b in simp_all)
  then show ?thesis using e by (simp add: b ctr_byte_def Let_def)
qed

lemma ctr_blocks_run:
  assumes "cipher_ok block" "length iv = 16" "length ec = 16" "ctr_blocks block iv ec bs = (out, iv', ec', rest)"
  shows "run (ctr_byte block) \<lparr>cs_ivec = iv, cs_ecount_buf = ec, cs_num = 0\<rparr> bs
      = (case run (ctr_byte block) \<lparr>cs_ivec = iv', cs_ecount_buf = ec', cs_num = 0\<rparr> rest of (x, t) \<Rightarrow> (out @ x, t))
    \<and> length rest < 16 \<and> length iv' = 16 \<and> length ec' = 16"
  using assms
proof (induction bs arbitrary: iv ec out rule: length_induct)
  case (1 bs)
  show ?case
  proof (cases "length bs \<ge> 16")
    case False
    then show ?thesis using "1.prems" by (auto simp: ctr_blocks.simps [of block iv ec bs] split: prod.split)
  next
    case True
    obtain o1 where o1: "ctr_blocks block (ctr128_inc iv) (block iv) (drop 16 bs) = (o1, iv', ec', rest)" "out = xor_block bs (block iv) @ o1"
      using "1.prems"(4) True by (auto simp: ctr_blocks.simps [of block iv ec bs] Let_def split: prod.splits)
    have "xor_block bs (block iv) = map2 (XOR) (take 16 bs) (block iv)" using True "1.prems" by (simp add: xor_block_map2)
    moreover have "run (ctr_byte block) \<lparr>cs_ivec = iv, cs_ecount_buf = ec, cs_num = 0\<rparr> (take 16 bs)
        = (map2 (XOR) (take 16 bs) (block iv), \<lparr>cs_ivec = ctr128_inc iv, cs_ecount_buf = block iv, cs_num = 0\<rparr>)"
      using ctr_block_run [of block iv "take 16 bs" ec] True "1.prems" by fastforce
    moreover have "run (ctr_byte block) \<lparr>cs_ivec = ctr128_inc iv, cs_ecount_buf = block iv, cs_num = 0\<rparr> (drop 16 bs)
      = (case run (ctr_byte block) \<lparr>cs_ivec = iv', cs_ecount_buf = ec', cs_num = 0\<rparr> rest of (x, t) \<Rightarrow> (o1 @ x, t))
      \<and> length rest < 16 \<and> length iv' = 16 \<and> length ec' = 16"
      using "1.IH" [rule_format, of "drop 16 bs" "ctr128_inc iv" "block iv" o1] True "1.prems" o1(1) by simp
    ultimately show ?thesis
      using run_append [of "ctr_byte block" _ "take 16 bs" "drop 16 bs"] o1(2) by (simp split: prod.splits)
  qed
qed

lemma ctr_tail_map2: "length bs \<le> length ec \<Longrightarrow> ctr_tail ec bs = map2 (XOR) bs ec"
  by (rule nth_equalityI) (simp_all add: ctr_tail_def)

lemma ctr128_bytes:
  assumes "cipher_ok block" "ctr_ok s"
  shows "CRYPTO_ctr128_encrypt block s bs = run (ctr_byte block) s bs"
proof -
  obtain o1 n bs1 where h: "ctr_head (cs_ecount_buf s) (cs_num s) bs = (o1, n, bs1)" by (cases "ctr_head (cs_ecount_buf s) (cs_num s) bs")
  obtain o2 iv ec bs2 where b: "ctr_blocks block (cs_ivec s) (cs_ecount_buf s) bs1 = (o2, iv, ec, bs2)"
    by (cases "ctr_blocks block (cs_ivec s) (cs_ecount_buf s) bs1")
  note hr = ctr_head_run [OF _ h]
  have s: "length (cs_ivec s) = 16" "length (cs_ecount_buf s) = 16" "cs_num s < 16" using assms(2) by (auto simp: ctr_ok_def)
  show ?thesis
  proof (cases "bs1 = []")
    case True
    then have "o2 = []" "iv = cs_ivec s" "ec = cs_ecount_buf s" "bs2 = []" using b by (simp_all add: ctr_blocks.simps)
    then show ?thesis using hr s h b True by (simp add: CRYPTO_ctr128_encrypt_def)
  next
    case False
    then have n: "n = 0" using hr(2) s by blast
    then have "s\<lparr>cs_num := n\<rparr> = \<lparr>cs_ivec = cs_ivec s, cs_ecount_buf = cs_ecount_buf s, cs_num = 0\<rparr>" by simp
    then have r: "run (ctr_byte block) s bs = (case run (ctr_byte block) \<lparr>cs_ivec = iv, cs_ecount_buf = ec, cs_num = 0\<rparr> bs2 of (x, t) \<Rightarrow> (o1 @ o2 @ x, t))"
      and l: "length bs2 < 16" "length iv = 16"
      using hr(1) s ctr_blocks_run [OF assms(1) s(1,2) b] by (auto split: prod.splits)
    show ?thesis
    proof (cases "bs2 = []")
      case True
      then show ?thesis using r h b n by (simp add: CRYPTO_ctr128_encrypt_def)
    next
      case ne: False
      then show ?thesis using r h b n ctr_block_run [OF assms(1) l(2) ne, of ec] l assms(1)
        by (simp add: CRYPTO_ctr128_encrypt_def ctr_tail_map2 Let_def)
    qed
  qed
qed

interpretation ctr: stream_cipher "CRYPTO_ctr128_encrypt block" "CRYPTO_ctr128_encrypt block" "ctr_byte block" "ctr_byte block"
  "\<lambda>s. cipher_ok block \<and> ctr_ok s" for block
proof
  show "cipher_ok block \<and> ctr_ok s \<Longrightarrow> CRYPTO_ctr128_encrypt block s bs = run (ctr_byte block) s bs" for s bs
    by (simp add: ctr128_bytes)
  show "cipher_ok block \<and> ctr_ok s \<Longrightarrow> ctr_byte block s b = (x, s') \<Longrightarrow> ctr_byte block s x = (b, s')" for s b x s'
    by (auto simp: ctr_byte_def Let_def xor.assoc split: if_splits)
  show "cipher_ok block \<and> ctr_ok s \<Longrightarrow> ctr_byte block s b = (x, s') \<Longrightarrow> cipher_ok block \<and> ctr_ok s'" for s b x s'
    using ctr_byte_ok by blast
qed

end
