(* ===== verification/Modes_Ctr32.thy ===== *)
theory Modes_Ctr32
  imports Modes_Stream
begin

text \<open>
  The counter of counter mode as a number, and the variant for functions that step only 32 bits of it: it agrees with the
  plain one, since it stops the function where the 32 bits wrap around and propagates the carry itself.
\<close>

section \<open>The counter\<close>

lemma mod_shift: "y < 256 \<Longrightarrow> (x mod m) * 256 + y = (x * 256 + y) mod (m * 256 :: nat)"
proof (cases "m = 0")
  case False
  assume y: "y < 256"
  have "(x * 256 + y) mod (m * 256) = 256 * ((x * 256 + y) div 256 mod m) + (x * 256 + y) mod 256"
    using mod_mult2_eq [of "x * 256 + y" 256 m] by (simp add: mult.commute)
  then show ?thesis using y by simp
qed simp

lemma inc_loop_val:
  assumes "n \<le> length counter" "unat c < 256"
  shows "be_val (take n (inc_loop n counter c)) = (be_val (take n counter) + unat c) mod 256 ^ n
    \<and> drop n (inc_loop n counter c) = drop n counter"
  using assms
proof (induction n arbitrary: counter c)
  case (Suc n)
  define c' where "c' = c + ucast (counter ! n)"
  let ?r = "inc_loop n (counter[n := ucast c']) (drop_bit 8 c')"
  have "unat c + unat (counter ! n) < 2 ^ 32" using Suc.prems(2) unat_u8_lt [of "counter ! n"] by (simp del: unat_u8_lt)
  then have c': "unat c' = unat c + unat (counter ! n)" by (simp add: c'_def unat_word_ariths)
  then have small: "unat c' < 512" using Suc.prems(2) unat_u8_lt [of "counter ! n"] by (simp del: unat_u8_lt)
  have car: "unat (drop_bit 8 c') = unat c' div 256" by (subst unat_drop_bit_eq) (simp add: drop_bit_eq_div)
  have ih: "be_val (take n ?r) = (be_val (take n counter) + unat c' div 256) mod 256 ^ n" "drop n ?r = drop n (counter[n := ucast c'])"
    using Suc.IH [of "counter[n := ucast c']" "drop_bit 8 c'"] Suc.prems(1) small by (simp_all add: car)
  have "?r ! n = (ucast c' :: u8)"
    using ih(2) Suc.prems(1) nth_drop [of n ?r 0] nth_drop [of n "counter[n := ucast c']" 0] by simp
  moreover have "drop 1 (drop n ?r) = drop 1 (drop n (counter[n := ucast c']))" using ih(2) by simp
  then have "drop (Suc n) ?r = drop (Suc n) counter" by simp
  moreover have "unat (ucast c' :: u8) = unat c' mod 256" by (simp add: unsigned_ucast_eq take_bit_eq_mod)
  ultimately have r: "be_val (take (Suc n) ?r) = ((be_val (take n counter) + unat c' div 256) mod 256 ^ n) * 256 + unat c' mod 256"
    "drop (Suc n) ?r = drop (Suc n) counter"
    using ih(1) Suc.prems(1) by (simp_all add: take_Suc_conv_app_nth)
  have "(be_val (take n counter) + unat c' div 256) * 256 + unat c' mod 256 = be_val (take (Suc n) counter) + unat c"
    using Suc.prems(1) c' by (simp add: take_Suc_conv_app_nth algebra_simps)
  then have "be_val (take (Suc n) ?r) = (be_val (take (Suc n) counter) + unat c) mod 256 ^ Suc n"
    unfolding r(1) using mod_shift [of "unat c' mod 256" "be_val (take n counter) + unat c' div 256" "256 ^ n"] by (simp add: mult.commute)
  then show ?case using r(2) by (simp add: Let_def flip: c'_def)
qed simp

lemma be_enc_cong: "v mod 256 ^ n = w mod 256 ^ n \<Longrightarrow> be_enc n v = be_enc n w"
  by (metis be_enc_mod)

lemma be_val_append: "be_val (a @ b) = be_val a * 256 ^ length b + be_val b"
  by (induction b rule: rev_induct) (simp_all add: algebra_simps flip: append_assoc)

lemma inc_loop_enc:
  assumes "n \<le> length counter"
  shows "inc_loop n counter 1 = be_enc n (be_val (take n counter) + 1) @ drop n counter"
proof -
  have "inc_loop n counter 1 = take n (inc_loop n counter 1) @ drop n (inc_loop n counter 1)" by simp
  also have "take n (inc_loop n counter 1) = be_enc n (be_val (take n (inc_loop n counter 1)))"
    using be_enc_be_val [of "take n (inc_loop n counter 1)"] assms by simp
  finally show ?thesis using inc_loop_val [OF assms, of 1] by (simp add: be_enc_mod)
qed

text \<open>The counter after \<open>k\<close> steps.\<close>

definition ctr_at :: "u8 list \<Rightarrow> nat \<Rightarrow> u8 list" where
  "ctr_at iv k = be_enc 16 (be_val iv + k)"

lemma length_ctr_at [simp]: "length (ctr_at iv k) = 16"
  by (simp add: ctr_at_def del: be_enc.simps)

lemma ctr_at_0: "length iv = 16 \<Longrightarrow> ctr_at iv 0 = iv"
  using be_enc_be_val [of iv] by (simp add: ctr_at_def del: be_enc.simps)

lemma ctr128_inc_at: "length iv = 16 \<Longrightarrow> ctr128_inc iv = ctr_at iv 1"
  using inc_loop_enc [of 16 iv] by (simp add: ctr128_inc_def ctr_at_def del: be_enc.simps)

lemma ctr_at_at: "ctr_at (ctr_at iv j) k = ctr_at iv (j + k)"
proof -
  have "be_val (ctr_at iv j) = (be_val iv + j) mod 256 ^ 16" unfolding ctr_at_def by (rule be_val_be_enc)
  then show ?thesis unfolding ctr_at_def [of "ctr_at iv j"] ctr_at_def [of iv "j + k"]
    by (intro be_enc_cong) (simp only: mod_add_left_eq add.assoc)
qed

text \<open>Its parts: the last four bytes are stepped alone as long as they do not wrap around.\<close>

lemma iv_parts: "length iv = 16 \<Longrightarrow> be_val iv = be_val (take 12 iv) * 2 ^ 32 + be_val (drop 12 iv)"
  using be_val_append [of "take 12 iv" "drop 12 iv"] by simp

lemma iv_low: "length iv = 16 \<Longrightarrow> be_val (drop 12 iv) < 2 ^ 32"
  using be_val_bound [of "drop 12 iv"] by simp

lemma ctr_at_low:
  assumes "length iv = 16" "be_val (drop 12 iv) + k < 2 ^ 32"
  shows "ctr_at iv k = take 12 iv @ be_enc 4 (be_val (drop 12 iv) + k)"
proof -
  let ?v = "be_val iv + k"
  have v: "?v = (be_val (drop 12 iv) + k) + be_val (take 12 iv) * 256 ^ 4" using iv_parts [OF assms(1)] by simp
  have "?v div 256 ^ 4 = be_val (take 12 iv)" "?v mod 256 ^ 4 = (be_val (drop 12 iv) + k) mod 256 ^ 4"
    unfolding v div_mult_self1 mod_mult_self1 using assms(2) by simp_all
  then have "be_enc 12 (?v div 256 ^ 4) = take 12 iv" "be_enc 4 ?v = be_enc 4 (be_val (drop 12 iv) + k)"
    using be_enc_be_val [of "take 12 iv"] be_enc_cong [of ?v 4] assms(1) by (simp_all del: be_enc.simps)
  then show ?thesis using be_enc_add [of 12 4 ?v] by (simp add: ctr_at_def del: be_enc.simps)
qed

lemma ctr_at_carry:
  assumes "length iv = 16" "be_val (drop 12 iv) + k = 2 ^ 32"
  shows "ctr_at iv k = ctr96_inc (take 12 iv @ be_enc 4 0)"
proof -
  let ?v = "be_val iv + k"
  have v: "?v = (be_val (take 12 iv) + 1) * 256 ^ 4" using assms iv_parts [OF assms(1)] by simp
  have "ctr96_inc (take 12 iv @ be_enc 4 0) = be_enc 12 (be_val (take 12 iv) + 1) @ be_enc 4 0"
    using inc_loop_enc [of 12 "take 12 iv @ be_enc 4 0"] assms(1) by (simp add: ctr96_inc_def del: be_enc.simps)
  moreover have "be_enc 4 ?v = be_enc 4 0" unfolding v by (intro be_enc_cong) simp
  moreover have "?v div 256 ^ 4 = be_val (take 12 iv) + 1" unfolding v by simp
  ultimately show ?thesis using be_enc_add [of 12 4 ?v] by (simp add: ctr_at_def del: be_enc.simps)
qed

section \<open>Agreement\<close>

text \<open>What is required of the function: it encrypts blocks under counters of which only the last four bytes move.\<close>

definition ctr32_ok :: "block128_f \<Rightarrow> ctr128_f \<Rightarrow> bool" where
  "ctr32_ok block func \<longleftrightarrow> (\<forall>bs k iv. length iv = 16 \<longrightarrow> length bs = 16 * k \<longrightarrow>
     func bs k iv = concat (map (\<lambda>j. map2 (XOR) (take 16 (drop (16 * j) bs)) (block (take 12 iv @ be_enc 4 (be_val (drop 12 iv) + j)))) [0..<k]))"

definition ctr_stream :: "block128_f \<Rightarrow> u8 list \<Rightarrow> nat \<Rightarrow> u8 list \<Rightarrow> u8 list" where
  "ctr_stream block iv k bs = concat (map (\<lambda>j. map2 (XOR) (take 16 (drop (16 * j) bs)) (block (ctr_at iv j))) [0..<k])"

lemma func_stream:
  assumes "ctr32_ok block func" "length iv = 16" "16 * k \<le> length bs" "be_val (drop 12 iv) + k \<le> 2 ^ 32"
  shows "func (take (16 * k) bs) k iv = ctr_stream block iv k bs"
proof -
  have "map2 (XOR) (take 16 (drop (16 * j) (take (16 * k) bs))) (block (take 12 iv @ be_enc 4 (be_val (drop 12 iv) + j)))
      = map2 (XOR) (take 16 (drop (16 * j) bs)) (block (ctr_at iv j))" if "j < k" for j
    using ctr_at_low [OF assms(2), of j] assms(4) that by (simp add: drop_take min_def del: be_enc.simps)
  then have "map (\<lambda>j. map2 (XOR) (take 16 (drop (16 * j) (take (16 * k) bs))) (block (take 12 iv @ be_enc 4 (be_val (drop 12 iv) + j)))) [0..<k]
      = map (\<lambda>j. map2 (XOR) (take 16 (drop (16 * j) bs)) (block (ctr_at iv j))) [0..<k]" by (rule map_cong [OF refl]) (simp only: set_upt atLeastLessThan_iff)
  moreover have "func (take (16 * k) bs) k iv = concat (map (\<lambda>j. map2 (XOR) (take 16 (drop (16 * j) (take (16 * k) bs)))
      (block (take 12 iv @ be_enc 4 (be_val (drop 12 iv) + j)))) [0..<k])"
    using assms(1) unfolding ctr32_ok_def by (elim allE impE) (use assms(2,3) in auto)
  ultimately show ?thesis unfolding ctr_stream_def by (simp only:)
qed

lemma ctr_stream_Suc: "ctr_stream block iv (Suc k) bs = ctr_stream block iv k bs @ map2 (XOR) (take 16 (drop (16 * k) bs)) (block (ctr_at iv k))"
  by (simp add: ctr_stream_def)

text \<open>The block loop of the plain variant, \<open>k\<close> blocks at once.\<close>

lemma ctr_blocks_stream:
  assumes "cipher_ok block" "length iv = 16" "16 * k \<le> length bs"
  shows "\<exists>ec'. ctr_blocks block iv ec bs = (case ctr_blocks block (ctr_at iv k) ec' (drop (16 * k) bs) of (out, r) \<Rightarrow> (ctr_stream block iv k bs @ out, r))"
  using assms(3)
proof (induction k)
  case 0
  then show ?case using assms(2) by (auto simp: ctr_at_0 ctr_stream_def split: prod.split)
next
  case (Suc k)
  then obtain ec' where ih: "ctr_blocks block iv ec bs
      = (case ctr_blocks block (ctr_at iv k) ec' (drop (16 * k) bs) of (out, r) \<Rightarrow> (ctr_stream block iv k bs @ out, r))" by auto
  have l: "16 \<le> length (drop (16 * k) bs)" using Suc.prems by simp
  let ?e = "block (ctr_at iv k)"
  have "ctr_blocks block (ctr_at iv k) ec' (drop (16 * k) bs)
      = (case ctr_blocks block (ctr_at iv (Suc k)) ?e (drop (16 * Suc k) bs) of (out, r) \<Rightarrow> (map2 (XOR) (take 16 (drop (16 * k) bs)) ?e @ out, r))"
    using l assms(1) by (subst ctr_blocks.simps) (simp add: Let_def ctr128_inc_at ctr_at_at xor_block_map2 add.commute split: prod.splits)
  then show ?case unfolding ih by (intro exI [of _ ?e]) (simp add: ctr_stream_Suc split: prod.splits)
qed

text \<open>The results of the loop other than \<open>ecount_buf\<close> do not depend on it.\<close>

lemma ctr_blocks_ec: "ctr_blocks block iv ec bs = (out, iv', ec', rest) \<Longrightarrow> \<exists>e. ctr_blocks block iv ec2 bs = (out, iv', e, rest)"
proof (cases "length bs \<ge> 16")
  case False
  then show "ctr_blocks block iv ec bs = (out, iv', ec', rest) \<Longrightarrow> ?thesis"
    unfolding ctr_blocks.simps [of block iv ec bs] ctr_blocks.simps [of block iv ec2 bs] by auto
next
  case True
  then show "ctr_blocks block iv ec bs = (out, iv', ec', rest) \<Longrightarrow> ?thesis"
    by (simp add: ctr_blocks.simps [of block iv ec bs] ctr_blocks.simps [of block iv ec2 bs])
qed

text \<open>The amounts by which one round of the 32-bit loop advances.\<close>

lemma PUTU32_of_nat: "PUTU32 (word_of_nat n) = be_enc 4 n"
proof -
  have "PUTU32 (word_of_nat n) = be_enc 4 (n mod 256 ^ 4)" by (simp add: PUTU32_def unat_of_nat del: be_enc.simps)
  then show ?thesis by (simp only: be_enc_mod)
qed

lemma GETU32_low: "length iv = 16 \<Longrightarrow> GETU32 (drop 12 iv) = word_of_nat (be_val (drop 12 iv))"
  by (simp add: GETU32_def)

lemma GETU32_PUTU32: "length hi = 12 \<Longrightarrow> GETU32 (drop 12 (hi @ PUTU32 v)) = v"
proof -
  assume "length hi = 12"
  then have "GETU32 (drop 12 (hi @ PUTU32 v)) = word_of_nat (be_val (be_enc 4 (unat v)))" by (simp add: GETU32_def PUTU32_def del: be_enc.simps)
  also have "\<dots> = word_of_nat (unat v mod 256 ^ 4)" by (simp only: be_val_be_enc)
  also have "\<dots> = v" using unsigned_less [of v, where 'a = nat] by simp
  finally show ?thesis .
qed

lemma ctr96_inc_low: "length iv = 16 \<Longrightarrow> drop 12 (ctr96_inc iv) = drop 12 iv"
  using inc_loop_enc [of 12 iv] by (simp add: ctr96_inc_def del: be_enc.simps)

lemma ctr32_advance:
  assumes "length iv = 16" "ctr32 = GETU32 (drop 12 iv)" "0 < blocks" "be_val (drop 12 iv) + blocks \<le> 2 ^ 32"
  defines "c' \<equiv> ctr32 + word_of_nat blocks"
  shows "(if c' = 0 then ctr96_inc (take 12 iv @ PUTU32 c') else take 12 iv @ PUTU32 c') = ctr_at iv blocks"
    and "GETU32 (drop 12 (ctr_at iv blocks)) = c'"
proof -
  let ?n = "be_val (drop 12 iv) + blocks"
  have c: "c' = word_of_nat ?n" using assms(1,2) by (simp add: c'_def GETU32_low)
  have p: "PUTU32 c' = be_enc 4 ?n" unfolding c by (rule PUTU32_of_nat)
  have "unat c' = ?n mod 2 ^ 32" unfolding c by (subst unat_of_nat) simp
  moreover have "?n mod 2 ^ 32 = 0 \<longleftrightarrow> ?n = 2 ^ 32" using assms(3,4) by (cases "?n = 2 ^ 32") simp_all
  ultimately have z: "c' = 0 \<longleftrightarrow> ?n = 2 ^ 32" by (simp add: unat_0_iff [symmetric])
  have at: "ctr_at iv blocks = (if c' = 0 then ctr96_inc (take 12 iv @ PUTU32 c') else take 12 iv @ PUTU32 c')"
  proof (cases "c' = 0")
    case True
    then have "be_enc 4 ?n = be_enc 4 0" using z by (intro be_enc_cong) simp
    then show ?thesis using ctr_at_carry [OF assms(1), of blocks] True z p by (simp del: be_enc.simps)
  next
    case False
    then show ?thesis using ctr_at_low [OF assms(1), of blocks] z p assms(4) by (simp del: be_enc.simps)
  qed
  then show "(if c' = 0 then ctr96_inc (take 12 iv @ PUTU32 c') else take 12 iv @ PUTU32 c') = ctr_at iv blocks" by simp
  have "drop 12 (ctr96_inc (take 12 iv @ PUTU32 c')) = drop 12 (take 12 iv @ PUTU32 c')"
    using assms(1) by (intro ctr96_inc_low) (simp add: PUTU32_def del: be_enc.simps)
  then have "drop 12 (if c' = 0 then ctr96_inc (take 12 iv @ PUTU32 c') else take 12 iv @ PUTU32 c') = drop 12 (take 12 iv @ PUTU32 c')"
    by (simp only: if_distrib [of "drop 12"] if_cancel)
  then show "GETU32 (drop 12 (ctr_at iv blocks)) = c'" unfolding at using GETU32_PUTU32 [of "take 12 iv" c'] assms(1) by (simp only: length_take)
qed

lemma ctr32_blocks_eq:
  assumes "cipher_ok block" "ctr32_ok block func" "length iv = 16" "ctr32 = GETU32 (drop 12 iv)"
    and "ctr_blocks block iv ec bs = (out, iv', ec', rest)"
  shows "ctr32_blocks func iv ctr32 bs = (out, iv', GETU32 (drop 12 iv'), rest)"
  using assms(3-)
proof (induction bs arbitrary: iv ctr32 ec out rule: length_induct)
  case (1 bs)
  show ?case
  proof (cases "length bs \<ge> 16")
    case False
    then have "ctr32_blocks func iv ctr32 bs = ([], iv, ctr32, bs)" by (subst ctr32_blocks.simps) simp
    moreover have "ctr_blocks block iv ec bs = ([], iv, ec, bs)" using False by (subst ctr_blocks.simps) simp
    ultimately show ?thesis using "1.prems" by simp
  next
    case True
    define b1 where "b1 = (if length bs div 16 > 2 ^ 28 then 2 ^ 28 else length bs div 16)"
    define lo where "lo = be_val (drop 12 iv)"
    define sum where "sum = ctr32 + word_of_nat b1"
    define blocks where "blocks = (if unat sum < b1 then b1 - unat sum else b1)"
    have b1: "0 < b1" "b1 \<le> 2 ^ 28" "16 * b1 \<le> length bs" using True by (auto simp: b1_def)
    have lo: "lo < 2 ^ 32" unfolding lo_def by (rule iv_low [OF "1.prems"(1)])
    have c: "ctr32 = word_of_nat lo" using "1.prems"(1,2) by (simp add: lo_def GETU32_low)
    have sum: "unat sum = (lo + b1) mod 2 ^ 32" unfolding sum_def c of_nat_add [symmetric] by (subst unat_of_nat) simp
    have bl: "0 < blocks" "lo + blocks \<le> 2 ^ 32" "16 * blocks \<le> length bs"
      and nc: "(if unat sum < b1 then 0 else sum) = ctr32 + word_of_nat blocks"
    proof -
      show "0 < blocks" "16 * blocks \<le> length bs" using b1 by (auto simp: blocks_def)
      show "lo + blocks \<le> 2 ^ 32" "(if unat sum < b1 then 0 else sum) = ctr32 + word_of_nat blocks"
      proof (atomize (full), cases "lo + b1 < 2 ^ 32")
        case True
        then have "blocks = b1" using sum b1 by (simp add: blocks_def)
        then show "lo + blocks \<le> 2 ^ 32 \<and> (if unat sum < b1 then 0 else sum) = ctr32 + word_of_nat blocks"
          using True sum by (simp add: sum_def)
      next
        case False
        then have u: "unat sum = lo + b1 - 2 ^ 32" using sum lo b1(2) by (simp add: mod_if)
        then have lt: "unat sum < b1" using lo b1 by simp
        then have e: "lo + blocks = 2 ^ 32" using False u by (simp add: blocks_def)
        then have "ctr32 + word_of_nat blocks = word_of_nat (2 ^ 32)" unfolding c of_nat_add [symmetric] by (simp only:)
        then show "lo + blocks \<le> 2 ^ 32 \<and> (if unat sum < b1 then 0 else sum) = ctr32 + word_of_nat blocks" using lt e by simp
      qed
    qed
    note adv = ctr32_advance [OF "1.prems"(1,2) bl(1) bl(2) [unfolded lo_def]]
    have "func (take (16 * blocks) bs) blocks iv = ctr_stream block iv blocks bs"
      by (rule func_stream [OF assms(2) "1.prems"(1) bl(3) bl(2) [unfolded lo_def]])
    moreover define c' where "c' = (if unat sum < b1 then 0 else sum)"
    have "ctr32_blocks func iv ctr32 bs
       = (case ctr32_blocks func (if c' = 0 then ctr96_inc (take 12 iv @ PUTU32 c') else take 12 iv @ PUTU32 c') c' (drop (16 * blocks) bs) of
            (out', r) \<Rightarrow> (func (take (16 * blocks) bs) blocks iv @ out', r))"
      unfolding c'_def sum_def blocks_def b1_def by (subst ctr32_blocks.simps) (simp only: True if_True Let_def)
    moreover have "c' = ctr32 + word_of_nat blocks" unfolding c'_def by (rule nc)
    ultimately have run: "ctr32_blocks func iv ctr32 bs
       = (case ctr32_blocks func (ctr_at iv blocks) (GETU32 (drop 12 (ctr_at iv blocks))) (drop (16 * blocks) bs) of
            (out', r) \<Rightarrow> (ctr_stream block iv blocks bs @ out', r))"
      by (simp only: adv)
    obtain e where "ctr_blocks block iv ec bs
        = (case ctr_blocks block (ctr_at iv blocks) e (drop (16 * blocks) bs) of (o', r) \<Rightarrow> (ctr_stream block iv blocks bs @ o', r))"
      using ctr_blocks_stream [OF assms(1) "1.prems"(1) bl(3)] by blast
    then obtain o' where o': "ctr_blocks block (ctr_at iv blocks) e (drop (16 * blocks) bs) = (o', iv', ec', rest)"
      "out = ctr_stream block iv blocks bs @ o'" using "1.prems"(3) by (auto split: prod.splits)
    have "ctr32_blocks func (ctr_at iv blocks) (GETU32 (drop 12 (ctr_at iv blocks))) (drop (16 * blocks) bs)
        = (o', iv', GETU32 (drop 12 iv'), rest)"
      using "1.IH" [rule_format, of "drop (16 * blocks) bs" "ctr_at iv blocks" _ e o'] o'(1) bl(1) True by simp
    then show ?thesis using run o'(2) by simp
  qed
qed

text \<open>Streams that agree except for key stream bytes that will not be used.\<close>

definition ctr_sim :: "ctr_state \<Rightarrow> ctr_state \<Rightarrow> bool" where
  "ctr_sim s t \<longleftrightarrow> cs_ivec s = cs_ivec t \<and> cs_num s = cs_num t \<and> length (cs_ecount_buf t) = length (cs_ecount_buf s)
     \<and> (cs_num s \<noteq> 0 \<longrightarrow> cs_ecount_buf s = cs_ecount_buf t)"

lemma ctr_head_0: "ctr_head ec 0 bs = ([], 0, bs)"
  by (cases bs) simp_all

lemma ctr32_call:
  assumes "cipher_ok block" "ctr32_ok block func" "ctr_ok s" "ctr_sim s t"
    and "CRYPTO_ctr128_encrypt block s bs = (out, s')"
  shows "\<exists>t'. CRYPTO_ctr128_encrypt_ctr32 func t bs = (out, t') \<and> ctr_sim s' t' \<and> ctr_ok s'"
proof -
  obtain o1 n bs1 where h: "ctr_head (cs_ecount_buf s) (cs_num s) bs = (o1, n, bs1)" by (cases "ctr_head (cs_ecount_buf s) (cs_num s) bs")
  have ht: "ctr_head (cs_ecount_buf t) (cs_num t) bs = (o1, n, bs1)"
    using assms(4) h by (cases "cs_num s = 0") (auto simp: ctr_sim_def ctr_head_0)
  have l: "length (cs_ivec s) = 16" "cs_ivec t = cs_ivec s" "length (cs_ecount_buf s) = 16" "length (cs_ecount_buf t) = 16" "cs_num s < 16"
    using assms(3,4) by (auto simp: ctr_ok_def ctr_sim_def)
  obtain o2 iv ec bs2 where b: "ctr_blocks block (cs_ivec s) (cs_ecount_buf s) bs1 = (o2, iv, ec, bs2)"
    by (cases "ctr_blocks block (cs_ivec s) (cs_ecount_buf s) bs1")
  have iv: "length iv = 16" "length ec = 16" "length bs2 < 16" using ctr_blocks_run [OF assms(1) l(1,3) b] by simp_all
  have b32: "ctr32_blocks func (cs_ivec t) (GETU32 (drop 12 (cs_ivec t))) bs1 = (o2, iv, GETU32 (drop 12 iv), bs2)"
    using ctr32_blocks_eq [OF assms(1,2) l(1) refl b] l(2) by simp
  have n: "n = 0 \<or> bs1 = []" "n < 16" using ctr_head_run(2,3) [OF l(5) h] by blast+
  show ?thesis
  proof (cases "bs2 = []")
    case True
    have r: "CRYPTO_ctr128_encrypt_ctr32 func t bs = (o1 @ o2, \<lparr>cs_ivec = iv, cs_ecount_buf = cs_ecount_buf t, cs_num = n\<rparr>)"
      "s' = \<lparr>cs_ivec = iv, cs_ecount_buf = ec, cs_num = n\<rparr>" "out = o1 @ o2"
      using ht b32 True assms(5) h b by (simp_all add: CRYPTO_ctr128_encrypt_ctr32_def CRYPTO_ctr128_encrypt_def)
    have "ec = cs_ecount_buf t" if "n \<noteq> 0"
    proof -
      have e: "bs1 = []" "ec = cs_ecount_buf s" using n(1) that b by (auto simp: ctr_blocks.simps)
      then have "cs_num s \<noteq> 0" using h that by (cases "cs_num s = 0") (auto simp: ctr_head_0)
      then show ?thesis using assms(4) e(2) by (simp add: ctr_sim_def)
    qed
    then show ?thesis using r iv l(4) n(2) by (auto simp: ctr_sim_def ctr_ok_def)
  next
    case False
    then have n0: "n = 0" using n(1) b by (auto simp: ctr_blocks.simps)
    have low: "be_val (drop 12 iv) + 1 \<le> 2 ^ 32" using iv_low [OF iv(1)] by simp
    note adv = ctr32_advance [OF iv(1) refl _ low]
    have inc: "(if GETU32 (drop 12 iv) + 1 = 0 then ctr96_inc (take 12 iv @ PUTU32 (GETU32 (drop 12 iv) + 1))
        else take 12 iv @ PUTU32 (GETU32 (drop 12 iv) + 1)) = ctr128_inc iv"
      using adv(1) by (simp only: ctr128_inc_at [OF iv(1)] of_nat_1 zero_less_one)
    have "func (replicate 16 0) 1 iv = block iv"
    proof -
      have "func (take (16 * 1) (replicate 16 0)) 1 iv = ctr_stream block iv 1 (replicate 16 0)"
        by (rule func_stream [OF assms(2) iv(1) _ low]) simp
      also have "\<dots> = block iv"
        using assms(1) iv(1) by (intro nth_equalityI) (simp_all add: ctr_stream_def ctr_at_0)
      finally show ?thesis by simp
    qed
    then have "CRYPTO_ctr128_encrypt_ctr32 func t bs
        = (o1 @ o2 @ ctr_tail (block iv) bs2, \<lparr>cs_ivec = ctr128_inc iv, cs_ecount_buf = block iv, cs_num = length bs2\<rparr>)"
      using ht b32 False n0 inc by (cases "GETU32 (drop 12 iv) + 1 = 0") (simp_all add: CRYPTO_ctr128_encrypt_ctr32_def Let_def)
    moreover have "out = o1 @ o2 @ ctr_tail (block iv) bs2" "s' = \<lparr>cs_ivec = ctr128_inc iv, cs_ecount_buf = block iv, cs_num = length bs2\<rparr>"
      using assms(5) h b False n0 by (simp_all add: CRYPTO_ctr128_encrypt_def Let_def)
    ultimately show ?thesis using iv assms(1) by (simp add: ctr_sim_def ctr_ok_def)
  qed
qed

lemma feed_ctr32:
  assumes "cipher_ok block" "ctr32_ok block func" "ctr_ok s" "ctr_sim s t" "feed (CRYPTO_ctr128_encrypt block) s cs = (out, s')"
  shows "\<exists>t'. feed (CRYPTO_ctr128_encrypt_ctr32 func) t cs = (out, t') \<and> ctr_sim s' t'"
  using assms(3-)
proof (induction cs arbitrary: s t out)
  case (Cons c cs)
  obtain o1 s1 where c: "CRYPTO_ctr128_encrypt block s c = (o1, s1)" by fastforce
  obtain o2 where f: "feed (CRYPTO_ctr128_encrypt block) s1 cs = (o2, s')" "out = o1 @ o2" using Cons.prems(3) c by (auto split: prod.splits)
  obtain t1 where t1: "CRYPTO_ctr128_encrypt_ctr32 func t c = (o1, t1)" "ctr_sim s1 t1" "ctr_ok s1"
    using ctr32_call [OF assms(1,2) Cons.prems(1,2) c] by blast
  then show ?case using Cons.IH [OF t1(3,2) f(1)] f(2) by auto
qed simp

text \<open>C22. The two implementations of counter mode agree.  When the function encrypts blocks under a counter of which it steps
  only the last four bytes, then for any sequence of calls, the variant that uses it returns what the plain variant
  returns for the whole input, and leaves the same counter and position; carries out of the four bytes included.\<close>

theorem ctr32_equiv:
  assumes "cipher_ok block" "ctr32_ok block func" "ctr_ok s"
  shows "\<exists>out t t'. feed (CRYPTO_ctr128_encrypt_ctr32 func) s cs = (out, t) \<and> CRYPTO_ctr128_encrypt block s (concat cs) = (out, t')
    \<and> cs_ivec t = cs_ivec t' \<and> cs_num t = cs_num t'"
proof -
  obtain out t' where f: "feed (CRYPTO_ctr128_encrypt block) s cs = (out, t')" by fastforce
  have "ctr_sim s s" by (simp add: ctr_sim_def)
  then obtain t where "feed (CRYPTO_ctr128_encrypt_ctr32 func) s cs = (out, t)" "ctr_sim t' t"
    using feed_ctr32 [OF assms _ f] by blast
  then show ?thesis using f ctr.feed_chunks [of block s cs] assms by (auto simp: ctr_sim_def)
qed

text \<open>C23. Counter mode decrypts what it encrypted, however the calls on the two sides split the data.\<close>

theorem ctr_roundtrip:
  assumes "cipher_ok block" "ctr_ok s" "feed (CRYPTO_ctr128_encrypt block) s cs = (x, t)" "concat ds = x"
  shows "feed (CRYPTO_ctr128_encrypt block) s ds = (concat cs, t)"
  by (rule ctr.feed_roundtrip) (use assms in simp_all)

section \<open>Examples\<close>

definition demo_func :: "block128_f \<Rightarrow> ctr128_f" where
  "demo_func block bs k iv =
     concat (map (\<lambda>j. map2 (XOR) (take 16 (drop (16 * j) bs)) (block (take 12 iv @ be_enc 4 (be_val (drop 12 iv) + j)))) [0..<k])"

definition demo_ctr :: ctr_state where
  "demo_ctr = \<lparr>cs_ivec = replicate 16 255, cs_ecount_buf = replicate 16 0, cs_num = 0\<rparr>"

lemma demo_ctr_ok: "cipher_ok (map NOT)" "ctr32_ok (map NOT) (demo_func (map NOT))" "ctr_ok demo_ctr"
  by (simp_all add: cipher_ok_def ctr32_ok_def demo_func_def demo_ctr_def ctr_ok_def)

lemma demo_ctr_run: "fst (CRYPTO_ctr128_encrypt (map NOT) demo_ctr [1, 2, 3]) = [1, 2, 3]"
proof -
  have "map NOT (replicate 16 255) = replicate 16 (0 :: u8)" by (simp add: map_replicate)
  also have "\<dots> = 0 # 0 # 0 # replicate 13 0" by (simp add: numeral_eq_Suc)
  finally have b: "map NOT (replicate 16 255) = (0 :: u8) # 0 # 0 # replicate 13 0" .
  have "run (ctr_byte (map NOT)) demo_ctr [1, 2, 3] = (map2 (XOR) [1, 2, 3] (map NOT (replicate 16 255)),
      \<lparr>cs_ivec = ctr128_inc (replicate 16 255), cs_ecount_buf = map NOT (replicate 16 255), cs_num = length [1 :: u8, 2, 3] mod 16\<rparr>)"
    unfolding demo_ctr_def by (rule ctr_block_run [OF demo_ctr_ok(1)]) simp_all
  then show ?thesis unfolding ctr128_bytes [OF demo_ctr_ok(1,3)] b by simp
qed

theorem ctr32_equiv_witness:
  "fst (feed (CRYPTO_ctr128_encrypt_ctr32 (demo_func (map NOT))) demo_ctr [[1], [2, 3]]) = [1, 2, 3]"
  using ctr32_equiv [OF demo_ctr_ok, of "[[1], [2, 3]]"] demo_ctr_run by auto

theorem ctr_roundtrip_witness:
  "\<exists>x t. feed (CRYPTO_ctr128_encrypt (map NOT)) demo_ctr [[1], [2, 3]] = (x, t)
    \<and> feed (CRYPTO_ctr128_encrypt (map NOT)) demo_ctr [x] = ([1, 2, 3], t)"
proof -
  obtain x t where f: "feed (CRYPTO_ctr128_encrypt (map NOT)) demo_ctr [[1], [2, 3]] = (x, t)" by fastforce
  from ctr_roundtrip [OF demo_ctr_ok(1,3) f, of "[x]"] f show ?thesis by auto
qed

end
