(* ===== verification/Modes_Feedback.thy ===== *)
theory Modes_Feedback
  imports Modes_Stream
begin

text \<open>
  Output and cipher feedback.  Both keep a block \<open>ivec\<close> that is encrypted when its 16 bytes have been used, and differ only
  in what they store at the position of a byte: nothing new, or the byte of the ciphertext.  The lemmas are proved
  once for any such update.
\<close>

section \<open>The common machine\<close>

definition refill :: "block128_f \<Rightarrow> fb_state \<Rightarrow> fb_state" where
  "refill block s = (if fb_num s = 0 then s\<lparr>fb_ivec := block (fb_ivec s)\<rparr> else s)"

definition fb_byte :: "(u8 \<Rightarrow> u8 \<Rightarrow> u8) \<Rightarrow> block128_f \<Rightarrow> fb_state \<Rightarrow> u8 \<Rightarrow> u8 \<times> fb_state" where
  "fb_byte upd block s b =
     (let s = refill block s; n = fb_num s; k = fb_ivec s ! n in
      (k XOR b, \<lparr>fb_ivec = (fb_ivec s)[n := upd k b], fb_num = (n + 1) mod 16\<rparr>))"

definition fb_ok :: "fb_state \<Rightarrow> bool" where
  "fb_ok s \<longleftrightarrow> length (fb_ivec s) = 16 \<and> fb_num s < 16"

lemma fb_byte_ok: "cipher_ok block \<Longrightarrow> fb_ok s \<Longrightarrow> fb_byte upd block s b = (x, s') \<Longrightarrow> fb_ok s'"
  by (auto simp: fb_byte_def refill_def fb_ok_def Let_def split: if_splits)

fun fb_head :: "(u8 \<Rightarrow> u8 \<Rightarrow> u8) \<Rightarrow> u8 list \<Rightarrow> nat \<Rightarrow> u8 list \<Rightarrow> u8 list \<times> u8 list \<times> nat \<times> u8 list" where
  "fb_head upd ivec n [] = ([], ivec, n, [])"
| "fb_head upd ivec n (b # bs) =
     (if n = 0 then ([], ivec, n, b # bs)
      else (case fb_head upd (ivec[n := upd (ivec ! n) b]) ((n + 1) mod 16) bs of (out, r) \<Rightarrow> ((ivec ! n XOR b) # out, r)))"

function fb_blocks :: "(u8 \<Rightarrow> u8 \<Rightarrow> u8) \<Rightarrow> block128_f \<Rightarrow> u8 list \<Rightarrow> u8 list \<Rightarrow> u8 list \<times> u8 list \<times> u8 list" where
  "fb_blocks upd block ivec bs =
     (if length bs \<ge> 16 then
        (case fb_blocks upd block (map2 upd (block ivec) (take 16 bs)) (drop 16 bs) of
           (out, r) \<Rightarrow> (map2 (XOR) (block ivec) (take 16 bs) @ out, r))
      else ([], ivec, bs))"
  by pat_completeness auto

termination by (relation "measure (\<lambda>(upd, block, ivec, bs). length bs)") auto

declare fb_blocks.simps [simp del]

text \<open>A call of the machine: the rest of the current block, whole blocks, the beginning of the last one.\<close>

definition fb_call :: "(u8 \<Rightarrow> u8 \<Rightarrow> u8) \<Rightarrow> block128_f \<Rightarrow> fb_state \<Rightarrow> u8 list \<Rightarrow> u8 list \<times> fb_state" where
  "fb_call upd block s bs =
     (case fb_head upd (fb_ivec s) (fb_num s) bs of
        (out1, ivec, n, bs1) \<Rightarrow>
          (case fb_blocks upd block ivec bs1 of
             (out2, ivec, bs2) \<Rightarrow>
               if bs2 \<noteq> [] then
                 (out1 @ out2 @ map2 (XOR) (block ivec) bs2,
                  \<lparr>fb_ivec = map2 upd (block ivec) bs2 @ drop (length bs2) (block ivec), fb_num = n + length bs2\<rparr>)
               else (out1 @ out2, \<lparr>fb_ivec = ivec, fb_num = n\<rparr>)))"

lemma fb_head_run:
  assumes "fb_ok s" "fb_head upd (fb_ivec s) (fb_num s) bs = (out, iv, n, rest)"
  shows "run (fb_byte upd block) s bs = (case run (fb_byte upd block) \<lparr>fb_ivec = iv, fb_num = n\<rparr> rest of (x, t) \<Rightarrow> (out @ x, t))
    \<and> (n = 0 \<or> rest = []) \<and> n < 16 \<and> length iv = 16"
  using assms
proof (induction bs arbitrary: s out)
  case Nil
  then show ?case by (auto simp: fb_ok_def)
next
  case (Cons b bs)
  show ?case
  proof (cases "fb_num s = 0")
    case True
    then have e: "out = []" "n = 0" "rest = b # bs" "\<lparr>fb_ivec = iv, fb_num = 0\<rparr> = s" using Cons.prems(2) by auto
    show ?thesis unfolding e(1,2,3) e(4) using Cons.prems e(4) by (auto simp: fb_ok_def split: prod.split)
  next
    case False
    let ?s = "\<lparr>fb_ivec = (fb_ivec s)[fb_num s := upd (fb_ivec s ! fb_num s) b], fb_num = (fb_num s + 1) mod 16\<rparr>"
    obtain out' where o: "fb_head upd (fb_ivec ?s) (fb_num ?s) bs = (out', iv, n, rest)" "out = (fb_ivec s ! fb_num s XOR b) # out'"
      using Cons.prems False by (auto split: prod.splits)
    have "fb_ok ?s" using Cons.prems(1) by (simp add: fb_ok_def)
    then show ?thesis using Cons.IH [OF _ o(1)] o(2) False by (simp add: fb_byte_def refill_def Let_def split: prod.splits)
  qed
qed

lemma fb_inside:
  assumes "length a = n" "0 < n" "length k = 16 - n" "n + length bs \<le> 16"
  shows "run (fb_byte upd block) \<lparr>fb_ivec = a @ k, fb_num = n mod 16\<rparr> bs
    = (map2 (XOR) k bs, \<lparr>fb_ivec = a @ map2 upd k bs @ drop (length bs) k, fb_num = (n + length bs) mod 16\<rparr>)"
  using assms
proof (induction bs arbitrary: n a k)
  case (Cons b bs)
  then have n: "n < 16" "n mod 16 = n" "n \<noteq> 0" by simp_all
  obtain x k' where k: "k = x # k'" using Cons.prems n by (cases k) auto
  show ?case using n Cons.IH [of "a @ [upd x b]" "Suc n" k'] Cons.prems
    by (simp add: k fb_byte_def refill_def Let_def nth_append list_update_append split: prod.splits)
qed simp

lemma fb_block_run:
  assumes "cipher_ok block" "length iv = 16" "bs \<noteq> []" "length bs \<le> 16"
  shows "run (fb_byte upd block) \<lparr>fb_ivec = iv, fb_num = 0\<rparr> bs
    = (map2 (XOR) (block iv) bs, \<lparr>fb_ivec = map2 upd (block iv) bs @ drop (length bs) (block iv), fb_num = length bs mod 16\<rparr>)"
proof -
  obtain b r where b: "bs = b # r" using assms(3) by (cases bs) auto
  obtain k ks where k: "block iv = k # ks" "length ks = 15" using cipher_ok_length [OF assms(1,2)] by (cases "block iv") auto
  have "run (fb_byte upd block) \<lparr>fb_ivec = [upd k b] @ ks, fb_num = 1 mod 16\<rparr> r
    = (map2 (XOR) ks r, \<lparr>fb_ivec = [upd k b] @ map2 upd ks r @ drop (length r) ks, fb_num = (1 + length r) mod 16\<rparr>)"
    by (rule fb_inside) (use assms b k in simp_all)
  then show ?thesis using k by (simp add: b fb_byte_def refill_def Let_def)
qed

lemma fb_blocks_run:
  assumes "cipher_ok block" "length iv = 16" "fb_blocks upd block iv bs = (out, iv', rest)"
  shows "run (fb_byte upd block) \<lparr>fb_ivec = iv, fb_num = 0\<rparr> bs
      = (case run (fb_byte upd block) \<lparr>fb_ivec = iv', fb_num = 0\<rparr> rest of (x, t) \<Rightarrow> (out @ x, t))
    \<and> length rest < 16 \<and> length iv' = 16"
  using assms
proof (induction bs arbitrary: iv out rule: length_induct)
  case (1 bs)
  show ?case
  proof (cases "length bs \<ge> 16")
    case False
    then show ?thesis using "1.prems" by (auto simp: fb_blocks.simps [of upd block iv bs] split: prod.split)
  next
    case True
    let ?iv = "map2 upd (block iv) (take 16 bs)"
    have l: "length ?iv = 16" using True "1.prems" by simp
    obtain o1 where o1: "fb_blocks upd block ?iv (drop 16 bs) = (o1, iv', rest)" "out = map2 (XOR) (block iv) (take 16 bs) @ o1"
      using "1.prems"(3) True by (auto simp: fb_blocks.simps [of upd block iv bs] split: prod.splits)
    have "run (fb_byte upd block) \<lparr>fb_ivec = iv, fb_num = 0\<rparr> (take 16 bs) = (map2 (XOR) (block iv) (take 16 bs), \<lparr>fb_ivec = ?iv, fb_num = 0\<rparr>)"
      using fb_block_run [of block iv "take 16 bs" upd] True "1.prems" by fastforce
    moreover have "run (fb_byte upd block) \<lparr>fb_ivec = ?iv, fb_num = 0\<rparr> (drop 16 bs)
      = (case run (fb_byte upd block) \<lparr>fb_ivec = iv', fb_num = 0\<rparr> rest of (x, t) \<Rightarrow> (o1 @ x, t)) \<and> length rest < 16 \<and> length iv' = 16"
      using "1.IH" [rule_format, of "drop 16 bs" ?iv o1] True l "1.prems" o1(1) by simp
    ultimately show ?thesis
      using run_append [of "fb_byte upd block" _ "take 16 bs" "drop 16 bs"] o1(2) by (simp split: prod.splits)
  qed
qed

lemma fb_call_bytes:
  assumes "cipher_ok block" "fb_ok s"
  shows "fb_call upd block s bs = run (fb_byte upd block) s bs"
proof -
  obtain o1 iv1 n bs1 where h: "fb_head upd (fb_ivec s) (fb_num s) bs = (o1, iv1, n, bs1)" by (cases "fb_head upd (fb_ivec s) (fb_num s) bs")
  obtain o2 iv bs2 where b: "fb_blocks upd block iv1 bs1 = (o2, iv, bs2)" by (cases "fb_blocks upd block iv1 bs1")
  note hr = fb_head_run [OF assms(2) h, of block]
  show ?thesis
  proof (cases "bs1 = []")
    case True
    then have "o2 = []" "iv = iv1" "bs2 = []" using b by (simp_all add: fb_blocks.simps)
    then show ?thesis using hr h b True by (simp add: fb_call_def)
  next
    case False
    then have n: "n = 0" using hr by blast
    have r: "run (fb_byte upd block) s bs = (case run (fb_byte upd block) \<lparr>fb_ivec = iv, fb_num = 0\<rparr> bs2 of (x, t) \<Rightarrow> (o1 @ o2 @ x, t))"
      and l: "length bs2 < 16" "length iv = 16"
      using hr n fb_blocks_run [OF assms(1) _ b] by (auto split: prod.splits)
    show ?thesis
    proof (cases "bs2 = []")
      case True
      then show ?thesis using r h b n by (simp add: fb_call_def)
    next
      case ne: False
      then show ?thesis using r h b n fb_block_run [OF assms(1) l(2) ne, of upd] l by (simp add: fb_call_def)
    qed
  qed
qed

section \<open>The two modes\<close>

definition upd_ofb :: "u8 \<Rightarrow> u8 \<Rightarrow> u8" where
  "upd_ofb k b = k"

definition upd_cfb :: "bool \<Rightarrow> u8 \<Rightarrow> u8 \<Rightarrow> u8" where
  "upd_cfb enc k b = (if enc then k XOR b else b)"

lemma map2_fst: "map2 (\<lambda>k b. k) a b = take (length b) a"
  by (rule nth_equalityI) simp_all

lemma map2_snd: "length b \<le> length a \<Longrightarrow> map2 (\<lambda>k b. b) a b = b"
  by (rule nth_equalityI) simp_all

lemma map2_xor_commute: "map2 (XOR) a b = map2 (XOR) b (a :: u8 list)"
  by (rule nth_equalityI) (simp_all add: xor.commute)

lemma ofb_head: "(case ctr_head iv n bs of (out, n', rest) \<Rightarrow> (out, iv, n', rest)) = fb_head upd_ofb iv n bs"
proof (induction bs arbitrary: n)
  case (Cons b bs)
  obtain x m r where h: "ctr_head iv (Suc n mod 16) bs = (x, m, r)" by (cases "ctr_head iv (Suc n mod 16) bs")
  then have "fb_head upd_ofb iv (Suc n mod 16) bs = (x, iv, m, r)" using Cons.IH [of "Suc n mod 16"] by simp
  moreover have "upd_ofb (iv ! n) b = iv ! n" by (simp add: upd_ofb_def)
  ultimately show ?case using h by (simp add: xor.commute)
qed simp

lemma ofb_blocks_eq: "cipher_ok block \<Longrightarrow> length iv = 16 \<Longrightarrow> ofb_blocks block iv bs = fb_blocks upd_ofb block iv bs"
proof (induction bs arbitrary: iv rule: length_induct)
  case (1 bs)
  show ?case
  proof (cases "length bs \<ge> 16")
    case True
    have x: "xor_block bs (block iv) = map2 (XOR) (block iv) (take 16 bs)" "map2 upd_ofb (block iv) (take 16 bs) = block iv"
      using True "1.prems" by (simp_all add: xor_block_map2 map2_xor_commute upd_ofb_def [abs_def] map2_fst)
    have "ofb_blocks block (block iv) (drop 16 bs) = fb_blocks upd_ofb block (block iv) (drop 16 bs)"
      using "1.IH" [rule_format, of "drop 16 bs" "block iv"] True "1.prems" by simp
    then show ?thesis unfolding ofb_blocks.simps [of block iv bs] fb_blocks.simps [of upd_ofb block iv bs] x using True by (simp add: Let_def x)
  qed (simp add: ofb_blocks.simps [of block iv bs] fb_blocks.simps [of upd_ofb block iv bs])
qed

lemma ofb_call: "cipher_ok block \<Longrightarrow> fb_ok s \<Longrightarrow> CRYPTO_ofb128_encrypt block s bs = fb_call upd_ofb block s bs"
proof -
  assume a: "cipher_ok block" "fb_ok s"
  obtain o1 n bs1 where h: "ctr_head (fb_ivec s) (fb_num s) bs = (o1, n, bs1)" by (cases "ctr_head (fb_ivec s) (fb_num s) bs")
  have h': "fb_head upd_ofb (fb_ivec s) (fb_num s) bs = (o1, fb_ivec s, n, bs1)" using ofb_head [of "fb_ivec s" "fb_num s" bs] h by simp
  obtain o2 iv bs2 where b: "ofb_blocks block (fb_ivec s) bs1 = (o2, iv, bs2)" by (cases "ofb_blocks block (fb_ivec s) bs1")
  have b': "fb_blocks upd_ofb block (fb_ivec s) bs1 = (o2, iv, bs2)" using b ofb_blocks_eq [of block "fb_ivec s" bs1] a by (simp add: fb_ok_def)
  have l: "length bs2 < 16" "length iv = 16" using fb_blocks_run [OF a(1) _ b'] a(2) by (simp_all add: fb_ok_def)
  have "length bs2 \<le> length (block iv)" using l a(1) by simp
  then have "map2 upd_ofb (block iv) bs2 @ drop (length bs2) (block iv) = block iv" "ctr_tail (block iv) bs2 = map2 (XOR) (block iv) bs2"
    by (simp_all add: ctr_tail_map2 map2_xor_commute upd_ofb_def [abs_def] map2_fst)
  then show ?thesis by (simp add: CRYPTO_ofb128_encrypt_def fb_call_def h h' b b' Let_def)
qed

lemma cfb_head_eq: "cfb_head enc iv n bs = fb_head (upd_cfb enc) iv n bs"
  by (induction bs arbitrary: iv n) (simp_all add: cfb_byte_def upd_cfb_def Let_def split: prod.split)

lemma cfb_words_eq:
  assumes "length k = 16" "16 \<le> length bs"
  shows "cfb_words enc k bs = (map2 (XOR) k (take 16 bs), map2 (upd_cfb enc) k (take 16 bs))"
proof -
  have "xor_block k bs = map2 (XOR) k (take 16 bs)" using assms by (simp add: xor_block_map2)
  moreover have "concat (map (\<lambda>n. store_word_le (load_word_le (drop n bs))) [0, 8]) = take 16 bs"
    using assms(2) store_load [of "take 8 bs"] store_load [of "take 8 (drop 8 bs)"] take_add [of 8 8 bs] by (simp add: load_word_take)
  ultimately show ?thesis
    using assms by (cases enc) (simp_all add: cfb_words_def upd_cfb_def [abs_def] map2_snd)
qed

lemma cfb_blocks_eq: "cipher_ok block \<Longrightarrow> length iv = 16 \<Longrightarrow> cfb_blocks block enc iv bs = fb_blocks (upd_cfb enc) block iv bs"
proof (induction bs arbitrary: iv rule: length_induct)
  case (1 bs)
  show ?case
  proof (cases "length bs \<ge> 16")
    case True
    have "cfb_blocks block enc (map2 (upd_cfb enc) (block iv) (take 16 bs)) (drop 16 bs)
        = fb_blocks (upd_cfb enc) block (map2 (upd_cfb enc) (block iv) (take 16 bs)) (drop 16 bs)"
      using "1.IH" [rule_format, of "drop 16 bs" "map2 (upd_cfb enc) (block iv) (take 16 bs)"] True "1.prems" by simp
    then show ?thesis unfolding cfb_blocks.simps [of block enc iv bs] fb_blocks.simps [of "upd_cfb enc" block iv bs]
      using True "1.prems" by (simp add: cfb_words_eq)
  qed (simp add: cfb_blocks.simps [of block enc iv bs] fb_blocks.simps [of "upd_cfb enc" block iv bs])
qed

lemma cfb_tail_eq:
  "length k = 16 - n \<Longrightarrow> length a = n \<Longrightarrow> n + length bs \<le> 16
   \<Longrightarrow> cfb_tail enc (a @ k) n bs = (map2 (XOR) k bs, a @ map2 (upd_cfb enc) k bs @ drop (length bs) k)"
proof (induction bs arbitrary: a k n)
  case (Cons b bs)
  then obtain x k' where k: "k = x # k'" by (cases k) auto
  show ?case using Cons.IH [of k' "Suc n" "a @ [upd_cfb enc x b]"] Cons.prems
    by (simp add: k cfb_byte_def upd_cfb_def Let_def nth_append list_update_append)
qed simp

lemma cfb_call: "cipher_ok block \<Longrightarrow> fb_ok s \<Longrightarrow> CRYPTO_cfb128_encrypt block enc s bs = fb_call (upd_cfb enc) block s bs"
proof -
  assume a: "cipher_ok block" "fb_ok s"
  obtain o1 iv1 n bs1 where h: "fb_head (upd_cfb enc) (fb_ivec s) (fb_num s) bs = (o1, iv1, n, bs1)"
    by (cases "fb_head (upd_cfb enc) (fb_ivec s) (fb_num s) bs")
  have hr: "n = 0 \<or> bs1 = []" "length iv1 = 16" using fb_head_run [OF a(2) h, of block] by simp_all
  obtain o2 iv bs2 where b: "fb_blocks (upd_cfb enc) block iv1 bs1 = (o2, iv, bs2)" by (cases "fb_blocks (upd_cfb enc) block iv1 bs1")
  have l: "length bs2 < 16" "length iv = 16" using fb_blocks_run [OF a(1) hr(2) b] by simp_all
  have n: "n = 0" if "bs2 \<noteq> []" using hr(1) b that by (auto simp: fb_blocks.simps)
  have "cfb_tail enc (block iv) 0 bs2 = (map2 (XOR) (block iv) bs2, map2 (upd_cfb enc) (block iv) bs2 @ drop (length bs2) (block iv))"
    using cfb_tail_eq [of "block iv" 0 "[]" bs2 enc] l a(1) by simp
  then show ?thesis
    using h b n cfb_blocks_eq [OF a(1) hr(2), of enc bs1] by (cases "bs2 = []") (simp_all add: CRYPTO_cfb128_encrypt_def fb_call_def cfb_head_eq)
qed

interpretation ofb: stream_cipher "CRYPTO_ofb128_encrypt block" "CRYPTO_ofb128_encrypt block" "fb_byte upd_ofb block" "fb_byte upd_ofb block"
  "\<lambda>s. cipher_ok block \<and> fb_ok s" for block
proof
  show "cipher_ok block \<and> fb_ok s \<Longrightarrow> CRYPTO_ofb128_encrypt block s bs = run (fb_byte upd_ofb block) s bs" for s bs
    by (simp add: ofb_call fb_call_bytes)
  show "cipher_ok block \<and> fb_ok s \<Longrightarrow> fb_byte upd_ofb block s b = (x, s') \<Longrightarrow> fb_byte upd_ofb block s x = (b, s')" for s b x s'
    by (auto simp: fb_byte_def upd_ofb_def Let_def simp flip: xor.assoc)
  show "cipher_ok block \<and> fb_ok s \<Longrightarrow> fb_byte upd_ofb block s b = (x, s') \<Longrightarrow> cipher_ok block \<and> fb_ok s'" for s b x s'
    using fb_byte_ok by blast
qed

interpretation cfb: stream_cipher "CRYPTO_cfb128_encrypt block True" "CRYPTO_cfb128_encrypt block False"
  "fb_byte (upd_cfb True) block" "fb_byte (upd_cfb False) block" "\<lambda>s. cipher_ok block \<and> fb_ok s" for block
proof
  show "cipher_ok block \<and> fb_ok s \<Longrightarrow> CRYPTO_cfb128_encrypt block True s bs = run (fb_byte (upd_cfb True) block) s bs"
    "cipher_ok block \<and> fb_ok s \<Longrightarrow> CRYPTO_cfb128_encrypt block False s bs = run (fb_byte (upd_cfb False) block) s bs" for s bs
    by (simp_all add: cfb_call fb_call_bytes)
  show "cipher_ok block \<and> fb_ok s \<Longrightarrow> fb_byte (upd_cfb True) block s b = (x, s') \<Longrightarrow> fb_byte (upd_cfb False) block s x = (b, s')" for s b x s'
    by (auto simp: fb_byte_def upd_cfb_def Let_def simp flip: xor.assoc)
  show "cipher_ok block \<and> fb_ok s \<Longrightarrow> fb_byte (upd_cfb True) block s b = (x, s') \<Longrightarrow> cipher_ok block \<and> fb_ok s'"
    "cipher_ok block \<and> fb_ok s \<Longrightarrow> fb_byte (upd_cfb False) block s b = (x, s') \<Longrightarrow> cipher_ok block \<and> fb_ok s'" for s b x s'
    using fb_byte_ok by blast+
qed

section \<open>Feedback of a few bits\<close>

text \<open>A step with feedback of \<open>nbits\<close> bits is undone by the step in the other direction: it returns the input bytes and
  the same feedback register, whatever the bits of the last byte beyond \<open>nbits\<close> are.\<close>

lemma cfbr_shift_cong:
  assumes "length ivec = 16" "length a = length b" "nbits mod 8 = 0 \<Longrightarrow> length a = nbits div 8"
    and full: "\<And>i. i < nbits div 8 \<Longrightarrow> a ! i = b ! i"
    and part: "nbits mod 8 \<noteq> 0 \<Longrightarrow> drop_bit (8 - nbits mod 8) (a ! (nbits div 8)) = drop_bit (8 - nbits mod 8) (b ! (nbits div 8))"
  shows "cfbr_shift (ivec @ a) nbits = cfbr_shift (ivec @ b) nbits"
proof (cases "nbits mod 8 = 0")
  case True
  then have "a = b" using assms(2,3) full by (intro nth_equalityI) simp_all
  then show ?thesis by simp
next
  case False
  define m r where "m = nbits div 8" and "r = nbits mod 8"
  have n1: "(ivec @ a) ! (n + m) = (ivec @ b) ! (n + m)" if "n < 16" for n
    using full [of "n + m - 16"] assms(1) that by (auto simp: nth_append m_def [symmetric])
  have n2: "drop_bit (8 - r) ((ivec @ a) ! (n + m + 1)) = drop_bit (8 - r) ((ivec @ b) ! (n + m + 1))" if n: "n < 16" for n
  proof (cases "n = 15")
    case True
    then have "n + m + 1 = length ivec + m" using assms(1) by simp
    then show ?thesis using part [OF False, folded m_def r_def] by (simp only: nth_append_length_plus)
  next
    case ne: False
    then show ?thesis using n1 [of "Suc n"] n by simp
  qed
  have "map (\<lambda>n. push_bit r ((ivec @ a) ! (n + m)) OR drop_bit (8 - r) ((ivec @ a) ! (n + m + 1))) [0..<16]
      = map (\<lambda>n. push_bit r ((ivec @ b) ! (n + m)) OR drop_bit (8 - r) ((ivec @ b) ! (n + m + 1))) [0..<16]"
    by (rule map_cong [OF refl]) (simp only: n1 n2 set_upt atLeastLessThan_iff)
  then show ?thesis unfolding cfbr_shift_def Let_def using False by (simp only: if_False m_def r_def)
qed

lemma cfbr_inverse:
  assumes "length ivec = 16" "0 < nbits" "nbits \<le> 128" "length inp = (nbits + 7) div 8"
    and "cfbr_encrypt_block block True inp nbits ivec = (out, ivec')"
  shows "cfbr_encrypt_block block False out nbits ivec = (inp, ivec')" "length out = length inp"
proof -
  have o: "out = map (\<lambda>n. inp ! n XOR block ivec ! n) [0..<(nbits + 7) div 8]" "ivec' = cfbr_shift (ivec @ out) nbits"
    using assms(2,3,5) by (auto simp: cfbr_encrypt_block_def Let_def)
  then show "length out = length inp" using assms(4) by simp
  have "map (\<lambda>n. out ! n XOR block ivec ! n) [0..<(nbits + 7) div 8] = inp"
    using assms(4) by (intro nth_equalityI) (simp_all add: o(1) xor.assoc)
  then show "cfbr_encrypt_block block False out nbits ivec = (inp, ivec')"
    using assms o by (simp add: cfbr_encrypt_block_def Let_def)
qed

lemma cfb8_roundtrip:
  "cipher_ok block \<Longrightarrow> length ivec = 16 \<Longrightarrow> CRYPTO_cfb128_8_encrypt block True bs ivec = (out, ivec')
   \<Longrightarrow> CRYPTO_cfb128_8_encrypt block False out ivec = (bs, ivec')"
proof (induction bs arbitrary: ivec out)
  case (Cons b bs)
  obtain d iv1 where d: "cfbr_encrypt_block block True [b] 8 ivec = (d, iv1)" by fastforce
  obtain o2 where o2: "CRYPTO_cfb128_8_encrypt block True bs iv1 = (o2, ivec')" "out = d @ o2"
    using Cons.prems(3) d by (auto split: prod.splits)
  have i: "cfbr_encrypt_block block False d 8 ivec = ([b], iv1)" "length d = 1"
    using cfbr_inverse [OF Cons.prems(2) _ _ _ d] by simp_all
  then obtain x where x: "d = [x]" by (cases d) auto
  have "length iv1 = 16" using i(1) Cons.prems(2) by (auto simp: cfbr_encrypt_block_def cfbr_shift_def Let_def x)
  then show ?case using Cons.IH [OF Cons.prems(1) _ o2(1)] i o2(2) x by simp
qed simp

section \<open>Round trips\<close>

text \<open>C24. Output and cipher feedback decrypt what they encrypted, however the calls on the two sides split the data, and
  end in the same state.\<close>

theorem feedback_roundtrip:
  assumes "cipher_ok block" "fb_ok s"
  shows "(\<forall>cs ds t. feed (CRYPTO_cfb128_encrypt block True) s cs = (concat ds, t) \<longrightarrow>
            feed (CRYPTO_cfb128_encrypt block False) s ds = (concat cs, t))
       \<and> (\<forall>cs ds t. feed (CRYPTO_ofb128_encrypt block) s cs = (concat ds, t) \<longrightarrow>
            feed (CRYPTO_ofb128_encrypt block) s ds = (concat cs, t))"
  using cfb.feed_roundtrip [OF conjI [OF assms]] ofb.feed_roundtrip [OF conjI [OF assms]] by blast

definition demo_fb :: fb_state where
  "demo_fb = \<lparr>fb_ivec = replicate 16 7, fb_num = 0\<rparr>"

theorem feedback_roundtrip_witness:
  "\<exists>x t. feed (CRYPTO_cfb128_encrypt (map NOT) True) demo_fb [[1, 2], [3]] = (x, t)
    \<and> feed (CRYPTO_cfb128_encrypt (map NOT) False) demo_fb [x] = ([1, 2, 3], t)"
proof -
  have "cipher_ok (map NOT)" "fb_ok demo_fb" by (simp_all add: cipher_ok_def fb_ok_def demo_fb_def)
  note r = feedback_roundtrip [OF this]
  obtain x t where f: "feed (CRYPTO_cfb128_encrypt (map NOT) True) demo_fb [[1, 2], [3]] = (x, t)" by fastforce
  then have "feed (CRYPTO_cfb128_encrypt (map NOT) False) demo_fb [x] = (concat [[1, 2], [3]], t)"
    using r by (elim conjE allE [of _ "[[1, 2], [3]]"] allE [of _ "[x]"] allE [of _ t]) simp
  then show ?thesis using f by auto
qed

end
