(* ===== verification/Modes_Cbc.thy ===== *)
theory Modes_Cbc
  imports Modes_Stream
begin

text \<open>
  Cipher block chaining on memory.  Encryption and decryption are compared with the functions on byte strings for every
  placement of the buffers that the code allows: the same buffer, an output behind the input by any distance, or
  disjoint buffers, so for both ways in which decryption avoids to overwrite what it still needs.
\<close>

section \<open>Memory\<close>

lemma length_ld [simp]: "length (ld m a n) = n"
  by (simp add: ld_def)

lemma nth_ld [simp]: "i < n \<Longrightarrow> ld m a n ! i = m (a + i)"
  by (simp add: ld_def)

lemma ld_0 [simp]: "ld m a 0 = []"
  by (simp add: ld_def)

lemma ld_eq_Nil [simp]: "ld m a n = [] \<longleftrightarrow> n = 0"
  by (simp flip: length_0_conv)

lemma ld_add: "ld m a (i + j) = ld m a i @ ld m (a + i) j"
  by (rule nth_equalityI) (auto simp: nth_append)

lemma take_ld [simp]: "take i (ld m a n) = ld m a (min i n)"
  by (rule nth_equalityI) auto

lemma drop_ld [simp]: "drop i (ld m a n) = ld m (a + i) (n - i)"
  by (rule nth_equalityI) (auto simp: add.assoc)

lemma ld_wr_disjoint: "a + n \<le> b \<or> b + length bs \<le> a \<Longrightarrow> ld (wr m b bs) a n = ld m a n"
  by (rule nth_equalityI) (auto simp: wr_def)

lemma ld_wr_same: "n = length bs \<Longrightarrow> ld (wr m a bs) a n = bs"
  by (rule nth_equalityI) (auto simp: wr_def)

lemma wr_Nil [simp]: "wr m a [] = m"
  by (rule ext) (auto simp: wr_def)

lemma block_wr_append: "b = a + length x \<Longrightarrow> wr (wr m a x) b y = wr m a (x @ y)"
  by (rule ext) (auto simp: wr_def nth_append)

lemma wr_snoc: "b = a + length x \<Longrightarrow> (wr m a x)(b := y) = wr m a (x @ [y])"
  by (rule ext) (auto simp: wr_def nth_append)

lemma wr_over: "length x = length y \<Longrightarrow> wr (wr m a x) a y = wr m a y"
  by (rule ext) (auto simp: wr_def)

lemma wr_swap: "a + length x \<le> b \<or> b + length y \<le> a \<Longrightarrow> wr (wr m a x) b y = wr (wr m b y) a x"
  by (rule ext) (auto simp: wr_def)

lemma xor_words_eq:
  assumes "out \<le> a \<or> a + 16 \<le> out" "out \<le> b \<or> b + 16 \<le> out"
  shows "xor_words m out a b = wr m out (map2 (XOR) (ld m a 16) (ld m b 16))"
proof -
  let ?x = "map2 (XOR) (ld m a 8) (ld m b 8)" and ?y = "map2 (XOR) (ld m (a + 8) 8) (ld m (b + 8) 8)"
  have "ld (wr m out ?x) (a + 8) 8 = ld m (a + 8) 8" "ld (wr m out ?x) (b + 8) 8 = ld m (b + 8) 8"
    by (rule ld_wr_disjoint, use assms in auto)+
  then have "xor_words m out a b = wr (wr m out ?x) (out + 8) ?y" by (simp add: xor_words_def store_xor)
  also have "\<dots> = wr m out (?x @ ?y)" by (rule block_wr_append) simp
  also have "?x @ ?y = map2 (XOR) (ld m a 16) (ld m b 16)" using ld_add [of m a 8 8] ld_add [of m b 8 8] by simp
  finally show ?thesis .
qed

text \<open>A loop that stores one byte after the other.\<close>

lemma byte_loop:
  assumes "\<And>n. n < k \<Longrightarrow> f (wr m out (map g [0..<n])) n = g n" "j \<le> k"
  shows "foldl (\<lambda>m n. m(out + n := f m n)) (wr m out (map g [0..<j])) [j..<k] = wr m out (map g [0..<k])"
  using assms
proof (induction k)
  case (Suc k)
  show ?case
  proof (cases "j \<le> k")
    case True
    then have "foldl (\<lambda>m n. m(out + n := f m n)) (wr m out (map g [0..<j])) [j..<k] = wr m out (map g [0..<k])"
      using Suc.IH Suc.prems(1) less_SucI by blast
    then show ?thesis using True Suc.prems(1) [of k]
      by (simp only: upt_Suc_append foldl_append foldl.simps map_append list.map lessI zero_le le0) (simp add: wr_snoc del: fun_upd_apply)
  next
    case False
    then have "j = Suc k" using Suc.prems(2) by simp
    then show ?thesis by simp
  qed
qed simp

section \<open>Reference\<close>

definition pad16 :: "u8 list \<Rightarrow> u8 list" where
  "pad16 p = p @ replicate (16 - length p) 0"

function cbc_enc :: "block128_f \<Rightarrow> u8 list \<Rightarrow> u8 list \<Rightarrow> u8 list" where
  "cbc_enc E iv p =
     (if p = [] then [] else let c = E (map2 (XOR) (pad16 (take 16 p)) iv) in c @ cbc_enc E c (drop 16 p))"
  by pat_completeness auto

termination by (relation "measure (\<lambda>(E, iv, p). length p)") auto

function cbc_dec :: "block128_f \<Rightarrow> u8 list \<Rightarrow> u8 list \<Rightarrow> u8 list" where
  "cbc_dec D iv c = (if c = [] then [] else map2 (XOR) (D (take 16 c)) iv @ cbc_dec D (take 16 c) (drop 16 c))"
  by pat_completeness auto

termination by (relation "measure (\<lambda>(D, iv, c). length c)") auto

declare cbc_enc.simps [simp del] cbc_dec.simps [simp del]

definition last_block :: "u8 list \<Rightarrow> u8 list \<Rightarrow> u8 list" where
  "last_block iv c = (if c = [] then iv else drop (length c - 16) c)"

lemma cbc_enc_Nil [simp]: "cbc_enc E iv [] = []"
  by (simp add: cbc_enc.simps)

lemma cbc_dec_Nil [simp]: "cbc_dec D iv [] = []"
  by (simp add: cbc_dec.simps)

lemma pad16_16 [simp]: "length p = 16 \<Longrightarrow> pad16 p = p"
  by (simp add: pad16_def)

lemma length_pad16: "length p \<le> 16 \<Longrightarrow> length (pad16 p) = 16"
  by (simp add: pad16_def)

lemma cbc_enc_block:
  "length p = 16 \<Longrightarrow> cbc_enc E iv (p @ q) = E (map2 (XOR) p iv) @ cbc_enc E (E (map2 (XOR) p iv)) q"
  by (cases p) (simp_all add: cbc_enc.simps [of E iv] Let_def)

lemma cbc_dec_block: "length c = 16 \<Longrightarrow> cbc_dec D iv (c @ d) = map2 (XOR) (D c) iv @ cbc_dec D c d"
  by (cases c) (simp_all add: cbc_dec.simps [of D iv])

lemma last_block_append: "length c = 16 \<Longrightarrow> 16 \<le> length d \<or> d = [] \<Longrightarrow> last_block iv (c @ d) = last_block c d"
  by (auto simp: last_block_def)

section \<open>Encryption\<close>

lemma length_cbc_enc: "cipher_ok E \<Longrightarrow> length iv = 16 \<Longrightarrow> length (cbc_enc E iv p) = 16 * ((length p + 15) div 16)"
proof (induction p arbitrary: iv rule: length_induct)
  case (1 p)
  show ?case
  proof (cases "p = []")
    case False
    let ?c = "E (map2 (XOR) (pad16 (take 16 p)) iv)"
    have c: "length ?c = 16" using "1.prems" length_pad16 [of "take 16 p"] by simp
    have "length (cbc_enc E ?c (drop 16 p)) = 16 * ((length p - 16 + 15) div 16)"
      using "1.IH" [rule_format, of "drop 16 p" ?c] "1.prems"(1) c False by simp
    moreover have "16 + 16 * ((length p - 16 + 15) div 16) = 16 * ((length p + 15) div 16)"
    proof -
      obtain n where n: "length p = Suc n" using False by (cases p) auto
      then have "(length p + 15) div 16 = Suc (n div 16)" using div_add_self2 [of 16 n] by simp
      moreover have "(length p - 16 + 15) div 16 = n div 16" using n by (cases "n < 16") simp_all
      ultimately show ?thesis by simp
    qed
    ultimately show ?thesis using False c by (simp add: cbc_enc.simps [of E iv p] Let_def)
  qed simp
qed

lemma cbc_encrypt_blocks_eq:
  assumes "cipher_ok E" "out \<le> inp \<or> inp + len \<le> out" "iv + 16 \<le> out \<or> out + len \<le> iv"
  shows "cbc_encrypt_blocks E m inp out iv len =
    (wr m out (cbc_enc E (ld m iv 16) (ld m inp (16 * (len div 16)))), inp + 16 * (len div 16), out + 16 * (len div 16),
     if len div 16 = 0 then iv else out + 16 * (len div 16) - 16, len mod 16)"
  using assms(2,3)
proof (induction len arbitrary: m inp out iv rule: less_induct)
  case (less len)
  show ?case
  proof (cases "len \<ge> 16")
    case False
    then show ?thesis by (subst cbc_encrypt_blocks.simps) simp
  next
    case True
    define c where "c = E (map2 (XOR) (ld m inp 16) (ld m iv 16))"
    define k where "k = (len - 16) div 16"
    let ?m = "wr m out c"
    have c: "length c = 16" using assms(1) by (simp add: c_def)
    have k: "len div 16 = Suc k" "(len - 16) mod 16 = len mod 16" using True by (simp_all add: k_def le_div_geq le_mod_geq)
    have "xor_words m out inp iv = wr m out (map2 (XOR) (ld m inp 16) (ld m iv 16))"
      by (rule xor_words_eq) (use less.prems True in auto)
    then have run: "cbc_encrypt_blocks E m inp out iv len = cbc_encrypt_blocks E ?m (inp + 16) (out + 16) out (len - 16)"
      using True by (subst cbc_encrypt_blocks.simps) (simp add: Let_def ld_wr_same wr_over c c_def [symmetric])
    have "16 * k \<le> len - 16" by (simp add: k_def)
    then have rest: "ld ?m (inp + 16) (16 * k) = ld m (inp + 16) (16 * k)"
      by (intro ld_wr_disjoint) (use less.prems c True in auto)
    have C: "cbc_enc E (ld m iv 16) (ld m inp (16 * Suc k)) = c @ cbc_enc E c (ld m (inp + 16) (16 * k))"
      using cbc_enc_block [of "ld m inp 16" E "ld m iv 16"] ld_add [of m inp 16 "16 * k"] by (simp add: c_def)
    have ih: "cbc_encrypt_blocks E ?m (inp + 16) (out + 16) out (len - 16) =
      (wr ?m (out + 16) (cbc_enc E c (ld m (inp + 16) (16 * k))), inp + 16 + 16 * k, out + 16 + 16 * k,
       if k = 0 then out else out + 16 + 16 * k - 16, len mod 16)"
      using less.IH [of "len - 16" "out + 16" "inp + 16" out ?m] less.prems True
      unfolding k_def [symmetric] k(2) rest ld_wr_same [OF c [symmetric]] by auto
    show ?thesis unfolding run ih k(1) C using c by (simp add: block_wr_append)
  qed
qed

lemma cbc_encrypt_tail_eq:
  assumes "cipher_ok E" "0 < len" "len < 16" "out \<le> inp \<or> inp + len \<le> out" "iv + 16 \<le> out \<or> out + 16 \<le> iv"
  shows "cbc_encrypt_tail E m inp out iv len = (wr m out (cbc_enc E (ld m iv 16) (ld m inp len)), out)"
proof -
  let ?g = "\<lambda>n. (if n < len then m (inp + n) else 0) XOR m (iv + n)"
  have l1: "foldl (\<lambda>m n. m(out + n := m (inp + n) XOR m (iv + n))) (wr m out (map ?g [0..<0])) [0..<len] = wr m out (map ?g [0..<len])"
    by (rule byte_loop) (use assms(3-5) in \<open>auto simp: wr_def\<close>)
  have l2: "foldl (\<lambda>m n. m(out + n := m (iv + n))) (wr m out (map ?g [0..<len])) [len..<16] = wr m out (map ?g [0..<16])"
  proof -
    let ?h = "\<lambda>n. m (iv + n)"
    have "foldl (\<lambda>m n. m(out + n := m (iv + n))) (wr m out (map ?g [0..<len])) [len..<16] =
      foldl (\<lambda>m' n. m'(out + n := if n < len then ?g n else m' (iv + n))) (wr m out (map ?g [0..<len])) [len..<16]"
      by (rule foldl_cong) auto
    also have "\<dots> = wr m out (map ?g [0..<16])"
      by (rule byte_loop) (use assms(3,5) in \<open>auto simp: wr_def\<close>)
    finally show ?thesis .
  qed
  have g: "map ?g [0..<16] = map2 (XOR) (pad16 (ld m inp len)) (ld m iv 16)"
    using assms(3) by (intro nth_equalityI) (auto simp: pad16_def nth_append)
  have "ld m inp len \<noteq> []" using assms(2) by (simp flip: length_greater_0_conv)
  then have C: "cbc_enc E (ld m iv 16) (ld m inp len) = E (map2 (XOR) (pad16 (ld m inp len)) (ld m iv 16))"
    using assms(3) by (subst cbc_enc.simps) (simp add: Let_def)
  have "length (E (map2 (XOR) (pad16 (ld m inp len)) (ld m iv 16))) = 16"
    using assms(1,3) by (simp add: length_pad16)
  then show ?thesis
    using assms(2,3) l1 l2 unfolding C g by (subst cbc_encrypt_tail.simps) (simp add: Let_def min_def ld_wr_same wr_over length_pad16)
qed

text \<open>The whole function, and the place of \<open>ivec\<close>.\<close>

definition padded :: "nat \<Rightarrow> nat" where
  "padded len = 16 * ((len + 15) div 16)"

lemma cbc_enc_split:
  assumes "cipher_ok E" "length iv = 16" "length p = 16 * k"
  shows "cbc_enc E iv (p @ q) = cbc_enc E iv p @ cbc_enc E (last_block iv (cbc_enc E iv p)) q
    \<and> length (cbc_enc E iv p) = 16 * k"
  using assms(2,3)
proof (induction k arbitrary: iv p)
  case 0
  then show ?case by (simp add: last_block_def)
next
  case (Suc k)
  define a b where "a = take 16 p" and "b = drop 16 p"
  have p: "p = a @ b" "length a = 16" "length b = 16 * k" using Suc.prems(2) by (simp_all add: a_def b_def)
  define c where "c = E (map2 (XOR) a iv)"
  have c: "length c = 16" using assms(1) Suc.prems(1) p(2) by (simp add: c_def)
  have ih: "cbc_enc E c (b @ q) = cbc_enc E c b @ cbc_enc E (last_block c (cbc_enc E c b)) q" "length (cbc_enc E c b) = 16 * k"
    using Suc.IH [OF c p(3)] by simp_all
  have "last_block iv (c @ cbc_enc E c b) = last_block c (cbc_enc E c b)"
    by (rule last_block_append [OF c]) (use ih(2) in \<open>cases k; simp\<close>)
  then show ?case using ih c p(2) by (simp add: p(1) cbc_enc_block flip: c_def)
qed

lemma ld_last_block:
  assumes "length C = 16 * k" "0 < k"
  shows "ld (wr m out C) (out + 16 * k - 16) 16 = last_block iv C"
proof -
  have "C \<noteq> []" using assms by auto
  then show ?thesis using assms by (intro nth_equalityI) (auto simp: last_block_def wr_def)
qed

lemma cbc128_encrypt_eq:
  fixes m :: bmem
  assumes "cipher_ok E" "out \<le> inp \<or> inp + len \<le> out" "ivec + 16 \<le> out \<or> out + padded len \<le> ivec"
  defines "C \<equiv> cbc_enc E (ld m ivec 16) (ld m inp len)"
  shows "CRYPTO_cbc128_encrypt E m inp out len ivec = wr (wr m out C) ivec (last_block (ld m ivec 16) C)"
proof -
  define k r where "k = len div 16" and "r = len mod 16"
  have len: "len = 16 * k + r" "r < 16" by (simp_all add: k_def r_def)
  have pl: "len \<le> padded len" "0 < r \<longrightarrow> padded len = 16 * k + 16"
    using len by (auto simp: padded_def div_add_self2 [of 16] add.assoc)
  define IV C1 where "IV = ld m ivec 16" and "C1 = cbc_enc E IV (ld m inp (16 * k))"
  define iv1 where "iv1 = (if k = 0 then ivec else out + 16 * k - 16)"
  let ?m1 = "wr m out C1"
  have blocks: "cbc_encrypt_blocks E m inp out ivec len = (?m1, inp + 16 * k, out + 16 * k, iv1, r)"
    unfolding C1_def IV_def iv1_def k_def r_def by (rule cbc_encrypt_blocks_eq) (use assms(1-3) pl in auto)
  have sp: "cbc_enc E IV (ld m inp (16 * k + n)) = C1 @ cbc_enc E (last_block IV C1) (ld m (inp + 16 * k) n)" "length C1 = 16 * k" for n
    using cbc_enc_split [OF assms(1), of IV "ld m inp (16 * k)" k "ld m (inp + 16 * k) n"] unfolding C1_def ld_add by (simp_all add: IV_def)
  have iv1: "ld ?m1 iv1 16 = last_block IV C1"
    using ld_last_block [OF sp(2)] sp(2) by (cases "k = 0") (simp_all add: iv1_def last_block_def IV_def)
  show ?thesis
  proof (cases "r = 0")
    case True
    then have "C = C1" using sp(1) [of 0] len by (simp add: C_def IV_def)
    then show ?thesis using blocks True iv1
      by (simp add: CRYPTO_cbc128_encrypt_def cbc_encrypt_tail.simps IV_def)
  next
    case False
    have rest: "ld ?m1 (inp + 16 * k) r = ld m (inp + 16 * k) r"
      by (rule ld_wr_disjoint) (use assms(2) sp(2) len in auto)
    let ?c = "cbc_enc E (last_block IV C1) (ld m (inp + 16 * k) r)"
    have C: "C = C1 @ ?c" using sp(1) [of r] len by (simp add: C_def IV_def)
    have lI: "length (last_block IV C1) = 16" using iv1 length_ld by metis
    have c: "length ?c = 16"
      using length_cbc_enc [OF assms(1) lI] len False by (simp add: div_nat_eqI)
    have "cbc_encrypt_tail E ?m1 (inp + 16 * k) (out + 16 * k) iv1 r = (wr ?m1 (out + 16 * k) ?c, out + 16 * k)"
      unfolding rest [symmetric] iv1 [symmetric]
      by (rule cbc_encrypt_tail_eq [OF assms(1)]) (use False len pl assms(2,3) in \<open>auto simp: iv1_def\<close>)
    moreover have "wr ?m1 (out + 16 * k) ?c = wr m out C" unfolding C by (rule block_wr_append) (simp add: sp(2))
    moreover have "ld (wr m out C) (out + 16 * k) 16 = last_block IV C"
      using ld_last_block [of C "Suc k" m out IV] C c sp(2) by simp
    ultimately show ?thesis using blocks by (simp add: CRYPTO_cbc128_encrypt_def IV_def)
  qed
qed

section \<open>Decryption\<close>

lemma cbc_dec_split:
  assumes "cipher_ok D" "length iv = 16" "length c = 16 * k"
  shows "cbc_dec D iv (c @ d) = cbc_dec D iv c @ cbc_dec D (last_block iv c) d \<and> length (cbc_dec D iv c) = 16 * k"
  using assms(2,3)
proof (induction k arbitrary: iv c)
  case 0
  then show ?case by (simp add: last_block_def)
next
  case (Suc k)
  define a b where "a = take 16 c" and "b = drop 16 c"
  have c: "c = a @ b" "length a = 16" "length b = 16 * k" using Suc.prems(2) by (simp_all add: a_def b_def)
  have ih: "cbc_dec D a (b @ d) = cbc_dec D a b @ cbc_dec D (last_block a b) d" "length (cbc_dec D a b) = 16 * k"
    using Suc.IH [OF c(2,3)] by simp_all
  have "last_block iv (a @ b) = last_block a b"
    by (rule last_block_append [OF c(2)]) (use c(3) in \<open>cases k; simp\<close>)
  then show ?case using ih c(2) assms(1) Suc.prems(1) by (simp add: c(1) cbc_dec_block)
qed

text \<open>Straight to \<open>out\<close>, which is at least two blocks behind the input or ahead of its end.\<close>

lemma cbc_decrypt_direct_eq:
  assumes "cipher_ok D" "out + 32 \<le> inp \<or> inp + 16 * k \<le> out" "iv + 16 \<le> out \<or> out + 16 \<le> iv" "len div 16 = k"
  shows "cbc_decrypt_direct D m inp out iv len =
    (wr m out (cbc_dec D (ld m iv 16) (ld m inp (16 * k))), inp + 16 * k, out + 16 * k,
     if k = 0 then iv else inp + 16 * k - 16, len mod 16)"
  using assms(2-)
proof (induction k arbitrary: m inp out iv len)
  case 0
  then have "len < 16" by (simp add: div_eq_0_iff)
  then show ?case by (subst cbc_decrypt_direct.simps) simp
next
  case (Suc k)
  have len: "16 \<le> len" "(len - 16) div 16 = k" "(len - 16) mod 16 = len mod 16"
    using Suc.prems(3) by (cases "16 \<le> len"; simp add: le_div_geq le_mod_geq)+
  define x where "x = map2 (XOR) (D (ld m inp 16)) (ld m iv 16)"
  let ?m = "wr m out x"
  have d: "length (D (ld m inp 16)) = 16" using assms(1) by simp
  then have x: "length x = 16" by (simp add: x_def)
  have "ld (wr m out (D (ld m inp 16))) iv 16 = ld m iv 16"
    by (rule ld_wr_disjoint) (use Suc.prems d in auto)
  then have "xor_words (wr m out (D (ld m inp 16))) out out iv = ?m"
    using xor_words_eq [of out out iv "wr m out (D (ld m inp 16))"] Suc.prems(2) d by (auto simp: ld_wr_same wr_over x_def)
  then have run: "cbc_decrypt_direct D m inp out iv len = cbc_decrypt_direct D ?m (inp + 16) (out + 16) inp (len - 16)"
    using len by (subst cbc_decrypt_direct.simps) (simp add: Let_def)
  have rest: "ld ?m (inp + 16) (16 * k) = ld m (inp + 16) (16 * k)" "ld ?m inp 16 = ld m inp 16"
    by (rule ld_wr_disjoint, use Suc.prems x in auto)+
  have C: "cbc_dec D (ld m iv 16) (ld m inp (16 * Suc k)) = x @ cbc_dec D (ld m inp 16) (ld m (inp + 16) (16 * k))"
    using cbc_dec_block [of "ld m inp 16" D "ld m iv 16"] ld_add [of m inp 16 "16 * k"] by (simp add: x_def)
  have ih: "cbc_decrypt_direct D ?m (inp + 16) (out + 16) inp (len - 16) =
      (wr ?m (out + 16) (cbc_dec D (ld m inp 16) (ld m (inp + 16) (16 * k))), inp + 16 + 16 * k, out + 16 + 16 * k,
       if k = 0 then inp else inp + 16 + 16 * k - 16, len mod 16)"
    using Suc.IH [of "out + 16" "inp + 16" inp "len - 16" ?m] Suc.prems(1) len unfolding rest by auto
  show ?case unfolding run ih C using x by (simp add: block_wr_append)
qed

text \<open>Through the temporary block.\<close>

lemma cbc_tmp_words_eq:
  assumes "length tmp = 16" "out \<le> inp \<or> inp + 16 \<le> out" "ivec + 16 \<le> out \<or> out + 16 \<le> ivec" "ivec + 16 \<le> inp \<or> inp + 16 \<le> ivec"
  shows "cbc_tmp_words tmp m inp out ivec = wr (wr m out (map2 (XOR) tmp (ld m ivec 16))) ivec (ld m inp 16)"
proof -
  let ?x = "map2 (XOR) (take 8 tmp) (ld m ivec 8)" and ?y = "map2 (XOR) (drop 8 tmp) (ld m (ivec + 8) 8)"
  let ?m = "wr (wr m out ?x) ivec (ld m inp 8)"
  have w: "load_word_le (drop n tmp) = load_word_le (take 8 (drop n tmp))" for n by (simp add: load_word_take)
  have l: "ld ?m (inp + 8) 8 = ld m (inp + 8) 8"
    by (subst ld_wr_disjoint, use assms(1,4) in force, rule ld_wr_disjoint, use assms(1,2) in auto)
  have i: "ld (wr ?m (out + 8) z) (ivec + 8) 8 = ld m (ivec + 8) 8" if "length z \<le> 8" for z
    by (subst ld_wr_disjoint, use assms that in force, subst ld_wr_disjoint, use assms in force, rule ld_wr_disjoint, use assms in auto)
  have i0: "ld ?m (ivec + 8) 8 = ld m (ivec + 8) 8" using i [of "[]"] by simp
  have "cbc_tmp_words tmp m inp out ivec = wr (wr ?m (out + 8) ?y) (ivec + 8) (ld m (inp + 8) 8)"
    using assms(1) store_xor [of "take 8 tmp" "ld m ivec 8"] store_xor [of "drop 8 tmp" "ld m (ivec + 8) 8"]
    by (simp add: cbc_tmp_words_def Let_def load_word_take store_load l i0)
  also have "\<dots> = wr (wr (wr m out (?x @ ?y)) ivec (ld m inp 8)) (ivec + 8) (ld m (inp + 8) 8)"
    using assms(1,3) by (subst wr_swap [of ivec _ "out + 8"]) (auto simp: block_wr_append)
  also have "\<dots> = wr (wr m out (?x @ ?y)) ivec (ld m inp 8 @ ld m (inp + 8) 8)"
    by (rule block_wr_append) simp
  also have "?x @ ?y = map2 (XOR) tmp (ld m ivec 16)"
    using ld_add [of m ivec 8 8] assms(1) zip_append [of "take 8 tmp" "ld m ivec 8" "drop 8 tmp" "ld m (ivec + 8) 8"] by simp
  also have "ld m inp 8 @ ld m (inp + 8) 8 = ld m inp 16" using ld_add [of m inp 8 8] by simp
  finally show ?thesis .
qed

lemma cbc_decrypt_tmp_eq:
  assumes "cipher_ok D" "out \<le> inp \<or> inp + 16 * k \<le> out" "ivec + 16 \<le> out \<or> out + 16 * k \<le> ivec"
    "ivec + 16 \<le> inp \<or> inp + 16 * k \<le> ivec" "len div 16 = k"
  shows "cbc_decrypt_tmp D m inp out ivec len =
    (let C = ld m inp (16 * k); IV = ld m ivec 16 in
     (wr (wr m out (cbc_dec D IV C)) ivec (last_block IV C), inp + 16 * k, out + 16 * k, len mod 16))"
  using assms(2-)
proof (induction k arbitrary: m inp out len)
  case 0
  then have "len < 16" by (simp add: div_eq_0_iff)
  moreover have "wr m ivec (ld m ivec 16) = m" by (rule ext) (auto simp: wr_def)
  ultimately show ?case by (subst cbc_decrypt_tmp.simps) (simp add: last_block_def)
next
  case (Suc k)
  have len: "16 \<le> len" "(len - 16) div 16 = k" "(len - 16) mod 16 = len mod 16"
    using Suc.prems(4) by (cases "16 \<le> len"; simp add: le_div_geq le_mod_geq)+
  let ?IV = "ld m ivec 16" and ?c = "ld m inp 16"
  define x where "x = map2 (XOR) (D ?c) ?IV"
  let ?m = "wr (wr m out x) ivec ?c"
  have x: "length x = 16" using assms(1) by (simp add: x_def)
  have w: "cbc_tmp_words (D ?c) m inp out ivec = ?m"
    unfolding x_def by (rule cbc_tmp_words_eq) (use Suc.prems assms(1) in auto)
  have run: "cbc_decrypt_tmp D m inp out ivec len = cbc_decrypt_tmp D ?m (inp + 16) (out + 16) ivec (len - 16)"
    using len by (subst cbc_decrypt_tmp.simps) (simp add: w)
  have rest: "ld ?m (inp + 16) (16 * k) = ld m (inp + 16) (16 * k)"
    by (subst ld_wr_disjoint, use Suc.prems in force, rule ld_wr_disjoint, use Suc.prems x in auto)
  have rest': "ld ?m ivec 16 = ?c" by (rule ld_wr_same) simp
  have C: "cbc_dec D ?IV (ld m inp (16 * Suc k)) = x @ cbc_dec D ?c (ld m (inp + 16) (16 * k))"
    using cbc_dec_block [of ?c D ?IV] ld_add [of m inp 16 "16 * k"] by (simp add: x_def)
  have L: "last_block ?IV (ld m inp (16 * Suc k)) = last_block ?c (ld m (inp + 16) (16 * k))"
    using last_block_append [of ?c "ld m (inp + 16) (16 * k)" ?IV] ld_add [of m inp 16 "16 * k"] by (cases k) simp_all
  let ?y = "cbc_dec D ?c (ld m (inp + 16) (16 * k))" and ?l = "last_block ?c (ld m (inp + 16) (16 * k))"
  have y: "length ?y = 16 * k" "length ?l = 16"
    using cbc_dec_split [OF assms(1), of ?c "ld m (inp + 16) (16 * k)" k "[]"] by (cases k; simp add: last_block_def)+
  have ih: "cbc_decrypt_tmp D ?m (inp + 16) (out + 16) ivec (len - 16) =
      (wr (wr ?m (out + 16) ?y) ivec ?l, inp + 16 + 16 * k, out + 16 + 16 * k, len mod 16)"
  proof -
    have "out + 16 \<le> inp + 16 \<or> inp + 16 + 16 * k \<le> out + 16" "ivec + 16 \<le> out + 16 \<or> out + 16 + 16 * k \<le> ivec"
      "ivec + 16 \<le> inp + 16 \<or> inp + 16 + 16 * k \<le> ivec" using Suc.prems by auto
    from Suc.IH [OF this len(2), of ?m] show ?thesis unfolding rest rest' Let_def len(3) .
  qed
  have "wr (wr ?m (out + 16) ?y) ivec ?l = wr (wr (wr (wr m out x) (out + 16) ?y) ivec ?c) ivec ?l"
    by (subst wr_swap [of ivec ?c]) (use Suc.prems y in auto)
  also have "\<dots> = wr (wr m out (x @ ?y)) ivec ?l" using x y by (simp add: block_wr_append wr_over)
  finally show ?case unfolding run ih Let_def C L by simp
qed

lemma cbc_decrypt_tail_eq:
  assumes "cipher_ok D" "0 < len" "len < 16" "out \<le> inp \<or> inp + 16 \<le> out" "ivec + 16 \<le> out \<or> out + len \<le> ivec"
    "ivec + 16 \<le> inp \<or> inp + 16 \<le> ivec"
  shows "cbc_decrypt_tail D m inp out ivec len =
    wr (wr m out (take len (map2 (XOR) (D (ld m inp 16)) (ld m ivec 16)))) ivec (ld m inp 16)"
proof -
  define tmp where "tmp = D (ld m inp 16)"
  have tmp: "length tmp = 16" using assms(1) by (simp add: tmp_def)
  let ?g = "\<lambda>n. tmp ! n XOR m (ivec + n)" and ?h = "\<lambda>n. m (inp + n)"
  let ?f = "\<lambda>m n. let c = m (inp + n); m = m(out + n := tmp ! n XOR m (ivec + n)) in m(ivec + n := c)"
  let ?S = "\<lambda>n. wr (wr m out (map ?g [0..<n])) ivec (map ?h [0..<n])"
  have l1: "foldl ?f m [0..<k] = ?S k" if "k \<le> len" for k
    using that
  proof (induction k)
    case (Suc k)
    have i: "?S k (inp + k) = ?h k" "?S k (ivec + k) = m (ivec + k)" using assms(3-6) Suc.prems by (auto simp: wr_def)
    have "foldl ?f m [0..<Suc k] = ?f (?S k) k" using Suc by (simp only: upt_Suc_append le0 foldl_append foldl.simps)
    also have "\<dots> = (?S k)(out + k := ?g k, ivec + k := ?h k)" by (simp only: Let_def i)
    also have "\<dots> = (wr (wr (wr m out (map ?g [0..<k])) ivec (map ?h [0..<k])) (out + k) [?g k])(ivec + k := ?h k)"
      by (simp add: wr_def fun_eq_iff)
    also have "\<dots> = (wr (wr (wr m out (map ?g [0..<k])) (out + k) [?g k]) ivec (map ?h [0..<k]))(ivec + k := ?h k)"
      using wr_swap [of ivec "map ?h [0..<k]" "out + k" "[?g k]" "wr m out (map ?g [0..<k])"] assms(3,5) Suc.prems by auto
    also have "\<dots> = ?S (Suc k)" by (simp add: block_wr_append wr_snoc del: fun_upd_apply)
    finally show ?case .
  qed simp
  have S: "?S n = wr (wr m out (map ?g [0..<len])) ivec (map ?h [0..<n])" if "n = len" for n using that by simp
  have "foldl (\<lambda>m n. m(ivec + n := m (inp + n))) (wr (wr m out (map ?g [0..<len])) ivec (map ?h [0..<len])) [len..<16]
      = wr (wr m out (map ?g [0..<len])) ivec (map ?h [0..<16])"
  proof -
    let ?m = "wr m out (map ?g [0..<len])"
    have "foldl (\<lambda>m n. m(ivec + n := m (inp + n))) (wr ?m ivec (map ?h [0..<len])) [len..<16]
      = foldl (\<lambda>m' n. m'(ivec + n := if n < len then ?h n else m' (inp + n))) (wr ?m ivec (map ?h [0..<len])) [len..<16]"
      by (rule foldl_cong) auto
    also have "\<dots> = wr ?m ivec (map ?h [0..<16])"
      by (rule byte_loop) (use assms(3-6) in \<open>auto simp: wr_def\<close>)
    finally show ?thesis .
  qed
  moreover have "map ?h [0..<16] = ld m inp 16" by (rule nth_equalityI) auto
  moreover have "map ?g [0..<len] = take len (map2 (XOR) tmp (ld m ivec 16))" using tmp assms(3) by (intro nth_equalityI) auto
  ultimately show ?thesis
    using assms(2,3) l1 [of len] by (subst cbc_decrypt_tail.simps) (simp add: Let_def flip: tmp_def)
qed

lemma padded_ge: "len \<le> padded len"
proof -
  have "len + 15 = 16 * ((len + 15) div 16) + (len + 15) mod 16" by simp
  moreover have "(len + 15) mod 16 < 16" by simp
  ultimately show ?thesis unfolding padded_def by linarith
qed

lemma length_last_block: "length iv = 16 \<Longrightarrow> length c = 16 * k \<Longrightarrow> length (last_block iv c) = 16"
  by (cases k) (auto simp: last_block_def)

lemma padded_parts: "len = 16 * k + r \<Longrightarrow> r < 16 \<Longrightarrow> padded len = (if r = 0 then 16 * k else 16 * k + 16)"
  by (auto simp: padded_def div_add_self2 [of 16] add.assoc div_eq_0_iff intro!: div_nat_eqI)

text \<open>The block loop on either path, and the copy of the last block to \<open>ivec\<close>.\<close>

lemma cbc_decrypt_blocks:
  fixes m :: bmem
  assumes D: "cipher_ok D" and io: "out \<le> inp \<or> inp + 16 * k \<le> out" and vo: "ivec + 16 \<le> out \<or> out + 16 * k \<le> ivec"
    and vi: "ivec + 16 \<le> inp \<or> inp + 16 * k \<le> ivec" and k: "len div 16 = k"
  defines "C \<equiv> ld m inp (16 * k)" and "IV \<equiv> ld m ivec 16"
  shows "CRYPTO_cbc128_decrypt D m inp out len ivec =
    cbc_decrypt_tail D (wr (wr m out (cbc_dec D IV C)) ivec (last_block IV C)) (inp + 16 * k) (out + 16 * k) ivec (len mod 16)"
proof (cases "(inp \<ge> 32 \<and> out \<le> inp - 32) \<or> inp < out")
  case False
  then show ?thesis using cbc_decrypt_tmp_eq [OF D io vo vi k, of m] unfolding CRYPTO_cbc128_decrypt_def if_not_P [OF False] by (simp add: C_def IV_def Let_def)
next
  case True
  let ?m = "wr m out (cbc_dec D IV C)" and ?iv = "if k = 0 then ivec else inp + 16 * k - 16"
  have X: "length (cbc_dec D IV C) = 16 * k"
    using cbc_dec_split [OF D, of IV C k "[]"] by (simp add: C_def IV_def)
  have pos: "out + 32 \<le> inp \<or> inp + 16 * k \<le> out" using True io by (cases "k = 0") auto
  have run: "cbc_decrypt_direct D m inp out ivec len = (?m, inp + 16 * k, out + 16 * k, ?iv, len mod 16)"
  proof (cases "k = 0")
    case k0: True
    then have "len < 16" using k by (simp add: div_eq_0_iff)
    then show ?thesis using k0 X by (subst cbc_decrypt_direct.simps) simp
  next
    case False
    then show ?thesis unfolding C_def IV_def by (intro cbc_decrypt_direct_eq [OF D pos _ k]) (use vo in auto)
  qed
  have "ld ?m ?iv 16 = last_block IV C"
  proof (cases "k = 0")
    case k0: True
    then show ?thesis using X by (simp add: C_def IV_def last_block_def)
  next
    case False
    then have "ld ?m (inp + 16 * k - 16) 16 = ld m (inp + 16 * k - 16) 16" by (intro ld_wr_disjoint) (use pos X in auto)
    moreover have "C \<noteq> []" using False by (simp add: C_def flip: length_greater_0_conv)
    moreover have "drop (16 * k - 16) C = ld m (inp + 16 * k - 16) 16" using False by (cases k) (simp_all add: C_def)
    ultimately show ?thesis using False by (simp add: last_block_def C_def)
  qed
  then show ?thesis using True by (simp add: CRYPTO_cbc128_decrypt_def run)
qed

lemma cbc128_decrypt_eq:
  fixes m :: bmem
  assumes "cipher_ok D" "out \<le> inp \<or> inp + padded len \<le> out" "ivec + 16 \<le> out \<or> out + len \<le> ivec"
    "ivec + 16 \<le> inp \<or> inp + padded len \<le> ivec"
  shows "CRYPTO_cbc128_decrypt D m inp out len ivec =
    wr (wr m out (take len (cbc_dec D (ld m ivec 16) (ld m inp (padded len))))) ivec (last_block (ld m ivec 16) (ld m inp (padded len)))"
proof -
  define k r where "k = len div 16" and "r = len mod 16"
  have len: "len = 16 * k + r" "r < 16" by (simp_all add: k_def r_def)
  note pad = padded_parts [OF len]
  have pl: "16 * k \<le> padded len" using pad by auto
  define IV C where "IV = ld m ivec 16" and "C = ld m inp (16 * k)"
  let ?X = "cbc_dec D IV C" and ?L = "last_block IV C"
  let ?M = "wr (wr m out ?X) ivec ?L"
  have X: "cbc_dec D IV (C @ d) = ?X @ cbc_dec D ?L d" "length ?X = 16 * k" for d
    using cbc_dec_split [OF assms(1), of IV C k d] by (simp_all add: C_def IV_def)
  have L: "length ?L = 16" using X by (cases k) (simp_all add: last_block_def IV_def C_def)
  have run: "CRYPTO_cbc128_decrypt D m inp out len ivec = cbc_decrypt_tail D ?M (inp + 16 * k) (out + 16 * k) ivec r"
  proof -
    have "out \<le> inp \<or> inp + 16 * k \<le> out" "ivec + 16 \<le> out \<or> out + 16 * k \<le> ivec" "ivec + 16 \<le> inp \<or> inp + 16 * k \<le> ivec"
      using assms(2-4) pl len(1) by linarith+
    from cbc_decrypt_blocks [OF assms(1) this k_def [symmetric]] show ?thesis unfolding C_def IV_def r_def .
  qed
  show ?thesis
  proof (cases "r = 0")
    case True
    then show ?thesis using X pad len unfolding run by (subst cbc_decrypt_tail.simps) (simp add: IV_def C_def)
  next
    case False
    let ?c = "ld m (inp + 16 * k) 16" and ?Y = "map2 (XOR) (D (ld m (inp + 16 * k) 16)) ?L"
    have c: "ld ?M (inp + 16 * k) 16 = ?c"
      by (subst ld_wr_disjoint, use assms(4) L pad False in force, rule ld_wr_disjoint, use assms(2) X(2) pad False in auto)
    have v: "ld ?M ivec 16 = ?L" using L by (simp add: ld_wr_same)
    have "cbc_decrypt_tail D ?M (inp + 16 * k) (out + 16 * k) ivec r = wr (wr ?M (out + 16 * k) (take r ?Y)) ivec ?c"
    proof -
      have "0 < r" "out + 16 * k \<le> inp + 16 * k \<or> inp + 16 * k + 16 \<le> out + 16 * k" "ivec + 16 \<le> out + 16 * k \<or> out + 16 * k + r \<le> ivec"
        "ivec + 16 \<le> inp + 16 * k \<or> inp + 16 * k + 16 \<le> ivec" using False assms(2-4) pad len(1) by auto
      from cbc_decrypt_tail_eq [OF assms(1) this(1) len(2) this(2-4), of ?M] show ?thesis unfolding c v .
    qed
    also have "\<dots> = wr (wr (wr (wr m out ?X) (out + 16 * k) (take r ?Y)) ivec ?L) ivec ?c"
      using wr_swap [of ivec ?L "out + 16 * k" "take r ?Y" "wr m out ?X"] assms(3) L len by auto
    also have "\<dots> = wr (wr m out (?X @ take r ?Y)) ivec ?c" using X(2) L by (simp add: block_wr_append wr_over)
    finally have res: "CRYPTO_cbc128_decrypt D m inp out len ivec = wr (wr m out (?X @ take r ?Y)) ivec ?c" unfolding run .
    have P: "ld m inp (padded len) = C @ ?c" using pad False ld_add [of m inp "16 * k" 16] by (simp add: C_def)
    have "cbc_dec D IV (C @ ?c) = ?X @ ?Y" using X(1) [of ?c] cbc_dec_block [of ?c D ?L "[]"] by simp
    moreover have "last_block IV (C @ ?c) = ?c" by (auto simp: last_block_def)
    ultimately show ?thesis using res P X(2) len unfolding IV_def [symmetric] by simp
  qed
qed

text \<open>C20. Decryption in place and with overlap.  For every output that starts at or before its input, or beyond its end,
  \<open>CRYPTO_cbc128_decrypt\<close> stores the CBC decryption of the ciphertext as it was before the call, sets \<open>ivec\<close> to the last
  block of the ciphertext and changes nothing else.  The ciphertext is padded to whole blocks.\<close>

theorem cbc128_decrypt_correct:
  fixes m :: bmem
  assumes "cipher_ok D" "out \<le> inp \<or> inp + padded len \<le> out" "ivec + 16 \<le> out \<or> out + len \<le> ivec"
    "ivec + 16 \<le> inp \<or> inp + padded len \<le> ivec"
  shows "let m' = CRYPTO_cbc128_decrypt D m inp out len ivec; IV = ld m ivec 16; C = ld m inp (padded len) in
    ld m' out len = take len (cbc_dec D IV C) \<and> ld m' ivec 16 = last_block IV C
    \<and> (\<forall>x. (out \<le> x \<and> x < out + len) \<or> (ivec \<le> x \<and> x < ivec + 16) \<or> m' x = m x)"
proof -
  define IV C where "IV = ld m ivec 16" and "C = ld m inp (padded len)"
  let ?P = "take len (cbc_dec D IV C)" and ?L = "last_block IV C"
  have l: "length ?L = 16" "length ?P = len"
    using length_last_block [of IV C] cbc_dec_split [OF assms(1), of IV C "(len + 15) div 16" "[]"] padded_ge [of len]
    by (auto simp: IV_def C_def padded_def)
  have "CRYPTO_cbc128_decrypt D m inp out len ivec = wr (wr m out ?P) ivec ?L"
    unfolding IV_def C_def by (rule cbc128_decrypt_eq [OF assms])
  moreover have "ld (wr (wr m out ?P) ivec ?L) out len = ?P"
    by (subst ld_wr_disjoint) (use assms(3) l in \<open>auto simp: ld_wr_same\<close>)
  moreover have "ld (wr (wr m out ?P) ivec ?L) ivec 16 = ?L" by (rule ld_wr_same) (simp add: l)
  moreover have "(out \<le> x \<and> x < out + len) \<or> (ivec \<le> x \<and> x < ivec + 16) \<or> wr (wr m out ?P) ivec ?L x = m x" for x
    using l by (auto simp: wr_def)
  ultimately show ?thesis by (simp add: Let_def flip: IV_def C_def)
qed

section \<open>Round trip\<close>

lemma xor_cancel: "length a = length b \<Longrightarrow> map2 (XOR) (map2 (XOR) a b) b = (a :: u8 list)"
  by (rule nth_equalityI) (simp_all add: xor.assoc)

lemma cbc_dec_enc:
  assumes "cipher_ok E" "\<forall>x. length x = 16 \<longrightarrow> D (E x) = x" "length iv = 16"
  shows "take (length p) (cbc_dec D iv (cbc_enc E iv p)) = p"
  using assms(3)
proof (induction p arbitrary: iv rule: length_induct)
  case (1 p)
  show ?case
  proof (cases "p = []")
    case False
    let ?x = "pad16 (take 16 p)"
    define c where "c = E (map2 (XOR) ?x iv)"
    have x: "length ?x = 16" by (simp add: length_pad16)
    then have c: "length c = 16" "D c = map2 (XOR) ?x iv" using assms(1,2) "1.prems" by (simp_all add: c_def)
    have "cbc_enc E iv p = c @ cbc_enc E c (drop 16 p)" using False by (simp add: cbc_enc.simps [of E iv p] Let_def c_def)
    then have d: "cbc_dec D iv (cbc_enc E iv p) = ?x @ cbc_dec D c (cbc_enc E c (drop 16 p))"
      using cbc_dec_block [OF c(1)] xor_cancel [of ?x iv] x c(2) "1.prems" by simp
    have ih: "take (length p - 16) (cbc_dec D c (cbc_enc E c (drop 16 p))) = drop 16 p"
      using "1.IH" [rule_format, of "drop 16 p" c] c(1) False by simp
    show ?thesis
    proof (cases "length p \<le> 16")
      case True
      then show ?thesis unfolding d by (simp add: pad16_def)
    next
      case long: False
      then show ?thesis unfolding d using ih by (simp add: pad16_def)
    qed
  qed simp
qed

text \<open>C21. \<open>CRYPTO_cbc128_decrypt\<close> restores what \<open>CRYPTO_cbc128_encrypt\<close> was given, for data of any length and any buffers the two
  functions allow, also when all of them are the same.\<close>

theorem cbc128_roundtrip:
  assumes "cipher_ok E" "cipher_ok D" "\<forall>x. length x = 16 \<longrightarrow> D (E x) = x"
    and "out \<le> inp \<or> inp + len \<le> out" "iv1 + 16 \<le> out \<or> out + padded len \<le> iv1"
    and "out2 \<le> out \<or> out + padded len \<le> out2" "iv2 + 16 \<le> out2 \<or> out2 + len \<le> iv2" "iv2 + 16 \<le> out \<or> out + padded len \<le> iv2"
    and "iv1 + 16 \<le> iv2 \<or> iv2 + 16 \<le> iv1" "ld m iv2 16 = ld m iv1 16"
  shows "ld (CRYPTO_cbc128_decrypt D (CRYPTO_cbc128_encrypt E m inp out len iv1) out out2 len iv2) out2 len = ld m inp len"
proof -
  define IV P where "IV = ld m iv1 16" and "P = ld m inp len"
  define C where "C = cbc_enc E IV P"
  have C: "length C = padded len" using length_cbc_enc [OF assms(1), of IV P] by (simp add: C_def IV_def P_def padded_def)
  have lb: "length (last_block IV C) = 16" unfolding IV_def by (rule length_last_block) (simp_all add: C padded_def)
  let ?m = "CRYPTO_cbc128_encrypt E m inp out len iv1"
  have m: "?m = wr (wr m out C) iv1 (last_block IV C)"
    unfolding C_def IV_def P_def by (rule cbc128_encrypt_eq [OF assms(1,4,5)])
  have c: "ld ?m out (padded len) = C"
    unfolding m by (subst ld_wr_disjoint) (use assms(5) lb C in \<open>auto simp: ld_wr_same\<close>)
  have v: "ld ?m iv2 16 = IV"
    unfolding m IV_def assms(10) [symmetric] by (subst ld_wr_disjoint, use assms(9,10) lb IV_def in force, rule ld_wr_disjoint, use assms(8) C IV_def assms(10) in auto)
  let ?Q = "take len (cbc_dec D IV C)"
  have Q: "?Q = P" using cbc_dec_enc [OF assms(1,3), of IV P] by (simp add: C_def IV_def P_def)
  have "CRYPTO_cbc128_decrypt D ?m out out2 len iv2 = wr (wr ?m out2 ?Q) iv2 (last_block IV C)"
    using cbc128_decrypt_eq [OF assms(2,6,7,8), of ?m] unfolding c v .
  then have "ld (CRYPTO_cbc128_decrypt D ?m out out2 len iv2) out2 len = ld (wr ?m out2 ?Q) out2 len"
    using assms(7) lb ld_wr_disjoint [of out2 len iv2 "last_block IV C" "wr ?m out2 ?Q"] by auto
  then show ?thesis by (simp add: Q ld_wr_same P_def)
qed

section \<open>Examples\<close>

definition demo_mem :: bmem where
  "demo_mem = (\<lambda>x. if x < 50 then word_of_nat x else 5)"

lemma demo_block: "cipher_ok (map NOT)" "\<forall>x :: u8 list. length x = 16 \<longrightarrow> map NOT (map NOT x) = x"
  by (simp_all add: cipher_ok_def o_def)

text \<open>In place and by one block behind.\<close>

theorem cbc128_roundtrip_witness:
  "ld (CRYPTO_cbc128_decrypt (map NOT) (CRYPTO_cbc128_encrypt (map NOT) demo_mem 16 16 20 100) 16 0 20 200) 0 20 = ld demo_mem 16 20"
proof -
  have "ld demo_mem 200 16 = ld demo_mem 100 16" by (rule nth_equalityI) (simp_all add: demo_mem_def)
  then show ?thesis by (intro cbc128_roundtrip [OF demo_block(1) demo_block]) (simp_all add: padded_def)
qed

theorem cbc128_decrypt_correct_witness:
  "ld (CRYPTO_cbc128_decrypt (map NOT) demo_mem 40 0 20 100) 0 20 = take 20 (cbc_dec (map NOT) (ld demo_mem 100 16) (ld demo_mem 40 32))"
  using cbc128_decrypt_correct [OF demo_block(1), of 0 40 20 100 demo_mem] by (simp add: padded_def Let_def)

end
