(* ===== verification/Key_Wrap.thy ===== *)
theory Key_Wrap
  imports Modes_Stream
begin

text \<open>
  \<open>crypto/fipsmodule/aes/key_wrap.c\<close>: the key wrapping of RFC 3394 and its inverse.  The block cipher, \<open>AES_encrypt\<close> and
  \<open>AES_decrypt\<close> with the key, is an argument: on the targets with hardware support it is assembly code.  Unwrapping
  accepts exactly the results of wrapping.
\<close>

section \<open>The code\<close>

definition kDefaultIV :: "u8 list" where
  "kDefaultIV = replicate 8 0xa6"

definition kBound :: nat where
  "kBound = 6"

text \<open>The second half of \<open>A\<close> is set in every round before it is read; the model starts it with zeros.  The four assignments to \<open>A[7], \<dots>, A[4]\<close>.\<close>

definition xor_t :: "u32 \<Rightarrow> u8 list \<Rightarrow> u8 list" where
  "xor_t t A =
     (let A = A[7 := A ! 7 XOR ucast (t AND 0xff)];
          A = A[6 := A ! 6 XOR ucast (drop_bit 8 t AND 0xff)];
          A = A[5 := A ! 5 XOR ucast (drop_bit 16 t AND 0xff)] in
      A[4 := A ! 4 XOR ucast (drop_bit 24 t AND 0xff)])"

definition wrap_step :: "block128_f \<Rightarrow> nat \<Rightarrow> u8 list \<times> u8 list \<Rightarrow> nat \<times> nat \<Rightarrow> u8 list \<times> u8 list" where
  "wrap_step AES_encrypt n s ji =
     (case s of (A, out) \<Rightarrow> (case ji of (j, i) \<Rightarrow>
       let A = memcpy_at A 8 (take 8 (drop (8 * i) out));
           A = xor_t (word_of_nat (n * j + i)) (AES_encrypt A) in
       (A, memcpy_at out (8 * i) (take 8 (drop 8 A)))))"

text \<open>The result is the return value and what is at \<open>out\<close> after the call.\<close>

definition AES_wrap_key :: "block128_f \<Rightarrow> u8 list option \<Rightarrow> u8 list \<Rightarrow> u8 list \<Rightarrow> int \<times> u8 list" where
  "AES_wrap_key AES_encrypt iv out inp =
     (let in_len = length inp in
      if int in_len > 2 ^ 31 - 1 - 8 \<or> in_len < 8 \<or> in_len mod 8 \<noteq> 0 then (- 1, out)
      else
        let iv = (case iv of None \<Rightarrow> kDefaultIV | Some v \<Rightarrow> v);
            out = memcpy_at out 8 inp;
            A = take 8 iv @ replicate 8 0;
            n = in_len div 8 in
        (case foldl (wrap_step AES_encrypt n) (A, out) [(j, i). j \<leftarrow> [0..<kBound], i \<leftarrow> [1..<Suc n]] of
           (A, out) \<Rightarrow> (int in_len + 8, memcpy_at out 0 (take 8 A))))"

definition unwrap_step :: "block128_f \<Rightarrow> nat \<Rightarrow> u8 list \<times> u8 list \<Rightarrow> nat \<times> nat \<Rightarrow> u8 list \<times> u8 list" where
  "unwrap_step AES_decrypt n s ji =
     (case s of (A, out) \<Rightarrow> (case ji of (j, i) \<Rightarrow>
       let A = xor_t (word_of_nat (n * j + i)) A;
           A = AES_decrypt (memcpy_at A 8 (take 8 (drop (8 * (i - 1)) out))) in
       (A, memcpy_at out (8 * (i - 1)) (take 8 (drop 8 A)))))"

definition AES_unwrap_key :: "block128_f \<Rightarrow> u8 list option \<Rightarrow> u8 list \<Rightarrow> u8 list \<Rightarrow> int \<times> u8 list" where
  "AES_unwrap_key AES_decrypt iv out inp =
     (let in_len = length inp in
      if int in_len > 2 ^ 31 - 1 \<or> in_len < 16 \<or> in_len mod 8 \<noteq> 0 then (- 1, out)
      else
        let iv = (case iv of None \<Rightarrow> kDefaultIV | Some v \<Rightarrow> v);
            A = take 8 inp @ replicate 8 0;
            out = memcpy_at out 0 (drop 8 inp);
            n = in_len div 8 - 1 in
        (case foldl (unwrap_step AES_decrypt n) (A, out) [(j, i). j \<leftarrow> rev [0..<kBound], i \<leftarrow> rev [1..<Suc n]] of
           (A, out) \<Rightarrow> if CRYPTO_memcmp A iv 8 \<noteq> 0 then (- 1, out) else (int in_len - 8, out)))"

section \<open>Rounds\<close>

text \<open>A round on the first half of \<open>A\<close> and the sequence of registers, and its inverse.\<close>

definition wrap1 :: "block128_f \<Rightarrow> nat \<Rightarrow> u8 list \<times> u8 list \<Rightarrow> nat \<times> nat \<Rightarrow> u8 list \<times> u8 list" where
  "wrap1 enc n s ji =
     (let a = fst s; R = snd s; j = fst ji; i = snd ji - 1; B = enc (a @ take 8 (drop (8 * i) R)) in
      (xor_t (word_of_nat (n * j + snd ji)) (take 8 B), memcpy_at R (8 * i) (drop 8 B)))"

definition unwrap1 :: "block128_f \<Rightarrow> nat \<Rightarrow> u8 list \<times> u8 list \<Rightarrow> nat \<times> nat \<Rightarrow> u8 list \<times> u8 list" where
  "unwrap1 dec n s ji =
     (let a = fst s; R = snd s; j = fst ji; i = snd ji - 1;
          B = dec (xor_t (word_of_nat (n * j + snd ji)) a @ take 8 (drop (8 * i) R)) in
      (take 8 B, memcpy_at R (8 * i) (drop 8 B)))"

definition regs_ok :: "nat \<Rightarrow> u8 list \<times> u8 list \<Rightarrow> bool" where
  "regs_ok n s \<longleftrightarrow> length (fst s) = 8 \<and> length (snd s) = 8 * n"

definition round_ok :: "nat \<Rightarrow> nat \<times> nat \<Rightarrow> bool" where
  "round_ok n ji \<longleftrightarrow> 1 \<le> snd ji \<and> snd ji \<le> n"

lemma length_xor_t [simp]: "length (xor_t t A) = length A"
  by (simp add: xor_t_def Let_def)

lemma xor_t_append: "8 \<le> length a \<Longrightarrow> xor_t t (a @ b) = xor_t t a @ b"
  by (simp add: xor_t_def Let_def nth_append list_update_append)

lemma xor_t_xor_t: "8 \<le> length a \<Longrightarrow> xor_t t (xor_t t a) = a"
  by (rule nth_equalityI) (auto simp: xor_t_def Let_def nth_list_update xor.assoc)

lemma block_bound: "round_ok n ji \<Longrightarrow> 8 * (snd ji - 1) + 8 \<le> 8 * n"
  by (cases "snd ji") (auto simp: round_ok_def)

lemma memcpy_at_same: "k + 8 \<le> length R \<Longrightarrow> memcpy_at R k (take 8 (drop k R)) = R"
  by (simp add: memcpy_at_def) (metis append_take_drop_id drop_drop add.commute)

lemma memcpy_at_read: "k + 8 \<le> length R \<Longrightarrow> length x = 8 \<Longrightarrow> take 8 (drop k (memcpy_at R k x)) = x"
  by (simp add: memcpy_at_def)

lemma memcpy_at_twice: "k + 8 \<le> length R \<Longrightarrow> length x = 8 \<Longrightarrow> length y = 8 \<Longrightarrow> memcpy_at (memcpy_at R k x) k y = memcpy_at R k y"
  by (simp add: memcpy_at_def)

lemma wrap1_ok: "cipher_ok enc \<Longrightarrow> regs_ok n s \<Longrightarrow> round_ok n ji \<Longrightarrow> regs_ok n (wrap1 enc n s ji)"
  using block_bound [of n ji] by (simp add: regs_ok_def wrap1_def Let_def)

lemma unwrap1_ok: "cipher_ok dec \<Longrightarrow> regs_ok n s \<Longrightarrow> round_ok n ji \<Longrightarrow> regs_ok n (unwrap1 dec n s ji)"
  using block_bound [of n ji] by (simp add: regs_ok_def unwrap1_def Let_def)

lemma unwrap1_wrap1:
  assumes "cipher_ok enc" "\<forall>x. length x = 16 \<longrightarrow> dec (enc x) = x" "regs_ok n s" "round_ok n ji"
  shows "unwrap1 dec n (wrap1 enc n s ji) ji = s"
  using assms block_bound [OF assms(4)]
  by (simp add: unwrap1_def wrap1_def regs_ok_def Let_def xor_t_xor_t memcpy_at_read memcpy_at_twice memcpy_at_same)

lemma wrap1_unwrap1:
  assumes "cipher_ok dec" "\<forall>x. length x = 16 \<longrightarrow> enc (dec x) = x" "regs_ok n s" "round_ok n ji"
  shows "wrap1 enc n (unwrap1 dec n s ji) ji = s"
  using assms block_bound [OF assms(4)]
  by (simp add: unwrap1_def wrap1_def regs_ok_def Let_def xor_t_xor_t memcpy_at_read memcpy_at_twice memcpy_at_same)

lemma fold_wrap1_ok: "cipher_ok enc \<Longrightarrow> regs_ok n s \<Longrightarrow> \<forall>ji \<in> set L. round_ok n ji \<Longrightarrow> regs_ok n (foldl (wrap1 enc n) s L)"
  by (induction L arbitrary: s) (simp_all add: wrap1_ok)

lemma fold_unwrap1_ok: "cipher_ok dec \<Longrightarrow> regs_ok n s \<Longrightarrow> \<forall>ji \<in> set L. round_ok n ji \<Longrightarrow> regs_ok n (foldl (unwrap1 dec n) s L)"
  by (induction L arbitrary: s) (simp_all add: unwrap1_ok)

lemma fold_unwrap_wrap:
  assumes "cipher_ok enc" "\<forall>x. length x = 16 \<longrightarrow> dec (enc x) = x" "regs_ok n s" "\<forall>ji \<in> set L. round_ok n ji"
  shows "foldl (unwrap1 dec n) (foldl (wrap1 enc n) s L) (rev L) = s"
  using assms(3,4)
proof (induction L arbitrary: s)
  case (Cons ji L)
  then have "foldl (unwrap1 dec n) (foldl (wrap1 enc n) (wrap1 enc n s ji) L) (rev L) = wrap1 enc n s ji" by (simp add: wrap1_ok assms(1))
  then show ?case using unwrap1_wrap1 [OF assms(1,2) Cons.prems(1), of ji] Cons.prems(2) by simp
qed simp

lemma fold_wrap_unwrap:
  assumes "cipher_ok dec" "\<forall>x. length x = 16 \<longrightarrow> enc (dec x) = x" "regs_ok n s" "\<forall>ji \<in> set L. round_ok n ji"
  shows "foldl (wrap1 enc n) (foldl (unwrap1 dec n) s (rev L)) L = s"
  using assms(3,4)
proof (induction L arbitrary: s rule: rev_induct)
  case (snoc ji L)
  then have "foldl (wrap1 enc n) (foldl (unwrap1 dec n) (unwrap1 dec n s ji) (rev L)) L = unwrap1 dec n s ji" by (simp add: unwrap1_ok assms(1))
  then show ?case using wrap1_unwrap1 [OF assms(1,2) snoc.prems(1), of ji] snoc.prems(2) by simp
qed simp

text \<open>The steps of the code simulate the rounds.\<close>

lemma wrap_step_sim:
  assumes "cipher_ok enc" "length A = 16" "length pre = 8" "length R = 8 * n" "round_ok n ji"
  shows "\<exists>A'. wrap_step enc n (A, pre @ R) ji = (A', pre @ snd (wrap1 enc n (take 8 A, R) ji))
    \<and> take 8 A' = fst (wrap1 enc n (take 8 A, R) ji) \<and> length A' = 16"
proof -
  obtain j i where ji: "ji = (j, Suc i)" "i < n" using assms(5) by (cases ji; cases "snd ji") (auto simp: round_ok_def)
  let ?x = "take 8 (drop (8 * i) R)"
  define B where "B = enc (take 8 A @ ?x)"
  have x: "length ?x = 8" using ji assms(4) by simp
  then have B: "length B = 16" "memcpy_at A 8 ?x = take 8 A @ ?x" using assms(1,2) by (simp_all add: B_def memcpy_at_def)
  have s: "xor_t t B = xor_t t (take 8 B) @ drop 8 B" for t using xor_t_append [of "take 8 B" t "drop 8 B"] B(1) by simp
  have m: "memcpy_at (pre @ R) (8 * Suc i) y = pre @ memcpy_at R (8 * i) y" for y
    using assms(3) by (simp add: memcpy_at_def add.assoc)
  have "wrap_step enc n (A, pre @ R) ji = (xor_t (word_of_nat (n * j + Suc i)) B, pre @ memcpy_at R (8 * i) (drop 8 B))"
    using assms(3) B m ji unfolding wrap_step_def prod.case Let_def
    by (simp add: B_def [symmetric] s del: of_nat_add of_nat_mult of_nat_Suc)
  then show ?thesis using B(1) ji by (simp add: wrap1_def Let_def B_def [symmetric] s del: of_nat_add of_nat_mult of_nat_Suc)
qed

lemma unwrap_step_sim:
  assumes "cipher_ok dec" "length A = 16" "length R = 8 * n" "round_ok n ji"
  shows "\<exists>A'. unwrap_step dec n (A, R) ji = (A', snd (unwrap1 dec n (take 8 A, R) ji))
    \<and> take 8 A' = fst (unwrap1 dec n (take 8 A, R) ji) \<and> length A' = 16"
proof -
  obtain j i where ji: "ji = (j, Suc i)" "i < n" using assms(4) by (cases ji; cases "snd ji") (auto simp: round_ok_def)
  let ?x = "take 8 (drop (8 * i) R)" and ?t = "word_of_nat (n * j + Suc i) :: u32"
  define B where "B = dec (xor_t ?t (take 8 A) @ ?x)"
  have x: "length ?x = 8" using ji assms(3) by simp
  have "xor_t ?t A = xor_t ?t (take 8 A) @ drop 8 A" using xor_t_append [of "take 8 A" ?t "drop 8 A"] assms(2) by simp
  then have "memcpy_at (xor_t ?t A) 8 ?x = xor_t ?t (take 8 A) @ ?x" using x assms(2) by (simp add: memcpy_at_def)
  then have "unwrap_step dec n (A, R) ji = (B, memcpy_at R (8 * i) (take 8 (drop 8 B)))"
    using ji by (simp add: unwrap_step_def Let_def B_def del: of_nat_add of_nat_mult of_nat_Suc)
  moreover have "length B = 16" using assms(1,2) x by (simp add: B_def)
  ultimately show ?thesis using ji by (simp add: unwrap1_def Let_def B_def del: of_nat_add of_nat_mult of_nat_Suc)
qed

lemma wrap_steps_sim:
  assumes "cipher_ok enc" "length A = 16" "length pre = 8" "length R = 8 * n" "\<forall>ji \<in> set L. round_ok n ji"
  shows "\<exists>A'. foldl (wrap_step enc n) (A, pre @ R) L = (A', pre @ snd (foldl (wrap1 enc n) (take 8 A, R) L))
    \<and> take 8 A' = fst (foldl (wrap1 enc n) (take 8 A, R) L)"
  using assms(2,4,5)
proof (induction L arbitrary: A R)
  case (Cons ji L)
  let ?s = "wrap1 enc n (take 8 A, R) ji"
  obtain A1 where A1: "wrap_step enc n (A, pre @ R) ji = (A1, pre @ snd ?s)" "take 8 A1 = fst ?s" "length A1 = 16"
    using wrap_step_sim [OF assms(1) Cons.prems(1) assms(3) Cons.prems(2), of ji] Cons.prems(3) by auto
  have "regs_ok n ?s" using wrap1_ok [OF assms(1)] Cons.prems by (simp add: regs_ok_def)
  then show ?case using Cons.IH [OF A1(3), of "snd ?s"] Cons.prems(3) A1(1,2) by (simp add: regs_ok_def)
qed simp

lemma unwrap_steps_sim:
  assumes "cipher_ok dec" "length A = 16" "length R = 8 * n" "\<forall>ji \<in> set L. round_ok n ji"
  shows "\<exists>A'. foldl (unwrap_step dec n) (A, R) L = (A', snd (foldl (unwrap1 dec n) (take 8 A, R) L))
    \<and> take 8 A' = fst (foldl (unwrap1 dec n) (take 8 A, R) L) \<and> length A' = 16"
  using assms(2-)
proof (induction L arbitrary: A R)
  case (Cons ji L)
  let ?s = "unwrap1 dec n (take 8 A, R) ji"
  obtain A1 where A1: "unwrap_step dec n (A, R) ji = (A1, snd ?s)" "take 8 A1 = fst ?s" "length A1 = 16"
    using unwrap_step_sim [OF assms(1) Cons.prems(1,2), of ji] Cons.prems(3) by auto
  have "regs_ok n ?s" using unwrap1_ok [OF assms(1)] Cons.prems by (simp add: regs_ok_def)
  then show ?case using Cons.IH [OF A1(3), of "snd ?s"] Cons.prems(3) A1(1,2) by (simp add: regs_ok_def)
qed simp

section \<open>Wrapping and unwrapping\<close>

definition rounds :: "nat \<Rightarrow> (nat \<times> nat) list" where
  "rounds n = [(j, i). j \<leftarrow> [0..<kBound], i \<leftarrow> [1..<Suc n]]"

lemma rounds_ok: "\<forall>ji \<in> set (rounds n). round_ok n ji"
  by (auto simp: rounds_def round_ok_def)

lemma rev_rounds: "rev (rounds n) = [(j, i). j \<leftarrow> rev [0..<kBound], i \<leftarrow> rev [1..<Suc n]]"
proof -
  have "rev (concat (map f xs)) = concat (map (\<lambda>x. rev (f x)) (rev xs))" for f :: "nat \<Rightarrow> (nat \<times> nat) list" and xs
    by (induction xs) simp_all
  then show ?thesis by (simp add: rounds_def rev_map)
qed

definition iv_of :: "u8 list option \<Rightarrow> u8 list" where
  "iv_of iv = (case iv of None \<Rightarrow> kDefaultIV | Some v \<Rightarrow> v)"

lemma AES_wrap_key_eq:
  assumes "cipher_ok enc" "length (iv_of iv) = 8" "length inp = 8 * n" "1 \<le> n" "int (length inp) \<le> 2 ^ 31 - 9" "length out = length inp + 8"
  shows "AES_wrap_key enc iv out inp = (int (length inp) + 8, fst (foldl (wrap1 enc n) (iv_of iv, inp) (rounds n)) @ snd (foldl (wrap1 enc n) (iv_of iv, inp) (rounds n)))"
proof -
  let ?A = "take 8 (iv_of iv) @ replicate 8 0" and ?f = "foldl (wrap1 enc n) (iv_of iv, inp) (rounds n)"
  obtain A' where A': "foldl (wrap_step enc n) (?A, take 8 out @ inp) (rounds n) = (A', take 8 out @ snd ?f)" "take 8 A' = fst ?f"
    using wrap_steps_sim [OF assms(1) _ _ assms(3) rounds_ok, of ?A "take 8 out"] assms(2,6) by auto
  have l: "length (fst ?f) = 8"
    using fold_wrap1_ok [OF assms(1) _ rounds_ok, of n "(iv_of iv, inp)"] assms(2,3) by (simp add: regs_ok_def)
  have o: "memcpy_at out 8 inp = take 8 out @ inp" using assms(6) by (simp add: memcpy_at_def)
  have n: "length inp div 8 = n" "\<not> (int (length inp) > 2 ^ 31 - 1 - 8 \<or> length inp < 8 \<or> length inp mod 8 \<noteq> 0)"
    using assms(3-5) by simp_all
  have "memcpy_at (take 8 out @ snd ?f) 0 (take 8 A') = fst ?f @ snd ?f"
    using A'(2) l assms(6) by (simp add: memcpy_at_0)
  then show ?thesis
    unfolding AES_wrap_key_def Let_def if_not_P [OF n(2)] iv_of_def [symmetric] o n(1) rounds_def [symmetric] A'(1) by simp
qed

lemma AES_unwrap_key_eq:
  assumes "cipher_ok dec" "length (iv_of iv) = 8" "length c = 8 * n + 8" "1 \<le> n" "int (length c) \<le> 2 ^ 31 - 1" "length out = 8 * n"
  shows "AES_unwrap_key dec iv out c = (let s = foldl (unwrap1 dec n) (take 8 c, drop 8 c) (rev (rounds n)) in
    (if fst s = iv_of iv then int (8 * n) else - 1, snd s))"
proof -
  let ?A = "take 8 c @ replicate 8 0" and ?f = "foldl (unwrap1 dec n) (take 8 c, drop 8 c) (rev (rounds n))"
  have R: "length (drop 8 c) = 8 * n" "\<forall>ji \<in> set (rev (rounds n)). round_ok n ji" using assms(3) rounds_ok by auto
  obtain A' where A': "foldl (unwrap_step dec n) (?A, drop 8 c) (rev (rounds n)) = (A', snd ?f)" "take 8 A' = fst ?f" "length A' = 16"
    using unwrap_steps_sim [OF assms(1) _ R, of ?A] assms(3) by auto
  have o: "memcpy_at out 0 (drop 8 c) = drop 8 c" using assms(3,6) by (simp add: memcpy_at_0)
  have n: "length c div 8 - 1 = n" "\<not> (int (length c) > 2 ^ 31 - 1 \<or> length c < 16 \<or> length c mod 8 \<noteq> 0)"
    using assms(3-5) by simp_all
  have "CRYPTO_memcmp A' (iv_of iv) 8 = 0 \<longleftrightarrow> fst ?f = iv_of iv"
    using CRYPTO_memcmp_zero_iff [of 8 A' "iv_of iv"] A'(2,3) assms(2) by simp
  then show ?thesis using assms(3)
    unfolding AES_unwrap_key_def Let_def if_not_P [OF n(2)] iv_of_def [symmetric] o n(1) rev_rounds [symmetric] A'(1) by simp
qed

text \<open>C25. Unwrapping accepts exactly the results of wrapping: a string is unwrapped to \<open>inp\<close> if and only if it is what
  wrapping \<open>inp\<close> with the same initial value gives.  In particular every wrapped key is restored.\<close>

theorem key_wrap_unwrap:
  assumes "cipher_ok enc" "cipher_ok dec" "\<forall>x. length x = 16 \<longrightarrow> dec (enc x) = x \<and> enc (dec x) = x"
    and "iv = None \<or> length (the iv) = 8" "8 \<le> length inp" "length inp mod 8 = 0" "int (length inp) \<le> 2 ^ 31 - 9"
    and "length out = length inp + 8" "length out2 = length inp" "length c = length inp + 8"
  shows "AES_unwrap_key dec iv out2 c = (int (length inp), inp) \<longleftrightarrow> AES_wrap_key enc iv out inp = (int (length inp) + 8, c)"
proof -
  define n where "n = length inp div 8"
  have n: "length inp = 8 * n" "1 \<le> n" using assms(5,6) by (auto simp: n_def)
  have iv: "length (iv_of iv) = 8" using assms(4) by (auto simp: iv_of_def kDefaultIV_def split: option.split)
  let ?w = "foldl (wrap1 enc n) (iv_of iv, inp) (rounds n)" and ?u = "foldl (unwrap1 dec n) (take 8 c, drop 8 c) (rev (rounds n))"
  have ok: "regs_ok n (iv_of iv, inp)" "regs_ok n (take 8 c, drop 8 c)" using n iv assms(10) by (simp_all add: regs_ok_def)
  have l: "length (fst ?w) = 8" using fold_wrap1_ok [OF assms(1) ok(1) rounds_ok] by (simp add: regs_ok_def)
  have wrap: "AES_wrap_key enc iv out inp = (int (length inp) + 8, fst ?w @ snd ?w)"
    by (rule AES_wrap_key_eq [OF assms(1) iv n assms(7,8)])
  have unwrap: "AES_unwrap_key dec iv out2 c = (if fst ?u = iv_of iv then int (length inp) else - 1, snd ?u)"
    using AES_unwrap_key_eq [OF assms(2) iv, of c n out2] n assms(7,9,10) by (simp add: Let_def)
  have "?u = (iv_of iv, inp) \<longleftrightarrow> ?w = (take 8 c, drop 8 c)"
    using fold_unwrap_wrap [OF assms(1) _ ok(1) rounds_ok, of dec] fold_wrap_unwrap [OF assms(2) _ ok(2) rounds_ok, of enc] assms(3) by metis
  moreover have "?w = (take 8 c, drop 8 c) \<longleftrightarrow> fst ?w @ snd ?w = c"
    using l by (metis append_eq_conv_conj append_take_drop_id fst_conv prod.collapse snd_conv)
  moreover have "AES_unwrap_key dec iv out2 c = (int (length inp), inp) \<longleftrightarrow> ?u = (iv_of iv, inp)"
    unfolding unwrap by (cases ?u) auto
  ultimately show ?thesis unfolding wrap by simp
qed

theorem key_wrap_unwrap_witness:
  "\<exists>c. AES_wrap_key (map NOT) None (replicate 24 0) (replicate 16 3) = (24, c) \<and> AES_unwrap_key (map NOT) None (replicate 16 0) c = (16, replicate 16 3)"
proof -
  have e: "cipher_ok (map NOT)" "\<forall>x :: u8 list. length x = 16 \<longrightarrow> map NOT (map NOT x) = x \<and> map NOT (map NOT x) = x"
    by (simp_all add: cipher_ok_def o_def)
  obtain r c where w: "AES_wrap_key (map NOT) None (replicate 24 0) (replicate 16 3) = (r, c)" by fastforce
  have "length (iv_of None) = 8" by (simp add: iv_of_def kDefaultIV_def)
  from AES_wrap_key_eq [OF e(1) this, of "replicate 16 3" 2 "replicate 24 0"] w
  have c: "r = 24" "c = fst (foldl (wrap1 (map NOT) 2) (iv_of None, replicate 16 3) (rounds 2)) @ snd (foldl (wrap1 (map NOT) 2) (iv_of None, replicate 16 3) (rounds 2))"
    by simp_all
  have "regs_ok 2 (foldl (wrap1 (map NOT) 2) (iv_of None, replicate 16 3) (rounds 2))"
    by (rule fold_wrap1_ok [OF e(1) _ rounds_ok]) (simp add: regs_ok_def iv_of_def kDefaultIV_def)
  then have "length c = 24" by (simp add: c(2) regs_ok_def)
  then have "AES_unwrap_key (map NOT) None (replicate 16 0) c = (16, replicate 16 3)"
    using key_wrap_unwrap [OF e(1) e, of None "replicate 16 3" "replicate 24 0" "replicate 16 0" c] w c(1) by simp
  then show ?thesis using w c(1) by blast
qed

end
