(* ===== verification/Md32.thy ===== *)
theory Md32
  imports Modes_Stream
begin

text \<open>
  The collector of \<open>crypto/fipsmodule/digest/md32_common.h\<close>, the template from which SHA-1, SHA-256, MD4 and MD5 get their
  \<open>Update\<close> and \<open>Final\<close> functions.  Its macro parameters (byte order, block function, output string) are a record of
  functions.  However a message is split over calls, the result is the iteration of the block function over the
  padded message, and the padding is the one of the standards.
\<close>

section \<open>The code\<close>

definition HASH_CBLOCK :: nat where
  "HASH_CBLOCK = 64"

record HASH_CTX =
  hc_h :: "u32 list"
  hc_Nl :: u32
  hc_Nh :: u32
  hc_data :: "u8 list"
  hc_num :: nat
  hc_md_len :: nat

text \<open>\<open>HASH_BLOCK_DATA_ORDER\<close> for one block, \<open>DATA_ORDER_IS_BIG_ENDIAN\<close>, \<open>HASH_MAKE_STRING\<close>.\<close>

record md_params =
  mp_block :: "u32 list \<Rightarrow> u8 list \<Rightarrow> u32 list"
  mp_big :: bool
  mp_string :: "HASH_CTX \<Rightarrow> u8 list option"

definition HOST_c2l :: "bool \<Rightarrow> u8 list \<Rightarrow> u32" where
  "HOST_c2l big c =
     (if big then push_bit 24 (ucast (c ! 0)) OR push_bit 16 (ucast (c ! 1)) OR push_bit 8 (ucast (c ! 2)) OR ucast (c ! 3)
      else ucast (c ! 0) OR push_bit 8 (ucast (c ! 1)) OR push_bit 16 (ucast (c ! 2)) OR push_bit 24 (ucast (c ! 3)))"

definition HOST_l2c :: "bool \<Rightarrow> u32 \<Rightarrow> u8 list" where
  "HOST_l2c big l =
     (if big then [ucast (drop_bit 24 l AND 0xff), ucast (drop_bit 16 l AND 0xff), ucast (drop_bit 8 l AND 0xff), ucast (l AND 0xff)]
      else [ucast (l AND 0xff), ucast (drop_bit 8 l AND 0xff), ucast (drop_bit 16 l AND 0xff), ucast (drop_bit 24 l AND 0xff)])"

text \<open>The loop over \<open>num\<close> blocks of all four block functions.\<close>

primrec block_data_order :: "md_params \<Rightarrow> nat \<Rightarrow> u32 list \<Rightarrow> u8 list \<Rightarrow> u32 list" where
  "block_data_order P 0 h data = h"
| "block_data_order P (Suc num) h data = block_data_order P num (mp_block P h (take HASH_CBLOCK data)) (drop HASH_CBLOCK data)"

definition hash_whole_blocks :: "md_params \<Rightarrow> HASH_CTX \<Rightarrow> u8 list \<Rightarrow> HASH_CTX" where
  "hash_whole_blocks P c data =
     (let n = length data div HASH_CBLOCK;
          c = (if n > 0 then c\<lparr>hc_h := block_data_order P n (hc_h c) data\<rparr> else c);
          data = drop (n * HASH_CBLOCK) data in
      if data \<noteq> [] then c\<lparr>hc_num := length data, hc_data := memcpy_at (hc_data c) 0 data\<rparr> else c)"

definition HASH_UPDATE :: "md_params \<Rightarrow> HASH_CTX \<Rightarrow> u8 list \<Rightarrow> HASH_CTX" where
  "HASH_UPDATE P c data =
     (let len = length data in
      if len = 0 then c
      else
        let l = hc_Nl c + push_bit 3 (word_of_nat len);
            Nh = (if l < hc_Nl c then hc_Nh c + 1 else hc_Nh c);
            Nh = Nh + word_of_nat (len div 2 ^ 29);
            c = c\<lparr>hc_Nl := l, hc_Nh := Nh\<rparr>;
            n = hc_num c in
        if n \<noteq> 0 then
          if len \<ge> HASH_CBLOCK \<or> szw (len + n) \<ge> HASH_CBLOCK then
            let c = c\<lparr>hc_data := memcpy_at (hc_data c) n (take (HASH_CBLOCK - n) data)\<rparr>;
                c = c\<lparr>hc_h := block_data_order P 1 (hc_h c) (hc_data c), hc_num := 0, hc_data := replicate HASH_CBLOCK 0\<rparr> in
            hash_whole_blocks P c (drop (HASH_CBLOCK - n) data)
          else c\<lparr>hc_data := memcpy_at (hc_data c) n data, hc_num := hc_num c + len\<rparr>
        else hash_whole_blocks P c data)"

definition HASH_TRANSFORM :: "md_params \<Rightarrow> HASH_CTX \<Rightarrow> u8 list \<Rightarrow> HASH_CTX" where
  "HASH_TRANSFORM P c data = c\<lparr>hc_h := block_data_order P 1 (hc_h c) data\<rparr>"

definition HASH_FINAL :: "md_params \<Rightarrow> HASH_CTX \<Rightarrow> u8 list option \<times> HASH_CTX" where
  "HASH_FINAL P c =
     (let n = hc_num c;
          c = c\<lparr>hc_data := (hc_data c)[n := 0x80]\<rparr>;
          n = n + 1;
          (c, n) = (if n > HASH_CBLOCK - 8 then
                      let c = c\<lparr>hc_data := memcpy_at (hc_data c) n (replicate (HASH_CBLOCK - n) 0)\<rparr> in
                      (c\<lparr>hc_h := block_data_order P 1 (hc_h c) (hc_data c)\<rparr>, 0)
                    else (c, n));
          data = memcpy_at (hc_data c) n (replicate (HASH_CBLOCK - 8 - n) 0);
          bits = (if mp_big P then HOST_l2c True (hc_Nh c) @ HOST_l2c True (hc_Nl c)
                  else HOST_l2c False (hc_Nl c) @ HOST_l2c False (hc_Nh c));
          data = memcpy_at data (HASH_CBLOCK - 8) bits;
          c = c\<lparr>hc_h := block_data_order P 1 (hc_h c) data, hc_num := 0, hc_data := replicate HASH_CBLOCK 0\<rparr> in
      (mp_string P c, c))"

section \<open>Blocks\<close>

lemma block_data_order_add:
  "block_data_order P (n + m) h data = block_data_order P m (block_data_order P n h data) (drop (n * 64) data)"
  by (induction n arbitrary: h data) (simp_all add: HASH_CBLOCK_def add.commute)

lemma block_data_order_append: "n * 64 \<le> length a \<Longrightarrow> block_data_order P n h (a @ b) = block_data_order P n h a"
  by (induction n arbitrary: h a) (simp_all add: HASH_CBLOCK_def)

lemma block_data_order_join:
  "length a = n * 64 \<Longrightarrow> block_data_order P (n + m) h (a @ b) = block_data_order P m (block_data_order P n h a) b"
  by (simp add: block_data_order_add block_data_order_append)

section \<open>The message so far\<close>

text \<open>The state after the message \<open>msg\<close>: the whole blocks have been processed, the rest is in the buffer, and the length in
  bits is counted modulo \<open>2 ^ 64\<close>.\<close>

definition count_ok :: "HASH_CTX \<Rightarrow> nat \<Rightarrow> bool" where
  "count_ok c len \<longleftrightarrow> unat (hc_Nh c) * 2 ^ 32 + unat (hc_Nl c) = 8 * len mod 2 ^ 64"

definition hash_rep :: "md_params \<Rightarrow> u32 list \<Rightarrow> HASH_CTX \<Rightarrow> u8 list \<Rightarrow> bool" where
  "hash_rep P h0 c msg \<longleftrightarrow>
     count_ok c (length msg) \<and> length (hc_data c) = 64 \<and> hc_num c = length msg mod 64
     \<and> hc_h c = block_data_order P (length msg div 64) h0 msg
     \<and> take (hc_num c) (hc_data c) = drop (length msg div 64 * 64) msg"

lemma div_mod_small:
  fixes m b k :: nat
  assumes "m < b"
  shows "(k * b + m) div b = k" "(k * b + m) mod b = m"
  using assms by simp_all

lemma count_update:
  fixes len :: nat
  assumes "count_ok c n"
  defines "l \<equiv> hc_Nl c + push_bit 3 (word_of_nat len)"
  shows "unat ((if l < hc_Nl c then hc_Nh c + 1 else hc_Nh c) + word_of_nat (len div 2 ^ 29)) * 2 ^ 32 + unat l = 8 * (n + len) mod 2 ^ 64"
proof -
  let ?L = "unat (hc_Nl c)" and ?H = "unat (hc_Nh c)"
  have p: "unat (push_bit 3 (word_of_nat len) :: u32) = 8 * len mod 2 ^ 32"
    using mod_mult_left_eq [of len "2 ^ 32" 8] by (simp add: push_bit_eq_mult unat_word_ariths unat_of_nat mult.commute)
  have l: "unat l = (?L + 8 * len mod 2 ^ 32) mod 2 ^ 32" unfolding l_def unat_word_ariths p by simp
  have L: "?L < 2 ^ 32" using unsigned_less [of "hc_Nl c", where 'a = nat] by simp
  define x where "x = 8 * len mod 2 ^ 32"
  have x: "x < 2 ^ 32" "8 * len = len div 2 ^ 29 * 2 ^ 32 + x"
  proof -
    have "8 * len div 2 ^ 32 = len div 2 ^ 29" using div_mult2_eq [of "8 * len" 8 "2 ^ 29"] by simp
    then show "8 * len = len div 2 ^ 29 * 2 ^ 32 + x" using div_mult_mod_eq [of "8 * len" "2 ^ 32"] by (simp add: x_def)
  qed (simp add: x_def)
  define carry where "carry = (?L + x) div 2 ^ 32"
  have c: "l < hc_Nl c \<longleftrightarrow> carry = 1" "carry \<le> 1" "unat l = ?L + x - carry * 2 ^ 32" "carry * 2 ^ 32 \<le> ?L + x"
  proof -
    have lx: "unat l = (?L + x) mod 2 ^ 32" using l by (simp add: x_def)
    show "carry \<le> 1" "carry * 2 ^ 32 \<le> ?L + x" using L x(1) by (auto simp: carry_def)
    show "unat l = ?L + x - carry * 2 ^ 32" unfolding lx carry_def by (simp add: modulo_nat_def)
    show "l < hc_Nl c \<longleftrightarrow> carry = 1"
    proof (cases "?L + x < 2 ^ 32")
      case True
      then show ?thesis using lx by (simp add: word_less_nat_alt carry_def)
    next
      case False
      then have "carry = 1" "unat l = ?L + x - 2 ^ 32" using L x(1) lx by (auto simp: carry_def div_nat_eqI mod_if)
      then show ?thesis using False L x(1) by (simp add: word_less_nat_alt)
    qed
  qed
  have h: "unat ((if l < hc_Nl c then hc_Nh c + 1 else hc_Nh c) + word_of_nat (len div 2 ^ 29)) = (?H + carry + len div 2 ^ 29) mod 2 ^ 32"
  proof (cases "carry = 1")
    case True
    then show ?thesis using c(1) by (simp add: unat_word_ariths unat_of_nat mod_simps)
  next
    case False
    then have "carry = 0" "\<not> l < hc_Nl c" using c(1,2) by auto
    then show ?thesis by (simp add: unat_word_ariths unat_of_nat mod_simps)
  qed
  have lt: "unat l < 2 ^ 32" using unsigned_less [of l, where 'a = nat] by simp
  let ?s = "?H + carry + len div 2 ^ 29"
  have "(?s mod 2 ^ 32) * 2 ^ 32 + unat l = (?s * 2 ^ 32 + unat l) mod (2 ^ 32 * 2 ^ 32)"
  proof -
    have "(?s * 2 ^ 32 + unat l) div 2 ^ 32 = ?s" "(?s * 2 ^ 32 + unat l) mod 2 ^ 32 = unat l"
      by (rule div_mod_small [OF lt])+
    then show ?thesis unfolding mod_mult2_eq by (simp only: add.commute mult.commute)
  qed
  also have "?s * 2 ^ 32 + unat l = (?H * 2 ^ 32 + ?L) + 8 * len"
    using c(3,4) x(2) by (simp add: algebra_simps)
  also have "\<dots> mod (2 ^ 32 * 2 ^ 32) = (8 * n + 8 * len) mod 2 ^ 64"
    using assms(1) unfolding count_ok_def by (simp add: mod_simps)
  finally show ?thesis unfolding h by (simp add: algebra_simps)
qed

text \<open>The whole blocks of \<open>data\<close>, when the buffer is empty.\<close>

lemma whole_blocks_rep:
  fixes data :: "u8 list"
  assumes "hc_h c = block_data_order P k h0 B" "length B = k * 64" "hc_num c = 0" "length (hc_data c) = 64"
  defines "c' \<equiv> hash_whole_blocks P c data"
  shows "length (hc_data c') = 64 \<and> hc_num c' = length (B @ data) mod 64
    \<and> hc_h c' = block_data_order P (length (B @ data) div 64) h0 (B @ data)
    \<and> take (hc_num c') (hc_data c') = drop (length (B @ data) div 64 * 64) (B @ data)
    \<and> hc_Nl c' = hc_Nl c \<and> hc_Nh c' = hc_Nh c"
proof -
  let ?n = "length data div 64"
  define r where "r = drop (?n * 64) data"
  have r: "length r = length data mod 64" by (simp add: r_def minus_div_mult_eq_mod)
  have n: "length (B @ data) div 64 = k + ?n" "length (B @ data) mod 64 = length data mod 64" using assms(2) by simp_all
  have h: "block_data_order P (k + ?n) h0 (B @ data) = block_data_order P ?n (hc_h c) data"
    using block_data_order_join [OF assms(2), of P ?n h0 data] assms(1) by simp
  have d: "drop ((k + ?n) * 64) (B @ data) = r" using assms(2) by (simp add: r_def algebra_simps)
  have c': "c' = (let c1 = (if ?n > 0 then c\<lparr>hc_h := block_data_order P ?n (hc_h c) data\<rparr> else c) in
      if r \<noteq> [] then c1\<lparr>hc_num := length r, hc_data := memcpy_at (hc_data c1) 0 r\<rparr> else c1)"
    unfolding c'_def hash_whole_blocks_def HASH_CBLOCK_def r_def Let_def ..
  have h1: "hc_h (if ?n > 0 then c\<lparr>hc_h := block_data_order P ?n (hc_h c) data\<rparr> else c) = block_data_order P ?n (hc_h c) data"
    by (cases "?n = 0") auto
  have l: "length r < 64" by (simp add: r)
  show ?thesis
    unfolding n h d c' using assms(3,4) h1 l
    by (cases "r = []"; cases "?n = 0") (auto simp: Let_def r [symmetric] memcpy_at_0)
qed

lemma hash_update_rep:
  assumes rep: "hash_rep P h0 c msg"
  shows "hash_rep P h0 (HASH_UPDATE P c data) (msg @ data)"
proof (cases "data = []")
  case True
  then show ?thesis using rep by (simp add: HASH_UPDATE_def)
next
  case False
  let ?len = "length data" and ?k = "length msg div 64" and ?n = "length msg mod 64"
  define l where "l = hc_Nl c + push_bit 3 (word_of_nat ?len)"
  define Nh where "Nh = (if l < hc_Nl c then hc_Nh c + 1 else hc_Nh c) + word_of_nat (?len div 2 ^ 29)"
  define c1 where "c1 = c\<lparr>hc_Nl := l, hc_Nh := Nh\<rparr>"
  have cnt: "count_ok x (length (msg @ data))" if "hc_Nl x = l" "hc_Nh x = Nh" for x
    using count_update [of c "length msg" ?len] rep that unfolding count_ok_def hash_rep_def Nh_def l_def by simp
  define B r where "B = take (?k * 64) msg" and "r = drop (?k * 64) msg"
  have B: "length B = ?k * 64" "msg = B @ r" "length r = ?n"
    using div_mult_mod_eq [of "length msg" 64] by (simp_all add: B_def r_def minus_div_mult_eq_mod)
  have c: "length (hc_data c) = 64" "hc_num c = ?n" "take ?n (hc_data c) = r" "hc_h c = block_data_order P ?k h0 B"
    using rep B(1) block_data_order_append [of ?k B P h0 r] unfolding hash_rep_def r_def B_def by auto
  have n64: "?n < 64" by simp
  have run: "HASH_UPDATE P c data = (if ?n \<noteq> 0 then
        if ?len \<ge> 64 \<or> szw (?len + ?n) \<ge> 64 then
          hash_whole_blocks P (c1\<lparr>hc_h := block_data_order P 1 (hc_h c) (memcpy_at (hc_data c) ?n (take (64 - ?n) data)), hc_num := 0, hc_data := replicate 64 0\<rparr>) (drop (64 - ?n) data)
        else c1\<lparr>hc_data := memcpy_at (hc_data c) ?n data, hc_num := ?n + ?len\<rparr>
      else hash_whole_blocks P c1 data)"
    using False c(2) unfolding HASH_UPDATE_def Let_def HASH_CBLOCK_def l_def [symmetric] Nh_def [symmetric] c1_def by simp
  have s: "(?len \<ge> 64 \<or> szw (?len + ?n) \<ge> 64) \<longleftrightarrow> ?len + ?n \<ge> 64"
  proof (cases "?len \<ge> 64")
    case False
    then have "szw (?len + ?n) = ?len + ?n" using n64 by simp
    then show ?thesis using False by simp
  qed simp
  consider "?n = 0" | "?n \<noteq> 0" "?len + ?n \<ge> 64" | "?n \<noteq> 0" "?len + ?n < 64" by linarith
  then show ?thesis
  proof cases
    case 1
    then have "r = []" using B(3) by simp
    then have m: "msg = B" using B(2) by simp
    have u: "HASH_UPDATE P c data = hash_whole_blocks P c1 data" using run 1 by simp
    have c1: "hc_h c1 = block_data_order P ?k h0 B" "hc_num c1 = 0" "length (hc_data c1) = 64" "hc_Nl c1 = l" "hc_Nh c1 = Nh"
      using c 1 by (simp_all add: c1_def)
    show ?thesis
      using whole_blocks_rep [OF c1(1) B(1) c1(2,3), of data] cnt [of "hash_whole_blocks P c1 data"] c1(4,5) m
      unfolding u hash_rep_def by metis
  next
    case 2
    define f where "f = r @ take (64 - ?n) data"
    have f: "length f = 64" "memcpy_at (hc_data c) ?n (take (64 - ?n) data) = f"
      using 2 B(3) c(1,3) n64 by (simp_all add: f_def memcpy_at_def)
    let ?c = "c1\<lparr>hc_h := block_data_order P 1 (hc_h c) f, hc_num := 0, hc_data := replicate 64 0\<rparr>"
    have u: "HASH_UPDATE P c data = hash_whole_blocks P ?c (drop (64 - ?n) data)" using run 2 s f(2) by simp
    have h: "hc_h ?c = block_data_order P (Suc ?k) h0 (B @ f)"
      using block_data_order_join [OF B(1), of P 1 h0 f] c(4) by simp
    have e: "(B @ f) @ drop (64 - ?n) data = msg @ data" unfolding f_def using B(2) by (metis append.assoc append_take_drop_id)
    have Bf: "length (B @ f) = Suc ?k * 64" using B(1) f(1) by simp
    have c2: "hc_num ?c = 0" "length (hc_data ?c) = 64" "hc_Nl ?c = l" "hc_Nh ?c = Nh" by (simp_all add: c1_def)
    show ?thesis
      using whole_blocks_rep [OF h Bf c2(1,2), of "drop (64 - ?n) data"] cnt [of "hash_whole_blocks P ?c (drop (64 - ?n) data)"] c2(3,4)
      unfolding u hash_rep_def e by metis
  next
    case 3
    then have u: "HASH_UPDATE P c data = c1\<lparr>hc_data := memcpy_at (hc_data c) ?n data, hc_num := ?n + ?len\<rparr>" using run s by simp
    have d: "length (msg @ data) div 64 = ?k" "length (msg @ data) mod 64 = ?n + ?len"
    proof -
      have e: "length (msg @ data) = ?k * 64 + (?n + ?len)" using div_mult_mod_eq [of "length msg" 64] by simp
      have lt: "?n + ?len < 64" using 3 by simp
      show "length (msg @ data) div 64 = ?k" unfolding e by (rule div_mod_small(1) [OF lt])
      show "length (msg @ data) mod 64 = ?n + ?len" unfolding e by (rule div_mod_small(2) [OF lt])
    qed
    have h: "block_data_order P ?k h0 (msg @ data) = hc_h c"
    proof -
      have e: "msg @ data = B @ r @ data" using arg_cong [OF B(2), of "\<lambda>x. x @ data"] by (simp only: append_assoc)
      have "?k * 64 \<le> length B" by (simp only: B(1))
      then show ?thesis unfolding c(4) e by (rule block_data_order_append)
    qed
    have t: "take (?n + ?len) (memcpy_at (hc_data c) ?n data) = r @ data" using c(1,3) 3 by (simp add: take_memcpy_at)
    have "drop (?k * 64) (msg @ data) = r @ data" by (simp add: r_def)
    then show ?thesis using cnt h t c(1) 3 unfolding u hash_rep_def d by (simp add: c1_def)
  qed
qed

lemma hash_updates_rep:
  "hash_rep P h0 c msg \<Longrightarrow> hash_rep P h0 (foldl (HASH_UPDATE P) c chunks) (msg @ concat chunks)"
proof (induction chunks arbitrary: c msg)
  case (Cons d chunks)
  show ?case using Cons.IH [OF hash_update_rep [OF Cons.prems, of d]] by simp
qed simp

section \<open>Padding\<close>

text \<open>The padding of the standards: a one bit, zeros up to eight bytes before a block boundary, and the length in bits.\<close>

definition md_pad :: "bool \<Rightarrow> u8 list \<Rightarrow> u8 list" where
  "md_pad big msg = msg @ 0x80 # replicate ((119 - length msg mod 64) mod 64) 0
     @ (if big then be_enc 8 (8 * length msg) else rev (be_enc 8 (8 * length msg)))"

lemma low_byte: "ucast (l AND 0xff) = (word_of_nat (unat l) :: u8)" for l :: u32
proof -
  have "l AND 0xff = take_bit 8 l" by (simp add: take_bit_eq_mask mask_eq_exp_minus_1)
  then show ?thesis by (simp only:) (rule bit_word_eqI, auto simp: bit_simps)
qed

lemma HOST_l2c_be: "HOST_l2c True l = be_enc 4 (unat l)"
proof -
  have "unat (drop_bit 8 l) = unat l div 256" "unat (drop_bit 16 l) = unat l div 256 div 256"
    "unat (drop_bit 24 l) = unat l div 256 div 256 div 256"
    by (simp_all add: drop_bit_eq_div unat_div flip: div_mult2_eq)
  moreover have "be_enc 4 x = [word_of_nat (x div 256 div 256 div 256), word_of_nat (x div 256 div 256), word_of_nat (x div 256), word_of_nat x]" for x
  proof -
    have "(4 :: nat) = Suc (Suc (Suc (Suc 0)))" by simp
    then show ?thesis by (simp only: be_enc.simps append.simps)
  qed
  ultimately show ?thesis by (simp only: HOST_l2c_def low_byte if_True)
qed

lemma HOST_l2c_le: "HOST_l2c False l = rev (HOST_l2c True l)"
  by (simp add: HOST_l2c_def)

lemma length_bits: "count_ok c n \<Longrightarrow> HOST_l2c True (hc_Nh c) @ HOST_l2c True (hc_Nl c) = be_enc 8 (8 * n)"
proof -
  assume c: "count_ok c n"
  have l: "unat (hc_Nl c) < 2 ^ 32" using unsigned_less [of "hc_Nl c", where 'a = nat] by simp
  have "be_enc 8 (8 * n) = be_enc 8 (8 * n mod 2 ^ 64)" using be_enc_mod [of 8 "8 * n"] by simp
  also have "\<dots> = be_enc (4 + 4) (unat (hc_Nh c) * 2 ^ 32 + unat (hc_Nl c))" using c by (simp add: count_ok_def)
  also have "\<dots> = be_enc 4 (unat (hc_Nh c)) @ be_enc 4 (unat (hc_Nl c))"
  proof -
    have p: "(256 :: nat) ^ 4 = 2 ^ 32" by simp
    have m: "be_enc 4 (unat (hc_Nh c) * 2 ^ 32 + unat (hc_Nl c)) = be_enc 4 (unat (hc_Nl c))"
      using be_enc_mod [of 4 "unat (hc_Nh c) * 2 ^ 32 + unat (hc_Nl c)"] unfolding p div_mod_small(2) [OF l] by simp
    show ?thesis unfolding be_enc_add p div_mod_small(1) [OF l] m ..
  qed
  finally show ?thesis by (simp only: HOST_l2c_be)
qed

definition final_bits :: "md_params \<Rightarrow> HASH_CTX \<Rightarrow> u8 list" where
  "final_bits P c = (if mp_big P then HOST_l2c True (hc_Nh c) @ HOST_l2c True (hc_Nl c)
    else HOST_l2c False (hc_Nl c) @ HOST_l2c False (hc_Nh c))"

lemma HASH_FINAL_run:
  fixes c P n d h c'
  defines "n \<equiv> hc_num c" and "d \<equiv> (hc_data c)[hc_num c := 0x80]"
  defines "h \<equiv> (if n < 56 then block_data_order P 1 (hc_h c) (memcpy_at (memcpy_at d (Suc n) (replicate (55 - n) 0)) 56 (final_bits P c))
    else block_data_order P 1 (block_data_order P 1 (hc_h c) (memcpy_at d (Suc n) (replicate (63 - n) 0)))
      (memcpy_at (memcpy_at (memcpy_at d (Suc n) (replicate (63 - n) 0)) 0 (replicate 56 0)) 56 (final_bits P c)))"
  defines "c' \<equiv> c\<lparr>hc_h := h, hc_num := 0, hc_data := replicate 64 0\<rparr>"
  shows "HASH_FINAL P c = (mp_string P c', c')"
  unfolding HASH_FINAL_def Let_def HASH_CBLOCK_def c'_def h_def n_def d_def final_bits_def
  by (cases "hc_num c < 56") (simp_all del: block_data_order.simps add: HASH_CBLOCK_def)

text \<open>\<open>HASH_FINAL\<close> processes what is left of the padded message.\<close>

lemma HASH_FINAL_rep:
  assumes rep: "hash_rep P h0 c msg"
  defines "m \<equiv> md_pad (mp_big P) msg"
  defines "c' \<equiv> c\<lparr>hc_h := block_data_order P (length m div 64) h0 m, hc_num := 0, hc_data := replicate 64 0\<rparr>"
  shows "HASH_FINAL P c = (mp_string P c', c') \<and> length m mod 64 = 0"
proof -
  let ?k = "length msg div 64" and ?n = "length msg mod 64"
  define B r where "B = take (?k * 64) msg" and "r = drop (?k * 64) msg"
  have B: "length B = ?k * 64" "msg = B @ r" "length r = ?n"
    using div_mult_mod_eq [of "length msg" 64] by (simp_all add: B_def r_def minus_div_mult_eq_mod)
  have c: "length (hc_data c) = 64" "hc_num c = ?n" "take ?n (hc_data c) = r" "hc_h c = block_data_order P ?k h0 B"
    using rep B(1) block_data_order_append [of ?k B P h0 r] unfolding hash_rep_def r_def B_def by auto
  define bits where "bits = final_bits P c"
  have bits: "bits = (if mp_big P then be_enc 8 (8 * length msg) else rev (be_enc 8 (8 * length msg)))"
    using length_bits [of c "length msg"] rep unfolding hash_rep_def bits_def final_bits_def HOST_l2c_le by (metis rev_append)
  then have lb: "length bits = 8" by simp
  have d0: "(hc_data c)[?n := 0x80] = r @ 0x80 # drop (Suc ?n) (hc_data c)"
    using c(1,3) by (simp add: upd_conv_take_nth_drop)
  have mB: "m = B @ (r @ 0x80 # replicate ((119 - ?n) mod 64) 0 @ bits)"
    unfolding m_def md_pad_def bits by (subst B(2)) (simp only: append_assoc)
  show ?thesis
  proof (cases "?n < 56")
    case True
    have z: "(119 - ?n) mod 64 = 55 - ?n" using True by (simp add: le_mod_geq)
    define blk where "blk = r @ 0x80 # replicate (55 - ?n) 0 @ bits"
    have blk: "length blk = 64" using True B(3) lb by (simp add: blk_def)
    have m: "m = B @ blk" unfolding mB z blk_def ..
    have "memcpy_at (memcpy_at (r @ 0x80 # drop (Suc ?n) (hc_data c)) (Suc ?n) (replicate (55 - ?n) 0)) 56 bits = blk"
    proof -
      have "56 - ?n = Suc (55 - ?n)" "Suc (63 - ?n) \<le> 64 - ?n" using True by simp_all
      then show ?thesis using True B(3) c(1) lb by (simp add: memcpy_at_def blk_def)
    qed
    moreover have "block_data_order P 1 (hc_h c) blk = block_data_order P (length m div 64) h0 m"
      using block_data_order_join [OF B(1), of P 1 h0 blk] B(1) blk unfolding c(4) m by simp
    moreover have "length m mod 64 = 0" unfolding m using B(1) blk by simp
    ultimately show ?thesis using True unfolding HASH_FINAL_run c(2) d0 bits_def c'_def by (simp only: if_True simp_thms)
  next
    case False
    have n64: "?n < 64" by simp
    have z: "(119 - ?n) mod 64 = (63 - ?n) + 56" using False n64 by simp
    define b1 b2 where "b1 = r @ 0x80 # replicate (63 - ?n) 0" and "b2 = replicate 56 0 @ bits"
    have b: "length b1 = 64" "length b2 = 64" using False B(3) lb n64 by (simp_all add: b1_def b2_def)
    have m: "m = B @ (b1 @ b2)" unfolding mB z b1_def b2_def replicate_add by simp
    have "memcpy_at (r @ 0x80 # drop (Suc ?n) (hc_data c)) (Suc ?n) (replicate (63 - ?n) 0) = b1"
      using False B(3) c(1) n64 by (simp add: memcpy_at_def b1_def)
    moreover have "memcpy_at (memcpy_at b1 0 (replicate 56 0)) 56 bits = b2" using b(1) lb by (simp add: memcpy_at_def b2_def)
    moreover have "block_data_order P 1 (block_data_order P 1 (hc_h c) b1) b2 = block_data_order P (length m div 64) h0 m"
      using block_data_order_join [OF B(1), of P "1 + 1" h0 "b1 @ b2"] block_data_order_join [of b1 1 P 1 "hc_h c" b2] B(1) b
      unfolding c(4) m by simp
    moreover have "length m mod 64 = 0" unfolding m using B(1) b by simp
    ultimately show ?thesis using False unfolding HASH_FINAL_run c(2) d0 bits_def c'_def by (simp only: if_False simp_thms)
  qed
qed

section \<open>Digests\<close>

lemma HASH_UPDATE_md_len: "hc_md_len (HASH_UPDATE P c data) = hc_md_len c"
  by (simp add: HASH_UPDATE_def hash_whole_blocks_def Let_def)

lemma HASH_updates_md_len: "hc_md_len (foldl (HASH_UPDATE P) c chunks) = hc_md_len c"
  by (induction chunks arbitrary: c) (simp_all add: HASH_UPDATE_md_len)

definition md_blocks :: "u8 list \<Rightarrow> u8 list list" where
  "md_blocks m = map (\<lambda>i. take 64 (drop (64 * i) m)) [0..<length m div 64]"

lemma block_data_order_foldl:
  "block_data_order P n h data = foldl (mp_block P) h (map (\<lambda>i. take 64 (drop (64 * i) data)) [0..<n])"
proof (induction n arbitrary: h data)
  case (Suc n)
  have "map (\<lambda>i. take 64 (drop (64 * i) data)) [0..<Suc n]
      = take 64 data # map (\<lambda>i. take 64 (drop (64 * i) (drop 64 data))) [0..<n]"
    by (simp add: upt_conv_Cons map_Suc_upt [symmetric] comp_def algebra_simps del: upt_Suc)
  then show ?case by (simp add: Suc.IH HASH_CBLOCK_def del: upt_Suc)
qed simp

text \<open>The result of a fresh state after any updates: the output string of the hash of the padded message.\<close>

lemma HASH_chunks:
  assumes "hash_rep P (hc_h c) c []"
  shows "\<exists>c'. fst (HASH_FINAL P (foldl (HASH_UPDATE P) c chunks)) = mp_string P c' \<and> hc_md_len c' = hc_md_len c
    \<and> hc_h c' = foldl (mp_block P) (hc_h c) (md_blocks (md_pad (mp_big P) (concat chunks)))"
proof -
  let ?c = "foldl (HASH_UPDATE P) c chunks"
  have "hash_rep P (hc_h c) ?c (concat chunks)" using hash_updates_rep [OF assms, of chunks] by simp
  from HASH_FINAL_rep [OF this] show ?thesis
    by (auto simp: HASH_updates_md_len block_data_order_foldl md_blocks_def simp del: foldl_map)
qed

lemma md_blocks_length: "b \<in> set (md_blocks m) \<Longrightarrow> length b = 64"
  by (auto simp: md_blocks_def)

text \<open>A block function that agrees with a reference on states of \<open>n\<close> words and whole blocks gives the same digest.\<close>

lemma foldl_block_cong:
  assumes "\<And>h b. length h = n \<Longrightarrow> length b = 64 \<Longrightarrow> f h b = g h b" "\<And>h b. length h = n \<Longrightarrow> length (g h b) = n"
    "length h = n" "\<forall>b \<in> set bs. length b = 64"
  shows "foldl f h bs = foldl g h bs \<and> length (foldl g h bs) = n"
  using assms(3,4) by (induction bs arbitrary: h) (simp_all add: assms(1,2))

text \<open>Words of a block and rotations, as the standards have them.\<close>

definition msg_word :: "u8 list \<Rightarrow> nat \<Rightarrow> u32" where
  "msg_word M t = word_of_nat (be_val (take 4 (drop (4 * t) M)))"

lemma unat_be4:
  "unat (push_bit 24 (ucast (a :: u8)) OR push_bit 16 (ucast (b :: u8)) OR push_bit 8 (ucast (c :: u8)) OR ucast (d :: u8) :: u32)
     = be_val [a, b, c, d]"
proof -
  note lt = unat_u8_lt [of a] unat_u8_lt [of b] unat_u8_lt [of c] unat_u8_lt [of d]
  let ?a = "ucast a :: u32" and ?b = "ucast b :: u32" and ?c = "ucast c :: u32" and ?d = "ucast d :: u32"
  have 1: "unat (push_bit 8 ?a OR ?b) = unat a * 256 + unat b"
    using unat_shift_or [of ?a 8 ?b] lt by (simp del: unat_u8_lt)
  have 2: "unat (push_bit 8 (push_bit 8 ?a OR ?b) OR ?c) = (unat a * 256 + unat b) * 256 + unat c"
    using unat_shift_or [of "push_bit 8 ?a OR ?b" 8 ?c] lt unfolding 1 by (simp del: unat_u8_lt)
  have 3: "unat (push_bit 8 (push_bit 8 (push_bit 8 ?a OR ?b) OR ?c) OR ?d) = ((unat a * 256 + unat b) * 256 + unat c) * 256 + unat d"
    using unat_shift_or [of "push_bit 8 (push_bit 8 ?a OR ?b) OR ?c" 8 ?d] lt unfolding 2 by (simp del: unat_u8_lt)
  have "push_bit 8 (push_bit 8 (push_bit 8 ?a OR ?b) OR ?c) OR ?d = push_bit 24 ?a OR push_bit 16 ?b OR push_bit 8 ?c OR ?d"
    by (simp only: push_bit_or push_bit_push_bit or.assoc) simp
  then show ?thesis using 3 by (simp add: algebra_simps)
qed

lemma HOST_c2l_msg_word:
  assumes "4 * t + 4 \<le> length M"
  shows "HOST_c2l True (drop (4 * t) M) = msg_word M t"
proof -
  have "Suc (Suc (Suc (Suc 0))) \<le> length (drop (4 * t) M)" using assms by simp
  then obtain a b c d r where r: "drop (4 * t) M = a # b # c # d # r"
    unfolding Suc_le_length_iff by blast
  have "HOST_c2l True (a # b # c # d # r)
      = push_bit 24 (ucast a) OR push_bit 16 (ucast b) OR push_bit 8 (ucast c) OR ucast d"
    by (simp add: HOST_c2l_def)
  also have "\<dots> = word_of_nat (be_val [a, b, c, d])" by (simp only: unat_be4 [symmetric] of_nat_unat ucast_id)
  finally show ?thesis unfolding r msg_word_def by simp
qed

end
