(* ===== verification/Hash_Constants.thy ===== *)
theory Hash_Constants
  imports Complex_Main Byte_Prelude
begin

text \<open>
  The constants of the hash standards, as the standards define them and not as the tables of the code list them: the bits
  of the fractional parts of the square and cube roots of the first primes (FIPS 180-4, sections 4.2.2 and 5.3) and of the
  sines of \<open>1, 2, \<dots>, 64\<close> (RFC 1321, section 3.4).  The lemmas decide by integer arithmetic whether a word is such a
  constant; \<open>Sha256\<close> and \<open>Md5\<close> apply them to the tables of the code.
\<close>

section \<open>Roots\<close>

text \<open>The last 32 bits of the \<open>n\<close>-th root of \<open>p\<close>, written with \<open>k\<close> bits after the point.\<close>

definition root_bits :: "nat \<Rightarrow> nat \<Rightarrow> nat \<Rightarrow> u32" where
  "root_bits n k p = word_of_int \<lfloor>2 ^ k * root n (real p)\<rfloor>"

definition first_primes :: "nat list" where
  "first_primes = concat [
    [2, 3, 5, 7, 11, 13, 17, 19], [23, 29, 31, 37, 41, 43, 47, 53], [59, 61, 67, 71, 73, 79, 83, 89],
    [97, 101, 103, 107, 109, 113, 127, 131], [137, 139, 149, 151, 157, 163, 167, 173],
    [179, 181, 191, 193, 197, 199, 211, 223], [227, 229, 233, 239, 241, 251, 257, 263],
    [269, 271, 277, 281, 283, 293, 307, 311]]"

text \<open>\<open>m\<close> is the integer whose last bits are asked for.\<close>

definition root_floor :: "nat \<Rightarrow> nat \<Rightarrow> nat \<Rightarrow> nat \<Rightarrow> bool" where
  "root_floor n k p m \<longleftrightarrow> m ^ n \<le> p * 2 ^ (k * n) \<and> p * 2 ^ (k * n) < (m + 1) ^ n"

lemma root_floor_bits:
  assumes "root_floor n k p m" "0 < n"
  shows "root_bits n k p = word_of_nat m"
proof -
  let ?r = "2 ^ k * root n (real p)"
  have r: "?r ^ n = real (p * 2 ^ (k * n))" "0 \<le> ?r"
    using assms(2) by (simp_all add: power_mult_distrib real_root_pow_pos2 flip: power_mult)
  have "real m ^ n \<le> ?r ^ n" "?r ^ n < real (m + 1) ^ n"
    using assms(1) unfolding r(1) root_floor_def of_nat_power [symmetric] of_nat_le_iff of_nat_less_iff by blast+
  then have "real m \<le> ?r" "?r < real (m + 1)"
    using power_mono_iff [of "real m" ?r n] power_less_imp_less_base [of ?r n "real (m + 1)"] r(2) assms(2) of_nat_0_le_iff by blast+
  then have "\<lfloor>?r\<rfloor> = int m" by (simp add: floor_eq_iff)
  then show ?thesis by (simp add: root_bits_def)
qed

text \<open>The integer part \<open>q\<close> of the root with the fraction \<open>w\<close>.\<close>

definition root_fraction :: "nat \<Rightarrow> nat \<Rightarrow> nat \<Rightarrow> u32 \<Rightarrow> bool" where
  "root_fraction n p q w \<longleftrightarrow> root_floor n 32 p (q * 2 ^ 32 + unat w)"

lemma root_fraction_bits:
  assumes "root_fraction n p q w" "0 < n"
  shows "root_bits n 32 p = w"
proof -
  have "word_of_nat (q * 2 ^ 32 + unat w) = word_of_nat q * (2 ^ 32 :: u32) + w" by simp
  also have "(2 :: u32) ^ 32 = 0" using word_exp_length_eq_0 [where 'a = 32] by simp
  finally show ?thesis using root_floor_bits [OF assms(1) [unfolded root_fraction_def] assms(2)] by simp
qed

fun fraction_table :: "nat \<Rightarrow> nat list \<Rightarrow> nat list \<Rightarrow> u32 list \<Rightarrow> bool" where
  "fraction_table n [] [] [] = True"
| "fraction_table n (p # ps) (q # qs) (w # ws) = (root_fraction n p q w \<and> fraction_table n ps qs ws)"
| "fraction_table n _ _ _ = False"

lemma fraction_table_bits: "fraction_table n ps qs ws \<Longrightarrow> 0 < n \<Longrightarrow> map (root_bits n 32) ps = ws"
  by (induction n ps qs ws rule: fraction_table.induct) (auto intro: root_fraction_bits)

section \<open>Sines\<close>

definition sine_bits :: "nat \<Rightarrow> u32" where
  "sine_bits i = word_of_int \<lfloor>2 ^ 32 * \<bar>sin (real i)\<bar>\<rfloor>"

text \<open>\<open>a\<close> and \<open>b\<close> are the coordinates of \<open>z\<close> with 56 bits after the point, up to a distance of \<open>e\<close> units.\<close>

definition near :: "complex \<Rightarrow> int \<Rightarrow> int \<Rightarrow> int \<Rightarrow> bool" where
  "near z a b e \<longleftrightarrow> cmod (2 ^ 56 * z - Complex (of_int a) (of_int b)) \<le> of_int e"

lemma nearI:
  assumes "\<bar>2 ^ 56 * Re z - of_int a\<bar> \<le> 1" "\<bar>2 ^ 56 * Im z - of_int b\<bar> \<le> 1"
  shows "near z a b 2"
  using cmod_le [of "2 ^ 56 * z - Complex (of_int a) (of_int b)"] assms by (simp add: near_def)

lemma near_1: "near (cis 1) 38932884214002780 60634374617982832 2"
proof (rule nearI)
  have "\<bar>sin 1 - (\<Sum>m<20. sin_coeff m * 1 ^ m)\<bar> \<le> inverse (fact 20) * \<bar>1 :: real\<bar> ^ 20"
    by (rule Maclaurin_sin_bound)
  then have "\<bar>sin 1 - 102360822438075317 / 121645100408832000\<bar> \<le> 1 / (2432902008176640000 :: real)"
    by (simp add: sin_coeff_def lessThan_nat_numeral lessThan_Suc fact_numeral field_simps)
  then show "\<bar>2 ^ 56 * Im (cis 1) - of_int 60634374617982832\<bar> \<le> 1" unfolding abs_le_iff by (simp add: field_simps)
  obtain t where t: "cos (1 :: real) = (\<Sum>m<20. cos_coeff m * 1 ^ m) + cos (t + 1 / 2 * real 20 * pi) / fact 20 * 1 ^ 20"
    using Maclaurin_cos_expansion [of 1 20] by blast
  define c where "c = cos (t + 1 / 2 * real 20 * pi)"
  have c: "- 1 \<le> c" "c \<le> 1" by (simp_all add: c_def)
  from t have "cos 1 = (\<Sum>m<20. cos_coeff m) + c / fact 20" unfolding c_def by simp
  then show "\<bar>2 ^ 56 * Re (cis 1) - of_int 38932884214002780\<bar> \<le> 1" using c unfolding abs_le_iff
    by (simp add: cos_coeff_def lessThan_nat_numeral lessThan_Suc fact_numeral field_simps)
qed

text \<open>From \<open>x\<close> to \<open>x + 1\<close>: the error grows by four units, two for the approximation of \<open>cis 1\<close> and two for the rounding.\<close>

lemma drop_bit_56: "of_int (drop_bit 56 z) \<le> (of_int z / 2 ^ 56 :: real)" "(of_int z / 2 ^ 56 :: real) < of_int (drop_bit 56 z) + 1"
proof -
  have "drop_bit 56 z = \<lfloor>of_int z / 2 ^ 56 :: real\<rfloor>"
    using floor_divide_of_int_eq [of z "2 ^ 56", where 'a = real] by (simp add: drop_bit_eq_div)
  then show "of_int (drop_bit 56 z) \<le> (of_int z / 2 ^ 56 :: real)" "(of_int z / 2 ^ 56 :: real) < of_int (drop_bit 56 z) + 1"
    by linarith+
qed

lemma near_step:
  assumes "near (cis x) a b e" "near (cis 1) c s 2" "c ^ 2 + s ^ 2 \<le> (2 ^ 56) ^ 2"
  shows "near (cis (x + 1)) (drop_bit 56 (a * c - b * s)) (drop_bit 56 (a * s + b * c)) (e + 4)"
proof -
  define A B R where "A = Complex (of_int a) (of_int b)" and "B = Complex (of_int c) (of_int s)"
    and "R = Complex (of_int (drop_bit 56 (a * c - b * s))) (of_int (drop_bit 56 (a * s + b * c)))"
  have "real_of_int (c ^ 2 + s ^ 2) \<le> of_int ((2 ^ 56) ^ 2)" using assms(3) by (simp only: of_int_le_iff)
  then have "cmod B ^ 2 \<le> (2 ^ 56) ^ 2" by (simp add: B_def cmod_power2)
  then have "cmod B \<le> 2 ^ 56" by (rule power2_le_imp_le) simp
  then have B: "cmod (B / 2 ^ 56) \<le> 1" by (simp add: norm_divide norm_power)
  have "Re (A * B / 2 ^ 56 - R) = of_int (a * c - b * s) / 2 ^ 56 - of_int (drop_bit 56 (a * c - b * s))"
    "Im (A * B / 2 ^ 56 - R) = of_int (a * s + b * c) / 2 ^ 56 - of_int (drop_bit 56 (a * s + b * c))"
    by (simp_all add: A_def B_def R_def)
  then have "\<bar>Re (A * B / 2 ^ 56 - R)\<bar> \<le> 1" "\<bar>Im (A * B / 2 ^ 56 - R)\<bar> \<le> 1"
    using drop_bit_56 [of "a * c - b * s"] drop_bit_56 [of "a * s + b * c"] by linarith+
  then have R: "cmod (A * B / 2 ^ 56 - R) \<le> 2" using cmod_le [of "A * B / 2 ^ 56 - R"] by linarith
  have "2 ^ 56 * cis (x + 1) - R
      = ((2 ^ 56 * cis x - A) * (B / 2 ^ 56) + cis x * (2 ^ 56 * cis 1 - B)) + (A * B / 2 ^ 56 - R)"
    by (simp add: field_simps flip: cis_mult)
  also have "cmod \<dots> \<le> cmod (2 ^ 56 * cis x - A) * cmod (B / 2 ^ 56) + cmod (cis x) * cmod (2 ^ 56 * cis 1 - B) + cmod (A * B / 2 ^ 56 - R)"
    unfolding norm_mult [symmetric] by (intro order_trans [OF norm_triangle_ineq] add_right_mono norm_triangle_ineq)
  also have "\<dots> \<le> cmod (2 ^ 56 * cis x - A) * 1 + 1 * cmod (2 ^ 56 * cis 1 - B) + 2"
    by (intro add_mono mult_mono B R order_refl) simp_all
  also have "\<dots> \<le> of_int (e + 4)" using assms(1,2) by (simp add: near_def A_def B_def)
  finally show ?thesis unfolding near_def R_def .
qed

text \<open>The words \<open>ts\<close> are the constants for \<open>k, k + 1, \<dots>\<close> when \<open>cis k\<close> is near \<open>(a, b)\<close>.\<close>

fun sine_table :: "int \<Rightarrow> int \<Rightarrow> int \<Rightarrow> u32 list \<Rightarrow> bool" where
  "sine_table a b e [] = True"
| "sine_table a b e (t # ts) =
     (uint t * 2 ^ 24 \<le> \<bar>b\<bar> - e \<and> \<bar>b\<bar> + e < (uint t + 1) * 2 ^ 24
      \<and> sine_table (drop_bit 56 (a * 38932884214002780 - b * 60634374617982832))
          (drop_bit 56 (a * 60634374617982832 + b * 38932884214002780)) (e + 4) ts)"

lemma sine_bits_near:
  assumes "near (cis (real k)) a b e" "uint t * 2 ^ 24 \<le> \<bar>b\<bar> - e" "\<bar>b\<bar> + e < (uint t + 1) * 2 ^ 24"
  shows "sine_bits k = t"
proof -
  have "real_of_int (uint t * 2 ^ 24) \<le> of_int (\<bar>b\<bar> - e)" "real_of_int (\<bar>b\<bar> + e) < of_int ((uint t + 1) * 2 ^ 24)"
    using assms(2,3) by (simp_all only: of_int_le_iff of_int_less_iff)
  moreover have "\<bar>2 ^ 56 * sin (real k) - of_int b\<bar> \<le> of_int e"
    using abs_Im_le_cmod [of "2 ^ 56 * cis (real k) - Complex (of_int a) (of_int b)"] assms(1) unfolding near_def by simp
  then have "\<bar>2 ^ 56 * \<bar>sin (real k)\<bar> - of_int \<bar>b\<bar>\<bar> \<le> of_int e"
    using abs_triangle_ineq3 [of "2 ^ 56 * sin (real k)" "of_int b"] by (simp add: abs_mult)
  ultimately have "real_of_int (uint t) \<le> 2 ^ 32 * \<bar>sin (real k)\<bar>" "2 ^ 32 * \<bar>sin (real k)\<bar> < real_of_int (uint t) + 1"
    by (simp_all add: abs_le_iff)
  then have "\<lfloor>2 ^ 32 * \<bar>sin (real k)\<bar>\<rfloor> = uint t" by (simp add: floor_eq_iff)
  then show ?thesis by (simp add: sine_bits_def)
qed

lemma sine_table_bits:
  assumes "sine_table a b e ts" "near (cis (real k)) a b e" "i < length ts"
  shows "sine_bits (k + i) = ts ! i"
  using assms
proof (induction ts arbitrary: a b e k i)
  case (Cons t ts)
  have r: "real k + 1 = real (Suc k)" by simp
  have n: "38932884214002780 ^ 2 + 60634374617982832 ^ 2 \<le> ((2 ^ 56) ^ 2 :: int)" by simp
  note st = near_step [OF Cons.prems(2) near_1 n, unfolded r]
  show ?case
  proof (cases i)
    case 0
    then show ?thesis using sine_bits_near [OF Cons.prems(2), of t] Cons.prems(1) by simp
  next
    case (Suc j)
    have "sine_bits (Suc k + j) = ts ! j"
      using Cons.prems(1,3) unfolding Suc sine_table.simps by (intro Cons.IH [OF _ st]) simp_all
    then show ?thesis by (simp add: Suc)
  qed
qed simp

end
