(* ===== verification/Sha256.thy ===== *)
theory Sha256
  imports Md32 Hash_Constants
begin

text \<open>
  \<open>crypto/fipsmodule/sha/sha256.c\<close>: SHA-224 and SHA-256 over the collector of \<open>Md32\<close>, with the message schedule in a
  circular buffer of sixteen words and the working variables renamed instead of moved.  The reference is the algorithm as
  FIPS 180-4 states it: right rotations, the schedule \<open>W\<^sub>0, \<dots>, W\<^sub>6\<^sub>3\<close>, the assignments of section 6.2.2, and the
  constants and initial values as bits of square and cube roots of primes; it uses no function or table of the code.
\<close>

unbundle bit_operations_syntax

section \<open>The code\<close>

text \<open>The rows of the table in the source.\<close>

definition K256 :: "u32 list" where
  "K256 = concat [
    [0x428a2f98, 0x71374491, 0xb5c0fbcf, 0xe9b5dba5, 0x3956c25b],
    [0x59f111f1, 0x923f82a4, 0xab1c5ed5, 0xd807aa98, 0x12835b01],
    [0x243185be, 0x550c7dc3, 0x72be5d74, 0x80deb1fe, 0x9bdc06a7],
    [0xc19bf174, 0xe49b69c1, 0xefbe4786, 0x0fc19dc6, 0x240ca1cc],
    [0x2de92c6f, 0x4a7484aa, 0x5cb0a9dc, 0x76f988da, 0x983e5152],
    [0xa831c66d, 0xb00327c8, 0xbf597fc7, 0xc6e00bf3, 0xd5a79147],
    [0x06ca6351, 0x14292967, 0x27b70a85, 0x2e1b2138, 0x4d2c6dfc],
    [0x53380d13, 0x650a7354, 0x766a0abb, 0x81c2c92e, 0x92722c85],
    [0xa2bfe8a1, 0xa81a664b, 0xc24b8b70, 0xc76c51a3, 0xd192e819],
    [0xd6990624, 0xf40e3585, 0x106aa070, 0x19a4c116, 0x1e376c08],
    [0x2748774c, 0x34b0bcb5, 0x391c0cb3, 0x4ed8aa4a, 0x5b9cca4f],
    [0x682e6ff3, 0x748f82ee, 0x78a5636f, 0x84c87814, 0x8cc70208],
    [0x90befffa, 0xa4506ceb, 0xbef9a3f7, 0xc67178f2]]"

definition ROTATE :: "u32 \<Rightarrow> nat \<Rightarrow> u32" where
  "ROTATE a n = push_bit n a OR drop_bit (32 - n) a"

definition Sigma0 :: "u32 \<Rightarrow> u32" where
  "Sigma0 x = ROTATE x 30 XOR ROTATE x 19 XOR ROTATE x 10"

definition Sigma1 :: "u32 \<Rightarrow> u32" where
  "Sigma1 x = ROTATE x 26 XOR ROTATE x 21 XOR ROTATE x 7"

definition sigma0 :: "u32 \<Rightarrow> u32" where
  "sigma0 x = ROTATE x 25 XOR ROTATE x 14 XOR drop_bit 3 x"

definition sigma1 :: "u32 \<Rightarrow> u32" where
  "sigma1 x = ROTATE x 15 XOR ROTATE x 13 XOR drop_bit 10 x"

definition Ch :: "u32 \<Rightarrow> u32 \<Rightarrow> u32 \<Rightarrow> u32" where
  "Ch x y z = (x AND y) XOR (NOT x AND z)"

definition Maj :: "u32 \<Rightarrow> u32 \<Rightarrow> u32 \<Rightarrow> u32" where
  "Maj x y z = (x AND y) XOR (x AND z) XOR (y AND z)"

text \<open>The macro changes the variables it is given as \<open>d\<close> and \<open>h\<close>.  The \<open>i\<close>-th call gets the eight variables rotated by \<open>i\<close>
  places to the right (\<open>a, \<dots>, h\<close>, then \<open>h, a, \<dots>, g\<close>, and so on); \<open>sha256_round\<close> is this call on the list of the
  variables.\<close>

definition ROUND_00_15 :: "nat \<Rightarrow> u32 \<Rightarrow> u32 \<Rightarrow> u32 \<Rightarrow> u32 \<Rightarrow> u32 \<Rightarrow> u32 \<Rightarrow> u32 \<Rightarrow> u32 \<Rightarrow> u32 \<Rightarrow> u32 \<times> u32" where
  "ROUND_00_15 i T1 a b c d e f g h =
     (let T1 = T1 + (h + Sigma1 e + Ch e f g + K256 ! i);
          h = Sigma0 a + Maj a b c;
          d = d + T1;
          h = h + T1 in
      (d, h))"

definition sha256_round :: "nat \<Rightarrow> u32 \<Rightarrow> u32 list \<Rightarrow> u32 list" where
  "sha256_round i T1 r =
     (let v = rotate (7 * i) r in
      case ROUND_00_15 i T1 (v ! 0) (v ! 1) (v ! 2) (v ! 3) (v ! 4) (v ! 5) (v ! 6) (v ! 7) of
        (d, h) \<Rightarrow> rotate i (v[3 := d, 7 := h]))"

definition sha256_load_round :: "u8 list \<Rightarrow> u32 list \<times> u32 list \<Rightarrow> nat \<Rightarrow> u32 list \<times> u32 list" where
  "sha256_load_round data s i =
     (let l = HOST_c2l True (drop (4 * i) data) in
      (sha256_round i l (fst s), (snd s)[i := l]))"

definition ROUND_16_63 :: "u32 list \<times> u32 list \<Rightarrow> nat \<Rightarrow> u32 list \<times> u32 list" where
  "ROUND_16_63 s i =
     (let X = snd s;
          s0 = sigma0 (X ! ((i + 1) AND 0x0f));
          s1 = sigma1 (X ! ((i + 14) AND 0x0f));
          T1 = X ! (i AND 0x0f) + (s0 + s1 + X ! ((i + 9) AND 0x0f)) in
      (sha256_round i T1 (fst s), X[i AND 0x0f := T1]))"

text \<open>One round of the loop of \<open>sha256_block_data_order\<close>; \<open>X\<close> is filled before it is read and starts with zeros here.\<close>

definition sha256_block :: "u32 list \<Rightarrow> u8 list \<Rightarrow> u32 list" where
  "sha256_block state data =
     (let s = foldl (sha256_load_round data) (state, replicate 16 0) [0..<16];
          s = foldl ROUND_16_63 s [16..<64] in
      map2 (+) state (fst s))"

definition SHA256_DIGEST_LENGTH :: nat where
  "SHA256_DIGEST_LENGTH = 32"

definition SHA224_DIGEST_LENGTH :: nat where
  "SHA224_DIGEST_LENGTH = 28"

definition sha256_make_string :: "HASH_CTX \<Rightarrow> u8 list option" where
  "sha256_make_string c =
     (let out = (\<lambda>n. concat (map (\<lambda>nn. HOST_l2c True (hc_h c ! nn)) [0..<n])) in
      if hc_md_len c = SHA224_DIGEST_LENGTH then Some (out (SHA224_DIGEST_LENGTH div 4))
      else if hc_md_len c = SHA256_DIGEST_LENGTH then Some (out (SHA256_DIGEST_LENGTH div 4))
      else if hc_md_len c > SHA256_DIGEST_LENGTH then None
      else Some (out (hc_md_len c div 4)))"

definition sha256_params :: md_params where
  "sha256_params = \<lparr>mp_block = sha256_block, mp_big = True, mp_string = sha256_make_string\<rparr>"

definition zero_ctx :: "nat \<Rightarrow> HASH_CTX" where
  "zero_ctx words = \<lparr>hc_h = replicate words 0, hc_Nl = 0, hc_Nh = 0, hc_data = replicate 64 0, hc_num = 0, hc_md_len = 0\<rparr>"

definition SHA224_Init :: HASH_CTX where
  "SHA224_Init = (zero_ctx 8)\<lparr>
     hc_h := [0xc1059ed8, 0x367cd507, 0x3070dd17, 0xf70e5939, 0xffc00b31, 0x68581511, 0x64f98fa7, 0xbefa4fa4],
     hc_md_len := SHA224_DIGEST_LENGTH\<rparr>"

definition SHA256_Init :: HASH_CTX where
  "SHA256_Init = (zero_ctx 8)\<lparr>
     hc_h := [0x6a09e667, 0xbb67ae85, 0x3c6ef372, 0xa54ff53a, 0x510e527f, 0x9b05688c, 0x1f83d9ab, 0x5be0cd19],
     hc_md_len := SHA256_DIGEST_LENGTH\<rparr>"

definition SHA256_Update :: "HASH_CTX \<Rightarrow> u8 list \<Rightarrow> HASH_CTX" where
  "SHA256_Update = HASH_UPDATE sha256_params"

definition SHA256_Final :: "HASH_CTX \<Rightarrow> u8 list option \<times> HASH_CTX" where
  "SHA256_Final = HASH_FINAL sha256_params"

definition SHA224_Update :: "HASH_CTX \<Rightarrow> u8 list \<Rightarrow> HASH_CTX" where
  "SHA224_Update ctx data = SHA256_Update ctx data"

definition SHA224_Final :: "HASH_CTX \<Rightarrow> u8 list option \<times> HASH_CTX" where
  "SHA224_Final ctx = SHA256_Final ctx"

text \<open>The one-shot functions ignore what \<open>Final\<close> returns; \<open>None\<close> stands for an output that was not written.\<close>

definition SHA256 :: "u8 list \<Rightarrow> u8 list option" where
  "SHA256 data = fst (SHA256_Final (SHA256_Update SHA256_Init data))"

definition SHA224 :: "u8 list \<Rightarrow> u8 list option" where
  "SHA224 data = fst (SHA224_Final (SHA224_Update SHA224_Init data))"

section \<open>FIPS 180-4\<close>

definition fips_Sigma0 :: "u32 \<Rightarrow> u32" where
  "fips_Sigma0 x = word_rotr 2 x XOR word_rotr 13 x XOR word_rotr 22 x"

definition fips_Sigma1 :: "u32 \<Rightarrow> u32" where
  "fips_Sigma1 x = word_rotr 6 x XOR word_rotr 11 x XOR word_rotr 25 x"

definition fips_sigma0 :: "u32 \<Rightarrow> u32" where
  "fips_sigma0 x = word_rotr 7 x XOR word_rotr 18 x XOR drop_bit 3 x"

definition fips_sigma1 :: "u32 \<Rightarrow> u32" where
  "fips_sigma1 x = word_rotr 17 x XOR word_rotr 19 x XOR drop_bit 10 x"

definition fips_Ch :: "u32 \<Rightarrow> u32 \<Rightarrow> u32 \<Rightarrow> u32" where
  "fips_Ch x y z = (x AND y) XOR (NOT x AND z)"

definition fips_Maj :: "u32 \<Rightarrow> u32 \<Rightarrow> u32 \<Rightarrow> u32" where
  "fips_Maj x y z = (x AND y) XOR (x AND z) XOR (y AND z)"

text \<open>Sections 4.2.2, 5.3.3 and 5.3.2: the first 32 bits of the fractional parts of the cube roots of the first 64 primes
  and of the square roots of the first eight; the second 32 bits for the square roots of the ninth to the sixteenth.\<close>

definition fips_K256 :: "nat \<Rightarrow> u32" where
  "fips_K256 t = root_bits 3 32 (first_primes ! t)"

definition fips_H256 :: "u32 list" where
  "fips_H256 = map (root_bits 2 32) (take 8 first_primes)"

definition fips_H224 :: "u32 list" where
  "fips_H224 = map (root_bits 2 64) (take 8 (drop 8 first_primes))"

fun fips_W :: "u8 list \<Rightarrow> nat \<Rightarrow> u32" where
  "fips_W M t =
     (if t < 16 then msg_word M t
      else fips_sigma1 (fips_W M (t - 2)) + fips_W M (t - 7) + fips_sigma0 (fips_W M (t - 15)) + fips_W M (t - 16))"

declare fips_W.simps [simp del]

definition fips_round :: "u8 list \<Rightarrow> u32 list \<Rightarrow> nat \<Rightarrow> u32 list" where
  "fips_round M v t =
     (case v of [a, b, c, d, e, f, g, h] \<Rightarrow>
        let T1 = h + fips_Sigma1 e + fips_Ch e f g + fips_K256 t + fips_W M t;
            T2 = fips_Sigma0 a + fips_Maj a b c in
        [T1 + T2, a, b, c, d + T1, e, f, g]
      | _ \<Rightarrow> v)"

definition fips_block :: "u32 list \<Rightarrow> u8 list \<Rightarrow> u32 list" where
  "fips_block H M = map2 (+) H (foldl (fips_round M) H [0..<64])"

definition fips_digest :: "nat \<Rightarrow> u32 list \<Rightarrow> u8 list \<Rightarrow> u8 list" where
  "fips_digest len H0 msg = take len (concat (map (\<lambda>w. be_enc 4 (unat w)) (foldl fips_block H0 (md_blocks (md_pad True msg)))))"

definition fips_sha256 :: "u8 list \<Rightarrow> u8 list" where
  "fips_sha256 = fips_digest 32 fips_H256"

definition fips_sha224 :: "u8 list \<Rightarrow> u8 list" where
  "fips_sha224 = fips_digest 28 fips_H224"

section \<open>The code computes the standard\<close>

lemma ROTATE_rotr:
  assumes "0 < n" "n < 32"
  shows "ROTATE x n = word_rotr (32 - n) x"
proof (rule bit_word_eqI)
  fix k :: nat assume k: "k < LENGTH(32)"
  have "(k + (32 - n)) mod 32 = (if n \<le> k then k - n else k + (32 - n))"
    using k assms by (auto simp: mod_if)
  then show "bit (ROTATE x n) k = bit (word_rotr (32 - n) x) k"
    using k assms by (auto simp: ROTATE_def bit_word_rotr_iff bit_or_iff bit_push_bit_iff bit_drop_bit_eq add.commute dest: bit_imp_le_length)
qed

lemma fips_functions:
  "Sigma0 = fips_Sigma0" "Sigma1 = fips_Sigma1" "sigma0 = fips_sigma0" "sigma1 = fips_sigma1"
  by (simp_all add: fun_eq_iff Sigma0_def Sigma1_def sigma0_def sigma1_def fips_Sigma0_def fips_Sigma1_def fips_sigma0_def
      fips_sigma1_def ROTATE_rotr)

lemma fips_choices: "Ch = fips_Ch" "Maj = fips_Maj"
  by (simp_all add: fun_eq_iff Ch_def Maj_def fips_Ch_def fips_Maj_def)

text \<open>The tables of the code hold the constants of the standard; the integer parts of the cube roots are 1 to 6.\<close>

lemma K256_roots: "map (root_bits 3 32) first_primes = K256"
proof (rule fraction_table_bits)
  show "fraction_table 3 first_primes
    (concat [[1, 1, 1, 1, 2, 2, 2, 2, 2], [3, 3, 3, 3, 3, 3, 3, 3, 3], [4, 4, 4, 4, 4, 4, 4, 4, 4, 4, 4, 4], [5, 5, 5, 5, 5, 5, 5, 5, 5, 5, 5, 5, 5, 5, 5, 5, 5], [6, 6, 6, 6, 6, 6, 6, 6, 6, 6, 6, 6, 6, 6, 6, 6, 6]]) K256"
    by (simp add: first_primes_def K256_def root_fraction_def root_floor_def)
qed simp

lemma K256_fips: "t < 64 \<Longrightarrow> K256 ! t = fips_K256 t"
proof -
  assume "t < 64"
  moreover have "length first_primes = 64" by (simp add: first_primes_def)
  ultimately show ?thesis unfolding K256_roots [symmetric] by (simp add: fips_K256_def)
qed

lemma SHA256_Init_fips: "hc_h SHA256_Init = fips_H256"
proof -
  have "fraction_table 2 (take 8 first_primes) [1, 1, 2, 2, 3, 3, 4, 4] (hc_h SHA256_Init)"
    by (simp add: first_primes_def SHA256_Init_def root_fraction_def root_floor_def)
  then show ?thesis unfolding fips_H256_def by (simp add: fraction_table_bits)
qed

lemma SHA224_Init_fips: "hc_h SHA224_Init = fips_H224"
proof -
  define ms :: "nat list" where "ms = [88467476731178360536, 99338756991957652743, 102707124263845944599, 112207163657561200953,
    118116794080090393393, 120963390236882638097, 126464505871347584935, 134294323956039700388]"
  have "list_all2 (\<lambda>p m. root_floor 2 64 p m) (take 8 (drop 8 first_primes)) ms"
    by (simp add: first_primes_def ms_def root_floor_def)
  then have "fips_H224 = map word_of_nat ms"
    unfolding fips_H224_def by (induction rule: list_all2_induct) (auto intro: root_floor_bits)
  also have "\<dots> = hc_h SHA224_Init" by (simp add: ms_def SHA224_Init_def)
  finally show ?thesis ..
qed

lemma and_0f: "n AND 0x0f = n mod 16" for n :: nat
  using take_bit_eq_mask [of 4 n] by (simp add: take_bit_eq_mod mask_eq_exp_minus_1)

text \<open>The variables in the order in which round \<open>i\<close> names them.\<close>

lemma sha256_round_view:
  assumes "length r = 8" "T1 = fips_W M i" "i < 64"
  shows "rotate (7 * Suc i) (sha256_round i T1 r) = fips_round M (rotate (7 * i) r) i \<and> length (sha256_round i T1 r) = 8"
proof -
  have "length (rotate (7 * i) r) = Suc (Suc (Suc (Suc (Suc (Suc (Suc (Suc 0)))))))" using assms(1) by simp
  then obtain a b c d e f g h where v: "rotate (7 * i) r = [a, b, c, d, e, f, g, h]"
    unfolding length_Suc_conv length_0_conv by blast
  obtain d' h' where R: "ROUND_00_15 i T1 a b c d e f g h = (d', h')" by fastforce
  have s: "sha256_round i T1 r = rotate i [a, b, c, d', e, f, g, h']"
    unfolding sha256_round_def Let_def v by (simp add: R)
  have "rotate (7 * Suc i) (rotate i [a, b, c, d', e, f, g, h']) = rotate (7 + 8 * i) [a, b, c, d', e, f, g, h']"
    by (simp only: rotate_rotate) (simp add: add.commute)
  also have "\<dots> = rotate 7 [a, b, c, d', e, f, g, h']" by (subst (1 2) rotate_conv_mod) simp
  also have "\<dots> = [h', a, b, c, d', e, f, g]" by (simp add: rotate_drop_take)
  also have "\<dots> = fips_round M (rotate (7 * i) r) i"
    using R unfolding v by (auto simp: ROUND_00_15_def Let_def fips_round_def fips_functions fips_choices K256_fips assms(2,3) algebra_simps)
  finally show ?thesis unfolding s by simp
qed

text \<open>The buffer holds the last sixteen words of the schedule.\<close>

definition sched_ok :: "(nat \<Rightarrow> u32) \<Rightarrow> nat \<Rightarrow> u32 list \<Rightarrow> bool" where
  "sched_ok W i X \<longleftrightarrow> length X = 16 \<and> (\<forall>j < i. i \<le> j + 16 \<longrightarrow> X ! (j mod 16) = W j)"

definition sha256_inv :: "u32 list \<Rightarrow> u8 list \<Rightarrow> nat \<Rightarrow> u32 list \<times> u32 list \<Rightarrow> bool" where
  "sha256_inv H M i s \<longleftrightarrow> length (fst s) = 8 \<and> rotate (7 * i) (fst s) = foldl (fips_round M) H [0..<i] \<and> sched_ok (fips_W M) i (snd s)"

lemma sched_ok_step:
  assumes "sched_ok W i X" "w = W i"
  shows "sched_ok W (Suc i) (X[i mod 16 := w])"
proof -
  have "X[i mod 16 := w] ! (j mod 16) = W j" if j: "j < Suc i" "Suc i \<le> j + 16" for j
  proof (cases "j = i")
    case False
    have "j mod 16 \<noteq> i mod 16"
    proof
      assume "j mod 16 = i mod 16"
      then have "16 dvd i - j" using j by (metis less_Suc_eq_le mod_eq_dvd_iff_nat)
      then show False using j False by (auto dest: dvd_imp_le)
    qed
    then show ?thesis using assms(1) j False by (simp add: sched_ok_def)
  qed (use assms in \<open>simp add: sched_ok_def\<close>)
  then show ?thesis using assms(1) by (simp add: sched_ok_def)
qed

lemma sha256_load_step:
  assumes "sha256_inv H M i s" "i < 16" "length M = 64"
  shows "sha256_inv H M (Suc i) (sha256_load_round M s i)"
proof -
  have w: "HOST_c2l True (drop (4 * i) M) = fips_W M i"
    using HOST_c2l_msg_word [of i M] assms(2,3) by (simp add: fips_W.simps)
  have i: "i mod 16 = i" using assms(2) by simp
  show ?thesis
    using assms(1,2) sha256_round_view [of "fst s" "fips_W M i" M i] sched_ok_step [of "fips_W M" i "snd s", OF _ refl]
    by (simp add: sha256_inv_def sha256_load_round_def Let_def w i)
qed

lemma ROUND_16_63_step:
  assumes "sha256_inv H M i s" "16 \<le> i" "i < 64"
  shows "sha256_inv H M (Suc i) (ROUND_16_63 s i)"
proof -
  let ?X = "snd s"
  have X: "?X ! (j mod 16) = fips_W M j" if "j < i" "i \<le> j + 16" for j
    using assms(1) that by (simp add: sha256_inv_def sched_ok_def)
  have k: "(i + 1) mod 16 = (i - 15) mod 16" "(i + 14) mod 16 = (i - 2) mod 16" "(i + 9) mod 16 = (i - 7) mod 16" "i mod 16 = (i - 16) mod 16"
    using assms(2) mod_add_self2 [of "i - 15" 16] mod_add_self2 [of "i - 2" 16] mod_add_self2 [of "i - 7" 16] mod_add_self2 [of "i - 16" 16]
    by (simp_all add: add.commute)
  have w: "?X ! (i mod 16) + (sigma0 (?X ! ((i + 1) mod 16)) + sigma1 (?X ! ((i + 14) mod 16)) + ?X ! ((i + 9) mod 16)) = fips_W M i"
    unfolding k using assms(2) X [of "i - 15"] X [of "i - 2"] X [of "i - 7"] X [of "i - 16"]
    by (simp add: fips_W.simps [of M i] fips_functions algebra_simps)
  show ?thesis
    using assms(1,3) sha256_round_view [of "fst s" "fips_W M i" M i] sched_ok_step [of "fips_W M" i ?X, OF _ refl]
    unfolding ROUND_16_63_def Let_def and_0f w by (simp add: sha256_inv_def)
qed

lemma sha256_block_fips:
  assumes "length H = 8" "length M = 64"
  shows "sha256_block H M = fips_block H M"
proof -
  have 0: "sha256_inv H M 0 (H, replicate 16 0)" using assms(1) by (simp add: sha256_inv_def sched_ok_def)
  have 1: "n \<le> 16 \<Longrightarrow> sha256_inv H M n (foldl (sha256_load_round M) (H, replicate 16 0) [0..<n])" for n
    by (induction n) (simp_all add: 0 sha256_load_step assms(2))
  define s where "s = foldl (sha256_load_round M) (H, replicate 16 0) [0..<16]"
  have 2: "n \<le> 48 \<Longrightarrow> sha256_inv H M (16 + n) (foldl ROUND_16_63 s [16..<16 + n])" for n
  proof (induction n)
    case (Suc n)
    have "sha256_inv H M (Suc (16 + n)) (ROUND_16_63 (foldl ROUND_16_63 s [16..<16 + n]) (16 + n))"
      using Suc by (intro ROUND_16_63_step) simp_all
    then show ?case by (simp only: add_Suc_right upt_Suc foldl_append foldl.simps le_add1 if_True)
  qed (use 1 [of 16] in \<open>simp add: s_def\<close>)
  have r: "rotate (7 * 64) xs = xs" if "length xs = 8" for xs :: "u32 list" using that by (subst rotate_conv_mod) simp
  have e: "(16 :: nat) + 48 = 64" by simp
  have "fst (foldl ROUND_16_63 s [16..<64]) = foldl (fips_round M) H [0..<64]"
    using 2 [of 48, OF order_refl] r unfolding e sha256_inv_def by metis
  then show ?thesis by (simp add: sha256_block_def fips_block_def s_def Let_def)
qed

lemma length_fips_round: "length (fips_round M v t) = length v"
  by (auto simp: fips_round_def Let_def split: list.split)

lemma length_fips_block: "length H = 8 \<Longrightarrow> length (fips_block H M) = 8"
proof -
  have "length (foldl (fips_round M) v ts) = length v" for v ts by (induction ts arbitrary: v) (simp_all add: length_fips_round)
  then show "length H = 8 \<Longrightarrow> length (fips_block H M) = 8" by (simp add: fips_block_def)
qed

lemma msg_string:
  assumes "length h = 8" "n \<le> 8"
  shows "concat (map (\<lambda>nn. HOST_l2c True (h ! nn)) [0..<n]) = take (4 * n) (concat (map (\<lambda>w. be_enc 4 (unat w)) h))"
proof -
  have c: "take (4 * n) (concat (map (\<lambda>w. be_enc 4 (unat w)) h)) = concat (map (\<lambda>w. be_enc 4 (unat w)) (take n h))" for h :: "u32 list"
  proof (induction h arbitrary: n)
    case (Cons w h)
    then show ?case by (cases n) (simp_all del: be_enc.simps)
  qed simp
  have "map (\<lambda>nn. be_enc 4 (unat (h ! nn))) [0..<n] = map (\<lambda>w. be_enc 4 (unat w)) (take n h)"
    using assms by (simp add: list_eq_iff_nth_eq)
  then show ?thesis unfolding c HOST_l2c_be by simp
qed

lemma sha256_digest:
  assumes "length (hc_h c) = 8" "hc_Nl c = 0" "hc_Nh c = 0" "hc_data c = replicate 64 0" "hc_num c = 0"
    "hc_md_len c = 4 * n" "n = 7 \<or> n = 8"
  shows "fst (SHA256_Final (foldl SHA256_Update c chunks)) = Some (fips_digest (4 * n) (hc_h c) (concat chunks))"
proof -
  have "hash_rep sha256_params (hc_h c) c []" using assms(2-5) by (simp add: hash_rep_def count_ok_def)
  from HASH_chunks [OF this, of chunks] obtain c' where c': "fst (SHA256_Final (foldl SHA256_Update c chunks)) = sha256_make_string c'"
    "hc_md_len c' = 4 * n" "hc_h c' = foldl sha256_block (hc_h c) (md_blocks (md_pad True (concat chunks)))"
    by (auto simp: SHA256_Final_def SHA256_Update_def sha256_params_def assms(6))
  have h: "hc_h c' = foldl fips_block (hc_h c) (md_blocks (md_pad True (concat chunks)))" "length (hc_h c') = 8"
    using foldl_block_cong [of 8 sha256_block fips_block, OF sha256_block_fips length_fips_block assms(1)] md_blocks_length c'(3)
    by auto
  show ?thesis using assms(7) msg_string [OF h(2), of n]
    by (auto simp: c'(1,2) sha256_make_string_def SHA256_DIGEST_LENGTH_def SHA224_DIGEST_LENGTH_def fips_digest_def h(1) [symmetric] Let_def
        simp del: upt_Suc)
qed

text \<open>C17. SHA-224 and SHA-256 are the functions of FIPS 180-4: for every message, split over the calls of the update
  functions in any way, the final functions return the digest the standard defines, with the constants and the initial
  values taken from the roots of primes as in the standard.\<close>

theorem SHA256_is_FIPS:
  "fst (SHA256_Final (foldl SHA256_Update SHA256_Init chunks)) = Some (fips_sha256 (concat chunks))
   \<and> fst (SHA224_Final (foldl SHA224_Update SHA224_Init chunks)) = Some (fips_sha224 (concat chunks))"
proof -
  have "fst (SHA256_Final (foldl SHA256_Update SHA256_Init chunks)) = Some (fips_digest (4 * 8) (hc_h SHA256_Init) (concat chunks))"
    by (rule sha256_digest) (simp_all add: SHA256_Init_def zero_ctx_def SHA256_DIGEST_LENGTH_def)
  moreover have "fst (SHA256_Final (foldl SHA256_Update SHA224_Init chunks)) = Some (fips_digest (4 * 7) (hc_h SHA224_Init) (concat chunks))"
    by (rule sha256_digest) (simp_all add: SHA224_Init_def zero_ctx_def SHA224_DIGEST_LENGTH_def)
  moreover have "SHA224_Update = SHA256_Update" "SHA224_Final = SHA256_Final" by (simp_all add: fun_eq_iff SHA224_Update_def SHA224_Final_def)
  ultimately show ?thesis by (simp add: SHA256_Init_fips SHA224_Init_fips fips_sha256_def fips_sha224_def)
qed

end
