(* ===== verification/Sha1.thy ===== *)
theory Sha1
  imports Sha256
begin

text \<open>
  \<open>crypto/fipsmodule/sha/sha1.c\<close>: SHA-1 over the collector of \<open>Md32\<close>.  The eighty steps are unrolled in the code, with the
  six variables \<open>A, \<dots>, E, T\<close> renamed from step to step and the schedule in sixteen variables that are overwritten.
\<close>

unbundle bit_operations_syntax

section \<open>The code\<close>

definition K_00_19 :: u32 where "K_00_19 = 0x5a827999"

definition K_20_39 :: u32 where "K_20_39 = 0x6ed9eba1"

definition K_40_59 :: u32 where "K_40_59 = 0x8f1bbcdc"

definition K_60_79 :: u32 where "K_60_79 = 0xca62c1d6"

definition F_00_19 :: "u32 \<Rightarrow> u32 \<Rightarrow> u32 \<Rightarrow> u32" where
  "F_00_19 b c d = ((c XOR d) AND b) XOR d"

definition F_20_39 :: "u32 \<Rightarrow> u32 \<Rightarrow> u32 \<Rightarrow> u32" where
  "F_20_39 b c d = b XOR c XOR d"

definition F_40_59 :: "u32 \<Rightarrow> u32 \<Rightarrow> u32 \<Rightarrow> u32" where
  "F_40_59 b c d = (b AND c) OR ((b OR c) AND d)"

definition F_60_79 :: "u32 \<Rightarrow> u32 \<Rightarrow> u32 \<Rightarrow> u32" where
  "F_60_79 b c d = F_20_39 b c d"

text \<open>The value \<open>Xupdate\<close> stores in both of its first two arguments.\<close>

definition Xupdate :: "u32 \<Rightarrow> u32 \<Rightarrow> u32 \<Rightarrow> u32 \<Rightarrow> u32" where
  "Xupdate ia ib ic i_d = (let a = ia XOR ib XOR ic XOR i_d in ROTATE a 1)"

text \<open>The bodies return the new values of \<open>b\<close> and \<open>f\<close>; \<open>x\<close> is the updated schedule variable.\<close>

definition BODY_00_15 :: "u32 \<Rightarrow> u32 \<Rightarrow> u32 \<Rightarrow> u32 \<Rightarrow> u32 \<Rightarrow> u32 \<Rightarrow> u32 \<times> u32" where
  "BODY_00_15 a b c d e xi = (ROTATE b 30, xi + e + K_00_19 + ROTATE a 5 + F_00_19 b c d)"

definition BODY_16_19 :: "u32 \<Rightarrow> u32 \<Rightarrow> u32 \<Rightarrow> u32 \<Rightarrow> u32 \<Rightarrow> u32 \<Rightarrow> u32 \<times> u32" where
  "BODY_16_19 a b c d e x = (ROTATE b 30, x + (e + K_00_19 + ROTATE a 5 + F_00_19 b c d))"

definition BODY_20_31 :: "u32 \<Rightarrow> u32 \<Rightarrow> u32 \<Rightarrow> u32 \<Rightarrow> u32 \<Rightarrow> u32 \<Rightarrow> u32 \<times> u32" where
  "BODY_20_31 a b c d e x = (ROTATE b 30, x + (e + K_20_39 + ROTATE a 5 + F_20_39 b c d))"

definition BODY_32_39 :: "u32 \<Rightarrow> u32 \<Rightarrow> u32 \<Rightarrow> u32 \<Rightarrow> u32 \<Rightarrow> u32 \<Rightarrow> u32 \<times> u32" where
  "BODY_32_39 a b c d e x = (ROTATE b 30, x + (e + K_20_39 + ROTATE a 5 + F_20_39 b c d))"

definition BODY_40_59 :: "u32 \<Rightarrow> u32 \<Rightarrow> u32 \<Rightarrow> u32 \<Rightarrow> u32 \<Rightarrow> u32 \<Rightarrow> u32 \<times> u32" where
  "BODY_40_59 a b c d e x = (ROTATE b 30, x + (e + K_40_59 + ROTATE a 5 + F_40_59 b c d))"

definition BODY_60_79 :: "u32 \<Rightarrow> u32 \<Rightarrow> u32 \<Rightarrow> u32 \<Rightarrow> u32 \<Rightarrow> u32 \<Rightarrow> u32 \<times> u32" where
  "BODY_60_79 a b c d e x = (ROTATE b 30, x + e + K_60_79 + ROTATE a 5 + F_60_79 b c d)"

text \<open>The call of the body with number \<open>i\<close>: its arguments \<open>a, \<dots>, f\<close> are \<open>A, B, C, D, E, T\<close> rotated by \<open>i\<close> places to the
  right.\<close>

definition sha1_call :: "(u32 \<Rightarrow> u32 \<Rightarrow> u32 \<Rightarrow> u32 \<Rightarrow> u32 \<Rightarrow> u32 \<Rightarrow> u32 \<times> u32) \<Rightarrow> nat \<Rightarrow> u32 \<Rightarrow> u32 list \<Rightarrow> u32 list" where
  "sha1_call body i x r =
     (let v = rotate (5 * i) r in
      case body (v ! 0) (v ! 1) (v ! 2) (v ! 3) (v ! 4) x of (b, f) \<Rightarrow> rotate i (v[1 := b, 5 := f]))"

definition sha1_load :: "u8 list \<Rightarrow> nat \<Rightarrow> u32 list \<Rightarrow> u32 list" where
  "sha1_load data i X = X[i := HOST_c2l True (drop (4 * i) data)]"

text \<open>Steps 0 to 14 read the word of the next step first.\<close>

definition sha1_first_steps :: "u8 list \<Rightarrow> u32 list \<times> u32 list \<Rightarrow> nat \<Rightarrow> u32 list \<times> u32 list" where
  "sha1_first_steps data s i =
     (let X = (if i < 15 then sha1_load data (i + 1) (snd s) else snd s) in
      (sha1_call BODY_00_15 i (X ! i) (fst s), X))"

definition sha1_body :: "nat \<Rightarrow> u32 \<Rightarrow> u32 \<Rightarrow> u32 \<Rightarrow> u32 \<Rightarrow> u32 \<Rightarrow> u32 \<Rightarrow> u32 \<times> u32" where
  "sha1_body i =
     (if i < 20 then BODY_16_19 else if i < 32 then BODY_20_31 else if i < 40 then BODY_32_39
      else if i < 60 then BODY_40_59 else BODY_60_79)"

definition sha1_step :: "u32 list \<times> u32 list \<Rightarrow> nat \<Rightarrow> u32 list \<times> u32 list" where
  "sha1_step s i =
     (let X = snd s;
          x = Xupdate (X ! (i mod 16)) (X ! ((i + 2) mod 16)) (X ! ((i + 8) mod 16)) (X ! ((i + 13) mod 16)) in
      (sha1_call (sha1_body i) i x (fst s), X[i mod 16 := x]))"

text \<open>One round of the loop of \<open>sha1_block_data_order\<close>; \<open>T\<close> and the schedule are set before they are read.\<close>

definition sha1_block :: "u32 list \<Rightarrow> u8 list \<Rightarrow> u32 list" where
  "sha1_block state data =
     (let s = foldl (sha1_first_steps data) (state @ [0], sha1_load data 0 (replicate 16 0)) [0..<16];
          r = fst (foldl sha1_step s [16..<80]) in
      map2 (\<lambda>x y. (x + y) AND 0xffffffff) state [r ! 4, r ! 5, r ! 0, r ! 1, r ! 2])"

definition sha1_make_string :: "HASH_CTX \<Rightarrow> u8 list option" where
  "sha1_make_string c =
     Some (HOST_l2c True (hc_h c ! 0) @ HOST_l2c True (hc_h c ! 1) @ HOST_l2c True (hc_h c ! 2)
       @ HOST_l2c True (hc_h c ! 3) @ HOST_l2c True (hc_h c ! 4))"

definition sha1_params :: md_params where
  "sha1_params = \<lparr>mp_block = sha1_block, mp_big = True, mp_string = sha1_make_string\<rparr>"

definition SHA1_Init :: HASH_CTX where
  "SHA1_Init = (zero_ctx 5)\<lparr>hc_h := [0x67452301, 0xefcdab89, 0x98badcfe, 0x10325476, 0xc3d2e1f0]\<rparr>"

definition SHA1_Update :: "HASH_CTX \<Rightarrow> u8 list \<Rightarrow> HASH_CTX" where
  "SHA1_Update = HASH_UPDATE sha1_params"

definition SHA1_Final :: "HASH_CTX \<Rightarrow> u8 list option \<times> HASH_CTX" where
  "SHA1_Final = HASH_FINAL sha1_params"

definition SHA1 :: "u8 list \<Rightarrow> u8 list option" where
  "SHA1 data = fst (SHA1_Final (SHA1_Update SHA1_Init data))"

section \<open>FIPS 180-4\<close>

fun fips1_W :: "u8 list \<Rightarrow> nat \<Rightarrow> u32" where
  "fips1_W M t =
     (if t < 16 then msg_word M t
      else word_rotl 1 (fips1_W M (t - 3) XOR fips1_W M (t - 8) XOR fips1_W M (t - 14) XOR fips1_W M (t - 16)))"

declare fips1_W.simps [simp del]

definition fips1_f :: "nat \<Rightarrow> u32 \<Rightarrow> u32 \<Rightarrow> u32 \<Rightarrow> u32" where
  "fips1_f t x y z = (if t < 20 then fips_Ch x y z else if 40 \<le> t \<and> t < 60 then fips_Maj x y z else x XOR y XOR z)"

definition fips1_K :: "nat \<Rightarrow> u32" where
  "fips1_K t = (if t < 20 then 0x5a827999 else if t < 40 then 0x6ed9eba1 else if t < 60 then 0x8f1bbcdc else 0xca62c1d6)"

definition fips1_round :: "u8 list \<Rightarrow> u32 list \<Rightarrow> nat \<Rightarrow> u32 list" where
  "fips1_round M v t =
     (case v of [a, b, c, d, e] \<Rightarrow>
        [word_rotl 5 a + fips1_f t b c d + e + fips1_K t + fips1_W M t, a, word_rotl 30 b, c, d]
      | _ \<Rightarrow> v)"

definition fips1_block :: "u32 list \<Rightarrow> u8 list \<Rightarrow> u32 list" where
  "fips1_block H M = map2 (+) H (foldl (fips1_round M) H [0..<80])"

text \<open>The initial value of section 5.3.1.\<close>

definition fips_H1 :: "u32 list" where
  "fips_H1 = [0x67452301, 0xefcdab89, 0x98badcfe, 0x10325476, 0xc3d2e1f0]"

definition fips_sha1 :: "u8 list \<Rightarrow> u8 list" where
  "fips_sha1 msg = concat (map (\<lambda>w. be_enc 4 (unat w)) (foldl fips1_block fips_H1 (md_blocks (md_pad True msg))))"

section \<open>The code computes the standard\<close>

lemma ROTATE_rotl: "0 < n \<Longrightarrow> n < 32 \<Longrightarrow> ROTATE x n = word_rotl n x"
proof -
  assume n: "0 < n" "n < 32"
  have "word_rotr (32 - n) x = word_rotl n x"
    using n by (intro bit_word_eqI) (simp only: bit_word_rotl_iff bit_word_rotr_iff len_num0 len_bit0 len_num1 mult_numeral_1_right mod_less, simp)
  then show ?thesis using n by (simp add: ROTATE_rotr)
qed

lemma F_forms: "F_00_19 b c d = fips_Ch b c d" "F_40_59 b c d = fips_Maj b c d"
  by (rule bit_word_eqI; auto simp: F_00_19_def F_40_59_def fips_Ch_def fips_Maj_def bit_simps)+

lemma sha1_call_view:
  assumes "length r = 6" "take 5 (rotate (5 * i) r) = v"
    "\<And>a b c d e. v = [a, b, c, d, e] \<Longrightarrow> body a b c d e x = (word_rotl 30 b, word_rotl 5 a + fips1_f i b c d + e + fips1_K i + fips1_W M i)"
  shows "take 5 (rotate (5 * Suc i) (sha1_call body i x r)) = fips1_round M v i \<and> length (sha1_call body i x r) = 6"
proof -
  have "length (rotate (5 * i) r) = Suc (Suc (Suc (Suc (Suc (Suc 0)))))" using assms(1) by simp
  then obtain a b c d e f where w: "rotate (5 * i) r = [a, b, c, d, e, f]"
    unfolding length_Suc_conv length_0_conv by blast
  obtain b' f' where R: "body a b c d e x = (b', f')" by fastforce
  have s: "sha1_call body i x r = rotate i [a, b', c, d, e, f']"
    unfolding sha1_call_def Let_def w by (simp add: R)
  have "rotate (5 * Suc i) (rotate i [a, b', c, d, e, f']) = rotate (5 + 6 * i) [a, b', c, d, e, f']"
    by (simp only: rotate_rotate) (simp add: add.commute)
  also have "\<dots> = rotate 5 [a, b', c, d, e, f']" by (subst (1 2) rotate_conv_mod) simp
  also have "\<dots> = [f', a, b', c, d, e]" by (simp add: rotate_drop_take)
  finally have "take 5 (rotate (5 * Suc i) (sha1_call body i x r)) = [f', a, b', c, d]" unfolding s by simp
  moreover have "v = [a, b, c, d, e]" using assms(2) w by simp
  ultimately show ?thesis using assms(3) [of a b c d e] R unfolding s by (simp add: fips1_round_def)
qed

definition sha1_inv :: "u32 list \<Rightarrow> u8 list \<Rightarrow> nat \<Rightarrow> nat \<Rightarrow> u32 list \<times> u32 list \<Rightarrow> bool" where
  "sha1_inv H M k i s \<longleftrightarrow> length (fst s) = 6 \<and> take 5 (rotate (5 * i) (fst s)) = foldl (fips1_round M) H [0..<i]
     \<and> sched_ok (fips1_W M) k (snd s)"

lemma sha1_load_ok:
  assumes "sched_ok (fips1_W M) i X" "i < 16" "length M = 64"
  shows "sched_ok (fips1_W M) (Suc i) (sha1_load M i X)"
proof -
  have "HOST_c2l True (drop (4 * i) M) = fips1_W M i"
    using HOST_c2l_msg_word [of i M] assms(2,3) by (simp add: fips1_W.simps)
  then show ?thesis using sched_ok_step [OF assms(1), of "fips1_W M i"] assms(2) by (simp add: sha1_load_def)
qed

lemma sha1_first_step:
  assumes "sha1_inv H M (min 16 (Suc i)) i s" "i < 16" "length M = 64"
  shows "sha1_inv H M (min 16 (Suc (Suc i))) (Suc i) (sha1_first_steps M s i)"
proof -
  define X where "X = (if i < 15 then sha1_load M (i + 1) (snd s) else snd s)"
  have X: "sched_ok (fips1_W M) (min 16 (Suc (Suc i))) X"
  proof (cases "i < 15")
    case True
    then have "min 16 (Suc i) = Suc i" "min 16 (Suc (Suc i)) = Suc (Suc i)" by simp_all
    then show ?thesis using assms sha1_load_ok [of M "Suc i" "snd s"] True by (simp add: X_def sha1_inv_def)
  next
    case False
    then have "min 16 (Suc i) = 16" "min 16 (Suc (Suc i)) = 16" using assms(2) by simp_all
    then show ?thesis using assms False by (simp add: X_def sha1_inv_def)
  qed
  then have x: "X ! i = fips1_W M i" using assms(2) by (auto simp: sched_ok_def dest: spec [of _ i])
  have b: "BODY_00_15 a b c d e (X ! i) = (word_rotl 30 b, word_rotl 5 a + fips1_f i b c d + e + fips1_K i + fips1_W M i)" for a b c d e
    using assms(2) by (simp add: BODY_00_15_def x ROTATE_rotl F_forms fips1_f_def fips1_K_def K_00_19_def algebra_simps)
  show ?thesis
    using sha1_call_view [of "fst s" i _ BODY_00_15 "X ! i" M, OF _ refl b] assms(1) X
    unfolding sha1_first_steps_def Let_def X_def [symmetric] by (simp add: sha1_inv_def)
qed

lemma sha1_step_inv:
  assumes "sha1_inv H M i i s" "16 \<le> i"
  shows "sha1_inv H M (Suc i) (Suc i) (sha1_step s i)"
proof -
  let ?X = "snd s"
  have X: "?X ! (j mod 16) = fips1_W M j" if "j < i" "i \<le> j + 16" for j
    using assms(1) that by (simp add: sha1_inv_def sched_ok_def)
  have k: "(i + 13) mod 16 = (i - 3) mod 16" "(i + 8) mod 16 = (i - 8) mod 16" "(i + 2) mod 16 = (i - 14) mod 16" "i mod 16 = (i - 16) mod 16"
    using assms(2) mod_add_self2 [of "i - 3" 16] mod_add_self2 [of "i - 8" 16] mod_add_self2 [of "i - 14" 16] mod_add_self2 [of "i - 16" 16]
    by (simp_all add: add.commute)
  have w: "Xupdate (?X ! (i mod 16)) (?X ! ((i + 2) mod 16)) (?X ! ((i + 8) mod 16)) (?X ! ((i + 13) mod 16)) = fips1_W M i"
    unfolding k using assms(2) X [of "i - 3"] X [of "i - 8"] X [of "i - 14"] X [of "i - 16"]
    by (simp add: fips1_W.simps [of M i] Xupdate_def ROTATE_rotl ac_simps)
  have b: "sha1_body i a b c d e (fips1_W M i) = (word_rotl 30 b, word_rotl 5 a + fips1_f i b c d + e + fips1_K i + fips1_W M i)" for a b c d e
    by (simp add: sha1_body_def BODY_16_19_def BODY_20_31_def BODY_32_39_def BODY_40_59_def BODY_60_79_def ROTATE_rotl F_forms
        F_20_39_def F_60_79_def fips1_f_def fips1_K_def K_00_19_def K_20_39_def K_40_59_def K_60_79_def algebra_simps)
  show ?thesis
    using assms(1) sha1_call_view [of "fst s" i _ "sha1_body i" "fips1_W M i" M, OF _ refl b] sched_ok_step [of "fips1_W M" i ?X, OF _ refl]
    unfolding sha1_step_def Let_def w by (simp add: sha1_inv_def)
qed

lemma sha1_block_fips:
  assumes "length H = 5" "length M = 64"
  shows "sha1_block H M = fips1_block H M"
proof -
  define s0 where "s0 = (H @ [0 :: u32], sha1_load M 0 (replicate 16 0))"
  have 0: "sha1_inv H M (min 16 (Suc 0)) 0 s0"
    using assms sha1_load_ok [of M 0 "replicate 16 0"] by (simp add: sha1_inv_def s0_def sched_ok_def)
  have 1: "n \<le> 16 \<Longrightarrow> sha1_inv H M (min 16 (Suc n)) n (foldl (sha1_first_steps M) s0 [0..<n])" for n
  proof (induction n)
    case (Suc n)
    then show ?case using sha1_first_step [of H M n] assms(2) by simp
  qed (use 0 in simp)
  define s where "s = foldl (sha1_first_steps M) s0 [0..<16]"
  have 2: "sha1_inv H M (16 + n) (16 + n) (foldl sha1_step s [16..<16 + n])" for n
  proof (induction n)
    case (Suc n)
    show ?case using sha1_step_inv [OF Suc.IH]
      by (simp only: add_Suc_right upt_Suc foldl_append foldl.simps le_add1 if_True)
  qed (use 1 [of 16] in \<open>simp add: s_def\<close>)
  define r where "r = fst (foldl sha1_step s [16..<80])"
  have e: "(16 :: nat) + 64 = 80" by simp
  have r: "length r = Suc (Suc (Suc (Suc (Suc (Suc 0)))))" "take 5 (rotate (5 * 80) r) = foldl (fips1_round M) H [0..<80]"
    using 2 [of 64] unfolding e sha1_inv_def r_def by simp_all
  from r(1) obtain a b c d e f where l: "r = [a, b, c, d, e, f]" unfolding length_Suc_conv length_0_conv by blast
  have v: "rotate (5 * 80) r = [e, f, a, b, c, d]" unfolding l by (subst rotate_conv_mod) (simp add: rotate_drop_take)
  have m: "x AND 0xffffffff = x" for x :: u32
  proof -
    have "take_bit 32 x = x" by (rule bit_word_eqI) (simp add: bit_take_bit_iff)
    then show ?thesis by (simp add: take_bit_eq_mask mask_eq_exp_minus_1)
  qed
  have "sha1_block H M = map2 (+) H [r ! 4, r ! 5, r ! 0, r ! 1, r ! 2]"
    unfolding sha1_block_def Let_def s0_def [symmetric] s_def [symmetric] r_def [symmetric] m ..
  also have "[r ! 4, r ! 5, r ! 0, r ! 1, r ! 2] = foldl (fips1_round M) H [0..<80]"
    unfolding r(2) [symmetric] v by (simp add: l)
  finally show ?thesis by (simp only: fips1_block_def)
qed

lemma length_fips1_block: "length H = 5 \<Longrightarrow> length (fips1_block H M) = 5"
proof -
  have r: "length (fips1_round M v t) = length v" for v t by (auto simp: fips1_round_def split: list.split)
  have "length (foldl (fips1_round M) v ts) = length v" for v ts by (induction ts arbitrary: v) (simp_all add: r)
  then show "length H = 5 \<Longrightarrow> length (fips1_block H M) = 5" by (simp add: fips1_block_def)
qed

text \<open>C18. SHA-1 is the function of FIPS 180-4: for every message, split over the calls of \<open>SHA1_Update\<close> in any way,
  \<open>SHA1_Final\<close> returns the digest the standard defines.\<close>

theorem SHA1_is_FIPS:
  "fst (SHA1_Final (foldl SHA1_Update SHA1_Init chunks)) = Some (fips_sha1 (concat chunks))"
proof -
  have i: "hc_h SHA1_Init = fips_H1" by (simp add: SHA1_Init_def fips_H1_def)
  have l: "length (hc_h SHA1_Init) = 5" by (simp add: SHA1_Init_def)
  have "hash_rep sha1_params (hc_h SHA1_Init) SHA1_Init []" by (simp add: hash_rep_def count_ok_def SHA1_Init_def zero_ctx_def)
  from HASH_chunks [OF this, of chunks] obtain c' where c': "fst (SHA1_Final (foldl SHA1_Update SHA1_Init chunks)) = sha1_make_string c'"
    "hc_h c' = foldl sha1_block (hc_h SHA1_Init) (md_blocks (md_pad True (concat chunks)))"
    by (auto simp: SHA1_Final_def SHA1_Update_def sha1_params_def)
  have h: "hc_h c' = foldl fips1_block (hc_h SHA1_Init) (md_blocks (md_pad True (concat chunks)))" "length (hc_h c') = Suc (Suc (Suc (Suc (Suc 0))))"
    using foldl_block_cong [of 5 sha1_block fips1_block, OF sha1_block_fips length_fips1_block l] md_blocks_length c'(2) by auto
  from h(2) obtain a b c d e where v: "hc_h c' = [a, b, c, d, e]" unfolding length_Suc_conv length_0_conv by blast
  show ?thesis unfolding c'(1) fips_sha1_def i [symmetric] h(1) [symmetric] sha1_make_string_def HOST_l2c_be v by (simp del: be_enc.simps)
qed

end
