(* ===== verification/Md5.thy ===== *)
theory Md5
  imports Sha1
begin

text \<open>
  \<open>crypto/fipsmodule/md4/md4.c\<close> and \<open>md5/md5.c\<close>: MD4 and MD5 over the little-endian collector of \<open>Md32\<close>.  The steps are
  unrolled in the code; their arguments are listed as tables.  The references are the algorithms of RFC 1320 and RFC
  1321, with the functions of the RFCs, the order of the words and the rotations given by formulas, the constants of MD5 by
  the sine function and the initial value by its bytes; they use no function or table of the code.
\<close>

unbundle bit_operations_syntax

section \<open>The code\<close>

subsection \<open>Macros\<close>

definition md4_F :: "u32 \<Rightarrow> u32 \<Rightarrow> u32 \<Rightarrow> u32" where
  "md4_F b c d = ((c XOR d) AND b) XOR d"

definition md4_G :: "u32 \<Rightarrow> u32 \<Rightarrow> u32 \<Rightarrow> u32" where
  "md4_G b c d = (b AND c) OR (b AND d) OR (c AND d)"

definition md4_H :: "u32 \<Rightarrow> u32 \<Rightarrow> u32 \<Rightarrow> u32" where
  "md4_H b c d = b XOR c XOR d"

definition md5_F :: "u32 \<Rightarrow> u32 \<Rightarrow> u32 \<Rightarrow> u32" where
  "md5_F b c d = ((c XOR d) AND b) XOR d"

definition md5_G :: "u32 \<Rightarrow> u32 \<Rightarrow> u32 \<Rightarrow> u32" where
  "md5_G b c d = ((b XOR c) AND d) XOR c"

definition md5_H :: "u32 \<Rightarrow> u32 \<Rightarrow> u32 \<Rightarrow> u32" where
  "md5_H b c d = b XOR c XOR d"

definition md5_I :: "u32 \<Rightarrow> u32 \<Rightarrow> u32 \<Rightarrow> u32" where
  "md5_I b c d = (NOT d OR b) XOR c"

text \<open>\<open>R0\<close>, \<open>R1\<close>, \<open>R2\<close> (and \<open>R3\<close>) differ in the function \<open>f\<close>; the result is the new value of \<open>a\<close>.\<close>

definition md4_R :: "(u32 \<Rightarrow> u32 \<Rightarrow> u32 \<Rightarrow> u32) \<Rightarrow> u32 \<Rightarrow> u32 \<Rightarrow> u32 \<Rightarrow> u32 \<Rightarrow> u32 \<Rightarrow> nat \<Rightarrow> u32 \<Rightarrow> u32" where
  "md4_R f a b c d k s t = (let a = a + (k + t + f b c d) in ROTATE a s)"

definition md5_R :: "(u32 \<Rightarrow> u32 \<Rightarrow> u32 \<Rightarrow> u32) \<Rightarrow> u32 \<Rightarrow> u32 \<Rightarrow> u32 \<Rightarrow> u32 \<Rightarrow> u32 \<Rightarrow> nat \<Rightarrow> u32 \<Rightarrow> u32" where
  "md5_R f a b c d k s t = (let a = a + (k + t + f b c d); a = ROTATE a s in a + b)"

definition md4_macro :: "nat \<Rightarrow> u32 \<Rightarrow> u32 \<Rightarrow> u32 \<Rightarrow> u32 \<Rightarrow> u32 \<Rightarrow> nat \<Rightarrow> u32 \<Rightarrow> u32" where
  "md4_macro n = md4_R (if n = 0 then md4_F else if n = 1 then md4_G else md4_H)"

definition md5_macro :: "nat \<Rightarrow> u32 \<Rightarrow> u32 \<Rightarrow> u32 \<Rightarrow> u32 \<Rightarrow> u32 \<Rightarrow> nat \<Rightarrow> u32 \<Rightarrow> u32" where
  "md5_macro n = md5_R (if n = 0 then md5_F else if n = 1 then md5_G else if n = 2 then md5_H else md5_I)"

subsection \<open>The unrolled steps\<close>

text \<open>The arguments \<open>k\<close> (the number of the word), \<open>s\<close> and \<open>t\<close> of the steps, sixteen for each of the macros.\<close>

definition md4_steps :: "(nat \<times> nat \<times> u32) list" where
  "md4_steps = [
    (0, 3, 0), (1, 7, 0), (2, 11, 0), (3, 19, 0),
    (4, 3, 0), (5, 7, 0), (6, 11, 0), (7, 19, 0),
    (8, 3, 0), (9, 7, 0), (10, 11, 0), (11, 19, 0),
    (12, 3, 0), (13, 7, 0), (14, 11, 0), (15, 19, 0),
    (0, 3, 0x5A827999), (4, 5, 0x5A827999), (8, 9, 0x5A827999), (12, 13, 0x5A827999),
    (1, 3, 0x5A827999), (5, 5, 0x5A827999), (9, 9, 0x5A827999), (13, 13, 0x5A827999),
    (2, 3, 0x5A827999), (6, 5, 0x5A827999), (10, 9, 0x5A827999), (14, 13, 0x5A827999),
    (3, 3, 0x5A827999), (7, 5, 0x5A827999), (11, 9, 0x5A827999), (15, 13, 0x5A827999),
    (0, 3, 0x6ED9EBA1), (8, 9, 0x6ED9EBA1), (4, 11, 0x6ED9EBA1), (12, 15, 0x6ED9EBA1),
    (2, 3, 0x6ED9EBA1), (10, 9, 0x6ED9EBA1), (6, 11, 0x6ED9EBA1), (14, 15, 0x6ED9EBA1),
    (1, 3, 0x6ED9EBA1), (9, 9, 0x6ED9EBA1), (5, 11, 0x6ED9EBA1), (13, 15, 0x6ED9EBA1),
    (3, 3, 0x6ED9EBA1), (11, 9, 0x6ED9EBA1), (7, 11, 0x6ED9EBA1), (15, 15, 0x6ED9EBA1)]"

definition md5_steps :: "(nat \<times> nat \<times> u32) list" where
  "md5_steps = [
    (0, 7, 0xd76aa478), (1, 12, 0xe8c7b756), (2, 17, 0x242070db), (3, 22, 0xc1bdceee),
    (4, 7, 0xf57c0faf), (5, 12, 0x4787c62a), (6, 17, 0xa8304613), (7, 22, 0xfd469501),
    (8, 7, 0x698098d8), (9, 12, 0x8b44f7af), (10, 17, 0xffff5bb1), (11, 22, 0x895cd7be),
    (12, 7, 0x6b901122), (13, 12, 0xfd987193), (14, 17, 0xa679438e), (15, 22, 0x49b40821),
    (1, 5, 0xf61e2562), (6, 9, 0xc040b340), (11, 14, 0x265e5a51), (0, 20, 0xe9b6c7aa),
    (5, 5, 0xd62f105d), (10, 9, 0x02441453), (15, 14, 0xd8a1e681), (4, 20, 0xe7d3fbc8),
    (9, 5, 0x21e1cde6), (14, 9, 0xc33707d6), (3, 14, 0xf4d50d87), (8, 20, 0x455a14ed),
    (13, 5, 0xa9e3e905), (2, 9, 0xfcefa3f8), (7, 14, 0x676f02d9), (12, 20, 0x8d2a4c8a),
    (5, 4, 0xfffa3942), (8, 11, 0x8771f681), (11, 16, 0x6d9d6122), (14, 23, 0xfde5380c),
    (1, 4, 0xa4beea44), (4, 11, 0x4bdecfa9), (7, 16, 0xf6bb4b60), (10, 23, 0xbebfbc70),
    (13, 4, 0x289b7ec6), (0, 11, 0xeaa127fa), (3, 16, 0xd4ef3085), (6, 23, 0x04881d05),
    (9, 4, 0xd9d4d039), (12, 11, 0xe6db99e5), (15, 16, 0x1fa27cf8), (2, 23, 0xc4ac5665),
    (0, 6, 0xf4292244), (7, 10, 0x432aff97), (14, 15, 0xab9423a7), (5, 21, 0xfc93a039),
    (12, 6, 0x655b59c3), (3, 10, 0x8f0ccc92), (10, 15, 0xffeff47d), (1, 21, 0x85845dd1),
    (8, 6, 0x6fa87e4f), (15, 10, 0xfe2ce6e0), (6, 15, 0xa3014314), (13, 21, 0x4e0811a1),
    (4, 6, 0xf7537e82), (11, 10, 0xbd3af235), (2, 15, 0x2ad7d2bb), (9, 21, 0xeb86d391)]"

text \<open>Step \<open>i\<close> calls its macro on \<open>A, B, C, D\<close> rotated by \<open>i\<close> places to the right; steps 0 to 14 read the next word of the
  block first.\<close>

definition md_load :: "u8 list \<Rightarrow> nat \<Rightarrow> u32 list \<Rightarrow> u32 list" where
  "md_load data i X = X[i := HOST_c2l False (drop (4 * i) data)]"

definition md_step ::
  "(nat \<Rightarrow> u32 \<Rightarrow> u32 \<Rightarrow> u32 \<Rightarrow> u32 \<Rightarrow> u32 \<Rightarrow> nat \<Rightarrow> u32 \<Rightarrow> u32) \<Rightarrow> (nat \<times> nat \<times> u32) list \<Rightarrow> u8 list
    \<Rightarrow> u32 list \<times> u32 list \<Rightarrow> nat \<Rightarrow> u32 list \<times> u32 list" where
  "md_step macro steps data z i =
     (let X = (if i < 15 then md_load data (i + 1) (snd z) else snd z);
          v = rotate (3 * i) (fst z) in
      case steps ! i of (k, s, t) \<Rightarrow>
        (rotate i (v[0 := macro (i div 16) (v ! 0) (v ! 1) (v ! 2) (v ! 3) (X ! k) s t]), X))"

definition md4_block :: "u32 list \<Rightarrow> u8 list \<Rightarrow> u32 list" where
  "md4_block state data =
     (let s = foldl (md_step md4_macro md4_steps data) (state, md_load data 0 (replicate 16 0)) [0..<48] in
      map2 (+) state (fst s))"

definition md5_block :: "u32 list \<Rightarrow> u8 list \<Rightarrow> u32 list" where
  "md5_block state data =
     (let s = foldl (md_step md5_macro md5_steps data) (state, md_load data 0 (replicate 16 0)) [0..<64] in
      map2 (+) state (fst s))"

subsection \<open>The functions\<close>

definition md4_make_string :: "HASH_CTX \<Rightarrow> u8 list option" where
  "md4_make_string c =
     Some (HOST_l2c False (hc_h c ! 0) @ HOST_l2c False (hc_h c ! 1) @ HOST_l2c False (hc_h c ! 2) @ HOST_l2c False (hc_h c ! 3))"

definition md5_make_string :: "HASH_CTX \<Rightarrow> u8 list option" where
  "md5_make_string c =
     Some (HOST_l2c False (hc_h c ! 0) @ HOST_l2c False (hc_h c ! 1) @ HOST_l2c False (hc_h c ! 2) @ HOST_l2c False (hc_h c ! 3))"

definition md4_params :: md_params where
  "md4_params = \<lparr>mp_block = md4_block, mp_big = False, mp_string = md4_make_string\<rparr>"

definition md5_params :: md_params where
  "md5_params = \<lparr>mp_block = md5_block, mp_big = False, mp_string = md5_make_string\<rparr>"

definition MD4_Init :: HASH_CTX where
  "MD4_Init = (zero_ctx 4)\<lparr>hc_h := [0x67452301, 0xefcdab89, 0x98badcfe, 0x10325476]\<rparr>"

definition MD5_Init :: HASH_CTX where
  "MD5_Init = (zero_ctx 4)\<lparr>hc_h := [0x67452301, 0xefcdab89, 0x98badcfe, 0x10325476]\<rparr>"

definition MD4_Update :: "HASH_CTX \<Rightarrow> u8 list \<Rightarrow> HASH_CTX" where
  "MD4_Update = HASH_UPDATE md4_params"

definition MD5_Update :: "HASH_CTX \<Rightarrow> u8 list \<Rightarrow> HASH_CTX" where
  "MD5_Update = HASH_UPDATE md5_params"

definition MD4_Final :: "HASH_CTX \<Rightarrow> u8 list option \<times> HASH_CTX" where
  "MD4_Final = HASH_FINAL md4_params"

definition MD5_Final :: "HASH_CTX \<Rightarrow> u8 list option \<times> HASH_CTX" where
  "MD5_Final = HASH_FINAL md5_params"

definition MD4 :: "u8 list \<Rightarrow> u8 list option" where
  "MD4 data = fst (MD4_Final (MD4_Update MD4_Init data))"

definition MD5 :: "u8 list \<Rightarrow> u8 list option" where
  "MD5 data = fst (MD5_Final (MD5_Update MD5_Init data))"

section \<open>RFC 1320 and RFC 1321\<close>

definition rfc_word :: "u8 list \<Rightarrow> nat \<Rightarrow> u32" where
  "rfc_word M j = word_of_nat (le_val (take 4 (drop (4 * j) M)))"

definition rfc_F :: "u32 \<Rightarrow> u32 \<Rightarrow> u32 \<Rightarrow> u32" where
  "rfc_F x y z = (x AND y) OR (NOT x AND z)"

definition rfc1320_f :: "nat \<Rightarrow> u32 \<Rightarrow> u32 \<Rightarrow> u32 \<Rightarrow> u32" where
  "rfc1320_f t x y z = (if t < 16 then rfc_F x y z
     else if t < 32 then (x AND y) OR (x AND z) OR (y AND z) else x XOR y XOR z)"

definition rfc1321_f :: "nat \<Rightarrow> u32 \<Rightarrow> u32 \<Rightarrow> u32 \<Rightarrow> u32" where
  "rfc1321_f t x y z = (if t < 16 then rfc_F x y z else if t < 32 then (x AND z) OR (y AND NOT z)
     else if t < 48 then x XOR y XOR z else y XOR (x OR NOT z))"

text \<open>The word used in step \<open>t\<close>: in order, by columns and in the order of the reversed bits for MD4; with strides 1, 5, 3 and
  7 for MD5.\<close>

definition rfc1320_k :: "nat \<Rightarrow> nat" where
  "rfc1320_k t = (let i = t mod 16 in
     if t < 16 then i else if t < 32 then 4 * (i mod 4) + i div 4
     else 8 * (i mod 2) + 4 * (i div 2 mod 2) + 2 * (i div 4 mod 2) + i div 8)"

definition rfc1321_k :: "nat \<Rightarrow> nat" where
  "rfc1321_k t = (if t < 16 then t else if t < 32 then (1 + 5 * t) mod 16 else if t < 48 then (5 + 3 * t) mod 16 else 7 * t mod 16)"

definition rfc1320_s :: "nat \<Rightarrow> nat" where
  "rfc1320_s t = [[3, 7, 11, 19], [3, 5, 9, 13], [3, 9, 11, 15]] ! (t div 16) ! (t mod 4)"

definition rfc1321_s :: "nat \<Rightarrow> nat" where
  "rfc1321_s t = [[7, 12, 17, 22], [5, 9, 14, 20], [4, 11, 16, 23], [6, 10, 15, 21]] ! (t div 16) ! (t mod 4)"

definition rfc1320_K :: "nat \<Rightarrow> u32" where
  "rfc1320_K t = (if t < 16 then 0 else if t < 32 then 0x5a827999 else 0x6ed9eba1)"

definition rfc1320_round :: "u8 list \<Rightarrow> u32 list \<Rightarrow> nat \<Rightarrow> u32 list" where
  "rfc1320_round M v t =
     (case v of [a, b, c, d] \<Rightarrow>
        [d, word_rotl (rfc1320_s t) (a + rfc1320_f t b c d + rfc_word M (rfc1320_k t) + rfc1320_K t), b, c]
      | _ \<Rightarrow> v)"

text \<open>Section 3.3 of both documents: the bytes of the four words, low order bytes first.  Section 3.4 of RFC 1321: the
  constant of step \<open>t\<close>, counted from 1, is the integer part of \<open>2\<^sup>3\<^sup>2 \<bar>sin t\<bar>\<close>.\<close>

definition rfc_init :: "u32 list" where
  "rfc_init = map (rfc_word (concat [
     [0x01, 0x23, 0x45, 0x67], [0x89, 0xab, 0xcd, 0xef],
     [0xfe, 0xdc, 0xba, 0x98], [0x76, 0x54, 0x32, 0x10]])) [0..<4]"

definition rfc1321_T :: "nat \<Rightarrow> u32" where
  "rfc1321_T t = sine_bits (t + 1)"

definition rfc1321_round :: "u8 list \<Rightarrow> u32 list \<Rightarrow> nat \<Rightarrow> u32 list" where
  "rfc1321_round M v t =
     (case v of [a, b, c, d] \<Rightarrow>
        [d, b + word_rotl (rfc1321_s t) (a + rfc1321_f t b c d + rfc_word M (rfc1321_k t) + rfc1321_T t), b, c]
      | _ \<Rightarrow> v)"

definition rfc_md4 :: "u8 list \<Rightarrow> u8 list" where
  "rfc_md4 msg = concat (map (\<lambda>w. rev (be_enc 4 (unat w)))
     (foldl (\<lambda>H M. map2 (+) H (foldl (rfc1320_round M) H [0..<48])) rfc_init (md_blocks (md_pad False msg))))"

definition rfc_md5 :: "u8 list \<Rightarrow> u8 list" where
  "rfc_md5 msg = concat (map (\<lambda>w. rev (be_enc 4 (unat w)))
     (foldl (\<lambda>H M. map2 (+) H (foldl (rfc1321_round M) H [0..<64])) rfc_init (md_blocks (md_pad False msg))))"

section \<open>The code computes the references\<close>

lemma F_forms_le: "((c XOR d) AND b) XOR d = rfc_F b c d" "rfc_F d b c = (b AND d) OR (c AND NOT d)"
  "(NOT d OR b) XOR c = c XOR (b OR NOT d)"
  by (rule bit_word_eqI; auto simp: rfc_F_def bit_simps)+

lemma HOST_c2l_rfc_word:
  assumes "4 * j + 4 \<le> length M"
  shows "HOST_c2l False (drop (4 * j) M) = rfc_word M j"
proof -
  have "Suc (Suc (Suc (Suc 0))) \<le> length (drop (4 * j) M)" using assms by simp
  then obtain a b c d r where r: "drop (4 * j) M = a # b # c # d # r"
    unfolding Suc_le_length_iff by blast
  have "HOST_c2l False (a # b # c # d # r)
      = push_bit 24 (ucast d) OR push_bit 16 (ucast c) OR push_bit 8 (ucast b) OR ucast a"
    by (simp add: HOST_c2l_def ac_simps)
  also have "\<dots> = word_of_nat (be_val [d, c, b, a])" by (simp only: unat_be4 [symmetric] of_nat_unat ucast_id)
  also have "be_val [d, c, b, a] = le_val [a, b, c, d]" by simp
  finally show ?thesis unfolding r rfc_word_def by simp
qed

definition md_inv :: "(u32 list \<Rightarrow> nat \<Rightarrow> u32 list) \<Rightarrow> u32 list \<Rightarrow> u8 list \<Rightarrow> nat \<Rightarrow> u32 list \<times> u32 list \<Rightarrow> bool" where
  "md_inv rnd H M i z \<longleftrightarrow> length (fst z) = 4 \<and> rotate (3 * i) (fst z) = foldl rnd H [0..<i]
     \<and> length (snd z) = 16 \<and> (\<forall>j \<le> i. j < 16 \<longrightarrow> snd z ! j = rfc_word M j)"

lemma md_load_ok:
  assumes "\<forall>j < i. X ! j = rfc_word M j" "length X = 16" "i < 16" "length M = 64"
  shows "\<forall>j \<le> i. md_load M i X ! j = rfc_word M j"
  using assms HOST_c2l_rfc_word [of i M] by (auto simp: md_load_def nth_list_update)

lemma md_step_inv:
  assumes z: "md_inv rnd H M i z" and M: "length M = 64" and st: "steps ! i = (k, s, t)" "k < 16" "i < 16 \<Longrightarrow> k \<le> i"
    and rnd: "\<And>a b c d. rnd [a, b, c, d] i = [d, macro (i div 16) a b c d (rfc_word M k) s t, b, c]"
  shows "md_inv rnd H M (Suc i) (md_step macro steps M z i)"
proof -
  define X where "X = (if i < 15 then md_load M (i + 1) (snd z) else snd z)"
  have X: "length X = 16" "\<forall>j \<le> Suc i. j < 16 \<longrightarrow> X ! j = rfc_word M j"
  proof -
    show "length X = 16" using z by (simp add: X_def md_inv_def md_load_def)
    show "\<forall>j \<le> Suc i. j < 16 \<longrightarrow> X ! j = rfc_word M j"
    proof (cases "i < 15")
      case True
      then show ?thesis using z M md_load_ok [of "i + 1" "snd z" M] by (simp add: X_def md_inv_def)
    next
      case False
      then show ?thesis using z by (simp add: X_def md_inv_def)
    qed
  qed
  have x: "X ! k = rfc_word M k" using X(2) st(2,3) by (cases "i < 16") auto
  have "length (fst z) = 4" using z by (simp add: md_inv_def)
  then have "length (rotate (3 * i) (fst z)) = Suc (Suc (Suc (Suc 0)))" by simp
  then obtain a b c d where v: "rotate (3 * i) (fst z) = [a, b, c, d]"
    unfolding length_Suc_conv length_0_conv by blast
  let ?a = "macro (i div 16) a b c d (rfc_word M k) s t"
  have step: "md_step macro steps M z i = (rotate i [?a, b, c, d], X)"
    unfolding md_step_def Let_def X_def [symmetric] v by (simp add: st(1) x)
  have "rotate (3 * Suc i) (rotate i [?a, b, c, d]) = rotate (3 + 4 * i) [?a, b, c, d]"
    by (simp only: rotate_rotate) (simp add: add.commute)
  also have "\<dots> = rotate 3 [?a, b, c, d]" by (subst (1 2) rotate_conv_mod) simp
  also have "\<dots> = [d, ?a, b, c]" by (simp add: rotate_drop_take)
  also have "\<dots> = foldl rnd H [0..<Suc i]"
  proof -
    have "foldl rnd H [0..<i] = [a, b, c, d]" using z unfolding md_inv_def v by simp
    then show ?thesis by (simp add: rnd)
  qed
  finally show ?thesis using X unfolding md_inv_def step by simp
qed

text \<open>All the steps of a block.\<close>

lemma md_block_steps:
  assumes H: "length H = 4" and M: "length M = 64"
    and tab: "\<And>i. i < n \<Longrightarrow> \<exists>k s t. steps ! i = (k, s, t) \<and> k < 16 \<and> (i < 16 \<longrightarrow> k \<le> i)
      \<and> (\<forall>a b c d. rnd [a, b, c, d] i = [d, macro (i div 16) a b c d (rfc_word M k) s t, b, c])"
    and n: "n mod 4 = 0"
  shows "fst (foldl (md_step macro steps M) (H, md_load M 0 (replicate 16 0)) [0..<n]) = foldl rnd H [0..<n]
    \<and> length (foldl rnd H [0..<n]) = 4"
proof -
  define z where "z = (H, md_load M 0 (replicate 16 0))"
  have 0: "md_inv rnd H M 0 z" using H M md_load_ok [of 0 "replicate 16 0" M] by (simp add: md_inv_def z_def md_load_def)
  have 1: "i \<le> n \<Longrightarrow> md_inv rnd H M i (foldl (md_step macro steps M) z [0..<i])" for i
  proof (induction i)
    case (Suc i)
    then obtain k s t where "steps ! i = (k, s, t)" "k < 16" "i < 16 \<longrightarrow> k \<le> i"
      "\<forall>a b c d. rnd [a, b, c, d] i = [d, macro (i div 16) a b c d (rfc_word M k) s t, b, c]" using tab [of i] by auto
    then show ?case using md_step_inv [of rnd H M i _ steps k s t macro] Suc M by simp
  qed (simp add: 0)
  let ?r = "fst (foldl (md_step macro steps M) z [0..<n])"
  have "length ?r = 4" "rotate (3 * n) ?r = foldl rnd H [0..<n]" using 1 [of n] by (simp_all add: md_inv_def)
  moreover have "rotate (3 * n) ?r = ?r" using calculation(1) n by (subst rotate_conv_mod) (simp add: mod_mult_right_eq [of 3 n 4, symmetric])
  ultimately show ?thesis unfolding z_def by simp
qed

text \<open>The tables of the code are the formulas of the references.\<close>

lemma md5_tables: "map fst md5_steps = map rfc1321_k [0..<64]" "map (\<lambda>x. fst (snd x)) md5_steps = map rfc1321_s [0..<64]"
  by (simp_all add: md5_steps_def rfc1321_k_def rfc1321_s_def upt_conv_Cons)

lemma md4_tables: "map fst md4_steps = map rfc1320_k [0..<48]" "map (\<lambda>x. fst (snd x)) md4_steps = map rfc1320_s [0..<48]"
  "map (\<lambda>x. snd (snd x)) md4_steps = map rfc1320_K [0..<48]"
  by (simp_all add: md4_steps_def rfc1320_k_def rfc1320_s_def rfc1320_K_def upt_conv_Cons Let_def)

lemma md5_sines:
  "sine_table 38932884214002780 60634374617982832 2 (map (\<lambda>x. snd (snd x)) md5_steps)"
  by (simp add: md5_steps_def)

lemma md5_table:
  assumes "t < 64"
  shows "md5_steps ! t = (rfc1321_k t, rfc1321_s t, rfc1321_T t)"
proof -
  have l: "length md5_steps = 64" by (simp add: md5_steps_def)
  have "sine_bits (1 + t) = map (\<lambda>x. snd (snd x)) md5_steps ! t"
    by (rule sine_table_bits [OF md5_sines]) (use near_1 assms l in simp_all)
  then have "snd (snd (md5_steps ! t)) = rfc1321_T t" using assms l by (simp add: rfc1321_T_def)
  moreover
  have "fst (md5_steps ! t) = rfc1321_k t" "fst (snd (md5_steps ! t)) = rfc1321_s t"
    using arg_cong [OF md5_tables(1), of "\<lambda>xs. xs ! t"] arg_cong [OF md5_tables(2), of "\<lambda>xs. xs ! t"] assms l by simp_all
  ultimately show ?thesis by (metis prod.collapse)
qed

lemma md4_table:
  assumes "t < 48"
  shows "md4_steps ! t = (rfc1320_k t, rfc1320_s t, rfc1320_K t)"
proof -
  have l: "length md4_steps = 48" by (simp add: md4_steps_def)
  have "fst (md4_steps ! t) = rfc1320_k t" "fst (snd (md4_steps ! t)) = rfc1320_s t" "snd (snd (md4_steps ! t)) = rfc1320_K t"
    using arg_cong [OF md4_tables(1), of "\<lambda>xs. xs ! t"] arg_cong [OF md4_tables(2), of "\<lambda>xs. xs ! t"]
      arg_cong [OF md4_tables(3), of "\<lambda>xs. xs ! t"] assms l by simp_all
  then show ?thesis by (metis prod.collapse)
qed

lemma shift_bounds: "t < 64 \<Longrightarrow> 0 < rfc1321_s t \<and> rfc1321_s t < 32" "t < 48 \<Longrightarrow> 0 < rfc1320_s t \<and> rfc1320_s t < 32"
proof -
  have "\<forall>x \<in> set (map rfc1321_s [0..<64]). 0 < x \<and> x < 32" unfolding md5_tables [symmetric] by (simp add: md5_steps_def)
  then show "t < 64 \<Longrightarrow> 0 < rfc1321_s t \<and> rfc1321_s t < 32" by simp
  have "\<forall>x \<in> set (map rfc1320_s [0..<48]). 0 < x \<and> x < 32" unfolding md4_tables [symmetric] by (simp add: md4_steps_def)
  then show "t < 48 \<Longrightarrow> 0 < rfc1320_s t \<and> rfc1320_s t < 32" by simp
qed

lemma rfc_k_bounds: "rfc1321_k t < 16 \<or> 64 \<le> t" "t < 16 \<Longrightarrow> rfc1321_k t \<le> t" "t < 48 \<Longrightarrow> rfc1320_k t < 16" "t < 16 \<Longrightarrow> rfc1320_k t \<le> t"
proof -
  show "rfc1321_k t < 16 \<or> 64 \<le> t" "t < 16 \<Longrightarrow> rfc1321_k t \<le> t" "t < 16 \<Longrightarrow> rfc1320_k t \<le> t"
    by (auto simp: rfc1321_k_def rfc1320_k_def)
  have "\<forall>x \<in> set (map rfc1320_k [0..<48]). x < 16" unfolding md4_tables [symmetric] by (simp add: md4_steps_def)
  then show "t < 48 \<Longrightarrow> rfc1320_k t < 16" by simp
qed

lemma round_of:
  fixes i :: nat
  shows "i < 16 \<Longrightarrow> i div 16 = 0" "16 \<le> i \<Longrightarrow> i < 32 \<Longrightarrow> i div 16 = 1" "32 \<le> i \<Longrightarrow> i < 48 \<Longrightarrow> i div 16 = 2" "48 \<le> i \<Longrightarrow> i < 64 \<Longrightarrow> i div 16 = 3"
  by (simp_all add: div_nat_eqI)

lemma md5_round_eq:
  assumes "i < 64"
  shows "rfc1321_round M [a, b, c, d] i
    = [d, md5_macro (i div 16) a b c d (rfc_word M (rfc1321_k i)) (rfc1321_s i) (rfc1321_T i), b, c]"
proof -
  have f: "(if i div 16 = 0 then md5_F else if i div 16 = 1 then md5_G else if i div 16 = 2 then md5_H else md5_I) b c d = rfc1321_f i b c d"
  proof -
    consider "i < 16" | "16 \<le> i" "i < 32" | "32 \<le> i" "i < 48" | "48 \<le> i" "i < 64" using assms by linarith
    then show ?thesis
      by cases (simp_all add: round_of rfc1321_f_def md5_F_def md5_G_def md5_H_def md5_I_def F_forms_le)
  qed
  show ?thesis
    unfolding md5_macro_def md5_R_def f Let_def using shift_bounds(1) [OF assms]
    by (simp add: rfc1321_round_def ROTATE_rotl algebra_simps)
qed

lemma md4_round_eq:
  assumes "i < 48"
  shows "rfc1320_round M [a, b, c, d] i
    = [d, md4_macro (i div 16) a b c d (rfc_word M (rfc1320_k i)) (rfc1320_s i) (rfc1320_K i), b, c]"
proof -
  have f: "(if i div 16 = 0 then md4_F else if i div 16 = 1 then md4_G else md4_H) b c d = rfc1320_f i b c d"
  proof -
    consider "i < 16" | "16 \<le> i" "i < 32" | "32 \<le> i" "i < 48" using assms by linarith
    then show ?thesis
      by cases (simp_all add: round_of rfc1320_f_def md4_F_def md4_G_def md4_H_def F_forms_le)
  qed
  show ?thesis
    unfolding md4_macro_def md4_R_def f Let_def using shift_bounds(2) [OF assms]
    by (simp add: rfc1320_round_def ROTATE_rotl algebra_simps)
qed

lemma md5_block_rfc:
  assumes "length H = 4" "length M = 64"
  shows "md5_block H M = map2 (+) H (foldl (rfc1321_round M) H [0..<64])" (is ?eq)
    and "length (map2 (+) H (foldl (rfc1321_round M) H [0..<64])) = 4" (is ?len)
proof -
  have "fst (foldl (md_step md5_macro md5_steps M) (H, md_load M 0 (replicate 16 0)) [0..<64]) = foldl (rfc1321_round M) H [0..<64]
    \<and> length (foldl (rfc1321_round M) H [0..<64]) = 4"
  proof (rule md_block_steps [OF assms])
    show "\<exists>k s t. md5_steps ! i = (k, s, t) \<and> k < 16 \<and> (i < 16 \<longrightarrow> k \<le> i)
        \<and> (\<forall>a b c d. rfc1321_round M [a, b, c, d] i = [d, md5_macro (i div 16) a b c d (rfc_word M k) s t, b, c])" if "i < 64" for i
      using md5_table [OF that] md5_round_eq [OF that] rfc_k_bounds(1) [of i] rfc_k_bounds(2) [of i] that
      by (metis not_less)
  qed simp
  then show ?eq ?len using assms(1) unfolding md5_block_def Let_def by (simp_all del: upt_Suc)
qed

lemma md4_block_rfc:
  assumes "length H = 4" "length M = 64"
  shows "md4_block H M = map2 (+) H (foldl (rfc1320_round M) H [0..<48])" (is ?eq)
    and "length (map2 (+) H (foldl (rfc1320_round M) H [0..<48])) = 4" (is ?len)
proof -
  have "fst (foldl (md_step md4_macro md4_steps M) (H, md_load M 0 (replicate 16 0)) [0..<48]) = foldl (rfc1320_round M) H [0..<48]
    \<and> length (foldl (rfc1320_round M) H [0..<48]) = 4"
  proof (rule md_block_steps [OF assms])
    show "\<exists>k s t. md4_steps ! i = (k, s, t) \<and> k < 16 \<and> (i < 16 \<longrightarrow> k \<le> i)
        \<and> (\<forall>a b c d. rfc1320_round M [a, b, c, d] i = [d, md4_macro (i div 16) a b c d (rfc_word M k) s t, b, c])" if "i < 48" for i
      using md4_table [OF that] md4_round_eq [OF that] rfc_k_bounds(3) [OF that] rfc_k_bounds(4) [of i] by blast
  qed simp
  then show ?eq ?len using assms(1) unfolding md4_block_def Let_def by (simp_all del: upt_Suc)
qed

lemma md_block_fold:
  assumes "\<And>H M. length H = 4 \<Longrightarrow> length M = 64 \<Longrightarrow> f H M = g H M" "\<And>H M. length H = 4 \<Longrightarrow> length M = 64 \<Longrightarrow> length (g H M) = 4"
    "length H = (4 :: nat)" "\<forall>b \<in> set bs. length b = 64"
  shows "foldl f H bs = foldl g H bs \<and> length (foldl g H bs) = 4"
  using assms(3,4) by (induction bs arbitrary: H) (simp_all add: assms(1,2))

text \<open>C19. MD4 and MD5 are the functions of RFC 1320 and RFC 1321: for every message, split over the calls of the update
  functions in any way, the final functions return the digests of these documents.\<close>

theorem MD5_is_RFC:
  "fst (MD4_Final (foldl MD4_Update MD4_Init chunks)) = Some (rfc_md4 (concat chunks))
   \<and> fst (MD5_Final (foldl MD5_Update MD5_Init chunks)) = Some (rfc_md5 (concat chunks))"
proof -
  let ?bs = "md_blocks (md_pad False (concat chunks))"
  have r: "hc_h MD5_Init = rfc_init" "hc_h MD4_Init = rfc_init"
    by (simp_all add: MD5_Init_def MD4_Init_def rfc_init_def rfc_word_def upt_conv_Cons)
  have s: "HOST_l2c False (h ! 0) @ HOST_l2c False (h ! 1) @ HOST_l2c False (h ! 2) @ HOST_l2c False (h ! 3)
    = concat (map (\<lambda>w. rev (be_enc 4 (unat w))) h)" if "length h = 4" for h
  proof -
    have "length h = Suc (Suc (Suc (Suc 0)))" using that by simp
    then obtain a b c d where "h = [a, b, c, d]" unfolding length_Suc_conv length_0_conv by blast
    then show ?thesis by (simp add: HOST_l2c_le HOST_l2c_be del: be_enc.simps)
  qed
  have "hash_rep md5_params (hc_h MD5_Init) MD5_Init []" by (simp add: hash_rep_def count_ok_def MD5_Init_def zero_ctx_def)
  from HASH_chunks [OF this, of chunks] obtain c where c: "fst (MD5_Final (foldl MD5_Update MD5_Init chunks)) = md5_make_string c"
    "hc_h c = foldl md5_block (hc_h MD5_Init) ?bs"
    by (auto simp: MD5_Final_def MD5_Update_def md5_params_def)
  have "hash_rep md4_params (hc_h MD4_Init) MD4_Init []" by (simp add: hash_rep_def count_ok_def MD4_Init_def zero_ctx_def)
  from HASH_chunks [OF this, of chunks] obtain c4 where c4: "fst (MD4_Final (foldl MD4_Update MD4_Init chunks)) = md4_make_string c4"
    "hc_h c4 = foldl md4_block (hc_h MD4_Init) ?bs"
    by (auto simp: MD4_Final_def MD4_Update_def md4_params_def)
  have i: "length (hc_h MD5_Init) = 4" "length (hc_h MD4_Init) = 4" by (simp_all add: MD5_Init_def MD4_Init_def)
  have h: "hc_h c = foldl (\<lambda>H M. map2 (+) H (foldl (rfc1321_round M) H [0..<64])) (hc_h MD5_Init) ?bs \<and> length (hc_h c) = 4"
    using md_block_fold [OF md5_block_rfc i(1), where bs = ?bs] md_blocks_length unfolding c(2) by simp
  have h4: "hc_h c4 = foldl (\<lambda>H M. map2 (+) H (foldl (rfc1320_round M) H [0..<48])) (hc_h MD4_Init) ?bs \<and> length (hc_h c4) = 4"
    using md_block_fold [OF md4_block_rfc i(2), where bs = ?bs] md_blocks_length unfolding c4(2) by simp
  show ?thesis
    using s [OF conjunct2 [OF h]] s [OF conjunct2 [OF h4]] conjunct1 [OF h] conjunct1 [OF h4]
    unfolding c(1) c4(1) md5_make_string_def md4_make_string_def rfc_md5_def rfc_md4_def r by simp
qed

end
