(* ===== verification/Spec2Isabelle.thy ===== *)
theory Spec2Isabelle
  imports Base64_Stream Ber Cbb_Sticky Ssl_Stack Ssl_LHash_Iter Bio_Pair_Run Bio_Mem_Correct Pb_Decode_Required Pb_Decode_Fields
    Modes_Ctr32 Modes_Feedback Modes_Cbc Key_Wrap Md5
begin

text \<open>
  \<^bold>\<open>The program.\<close>  VoteOnOffice is an iOS application.  Its own code is Swift that calls Firebase, Realm and
  charting libraries; the C code of the repository is vendored under \<open>src/VoteOnOffice/Pods\<close>: BoringSSL, on which
  gRPC and Firestore build their TLS connections, and nanopb, with which Firestore encodes and decodes the
  protocol buffers of its local store and of its streams.  This development models the parts of that C code that
  carry data structures and wire formats: base64, DER parsing and building, buffers and memory wrappers, the
  \<open>BIO\<close> streams, the pointer stack and the hash table of BoringSSL, its block cipher modes, key wrap and 32-bit
  message digests, and the whole of nanopb.

  \<^bold>\<open>Conventions (\<open>Byte_Prelude\<close>).\<close>  The fixed-width integers of C are words (\<open>u8\<close>, \<open>u16\<close>, \<open>u32\<close>, \<open>u64\<close>); \<open>size_t\<close> is a
  natural number with \<open>szw\<close> (reduction modulo \<open>2 ^ 64\<close>) written wherever the code can wrap.  A C function that changes
  an object and may fail is a state transformer \<open>('s, 'a) st\<close>, that is \<open>'s \<Rightarrow> 'a option \<times> 's\<close>: \<open>None\<close> is the
  return value 0, and the state after a failure is the one the code leaves behind.  \<open>memcpy_at\<close> and list update are
  the stores into arrays.  The prelude also has the big-endian numbers and the word lemmas the components share.

  \<^bold>\<open>Components, in the order of the code.\<close>
  \<^item> \<open>Const_Time\<close>: the constant-time masks of \<open>crypto/internal.h\<close>; each is proved to be the all-ones or zero mask
    of the comparison it stands for.
  \<^item> \<open>Base64\<close>, \<open>Base64_Stream\<close>: \<open>crypto/base64/base64.c\<close>, block and streaming codec (\<open>EVP_ENCODE_CTX\<close> is a record).
    Block and stream round trips, independence of the chunking, exact lengths with the overflow check, sticky
    decoding errors.
  \<^item> \<open>Mem\<close>: \<open>crypto/mem.c\<close>.  A heap is an oracle for allocation failures and the bytes of fresh memory, together
    with a record of what was freed; blocks carry the 8-byte size prefix.  \<open>OPENSSL_realloc\<close> refines the abstract one
    and hands only zeroed memory back.  \<open>Buf\<close>: \<open>crypto/buf/buf.c\<close>, refinement to byte strings.
  \<^item> \<open>Cbs\<close>, \<open>Der\<close>: \<open>crypto/bytestring/cbs.c\<close>.  A \<open>CBS\<close> is the byte string it points to; the parsers are shown to
    accept exactly the canonical DER encodings, which \<open>Der\<close> defines on numbers and byte strings.
  \<^item> \<open>Cbb\<close>, \<open>Cbb_Correct\<close>, \<open>Cbb_Refine\<close>, \<open>Cbb_Ops\<close>, \<open>Cbb_Roundtrip\<close>: \<open>crypto/bytestring/cbb.c\<close>.  The chain of \<open>CBB\<close>
    objects on one buffer is a list of frames, a handle its position in the chain.  The abstract state is a stack
    of byte strings with the kind of length prefix each will get (\<open>cbb_rep\<close>); every operation refines the
    corresponding stack operation (\<open>outcome\<close>: success with the new stack, or a failed builder, and success
    whenever memory and the length limit allow).  \<open>Cbb_Set_Of\<close> adds \<open>CBB_flush_asn1_set_of\<close> and \<open>asn1_compat.c\<close>,
    \<open>Oid\<close> the object identifiers of both files, and \<open>Ber\<close> the BER converter of \<open>ber.c\<close>.  \<open>Cbb_Sticky\<close> shows that a
    failed builder stays failed through all operations of \<open>cbb.c\<close>.
  \<^item> \<open>Bio_Base\<close>, \<open>Bio_Pair\<close>, \<open>Bio_Mem\<close>, \<open>Bio\<close>: \<open>crypto/bio/pair.c\<close>, \<open>bio_mem.c\<close> and \<open>bio.c\<close>.  \<open>BIO\<close> objects live in a store
    and refer to each other by address; a computation is a partial function on the store, and \<open>None\<close> stands for an
    abort or an access the C standard leaves undefined.  \<open>Bio_Pair_Correct\<close> refines the two ring buffers of a pair to
    queues, \<open>Bio_Pair_Run\<close> follows a pair through any sequence of calls (\<open>pair_reach\<close>) and shows delivery in order and,
    through the locale \<open>byte_channel\<close>, that a sender and a receiver that take turns always finish.  \<open>Bio_Mem_Correct\<close>
    refines memory objects to queues and compares \<open>BIO_read_asn1\<close> with the parser of \<open>Cbs\<close>.
  \<^item> \<open>Ssl_Stack\<close>: \<open>crypto/stack/stack.c\<close>, refinement to sequences; \<open>qsort\<close> and \<open>bsearch\<close> are arguments with the
    contracts of the C standard.  \<open>Ssl_LHash\<close>, \<open>Ssl_LHash_Iter\<close>: \<open>crypto/lhash/lhash.c\<close>, refinement to finite maps
    through resizing and allocation failures, and iteration with callbacks that delete.
  \<^item> \<open>Modes\<close>: \<open>crypto/fipsmodule/modes/cbc.c\<close>, \<open>ctr.c\<close>, \<open>ofb.c\<close> and \<open>cfb.c\<close> over an argument for the block cipher.  Callers
    decrypt CBC data in place, so \<open>cbc.c\<close> works on a byte memory with addresses; \<open>Modes_Cbc\<close> shows that decryption reads
    what it needs before it overwrites it, and inverts encryption.  The other modes are stream ciphers with a
    partly used block as state: \<open>Modes_Stream\<close> states this as the locale \<open>stream_cipher\<close> (both directions iterate a step per
    byte, and one step inverts the other), and interprets it for counter mode, \<open>Modes_Feedback\<close> for the two
    feedback modes.  \<open>Modes_Ctr32\<close> shows that the two implementations of counter mode agree through every carry.  \<open>Key_Wrap\<close>: \<open>aes/key_wrap.c\<close>, unwrapping inverts wrapping exactly.
  \<^item> \<open>Md32\<close>: the collector \<open>digest/md32_common.h\<close>, whose macro parameters are a record of functions; its state represents
    a message (\<open>hash_rep\<close>), updates append to it and the final call processes the padded message.  \<open>Sha256\<close>, \<open>Sha1\<close>
    and \<open>Md5\<close>: the block functions of \<open>sha256.c\<close>, \<open>sha1.c\<close>, \<open>md4.c\<close> and \<open>md5.c\<close>, whose unrolled rounds rename variables
    and overwrite the message schedule, are those of FIPS 180-4, RFC 1320 and RFC 1321.  The references share nothing with
    the code: \<open>Hash_Constants\<close> defines the constants of the standards as bits of roots of primes and of sines, and the
    tables of the code are proved to hold them.
  \<^item> \<open>Pb_Stream\<close>, \<open>Pb_Wire\<close>: the streams and wire primitives of \<open>pb_encode.c\<close> and \<open>pb_decode.c\<close> (buffer streams, user
    callbacks, sizing), with the reference wire format.  \<open>Pb_Common\<close>: field descriptors of \<open>pb.h\<close> and the field
    iterator.  \<open>Pb_Output\<close>, \<open>Pb_Encode\<close>, \<open>Pb_Encode_Wire\<close>: the message encoder and the proof that it writes the wire
    format of the structure.  The format (\<open>wire\<close>) is defined on the bytes of the structure without the functions of the
    encoder; \<open>Pb_Default\<close> has its notions of a string and of a default value of proto3, which has no value where the
    storage of a submessage contradicts a count or flag, as \<open>pb_check_proto3_default_value\<close> looks at the storage only.  \<open>Pb_Decode\<close>: the message decoder; \<open>Pb_Decode_Safe\<close>: memory safety and totality on any
    input; \<open>Pb_Decode_Required\<close>: the check of required fields; \<open>Pb_Decode_Fields\<close>: values are restored.

  \<^bold>\<open>How the components interact.\<close>  \<open>Cbs\<close> and \<open>Cbb\<close> meet in the DER grammar: builders write what parsers accept
  (integers, length prefixes, object identifiers, BER conversion, sets).  \<open>Cbb\<close>, \<open>Buf\<close>, \<open>Ssl_Stack\<close> and \<open>Ssl_LHash\<close>
  allocate through \<open>Mem\<close>.  The nanopb encoder and decoder meet in the wire format, and both walk a structure
  with the iterator of \<open>Pb_Common\<close>.

  \<^bold>\<open>Fuel and termination.\<close>  Loops over input are total functions with a measure (remaining bytes, buckets, words).
  Fuel appears in these places.  The nesting of messages in \<open>pb_encode\<close> and \<open>pb_decode\<close>: descriptors may refer to
  each other in cycles, and fuel \<open>n\<close> suffices for messages nested \<open>n\<close> deep; the theorems show that a result is reached
  for such messages.  Loops of the decoder that read packed arrays and fields get one more than the bytes left,
  which is enough since every round consumes a byte or fails.  \<open>cbs_convert_ber\<close> gets one more than the bytes of
  its input, and the correctness theorem, an equivalence, shows that it is never exhausted.  Iterations of
  \<open>lh_doall\<close> whose callback changes the table may leave the chain; reading a freed item is the result \<open>None\<close>.
  The ring loops of a pair get two rounds, as the code says, and are proved to need no more.  \<open>BIO_free\<close>,
  \<open>last_bio\<close>, \<open>find_type_loop\<close> and \<open>read_all_loop\<close> are partial: chains may be cyclic, and a source may never end;
  for memory objects \<open>read_all_loop\<close> is shown to return.

  \<^bold>\<open>Parameters.\<close>  User callbacks of nanopb (stream reads and writes, callback fields, extension types),
  comparison, hash, copy and free functions of the containers, \<open>qsort\<close>, \<open>bsearch\<close>, the allocator and the block cipher
  of the modes and of key wrap are arguments;
  what a theorem assumes of them is a named predicate with an instance in its witness.

  \<^bold>\<open>Not modelled.\<close>  The Swift application, Firestore, gRPC, Realm, Protobuf for Objective-C and the other pods are
  not C or are glue around services.  Of BoringSSL, the TLS state machines (C++), the block ciphers, GCM, SHA-512,
  big-number and elliptic-curve code of \<open>fipsmodule\<close> and the curves beside it (largely assembly-backed or generated tables), X.509 and the
  \<open>asn1\<close> templates, \<open>evp\<close>, \<open>pem\<close>, \<open>conf\<close>, \<open>err\<close> and the platform layer (threads, random numbers, CPU detection) are left out.
  Of \<open>mem.c\<close>, \<open>BIO_snprintf\<close> appears only through its result in \<open>add_decimal\<close>.  The malloc-based fields of nanopb
  are compiled out in this configuration (\<open>PB_ENABLE_MALLOC\<close> is not set).  The cipher modes are those of a target without
  strict alignment, the digests those of a build without assembly.  What a failed call leaves in its output
  parameters is modelled only where a caller reads it.
\<close>

end
